(* ===== verification/Kopi_Prelude.thy ===== *)
theory Kopi_Prelude
  imports Main "HOL-Library.Word" "HOL-Library.List_Lexorder" "HOL-Library.Sublist"
begin

text \<open>
  Shared vocabulary of the development: the C++ scalar and string types, exceptions as
  values, records of the store (key, value, transaction id) with the version order, the
  read rule that every component applies, the abstract specification
  \<open>newest\<close> of a point lookup, little-endian integers, and the interface
  \<open>versioned_source\<close> that the in-memory tables, the data blocks and the
  merged stores all provide.
\<close>

unbundle bit_operations_syntax

named_theorems kopi_split \<open>case splits on results, options and conditions\<close>
named_theorems kopi_frame \<open>fields an operation does not touch\<close>

declare sum.splits [kopi_split] option.splits [kopi_split] if_splits [kopi_split]

section \<open>Scalars, strings and exceptions\<close>

text \<open>
  A \<open>std::string\<close> is a sequence of bytes and is compared byte by byte as
  unsigned values, which is the lexicographic order of HOL-Library.List_Lexorder on
  \<open>8 word list\<close>. Transaction ids and sizes are 64-bit words.
\<close>

type_synonym byte = "8 word"
type_synonym bytes = "byte list"
type_synonym u16 = "16 word"
type_synonym u32 = "32 word"
type_synonym u64 = "64 word"

text \<open>The exception classes the code throws; \<open>Diverges\<close> is a loop that does not return,
  \<open>Undefined\<close> a memory access outside of its object.\<close>

datatype cpp_error =
    Runtime_Error | Length_Error | Out_Of_Range | Logic_Error | Invalid_Argument
  | Overflow_Error | Diverges | Undefined

type_synonym 'a result = "cpp_error + 'a"

definition ebind :: "'a result \<Rightarrow> ('a \<Rightarrow> 'b result) \<Rightarrow> 'b result" where
  "ebind r f = (case r of Inl e \<Rightarrow> Inl e | Inr x \<Rightarrow> f x)"

definition returned :: "'a option \<Rightarrow> 'a result" where
  "returned x = (case x of None \<Rightarrow> Inl Diverges | Some y \<Rightarrow> Inr y)"

lemma ebind_simps [simp]: "ebind (Inl e) f = Inl e" "ebind (Inr x) f = f x"
  by (simp_all add: ebind_def)

lemma ebind_Inr_conv: "ebind r f = Inr y \<longleftrightarrow> (\<exists>x. r = Inr x \<and> f x = Inr y)"
  by (cases r) auto

lemma ebind_cong [fundef_cong]:
  "r = r' \<Longrightarrow> (\<And>x. r' = Inr x \<Longrightarrow> f x = g x) \<Longrightarrow> ebind r f = ebind r' g"
  by (cases r') auto

lemma returned_simps [simp]: "returned None = Inl Diverges" "returned (Some y) = Inr y"
  by (simp_all add: returned_def)

lemma returned_Inr_conv [simp]: "returned x = Inr y \<longleftrightarrow> x = Some y"
  by (cases x) auto

text \<open>\<open>v[i]\<close> of a \<open>std::vector\<close>.\<close>

definition vec_at :: "'a list \<Rightarrow> nat \<Rightarrow> 'a result" where
  "vec_at xs i = (if i < length xs then Inr (xs ! i) else Inl Undefined)"

lemma vec_at_less [simp]: "i < length xs \<Longrightarrow> vec_at xs i = Inr (xs ! i)"
  by (simp add: vec_at_def)

section \<open>Records of the store and the version order\<close>

text \<open>
  A stored record is (key, value, transaction id): the tuple of
  \<open>SkipList::flush\<close>. Records are ordered by key, and for one key by
  descending id, so the newest version of a key comes first. An empty value is a deletion
  mark (tombstone); an empty key with an empty value is an internal commit mark.
\<close>

type_synonym entry = "bytes \<times> bytes \<times> u64"

abbreviation ekey :: "entry \<Rightarrow> bytes" where "ekey e \<equiv> fst e"
abbreviation evalue :: "entry \<Rightarrow> bytes" where "evalue e \<equiv> fst (snd e)"
abbreviation etid :: "entry \<Rightarrow> u64" where "etid e \<equiv> snd (snd e)"

definition version_less :: "bytes \<times> u64 \<Rightarrow> bytes \<times> u64 \<Rightarrow> bool" where
  "version_less a b \<longleftrightarrow> fst a < fst b \<or> (fst a = fst b \<and> snd b < snd a)"

definition entry_less :: "entry \<Rightarrow> entry \<Rightarrow> bool" where
  "entry_less a b = version_less (ekey a, etid a) (ekey b, etid b)"

lemma version_less_irrefl [simp]: "\<not> version_less a a"
  by (simp add: version_less_def)

lemma version_less_trans: "version_less a b \<Longrightarrow> version_less b c \<Longrightarrow> version_less a c"
  by (auto simp: version_less_def)

lemma version_less_total: "version_less a b \<or> a = b \<or> version_less b a"
  by (cases a; cases b) (auto simp: version_less_def)

lemma version_less_asym: "version_less a b \<Longrightarrow> \<not> version_less b a"
  by (auto simp: version_less_def)

lemma entry_less_trans: "entry_less a b \<Longrightarrow> entry_less b c \<Longrightarrow> entry_less a c"
  unfolding entry_less_def by (rule version_less_trans)

lemma entry_less_irrefl [simp]: "\<not> entry_less a a"
  by (simp add: entry_less_def)

lemma entry_less_key_le: "entry_less a b \<Longrightarrow> ekey a \<le> ekey b"
  by (auto simp: entry_less_def version_less_def)

abbreviation sorted_entries :: "entry list \<Rightarrow> bool" where
  "sorted_entries \<equiv> sorted_wrt entry_less"

lemma sorted_entries_distinct: "sorted_entries es \<Longrightarrow> distinct es"
  by (induction es) auto

lemma sorted_entries_version_unique:
  assumes "sorted_entries es" "a \<in> set es" "b \<in> set es" "ekey a = ekey b" "etid a = etid b"
  shows "a = b"
proof -
  obtain i j where ij: "i < length es" "es ! i = a" "j < length es" "es ! j = b"
    using assms(2,3) by (auto simp: in_set_conv_nth)
  have no: "\<not> entry_less a b" "\<not> entry_less b a"
    using assms(4,5) by (simp_all add: entry_less_def version_less_def)
  with ij sorted_wrt_nth_less [OF assms(1), of i j] sorted_wrt_nth_less [OF assms(1), of j i]
  have "i = j" by (metis linorder_neqE_nat)
  with ij show ?thesis by simp
qed

lemma sorted_entries_keys: "sorted_entries es \<Longrightarrow> sorted (map ekey es)"
  by (induction es) (auto simp: entry_less_key_le)

text \<open>A sequence of records handed one by one to a consumer that may throw.\<close>

primrec add_all :: "('b \<Rightarrow> entry \<Rightarrow> 'b result) \<Rightarrow> 'b \<Rightarrow> entry list \<Rightarrow> 'b result" where
  "add_all add b [] = Inr b"
| "add_all add b (e # es) = ebind (add b e) (\<lambda>b'. add_all add b' es)"

section \<open>The read rule\<close>

text \<open>
  Every lookup carries an upper bound on the version (0 means no bound) and an optional
  callback that tells which transactions have to be skipped (an empty
  \<open>std::function\<close> is \<open>None\<close>).
\<close>

type_synonym abort_check = "(u64 \<Rightarrow> bool) option"

definition aborted_by :: "abort_check \<Rightarrow> u64 \<Rightarrow> bool" where
  "aborted_by ab v = (case ab of None \<Rightarrow> False | Some f \<Rightarrow> f v)"

definition readable :: "u64 \<Rightarrow> abort_check \<Rightarrow> u64 \<Rightarrow> bool" where
  "readable bound ab v \<longleftrightarrow> (bound = 0 \<or> v \<le> bound) \<and> \<not> aborted_by ab v"

lemma aborted_by_simps [simp]: "aborted_by None v = False" "aborted_by (Some f) v = f v"
  by (simp_all add: aborted_by_def)

lemma readable_unbounded [simp]: "readable 0 None v"
  by (simp add: readable_def)

section \<open>Specification of a point lookup\<close>

definition candidates :: "entry set \<Rightarrow> bytes \<Rightarrow> u64 \<Rightarrow> abort_check \<Rightarrow> entry set" where
  "candidates E k bound ab = {e \<in> E. ekey e = k \<and> readable bound ab (etid e)}"

text \<open>
  \<open>newest E k bound ab r\<close>: \<open>r\<close> is the value and version of a readable
  record of \<open>k\<close> in \<open>E\<close> with the greatest version, or \<open>None\<close>
  when \<open>E\<close> has no readable record of \<open>k\<close>.
\<close>

definition newest ::
  "entry set \<Rightarrow> bytes \<Rightarrow> u64 \<Rightarrow> abort_check \<Rightarrow> (bytes \<times> u64) option \<Rightarrow> bool" where
  "newest E k bound ab r = (case r of
     None \<Rightarrow> candidates E k bound ab = {}
   | Some (v, t) \<Rightarrow> (k, v, t) \<in> candidates E k bound ab \<and>
       (\<forall>e \<in> candidates E k bound ab. etid e \<le> t))"

lemma candidates_union: "candidates (A \<union> B) k b ab = candidates A k b ab \<union> candidates B k b ab"
  by (auto simp: candidates_def)

lemma candidates_empty [simp]: "candidates {} k b ab = {}"
  by (simp add: candidates_def)

lemma newest_empty [simp]: "newest {} k b ab None"
  by (simp add: newest_def)

text \<open>The choice between two sources that all readers make: the second one wins only when
  its version is strictly greater.\<close>

definition better :: "(bytes \<times> u64) option \<Rightarrow> (bytes \<times> u64) option \<Rightarrow> (bytes \<times> u64) option" where
  "better best cand = (case cand of
     None \<Rightarrow> best
   | Some c \<Rightarrow> (case best of None \<Rightarrow> cand | Some b \<Rightarrow> if snd b < snd c then cand else best))"

lemma newest_better:
  assumes "newest A k b ab r" "newest B k b ab s"
  shows "newest (A \<union> B) k b ab (better r s)"
proof (cases r)
  case None
  with assms show ?thesis by (cases s) (auto simp: newest_def better_def candidates_union)
next
  case (Some x)
  show ?thesis
  proof (cases s)
    case None
    with assms Some show ?thesis
      by (cases x) (auto simp: newest_def better_def candidates_union)
  next
    case (Some y)
    with assms \<open>r = Some x\<close> show ?thesis
      by (cases x; cases y) (auto simp: newest_def better_def candidates_union
            dest: order.strict_trans1 order.trans less_imp_le)
  qed
qed

lemma newest_cong: "candidates A k b ab = candidates B k b ab \<Longrightarrow> newest A k b ab r = newest B k b ab r"
  by (simp only: newest_def)

lemma newest_unique_version:
  assumes "newest E k b ab (Some (v, t))" "newest E k b ab (Some (v', t'))"
  shows "t = t'"
  using assms by (force simp: newest_def)

lemma newest_SomeD:
  "newest E k b ab (Some (v, t)) \<Longrightarrow> (k, v, t) \<in> E \<and> readable b ab t"
  by (auto simp: newest_def candidates_def)

lemma newest_NoneD:
  "newest E k b ab None \<Longrightarrow> (k, v, t) \<in> E \<Longrightarrow> \<not> readable b ab t"
  by (auto simp: newest_def candidates_def)

lemma newest_sorted_find:
  assumes "sorted_entries es"
  shows "newest (set es) k b ab
    (map_option snd (find (\<lambda>e. ekey e = k \<and> readable b ab (etid e)) es))"
  using assms
proof (induction es)
  case Nil
  then show ?case by simp
next
  case (Cons e es)
  show ?case
  proof (cases "ekey e = k \<and> readable b ab (etid e)")
    case True
    have "etid e' \<le> etid e" if "e' \<in> set es" "ekey e' = k" for e'
      using Cons.prems that True by (auto simp: entry_less_def version_less_def)
    with True show ?thesis
      by (cases e) (auto simp: newest_def candidates_def)
  next
    case False
    then have "candidates (set (e # es)) k b ab = candidates (set es) k b ab"
      by (auto simp: candidates_def)
    then have "newest (set (e # es)) k b ab r = newest (set es) k b ab r" for r
      unfolding newest_def by presburger
    with Cons False show ?thesis by auto
  qed
qed

section \<open>Range predicates\<close>

text \<open>Positive: the target lies further right; zero: a hit; negative: further left. All range queries
  take such a predicate on keys.\<close>

definition monotone_predicate :: "(bytes \<Rightarrow> int) \<Rightarrow> bool" where
  "monotone_predicate pred \<longleftrightarrow>
     (\<forall>a b. a \<le> b \<longrightarrow> (0 < pred b \<longrightarrow> 0 < pred a) \<and> (pred a < 0 \<longrightarrow> pred b < 0))"

section \<open>Interface: a source of versioned records\<close>

text \<open>
  What every reader relies on: the lookup of a source returns the newest readable record
  among the records the source holds. Lemmas about several sources are proved once here.
\<close>

locale versioned_source =
  fixes entries :: "'s \<Rightarrow> entry set"
    and ok :: "'s \<Rightarrow> bool"
    and lookup :: "'s \<Rightarrow> bytes \<Rightarrow> u64 \<Rightarrow> abort_check \<Rightarrow> (bytes \<times> u64) option"
  assumes lookup_newest: "ok s \<Longrightarrow> newest (entries s) k b ab (lookup s k b ab)"
begin

lemma lookup_sound:
  "ok s \<Longrightarrow> lookup s k b ab = Some (v, t) \<Longrightarrow> (k, v, t) \<in> entries s \<and> readable b ab t"
  using lookup_newest [of s k b ab] by (auto dest: newest_SomeD)

lemma lookup_none_iff:
  "ok s \<Longrightarrow> lookup s k b ab = None \<longleftrightarrow> (\<forall>v t. (k, v, t) \<in> entries s \<longrightarrow> \<not> readable b ab t)"
  using lookup_newest [of s k b ab]
  by (auto simp: newest_def candidates_def split: option.splits)

lemma lookup_greatest:
  "ok s \<Longrightarrow> lookup s k b ab = Some (v, t) \<Longrightarrow> (k, v', t') \<in> entries s \<Longrightarrow>
   readable b ab t' \<Longrightarrow> t' \<le> t"
  using lookup_newest [of s k b ab] by (force simp: newest_def candidates_def)

text \<open>Folding the choice over a sequence of sources gives the newest record of all of them.\<close>

lemma fold_sources_newest:
  assumes "\<forall>s \<in> set ss. ok s" "newest E k b ab r"
  shows "newest (E \<union> (\<Union>s \<in> set ss. entries s)) k b ab
           (fold (\<lambda>s best. better best (lookup s k b ab)) ss r)"
  using assms
proof (induction ss arbitrary: E r)
  case Nil
  then show ?case by simp
next
  case (Cons s ss)
  have "newest (E \<union> entries s) k b ab (better r (lookup s k b ab))"
    using Cons.prems by (intro newest_better lookup_newest) auto
  with Cons.IH [of "E \<union> entries s" "better r (lookup s k b ab)"] Cons.prems
  show ?case by (simp add: Un_assoc)
qed

end

section \<open>Little-endian integers\<close>

text \<open>
  Writers push the low byte and shift the value right by eight; readers or each byte,
  shifted to its place, into an accumulator.
\<close>

primrec le_write :: "nat \<Rightarrow> 'a::len word \<Rightarrow> bytes" where
  "le_write 0 w = []"
| "le_write (Suc n) w = ucast w # le_write n (drop_bit 8 w)"

primrec le_read_from :: "nat \<Rightarrow> 'a::len word \<Rightarrow> bytes \<Rightarrow> 'a word" where
  "le_read_from i acc [] = acc"
| "le_read_from i acc (b # bs) = le_read_from (Suc i) (acc OR push_bit (8 * i) (ucast b)) bs"

definition le_read :: "bytes \<Rightarrow> 'a::len word" where
  "le_read bs = le_read_from 0 0 bs"

lemma length_le_write [simp]: "length (le_write n w) = n"
  by (induction n arbitrary: w) auto

lemma le_read_from_or: "le_read_from i acc bs = acc OR le_read_from i 0 bs"
proof (induction bs arbitrary: i acc)
  case Nil
  then show ?case by simp
next
  case (Cons b bs)
  show ?case
    using Cons [of "Suc i" "acc OR push_bit (8 * i) (ucast b)"]
      Cons [of "Suc i" "push_bit (8 * i) (ucast b)"]
    by (simp add: or.assoc)
qed

lemma le_read_from_Cons:
  "le_read_from i 0 (b # bs) = push_bit (8 * i) (ucast b) OR le_read_from (Suc i) 0 bs"
proof -
  have "le_read_from i 0 (b # bs) = le_read_from (Suc i) (push_bit (8 * i) (ucast b)) bs"
    by (simp only: le_read_from.simps or.left_neutral)
  then show ?thesis by (simp only: le_read_from_or [of "Suc i" "push_bit (8 * i) (ucast b)"])
qed

lemma bit_placed_byte:
  "bit (push_bit (8 * i) (ucast (b :: byte)) :: 'a::len word) n \<longleftrightarrow>
     n < LENGTH('a) \<and> 8 * i \<le> n \<and> n < 8 * Suc i \<and> bit b (n - 8 * i)"
  using bit_imp_le_length [of b "n - 8 * i"]
  by (auto simp: bit_push_bit_iff bit_ucast_iff)

lemma bit_le_read_from:
  "bit (le_read_from i 0 bs :: 'a::len word) n \<longleftrightarrow>
     n < LENGTH('a) \<and> 8 * i \<le> n \<and> n < 8 * (i + length bs) \<and> bit (bs ! (n div 8 - i)) (n mod 8)"
proof (induction bs arbitrary: i)
  case Nil
  then show ?case by simp
next
  case (Cons b bs)
  show ?case
  proof (cases "8 * Suc i \<le> n")
    case True
    then have "Suc i \<le> n div 8" by (simp add: less_eq_div_iff_mult_less_eq mult.commute)
    then have "n div 8 - i = Suc (n div 8 - Suc i)" by linarith
    with True show ?thesis unfolding le_read_from_Cons bit_or_iff bit_placed_byte Cons.IH by simp
  next
    case False
    have "n div 8 = i \<and> n mod 8 = n - 8 * i" if "8 * i \<le> n"
    proof -
      from that False have "n div 8 = i" by (intro div_nat_eqI) simp_all
      then show ?thesis by (simp add: minus_div_mult_eq_mod [symmetric] mult.commute)
    qed
    with False show ?thesis unfolding le_read_from_Cons bit_or_iff bit_placed_byte Cons.IH by auto
  qed
qed

lemma nth_le_write: "k < n \<Longrightarrow> le_write n w ! k = ucast (drop_bit (8 * k) w)"
proof (induction n arbitrary: w k)
  case 0
  then show ?case by simp
next
  case (Suc n)
  then show ?case
    by (cases k) (simp_all add: drop_bit_drop_bit add.commute)
qed

lemma le_read_write:
  fixes w :: "'a::len word"
  assumes "LENGTH('a) \<le> 8 * n"
  shows "le_read (le_write n w) = w"
proof (rule bit_eqI)
  fix m
  assume "possible_bit TYPE('a word) m"
  then have m: "m < LENGTH('a)" by simp
  with assms have "m div 8 < n" "m < 8 * n" by auto
  moreover have "8 * (m div 8) + m mod 8 = m" by simp
  moreover have "m mod 8 < 8" by simp
  ultimately show "bit (le_read (le_write n w) :: 'a word) m = bit w m"
    using m by (simp add: le_read_def bit_le_read_from nth_le_write bit_ucast_iff bit_drop_bit_eq)
qed

lemma le_write_read:
  assumes "length bs = n" "8 * n \<le> LENGTH('a::len)"
  shows "le_write n (le_read bs :: 'a word) = bs"
proof (rule nth_equalityI)
  show "length (le_write n (le_read bs :: 'a word)) = length bs" using assms(1) by simp
  fix k
  assume "k < length (le_write n (le_read bs :: 'a word))"
  then have k: "k < n" by simp
  show "le_write n (le_read bs :: 'a word) ! k = bs ! k"
  proof (rule bit_word_eqI)
    fix m assume m: "m < LENGTH(8)"
    then have "(8 * k + m) div 8 = k" "(8 * k + m) mod 8 = m" by auto
    moreover have "8 * k + m < 8 * n" using k m by simp
    ultimately show "bit (le_write n (le_read bs :: 'a word) ! k) m = bit (bs ! k) m"
      using m assms by (simp add: nth_le_write [OF k] bit_ucast_iff bit_drop_bit_eq le_read_def bit_le_read_from)
  qed
qed

lemma le_read_small:
  assumes "8 * length bs \<le> LENGTH('a::len)"
  shows "unat (le_read bs :: 'a word) < 2 ^ (8 * length bs)"
proof -
  have "take_bit (8 * length bs) (le_read bs :: 'a word) = le_read bs"
    by (rule bit_eqI) (auto simp: bit_take_bit_iff le_read_def bit_le_read_from)
  then have "unat (le_read bs :: 'a word) = take_bit (8 * length bs) (unat (le_read bs :: 'a word))"
    by (metis unsigned_take_bit_eq)
  then show ?thesis by (metis take_bit_nat_less_exp)
qed

lemmas le_simps = le_read_write length_le_write

end
