(* ===== verification/SkipList.thy ===== *)
theory SkipList
  imports Kopi_Prelude
begin

text \<open>
  The skip list of src/src/skiplist/skipList.cpp, pointer by pointer. Nodes live in an arena
  (\<open>nodes\<close>); a \<open>shared_ptr\<close> or \<open>weak_ptr\<close> to a node is an
  optional arena index, and every node carries its \<open>forward_\<close> and
  \<open>backward_\<close> vectors. Loops that chase pointers are
  \<open>partial_function\<close>s, so a loop that does not return is the error
  \<open>Diverges\<close>; the lemmas show that they return on every list the operations can
  build. \<open>rep s ns\<close> is the representation invariant, \<open>sl_abs s es\<close> says
  that \<open>s\<close> holds the records \<open>es\<close> in order.
\<close>

section \<open>Nodes and the list\<close>

record snode =
  node_key :: bytes
  node_value :: bytes
  node_tid :: u64
  forward :: "nat option list"
  backward :: "nat option list"

record skiplist =
  nodes :: "snode list"
  head :: nat
  max_level :: nat
  current_level :: nat
  size_bytes :: u64

definition new_node :: "bytes \<Rightarrow> bytes \<Rightarrow> nat \<Rightarrow> u64 \<Rightarrow> snode" where
  "new_node k v level tid = \<lparr>node_key = k, node_value = v, node_tid = tid,
     forward = replicate level None, backward = replicate level None\<rparr>"

definition node_lt :: "snode \<Rightarrow> snode \<Rightarrow> bool" where
  "node_lt a b = (if node_key a = node_key b then node_tid b < node_tid a
                  else node_key a < node_key b)"

definition skiplist_new :: "nat \<Rightarrow> skiplist" where
  "skiplist_new max_lvl = \<lparr>nodes = [new_node [] [] max_lvl 0], head = 0,
     max_level = max_lvl, current_level = 1, size_bytes = 0\<rparr>"

abbreviation node :: "skiplist \<Rightarrow> nat \<Rightarrow> snode" where
  "node s a \<equiv> nodes s ! a"

definition fwd :: "skiplist \<Rightarrow> nat \<Rightarrow> nat \<Rightarrow> nat option" where
  "fwd s a l = forward (node s a) ! l"

definition bwd :: "skiplist \<Rightarrow> nat \<Rightarrow> nat \<Rightarrow> nat option" where
  "bwd s a l = backward (node s a) ! l"

definition set_fwd :: "skiplist \<Rightarrow> nat \<Rightarrow> nat \<Rightarrow> nat option \<Rightarrow> skiplist" where
  "set_fwd s a l x = s\<lparr>nodes := (nodes s)[a := (node s a)\<lparr>forward := (forward (node s a))[l := x]\<rparr>]\<rparr>"

definition set_bwd :: "skiplist \<Rightarrow> nat \<Rightarrow> nat \<Rightarrow> nat option \<Rightarrow> skiplist" where
  "set_bwd s a l x = s\<lparr>nodes := (nodes s)[a := (node s a)\<lparr>backward := (backward (node s a))[l := x]\<rparr>]\<rparr>"

definition height :: "skiplist \<Rightarrow> nat \<Rightarrow> nat" where
  "height s a = length (forward (node s a))"

definition entry_at :: "skiplist \<Rightarrow> nat \<Rightarrow> entry" where
  "entry_at s a = (node_key (node s a), node_value (node s a), node_tid (node s a))"

section \<open>Operations\<close>

subsection \<open>Levels and the search\<close>

text \<open>\<open>coin i\<close> is the outcome of the \<open>i\<close>-th draw of \<open>dis_01(gen)\<close> in the call.\<close>

function random_level_from :: "nat \<Rightarrow> (nat \<Rightarrow> bool) \<Rightarrow> nat \<Rightarrow> nat" where
  "random_level_from mx coin level =
     (if coin (level - 1) \<and> level < mx then random_level_from mx coin (Suc level) else level)"
  by pat_completeness auto
termination by (relation "measure (\<lambda>(mx, coin, level). mx - level)") auto

declare random_level_from.simps [simp del]

definition random_level :: "skiplist \<Rightarrow> (nat \<Rightarrow> bool) \<Rightarrow> nat" where
  "random_level s coin = random_level_from (max_level s) coin 1"

partial_function (option) walk :: "skiplist \<Rightarrow> (snode \<Rightarrow> bool) \<Rightarrow> nat \<Rightarrow> nat \<Rightarrow> nat option" where
  "walk s P l cur = (case fwd s cur l of
      None \<Rightarrow> Some cur
    | Some n \<Rightarrow> if P (node s n) then walk s P l n else Some cur)"

text \<open>The staircase search: on each level walk as far as \<open>P\<close> allows, record the stop in
  \<open>update\<close>, go down one level.\<close>

primrec descend ::
  "skiplist \<Rightarrow> (snode \<Rightarrow> bool) \<Rightarrow> nat \<Rightarrow> nat \<Rightarrow> nat option list \<Rightarrow> (nat \<times> nat option list) result" where
  "descend s P 0 cur upd = Inr (cur, upd)"
| "descend s P (Suc l) cur upd =
     ebind (returned (walk s P l cur)) (\<lambda>c. descend s P l c (upd[l := Some c]))"

definition search :: "skiplist \<Rightarrow> (snode \<Rightarrow> bool) \<Rightarrow> (nat \<times> nat option list) result" where
  "search s P = descend s P (current_level s) (head s) (replicate (max_level s) None)"

subsection \<open>put\<close>

definition link_level :: "nat \<Rightarrow> nat option list \<Rightarrow> nat \<Rightarrow> skiplist \<Rightarrow> skiplist" where
  "link_level a upd l s =
     (let p = the (upd ! l);
          s1 = set_fwd s a l (fwd s p l);
          s2 = set_fwd s1 p l (Some a);
          s3 = set_bwd s2 a l (Some p)
      in case fwd s3 a l of None \<Rightarrow> s3 | Some n \<Rightarrow> set_bwd s3 n l (Some a))"

definition insert_node :: "skiplist \<Rightarrow> snode \<Rightarrow> nat option list \<Rightarrow> skiplist" where
  "insert_node s new upd =
     (let node_lvl = length (forward new);
          a = length (nodes s);
          upd' = fold (\<lambda>l u. u[l := Some (head s)]) [current_level s ..< node_lvl] upd;
          s1 = s\<lparr>nodes := nodes s @ [new],
                 current_level := (if current_level s < node_lvl then node_lvl else current_level s)\<rparr>;
          s2 = fold (link_level a upd') [0 ..< node_lvl] s1
      in s2\<lparr>size_bytes := size_bytes s2 + (of_nat (length (node_key new))
              + of_nat (length (node_value new)) + 8)\<rparr>)"

definition set_value :: "skiplist \<Rightarrow> nat \<Rightarrow> bytes \<Rightarrow> skiplist" where
  "set_value s a v = s\<lparr>nodes := (nodes s)[a := (node s a)\<lparr>node_value := v\<rparr>],
     size_bytes := size_bytes s - of_nat (length (node_value (node s a))) + of_nat (length v)\<rparr>"

definition skiplist_put :: "skiplist \<Rightarrow> bytes \<Rightarrow> bytes \<Rightarrow> u64 \<Rightarrow> (nat \<Rightarrow> bool) \<Rightarrow> skiplist result" where
  "skiplist_put s k v tid coin =
     (let new = new_node k v (random_level s coin) tid
      in ebind (search s (\<lambda>n. node_lt n new)) (\<lambda>(cur, upd).
           case fwd s cur 0 of
             None \<Rightarrow> Inr (insert_node s new upd)
           | Some c \<Rightarrow>
               if node_key (node s c) = k \<and> node_tid (node s c) = tid then Inr (set_value s c v)
               else Inr (insert_node s new upd)))"

subsection \<open>get\<close>

partial_function (option) version_scan ::
  "skiplist \<Rightarrow> bytes \<Rightarrow> u64 \<Rightarrow> abort_check \<Rightarrow> nat option \<Rightarrow> nat option option" where
  "version_scan s k bound ab cand = (case cand of
      None \<Rightarrow> Some None
    | Some a \<Rightarrow>
        if node_key (node s a) = k then
          (if bound \<noteq> 0 \<and> bound < node_tid (node s a) then version_scan s k bound ab (fwd s a 0)
           else if aborted_by ab (node_tid (node s a)) then version_scan s k bound ab (fwd s a 0)
           else Some (Some a))
        else Some None)"

definition skiplist_get :: "skiplist \<Rightarrow> bytes \<Rightarrow> u64 \<Rightarrow> abort_check \<Rightarrow> nat option result" where
  "skiplist_get s k bound ab =
     ebind (search s (\<lambda>n. node_key n < k)) (\<lambda>(cur, _).
       returned (version_scan s k bound ab (fwd s cur 0)))"

subsection \<open>remove, flush, size, clear\<close>

definition unlink_level :: "nat \<Rightarrow> nat option list \<Rightarrow> nat \<Rightarrow> skiplist \<Rightarrow> skiplist" where
  "unlink_level target upd l s =
     (let p = the (upd ! l);
          s1 = set_fwd s p l (fwd s target l)
      in case fwd s1 target l of None \<Rightarrow> s1 | Some n \<Rightarrow> set_bwd s1 n l (Some p))"

definition skiplist_remove :: "skiplist \<Rightarrow> bytes \<Rightarrow> skiplist result" where
  "skiplist_remove s k =
     ebind (search s (\<lambda>n. node_key n < k)) (\<lambda>(cur, upd).
       case fwd s cur 0 of
         None \<Rightarrow> Inr s
       | Some target \<Rightarrow>
           if node_key (node s target) \<noteq> k then Inr s
           else
             (let s1 = fold (unlink_level target upd) [0 ..< height s target] s
              in Inr (s1\<lparr>size_bytes := size_bytes s1
                   - (of_nat (length (node_key (node s target)))
                      + of_nat (length (node_value (node s target))) + 8)\<rparr>)))"

partial_function (option) flush_from ::
  "skiplist \<Rightarrow> nat option \<Rightarrow> entry list \<Rightarrow> entry list option" where
  "flush_from s cand data = (case cand of
      None \<Rightarrow> Some data
    | Some a \<Rightarrow> flush_from s (fwd s a 0) (data @ [entry_at s a]))"

definition skiplist_flush :: "skiplist \<Rightarrow> entry list result" where
  "skiplist_flush s = returned (flush_from s (fwd s (head s) 0) [])"

definition skiplist_get_size :: "skiplist \<Rightarrow> u64" where
  "skiplist_get_size s = size_bytes s"

definition skiplist_clear :: "skiplist \<Rightarrow> skiplist" where
  "skiplist_clear s = s\<lparr>nodes := nodes s @ [new_node [] [] (max_level s) 0],
     head := length (nodes s), size_bytes := 0\<rparr>"

subsection \<open>Iterators and ranges\<close>

text \<open>A \<open>SkipListIterator\<close> is its node pointer; the empty iterator is the end.\<close>

type_synonym skiplist_iter = "nat option"

definition iter_next :: "skiplist \<Rightarrow> skiplist_iter \<Rightarrow> skiplist_iter" where
  "iter_next s it = (case it of None \<Rightarrow> None | Some a \<Rightarrow> fwd s a 0)"

definition iter_deref :: "skiplist \<Rightarrow> skiplist_iter \<Rightarrow> (bytes \<times> bytes) result" where
  "iter_deref s it = (case it of None \<Rightarrow> Inl Runtime_Error
     | Some a \<Rightarrow> Inr (node_key (node s a), node_value (node s a)))"

definition iter_is_valid :: "skiplist \<Rightarrow> skiplist_iter \<Rightarrow> bool" where
  "iter_is_valid s it = (case it of None \<Rightarrow> False | Some a \<Rightarrow> node_key (node s a) \<noteq> [])"

definition iter_tid :: "skiplist \<Rightarrow> skiplist_iter \<Rightarrow> u64 result" where
  "iter_tid s it = (case it of None \<Rightarrow> Inl Runtime_Error | Some a \<Rightarrow> Inr (node_tid (node s a)))"

definition skiplist_begin :: "skiplist \<Rightarrow> skiplist_iter" where
  "skiplist_begin s = fwd s (head s) 0"

definition skiplist_begin_preffix :: "skiplist \<Rightarrow> bytes \<Rightarrow> skiplist_iter result" where
  "skiplist_begin_preffix s p =
     ebind (search s (\<lambda>n. node_key n < p)) (\<lambda>(cur, _). Inr (fwd s cur 0))"

text \<open>The successor string: trailing \<open>0xff\<close> bytes are dropped, the last byte is raised.\<close>

definition strip_ff :: "bytes \<Rightarrow> bytes" where
  "strip_ff p = rev (dropWhile (\<lambda>b. b = 255) (rev p))"

definition skiplist_end_preffix :: "skiplist \<Rightarrow> bytes \<Rightarrow> skiplist_iter result" where
  "skiplist_end_preffix s p =
     (let succ = strip_ff p
      in if succ = [] then Inr None
         else skiplist_begin_preffix s (butlast succ @ [last succ + 1]))"

partial_function (option) iter_range ::
  "skiplist \<Rightarrow> skiplist_iter \<Rightarrow> skiplist_iter \<Rightarrow> nat list \<Rightarrow> nat list option" where
  "iter_range s it stop acc =
     (if it = stop then Some acc
      else case it of
          None \<Rightarrow> iter_range s (iter_next s it) stop acc
        | Some a \<Rightarrow> iter_range s (iter_next s it) stop (acc @ [a]))"

partial_function (option) hit_walk ::
  "skiplist \<Rightarrow> (bytes \<Rightarrow> int) \<Rightarrow> nat \<Rightarrow> nat \<Rightarrow> (nat \<times> nat option) option" where
  "hit_walk s pred l cur = (case fwd s cur l of
      None \<Rightarrow> Some (cur, None)
    | Some n \<Rightarrow>
        (let outcome = pred (node_key (node s n))
         in if 0 < outcome then hit_walk s pred l n
            else if outcome = 0 then Some (cur, Some n)
            else Some (cur, None)))"

primrec hit_descend ::
  "skiplist \<Rightarrow> (bytes \<Rightarrow> int) \<Rightarrow> nat \<Rightarrow> nat \<Rightarrow> nat option result" where
  "hit_descend s pred 0 cur = Inr None"
| "hit_descend s pred (Suc l) cur =
     ebind (returned (hit_walk s pred l cur)) (\<lambda>(c, hit).
       case hit of None \<Rightarrow> hit_descend s pred l c | Some n \<Rightarrow> Inr (Some n))"

partial_function (option) expand_left :: "skiplist \<Rightarrow> (bytes \<Rightarrow> int) \<Rightarrow> nat \<Rightarrow> nat option" where
  "expand_left s pred left = (case bwd s left 0 of
      None \<Rightarrow> Some left
    | Some prev \<Rightarrow>
        if prev = head s \<or> pred (node_key (node s prev)) \<noteq> 0 then Some left
        else expand_left s pred prev)"

partial_function (option) expand_right :: "skiplist \<Rightarrow> (bytes \<Rightarrow> int) \<Rightarrow> nat \<Rightarrow> nat option" where
  "expand_right s pred right = (case fwd s right 0 of
      None \<Rightarrow> Some right
    | Some n \<Rightarrow> if pred (node_key (node s n)) = 0 then expand_right s pred n else Some right)"

definition skiplist_iters_monotony_predicate ::
  "skiplist \<Rightarrow> (bytes \<Rightarrow> int) \<Rightarrow> (skiplist_iter \<times> skiplist_iter) option result" where
  "skiplist_iters_monotony_predicate s pred =
     ebind (hit_descend s pred (current_level s) (head s)) (\<lambda>hit.
       case hit of
         None \<Rightarrow> Inr None
       | Some n \<Rightarrow>
           ebind (returned (expand_left s pred n)) (\<lambda>left.
           ebind (returned (expand_right s pred n)) (\<lambda>right.
             Inr (Some (Some left, fwd s right 0)))))"


section \<open>Chains of pointers\<close>

primrec chain :: "(nat \<Rightarrow> nat option) \<Rightarrow> nat \<Rightarrow> nat list \<Rightarrow> bool" where
  "chain f p [] \<longleftrightarrow> f p = None"
| "chain f p (a # as) \<longleftrightarrow> f p = Some a \<and> chain f a as"

primrec bchain :: "(nat \<Rightarrow> nat option) \<Rightarrow> nat \<Rightarrow> nat list \<Rightarrow> bool" where
  "bchain b p [] \<longleftrightarrow> True"
| "bchain b p (a # as) \<longleftrightarrow> b a = Some p \<and> bchain b a as"

lemma chain_cong: "(\<And>a. a \<in> set (p # as) \<Longrightarrow> f a = g a) \<Longrightarrow> chain f p as = chain g p as"
  by (induction as arbitrary: p) auto

lemma bchain_cong: "(\<And>a. a \<in> set as \<Longrightarrow> f a = g a) \<Longrightarrow> bchain f p as = bchain g p as"
  by (induction as arbitrary: p) auto

lemma chain_first: "chain f p as \<Longrightarrow> f p = (case as of [] \<Rightarrow> None | a # _ \<Rightarrow> Some a)"
  by (cases as) auto

lemma chain_append:
  "chain f p (xs @ ys) \<longleftrightarrow>
     (case xs of [] \<Rightarrow> chain f p ys
      | x # xs' \<Rightarrow> f p = Some x \<and> chain f x (xs' @ ys))"
  by (cases xs) auto

lemma chain_suffix: "chain f p (xs @ ys) \<Longrightarrow> chain f (last (p # xs)) ys"
  by (induction xs arbitrary: p) auto

lemma chain_suffix_mid: "chain f p as \<Longrightarrow> p # as = xs @ a # ys \<Longrightarrow> chain f a ys"
proof (induction xs arbitrary: p as)
  case Nil
  then show ?case by simp
next
  case (Cons x xs)
  then obtain b bs where "as = b # bs" by (cases as) auto
  with Cons show ?case by auto
qed

text \<open>Linking a fresh node \<open>n\<close> after the prefix \<open>xs\<close>.\<close>

lemma chain_insert:
  assumes "chain f p (xs @ ys)" "distinct (p # xs @ ys)" "n \<notin> set (p # xs @ ys)"
    and "g n = f (last (p # xs))" "g (last (p # xs)) = Some n"
    and "\<And>a. a \<in> set (p # xs @ ys) \<Longrightarrow> a \<noteq> last (p # xs) \<Longrightarrow> g a = f a"
  shows "chain g p (xs @ n # ys)"
  using assms
proof (induction xs arbitrary: p)
  case Nil
  then have "g a = f a" if "a \<in> set ys" for a using that by auto
  then have "chain g y ys' = chain f y ys'" if "ys = y # ys'" for y ys'
    using that by (intro chain_cong) simp
  with Nil show ?case by (cases ys) auto
next
  case (Cons x xs)
  have "last (x # xs) \<in> set (x # xs)" by simp
  then have "p \<noteq> last (x # xs)" using Cons.prems(2) by auto
  moreover have "chain g x (xs @ n # ys)"
    using Cons.prems by (intro Cons.IH) auto
  ultimately show ?case using Cons.prems(1) Cons.prems(6) [of p] by simp
qed

lemma chain_delete:
  assumes "chain f p (xs @ n # ys)" "distinct (p # xs @ n # ys)"
    and "g (last (p # xs)) = f n"
    and "\<And>a. a \<in> set (p # xs @ ys) \<Longrightarrow> a \<noteq> last (p # xs) \<Longrightarrow> g a = f a"
  shows "chain g p (xs @ ys)"
  using assms
proof (induction xs arbitrary: p)
  case Nil
  then have "g a = f a" if "a \<in> set ys" for a using that by auto
  then have "chain g y ys' = chain f y ys'" if "ys = y # ys'" for y ys'
    using that by (intro chain_cong) simp
  with Nil show ?case by (cases ys) auto
next
  case (Cons x xs)
  have "last (x # xs) \<in> set (x # xs)" by simp
  then have "p \<noteq> last (x # xs)" using Cons.prems(2) by auto
  moreover have "chain g x (xs @ ys)"
    using Cons.prems by (intro Cons.IH) auto
  ultimately show ?case using Cons.prems(1) Cons.prems(4) [of p] by simp
qed

lemma bchain_append: "bchain b p (xs @ ys) \<longleftrightarrow> bchain b p xs \<and> bchain b (last (p # xs)) ys"
  by (induction xs arbitrary: p) auto

lemma bchain_insert:
  assumes "bchain f p (xs @ ys)"
    and "g n = Some (last (p # xs))"
    and "\<And>a. a \<in> set xs \<Longrightarrow> g a = f a"
    and "ys \<noteq> [] \<Longrightarrow> g (hd ys) = Some n"
    and "\<And>a. a \<in> set (tl ys) \<Longrightarrow> g a = f a"
  shows "bchain g p (xs @ n # ys)"
proof -
  have "bchain g p xs" using assms(1,3) bchain_cong [of xs f g p] by (simp add: bchain_append)
  moreover have "bchain g n ys"
    using assms bchain_cong [of "tl ys" f g "hd ys"] by (cases ys) (auto simp: bchain_append)
  ultimately show ?thesis using assms(2) by (simp add: bchain_append)
qed

lemma bchain_delete:
  assumes "bchain f p (xs @ n # ys)"
    and "\<And>a. a \<in> set xs \<Longrightarrow> g a = f a"
    and "ys \<noteq> [] \<Longrightarrow> g (hd ys) = Some (last (p # xs))"
    and "\<And>a. a \<in> set (tl ys) \<Longrightarrow> g a = f a"
  shows "bchain g p (xs @ ys)"
proof -
  have "bchain g p xs" using assms(1,2) bchain_cong [of xs f g p] by (simp add: bchain_append)
  moreover have "bchain g (last (p # xs)) ys"
    using assms bchain_cong [of "tl ys" f g "hd ys"] by (cases ys) (auto simp: bchain_append)
  ultimately show ?thesis by (simp add: bchain_append)
qed


section \<open>Pointer writes\<close>

definition bheight :: "skiplist \<Rightarrow> nat \<Rightarrow> nat" where
  "bheight s a = length (backward (node s a))"

lemma fwd_set_fwd [simp]:
  "a < length (nodes s) \<Longrightarrow> l < height s a \<Longrightarrow>
   fwd (set_fwd s a l x) b m = (if b = a \<and> m = l then x else fwd s b m)"
  by (auto simp: fwd_def set_fwd_def height_def nth_list_update)

lemma bwd_set_bwd [simp]:
  "a < length (nodes s) \<Longrightarrow> l < bheight s a \<Longrightarrow>
   bwd (set_bwd s a l x) b m = (if b = a \<and> m = l then x else bwd s b m)"
  by (auto simp: bwd_def set_bwd_def bheight_def nth_list_update)

lemma fwd_set_bwd [simp]: "fwd (set_bwd s a l x) b m = fwd s b m"
  by (cases "a < length (nodes s)") (auto simp: fwd_def set_bwd_def nth_list_update list_update_beyond)

lemma bwd_set_fwd [simp]: "bwd (set_fwd s a l x) b m = bwd s b m"
  by (cases "a < length (nodes s)") (auto simp: bwd_def set_fwd_def nth_list_update list_update_beyond)

lemma height_set [simp]:
  "height (set_fwd s a l x) b = height s b" "height (set_bwd s a l x) b = height s b"
  "bheight (set_fwd s a l x) b = bheight s b" "bheight (set_bwd s a l x) b = bheight s b"
  by (cases "a < length (nodes s)";
      auto simp: height_def bheight_def set_fwd_def set_bwd_def nth_list_update list_update_beyond)+

lemma entry_at_set [simp]:
  "entry_at (set_fwd s a l x) b = entry_at s b" "entry_at (set_bwd s a l x) b = entry_at s b"
  by (cases "a < length (nodes s)";
      auto simp: entry_at_def set_fwd_def set_bwd_def nth_list_update list_update_beyond)+

lemma fields_set [simp]:
  "length (nodes (set_fwd s a l x)) = length (nodes s)"
  "head (set_fwd s a l x) = head s" "max_level (set_fwd s a l x) = max_level s"
  "current_level (set_fwd s a l x) = current_level s" "size_bytes (set_fwd s a l x) = size_bytes s"
  "length (nodes (set_bwd s a l x)) = length (nodes s)"
  "head (set_bwd s a l x) = head s" "max_level (set_bwd s a l x) = max_level s"
  "current_level (set_bwd s a l x) = current_level s" "size_bytes (set_bwd s a l x) = size_bytes s"
  by (simp_all add: set_fwd_def set_bwd_def)

section \<open>Representation invariant\<close>

abbreviation tower :: "skiplist \<Rightarrow> nat \<Rightarrow> nat list \<Rightarrow> nat list" where
  "tower s l \<equiv> filter (\<lambda>a. l < height s a)"

definition entry_size :: "entry \<Rightarrow> nat" where
  "entry_size e = length (ekey e) + length (evalue e) + 8"

definition total_size :: "entry list \<Rightarrow> nat" where
  "total_size es = sum_list (map entry_size es)"

definition well_linked :: "skiplist \<Rightarrow> nat list \<Rightarrow> bool" where
  "well_linked s ns \<longleftrightarrow>
     (\<forall>l < max_level s. chain (\<lambda>a. fwd s a l) (head s) (tower s l ns)
                      \<and> bchain (\<lambda>a. bwd s a l) (head s) (tower s l ns))"

definition well_sized :: "skiplist \<Rightarrow> nat list \<Rightarrow> bool" where
  "well_sized s ns \<longleftrightarrow>
     1 \<le> current_level s \<and> current_level s \<le> max_level s \<and>
     distinct (head s # ns) \<and> (\<forall>a \<in> set (head s # ns). a < length (nodes s)) \<and>
     height s (head s) = max_level s \<and>
     (\<forall>a \<in> set ns. 1 \<le> height s a \<and> height s a \<le> current_level s \<and> bheight s a = height s a)"

definition rep :: "skiplist \<Rightarrow> nat list \<Rightarrow> bool" where
  "rep s ns \<longleftrightarrow> well_sized s ns \<and> well_linked s ns \<and>
     sorted_entries (map (entry_at s) ns) \<and>
     size_bytes s = of_nat (total_size (map (entry_at s) ns))"

definition sl_abs :: "skiplist \<Rightarrow> entry list \<Rightarrow> bool" where
  "sl_abs s es \<longleftrightarrow> (\<exists>ns. rep s ns \<and> es = map (entry_at s) ns)"

lemma rep_chain: "rep s ns \<Longrightarrow> l < max_level s \<Longrightarrow> chain (\<lambda>a. fwd s a l) (head s) (tower s l ns)"
  by (simp add: rep_def well_linked_def)

lemma tower_all: "rep s ns \<Longrightarrow> as \<subseteq> set ns \<Longrightarrow> a \<in> as \<Longrightarrow> 0 < height s a"
  unfolding rep_def well_sized_def by force

lemma tower_0: "rep s ns \<Longrightarrow> tower s 0 ns = ns"
  unfolding rep_def well_sized_def by (force intro: filter_True)

lemma rep_chain0: "rep s ns \<Longrightarrow> chain (\<lambda>a. fwd s a 0) (head s) ns"
  using rep_chain [of s ns 0] tower_0 [of s ns] by (auto simp: rep_def well_sized_def)

lemma rep_bchain0: "rep s ns \<Longrightarrow> bchain (\<lambda>a. bwd s a 0) (head s) ns"
proof -
  assume rep: "rep s ns"
  then have "0 < max_level s" by (simp add: rep_def well_sized_def)
  with rep have "bchain (\<lambda>a. bwd s a 0) (head s) (tower s 0 ns)" by (simp add: rep_def well_linked_def)
  then show ?thesis by (simp only: tower_0 [OF rep])
qed

lemma tower_0_part: "rep s (pre @ post) \<Longrightarrow> tower s 0 pre = pre" "rep s (pre @ post) \<Longrightarrow> tower s 0 post = post"
  unfolding rep_def well_sized_def by (force intro: filter_True)+

lemma tower_above: "rep s ns \<Longrightarrow> current_level s \<le> l \<Longrightarrow> tower s l ns = []"
  by (force simp: rep_def well_sized_def filter_empty_conv)

section \<open>The search finds the predecessor on every level\<close>

lemma walk_chain:
  assumes "chain (\<lambda>a. fwd s a l) p (xs @ ys)"
    and "\<forall>a \<in> set xs. P (node s a)" and "\<forall>a \<in> set ys. \<not> P (node s a)"
  shows "walk s P l p = Some (last (p # xs))"
  using assms
proof (induction xs arbitrary: p)
  case Nil
  then show ?case by (cases ys) (auto simp: walk.simps)
next
  case (Cons x xs)
  then have "walk s P l x = Some (last (x # xs))" by simp
  with Cons.prems show ?case by (simp add: walk.simps [of s P l p])
qed

definition pred_at :: "skiplist \<Rightarrow> nat list \<Rightarrow> nat \<Rightarrow> nat" where
  "pred_at s pre l = last (head s # tower s l pre)"

lemma pred_at_in: "pred_at s pre l \<in> set (head s # tower s l pre)"
  unfolding pred_at_def by (rule last_in_set) simp

lemma walk_level:
  assumes rep: "rep s (pre @ post)" and l: "l < current_level s"
    and P: "\<forall>a \<in> set pre. P (node s a)" "\<forall>a \<in> set post. \<not> P (node s a)"
  shows "walk s P l (pred_at s pre (Suc l)) = Some (pred_at s pre l)"
proof -
  let ?c = "pred_at s pre (Suc l)"
  have "?c \<in> set (head s # tower s l pre)" using pred_at_in [of s pre "Suc l"] by auto
  then obtain xs ys where split: "head s # tower s l pre = xs @ ?c # ys"
    by (meson split_list)
  have "chain (\<lambda>a. fwd s a l) (head s) (tower s l pre @ tower s l post)"
    using rep_chain [OF rep, of l] rep l by (simp add: rep_def well_sized_def)
  then have "chain (\<lambda>a. fwd s a l) ?c (ys @ tower s l post)"
    by (rule chain_suffix_mid [where xs = xs]) (use split in simp)
  moreover have "set ys \<subseteq> set (tower s l pre)"
    using split by (cases xs) auto
  ultimately have "walk s P l ?c = Some (last (?c # ys))"
    using P by (intro walk_chain [where ys = "tower s l post"]) auto
  moreover have "last (?c # ys) = pred_at s pre l"
    unfolding pred_at_def [of s pre l] split by simp
  ultimately show ?thesis by simp
qed

lemma descend_rep:
  assumes rep: "rep s (pre @ post)"
    and P: "\<forall>a \<in> set pre. P (node s a)" "\<forall>a \<in> set post. \<not> P (node s a)"
    and "n \<le> current_level s" "length upd = max_level s"
  shows "\<exists>upd'. descend s P n (pred_at s pre n) upd = Inr (pred_at s pre 0, upd') \<and>
     length upd' = max_level s \<and>
     (\<forall>l < max_level s. upd' ! l = (if l < n then Some (pred_at s pre l) else upd ! l))"
  using assms(4,5)
proof (induction n arbitrary: upd)
  case 0
  then show ?case by simp
next
  case (Suc n)
  have "walk s P n (pred_at s pre (Suc n)) = Some (pred_at s pre n)"
    using Suc.prems by (intro walk_level [OF rep _ P]) simp
  moreover obtain upd' where "descend s P n (pred_at s pre n) (upd[n := Some (pred_at s pre n)])
        = Inr (pred_at s pre 0, upd')" "length upd' = max_level s"
      "\<forall>l < max_level s. upd' ! l = (if l < n then Some (pred_at s pre l)
           else upd[n := Some (pred_at s pre n)] ! l)"
    using Suc.IH [of "upd[n := Some (pred_at s pre n)]"] Suc.prems by auto
  moreover have "n < length upd"
    using Suc.prems rep by (simp add: rep_def well_sized_def)
  ultimately show ?case by (auto simp: nth_list_update less_Suc_eq)
qed

lemma search_rep:
  assumes rep: "rep s (pre @ post)"
    and P: "\<forall>a \<in> set pre. P (node s a)" "\<forall>a \<in> set post. \<not> P (node s a)"
  obtains upd where "search s P = Inr (pred_at s pre 0, upd)" "length upd = max_level s"
    "\<And>l. l < current_level s \<Longrightarrow> upd ! l = Some (pred_at s pre l)"
proof -
  have le: "current_level s \<le> max_level s" using rep by (simp add: rep_def well_sized_def)
  have "tower s (current_level s) pre = []"
    using tower_above [OF rep order.refl] by simp
  then have "pred_at s pre (current_level s) = head s" by (simp add: pred_at_def)
  with descend_rep [OF rep P order.refl, of "replicate (max_level s) None"] le that
  show ?thesis by (fastforce simp: search_def)
qed

lemma fwd_pred_at_0:
  assumes "rep s (pre @ post)"
  shows "fwd s (pred_at s pre 0) 0 = (case post of [] \<Rightarrow> None | a # _ \<Rightarrow> Some a)"
proof -
  have "chain (\<lambda>a. fwd s a 0) (pred_at s pre 0) post"
    using chain_suffix [OF rep_chain0 [OF assms]] tower_0_part(1) [OF assms] by (simp add: pred_at_def)
  then show ?thesis by (rule chain_first)
qed

section \<open>The link and unlink loops\<close>

lemma link_level_frame [simp]:
  "height (link_level a upd l s) b = height s b" "bheight (link_level a upd l s) b = bheight s b"
  "entry_at (link_level a upd l s) b = entry_at s b"
  "length (nodes (link_level a upd l s)) = length (nodes s)"
  "head (link_level a upd l s) = head s" "max_level (link_level a upd l s) = max_level s"
  "current_level (link_level a upd l s) = current_level s"
  "size_bytes (link_level a upd l s) = size_bytes s"
  by (simp_all add: link_level_def Let_def split: option.split)

lemma unlink_level_frame [simp]:
  "height (unlink_level a upd l s) b = height s b" "bheight (unlink_level a upd l s) b = bheight s b"
  "entry_at (unlink_level a upd l s) b = entry_at s b"
  "length (nodes (unlink_level a upd l s)) = length (nodes s)"
  "head (unlink_level a upd l s) = head s" "max_level (unlink_level a upd l s) = max_level s"
  "current_level (unlink_level a upd l s) = current_level s"
  "size_bytes (unlink_level a upd l s) = size_bytes s"
  by (simp_all add: unlink_level_def Let_def split: option.split)

lemma link_level_effect:
  assumes "a < length (nodes s)" "l < height s a" "l < bheight s a"
    and "upd ! l = Some p" "p \<noteq> a" "p < length (nodes s)" "l < height s p"
    and n: "\<And>n. fwd s p l = Some n \<Longrightarrow> n \<noteq> a \<and> n < length (nodes s) \<and> l < bheight s n"
  shows "fwd (link_level a upd l s) b m =
           (if m = l \<and> b = a then fwd s p l else if m = l \<and> b = p then Some a else fwd s b m)"
    and "bwd (link_level a upd l s) b m =
           (if m = l \<and> b = a then Some p
            else if m = l \<and> fwd s p l = Some b then Some a else bwd s b m)"
proof -
  note simps = link_level_def Let_def assms(1-7) not_sym [OF assms(5)]
  show "fwd (link_level a upd l s) b m =
      (if m = l \<and> b = a then fwd s p l else if m = l \<and> b = p then Some a else fwd s b m)"
    by (cases "fwd s p l") (simp_all add: simps)
  show "bwd (link_level a upd l s) b m =
      (if m = l \<and> b = a then Some p
       else if m = l \<and> fwd s p l = Some b then Some a else bwd s b m)"
  proof (cases "fwd s p l")
    case None
    then show ?thesis by (simp add: simps)
  next
    case (Some q)
    with n have "q \<noteq> a" "q < length (nodes s)" "l < bheight s q" by auto
    with Some show ?thesis by (cases "b = a"; cases "b = q") (auto simp: simps)
  qed
qed

lemma unlink_level_effect:
  assumes "upd ! l = Some p" "p \<noteq> a" "p < length (nodes s)" "l < height s p"
    and "\<And>n. fwd s a l = Some n \<Longrightarrow> n < length (nodes s) \<and> l < bheight s n"
  shows "fwd (unlink_level a upd l s) b m = (if m = l \<and> b = p then fwd s a l else fwd s b m)"
    and "bwd (unlink_level a upd l s) b m =
           (if m = l \<and> fwd s a l = Some b then Some p else bwd s b m)"
  using assms by (auto simp: unlink_level_def Let_def split: option.split)

text \<open>The whole loop over the levels of a node.\<close>

definition linkable :: "skiplist \<Rightarrow> nat \<Rightarrow> nat option list \<Rightarrow> nat \<Rightarrow> bool" where
  "linkable s a upd l \<longleftrightarrow> a < length (nodes s) \<and> l < height s a \<and> l < bheight s a \<and>
     upd ! l \<noteq> None \<and> the (upd ! l) \<noteq> a \<and> the (upd ! l) < length (nodes s) \<and>
     l < height s (the (upd ! l)) \<and>
     (\<forall>n. fwd s (the (upd ! l)) l = Some n \<longrightarrow> n \<noteq> a \<and> n < length (nodes s) \<and> l < bheight s n)"

lemma link_levels_frame [simp]:
  "height (fold (link_level a upd) ls s) b = height s b"
  "bheight (fold (link_level a upd) ls s) b = bheight s b"
  "entry_at (fold (link_level a upd) ls s) b = entry_at s b"
  "length (nodes (fold (link_level a upd) ls s)) = length (nodes s)"
  "head (fold (link_level a upd) ls s) = head s"
  "max_level (fold (link_level a upd) ls s) = max_level s"
  "current_level (fold (link_level a upd) ls s) = current_level s"
  "size_bytes (fold (link_level a upd) ls s) = size_bytes s"
  by (induction ls arbitrary: s) simp_all

lemma unlink_levels_frame [simp]:
  "height (fold (unlink_level a upd) ls s) b = height s b"
  "bheight (fold (unlink_level a upd) ls s) b = bheight s b"
  "entry_at (fold (unlink_level a upd) ls s) b = entry_at s b"
  "length (nodes (fold (unlink_level a upd) ls s)) = length (nodes s)"
  "head (fold (unlink_level a upd) ls s) = head s"
  "max_level (fold (unlink_level a upd) ls s) = max_level s"
  "current_level (fold (unlink_level a upd) ls s) = current_level s"
  "size_bytes (fold (unlink_level a upd) ls s) = size_bytes s"
  by (induction ls arbitrary: s) simp_all

lemma link_levels:
  assumes "\<forall>l < M. linkable s a upd l"
  shows "fwd (fold (link_level a upd) [0 ..< M] s) b m =
       (if m < M \<and> b = a then fwd s (the (upd ! m)) m
        else if m < M \<and> b = the (upd ! m) then Some a else fwd s b m) \<and>
     bwd (fold (link_level a upd) [0 ..< M] s) b m =
       (if m < M \<and> b = a then Some (the (upd ! m))
        else if m < M \<and> fwd s (the (upd ! m)) m = Some b then Some a else bwd s b m)"
  using assms
proof (induction M arbitrary: b m)
  case 0
  then show ?case by simp
next
  case (Suc M)
  let ?t = "fold (link_level a upd) [0 ..< M] s"
  let ?p = "the (upd ! M)"
  have M: "linkable s a upd M" using Suc.prems by auto
  have IH: "\<And>b m. fwd ?t b m =
       (if m < M \<and> b = a then fwd s (the (upd ! m)) m
        else if m < M \<and> b = the (upd ! m) then Some a else fwd s b m) \<and>
     bwd ?t b m =
       (if m < M \<and> b = a then Some (the (upd ! m))
        else if m < M \<and> fwd s (the (upd ! m)) m = Some b then Some a else bwd s b m)"
    using Suc.prems by (intro Suc.IH) simp
  have p: "upd ! M = Some ?p" using M by (auto simp: linkable_def)
  have fp: "fwd ?t ?p M = fwd s ?p M" using IH [of ?p M] by simp
  have cond: "a < length (nodes ?t)" "M < height ?t a" "M < bheight ?t a" "?p \<noteq> a"
    "?p < length (nodes ?t)" "M < height ?t ?p"
    "\<And>n. fwd ?t ?p M = Some n \<Longrightarrow> n \<noteq> a \<and> n < length (nodes ?t) \<and> M < bheight ?t n"
    using M unfolding fp by (simp_all add: linkable_def)
  note eff = link_level_effect [OF cond(1-3) p cond(4-7)]
  show ?case
  proof (cases "m = M")
    case True
    then show ?thesis using eff(1) [of b M] eff(2) [of b M] IH [of b M] fp by simp
  next
    case False
    then have "fwd (link_level a upd M ?t) b m = fwd ?t b m" "bwd (link_level a upd M ?t) b m = bwd ?t b m"
      using eff(1) [of b m] eff(2) [of b m] by simp_all
    moreover have "m < Suc M \<longleftrightarrow> m < M" using False by auto
    ultimately show ?thesis using IH [of b m] by (simp only: upt_Suc fold_append) simp
  qed
qed

definition unlinkable :: "skiplist \<Rightarrow> nat \<Rightarrow> nat option list \<Rightarrow> nat \<Rightarrow> bool" where
  "unlinkable s a upd l \<longleftrightarrow> upd ! l \<noteq> None \<and> the (upd ! l) \<noteq> a \<and>
     the (upd ! l) < length (nodes s) \<and> l < height s (the (upd ! l)) \<and>
     (\<forall>n. fwd s a l = Some n \<longrightarrow> n < length (nodes s) \<and> l < bheight s n)"

lemma unlink_levels:
  assumes "\<forall>l < M. unlinkable s a upd l"
  shows "fwd (fold (unlink_level a upd) [0 ..< M] s) b m =
       (if m < M \<and> b = the (upd ! m) then fwd s a m else fwd s b m) \<and>
     bwd (fold (unlink_level a upd) [0 ..< M] s) b m =
       (if m < M \<and> fwd s a m = Some b then Some (the (upd ! m)) else bwd s b m)"
  using assms
proof (induction M arbitrary: b m)
  case 0
  then show ?case by simp
next
  case (Suc M)
  let ?t = "fold (unlink_level a upd) [0 ..< M] s"
  let ?p = "the (upd ! M)"
  have M: "unlinkable s a upd M" using Suc.prems by auto
  have IH: "\<And>b m. fwd ?t b m =
       (if m < M \<and> b = the (upd ! m) then fwd s a m else fwd s b m) \<and>
     bwd ?t b m =
       (if m < M \<and> fwd s a m = Some b then Some (the (upd ! m)) else bwd s b m)"
    using Suc.prems by (intro Suc.IH) simp
  have p: "upd ! M = Some ?p" using M by (auto simp: unlinkable_def)
  have fp: "fwd ?t a M = fwd s a M" using IH [of a M] by simp
  have cond: "?p \<noteq> a" "?p < length (nodes ?t)" "M < height ?t ?p"
    "\<And>n. fwd ?t a M = Some n \<Longrightarrow> n < length (nodes ?t) \<and> M < bheight ?t n"
    using M unfolding fp by (simp_all add: unlinkable_def)
  note eff = unlink_level_effect [OF p cond]
  show ?case
  proof (cases "m = M")
    case True
    then show ?thesis using eff(1) [of b M] eff(2) [of b M] IH [of b M] fp by simp
  next
    case False
    then have "fwd (unlink_level a upd M ?t) b m = fwd ?t b m"
      "bwd (unlink_level a upd M ?t) b m = bwd ?t b m"
      using eff(1) [of b m] eff(2) [of b m] by simp_all
    moreover have "m < Suc M \<longleftrightarrow> m < M" using False by auto
    ultimately show ?thesis using IH [of b m] by (simp only: upt_Suc fold_append) simp
  qed
qed

section \<open>put refines the insertion into the sorted list\<close>

lemma rep_facts:
  assumes "rep s ns"
  shows "1 \<le> current_level s" "current_level s \<le> max_level s" "distinct (head s # ns)"
    "height s (head s) = max_level s" "head s < length (nodes s)"
    "\<And>a. a \<in> set ns \<Longrightarrow> a < length (nodes s)" "\<And>a. a \<in> set ns \<Longrightarrow> a \<noteq> head s"
    "\<And>a. a \<in> set ns \<Longrightarrow> 1 \<le> height s a" "\<And>a. a \<in> set ns \<Longrightarrow> height s a \<le> current_level s"
    "\<And>a. a \<in> set ns \<Longrightarrow> bheight s a = height s a" "0 < max_level s"
    "sorted_entries (map (entry_at s) ns)"
    "size_bytes s = of_nat (total_size (map (entry_at s) ns))"
  using assms by (auto simp: rep_def well_sized_def)

lemma pred_at_facts:
  assumes "rep s (pre @ post)" "l < max_level s"
  shows "pred_at s pre l < length (nodes s)" "l < height s (pred_at s pre l)"
    "pred_at s pre l \<notin> set post" "pred_at s pre l = head s \<or> pred_at s pre l \<in> set pre"
    "fwd s (pred_at s pre l) l = (case tower s l post of [] \<Rightarrow> None | a # _ \<Rightarrow> Some a)"
proof -
  note f = rep_facts [OF assms(1)]
  have "pred_at s pre l = head s \<or> pred_at s pre l \<in> set (tower s l pre)"
    using pred_at_in [of s pre l] by auto
  then show "pred_at s pre l < length (nodes s)" "l < height s (pred_at s pre l)"
    "pred_at s pre l \<notin> set post" "pred_at s pre l = head s \<or> pred_at s pre l \<in> set pre"
    using f assms(2) by auto
  have "chain (\<lambda>a. fwd s a l) (head s) (tower s l pre @ tower s l post)"
    using rep_chain [OF assms] by simp
  from chain_first [OF chain_suffix [OF this]]
  show "fwd s (pred_at s pre l) l = (case tower s l post of [] \<Rightarrow> None | a # _ \<Rightarrow> Some a)"
    by (simp add: pred_at_def)
qed

lemma fill_head_length: "length (fold (\<lambda>l u. u[l := Some h]) ls u) = length u"
  by (induction ls arbitrary: u) simp_all

lemma fill_head_nth:
  "l < length u \<Longrightarrow>
   fold (\<lambda>l u. u[l := Some h]) [c ..< n] u ! l = (if c \<le> l \<and> l < n then Some h else u ! l)"
proof (induction n)
  case (Suc n)
  then show ?case by (cases "l = n") (auto simp: fill_head_length)
qed simp

lemma first_in_set: "(case xs of [] \<Rightarrow> None | a # _ \<Rightarrow> Some a) = Some n \<Longrightarrow> n \<in> set xs"
  by (cases xs) auto

lemma total_size_append [simp]:
  "total_size (xs @ ys) = total_size xs + total_size ys" "total_size [] = 0"
  "total_size (e # xs) = entry_size e + total_size xs"
  by (simp_all add: total_size_def)

lemma sorted_entries_insert:
  "sorted_entries (xs @ ys) \<Longrightarrow> (\<And>x. x \<in> set xs \<Longrightarrow> entry_less x e) \<Longrightarrow>
   (\<And>y. y \<in> set ys \<Longrightarrow> entry_less e y) \<Longrightarrow> sorted_entries (xs @ e # ys)"
  by (auto simp: sorted_wrt_append)

lemma in_tl: "b \<in> set (tl xs) \<Longrightarrow> b \<in> set xs"
  by (cases xs) auto

lemma first_not_in_tl:
  "distinct xs \<Longrightarrow> b \<in> set (tl xs) \<Longrightarrow> (case xs of [] \<Rightarrow> None | a # _ \<Rightarrow> Some a) \<noteq> Some b"
  by (cases xs) auto

definition node_entry :: "snode \<Rightarrow> entry" where
  "node_entry n = (node_key n, node_value n, node_tid n)"

lemma entry_at_node_entry: "entry_at s a = node_entry (node s a)"
  by (simp add: entry_at_def node_entry_def)

lemma insert_node_rep:
  assumes rep: "rep s (pre @ post)"
    and lvl: "length (forward new) = lvl" "length (backward new) = lvl" "1 \<le> lvl" "lvl \<le> max_level s"
    and upd: "length upd = max_level s"
      "\<And>l. l < current_level s \<Longrightarrow> upd ! l = Some (pred_at s pre l)"
    and pre: "\<And>x. x \<in> set pre \<Longrightarrow> entry_less (entry_at s x) (node_entry new)"
    and post: "\<And>x. x \<in> set post \<Longrightarrow> entry_less (node_entry new) (entry_at s x)"
  shows "rep (insert_node s new upd) (pre @ length (nodes s) # post) \<and>
    map (entry_at (insert_node s new upd)) (pre @ length (nodes s) # post) =
      map (entry_at s) pre @ node_entry new # map (entry_at s) post"
proof -
  let ?a = "length (nodes s)"
  note f = rep_facts [OF rep]
  define upd' where "upd' = fold (\<lambda>l u. u[l := Some (head s)]) [current_level s ..< lvl] upd"
  define s1 where "s1 = s\<lparr>nodes := nodes s @ [new],
    current_level := (if current_level s < lvl then lvl else current_level s)\<rparr>"
  define s2 where "s2 = fold (link_level ?a upd') [0 ..< lvl] s1"
  define s3 where "s3 = s2\<lparr>size_bytes := size_bytes s2 + (of_nat (length (node_key new))
              + of_nat (length (node_value new)) + 8)\<rparr>"
  have s3: "insert_node s new upd = s3"
    by (simp add: insert_node_def Let_def lvl(1) upd'_def s1_def s2_def s3_def)
  have u: "upd' ! l = Some (pred_at s pre l)" if "l < lvl" for l
  proof -
    have "pred_at s pre l = head s" if "current_level s \<le> l"
      using tower_above [OF rep that] by (simp add: pred_at_def)
    with that lvl(4) show ?thesis by (simp add: upd'_def fill_head_nth upd)
  qed
  have old [simp]: "fwd s1 b l = fwd s b l" "bwd s1 b l = bwd s b l" "height s1 b = height s b"
    "bheight s1 b = bheight s b" "entry_at s1 b = entry_at s b" if "b < ?a" for b l
    using that by (simp_all add: s1_def fwd_def bwd_def height_def bheight_def entry_at_def nth_append)
  have new [simp]: "height s1 ?a = lvl" "bheight s1 ?a = lvl" "entry_at s1 ?a = node_entry new"
    by (simp_all add: s1_def height_def bheight_def entry_at_node_entry lvl nth_append)
  have s1: "length (nodes s1) = Suc ?a" "head s1 = head s" "max_level s1 = max_level s"
    "current_level s1 = max (current_level s) lvl" "size_bytes s1 = size_bytes s"
    by (simp_all add: s1_def)
  have next_in: "n \<in> set post \<and> l < height s n" if "fwd s (pred_at s pre l) l = Some n" "l < lvl" for n l
  proof -
    have "l < max_level s" using that(2) lvl(4) by simp
    from that(1) pred_at_facts(5) [OF rep this] have "n \<in> set (tower s l post)"
      by (intro first_in_set) simp
    then show ?thesis by simp
  qed
  have "linkable s1 ?a upd' l" if "l < lvl" for l
  proof -
    have "l < max_level s" using that lvl(4) by simp
    note p = pred_at_facts [OF rep this]
    show ?thesis
      using p(1,2) f(6,10) next_in [OF _ that] that
      by (auto simp: linkable_def s1 u intro: less_SucI dest: less_imp_neq)
  qed
  then have eff: "fwd s2 b l = (if l < lvl \<and> b = ?a then fwd s1 (the (upd' ! l)) l
        else if l < lvl \<and> b = the (upd' ! l) then Some ?a else fwd s1 b l)"
     "bwd s2 b l = (if l < lvl \<and> b = ?a then Some (the (upd' ! l))
        else if l < lvl \<and> fwd s1 (the (upd' ! l)) l = Some b then Some ?a else bwd s1 b l)" for b l
    using link_levels [of lvl s1 ?a upd' b l] by (simp_all add: s2_def)
  have same: "fwd s3 b l = fwd s2 b l" "bwd s3 b l = bwd s2 b l" "height s3 b = height s1 b"
    "bheight s3 b = bheight s1 b" "entry_at s3 b = entry_at s1 b" "nodes s3 = nodes s2"
    "head s3 = head s" "max_level s3 = max_level s" "current_level s3 = max (current_level s) lvl" for b l
    using link_levels_frame [of ?a upd' "[0 ..< lvl]" s1]
    by (simp_all add: s3_def s2_def s1 fwd_def bwd_def height_def bheight_def entry_at_def)
  have len: "length (nodes s2) = Suc ?a" by (simp add: s2_def s1)
  have tw [simp]: "tower s3 l pre = tower s l pre" "tower s3 l post = tower s l post" for l
    using f(6) by (auto intro!: filter_cong simp: same)
  have ha: "height s3 ?a = lvl" by (simp add: same)
  have ent: "map (entry_at s3) (pre @ ?a # post) = map (entry_at s) pre @ node_entry new # map (entry_at s) post"
    using f(6) by (simp add: same)
  have fresh: "?a \<noteq> head s" "?a \<notin> set pre" "?a \<notin> set post"
    using f(5) f(6) [of ?a] by auto
  have "well_sized s3 (pre @ ?a # post)"
    unfolding well_sized_def same
  proof (intro conjI ballI)
    show "distinct (head s # pre @ ?a # post)" using f(3) fresh by auto
    show "1 \<le> max (current_level s) lvl" "max (current_level s) lvl \<le> max_level s"
      "height s1 (head s) = max_level s" using f(1,2,4,5) lvl by simp_all
    fix b
    show "b < length (nodes s2)" if "b \<in> set (head s # pre @ ?a # post)"
      using that f(5) f(6) [of b] by (auto simp: len)
    assume "b \<in> set (pre @ ?a # post)"
    then have "b = ?a \<or> b \<in> set (pre @ post)" by auto
    then show "1 \<le> height s1 b" "height s1 b \<le> max (current_level s) lvl" "bheight s1 b = height s1 b"
      using f(6) [of b] f(8) [of b] f(9) [of b] f(10) [of b] lvl(3) by (elim disjE; simp)+
  qed
  moreover have "chain (\<lambda>b. fwd s3 b l) (head s) (tower s3 l (pre @ ?a # post)) \<and>
      bchain (\<lambda>b. bwd s3 b l) (head s) (tower s3 l (pre @ ?a # post))" if l: "l < max_level s" for l
  proof (cases "l < lvl")
    case True
    let ?p = "pred_at s pre l"
    note p = pred_at_facts [OF rep l]
    have uu: "the (upd' ! l) = ?p" using u [OF True] by simp
    have F: "fwd s3 ?a l = fwd s ?p l" "fwd s3 ?p l = Some ?a"
      "\<And>b. b < ?a \<Longrightarrow> b \<noteq> ?p \<Longrightarrow> fwd s3 b l = fwd s b l"
      using p(1) True by (simp_all add: same eff uu)
    have B: "bwd s3 ?a l = Some ?p" "\<And>b. fwd s ?p l = Some b \<Longrightarrow> b < ?a \<Longrightarrow> bwd s3 b l = Some ?a"
      "\<And>b. fwd s ?p l \<noteq> Some b \<Longrightarrow> b < ?a \<Longrightarrow> bwd s3 b l = bwd s b l"
      using p(1) True by (simp_all add: same eff uu)
    have chains: "chain (\<lambda>b. fwd s b l) (head s) (tower s l pre @ tower s l post)"
      "bchain (\<lambda>b. bwd s b l) (head s) (tower s l pre @ tower s l post)"
      using rep l by (simp_all add: rep_def well_linked_def)
    have d: "distinct (head s # tower s l pre @ tower s l post)" using f(3) by auto
    have "chain (\<lambda>b. fwd s3 b l) (head s) (tower s l pre @ ?a # tower s l post)"
      using chains(1) d fresh F f(5,6)
      by (intro chain_insert [where f = "\<lambda>b. fwd s b l"]) (auto simp: pred_at_def)
    moreover have "bchain (\<lambda>b. bwd s3 b l) (head s) (tower s l pre @ ?a # tower s l post)"
    proof (rule bchain_insert [OF chains(2)])
      show "bwd s3 ?a l = Some (last (head s # tower s l pre))" using B(1) by (simp add: pred_at_def)
      show "bwd s3 b l = bwd s b l" if "b \<in> set (tower s l pre)" for b
      proof (rule B(3))
        have "b \<in> set pre" using that by simp
        then show "b < ?a" using f(6) by simp
        have "b \<notin> set post" using f(3) \<open>b \<in> set pre\<close> by auto
        then show "fwd s ?p l \<noteq> Some b" using next_in [OF _ True] by blast
      qed
      show "bwd s3 (hd (tower s l post)) l = Some ?a" if "tower s l post \<noteq> []"
      proof -
        have "hd (tower s l post) \<in> set post" using hd_in_set [OF that] by simp
        moreover have "fwd s ?p l = Some (hd (tower s l post))"
          using that p(5) by (cases "tower s l post") simp_all
        ultimately show ?thesis using f(6) by (intro B(2)) simp_all
      qed
      show "bwd s3 b l = bwd s b l" if "b \<in> set (tl (tower s l post))" for b
      proof (rule B(3))
        have "b \<in> set (tower s l post)" using that by (rule in_tl)
        then show "b < ?a" using f(6) by simp
        have "distinct (tower s l post)" using d by simp
        from first_not_in_tl [OF this that] show "fwd s ?p l \<noteq> Some b" unfolding p(5) .
      qed
    qed
    ultimately show ?thesis using True by (simp add: ha)
  next
    case False
    have F: "fwd s3 b l = fwd s b l" "bwd s3 b l = bwd s b l" if "b < ?a" for b
      using that False by (simp_all add: same eff)
    have "tower s3 l (pre @ ?a # post) = tower s l (pre @ post)" using False by (simp add: ha)
    moreover have "chain (\<lambda>b. fwd s3 b l) (head s) (tower s l (pre @ post))"
      using rep_chain [OF rep l] F f(5,6)
      by (subst chain_cong [where g = "\<lambda>b. fwd s b l"]) auto
    moreover have "bchain (\<lambda>b. bwd s3 b l) (head s) (tower s l (pre @ post))"
      using rep l F f(6)
      by (subst bchain_cong [where g = "\<lambda>b. bwd s b l"]) (auto simp: rep_def well_linked_def)
    ultimately show ?thesis by simp
  qed
  then have "well_linked s3 (pre @ ?a # post)" by (simp add: well_linked_def same)
  moreover have "sorted_entries (map (entry_at s3) (pre @ ?a # post))"
    unfolding ent using f(12) pre post by (intro sorted_entries_insert) auto
  moreover have "size_bytes s3 = of_nat (total_size (map (entry_at s3) (pre @ ?a # post)))"
    unfolding ent using f(13) s1(5) by (simp add: s3_def s2_def entry_size_def node_entry_def)
  ultimately show ?thesis using ent unfolding s3 rep_def by blast
qed

text \<open>\<open>upsert e es\<close>: the specification of put, insertion into a sorted list of records
  that replaces the value of the same version.\<close>

primrec upsert :: "entry \<Rightarrow> entry list \<Rightarrow> entry list" where
  "upsert e [] = [e]"
| "upsert e (x # xs) =
     (if ekey x = ekey e \<and> etid x = etid e then e # xs
      else if entry_less e x then e # x # xs else x # upsert e xs)"

lemma upsert_split:
  "(\<And>x. x \<in> set xs \<Longrightarrow> entry_less x e) \<Longrightarrow> upsert e (xs @ ys) = xs @ upsert e ys"
proof (induction xs)
  case (Cons x xs)
  have "entry_less x e" using Cons.prems by simp
  then have "\<not> (ekey x = ekey e \<and> etid x = etid e)" "\<not> entry_less e x"
    by (auto simp: entry_less_def version_less_def)
  with Cons show ?case by auto
qed simp

lemma sorted_split_first:
  assumes "sorted_entries (x # xs)" "\<not> entry_less x e" "\<not> (ekey x = ekey e \<and> etid x = etid e)"
    "y \<in> set (x # xs)"
  shows "entry_less e y"
proof -
  have "entry_less e x" using assms(2,3) by (auto simp: entry_less_def version_less_def)
  with assms(1,4) show ?thesis by (auto intro: entry_less_trans)
qed

lemma node_lt_entry_less: "node_lt a b = entry_less (node_entry a) (node_entry b)"
  by (auto simp: node_lt_def entry_less_def version_less_def node_entry_def)

lemma random_level_from_bounds:
  "level \<le> mx \<Longrightarrow> level \<le> random_level_from mx coin level \<and> random_level_from mx coin level \<le> mx"
proof (induction mx coin level rule: random_level_from.induct)
  case (1 mx coin level)
  then show ?case
    by (subst (1 2) random_level_from.simps) (auto split: if_split)
qed

lemma random_level_bounds:
  "1 \<le> max_level s \<Longrightarrow> 1 \<le> random_level s coin \<and> random_level s coin \<le> max_level s"
  unfolding random_level_def by (rule random_level_from_bounds)

text \<open>A position in the list, split by a predicate that holds exactly on a prefix.\<close>

lemma rep_split:
  assumes "rep s ns" "\<And>e e'. entry_less e e' \<Longrightarrow> P e' \<Longrightarrow> P e"
  obtains pre post where "ns = pre @ post" "\<forall>a \<in> set pre. P (entry_at s a)"
    "\<forall>a \<in> set post. \<not> P (entry_at s a)"
proof -
  let ?Q = "\<lambda>a. P (entry_at s a)"
  have sorted: "sorted_wrt (\<lambda>a b. entry_less (entry_at s a) (entry_at s b)) ns"
    using rep_facts(12) [OF assms(1)] by (simp add: sorted_wrt_map)
  have no: "\<not> ?Q b" if "b \<in> set (dropWhile ?Q ns)" for b
  proof -
    have d: "dropWhile ?Q ns \<noteq> []" using that by (metis empty_iff list.set(1))
    then obtain c cs where c: "dropWhile ?Q ns = c # cs" by (meson list.exhaust)
    have "\<not> ?Q c" using hd_dropWhile [OF d] c by simp
    moreover have "sorted_wrt (\<lambda>a b. entry_less (entry_at s a) (entry_at s b)) (c # cs)"
      using sorted c by (metis takeWhile_dropWhile_id sorted_wrt_append)
    then have "b = c \<or> entry_less (entry_at s c) (entry_at s b)" using that c by auto
    ultimately show ?thesis using assms(2) by blast
  qed
  show ?thesis
    by (rule that [of "takeWhile ?Q ns" "dropWhile ?Q ns"]) (auto dest: set_takeWhileD no)
qed

lemma set_value_frame [simp]:
  "fwd (set_value s a v) b l = fwd s b l" "bwd (set_value s a v) b l = bwd s b l"
  "height (set_value s a v) b = height s b" "bheight (set_value s a v) b = bheight s b"
  "length (nodes (set_value s a v)) = length (nodes s)" "head (set_value s a v) = head s"
  "max_level (set_value s a v) = max_level s" "current_level (set_value s a v) = current_level s"
  by (cases "a < length (nodes s)";
      auto simp: set_value_def fwd_def bwd_def height_def bheight_def nth_list_update list_update_beyond)+

lemma entry_at_set_value:
  "a < length (nodes s) \<Longrightarrow> entry_at (set_value s a v) b =
     (if b = a then (node_key (node s a), v, node_tid (node s a)) else entry_at s b)"
  by (auto simp: set_value_def entry_at_def nth_list_update)

lemma set_value_rep:
  fixes v :: bytes
  assumes rep: "rep s (pre @ c # post)"
  defines "e \<equiv> (node_key (node s c), v, node_tid (node s c))"
  shows "rep (set_value s c v) (pre @ c # post) \<and>
    map (entry_at (set_value s c v)) (pre @ c # post) =
      map (entry_at s) pre @ e # map (entry_at s) post"
proof -
  note f = rep_facts [OF rep]
  let ?s = "set_value s c v"
  have c: "c < length (nodes s)" using f(6) by simp
  have ent: "map (entry_at ?s) (pre @ c # post) = map (entry_at s) pre @ e # map (entry_at s) post"
    using f(3) by (auto simp: entry_at_set_value [OF c] e_def)
  have same: "ekey e = ekey (entry_at s c)" "etid e = etid (entry_at s c)"
    by (simp_all add: e_def entry_at_def)
  then have less: "entry_less e x = entry_less (entry_at s c) x" "entry_less x e = entry_less x (entry_at s c)"
    for x by (simp_all add: entry_less_def)
  have "sorted_entries (map (entry_at s) pre @ entry_at s c # map (entry_at s) post)"
    using f(12) by simp
  then have "sorted_entries (map (entry_at s) pre @ e # map (entry_at s) post)"
    by (simp add: sorted_wrt_append less)
  moreover have "size_bytes ?s = of_nat (total_size (map (entry_at s) pre @ e # map (entry_at s) post))"
  proof -
    have "size_bytes ?s = size_bytes s - of_nat (length (node_value (node s c))) + of_nat (length v)"
      by (simp add: set_value_def)
    also have "\<dots> = of_nat (total_size (map (entry_at s) pre @ e # map (entry_at s) post))"
      unfolding f(13) by (simp add: entry_size_def e_def entry_at_def)
    finally show ?thesis .
  qed
  ultimately have "rep ?s (pre @ c # post)"
    using rep unfolding rep_def ent by (simp add: well_sized_def well_linked_def)
  with ent show ?thesis by simp
qed

lemma skiplist_put_upsert:
  assumes "sl_abs s es"
  shows "\<exists>s'. skiplist_put s k v tid coin = Inr s' \<and> sl_abs s' (upsert (k, v, tid) es)"
proof -
  from assms obtain ns where rep: "rep s ns" and es: "es = map (entry_at s) ns"
    by (auto simp: sl_abs_def)
  note f = rep_facts [OF rep]
  define new where "new = new_node k v (random_level s coin) tid"
  have e: "node_entry new = (k, v, tid)" by (simp add: new_def new_node_def node_entry_def)
  obtain pre post where split: "ns = pre @ post"
    and pre: "\<forall>a \<in> set pre. entry_less (entry_at s a) (k, v, tid)"
    and post: "\<forall>a \<in> set post. \<not> entry_less (entry_at s a) (k, v, tid)"
    by (rule rep_split [OF rep, of "\<lambda>x. entry_less x (k, v, tid)"]) (auto intro: entry_less_trans)
  note rep' = rep [unfolded split]
  obtain upd where upd: "search s (\<lambda>n. node_lt n new) = Inr (pred_at s pre 0, upd)"
      "length upd = max_level s" "\<And>l. l < current_level s \<Longrightarrow> upd ! l = Some (pred_at s pre l)"
    using search_rep [OF rep', of "\<lambda>n. node_lt n new"] pre post
    by (auto simp: node_lt_entry_less e entry_at_node_entry)
  have es': "upsert (k, v, tid) es = map (entry_at s) pre @ upsert (k, v, tid) (map (entry_at s) post)"
    unfolding es split map_append using pre by (intro upsert_split) auto
  have ins: "sl_abs (insert_node s new upd) (map (entry_at s) pre @ (k, v, tid) # map (entry_at s) post)"
    if "\<And>x. x \<in> set post \<Longrightarrow> entry_less (k, v, tid) (entry_at s x)"
  proof -
    have "1 \<le> random_level s coin" "random_level s coin \<le> max_level s"
      using random_level_bounds [of s coin] f(11) by simp_all
    then have "rep (insert_node s new upd) (pre @ length (nodes s) # post) \<and>
        map (entry_at (insert_node s new upd)) (pre @ length (nodes s) # post) =
          map (entry_at s) pre @ node_entry new # map (entry_at s) post"
      using upd(2,3) pre that
      by (intro insert_node_rep [OF rep', of new "random_level s coin"])
        (simp_all only: e, simp_all add: new_def new_node_def)
    then show ?thesis unfolding sl_abs_def e by metis
  qed
  note fp = fwd_pred_at_0 [OF rep']
  show ?thesis
  proof (cases post)
    case Nil
    then show ?thesis using ins fp upd(1) es'
      by (simp add: skiplist_put_def new_def [symmetric])
  next
    case (Cons c post')
    have "node_key (node s c) = k \<and> node_tid (node s c) = tid \<longleftrightarrow>
        ekey (entry_at s c) = k \<and> etid (entry_at s c) = tid" by (simp add: entry_at_def)
    show ?thesis
    proof (cases "node_key (node s c) = k \<and> node_tid (node s c) = tid")
      case True
      then have "upsert (k, v, tid) (map (entry_at s) post) = (k, v, tid) # map (entry_at s) post'"
        using Cons by (simp add: entry_at_def)
      moreover have "skiplist_put s k v tid coin = Inr (set_value s c v)"
        using True Cons fp upd(1) by (simp add: skiplist_put_def new_def [symmetric])
      ultimately show ?thesis
        using set_value_rep [OF rep' [unfolded Cons], of v] es' True
        unfolding sl_abs_def by metis
    next
      case False
      then have ne: "\<not> (ekey (entry_at s c) = ekey (k, v, tid) \<and> etid (entry_at s c) = etid (k, v, tid))"
        by (simp add: entry_at_def)
      have "sorted_entries (map (entry_at s) post)" using f(12) by (simp add: split sorted_wrt_append)
      then have less: "entry_less (k, v, tid) (entry_at s x)" if "x \<in> set post" for x
        by (intro sorted_split_first [of "entry_at s c" "map (entry_at s) post'", OF _ _ ne])
          (use post that Cons in auto)
      have "entry_less (k, v, tid) (entry_at s c)" using less Cons by simp
      with ne have "upsert (k, v, tid) (map (entry_at s) post) = (k, v, tid) # map (entry_at s) post"
        using Cons by auto
      moreover have "skiplist_put s k v tid coin = Inr (insert_node s new upd)"
        using False Cons fp upd(1) by (auto simp: skiplist_put_def new_def [symmetric])
      ultimately show ?thesis using ins [OF less] es' by simp
    qed
  qed
qed

section \<open>The other operations\<close>

lemma sl_abs_sorted: "sl_abs s es \<Longrightarrow> sorted_entries es"
  by (auto simp: sl_abs_def dest: rep_facts(12))

lemma sl_abs_size: "sl_abs s es \<Longrightarrow> skiplist_get_size s = of_nat (total_size es)"
  by (auto simp: sl_abs_def skiplist_get_size_def dest: rep_facts(13))

lemma skiplist_new_abs: "1 \<le> mx \<Longrightarrow> sl_abs (skiplist_new mx) []"
  by (auto simp: sl_abs_def rep_def well_sized_def well_linked_def skiplist_new_def new_node_def
      height_def fwd_def intro!: exI [of _ "[]"])

lemma skiplist_clear_abs: "sl_abs s es \<Longrightarrow> sl_abs (skiplist_clear s) []"
  by (auto simp: sl_abs_def rep_def well_sized_def well_linked_def skiplist_clear_def new_node_def
      height_def fwd_def nth_append intro!: exI [of _ "[]"])

lemma flush_from_chain:
  "chain (\<lambda>a. fwd s a 0) p as \<Longrightarrow> flush_from s (fwd s p 0) acc = Some (acc @ map (entry_at s) as)"
proof (induction as arbitrary: p acc)
  case Nil
  then show ?case by (simp add: flush_from.simps)
next
  case (Cons a as)
  then show ?case by (simp add: flush_from.simps [of s "Some a"])
qed

lemma skiplist_flush_abs: "sl_abs s es \<Longrightarrow> skiplist_flush s = Inr es"
  by (auto simp: sl_abs_def skiplist_flush_def flush_from_chain [OF rep_chain0])

text \<open>get\<close>

lemma version_scan_chain:
  assumes "chain (\<lambda>a. fwd s a 0) p as" "sorted (map (\<lambda>a. ekey (entry_at s a)) as)"
    "\<forall>a \<in> set as. k \<le> ekey (entry_at s a)"
  shows "version_scan s k b ab (fwd s p 0) =
    Some (find (\<lambda>a. ekey (entry_at s a) = k \<and> readable b ab (etid (entry_at s a))) as)"
  using assms
proof (induction as arbitrary: p)
  case Nil
  then show ?case by (simp add: version_scan.simps)
next
  case (Cons a as)
  have "version_scan s k b ab (fwd s a 0) =
      Some (find (\<lambda>a. ekey (entry_at s a) = k \<and> readable b ab (etid (entry_at s a))) as)"
    using Cons by simp
  moreover have "find (\<lambda>a. ekey (entry_at s a) = k \<and> readable b ab (etid (entry_at s a))) as = None"
    if "node_key (node s a) \<noteq> k"
    using Cons.prems that by (auto simp: find_None_iff entry_at_def)
  ultimately show ?case using Cons.prems(1)
    by (auto simp: version_scan.simps [of s k b ab "Some a"] entry_at_def readable_def)
qed

lemma sorted_key_split:
  assumes "rep s ns"
  obtains pre post where "ns = pre @ post" "\<forall>a \<in> set pre. node_key (node s a) < k"
    "\<forall>a \<in> set post. \<not> node_key (node s a) < k" "sorted (map (\<lambda>a. ekey (entry_at s a)) post)"
proof -
  obtain pre post where *: "ns = pre @ post" "\<forall>a \<in> set pre. ekey (entry_at s a) < k"
    "\<forall>a \<in> set post. \<not> ekey (entry_at s a) < k"
    by (rule rep_split [OF assms, of "\<lambda>e. ekey e < k"]) (auto dest: entry_less_key_le order.strict_trans1)
  moreover have "sorted (map (\<lambda>a. ekey (entry_at s a)) post)"
    using sorted_entries_keys [OF rep_facts(12) [OF assms]] *(1) by (simp add: sorted_append o_def)
  ultimately show ?thesis using that by (simp add: entry_at_def)
qed

lemma skiplist_get_find:
  assumes "sl_abs s es"
  shows "\<exists>r. skiplist_get s k b ab = Inr r \<and>
    map_option (entry_at s) r = find (\<lambda>e. ekey e = k \<and> readable b ab (etid e)) es"
proof -
  from assms obtain ns where rep: "rep s ns" and es: "es = map (entry_at s) ns"
    by (auto simp: sl_abs_def)
  obtain pre post where split: "ns = pre @ post" and pre: "\<forall>a \<in> set pre. node_key (node s a) < k"
    and post: "\<forall>a \<in> set post. \<not> node_key (node s a) < k"
    and sorted: "sorted (map (\<lambda>a. ekey (entry_at s a)) post)"
    by (rule sorted_key_split [OF rep])
  note rep' = rep [unfolded split]
  let ?Q = "\<lambda>a. ekey (entry_at s a) = k \<and> readable b ab (etid (entry_at s a))"
  obtain upd where "search s (\<lambda>n. node_key n < k) = Inr (pred_at s pre 0, upd)"
    by (rule search_rep [OF rep', of "\<lambda>n. node_key n < k"]) (use pre post in auto)
  moreover have "chain (\<lambda>a. fwd s a 0) (pred_at s pre 0) post"
    using chain_suffix [OF rep_chain0 [OF rep']] tower_0_part(1) [OF rep'] by (simp add: pred_at_def)
  then have "version_scan s k b ab (fwd s (pred_at s pre 0) 0) = Some (find ?Q post)"
    using post sorted by (intro version_scan_chain) (auto simp: entry_at_def)
  moreover have "find ?Q (pre @ post) = find ?Q post"
  proof -
    have "\<forall>a \<in> set pre. \<not> ?Q a" using pre by (auto simp: entry_at_def)
    then show ?thesis by (induction pre) auto
  qed
  moreover have "find (\<lambda>e. ekey e = k \<and> readable b ab (etid e)) es = map_option (entry_at s) (find ?Q ns)"
    unfolding es by (induction ns) auto
  ultimately show ?thesis by (simp add: skiplist_get_def split)
qed

text \<open>remove: only the first (newest) version of the key goes.\<close>

primrec drop_first :: "bytes \<Rightarrow> entry list \<Rightarrow> entry list" where
  "drop_first k [] = []"
| "drop_first k (e # es) = (if ekey e = k then es else e # drop_first k es)"

lemma drop_first_split:
  "(\<And>x. x \<in> set xs \<Longrightarrow> ekey x \<noteq> k) \<Longrightarrow> drop_first k (xs @ ys) = xs @ drop_first k ys"
  by (induction xs) auto

lemma unlink_node_rep:
  assumes rep: "rep s (pre @ t # post)" and M: "M = height s t"
    and upd: "\<And>l. l < current_level s \<Longrightarrow> upd ! l = Some (pred_at s pre l)"
    and s1: "s1 = (fold (unlink_level t upd) [0 ..< M] s)\<lparr>size_bytes := size_bytes s - of_nat (entry_size (entry_at s t))\<rparr>"
  shows "rep s1 (pre @ post) \<and> map (entry_at s1) (pre @ post) = map (entry_at s) (pre @ post)"
proof -
  note f = rep_facts [OF rep]
  have tM: "M \<le> current_level s" "1 \<le> M" using f(8,9) M by auto
  have t: "t \<noteq> head s" "t \<notin> set pre" "t \<notin> set post" using f(3,7) by auto
  have u: "upd ! l = Some (pred_at s pre l)" if "l < M" for l using upd that tM by simp
  have chains: "chain (\<lambda>b. fwd s b l) (head s) (tower s l pre @ tower s l (t # post))"
      "bchain (\<lambda>b. bwd s b l) (head s) (tower s l pre @ tower s l (t # post))" if "l < max_level s" for l
    using rep that by (simp_all add: rep_def well_linked_def del: filter.simps)
  have next_t: "fwd s t l = (case tower s l post of [] \<Rightarrow> None | a # _ \<Rightarrow> Some a)" if "l < M" for l
  proof -
    have "l < max_level s" using that tM f(2) by simp
    from chains(1) [OF this] that M have "chain (\<lambda>b. fwd s b l) t (tower s l post)"
      by (auto dest: chain_suffix)
    then show ?thesis by (rule chain_first)
  qed
  have "unlinkable s t upd l" if "l < M" for l
  proof -
    have "l < max_level s" using that tM f(2) by simp
    note p = pred_at_facts [OF rep this]
    have "n \<in> set (tower s l post)" if "fwd s t l = Some n" for n
      using that next_t [OF \<open>l < M\<close>] by (intro first_in_set) simp
    then have "n < length (nodes s) \<and> l < bheight s n" if "fwd s t l = Some n" for n
      using that f(6,10) by auto
    then show ?thesis using p(1-4) t(1,2) by (auto simp: unlinkable_def u [OF that])
  qed
  then have eff: "fwd s1 b l = (if l < M \<and> b = the (upd ! l) then fwd s t l else fwd s b l)"
     "bwd s1 b l = (if l < M \<and> fwd s t l = Some b then Some (the (upd ! l)) else bwd s b l)" for b l
    using unlink_levels [of M s t upd b l] by (simp_all add: s1 fwd_def bwd_def)
  have same: "height s1 b = height s b" "bheight s1 b = bheight s b" "entry_at s1 b = entry_at s b"
    "length (nodes s1) = length (nodes s)" "head s1 = head s" "max_level s1 = max_level s"
    "current_level s1 = current_level s" for b
    using unlink_levels_frame [of t upd "[0 ..< M]" s]
    by (simp_all add: s1 height_def bheight_def entry_at_def)
  have ent: "entry_at s1 = entry_at s" using same(3) by blast
  have "chain (\<lambda>b. fwd s1 b l) (head s) (tower s l (pre @ post)) \<and>
      bchain (\<lambda>b. bwd s1 b l) (head s) (tower s l (pre @ post))" if l: "l < max_level s" for l
  proof (cases "l < M")
    case True
    let ?p = "pred_at s pre l"
    have uu: "the (upd ! l) = ?p" using u [OF True] by simp
    have tw: "tower s l (t # post) = t # tower s l post" using True M by simp
    have d: "distinct (head s # tower s l pre @ t # tower s l post)" using f(3) by auto
    have "chain (\<lambda>b. fwd s1 b l) (head s) (tower s l pre @ tower s l post)"
      using True by (intro chain_delete [OF chains(1) [OF l, unfolded tw] d])
        (simp_all add: eff uu pred_at_def)
    moreover have "bchain (\<lambda>b. bwd s1 b l) (head s) (tower s l pre @ tower s l post)"
    proof (rule bchain_delete [OF chains(2) [OF l, unfolded tw]])
      have fp: "b \<in> set (tower s l post)" if "fwd s t l = Some b" for b
        using that next_t [OF True] by (intro first_in_set) simp
      show "bwd s1 b l = bwd s b l" if "b \<in> set (tower s l pre)" for b
        using that d fp [of b] by (auto simp: eff)
      show "bwd s1 (hd (tower s l post)) l = Some (last (head s # tower s l pre))"
        if "tower s l post \<noteq> []"
      proof -
        have "fwd s t l = Some (hd (tower s l post))"
          using that next_t [OF True] by (cases "tower s l post") simp_all
        with True show ?thesis by (simp add: eff uu pred_at_def)
      qed
      show "bwd s1 b l = bwd s b l" if "b \<in> set (tl (tower s l post))" for b
      proof -
        have "distinct (tower s l post)" using d by simp
        from first_not_in_tl [OF this that] show ?thesis
          unfolding eff next_t [OF True] by simp
      qed
    qed
    ultimately show ?thesis by simp
  next
    case False
    then have "fwd s1 b l = fwd s b l" "bwd s1 b l = bwd s b l" for b by (simp_all add: eff)
    moreover have "tower s l (t # post) = tower s l post" using False M by simp
    ultimately show ?thesis using chains [OF l] by simp
  qed
  then have "well_linked s1 (pre @ post)" by (simp add: well_linked_def same)
  moreover have "well_sized s1 (pre @ post)"
    using rep by (auto simp: rep_def well_sized_def same)
  moreover have "sorted_entries (map (entry_at s1) (pre @ post))"
    using f(12) by (simp add: ent sorted_wrt_append)
  moreover have "size_bytes s1 = of_nat (total_size (map (entry_at s1) (pre @ post)))"
    using f(13) by (simp add: ent) (simp add: s1)
  ultimately show ?thesis unfolding rep_def by (simp add: ent)
qed

lemma skiplist_remove_drops_first:
  assumes "sl_abs s es"
  shows "\<exists>s'. skiplist_remove s k = Inr s' \<and> sl_abs s' (drop_first k es)"
proof -
  from assms obtain ns where rep: "rep s ns" and es: "es = map (entry_at s) ns"
    by (auto simp: sl_abs_def)
  obtain pre post where split: "ns = pre @ post" and pre: "\<forall>a \<in> set pre. node_key (node s a) < k"
    and post: "\<forall>a \<in> set post. \<not> node_key (node s a) < k"
    and sorted: "sorted (map (\<lambda>a. ekey (entry_at s a)) post)"
    by (rule sorted_key_split [OF rep])
  note rep' = rep [unfolded split]
  obtain upd where upd: "search s (\<lambda>n. node_key n < k) = Inr (pred_at s pre 0, upd)"
    "\<And>l. l < current_level s \<Longrightarrow> upd ! l = Some (pred_at s pre l)"
    by (rule search_rep [OF rep', of "\<lambda>n. node_key n < k"]) (use pre post in auto)
  have es': "drop_first k es = map (entry_at s) pre @ drop_first k (map (entry_at s) post)"
    unfolding es split map_append using pre by (intro drop_first_split) (auto simp: entry_at_def)
  have absent: "drop_first k es = es" if "\<And>a. a \<in> set post \<Longrightarrow> node_key (node s a) \<noteq> k"
  proof -
    have "\<forall>e \<in> set es. ekey e \<noteq> k"
      using pre that by (auto simp: es split entry_at_def) blast
    then show ?thesis by (induction es) auto
  qed
  note fp = fwd_pred_at_0 [OF rep']
  show ?thesis
  proof (cases post)
    case Nil
    with assms fp upd(1) absent show ?thesis by (simp add: skiplist_remove_def)
  next
    case (Cons t post')
    show ?thesis
    proof (cases "node_key (node s t) = k")
      case False
      have "k < node_key (node s t)" using False post Cons by auto
      then have "node_key (node s a) \<noteq> k" if "a \<in> set post" for a
        using that sorted Cons by (auto simp: entry_at_def)
      with absent assms fp upd(1) Cons False show ?thesis by (simp add: skiplist_remove_def)
    next
      case True
      let ?s1 = "(fold (unlink_level t upd) [0 ..< height s t] s)
          \<lparr>size_bytes := size_bytes s - of_nat (entry_size (entry_at s t))\<rparr>"
      have "skiplist_remove s k = Inr ?s1"
        using True fp upd(1) Cons by (simp add: skiplist_remove_def entry_size_def entry_at_def)
      moreover have "rep ?s1 (pre @ post') \<and> map (entry_at ?s1) (pre @ post') = map (entry_at s) (pre @ post')"
        using upd(2) by (intro unlink_node_rep [OF rep' [unfolded Cons] refl _ refl])
      moreover have "drop_first k es = map (entry_at s) (pre @ post')"
        using True by (simp add: es' Cons entry_at_def)
      ultimately show ?thesis unfolding sl_abs_def by metis
    qed
  qed
qed

section \<open>Histories\<close>

text \<open>
  Any sequence of calls on a fresh list, next to the same sequence on a sorted list of
  records. The coins of a put are arbitrary, so the result does not depend on the levels that
  are drawn.
\<close>

datatype sl_op = Sl_Put bytes bytes u64 "nat \<Rightarrow> bool" | Sl_Remove bytes | Sl_Clear

primrec sl_step :: "skiplist \<Rightarrow> sl_op \<Rightarrow> skiplist result" where
  "sl_step s (Sl_Put k v t coin) = skiplist_put s k v t coin"
| "sl_step s (Sl_Remove k) = skiplist_remove s k"
| "sl_step s Sl_Clear = Inr (skiplist_clear s)"

primrec sl_run :: "sl_op list \<Rightarrow> skiplist \<Rightarrow> skiplist result" where
  "sl_run [] s = Inr s"
| "sl_run (c # cs) s = ebind (sl_step s c) (sl_run cs)"

primrec spec_step :: "entry list \<Rightarrow> sl_op \<Rightarrow> entry list" where
  "spec_step es (Sl_Put k v t coin) = upsert (k, v, t) es"
| "spec_step es (Sl_Remove k) = drop_first k es"
| "spec_step es Sl_Clear = []"

primrec spec_run :: "sl_op list \<Rightarrow> entry list \<Rightarrow> entry list" where
  "spec_run [] es = es"
| "spec_run (c # cs) es = spec_run cs (spec_step es c)"

lemma sl_step_refines: "sl_abs s es \<Longrightarrow> \<exists>s'. sl_step s c = Inr s' \<and> sl_abs s' (spec_step es c)"
  by (cases c) (auto intro: skiplist_put_upsert skiplist_remove_drops_first skiplist_clear_abs)

lemma sl_run_refines: "sl_abs s es \<Longrightarrow> \<exists>s'. sl_run cs s = Inr s' \<and> sl_abs s' (spec_run cs es)"
proof (induction cs arbitrary: s es)
  case (Cons c cs)
  obtain s1 where "sl_step s c = Inr s1" "sl_abs s1 (spec_step es c)"
    using sl_step_refines [OF Cons.prems] by blast
  with Cons.IH show ?case by simp
qed simp

text \<open>C9: after any history of put, remove and clear calls, with any level coins, no call has
  failed or looped; the list holds exactly the records of the reference run on a sorted list,
  in order (key ascending, version descending), its size counter is the sum of their sizes, and
  a get with any version bound and abort check finds the first readable record of its key.\<close>

theorem skiplist_history:
  assumes "1 \<le> max_lvl"
  shows "\<exists>s. sl_run cs (skiplist_new max_lvl) = Inr s \<and>
    sorted_entries (spec_run cs []) \<and>
    skiplist_flush s = Inr (spec_run cs []) \<and>
    skiplist_get_size s = of_nat (total_size (spec_run cs [])) \<and>
    (\<forall>k b ab. \<exists>r. skiplist_get s k b ab = Inr r \<and>
       map_option (entry_at s) r = find (\<lambda>e. ekey e = k \<and> readable b ab (etid e)) (spec_run cs []))"
proof -
  obtain s where "sl_run cs (skiplist_new max_lvl) = Inr s" and s: "sl_abs s (spec_run cs [])"
    using sl_run_refines [OF skiplist_new_abs [OF assms]] by blast
  with skiplist_get_find [OF s] show ?thesis
    by (simp add: skiplist_flush_abs [OF s] sl_abs_size [OF s] sl_abs_sorted [OF s])
qed

theorem skiplist_history_witness:
  "\<exists>s. sl_run [Sl_Put [1] [2] 3 (\<lambda>_. False), Sl_Put [1] [4] 5 (\<lambda>_. True), Sl_Remove [1]] (skiplist_new 16) = Inr s \<and>
    skiplist_flush s = Inr [([1], [2], 3)]"
  using skiplist_history [of 16 "[Sl_Put [1] [2] 3 (\<lambda>_. False), Sl_Put [1] [4] 5 (\<lambda>_. True), Sl_Remove [1]]"]
  by (auto simp: entry_less_def version_less_def)

end
