(* ===== verification/SkipList_Range.thy ===== *)
theory SkipList_Range
  imports SkipList
begin

text \<open>
  Ranges of the skip list: \<open>begin_preffix\<close>/\<open>end_preffix\<close> delimit exactly the
  records whose key starts with the prefix, \<open>iters_monotony_predicate\<close> delimits
  exactly the records on which a monotone predicate is 0.
\<close>

section \<open>Prefixes and the lexicographic order\<close>

lemma append_le_append [simp]: "q @ (u :: bytes) \<le> q @ x \<longleftrightarrow> u \<le> x"
  by (induction q) auto

lemma byte_ff: "(255 :: byte) = - 1"
  by (simp add: word_eq_iff_unsigned unsigned_minus_1_eq_mask mask_eq_exp_minus_1)

lemma replicate_ff_le: "replicate n (255 :: byte) \<le> x \<longleftrightarrow> prefix (replicate n 255) x"
proof (induction n arbitrary: x)
  case (Suc n)
  have "\<not> (255 :: byte) < y" for y
    unfolding byte_ff by (simp add: not_less)
  with Suc show ?case by (cases x) auto
qed simp

lemma word_succ_le: "(b :: byte) \<noteq> 255 \<Longrightarrow> b + 1 \<le> y \<longleftrightarrow> b < y"
  by (simp add: inc_less_eq_iff byte_ff)

lemma prefix_interval:
  assumes "(b :: byte) \<noteq> 255"
  shows "prefix (q @ b # replicate n 255) x \<longleftrightarrow>
    q @ b # replicate n 255 \<le> x \<and> \<not> q @ [b + 1] \<le> x"
proof (induction q arbitrary: x)
  case Nil
  show ?case
  proof (cases x)
    case (Cons y ys)
    then show ?thesis using word_succ_le [OF assms, of y] replicate_ff_le [of n ys] assms
      by (auto simp: less_le_not_le)
  qed simp
next
  case (Cons c q)
  then show ?case by (cases x) auto
qed

lemma takeWhile_replicate: "\<exists>n. takeWhile (\<lambda>b. b = c) xs = replicate n c"
proof (induction xs)
  case (Cons x xs)
  then obtain n where "takeWhile (\<lambda>b. b = c) xs = replicate n c" by auto
  then have "takeWhile (\<lambda>b. b = c) (x # xs) = replicate (if x = c then Suc n else 0) c" by simp
  then show ?case by (rule exI)
qed (auto intro: exI [of _ 0])

lemma strip_ff_cases:
  obtains n where "strip_ff p = []" "p = replicate n 255"
  | q b n where "strip_ff p = q @ [b]" "b \<noteq> 255" "p = q @ b # replicate n 255"
proof -
  let ?d = "dropWhile (\<lambda>b. b = 255) (rev p)"
  obtain n where n: "takeWhile (\<lambda>b. b = 255) (rev p) = replicate n 255"
    using takeWhile_replicate [of 255 "rev p"] by blast
  have "rev (rev p) = rev (replicate n 255 @ ?d)"
    using takeWhile_dropWhile_id [of "\<lambda>b. b = 255" "rev p"] unfolding n by (rule arg_cong [OF sym])
  then have p: "p = strip_ff p @ replicate n 255"
    by (simp only: strip_ff_def rev_append rev_rev_ident rev_replicate)
  show ?thesis
  proof (cases ?d)
    case Nil
    then have "strip_ff p = []" by (simp add: strip_ff_def)
    with p that(1) show ?thesis by simp
  next
    case (Cons b r)
    then have "strip_ff p = rev r @ [b]" by (simp add: strip_ff_def)
    moreover have "b \<noteq> 255" using hd_dropWhile [of "\<lambda>b. b = 255" "rev p"] Cons by simp
    moreover have "p = rev r @ b # replicate n 255" using p calculation(1) by simp
    ultimately show ?thesis by (rule that(2))
  qed
qed

section \<open>Walking an interval\<close>

lemma iter_range_chain:
  assumes "chain (\<lambda>a. fwd s a 0) p (as @ bs)" "distinct (as @ bs)"
  shows "iter_range s (fwd s p 0) (case bs of [] \<Rightarrow> None | b # _ \<Rightarrow> Some b) acc = Some (acc @ as)"
  using assms
proof (induction as arbitrary: p acc)
  case Nil
  then have "fwd s p 0 = (case bs of [] \<Rightarrow> None | b # _ \<Rightarrow> Some b)"
    by (auto dest: chain_first)
  then show ?case by (subst iter_range.simps) simp
next
  case (Cons a as)
  then have "Some a \<noteq> (case bs of [] \<Rightarrow> None | b # _ \<Rightarrow> Some b)" by (cases bs) auto
  then have "iter_range s (Some a) (case bs of [] \<Rightarrow> None | b # _ \<Rightarrow> Some b) acc =
      iter_range s (fwd s a 0) (case bs of [] \<Rightarrow> None | b # _ \<Rightarrow> Some b) (acc @ [a])"
    by (subst iter_range.simps) (simp add: iter_next_def)
  with Cons show ?case by simp
qed

lemma begin_preffix_rep:
  assumes "rep s (pre @ post)"
    and "\<forall>a \<in> set pre. node_key (node s a) < p" "\<forall>a \<in> set post. \<not> node_key (node s a) < p"
  shows "skiplist_begin_preffix s p = Inr (case post of [] \<Rightarrow> None | a # _ \<Rightarrow> Some a)"
proof -
  obtain upd where "search s (\<lambda>n. node_key n < p) = Inr (pred_at s pre 0, upd)"
    by (rule search_rep [OF assms(1), of "\<lambda>n. node_key n < p"]) (use assms(2,3) in auto)
  with fwd_pred_at_0 [OF assms(1)] show ?thesis by (simp add: skiplist_begin_preffix_def)
qed

lemma end_preffix_rep:
  assumes "rep s ns"
  obtains mid post where "ns = mid @ post"
    "skiplist_end_preffix s p = Inr (case post of [] \<Rightarrow> None | a # _ \<Rightarrow> Some a)"
    "\<forall>a \<in> set mid. p \<le> node_key (node s a) \<longrightarrow> prefix p (node_key (node s a))"
    "\<forall>a \<in> set post. p \<le> node_key (node s a) \<and> \<not> prefix p (node_key (node s a))"
proof (cases rule: strip_ff_cases [of p])
  case (1 n)
  show ?thesis
    by (rule that [of ns "[]"]) (use 1 in \<open>simp_all add: skiplist_end_preffix_def replicate_ff_le\<close>)
next
  case (2 q b n)
  obtain mid post where split: "ns = mid @ post" "\<forall>a \<in> set mid. node_key (node s a) < q @ [b + 1]"
    "\<forall>a \<in> set post. \<not> node_key (node s a) < q @ [b + 1]"
    by (rule sorted_key_split [OF assms])
  have "skiplist_end_preffix s p = Inr (case post of [] \<Rightarrow> None | a # _ \<Rightarrow> Some a)"
    using begin_preffix_rep [OF assms [unfolded split(1)] split(2,3)]
    by (simp add: skiplist_end_preffix_def 2(1) Let_def)
  moreover have "q @ b # replicate n 255 < q @ [b + 1]"
  proof -
    have "b < b + 1" using word_succ_le [OF 2(2)] by blast
    then show ?thesis by (induction q) auto
  qed
  ultimately show ?thesis
    using that [of mid post] split prefix_interval [OF 2(2)]
    by (force simp: 2(3) not_less not_le)
qed

lemma skiplist_preffix_range:
  assumes "sl_abs s es"
  shows "\<exists>i j as. skiplist_begin_preffix s p = Inr i \<and> skiplist_end_preffix s p = Inr j \<and>
    iter_range s i j [] = Some as \<and> map (entry_at s) as = filter (\<lambda>e. prefix p (ekey e)) es"
proof -
  from assms obtain ns where rep: "rep s ns" and es: "es = map (entry_at s) ns"
    by (auto simp: sl_abs_def)
  obtain mid post where e: "ns = mid @ post"
    "skiplist_end_preffix s p = Inr (case post of [] \<Rightarrow> None | a # _ \<Rightarrow> Some a)"
    "\<forall>a \<in> set mid. p \<le> node_key (node s a) \<longrightarrow> prefix p (node_key (node s a))"
    "\<forall>a \<in> set post. p \<le> node_key (node s a) \<and> \<not> prefix p (node_key (node s a))"
    by (rule end_preffix_rep [OF rep, of p])
  obtain pre rest where b: "ns = pre @ rest" "\<forall>a \<in> set pre. node_key (node s a) < p"
    "\<forall>a \<in> set rest. \<not> node_key (node s a) < p"
    by (rule sorted_key_split [OF rep])
  have disj: "set pre \<inter> set post = {}" using b(2) e(4) by fastforce
  obtain us where "mid = pre @ us \<and> rest = us @ post \<or> pre = mid @ us \<and> post = us @ rest"
    using e(1) b(1) by (auto simp: append_eq_append_conv2)
  moreover from this disj have "us = []" if "pre = mid @ us" "post = us @ rest"
    using that by (cases us) auto
  ultimately obtain xs where xs: "mid = pre @ xs" "rest = xs @ post" by auto
  have no_pre: "\<not> prefix p (node_key (node s a))" if "a \<in> set pre" for a
  proof
    assume "prefix p (node_key (node s a))"
    then have "p \<le> node_key (node s a)" by (auto simp: prefix_def append_le_append [of p "[]", simplified])
    with b(2) that show False by auto
  qed
  have "iter_range s (fwd s (last (head s # pre)) 0) (case post of [] \<Rightarrow> None | a # _ \<Rightarrow> Some a) [] = Some ([] @ xs)"
    using chain_suffix [OF rep_chain0 [OF rep [unfolded b(1)]]] rep_facts(3) [OF rep] xs b(1)
    by (intro iter_range_chain) auto
  moreover have "skiplist_begin_preffix s p = Inr (fwd s (last (head s # pre)) 0)"
    using begin_preffix_rep [OF rep [unfolded b(1)] b(2,3)]
      chain_first [OF chain_suffix [OF rep_chain0 [OF rep [unfolded b(1)]]]] by simp
  moreover have "map (entry_at s) xs = filter (\<lambda>e. prefix p (ekey e)) es"
  proof -
    have "filter (\<lambda>e. prefix p (ekey e)) es = map (entry_at s) (filter (\<lambda>a. prefix p (node_key (node s a))) (pre @ xs @ post))"
      by (simp add: es b(1) xs(2) filter_map o_def entry_at_def)
    also have "filter (\<lambda>a. prefix p (node_key (node s a))) (pre @ xs @ post) = xs"
      using no_pre e(3,4) b(3) xs by (force simp: filter_empty_conv not_less intro: filter_True)
    finally show ?thesis by simp
  qed
  ultimately show ?thesis using e(2) by force
qed

section \<open>Monotone predicates\<close>

lemma hit_walk_chain:
  assumes "chain (\<lambda>a. fwd s a l) p (xs @ ys)"
    and "\<forall>a \<in> set xs. 0 < pred (node_key (node s a))" "\<forall>a \<in> set ys. \<not> 0 < pred (node_key (node s a))"
  shows "hit_walk s pred l p = Some (last (p # xs),
    case ys of [] \<Rightarrow> None | a # _ \<Rightarrow> if pred (node_key (node s a)) = 0 then Some a else None)"
  using assms
proof (induction xs arbitrary: p)
  case Nil
  then show ?case by (cases ys) (auto simp: hit_walk.simps)
next
  case (Cons x xs)
  then show ?case by (subst hit_walk.simps) simp
qed

lemma hit_walk_level:
  assumes rep: "rep s (pre @ post)" and l: "l < current_level s"
    and P: "\<forall>a \<in> set pre. 0 < pred (node_key (node s a))"
      "\<forall>a \<in> set post. \<not> 0 < pred (node_key (node s a))"
  shows "hit_walk s pred l (pred_at s pre (Suc l)) = Some (pred_at s pre l,
    case tower s l post of [] \<Rightarrow> None | a # _ \<Rightarrow> if pred (node_key (node s a)) = 0 then Some a else None)"
proof -
  let ?c = "pred_at s pre (Suc l)"
  have "?c \<in> set (head s # tower s l pre)" using pred_at_in [of s pre "Suc l"] by auto
  then obtain xs ys where split: "head s # tower s l pre = xs @ ?c # ys"
    by (meson split_list)
  have "chain (\<lambda>a. fwd s a l) (head s) (tower s l pre @ tower s l post)"
    using rep_chain [OF rep, of l] rep l by (simp add: rep_def well_sized_def)
  then have "chain (\<lambda>a. fwd s a l) ?c (ys @ tower s l post)"
    by (rule chain_suffix_mid [where xs = xs]) (use split in simp)
  moreover have "set ys \<subseteq> set (tower s l pre)"
    using split by (cases xs) auto
  ultimately have "hit_walk s pred l ?c = Some (last (?c # ys),
      case tower s l post of [] \<Rightarrow> None | a # _ \<Rightarrow> if pred (node_key (node s a)) = 0 then Some a else None)"
    using P by (intro hit_walk_chain) auto
  moreover have "last (?c # ys) = pred_at s pre l"
    unfolding pred_at_def [of s pre l] split by simp
  ultimately show ?thesis by simp
qed

lemma hit_descend_rep:
  assumes rep: "rep s (pre @ post)"
    and P: "\<forall>a \<in> set pre. 0 < pred (node_key (node s a))"
      "\<forall>a \<in> set post. \<not> 0 < pred (node_key (node s a))"
    and "n \<le> current_level s"
  shows "\<exists>r. hit_descend s pred n (pred_at s pre n) = Inr r \<and>
    (\<forall>a. r = Some a \<longrightarrow> a \<in> set post \<and> pred (node_key (node s a)) = 0) \<and>
    (r = None \<longrightarrow> 0 < n \<longrightarrow> (case post of [] \<Rightarrow> True | a # _ \<Rightarrow> pred (node_key (node s a)) \<noteq> 0))"
  using assms(4)
proof (induction n)
  case 0
  then show ?case by simp
next
  case (Suc n)
  define hit where "hit = (case tower s n post of [] \<Rightarrow> None
      | a # _ \<Rightarrow> if pred (node_key (node s a)) = 0 then Some a else None)"
  have walk: "hit_walk s pred n (pred_at s pre (Suc n)) = Some (pred_at s pre n, hit)"
    unfolding hit_def using Suc.prems by (intro hit_walk_level [OF rep _ P]) simp
  show ?case
  proof (cases hit)
    case None
    obtain r where r: "hit_descend s pred n (pred_at s pre n) = Inr r"
      "\<forall>a. r = Some a \<longrightarrow> a \<in> set post \<and> pred (node_key (node s a)) = 0"
      "r = None \<longrightarrow> 0 < n \<longrightarrow> (case post of [] \<Rightarrow> True | a # _ \<Rightarrow> pred (node_key (node s a)) \<noteq> 0)"
      using Suc by auto
    have "case post of [] \<Rightarrow> True | a # _ \<Rightarrow> pred (node_key (node s a)) \<noteq> 0" if "n = 0"
      using None tower_0_part(2) [OF rep] that
      by (auto simp: hit_def split: list.splits if_splits)
    with r walk None show ?thesis by auto
  next
    case (Some a)
    then have "a \<in> set (tower s n post)" "pred (node_key (node s a)) = 0"
      by (cases "tower s n post"; simp add: hit_def split: if_splits)+
    with walk Some show ?thesis by simp
  qed
qed

lemma expand_left_chain:
  assumes "bchain (\<lambda>a. bwd s a 0) p (xs @ [n])"
    and "p = head s \<or> pred (node_key (node s p)) \<noteq> 0"
    and "\<forall>a \<in> set xs. a \<noteq> head s \<and> pred (node_key (node s a)) = 0"
  shows "expand_left s pred n = Some (hd (xs @ [n]))"
  using assms
proof (induction xs arbitrary: n rule: rev_induct)
  case Nil
  then show ?case by (auto simp: expand_left.simps)
next
  case (snoc x xs)
  then have "bwd s n 0 = Some x" by (simp add: bchain_append)
  moreover have "expand_left s pred x = Some (hd (xs @ [x]))"
    using snoc by (intro snoc.IH) (auto simp: bchain_append)
  ultimately show ?case using snoc.prems(3) by (subst expand_left.simps) (simp add: hd_append)
qed

lemma expand_right_chain:
  assumes "chain (\<lambda>a. fwd s a 0) n (ys @ post)"
    and "\<forall>a \<in> set ys. pred (node_key (node s a)) = 0" "\<forall>a \<in> set post. pred (node_key (node s a)) \<noteq> 0"
  shows "expand_right s pred n = Some (last (n # ys))"
  using assms
proof (induction ys arbitrary: n)
  case Nil
  then show ?case by (cases post) (auto simp: expand_right.simps)
next
  case (Cons y ys)
  then show ?case by (subst expand_right.simps) simp
qed

text \<open>The three zones of the list.\<close>

lemma monotone_zones:
  assumes "rep s ns" "monotone_predicate pred"
  obtains pre mid post where "ns = pre @ mid @ post"
    "\<forall>a \<in> set pre. 0 < pred (node_key (node s a))"
    "\<forall>a \<in> set mid. pred (node_key (node s a)) = 0"
    "\<forall>a \<in> set post. pred (node_key (node s a)) < 0"
proof -
  have mono: "(0 < pred b \<longrightarrow> 0 < pred a) \<and> (pred a < 0 \<longrightarrow> pred b < 0)" if "a \<le> b" for a b
    using assms(2) that by (simp add: monotone_predicate_def)
  have m1: "0 < pred (ekey e)" if "entry_less e e'" "0 < pred (ekey e')" for e e'
    using mono [OF entry_less_key_le [OF that(1)]] that(2) by simp
  have m2: "0 \<le> pred (ekey e)" if "entry_less e e'" "0 \<le> pred (ekey e')" for e e'
    using mono [OF entry_less_key_le [OF that(1)]] that(2) by linarith
  obtain pre rest where 1: "ns = pre @ rest" "\<forall>a \<in> set pre. 0 < pred (ekey (entry_at s a))"
    "\<forall>a \<in> set rest. \<not> 0 < pred (ekey (entry_at s a))"
    by (rule rep_split [OF assms(1), of "\<lambda>e. 0 < pred (ekey e)", OF m1])
  obtain pm post where 2: "ns = pm @ post" "\<forall>a \<in> set pm. 0 \<le> pred (ekey (entry_at s a))"
    "\<forall>a \<in> set post. \<not> 0 \<le> pred (ekey (entry_at s a))"
    by (rule rep_split [OF assms(1), of "\<lambda>e. 0 \<le> pred (ekey e)", OF m2])
  have disj: "set pre \<inter> set post = {}" using 1(2) 2(3) by fastforce
  obtain us where "pm = pre @ us \<and> rest = us @ post \<or> pre = pm @ us \<and> post = us @ rest"
    using 1(1) 2(1) by (auto simp: append_eq_append_conv2)
  moreover from this disj have "us = []" if "pre = pm @ us" "post = us @ rest"
    using that by (cases us) auto
  ultimately obtain mid where "pm = pre @ mid" "rest = mid @ post" by auto
  with 1 2 show ?thesis
    by (intro that [of pre mid post]) (auto simp: entry_at_def not_less not_le intro: order.antisym)
qed

text \<open>The range is empty exactly when no record is hit, and otherwise its two iterators
  delimit the records on which the predicate is 0.\<close>

lemma skiplist_predicate_range:
  assumes "sl_abs s es" "monotone_predicate pred"
  shows "\<exists>r. skiplist_iters_monotony_predicate s pred = Inr r \<and>
    (case r of
       None \<Rightarrow> filter (\<lambda>e. pred (ekey e) = 0) es = []
     | Some (i, j) \<Rightarrow> filter (\<lambda>e. pred (ekey e) = 0) es \<noteq> [] \<and>
         (\<exists>as. iter_range s i j [] = Some as \<and>
               map (entry_at s) as = filter (\<lambda>e. pred (ekey e) = 0) es))"
proof -
  from assms(1) obtain ns where rep: "rep s ns" and es: "es = map (entry_at s) ns"
    by (auto simp: sl_abs_def)
  obtain pre mid post where z: "ns = pre @ mid @ post"
    "\<forall>a \<in> set pre. 0 < pred (node_key (node s a))" "\<forall>a \<in> set mid. pred (node_key (node s a)) = 0"
    "\<forall>a \<in> set post. pred (node_key (node s a)) < 0"
    by (rule monotone_zones [OF rep assms(2)])
  note rep' = rep [unfolded z(1)]
  note f = rep_facts [OF rep']
  have hits: "filter (\<lambda>e. pred (ekey e) = 0) es = map (entry_at s) mid"
  proof -
    let ?hit = "\<lambda>a. pred (node_key (node s a)) = 0"
    have "filter ?hit pre = []" "filter ?hit post = []" "filter ?hit mid = mid"
      using z(2-4) by (force simp: filter_empty_conv intro: filter_True)+
    then show ?thesis by (simp add: es z(1) filter_map o_def entry_at_def)
  qed
  have top: "pred_at s pre (current_level s) = head s"
    using tower_above [OF rep' order.refl] by (simp add: pred_at_def)
  obtain r where r: "hit_descend s pred (current_level s) (head s) = Inr r"
    "\<forall>a. r = Some a \<longrightarrow> a \<in> set (mid @ post) \<and> pred (node_key (node s a)) = 0"
    "r = None \<longrightarrow> (case mid @ post of [] \<Rightarrow> True | a # _ \<Rightarrow> pred (node_key (node s a)) \<noteq> 0)"
    using hit_descend_rep [OF rep' z(2), of "current_level s"] z(3,4) f(1) unfolding top by force
  show ?thesis
  proof (cases r)
    case None
    with r(3) z(3) have "mid = []" by (cases mid) auto
    with r(1) None hits show ?thesis by (simp add: skiplist_iters_monotony_predicate_def)
  next
    case (Some n)
    with r(2) z(4) have "n \<in> set mid" by force
    then obtain xs ys where mid: "mid = xs @ n # ys" by (meson split_list)
    have bc: "bchain (\<lambda>a. bwd s a 0) (head s) ((pre @ xs @ [n]) @ ys @ post)"
      using rep_bchain0 [OF rep'] by (simp add: mid)
    have ch: "chain (\<lambda>a. fwd s a 0) (head s) (pre @ mid @ post)" by (rule rep_chain0 [OF rep'])
    let ?p = "last (head s # pre)"
    have "bchain (\<lambda>a. bwd s a 0) ?p (xs @ [n])" using bc unfolding bchain_append by (simp add: bchain_append)
    moreover have "?p = head s \<or> pred (node_key (node s ?p)) \<noteq> 0"
      using z(2) by (cases pre rule: rev_cases) auto
    moreover have "\<forall>a \<in> set xs. a \<noteq> head s \<and> pred (node_key (node s a)) = 0"
      using z(3) f(7) mid by auto
    ultimately have left: "expand_left s pred n = Some (hd (xs @ [n]))" by (rule expand_left_chain)
    have "chain (\<lambda>a. fwd s a 0) n (ys @ post)"
      using ch by (rule chain_suffix_mid [where xs = "head s # pre @ xs"]) (simp add: mid)
    then have right: "expand_right s pred n = Some (last (n # ys))"
      using z(3,4) mid by (intro expand_right_chain [where post = post]) auto
    have stop: "fwd s (last (n # ys)) 0 = (case post of [] \<Rightarrow> None | a # _ \<Rightarrow> Some a)"
      using chain_first [OF chain_suffix [OF \<open>chain (\<lambda>a. fwd s a 0) n (ys @ post)\<close>]] by simp
    have start: "fwd s ?p 0 = Some (hd (xs @ [n]))"
      using chain_first [OF chain_suffix [OF ch]] by (cases xs) (simp_all add: mid)
    have "iter_range s (fwd s ?p 0) (case post of [] \<Rightarrow> None | a # _ \<Rightarrow> Some a) [] = Some ([] @ mid)"
      using chain_suffix [OF ch] f(3) by (intro iter_range_chain) auto
    then show ?thesis
      using r(1) Some left right stop start hits mid
      by (simp add: skiplist_iters_monotony_predicate_def)
  qed
qed

text \<open>C26: on the list that any history builds, the two prefix iterators delimit exactly the
  records whose key has the prefix, and a range query with a monotone predicate returns no range
  when no record hits, and otherwise two iterators that delimit exactly the hits, in order.\<close>

theorem skiplist_range_queries:
  assumes "sl_run cs (skiplist_new max_lvl) = Inr s" "1 \<le> max_lvl" "monotone_predicate pred"
  shows "(\<exists>i j as. skiplist_begin_preffix s p = Inr i \<and> skiplist_end_preffix s p = Inr j \<and>
      iter_range s i j [] = Some as \<and>
      map (entry_at s) as = filter (\<lambda>e. prefix p (ekey e)) (spec_run cs [])) \<and>
    (\<exists>r. skiplist_iters_monotony_predicate s pred = Inr r \<and>
      (case r of
         None \<Rightarrow> filter (\<lambda>e. pred (ekey e) = 0) (spec_run cs []) = []
       | Some (i, j) \<Rightarrow> filter (\<lambda>e. pred (ekey e) = 0) (spec_run cs []) \<noteq> [] \<and>
           (\<exists>as. iter_range s i j [] = Some as \<and>
              map (entry_at s) as = filter (\<lambda>e. pred (ekey e) = 0) (spec_run cs []))))"
proof -
  have s: "sl_abs s (spec_run cs [])"
    using sl_run_refines [OF skiplist_new_abs [OF assms(2)], of cs] assms(1) by simp
  show ?thesis using skiplist_preffix_range [OF s, of p] skiplist_predicate_range [OF s assms(3)] by blast
qed

theorem skiplist_range_queries_witness:
  "\<exists>s i j as. sl_run [Sl_Put [1, 2] [5] 3 (\<lambda>_. True), Sl_Put [2] [6] 4 (\<lambda>_. False)] (skiplist_new 16) = Inr s \<and>
    skiplist_begin_preffix s [1] = Inr i \<and> skiplist_end_preffix s [1] = Inr j \<and>
    iter_range s i j [] = Some as \<and> map (entry_at s) as = [([1, 2], [5], 3)]"
proof -
  let ?cs = "[Sl_Put [1, 2] [5] 3 (\<lambda>_. True), Sl_Put [2] [6] 4 (\<lambda>_. False)]"
  have spec: "filter (\<lambda>e. prefix [1] (ekey e)) (spec_run ?cs []) = [([1, 2], [5], 3)]"
    by (simp add: entry_less_def version_less_def)
  obtain s where s: "sl_run ?cs (skiplist_new 16) = Inr s"
    using sl_run_refines [OF skiplist_new_abs, of 16 ?cs] by auto
  have "monotone_predicate (\<lambda>_. 0)" by (simp add: monotone_predicate_def)
  from skiplist_range_queries [OF s _ this, of "[1]"] s spec show ?thesis by auto
qed

end
