(* ===== verification/HeapIter.thy ===== *)
theory HeapIter
  imports Kopi_Prelude
begin

text \<open>
  The merge heap of src/src/iterator/iterator.cpp: \<open>SearchItem\<close> with its order (key
  ascending, version descending, source index descending) and \<open>HeapIterator\<close>, which
  yields for every key its newest visible record. The \<open>std::priority_queue\<close> is a
  list kept in the order of \<open>operator<\<close>, so its head is \<open>top()\<close>.
\<close>

section \<open>SearchItem\<close>

record search_item =
  si_key :: bytes
  si_value :: bytes
  si_tid :: u64
  si_idx :: nat
  si_level :: int

definition item_less :: "search_item \<Rightarrow> search_item \<Rightarrow> bool" where
  "item_less a b =
     (if si_key a \<noteq> si_key b then si_key a < si_key b
      else if si_tid a \<noteq> si_tid b then si_tid b < si_tid a
      else si_idx b < si_idx a)"

definition item_greater :: "search_item \<Rightarrow> search_item \<Rightarrow> bool" where
  "item_greater a b = item_less b a"

definition item_eq :: "search_item \<Rightarrow> search_item \<Rightarrow> bool" where
  "item_eq a b \<longleftrightarrow> si_key a = si_key b \<and> si_tid a = si_tid b \<and> si_idx a = si_idx b"

section \<open>HeapIterator\<close>

primrec heap_push :: "search_item list \<Rightarrow> search_item \<Rightarrow> search_item list" where
  "heap_push [] x = [x]"
| "heap_push (y # ys) x = (if item_less x y then x # y # ys else y # heap_push ys x)"

record heap_iter =
  items :: "search_item list"
  current :: "(bytes \<times> bytes) option"
  max_tranc_id :: u64
  skip_delete :: bool
  keep_all_versions :: bool

definition skip_by_tranc_id :: "u64 \<Rightarrow> search_item list \<Rightarrow> search_item list" where
  "skip_by_tranc_id mx its = dropWhile (\<lambda>i. mx \<noteq> 0 \<and> mx < si_tid i) its"

definition top_value_legal :: "bool \<Rightarrow> search_item list \<Rightarrow> bool" where
  "top_value_legal sd its \<longleftrightarrow> \<not> (its \<noteq> [] \<and> sd \<and> si_value (hd its) = [])"

definition pop_key :: "search_item list \<Rightarrow> search_item list" where
  "pop_key its = dropWhile (\<lambda>i. si_key i = si_key (hd its)) (tl its)"

lemma length_dropWhile_lt: "xs \<noteq> [] \<Longrightarrow> length (dropWhile P (tl xs)) < length xs"
  by (cases xs) (auto simp: le_imp_less_Suc length_dropWhile_le)

text \<open>The filtering loop shared by the constructor and \<open>operator++\<close>.\<close>

function heap_filter :: "u64 \<Rightarrow> bool \<Rightarrow> search_item list \<Rightarrow> search_item list" where
  "heap_filter mx sd its =
     (let its' = skip_by_tranc_id mx its
      in if top_value_legal sd its' then its' else heap_filter mx sd (pop_key its'))"
  by pat_completeness auto
termination
proof (relation "measure (\<lambda>(mx, sd, its). length its)")
  fix mx sd its its'
  assume "its' = skip_by_tranc_id mx its" "\<not> top_value_legal sd its'"
  then have "its' \<noteq> []" "length its' \<le> length its"
    by (auto simp: top_value_legal_def skip_by_tranc_id_def length_dropWhile_le)
  then show "((mx, sd, pop_key its'), mx, sd, its) \<in> measure (\<lambda>(mx, sd, its). length its)"
    using length_dropWhile_lt [of its' "\<lambda>i. si_key i = si_key (hd its')"] by (simp add: pop_key_def)
qed simp

declare heap_filter.simps [simp del]

definition update_current :: "heap_iter \<Rightarrow> heap_iter" where
  "update_current h = h\<lparr>current := (case items h of [] \<Rightarrow> None
     | x # _ \<Rightarrow> Some (si_key x, si_value x))\<rparr>"

definition heap_empty :: "bool \<Rightarrow> bool \<Rightarrow> heap_iter" where
  "heap_empty sd keep = \<lparr>items = [], current = None, max_tranc_id = 0,
     skip_delete = sd, keep_all_versions = keep\<rparr>"

definition heap_new :: "search_item list \<Rightarrow> u64 \<Rightarrow> bool \<Rightarrow> bool \<Rightarrow> heap_iter" where
  "heap_new item_vec mx sd keep =
     update_current \<lparr>items = heap_filter mx sd (foldl heap_push [] item_vec), current = None,
       max_tranc_id = mx, skip_delete = sd, keep_all_versions = keep\<rparr>"

definition heap_next :: "heap_iter \<Rightarrow> heap_iter" where
  "heap_next h =
     (if items h = [] then h
      else let rest = (if keep_all_versions h then tl (items h) else pop_key (items h))
           in update_current (h\<lparr>items := heap_filter (max_tranc_id h) (skip_delete h) rest\<rparr>))"

definition heap_is_end :: "heap_iter \<Rightarrow> bool" where
  "heap_is_end h \<longleftrightarrow> items h = []"

definition heap_is_valid :: "heap_iter \<Rightarrow> bool" where
  "heap_is_valid h \<longleftrightarrow> items h \<noteq> []"

definition heap_deref :: "heap_iter \<Rightarrow> (bytes \<times> bytes) result" where
  "heap_deref h = (if \<not> heap_is_valid h then Inl Runtime_Error
     else Inr (si_key (hd (items h)), si_value (hd (items h))))"

definition heap_get_tranc_id :: "heap_iter \<Rightarrow> u64" where
  "heap_get_tranc_id h =
     (if keep_all_versions h \<and> items h \<noteq> [] then si_tid (hd (items h)) else max_tranc_id h)"

definition heap_get_cur_tranc_id :: "heap_iter \<Rightarrow> u64 result" where
  "heap_get_cur_tranc_id h = (if items h = [] then Inl Runtime_Error else Inr (si_tid (hd (items h))))"

definition heap_eq :: "heap_iter \<Rightarrow> heap_iter \<Rightarrow> bool result" where
  "heap_eq a b =
     (if items a = [] \<or> heap_is_end b then Inr (items a = [] \<and> heap_is_end b)
      else ebind (heap_deref a) (\<lambda>x. ebind (heap_deref b) (\<lambda>y. Inr (x = y))))"

text \<open>The client's loop \<open>for (it = begin; it != end; ++it)\<close>: the records it sees.\<close>

lemma heap_filter_length: "length (heap_filter mx sd its) \<le> length its"
proof (induction mx sd its rule: heap_filter.induct)
  case (1 mx sd its)
  let ?s = "skip_by_tranc_id mx its"
  have s: "length ?s \<le> length its" by (simp add: skip_by_tranc_id_def length_dropWhile_le)
  show ?case
  proof (cases "top_value_legal sd ?s")
    case True
    with s show ?thesis by (simp add: heap_filter.simps [of mx sd its])
  next
    case False
    then have "?s \<noteq> []" by (auto simp: top_value_legal_def)
    then have "length (pop_key ?s) \<le> length its"
      using length_dropWhile_lt [of ?s "\<lambda>i. si_key i = si_key (hd ?s)"] s by (simp add: pop_key_def)
    with 1 [OF refl False] False show ?thesis by (simp add: heap_filter.simps [of mx sd its])
  qed
qed

lemma heap_next_shorter: "items h \<noteq> [] \<Longrightarrow> length (items (heap_next h)) < length (items h)"
  using heap_filter_length [of "max_tranc_id h" "skip_delete h" "pop_key (items h)"]
    heap_filter_length [of "max_tranc_id h" "skip_delete h" "tl (items h)"]
    length_dropWhile_lt [of "items h" "\<lambda>i. si_key i = si_key (hd (items h))"]
  by (cases "items h") (auto simp: heap_next_def update_current_def pop_key_def Let_def)

function heap_drain :: "heap_iter \<Rightarrow> search_item list" where
  "heap_drain h = (if heap_is_end h then [] else hd (items h) # heap_drain (heap_next h))"
  by pat_completeness auto
termination by (relation "measure (\<lambda>h. length (items h))") (auto simp: heap_is_end_def heap_next_shorter)

declare heap_drain.simps [simp del]

section \<open>The order\<close>

lemma item_less_irrefl [simp]: "\<not> item_less a a"
  by (simp add: item_less_def)

lemma item_less_trans: "item_less a b \<Longrightarrow> item_less b c \<Longrightarrow> item_less a c"
  by (auto simp: item_less_def split: if_splits)

lemma item_less_total: "item_less a b \<or> item_eq a b \<or> item_less b a"
  by (auto simp: item_less_def item_eq_def)

abbreviation item_le :: "search_item \<Rightarrow> search_item \<Rightarrow> bool" where
  "item_le a b \<equiv> \<not> item_less b a"

lemma item_le_trans: "item_le a b \<Longrightarrow> item_le b c \<Longrightarrow> item_le a c"
  by (auto simp: item_less_def split: if_splits)

lemma heap_push_set [simp]: "set (heap_push ys x) = insert x (set ys)"
  by (induction ys) auto

lemma heap_push_sorted: "sorted_wrt item_le ys \<Longrightarrow> sorted_wrt item_le (heap_push ys x)"
proof (induction ys)
  case (Cons y ys)
  show ?case
  proof (cases "item_less x y")
    case True
    then have "item_le x y" using item_less_trans [of x y x] by auto
    with Cons.prems have "\<forall>z \<in> set ys. item_le x z"
      using item_le_trans [OF \<open>item_le x y\<close>] by simp
    with Cons.prems True \<open>item_le x y\<close> show ?thesis by simp
  next
    case False
    with Cons show ?thesis by auto
  qed
qed simp

definition heap_of :: "search_item list \<Rightarrow> search_item list" where
  "heap_of vec = foldl heap_push [] vec"

lemma heap_of_sorted: "sorted_wrt item_le (heap_of vec)"
proof -
  have "sorted_wrt item_le ys \<Longrightarrow> sorted_wrt item_le (foldl heap_push ys vec)" for ys
    by (induction vec arbitrary: ys) (auto intro: heap_push_sorted)
  then show ?thesis by (simp add: heap_of_def)
qed

lemma heap_of_set [simp]: "set (heap_of vec) = set vec"
proof -
  have "set (foldl heap_push ys vec) = set ys \<union> set vec" for ys
    by (induction vec arbitrary: ys) auto
  then show ?thesis by (simp add: heap_of_def)
qed

lemma item_le_keys: "sorted_wrt item_le ys \<Longrightarrow> sorted (map si_key ys)"
  by (induction ys) (auto simp: item_less_def split: if_splits)

section \<open>What the iterator yields\<close>

definition item_visible :: "u64 \<Rightarrow> search_item \<Rightarrow> bool" where
  "item_visible mx i \<longleftrightarrow> mx = 0 \<or> si_tid i \<le> mx"

text \<open>The record of \<open>k\<close> that a reader with bound \<open>mx\<close> has to see: the first visible one
  in the order of the heap; with \<open>sd\<close> a deletion mark hides the key.\<close>

definition winner :: "u64 \<Rightarrow> search_item list \<Rightarrow> bytes \<Rightarrow> search_item option" where
  "winner mx its k = find (\<lambda>i. si_key i = k \<and> item_visible mx i) its"

definition shown :: "bool \<Rightarrow> search_item option \<Rightarrow> search_item option" where
  "shown sd r = (case r of None \<Rightarrow> None | Some i \<Rightarrow> if sd \<and> si_value i = [] then None else Some i)"

lemma winner_skip: "winner mx (skip_by_tranc_id mx its) k = winner mx its k"
  by (induction its) (auto simp: winner_def skip_by_tranc_id_def item_visible_def)

lemma sorted_dropWhile: "sorted (map f xs) \<Longrightarrow> sorted (map f (dropWhile P xs))"
  by (induction xs) auto

lemma sorted_skip: "sorted (map si_key its) \<Longrightarrow> sorted (map si_key (skip_by_tranc_id mx its))"
  unfolding skip_by_tranc_id_def by (rule sorted_dropWhile)

lemma sorted_pop_key: "sorted (map si_key its) \<Longrightarrow> sorted (map si_key (pop_key its))"
  unfolding pop_key_def by (rule sorted_dropWhile) (cases its; simp)

lemma pop_key_keys:
  assumes "sorted (map si_key its)" "its \<noteq> []" "i \<in> set (pop_key its)"
  shows "si_key (hd its) < si_key i"
proof -
  obtain x xs where its: "its = x # xs" using assms(2) by (cases its) auto
  let ?d = "dropWhile (\<lambda>i. si_key i = si_key x) xs"
  from assms(3) its have i: "i \<in> set ?d" by (simp add: pop_key_def)
  then obtain y ys where d: "?d = y # ys" by (cases ?d) auto
  have "si_key y \<noteq> si_key x" using hd_dropWhile [of "\<lambda>i. si_key i = si_key x" xs] d by simp
  moreover have "y \<in> set xs" using set_dropWhileD [of y "\<lambda>i. si_key i = si_key x" xs] d by simp
  ultimately have "si_key x < si_key y" using assms(1) its by auto
  moreover have "si_key y \<le> si_key i"
    using sorted_dropWhile [of si_key xs "\<lambda>i. si_key i = si_key x"] assms(1) i unfolding its d by auto
  ultimately show ?thesis by (simp add: its)
qed

lemma winner_pop_key:
  assumes "sorted (map si_key its)" "its \<noteq> []"
  shows "winner mx (pop_key its) k = (if k = si_key (hd its) then None else winner mx its k)"
proof -
  obtain x xs where its: "its = x # xs" using assms(2) by (cases its) auto
  show ?thesis
  proof (cases "k = si_key x")
    case True
    have "\<forall>i \<in> set (pop_key its). si_key i \<noteq> k"
      using pop_key_keys [OF assms] True its by fastforce
    then show ?thesis using True its by (auto simp: winner_def find_None_iff)
  next
    case False
    have "winner mx (dropWhile (\<lambda>i. si_key i = si_key x) xs) k = winner mx xs k"
      using False by (induction xs) (auto simp: winner_def)
    with False show ?thesis by (simp add: its pop_key_def winner_def)
  qed
qed

lemma heap_filter_shown:
  assumes "sorted (map si_key its)"
  shows "sorted (map si_key (heap_filter mx sd its)) \<and>
    shown sd (winner mx (heap_filter mx sd its) k) = shown sd (winner mx its k) \<and>
    set (heap_filter mx sd its) \<subseteq> set its \<and>
    (heap_filter mx sd its \<noteq> [] \<longrightarrow>
       item_visible mx (hd (heap_filter mx sd its)) \<and>
       \<not> (sd \<and> si_value (hd (heap_filter mx sd its)) = []))"
  using assms
proof (induction mx sd its rule: heap_filter.induct)
  case (1 mx sd its)
  let ?s = "skip_by_tranc_id mx its"
  have s: "sorted (map si_key ?s)" using 1(2) by (rule sorted_skip)
  have sub: "set ?s \<subseteq> set its" by (auto simp: skip_by_tranc_id_def dest: set_dropWhileD)
  have vis: "item_visible mx (hd ?s)" if "?s \<noteq> []"
    using hd_dropWhile [OF that [unfolded skip_by_tranc_id_def]]
    by (auto simp: skip_by_tranc_id_def item_visible_def)
  show ?case
  proof (cases "top_value_legal sd ?s")
    case True
    then have "heap_filter mx sd its = ?s" by (simp add: heap_filter.simps [of mx sd its])
    with s sub vis True show ?thesis by (auto simp: winner_skip top_value_legal_def)
  next
    case False
    then have ne: "?s \<noteq> []" and dead: "sd" "si_value (hd ?s) = []" by (auto simp: top_value_legal_def)
    have F: "heap_filter mx sd its = heap_filter mx sd (pop_key ?s)"
      using False by (simp add: heap_filter.simps [of mx sd its])
    have "winner mx ?s (si_key (hd ?s)) = Some (hd ?s)"
      using vis [OF ne] ne by (cases ?s) (auto simp: winner_def)
    then have "shown sd (winner mx (pop_key ?s) k) = shown sd (winner mx its k)"
      using winner_pop_key [OF s ne, of mx k] winner_skip [of mx its k] dead
      by (auto simp: shown_def)
    moreover have "set (pop_key ?s) \<subseteq> set ?s"
      using ne by (cases ?s) (auto simp: pop_key_def dest: set_dropWhileD)
    ultimately show ?thesis
      unfolding F using 1(1) [OF refl False sorted_pop_key [OF s]] sub by auto
  qed
qed

text \<open>The loop over a heap iterator shows every key at most once, in ascending order, and
  for each key exactly the record the reader has to see.\<close>

definition heap_ready :: "heap_iter \<Rightarrow> bool" where
  "heap_ready h \<longleftrightarrow> sorted (map si_key (items h)) \<and> \<not> keep_all_versions h \<and>
     (items h \<noteq> [] \<longrightarrow> item_visible (max_tranc_id h) (hd (items h)) \<and>
        \<not> (skip_delete h \<and> si_value (hd (items h)) = []))"

lemma heap_drain_ready:
  assumes "heap_ready h"
  shows "sorted_wrt (\<lambda>a b. si_key a < si_key b) (heap_drain h) \<and> set (heap_drain h) \<subseteq> set (items h) \<and>
    find (\<lambda>i. si_key i = k) (heap_drain h)
      = shown (skip_delete h) (winner (max_tranc_id h) (items h) k)"
  using assms
proof (induction h rule: heap_drain.induct)
  case (1 h)
  show ?case
  proof (cases "items h")
    case Nil
    then show ?thesis by (simp add: heap_drain.simps heap_is_end_def winner_def shown_def)
  next
    case (Cons x xs)
    have srt: "sorted (map si_key (items h))" and keep: "\<not> keep_all_versions h"
      and x: "item_visible (max_tranc_id h) x" "\<not> (skip_delete h \<and> si_value x = [])"
      using 1(2) Cons by (simp_all add: heap_ready_def)
    have ne: "items h \<noteq> []" using Cons by simp
    let ?p = "pop_key (items h)"
    note F = heap_filter_shown [OF sorted_pop_key [OF srt], of "max_tranc_id h" "skip_delete h"]
    have n: "items (heap_next h) = heap_filter (max_tranc_id h) (skip_delete h) ?p"
      "max_tranc_id (heap_next h) = max_tranc_id h" "skip_delete (heap_next h) = skip_delete h"
      "keep_all_versions (heap_next h) = keep_all_versions h"
      using ne keep by (simp_all add: heap_next_def update_current_def Let_def)
    have ready: "heap_ready (heap_next h)" using F keep unfolding heap_ready_def n by blast
    have IH: "sorted_wrt (\<lambda>a b. si_key a < si_key b) (heap_drain (heap_next h)) \<and>
        set (heap_drain (heap_next h)) \<subseteq> set (items (heap_next h)) \<and>
        find (\<lambda>i. si_key i = k) (heap_drain (heap_next h))
          = shown (skip_delete h) (winner (max_tranc_id h) (items (heap_next h)) k)"
      using 1(1) [OF _ ready] ne by (simp add: heap_is_end_def n)
    have D: "heap_drain h = x # heap_drain (heap_next h)"
      using Cons by (simp add: heap_drain.simps [of h] heap_is_end_def)
    have sub: "set (items (heap_next h)) \<subseteq> set ?p" using F by (simp add: n)
    have "si_key x < si_key i" if "i \<in> set (heap_drain (heap_next h))" for i
      using pop_key_keys [OF srt ne, of i] that IH sub Cons by auto
    moreover have "set ?p \<subseteq> set (items h)"
      using Cons by (auto simp: pop_key_def dest: set_dropWhileD)
    moreover have "find (\<lambda>i. si_key i = k) (heap_drain h)
        = shown (skip_delete h) (winner (max_tranc_id h) (items h) k)"
    proof (cases "k = si_key x")
      case True
      with x have "shown (skip_delete h) (winner (max_tranc_id h) (items h) k) = Some x"
        using Cons by (auto simp: winner_def shown_def)
      with True show ?thesis by (simp add: D)
    next
      case False
      with IH F winner_pop_key [OF srt ne, of "max_tranc_id h" k] Cons show ?thesis
        by (simp add: D n)
    qed
    ultimately show ?thesis using IH sub Cons by (auto simp: D)
  qed
qed

lemma heap_new_fields [simp]:
  "items (heap_new vec mx sd keep) = heap_filter mx sd (heap_of vec)"
  "max_tranc_id (heap_new vec mx sd keep) = mx" "skip_delete (heap_new vec mx sd keep) = sd"
  "keep_all_versions (heap_new vec mx sd keep) = keep"
  by (simp_all add: heap_new_def update_current_def heap_of_def)

lemma heap_new_ready: "heap_ready (heap_new vec mx sd False)"
  using heap_filter_shown [OF item_le_keys [OF heap_of_sorted], of mx sd vec]
  unfolding heap_ready_def heap_new_fields by blast

lemma heap_drain_new:
  "sorted_wrt (\<lambda>a b. si_key a < si_key b) (heap_drain (heap_new vec mx sd False)) \<and>
   find (\<lambda>i. si_key i = k) (heap_drain (heap_new vec mx sd False))
     = shown sd (winner mx (heap_of vec) k)"
  using heap_drain_ready [OF heap_new_ready, of vec mx sd k]
    heap_filter_shown [OF item_le_keys [OF heap_of_sorted], of mx sd vec k]
  by simp

text \<open>The winner has the greatest visible version, and among equal versions the greatest
  source index.\<close>

lemma findSomeD: "find P xs = Some x \<Longrightarrow> x \<in> set xs \<and> P x"
  by (induction xs) (auto split: if_splits)

lemma sorted_find_least:
  "sorted_wrt item_le its \<Longrightarrow> find P its = Some i \<Longrightarrow> j \<in> set its \<Longrightarrow> P j \<Longrightarrow> item_le i j"
  by (induction its) (auto split: if_splits)

lemma winner_newest:
  assumes "winner mx (heap_of vec) k = Some i"
  shows "i \<in> set vec \<and> si_key i = k \<and> item_visible mx i \<and>
    (\<forall>j \<in> set vec. si_key j = k \<and> item_visible mx j \<longrightarrow>
       si_tid j < si_tid i \<or> (si_tid j = si_tid i \<and> si_idx j \<le> si_idx i))"
proof -
  have "i \<in> set (heap_of vec) \<and> si_key i = k \<and> item_visible mx i"
    using findSomeD [OF assms [unfolded winner_def]] by simp
  moreover have "si_tid j < si_tid i \<or> (si_tid j = si_tid i \<and> si_idx j \<le> si_idx i)"
    if "j \<in> set vec" "si_key j = k" "item_visible mx j" for j
    using sorted_find_least [OF heap_of_sorted assms [unfolded winner_def], of j] that calculation
    by (auto simp: item_less_def split: if_splits)
  ultimately show ?thesis by auto
qed

lemma winner_None: "winner mx (heap_of vec) k = None \<longleftrightarrow>
    (\<forall>j \<in> set vec. \<not> (si_key j = k \<and> item_visible mx j))"
  by (auto simp: winner_def find_None_iff)

lemma find_sorted_key:
  "sorted_wrt (\<lambda>a b. si_key a < si_key b) ys \<Longrightarrow> i \<in> set ys \<Longrightarrow>
   find (\<lambda>x. si_key x = si_key i) ys = Some i"
proof (induction ys)
  case (Cons y ys)
  show ?case
  proof (cases "i = y")
    case False
    with Cons.prems have "si_key y < si_key i" "i \<in> set ys" by auto
    with Cons.IH Cons.prems show ?thesis by auto
  qed simp
qed simp



end
