(* ===== verification/MemTable.thy ===== *)
theory MemTable
  imports SkipList_Range HeapIter
begin

text \<open>
  The MemTable of src/src/memtable/memtable.cpp: one active skip list and a queue of frozen
  ones, newest first. The locks are not modelled: every operation is one atomic step, which is
  what holding \<open>cur_mtx\<close> and \<open>frozen_mtx\<close> for its whole body gives. The
  size limit of the configuration and the coin flips of the skip list are parameters.
\<close>

section \<open>State and writing\<close>

record memtable =
  current_table :: skiplist
  frozen_tables :: "skiplist list"
  frozen_bytes :: u64

text \<open>The skip list's default height (\<open>SkipList(int max_lvl = 16)\<close>).\<close>

definition table_new :: skiplist where
  "table_new = skiplist_new 16"

definition memtable_new :: memtable where
  "memtable_new = \<lparr>current_table = table_new, frozen_tables = [], frozen_bytes = 0\<rparr>"

definition tranc_visible :: "u64 \<Rightarrow> u64 \<Rightarrow> bool" where
  "tranc_visible entry_tid read_tid \<longleftrightarrow> read_tid = 0 \<or> entry_tid \<le> read_tid"

definition memtable_put_unlocked :: "memtable \<Rightarrow> bytes \<Rightarrow> bytes \<Rightarrow> u64 \<Rightarrow> (nat \<Rightarrow> bool) \<Rightarrow> memtable result" where
  "memtable_put_unlocked m k v tid coin =
     ebind (skiplist_put (current_table m) k v tid coin) (\<lambda>t. Inr (m\<lparr>current_table := t\<rparr>))"

definition freeze_cur_table :: "memtable \<Rightarrow> memtable" where
  "freeze_cur_table m =
     (let table_size = skiplist_get_size (current_table m)
      in if table_size = 0 then m
         else m\<lparr>frozen_tables := current_table m # frozen_tables m,
                frozen_bytes := frozen_bytes m + table_size,
                current_table := table_new\<rparr>)"

definition freeze_if_full :: "u64 \<Rightarrow> memtable \<Rightarrow> memtable" where
  "freeze_if_full limit m =
     (if limit \<le> skiplist_get_size (current_table m) then freeze_cur_table m else m)"

definition memtable_put ::
  "u64 \<Rightarrow> memtable \<Rightarrow> bytes \<Rightarrow> bytes \<Rightarrow> u64 \<Rightarrow> (nat \<Rightarrow> bool) \<Rightarrow> memtable result" where
  "memtable_put limit m k v tid coin =
     ebind (memtable_put_unlocked m k v tid coin) (\<lambda>m'. Inr (freeze_if_full limit m'))"

primrec memtable_put_all ::
  "memtable \<Rightarrow> (bytes \<times> bytes) list \<Rightarrow> u64 \<Rightarrow> (nat \<Rightarrow> nat \<Rightarrow> bool) \<Rightarrow> memtable result" where
  "memtable_put_all m [] tid coins = Inr m"
| "memtable_put_all m (kv # kvs) tid coins =
     ebind (memtable_put_unlocked m (fst kv) (snd kv) tid (coins (length kvs)))
       (\<lambda>m'. memtable_put_all m' kvs tid coins)"

definition memtable_put_batch ::
  "u64 \<Rightarrow> memtable \<Rightarrow> (bytes \<times> bytes) list \<Rightarrow> u64 \<Rightarrow> (nat \<Rightarrow> nat \<Rightarrow> bool) \<Rightarrow> memtable result" where
  "memtable_put_batch limit m kvs tid coins =
     ebind (memtable_put_all m kvs tid coins) (\<lambda>m'. Inr (freeze_if_full limit m'))"

definition memtable_remove_unlocked :: "memtable \<Rightarrow> bytes \<Rightarrow> u64 \<Rightarrow> (nat \<Rightarrow> bool) \<Rightarrow> memtable result" where
  "memtable_remove_unlocked m k tid coin =
     ebind (skiplist_put (current_table m) k [] tid coin) (\<lambda>t. Inr (m\<lparr>current_table := t\<rparr>))"

definition memtable_remove ::
  "u64 \<Rightarrow> memtable \<Rightarrow> bytes \<Rightarrow> u64 \<Rightarrow> (nat \<Rightarrow> bool) \<Rightarrow> memtable result" where
  "memtable_remove limit m k tid coin =
     ebind (memtable_remove_unlocked m k tid coin) (\<lambda>m'. Inr (freeze_if_full limit m'))"

primrec memtable_remove_all ::
  "memtable \<Rightarrow> bytes list \<Rightarrow> u64 \<Rightarrow> (nat \<Rightarrow> nat \<Rightarrow> bool) \<Rightarrow> memtable result" where
  "memtable_remove_all m [] tid coins = Inr m"
| "memtable_remove_all m (k # ks) tid coins =
     ebind (memtable_remove_unlocked m k tid (coins (length ks))) (\<lambda>m'. memtable_remove_all m' ks tid coins)"

definition memtable_remove_batch ::
  "u64 \<Rightarrow> memtable \<Rightarrow> bytes list \<Rightarrow> u64 \<Rightarrow> (nat \<Rightarrow> nat \<Rightarrow> bool) \<Rightarrow> memtable result" where
  "memtable_remove_batch limit m ks tid coins =
     ebind (memtable_remove_all m ks tid coins) (\<lambda>m'. Inr (freeze_if_full limit m'))"

definition memtable_clear :: "memtable \<Rightarrow> memtable" where
  "memtable_clear m = m\<lparr>current_table := skiplist_clear (current_table m), frozen_tables := [],
     frozen_bytes := 0\<rparr>"

definition memtable_get_cur_size :: "memtable \<Rightarrow> u64" where
  "memtable_get_cur_size m = skiplist_get_size (current_table m)"

definition memtable_get_frozen_size :: "memtable \<Rightarrow> u64" where
  "memtable_get_frozen_size m = frozen_bytes m"

definition memtable_get_total_size :: "memtable \<Rightarrow> u64" where
  "memtable_get_total_size m = skiplist_get_size (current_table m) + frozen_bytes m"

section \<open>Point lookups\<close>

text \<open>A returned \<open>SkipListIterator\<close> is a node of one of the tables.\<close>

type_synonym mem_iter = "(skiplist \<times> nat) option"

definition mem_iter_valid :: "mem_iter \<Rightarrow> bool" where
  "mem_iter_valid it = (case it of None \<Rightarrow> False | Some (t, a) \<Rightarrow> iter_is_valid t (Some a))"

definition mem_iter_tid :: "mem_iter \<Rightarrow> u64" where
  "mem_iter_tid it = (case it of None \<Rightarrow> 0 | Some (t, a) \<Rightarrow> node_tid (node t a))"

definition mem_iter_value :: "mem_iter \<Rightarrow> bytes" where
  "mem_iter_value it = (case it of None \<Rightarrow> [] | Some (t, a) \<Rightarrow> node_value (node t a))"

definition table_get :: "skiplist \<Rightarrow> bytes \<Rightarrow> u64 \<Rightarrow> abort_check \<Rightarrow> mem_iter result" where
  "table_get t k b ab = ebind (skiplist_get t k b ab) (\<lambda>r. Inr (map_option (\<lambda>a. (t, a)) r))"

definition memtable_cur_get :: "memtable \<Rightarrow> bytes \<Rightarrow> u64 \<Rightarrow> abort_check \<Rightarrow> mem_iter result" where
  "memtable_cur_get m k b ab = table_get (current_table m) k b ab"

primrec memtable_frozen_get_from ::
  "mem_iter \<Rightarrow> bytes \<Rightarrow> u64 \<Rightarrow> abort_check \<Rightarrow> skiplist list \<Rightarrow> mem_iter result" where
  "memtable_frozen_get_from best k b ab [] = Inr best"
| "memtable_frozen_get_from best k b ab (t # ts) =
     ebind (table_get t k b ab) (\<lambda>candidate.
       if \<not> mem_iter_valid candidate then memtable_frozen_get_from best k b ab ts
       else if \<not> mem_iter_valid best \<or> mem_iter_tid best < mem_iter_tid candidate
         then memtable_frozen_get_from candidate k b ab ts
       else memtable_frozen_get_from best k b ab ts)"

definition memtable_frozen_get :: "memtable \<Rightarrow> bytes \<Rightarrow> u64 \<Rightarrow> abort_check \<Rightarrow> mem_iter result" where
  "memtable_frozen_get m k b ab = memtable_frozen_get_from None k b ab (frozen_tables m)"

definition memtable_get_unlocked :: "memtable \<Rightarrow> bytes \<Rightarrow> u64 \<Rightarrow> abort_check \<Rightarrow> mem_iter result" where
  "memtable_get_unlocked m k b ab =
     ebind (memtable_cur_get m k b ab) (\<lambda>best.
     ebind (memtable_frozen_get m k b ab) (\<lambda>frozen.
       Inr (if mem_iter_valid frozen \<and>
               (\<not> mem_iter_valid best \<or> mem_iter_tid best < mem_iter_tid frozen)
            then frozen else best)))"

definition memtable_get :: "memtable \<Rightarrow> bytes \<Rightarrow> u64 \<Rightarrow> abort_check \<Rightarrow> mem_iter result" where
  "memtable_get m k b ab =
     ebind (memtable_get_unlocked m k b ab) (\<lambda>it. Inr (if mem_iter_valid it then it else None))"

definition memtable_get_record ::
  "memtable \<Rightarrow> bytes \<Rightarrow> u64 \<Rightarrow> abort_check \<Rightarrow> (bytes \<times> u64) option result" where
  "memtable_get_record m k b ab =
     ebind (memtable_get_unlocked m k b ab) (\<lambda>it.
       Inr (if \<not> mem_iter_valid it then None else Some (mem_iter_value it, mem_iter_tid it)))"

primrec memtable_get_batch ::
  "memtable \<Rightarrow> bytes list \<Rightarrow> u64 \<Rightarrow> abort_check \<Rightarrow> (bytes \<times> (bytes \<times> u64) option) list result" where
  "memtable_get_batch m [] b ab = Inr []"
| "memtable_get_batch m (k # ks) b ab =
     ebind (memtable_get_unlocked m k b ab) (\<lambda>it.
       let r = (if mem_iter_valid it then Some (mem_iter_value it, mem_iter_tid it) else None)
       in ebind (memtable_get_batch m ks b ab) (\<lambda>rs. Inr ((k, r) # rs)))"

section \<open>Flushing the oldest table\<close>

text \<open>The builder is the class \<open>SSTBuilder\<close>: \<open>add\<close> and \<open>build\<close> may
  throw. The result comes with the memory and the output list as the call leaves them, also when
  it throws: the freeze of the active table stays, a table is removed and its ids are reported
  only after \<open>build\<close> returned.\<close>

primrec flush_entries ::
  "('b \<Rightarrow> entry \<Rightarrow> 'b result) \<Rightarrow> 'b \<Rightarrow> u64 list \<Rightarrow> entry list \<Rightarrow> ('b \<times> u64 list) result" where
  "flush_entries add b pending [] = Inr (b, pending)"
| "flush_entries add b pending (e # es) =
     (let pending' = (if ekey e = [] \<and> evalue e = [] then pending @ [etid e] else pending)
      in ebind (add b e) (\<lambda>b'. flush_entries add b' pending' es))"

definition freeze_for_flush :: "memtable \<Rightarrow> memtable" where
  "freeze_for_flush m = (if frozen_tables m = [] then freeze_cur_table m else m)"

definition memtable_flush_last ::
  "('b \<Rightarrow> entry \<Rightarrow> 'b result) \<Rightarrow> ('b \<Rightarrow> 'sst result) \<Rightarrow> memtable \<Rightarrow> 'b \<Rightarrow> u64 list \<Rightarrow>
   'sst option result \<times> memtable \<times> u64 list" where
  "memtable_flush_last add build m builder flushed =
     (let m1 = freeze_for_flush m
      in if frozen_tables m1 = [] then (Inr None, m1, flushed)
         else
           let table = last (frozen_tables m1)
           in case ebind (skiplist_flush table) (\<lambda>es.
                   ebind (flush_entries add builder [] es) (\<lambda>(b, pending).
                   ebind (build b) (\<lambda>sst. Inr (sst, pending)))) of
                Inl e \<Rightarrow> (Inl e, m1, flushed)
              | Inr (sst, pending) \<Rightarrow>
                  (Inr (Some sst), m1\<lparr>frozen_tables := butlast (frozen_tables m1),
                     frozen_bytes := frozen_bytes m1 - skiplist_get_size table\<rparr>, flushed @ pending))"

section \<open>Iterators\<close>

definition collect_nodes :: "skiplist \<Rightarrow> u64 \<Rightarrow> abort_check \<Rightarrow> nat \<Rightarrow> nat list \<Rightarrow> search_item list" where
  "collect_nodes t b ab idx as =
     map (\<lambda>a. \<lparr>si_key = node_key (node t a), si_value = node_value (node t a),
               si_tid = node_tid (node t a), si_idx = idx, si_level = 0\<rparr>)
       (filter (\<lambda>a. node_key (node t a) \<noteq> [] \<and> tranc_visible (node_tid (node t a)) b \<and>
                    \<not> aborted_by ab (node_tid (node t a))) as)"

text \<open>The three walks over one table: all of it, a prefix, a predicate.\<close>

definition collect_all :: "skiplist \<Rightarrow> nat list result" where
  "collect_all t = returned (iter_range t (skiplist_begin t) None [])"

definition collect_preffix :: "bytes \<Rightarrow> skiplist \<Rightarrow> nat list result" where
  "collect_preffix p t =
     ebind (skiplist_end_preffix t p) (\<lambda>stop.
     ebind (skiplist_begin_preffix t p) (\<lambda>start. returned (iter_range t start stop [])))"

definition collect_predicate :: "(bytes \<Rightarrow> int) \<Rightarrow> skiplist \<Rightarrow> nat list result" where
  "collect_predicate pred t =
     ebind (skiplist_iters_monotony_predicate t pred) (\<lambda>range.
       case range of None \<Rightarrow> Inr [] | Some (start, stop) \<Rightarrow> returned (iter_range t start stop []))"

text \<open>Newest table first; its index is the number of tables behind it.\<close>

primrec collect_tables ::
  "(skiplist \<Rightarrow> nat list result) \<Rightarrow> u64 \<Rightarrow> abort_check \<Rightarrow> skiplist list \<Rightarrow> search_item list result" where
  "collect_tables nodes_of b ab [] = Inr []"
| "collect_tables nodes_of b ab (t # ts) =
     ebind (nodes_of t) (\<lambda>as.
     ebind (collect_tables nodes_of b ab ts) (\<lambda>rest. Inr (collect_nodes t b ab (length ts) as @ rest)))"

definition memtable_begin :: "memtable \<Rightarrow> u64 \<Rightarrow> bool \<Rightarrow> abort_check \<Rightarrow> heap_iter result" where
  "memtable_begin m b sd ab =
     ebind (collect_tables collect_all b ab (current_table m # frozen_tables m))
       (\<lambda>its. Inr (heap_new its b sd False))"

definition memtable_end :: heap_iter where
  "memtable_end = heap_empty True False"

definition memtable_iters_preffix :: "memtable \<Rightarrow> bytes \<Rightarrow> u64 \<Rightarrow> abort_check \<Rightarrow> heap_iter result" where
  "memtable_iters_preffix m p b ab =
     ebind (collect_tables (collect_preffix p) b ab (current_table m # frozen_tables m))
       (\<lambda>its. Inr (heap_new its b True False))"

definition memtable_iters_monotony_predicate ::
  "memtable \<Rightarrow> u64 \<Rightarrow> (bytes \<Rightarrow> int) \<Rightarrow> abort_check \<Rightarrow> (heap_iter \<times> heap_iter) option result" where
  "memtable_iters_monotony_predicate m b pred ab =
     ebind (collect_tables (collect_predicate pred) b ab (current_table m # frozen_tables m))
       (\<lambda>its. let begin_iter = heap_new its b True False
              in Inr (if heap_is_end begin_iter then None
                      else Some (begin_iter, heap_empty True False)))"

section \<open>Invariant and contents\<close>

definition table_ok :: "skiplist \<Rightarrow> bool" where
  "table_ok t \<longleftrightarrow> (\<exists>es. sl_abs t es)"

definition table_entries :: "skiplist \<Rightarrow> entry list" where
  "table_entries t = (case skiplist_flush t of Inl _ \<Rightarrow> [] | Inr es \<Rightarrow> es)"

lemma table_entries_abs: "sl_abs t es \<Longrightarrow> table_entries t = es"
  by (simp add: table_entries_def skiplist_flush_abs)

lemma table_okD: "table_ok t \<Longrightarrow> sl_abs t (table_entries t)"
  by (auto simp: table_ok_def table_entries_abs)

definition mem_tables :: "memtable \<Rightarrow> skiplist list" where
  "mem_tables m = current_table m # frozen_tables m"

definition mem_ok :: "memtable \<Rightarrow> bool" where
  "mem_ok m \<longleftrightarrow> (\<forall>t \<in> set (mem_tables m). table_ok t) \<and>
     frozen_bytes m = sum_list (map skiplist_get_size (frozen_tables m)) \<and>
     (\<forall>t \<in> set (frozen_tables m). skiplist_get_size t \<noteq> 0)"

text \<open>The records a reader can be shown: the empty key is reserved for commit marks.\<close>

definition user_entries :: "skiplist \<Rightarrow> entry set" where
  "user_entries t = {e \<in> set (table_entries t). ekey e \<noteq> []}"

definition mem_entries :: "memtable \<Rightarrow> entry set" where
  "mem_entries m = (\<Union>t \<in> set (mem_tables m). user_entries t)"

definition table_lookup :: "skiplist \<Rightarrow> bytes \<Rightarrow> u64 \<Rightarrow> abort_check \<Rightarrow> (bytes \<times> u64) option" where
  "table_lookup t k b ab =
     (if k = [] then None
      else map_option snd (find (\<lambda>e. ekey e = k \<and> readable b ab (etid e)) (table_entries t)))"

interpretation table: versioned_source user_entries table_ok table_lookup
proof
  fix s k b ab
  assume "table_ok s"
  then have N: "newest (set (table_entries s)) k b ab
      (map_option snd (find (\<lambda>e. ekey e = k \<and> readable b ab (etid e)) (table_entries s)))"
    by (rule newest_sorted_find [OF sl_abs_sorted [OF table_okD]])
  show "newest (user_entries s) k b ab (table_lookup s k b ab)"
  proof (cases "k = []")
    case True
    then have "candidates (user_entries s) k b ab = {}"
      by (auto simp: candidates_def user_entries_def)
    with True show ?thesis by (simp add: table_lookup_def newest_def)
  next
    case False
    then have "candidates (user_entries s) k b ab = candidates (set (table_entries s)) k b ab"
      by (auto simp: candidates_def user_entries_def)
    from newest_cong [OF this] N show ?thesis unfolding table_lookup_def if_not_P [OF False] by blast
  qed
qed

section \<open>Point lookups return the newest record\<close>

definition iter_record :: "mem_iter \<Rightarrow> (bytes \<times> u64) option" where
  "iter_record it = (if mem_iter_valid it then Some (mem_iter_value it, mem_iter_tid it) else None)"

lemma table_get_lookup:
  assumes "table_ok t"
  shows "\<exists>it. table_get t k b ab = Inr it \<and> iter_record it = table_lookup t k b ab"
proof -
  let ?P = "\<lambda>e. ekey e = k \<and> readable b ab (etid e)"
  obtain r where r: "skiplist_get t k b ab = Inr r"
    "map_option (entry_at t) r = find ?P (table_entries t)"
    using skiplist_get_find [OF table_okD [OF assms]] by blast
  have "iter_record (map_option (\<lambda>a. (t, a)) r) = table_lookup t k b ab"
  proof (cases r)
    case None
    then show ?thesis using r(2) by (auto simp: iter_record_def mem_iter_valid_def table_lookup_def)
  next
    case (Some a)
    then have f: "find ?P (table_entries t) = Some (entry_at t a)" using r(2) by simp
    from findSomeD [OF f] have "node_key (node t a) = k" by (simp add: entry_at_def)
    with f Some show ?thesis
      by (auto simp: iter_record_def mem_iter_valid_def iter_is_valid_def table_lookup_def
          mem_iter_value_def mem_iter_tid_def entry_at_def)
  qed
  with r(1) show ?thesis by (simp add: table_get_def)
qed

lemma better_simps [simp]: "better r None = r" "better None r = r"
  by (cases r; simp add: better_def)+

lemma better_assoc: "better (better a b) c = better a (better b c)"
  by (cases a; cases b; cases c) (auto simp: better_def)

definition lookup_tables :: "skiplist list \<Rightarrow> bytes \<Rightarrow> u64 \<Rightarrow> abort_check \<Rightarrow> (bytes \<times> u64) option" where
  "lookup_tables ts k b ab = fold (\<lambda>t best. better best (table_lookup t k b ab)) ts None"

lemma fold_better: "fold (\<lambda>t best. better best (f t)) ts r = better r (fold (\<lambda>t best. better best (f t)) ts None)"
proof (induction ts arbitrary: r)
  case (Cons t ts)
  show ?case using Cons [of "better r (f t)"] Cons [of "f t"] by (simp add: better_assoc)
qed simp

lemma lookup_tables_simps [simp]:
  "lookup_tables [] k b ab = None"
  "lookup_tables (t # ts) k b ab = better (table_lookup t k b ab) (lookup_tables ts k b ab)"
  using fold_better [of "\<lambda>t. table_lookup t k b ab" ts "table_lookup t k b ab"]
  by (simp_all add: lookup_tables_def)

lemma iter_record_better:
  "iter_record (if mem_iter_valid c \<and> (\<not> mem_iter_valid best \<or> mem_iter_tid best < mem_iter_tid c)
     then c else best) = better (iter_record best) (iter_record c)"
  by (auto simp: iter_record_def better_def)

lemma frozen_get_from_lookup:
  assumes "\<forall>t \<in> set ts. table_ok t"
  shows "\<exists>it. memtable_frozen_get_from best k b ab ts = Inr it \<and>
    iter_record it = better (iter_record best) (lookup_tables ts k b ab)"
  using assms
proof (induction ts arbitrary: best)
  case (Cons t ts)
  obtain c where c: "table_get t k b ab = Inr c" "iter_record c = table_lookup t k b ab"
    using table_get_lookup [of t k b ab] Cons.prems by auto
  let ?n = "if mem_iter_valid c \<and> (\<not> mem_iter_valid best \<or> mem_iter_tid best < mem_iter_tid c)
    then c else best"
  have "memtable_frozen_get_from best k b ab (t # ts) = memtable_frozen_get_from ?n k b ab ts"
    by (simp add: c(1))
  moreover obtain it where "memtable_frozen_get_from ?n k b ab ts = Inr it"
    "iter_record it = better (iter_record ?n) (lookup_tables ts k b ab)"
    using Cons.IH [of ?n] Cons.prems by auto
  ultimately show ?case unfolding iter_record_better c(2) better_assoc by simp
qed simp

definition mem_lookup :: "memtable \<Rightarrow> bytes \<Rightarrow> u64 \<Rightarrow> abort_check \<Rightarrow> (bytes \<times> u64) option" where
  "mem_lookup m k b ab = lookup_tables (mem_tables m) k b ab"

lemma memtable_get_lookup:
  assumes "mem_ok m"
  shows "\<exists>it. memtable_get_unlocked m k b ab = Inr it \<and> iter_record it = mem_lookup m k b ab"
proof -
  obtain c where c: "memtable_cur_get m k b ab = Inr c"
    "iter_record c = table_lookup (current_table m) k b ab"
    using table_get_lookup assms unfolding memtable_cur_get_def mem_ok_def mem_tables_def by fastforce
  obtain f where f: "memtable_frozen_get m k b ab = Inr f"
    "iter_record f = lookup_tables (frozen_tables m) k b ab"
    using frozen_get_from_lookup [where ts = "frozen_tables m" and best = None and k = k and b = b and ab = ab] assms
    unfolding memtable_frozen_get_def mem_ok_def mem_tables_def
    by (auto simp: iter_record_def mem_iter_valid_def)
  have "iter_record (if mem_iter_valid f \<and> (\<not> mem_iter_valid c \<or> mem_iter_tid c < mem_iter_tid f)
      then f else c) = mem_lookup m k b ab"
    unfolding iter_record_better c(2) f(2) by (simp add: mem_lookup_def mem_tables_def)
  then show ?thesis unfolding memtable_get_unlocked_def c(1) f(1) ebind_simps by blast
qed

lemma memtable_get_record_lookup:
  "mem_ok m \<Longrightarrow> memtable_get_record m k b ab = Inr (mem_lookup m k b ab)"
  using memtable_get_lookup [of m k b ab] by (auto simp: memtable_get_record_def iter_record_def)

lemma memtable_get_batch_lookup:
  "mem_ok m \<Longrightarrow> memtable_get_batch m ks b ab = Inr (map (\<lambda>k. (k, mem_lookup m k b ab)) ks)"
proof (induction ks)
  case (Cons k ks)
  then show ?case
    using memtable_get_lookup [of m k b ab] by (auto simp: iter_record_def Let_def)
qed simp

lemma memtable_get_valid:
  assumes "mem_ok m"
  shows "\<exists>it. memtable_get m k b ab = Inr it \<and> iter_record it = mem_lookup m k b ab \<and>
    (it = None \<longleftrightarrow> mem_lookup m k b ab = None)"
proof -
  obtain it where it: "memtable_get_unlocked m k b ab = Inr it" "iter_record it = mem_lookup m k b ab"
    using memtable_get_lookup [OF assms] by blast
  show ?thesis
  proof (cases "mem_iter_valid it")
    case True
    then have "it \<noteq> None" by (cases it) (simp_all add: mem_iter_valid_def)
    moreover have "mem_lookup m k b ab \<noteq> None"
      unfolding it(2) [symmetric] using True by (simp add: iter_record_def)
    ultimately show ?thesis using it True by (auto simp: memtable_get_def)
  next
    case False
    then have "mem_lookup m k b ab = None"
      unfolding it(2) [symmetric] by (simp add: iter_record_def)
    with it(1) False show ?thesis
      by (simp add: memtable_get_def) (auto simp: iter_record_def mem_iter_valid_def split: option.splits)
  qed
qed

interpretation mem: versioned_source mem_entries mem_ok mem_lookup
proof
  fix m k b ab
  assume "mem_ok m"
  then show "newest (mem_entries m) k b ab (mem_lookup m k b ab)"
    using table.fold_sources_newest [of "mem_tables m" "{}" k b ab None]
    by (simp add: mem_ok_def mem_entries_def mem_lookup_def lookup_tables_def)
qed

section \<open>Writes\<close>

lemma table_new_ok [simp]: "sl_abs table_new []"
  by (simp add: table_new_def skiplist_new_abs)

lemma table_new_facts [simp]: "table_ok table_new" "table_entries table_new = []"
    "table_lookup table_new k b ab = None" "user_entries table_new = {}"
proof -
  show "table_ok table_new" unfolding table_ok_def using table_new_ok by blast
  show e: "table_entries table_new = []" by (rule table_entries_abs [OF table_new_ok])
  show "table_lookup table_new k b ab = None" "user_entries table_new = {}"
    by (simp_all add: table_lookup_def user_entries_def e)
qed

lemma freeze_facts:
  "mem_ok m \<Longrightarrow> mem_ok (freeze_cur_table m)"
  "mem_lookup (freeze_cur_table m) k b ab = mem_lookup m k b ab"
  "mem_entries (freeze_cur_table m) = mem_entries m"
  by (auto simp: freeze_cur_table_def Let_def mem_ok_def mem_tables_def mem_lookup_def mem_entries_def)

lemma freeze_if_full_facts:
  "mem_ok m \<Longrightarrow> mem_ok (freeze_if_full limit m)"
  "mem_lookup (freeze_if_full limit m) k b ab = mem_lookup m k b ab"
  "mem_entries (freeze_if_full limit m) = mem_entries m"
  by (simp_all add: freeze_if_full_def freeze_facts)

text \<open>A put writes one record into the active table.\<close>

definition mem_written :: "memtable \<Rightarrow> memtable \<Rightarrow> entry \<Rightarrow> bool" where
  "mem_written m m' e \<longleftrightarrow> mem_ok m' \<and> frozen_tables m' = frozen_tables m \<and>
     table_entries (current_table m') = upsert e (table_entries (current_table m))"

lemma memtable_put_unlocked_written:
  assumes "mem_ok m"
  shows "\<exists>m'. memtable_put_unlocked m k v t coin = Inr m' \<and> mem_written m m' (k, v, t)"
proof -
  have "table_ok (current_table m)" using assms by (simp add: mem_ok_def mem_tables_def)
  then obtain c where "skiplist_put (current_table m) k v t coin = Inr c"
    "sl_abs c (upsert (k, v, t) (table_entries (current_table m)))"
    using skiplist_put_upsert [OF table_okD] by blast
  with assms show ?thesis
    by (auto simp: memtable_put_unlocked_def mem_written_def mem_ok_def mem_tables_def
        table_ok_def table_entries_abs)
qed

lemma memtable_remove_is_put: "memtable_remove_unlocked m k t coin = memtable_put_unlocked m k [] t coin"
  by (simp add: memtable_remove_unlocked_def memtable_put_unlocked_def)

lemma memtable_remove_put: "memtable_remove limit m k t coin = memtable_put limit m k [] t coin"
  by (simp add: memtable_remove_def memtable_put_def memtable_remove_is_put)

definition same_version :: "entry \<Rightarrow> entry \<Rightarrow> bool" where
  "same_version e x \<longleftrightarrow> ekey x = ekey e \<and> etid x = etid e"

lemma entry_less_not_same: "entry_less e x \<Longrightarrow> \<not> same_version e x" "entry_less x e \<Longrightarrow> \<not> same_version e x"
  by (auto simp: same_version_def entry_less_def version_less_def)

lemma entry_less_same: "same_version e x \<Longrightarrow> entry_less e y = entry_less x y"
  by (simp add: same_version_def entry_less_def)

lemma upsert_Cons:
  "upsert e (x # xs) = (if same_version e x then e # xs else if entry_less e x then e # x # xs else x # upsert e xs)"
  by (simp add: same_version_def)

lemma upsert_set: "sorted_entries es \<Longrightarrow> set (upsert e es) = insert e {x \<in> set es. \<not> same_version e x}"
proof (induction es)
  case (Cons x es)
  note S = Cons.prems [unfolded sorted_wrt.simps]
  show ?case
  proof (cases "same_version e x")
    case True
    then have "\<not> same_version e y" if "y \<in> set es" for y
      using S that by (intro entry_less_not_same(1)) (simp add: entry_less_same)
    with True have "{y \<in> set (x # es). \<not> same_version e y} = set es" by (simp only: list.set) blast
    with True show ?thesis by (simp only: upsert_Cons if_True list.set)
  next
    case ns: False
    show ?thesis
    proof (cases "entry_less e x")
      case True
      have "\<not> same_version e y" if "y \<in> set (x # es)" for y
        using S that True by (intro entry_less_not_same(1)) (auto intro: entry_less_trans)
      then have "{y \<in> set (x # es). \<not> same_version e y} = set (x # es)" by blast
      with ns True show ?thesis by (simp only: upsert_Cons if_True if_False list.set)
    next
      case False
      have "{y \<in> set (x # es). \<not> same_version e y} = insert x {y \<in> set es. \<not> same_version e y}"
        using ns by (simp only: list.set) blast
      moreover have "set (upsert e es) = insert e {y \<in> set es. \<not> same_version e y}"
        using Cons.IH S by blast
      ultimately show ?thesis
        using False ns by (simp only: upsert_Cons if_False list.set) blast
    qed
  qed
qed simp

lemma find_upsert_other:
  "ekey e \<noteq> k \<Longrightarrow> find (\<lambda>x. ekey x = k \<and> P x) (upsert e es) = find (\<lambda>x. ekey x = k \<and> P x) es"
  by (induction es) auto

lemma mem_written_other:
  assumes "mem_written m m' (k, v, t)" "k' \<noteq> k"
  shows "mem_lookup m' k' b ab = mem_lookup m k' b ab"
proof -
  have "table_lookup (current_table m') k' b ab = table_lookup (current_table m) k' b ab"
    using assms find_upsert_other [of "(k, v, t)" k' "\<lambda>e. readable b ab (etid e)"]
    by (auto simp: table_lookup_def mem_written_def)
  with assms(1) show ?thesis by (simp add: mem_lookup_def mem_tables_def mem_written_def)
qed

lemma mem_written_entries:
  assumes "mem_ok m" "mem_written m m' (k, v, t)" "k \<noteq> []"
    and "\<And>v' t'. (k, v', t') \<in> mem_entries m \<Longrightarrow> t' < t"
  shows "mem_entries m' = insert (k, v, t) (mem_entries m)"
proof -
  have ok: "table_ok (current_table m)" using assms(1) by (simp add: mem_ok_def mem_tables_def)
  have "user_entries (current_table m') = insert (k, v, t) (user_entries (current_table m))"
  proof -
    have "\<not> (ekey x = k \<and> etid x = t)" if "x \<in> set (table_entries (current_table m))" for x
      using that assms(4) [of "evalue x" "etid x"] assms(3)
      by (cases x) (auto simp: mem_entries_def mem_tables_def user_entries_def)
    then show ?thesis
      using assms(2,3) upsert_set [OF sl_abs_sorted [OF table_okD [OF ok]], of "(k, v, t)"]
      by (auto simp: mem_written_def user_entries_def same_version_def)
  qed
  then show ?thesis using assms(2) by (simp add: mem_entries_def mem_tables_def mem_written_def)
qed

lemma newest_insert:
  assumes "newest (insert (k, v, t) E) k b ab r" "readable b ab t"
    and "\<And>v' t'. (k, v', t') \<in> E \<Longrightarrow> t' < t"
  shows "r = Some (v, t)"
proof -
  have c: "(k, v, t) \<in> candidates (insert (k, v, t) E) k b ab"
    using assms(2) by (simp add: candidates_def)
  then obtain v' t' where r: "r = Some (v', t')"
    using assms(1) by (cases r) (auto simp: newest_def)
  with assms(1) c have "t \<le> t'" "(k, v', t') \<in> insert (k, v, t) E"
    by (auto simp: newest_def candidates_def)
  with assms(3) [of v' t'] r show ?thesis by auto
qed

lemma memtable_new_ok: "mem_ok memtable_new"
  using skiplist_new_abs [of 16]
  by (auto simp: mem_ok_def memtable_new_def mem_tables_def table_ok_def table_new_def)

text \<open>A table set with one record, for the examples.\<close>

lemma memtable_one_put:
  "\<exists>m t. memtable_put 0 memtable_new [1] [2] 3 (\<lambda>_. False) = Inr m \<and> mem_ok m \<and>
     (\<forall>k b ab. mem_lookup m k b ab = (if k = [1] \<and> readable b ab 3 then Some ([2], 3) else None)) \<and>
     frozen_tables m = [t] \<and> table_entries t = [([1], [2], 3)] \<and> table_entries (current_table m) = []"
proof -
  have new: "current_table memtable_new = table_new"
      "frozen_tables memtable_new = []" and T: "table_entries table_new = []"
    using table_entries_abs [OF skiplist_new_abs [of 16]]
    by (auto simp: memtable_new_def table_new_def)
  obtain m1 where m1: "memtable_put_unlocked memtable_new [1] [2] 3 (\<lambda>_. False) = Inr m1"
    "mem_written memtable_new m1 ([1], [2], 3)"
    using memtable_put_unlocked_written [OF memtable_new_ok] by blast
  have c: "table_entries (current_table m1) = [([1], [2], 3)]" "frozen_tables m1 = []" "mem_ok m1"
    using m1(2) by (simp_all add: mem_written_def new T)
  have "table_ok (current_table m1)" using c(3) by (simp add: mem_ok_def mem_tables_def)
  from sl_abs_size [OF table_okD [OF this]] have "skiplist_get_size (current_table m1) \<noteq> 0"
    by (simp add: c(1) total_size_def entry_size_def)
  then have f: "frozen_tables (freeze_if_full 0 m1) = [current_table m1]" "table_entries (current_table (freeze_if_full 0 m1)) = []"
    by (simp_all add: freeze_if_full_def freeze_cur_table_def Let_def c(2) T)
  have "mem_lookup m1 k b ab = (if k = [1] \<and> readable b ab 3 then Some ([2], 3) else None)" for k b ab
    using c by (auto simp: mem_lookup_def mem_tables_def table_lookup_def)
  with m1 c f show ?thesis
    by (auto simp: memtable_put_def freeze_if_full_facts)
qed

text \<open>The batch lookup answers every key of the list, in order, with exactly the record that
  a single lookup of the key returns.\<close>

lemma memtable_get_batch_agrees:
  assumes "mem_ok m"
  shows "\<exists>rs. memtable_get_batch m ks b ab = Inr rs \<and> map fst rs = ks \<and>
    (\<forall>(k, r) \<in> set rs. memtable_get_record m k b ab = Inr r)"
  using assms by (simp add: memtable_get_batch_lookup memtable_get_record_lookup comp_def)

text \<open>C23: a put of a version newer than all versions of its key succeeds; every reader whose bound
  and abort check admit the version then reads the written value, and lookups of all other keys
  return what they returned before, although the put may have frozen the active table.\<close>

theorem memtable_put_get:
  assumes "mem_ok m" "k \<noteq> []" "\<And>v' t'. (k, v', t') \<in> mem_entries m \<Longrightarrow> t' < t"
  shows "\<exists>m'. memtable_put limit m k v t coin = Inr m' \<and> mem_ok m' \<and>
    (\<forall>b ab. readable b ab t \<longrightarrow> memtable_get_record m' k b ab = Inr (Some (v, t))) \<and>
    (\<forall>k' b ab. k' \<noteq> k \<longrightarrow> memtable_get_record m' k' b ab = memtable_get_record m k' b ab)"
proof -
  obtain m1 where m1: "memtable_put_unlocked m k v t coin = Inr m1" "mem_written m m1 (k, v, t)"
    using memtable_put_unlocked_written [OF assms(1)] by blast
  let ?m = "freeze_if_full limit m1"
  have ok1: "mem_ok m1" using m1(2) by (simp add: mem_written_def)
  then have ok: "mem_ok ?m" by (rule freeze_if_full_facts)
  have E: "mem_entries m1 = insert (k, v, t) (mem_entries m)"
    by (rule mem_written_entries [OF assms(1) m1(2) assms(2,3)])
  have "mem_lookup m1 k b ab = Some (v, t)" if "readable b ab t" for b ab
    using mem.lookup_newest [OF ok1, of k b ab] assms(3) that unfolding E by (intro newest_insert)
  moreover have "mem_lookup m1 k' b ab = mem_lookup m k' b ab" if "k' \<noteq> k" for k' b ab
    by (rule mem_written_other [OF m1(2) that])
  ultimately show ?thesis
    using m1(1) ok assms(1)
    by (simp add: memtable_put_def memtable_get_record_lookup freeze_if_full_facts)
qed

theorem memtable_put_get_witness:
  "\<exists>m. memtable_put 5 memtable_new [1] [2] 3 (\<lambda>_. False) = Inr m \<and>
    memtable_get_record m [1] 7 (Some (\<lambda>t. t = 2)) = Inr (Some ([2], 3))"
proof -
  have "mem_entries memtable_new = {}"
    using table_entries_abs [OF skiplist_new_abs [of 16]]
    by (auto simp: mem_entries_def memtable_new_def mem_tables_def user_entries_def table_new_def)
  then show ?thesis
    using memtable_put_get [OF memtable_new_ok, of "[1]" 3 5 "[2]" "\<lambda>_. False"]
    by (auto simp: readable_def)
qed

end
