(* ===== verification/MemTable_History.thy ===== *)
theory MemTable_History
  imports MemTable
begin

text \<open>
  Histories of the memtable: any sequence of writes from the empty table set, with automatic
  freezing, refines one map from (key, version) to value. The specification knows nothing of
  skip lists, of the active and the frozen tables, or of the size limit.
\<close>

section \<open>The version map of a table set\<close>

type_synonym versions = "bytes \<times> u64 \<Rightarrow> bytes option"

definition graph_of :: "versions \<Rightarrow> entry set" where
  "graph_of w = {(k, v, t) | k v t. w (k, t) = Some v}"

definition table_map :: "skiplist \<Rightarrow> versions" where
  "table_map s = (\<lambda>(k, t). map_option evalue (find (\<lambda>e. ekey e = k \<and> etid e = t) (table_entries s)))"

primrec tables_map :: "skiplist list \<Rightarrow> versions" where
  "tables_map [] = Map.empty"
| "tables_map (s # ss) = tables_map ss ++ table_map s"

lemma graph_of_iff [simp]: "(k, v, t) \<in> graph_of w \<longleftrightarrow> w (k, t) = Some v"
  by (simp add: graph_of_def)

lemma find_version:
  assumes "sorted_entries es" "(k, v, t) \<in> set es"
  shows "find (\<lambda>e. ekey e = k \<and> etid e = t) es = Some (k, v, t)"
proof (cases "find (\<lambda>e. ekey e = k \<and> etid e = t) es")
  case None
  with assms(2) show ?thesis by (auto simp: find_None_iff)
next
  case (Some e)
  then have "e \<in> set es" "ekey e = k" "etid e = t"
    by (auto simp: find_Some_iff)
  then have "e = (k, v, t)"
    using sorted_entries_version_unique [OF assms(1) _ assms(2)] by simp
  with Some show ?thesis by simp
qed

lemma table_map_iff:
  assumes "table_ok s"
  shows "table_map s (k, t) = Some v \<longleftrightarrow> (k, v, t) \<in> set (table_entries s)"
proof
  assume "table_map s (k, t) = Some v"
  then obtain e where e: "find (\<lambda>e. ekey e = k \<and> etid e = t) (table_entries s) = Some e" "evalue e = v"
    unfolding table_map_def by auto
  have "e \<in> set (table_entries s)" "ekey e = k \<and> etid e = t"
    using findSomeD [OF e(1)] by simp_all
  moreover have "e = (k, v, t)" using calculation(2) e(2) by (simp add: prod_eq_iff)
  ultimately show "(k, v, t) \<in> set (table_entries s)" by simp
next
  assume "(k, v, t) \<in> set (table_entries s)"
  from find_version [OF sl_abs_sorted [OF table_okD [OF assms]] this]
  show "table_map s (k, t) = Some v" by (simp add: table_map_def)
qed

lemma candidates_table_map:
  assumes "table_ok s" "k \<noteq> []"
  shows "candidates (graph_of (table_map s)) k b ab = candidates (user_entries s) k b ab"
  using assms(2) by (auto simp: candidates_def user_entries_def table_map_iff [OF assms(1)])

lemma newest_graph_None:
  "newest (graph_of w) k b ab None \<longleftrightarrow> (\<forall>t. readable b ab t \<longrightarrow> w (k, t) = None)"
proof -
  have "candidates (graph_of w) k b ab = {} \<longleftrightarrow> (\<forall>v t. readable b ab t \<longrightarrow> w (k, t) \<noteq> Some v)"
    by (auto simp: candidates_def)
  then show ?thesis by (simp add: newest_def) (metis not_Some_eq)
qed

lemma newest_graph_Some:
  "newest (graph_of w) k b ab (Some (v, t)) \<longleftrightarrow>
     w (k, t) = Some v \<and> readable b ab t \<and> (\<forall>t'. readable b ab t' \<longrightarrow> t < t' \<longrightarrow> w (k, t') = None)"
proof -
  have "(\<forall>e \<in> candidates (graph_of w) k b ab. etid e \<le> t) \<longleftrightarrow>
      (\<forall>t' v'. w (k, t') = Some v' \<longrightarrow> readable b ab t' \<longrightarrow> \<not> t < t')"
    unfolding candidates_def graph_of_def not_less by auto
  also have "\<dots> \<longleftrightarrow> (\<forall>t'. readable b ab t' \<longrightarrow> t < t' \<longrightarrow> w (k, t') = None)"
    by (metis not_Some_eq)
  finally show ?thesis by (simp add: newest_def) (simp add: candidates_def)
qed

lemmas newest_graph = newest_graph_None newest_graph_Some

lemma newest_map_add:
  assumes "newest (graph_of f) k b ab r" "newest (graph_of g) k b ab s"
  shows "newest (graph_of (g ++ f)) k b ab (better r s)"
proof (cases r)
  case r: None
  show ?thesis
  proof (cases s)
    case None
    with r assms show ?thesis by (simp add: newest_graph)
  next
    case (Some y)
    with r assms show ?thesis by (cases y) (simp add: newest_graph map_add_def)
  qed
next
  case r: (Some x)
  obtain v t where x: "x = (v, t)" by fastforce
  have F: "f (k, t) = Some v" "readable b ab t" "\<And>t'. readable b ab t' \<Longrightarrow> t < t' \<Longrightarrow> f (k, t') = None"
    using assms(1) by (simp_all add: r x newest_graph)
  show ?thesis
  proof (cases s)
    case None
    with r x assms show ?thesis by (simp add: newest_graph map_add_def)
  next
    case s: (Some y)
    obtain v' t' where y: "y = (v', t')" by fastforce
    have G: "g (k, t') = Some v'" "readable b ab t'"
      "\<And>u. readable b ab u \<Longrightarrow> t' < u \<Longrightarrow> g (k, u) = None"
      using assms(2) by (simp_all add: s y newest_graph)
    show ?thesis
    proof (cases "t < t'")
      case True
      then have B: "better r s = Some (v', t')" by (simp add: better_def r s x y)
      have "f (k, u) = None" if "readable b ab u" "t' \<le> u" for u
        using F(3) that True by (meson order.strict_trans2)
      with True G show ?thesis unfolding B newest_graph by (simp add: map_add_def)
    next
      case False
      then have B: "better r s = Some (v, t)" by (simp add: better_def r s x y)
      have "g (k, u) = None" if "readable b ab u" "t < u" for u
        using G(3) that False by (meson order.strict_trans1 not_less)
      with F show ?thesis unfolding B newest_graph by (simp add: map_add_def)
    qed
  qed
qed

lemma lookup_tables_map:
  assumes "\<forall>s \<in> set ss. table_ok s" "k \<noteq> []"
  shows "newest (graph_of (tables_map ss)) k b ab (lookup_tables ss k b ab)"
  using assms(1)
proof (induction ss)
  case Nil
  then show ?case by (simp add: newest_def candidates_def graph_of_def)
next
  case (Cons s ss)
  have "newest (graph_of (table_map s)) k b ab (table_lookup s k b ab)"
    using table.lookup_newest [of s k b ab] Cons.prems
      newest_cong [OF candidates_table_map [of s k b ab]] assms(2) by auto
  moreover have "newest (graph_of (tables_map ss)) k b ab (lookup_tables ss k b ab)"
    using Cons by simp
  ultimately show ?case unfolding tables_map.simps lookup_tables_simps by (rule newest_map_add)
qed

section \<open>Writes\<close>

definition mem_map :: "memtable \<Rightarrow> versions" where
  "mem_map m = tables_map (mem_tables m)"

lemma table_map_upsert:
  assumes "table_ok s" "table_ok s'" "table_entries s' = upsert (k, v, t) (table_entries s)"
  shows "table_map s' = (table_map s)((k, t) \<mapsto> v)"
proof
  fix x :: "bytes \<times> u64"
  obtain k' t' where x: "x = (k', t')" by fastforce
  note U = upsert_set [OF sl_abs_sorted [OF table_okD [OF assms(1)]], of "(k, v, t)"]
  have "table_map s' (k', t') = Some v' \<longleftrightarrow> ((table_map s)((k, t) \<mapsto> v)) (k', t') = Some v'" for v'
    unfolding table_map_iff [OF assms(2)] assms(3) U
    using table_map_iff [OF assms(1), of k' t' v'] by (auto simp: same_version_def)
  then show "table_map s' x = ((table_map s)((k, t) \<mapsto> v)) x"
    unfolding x by (metis not_Some_eq)
qed

lemma mem_map_written:
  assumes "mem_ok m" "mem_written m m' (k, v, t)"
  shows "mem_map m' = (mem_map m)((k, t) \<mapsto> v)"
proof -
  have "table_map (current_table m') = (table_map (current_table m))((k, t) \<mapsto> v)"
    using assms by (intro table_map_upsert) (auto simp: mem_written_def mem_ok_def mem_tables_def)
  with assms(2) show ?thesis by (simp add: mem_map_def mem_tables_def mem_written_def)
qed

lemma table_new_map: "table_map table_new = Map.empty"
  using table_entries_abs [OF skiplist_new_abs [of 16]]
  by (auto simp: table_new_def table_map_def)

lemma freeze_map: "mem_map (freeze_cur_table m) = mem_map m" "mem_map (freeze_if_full limit m) = mem_map m"
  by (simp_all add: freeze_if_full_def freeze_cur_table_def Let_def mem_map_def mem_tables_def table_new_map)

lemma memtable_new_map: "mem_map memtable_new = Map.empty"
  by (simp add: mem_map_def memtable_new_def mem_tables_def table_new_map)

lemma put_all_map:
  "mem_ok m \<Longrightarrow> \<exists>m'. memtable_put_all m kvs t coins = Inr m' \<and> mem_ok m' \<and>
     mem_map m' = fold (\<lambda>kv w. w((fst kv, t) \<mapsto> snd kv)) kvs (mem_map m)"
proof (induction kvs arbitrary: m)
  case (Cons kv kvs)
  obtain m1 where m1: "memtable_put_unlocked m (fst kv) (snd kv) t (coins (length kvs)) = Inr m1"
    "mem_written m m1 (fst kv, snd kv, t)"
    using memtable_put_unlocked_written [OF Cons.prems] by blast
  then have "mem_ok m1" by (simp add: mem_written_def)
  from Cons.IH [OF this] show ?case
    by (simp add: m1(1) mem_map_written [OF Cons.prems m1(2)])
qed simp

lemma remove_all_put_all:
  "memtable_remove_all m ks t coins = memtable_put_all m (map (\<lambda>k. (k, [])) ks) t coins"
  by (induction ks arbitrary: m) (simp_all add: memtable_remove_is_put)

section \<open>Histories\<close>

datatype mem_op =
    M_Put bytes bytes u64 "nat \<Rightarrow> bool"
  | M_Put_Batch "(bytes \<times> bytes) list" u64 "nat \<Rightarrow> nat \<Rightarrow> bool"
  | M_Remove bytes u64 "nat \<Rightarrow> bool"
  | M_Remove_Batch "bytes list" u64 "nat \<Rightarrow> nat \<Rightarrow> bool"
  | M_Freeze
  | M_Clear

primrec mem_step :: "u64 \<Rightarrow> memtable \<Rightarrow> mem_op \<Rightarrow> memtable result" where
  "mem_step limit m (M_Put k v t coin) = memtable_put limit m k v t coin"
| "mem_step limit m (M_Put_Batch kvs t coins) = memtable_put_batch limit m kvs t coins"
| "mem_step limit m (M_Remove k t coin) = memtable_remove limit m k t coin"
| "mem_step limit m (M_Remove_Batch ks t coins) = memtable_remove_batch limit m ks t coins"
| "mem_step limit m M_Freeze = Inr (freeze_cur_table m)"
| "mem_step limit m M_Clear = Inr (memtable_clear m)"

primrec mem_run :: "u64 \<Rightarrow> mem_op list \<Rightarrow> memtable \<Rightarrow> memtable result" where
  "mem_run limit [] m = Inr m"
| "mem_run limit (c # cs) m = ebind (mem_step limit m c) (mem_run limit cs)"

primrec write_step :: "versions \<Rightarrow> mem_op \<Rightarrow> versions" where
  "write_step w (M_Put k v t coin) = w((k, t) \<mapsto> v)"
| "write_step w (M_Put_Batch kvs t coins) = fold (\<lambda>kv w. w((fst kv, t) \<mapsto> snd kv)) kvs w"
| "write_step w (M_Remove k t coin) = w((k, t) \<mapsto> [])"
| "write_step w (M_Remove_Batch ks t coins) = fold (\<lambda>k w. w((k, t) \<mapsto> [])) ks w"
| "write_step w M_Freeze = w"
| "write_step w M_Clear = Map.empty"

primrec writes :: "mem_op list \<Rightarrow> versions \<Rightarrow> versions" where
  "writes [] w = w"
| "writes (c # cs) w = writes cs (write_step w c)"

lemma memtable_put_step:
  assumes "mem_ok m"
  shows "\<exists>m'. memtable_put limit m k v t coin = Inr m' \<and> mem_ok m' \<and> mem_map m' = (mem_map m)((k, t) \<mapsto> v)"
proof -
  obtain m1 where "memtable_put_unlocked m k v t coin = Inr m1" "mem_written m m1 (k, v, t)"
    using memtable_put_unlocked_written [OF assms] by blast
  with mem_map_written [OF assms] show ?thesis
    by (auto simp: memtable_put_def freeze_map mem_written_def freeze_if_full_facts)
qed

lemma memtable_put_batch_step:
  assumes "mem_ok m"
  shows "\<exists>m'. memtable_put_batch limit m kvs t coins = Inr m' \<and> mem_ok m' \<and>
    mem_map m' = fold (\<lambda>kv w. w((fst kv, t) \<mapsto> snd kv)) kvs (mem_map m)"
  using put_all_map [OF assms, of kvs t coins]
  by (auto simp: memtable_put_batch_def freeze_map freeze_if_full_facts)

lemma memtable_remove_batch_put:
  "memtable_remove_batch limit m ks t coins = memtable_put_batch limit m (map (\<lambda>k. (k, [])) ks) t coins"
  by (simp add: memtable_remove_batch_def memtable_put_batch_def remove_all_put_all)

lemma memtable_clear_step: "mem_ok m \<Longrightarrow> mem_ok (memtable_clear m) \<and> mem_map (memtable_clear m) = Map.empty"
proof -
  assume "mem_ok m"
  then have "sl_abs (skiplist_clear (current_table m)) []"
    by (auto simp: mem_ok_def mem_tables_def table_ok_def intro: skiplist_clear_abs)
  then show ?thesis
    by (auto simp: memtable_clear_def mem_ok_def mem_tables_def table_ok_def mem_map_def table_map_def
        table_entries_abs)
qed

lemma mem_step_refines:
  assumes "mem_ok m"
  shows "\<exists>m'. mem_step limit m c = Inr m' \<and> mem_ok m' \<and> mem_map m' = write_step (mem_map m) c"
proof (cases c)
  case (M_Remove_Batch ks t coins)
  then show ?thesis
    using memtable_put_batch_step [OF assms, of limit "map (\<lambda>k. (k, [])) ks" t coins]
    by (simp add: memtable_remove_batch_put fold_map comp_def)
qed (use assms in \<open>simp_all add: memtable_put_step memtable_put_batch_step memtable_remove_put
       memtable_clear_step freeze_map freeze_facts\<close>)

lemma mem_run_refines:
  "mem_ok m \<Longrightarrow> \<exists>m'. mem_run limit cs m = Inr m' \<and> mem_ok m' \<and> mem_map m' = writes cs (mem_map m)"
proof (induction cs arbitrary: m)
  case (Cons c cs)
  obtain m1 where "mem_step limit m c = Inr m1" "mem_ok m1" "mem_map m1 = write_step (mem_map m) c"
    using mem_step_refines [OF Cons.prems] by blast
  with Cons.IH show ?case by fastforce
qed simp

text \<open>C8: after any history of writes on the empty memtable, whatever the freezing limit, every
  call has succeeded, and a lookup of a user key returns the newest readable record of the map
  (key, version) to last written value: the newest version within the bound that is not skipped,
  with the value of the last write to that version. Freezing is not visible.\<close>

theorem memtable_history:
  "\<exists>m. mem_run limit cs memtable_new = Inr m \<and>
    (\<forall>k b ab. k \<noteq> [] \<longrightarrow> (\<exists>r. memtable_get_record m k b ab = Inr r \<and>
       newest (graph_of (writes cs Map.empty)) k b ab r))"
proof -
  obtain m where m: "mem_run limit cs memtable_new = Inr m" "mem_ok m" "mem_map m = writes cs Map.empty"
    using mem_run_refines [OF memtable_new_ok] by (auto simp: memtable_new_map)
  have "newest (graph_of (writes cs Map.empty)) k b ab (mem_lookup m k b ab)" if "k \<noteq> []" for k b ab
    using lookup_tables_map [of "mem_tables m" k b ab] m that
    by (simp add: mem_map_def mem_lookup_def mem_ok_def)
  with m show ?thesis by (auto simp: memtable_get_record_lookup)
qed

text \<open>One version, written twice with a freeze in between: the second value is read.\<close>

theorem memtable_history_witness:
  "\<exists>m. mem_run 0 [M_Put [1] [2] 3 (\<lambda>_. True), M_Put [1] [4] 3 (\<lambda>_. False)] memtable_new = Inr m \<and>
    memtable_get_record m [1] 0 None = Inr (Some ([4], 3))"
proof -
  let ?cs = "[M_Put [1] [2] 3 (\<lambda>_. True), M_Put [1] [4] 3 (\<lambda>_. False)]"
  obtain m where m: "mem_run 0 ?cs memtable_new = Inr m"
    "\<forall>k b ab. k \<noteq> [] \<longrightarrow> (\<exists>r. memtable_get_record m k b ab = Inr r \<and>
       newest (graph_of (writes ?cs Map.empty)) k b ab r)"
    using memtable_history by blast
  then obtain r where r: "memtable_get_record m [1] 0 None = Inr r"
    "newest (graph_of (writes ?cs Map.empty)) [1] 0 None r" by blast
  have "r = Some ([4], 3)"
    using r(2) by (auto simp: newest_def candidates_def graph_of_def split: option.splits if_splits)
  with m r show ?thesis by blast
qed

end
