(* ===== verification/MemTable_Scan.thy ===== *)
theory MemTable_Scan
  imports MemTable
begin

text \<open>
  What the iterators of the MemTable show, and what a flush hands to the SST builder. A scan
  shows for every key in its range exactly the record a point lookup with the same bound and
  the same callback returns, deletion marks hidden when asked for.
\<close>

section \<open>Collected items\<close>

definition item_of :: "nat \<Rightarrow> entry \<Rightarrow> search_item" where
  "item_of idx e = \<lparr>si_key = ekey e, si_value = evalue e, si_tid = etid e, si_idx = idx, si_level = 0\<rparr>"

lemma item_of_simps [simp]: "si_key (item_of i e) = ekey e" "si_value (item_of i e) = evalue e"
  "si_tid (item_of i e) = etid e" "si_idx (item_of i e) = i"
  by (simp_all add: item_of_def)

definition shown_entries :: "(bytes \<Rightarrow> bool) \<Rightarrow> u64 \<Rightarrow> abort_check \<Rightarrow> skiplist \<Rightarrow> entry list" where
  "shown_entries K b ab t =
     filter (\<lambda>e. K (ekey e) \<and> ekey e \<noteq> [] \<and> readable b ab (etid e)) (table_entries t)"

primrec shown_items :: "(bytes \<Rightarrow> bool) \<Rightarrow> u64 \<Rightarrow> abort_check \<Rightarrow> skiplist list \<Rightarrow> search_item list" where
  "shown_items K b ab [] = []"
| "shown_items K b ab (t # ts) = map (item_of (length ts)) (shown_entries K b ab t) @ shown_items K b ab ts"

lemma collect_nodes_shown:
  assumes "map (entry_at t) as = filter (\<lambda>e. K (ekey e)) (table_entries t)"
  shows "collect_nodes t b ab idx as = map (item_of idx) (shown_entries K b ab t)"
proof -
  have "shown_entries K b ab t =
      filter (\<lambda>e. ekey e \<noteq> [] \<and> readable b ab (etid e)) (filter (\<lambda>e. K (ekey e)) (table_entries t))"
    unfolding shown_entries_def filter_filter by (rule filter_cong) auto
  also have "\<dots> = filter (\<lambda>e. ekey e \<noteq> [] \<and> readable b ab (etid e)) (map (entry_at t) as)"
    by (simp only: assms)
  finally show ?thesis
    by (simp add: collect_nodes_def filter_map o_def item_of_def entry_at_def readable_def tranc_visible_def)
qed

lemma collect_tables_shown:
  assumes "\<And>t. t \<in> set ts \<Longrightarrow> \<exists>as. nodes_of t = Inr as \<and>
      map (entry_at t) as = filter (\<lambda>e. K (ekey e)) (table_entries t)"
  shows "collect_tables nodes_of b ab ts = Inr (shown_items K b ab ts)"
  using assms
proof (induction ts)
  case (Cons t ts)
  obtain as where "nodes_of t = Inr as" "map (entry_at t) as = filter (\<lambda>e. K (ekey e)) (table_entries t)"
    using Cons.prems [of t] by auto
  moreover have "collect_tables nodes_of b ab ts = Inr (shown_items K b ab ts)"
    using Cons by simp
  ultimately show ?case by (simp add: collect_nodes_shown)
qed simp

lemma collect_all_nodes:
  assumes "table_ok t"
  shows "\<exists>as. collect_all t = Inr as \<and> map (entry_at t) as = filter (\<lambda>e. True) (table_entries t)"
proof -
  obtain ns where rep: "rep t ns" "table_entries t = map (entry_at t) ns"
    using table_okD [OF assms] by (auto simp: sl_abs_def)
  have "iter_range t (fwd t (head t) 0) (case [] of [] \<Rightarrow> None | b # _ \<Rightarrow> Some b) [] = Some ([] @ ns)"
    using rep_chain0 [OF rep(1)] rep_facts(3) [OF rep(1)] by (intro iter_range_chain) auto
  with rep(2) show ?thesis by (simp add: collect_all_def skiplist_begin_def)
qed

lemma collect_preffix_nodes:
  assumes "table_ok t"
  shows "\<exists>as. collect_preffix p t = Inr as \<and>
    map (entry_at t) as = filter (\<lambda>e. prefix p (ekey e)) (table_entries t)"
  using skiplist_preffix_range [OF table_okD [OF assms], of p] by (auto simp: collect_preffix_def)

lemma collect_predicate_nodes:
  assumes "table_ok t" "monotone_predicate pred"
  shows "\<exists>as. collect_predicate pred t = Inr as \<and>
    map (entry_at t) as = filter (\<lambda>e. pred (ekey e) = 0) (table_entries t)"
  using skiplist_predicate_range [OF table_okD [OF assms(1)] assms(2)]
  by (auto simp: collect_predicate_def split: option.splits)

section \<open>The winner of a key is the point lookup\<close>

definition wins :: "search_item list \<Rightarrow> bytes \<Rightarrow> search_item \<Rightarrow> bool" where
  "wins its k i \<longleftrightarrow> i \<in> set its \<and> si_key i = k \<and>
     (\<forall>j \<in> set its. si_key j = k \<longrightarrow> item_le i j \<and> (item_eq i j \<longrightarrow> j = i))"

lemma find_filter_wins:
  assumes "sorted_entries es"
    and "find (\<lambda>e. ekey e = k \<and> readable b ab (etid e)) es = Some e"
    and "e' \<in> set es" "ekey e' = k" "readable b ab (etid e')"
  shows "etid e' \<le> etid e \<and> (etid e' = etid e \<longrightarrow> e' = e)"
proof -
  have e: "e \<in> set es" "ekey e = k" using findSomeD [OF assms(2)] by auto
  have "newest (set es) k b ab (Some (snd e))"
    using newest_sorted_find [OF assms(1), of k b ab] assms(2) by simp
  moreover have "e' \<in> candidates (set es) k b ab" using assms(3-5) by (simp add: candidates_def)
  ultimately have "etid e' \<le> etid e" by (cases e) (auto simp: newest_def)
  moreover have "e' = e" if "etid e' = etid e"
    using sorted_entries_version_unique [OF assms(1,3) e(1)] that assms(4) e(2) by simp
  ultimately show ?thesis by simp
qed

lemma shown_items_idx: "i \<in> set (shown_items K b ab ts) \<Longrightarrow> si_idx i < length ts"
  by (induction ts) auto

lemma shown_items_visible:
  "i \<in> set (shown_items K b ab ts) \<Longrightarrow> item_visible b i \<and> K (si_key i) \<and> si_key i \<noteq> []"
  by (induction ts) (auto simp: shown_entries_def item_visible_def readable_def)

lemma table_items_win:
  fixes b :: u64 and ab :: abort_check and idx :: nat
  assumes "table_ok t" "K k"
  defines "its \<equiv> map (item_of idx) (shown_entries K b ab t)"
  shows "case table_lookup t k b ab of
      None \<Rightarrow> \<forall>i \<in> set its. si_key i \<noteq> k
    | Some (v, n) \<Rightarrow> \<exists>i. wins its k i \<and> si_value i = v \<and> si_tid i = n \<and> si_idx i = idx"
proof (cases "table_lookup t k b ab")
  case None
  then have "\<not> readable b ab n" if "(k, v, n) \<in> user_entries t" for v n
    using table.lookup_none_iff [OF assms(1), of k b ab] that by blast
  then show ?thesis using None
    by (auto simp: its_def shown_entries_def user_entries_def)
next
  case (Some vn)
  then obtain e where k: "k \<noteq> []" and vn: "vn = snd e"
    and f: "find (\<lambda>e. ekey e = k \<and> readable b ab (etid e)) (table_entries t) = Some e"
    by (auto simp: table_lookup_def split: if_splits)
  have e: "e \<in> set (shown_entries K b ab t)" "ekey e = k"
    using findSomeD [OF f] assms(2) k by (auto simp: shown_entries_def)
  have "item_le (item_of idx e) (item_of idx e') \<and>
      (item_eq (item_of idx e) (item_of idx e') \<longrightarrow> item_of idx e' = item_of idx e)"
    if "e' \<in> set (shown_entries K b ab t)" "ekey e' = k" for e'
    using find_filter_wins [OF sl_abs_sorted [OF table_okD [OF assms(1)]] f, of e'] that e(2)
    by (auto simp: shown_entries_def item_less_def item_eq_def)
  then have "wins its k (item_of idx e)"
    using e by (auto simp: wins_def its_def)
  with Some vn show ?thesis by (cases e) auto
qed

lemma item_less_asym: "item_less i j \<Longrightarrow> \<not> item_less j i" "item_less i j \<Longrightarrow> \<not> item_eq i j"
  using item_less_trans [of i j i] by (auto simp: item_less_def item_eq_def)

lemma wins_append_left:
  assumes "wins xs k i" "\<And>j. j \<in> set ys \<Longrightarrow> si_key j = k \<Longrightarrow> item_less i j"
  shows "wins (xs @ ys) k i"
  unfolding wins_def
proof (intro conjI ballI impI)
  fix j assume "j \<in> set (xs @ ys)" "si_key j = k"
  then consider "j \<in> set xs" | "item_less i j" using assms(2) by auto
  then show "item_le i j" "item_eq i j \<Longrightarrow> j = i"
    using assms(1) \<open>si_key j = k\<close> item_less_asym unfolding wins_def by (cases; blast)+
qed (use assms(1) in \<open>auto simp: wins_def\<close>)

lemma wins_swap: "wins (xs @ ys) k i = wins (ys @ xs) k i"
  by (simp add: wins_def Un_commute)

lemma wins_append_right:
  "wins ys k i \<Longrightarrow> (\<And>j. j \<in> set xs \<Longrightarrow> si_key j = k \<Longrightarrow> item_less i j) \<Longrightarrow> wins (xs @ ys) k i"
  unfolding wins_swap [of xs ys] by (rule wins_append_left)

lemma wins_tid:
  assumes "wins its k i" "j \<in> set its" "si_key j = k"
  shows "si_tid j \<le> si_tid i"
proof -
  have "item_le i j" "si_key i = k" using assms by (auto simp: wins_def)
  with assms(3) show ?thesis by (auto simp: item_less_def split: if_splits)
qed

lemma shown_items_win:
  assumes "\<forall>t \<in> set ts. table_ok t" "K k"
  shows "case lookup_tables ts k b ab of
      None \<Rightarrow> \<forall>i \<in> set (shown_items K b ab ts). si_key i \<noteq> k
    | Some (v, n) \<Rightarrow> \<exists>i. wins (shown_items K b ab ts) k i \<and> si_value i = v \<and> si_tid i = n"
  using assms(1)
proof (induction ts)
  case (Cons t ts)
  let ?xs = "map (item_of (length ts)) (shown_entries K b ab t)"
  let ?ys = "shown_items K b ab ts"
  have X: "case table_lookup t k b ab of None \<Rightarrow> \<forall>i \<in> set ?xs. si_key i \<noteq> k
    | Some (v, n) \<Rightarrow> \<exists>i. wins ?xs k i \<and> si_value i = v \<and> si_tid i = n \<and> si_idx i = length ts"
    using Cons.prems assms(2) by (intro table_items_win) auto
  have Y: "case lookup_tables ts k b ab of None \<Rightarrow> \<forall>i \<in> set ?ys. si_key i \<noteq> k
    | Some (v, n) \<Rightarrow> \<exists>i. wins ?ys k i \<and> si_value i = v \<and> si_tid i = n"
    using Cons by auto
  show ?case
  proof (cases "table_lookup t k b ab")
    case None
    with X have "\<forall>i \<in> set ?xs. si_key i \<noteq> k" by simp
    then have "wins (?xs @ ?ys) k i = wins ?ys k i" for i
      unfolding wins_def set_append by blast
    with \<open>\<forall>i \<in> set ?xs. si_key i \<noteq> k\<close> Y None show ?thesis
      by (cases "lookup_tables ts k b ab") (auto simp del: set_map)
  next
    case left: (Some x)
    obtain v n where x: "x = (v, n)" by (cases x)
    from X left x obtain i where i: "wins ?xs k i" "si_value i = v" "si_tid i = n" "si_idx i = length ts"
      by auto
    have ik: "si_key i = k" using i(1) by (simp add: wins_def)
    show ?thesis
    proof (cases "lookup_tables ts k b ab")
      case None
      with Y have "item_less i j" if "j \<in> set ?ys" "si_key j = k" for j using that by auto
      then have "wins (?xs @ ?ys) k i" by (intro wins_append_left [OF i(1)])
      with i(2,3) left None x show ?thesis by auto
    next
      case (Some y)
      obtain v' n' where y: "y = (v', n')" by (cases y)
      from Y Some y obtain i' where i': "wins ?ys k i'" "si_value i' = v'" "si_tid i' = n'" by auto
      have ik': "si_key i' = k" using i'(1) by (simp add: wins_def)
      show ?thesis
      proof (cases "n < n'")
        case True
        have "item_less i' j" if "j \<in> set ?xs" "si_key j = k" for j
          using wins_tid [OF i(1) that] that(2) ik' i(3) i'(3) True by (auto simp: item_less_def)
        then have "wins (?xs @ ?ys) k i'" by (intro wins_append_right [OF i'(1)])
        with i'(2,3) left Some x y True show ?thesis by (auto simp: better_def simp del: set_map)
      next
        case False
        have "item_less i j" if "j \<in> set ?ys" "si_key j = k" for j
          using wins_tid [OF i'(1) that] that(2) ik i(3,4) i'(3) False shown_items_idx [OF that(1)]
          by (auto simp: item_less_def)
        then have "wins (?xs @ ?ys) k i" by (intro wins_append_left [OF i(1)])
        with i(2,3) left Some x y False show ?thesis by (auto simp: better_def simp del: set_map)
      qed
    qed
  qed
qed simp

text \<open>The two faces of a record that a scan may show.\<close>

definition hide_deleted :: "bool \<Rightarrow> (bytes \<times> u64) option \<Rightarrow> (bytes \<times> u64) option" where
  "hide_deleted sd r = (case r of None \<Rightarrow> None | Some (v, n) \<Rightarrow> if sd \<and> v = [] then None else Some (v, n))"

definition drain_lookup :: "heap_iter \<Rightarrow> bytes \<Rightarrow> (bytes \<times> u64) option" where
  "drain_lookup h k = map_option (\<lambda>i. (si_value i, si_tid i)) (find (\<lambda>i. si_key i = k) (heap_drain h))"

definition drain_ordered :: "heap_iter \<Rightarrow> bool" where
  "drain_ordered h \<longleftrightarrow> sorted_wrt (\<lambda>a b. si_key a < si_key b) (heap_drain h)"

lemma shown_hide:
  "map_option (\<lambda>i. (si_value i, si_tid i)) (shown sd r) = hide_deleted sd (map_option (\<lambda>i. (si_value i, si_tid i)) r)"
  by (cases r) (auto simp: shown_def hide_deleted_def)

lemma heap_shows_lookup:
  fixes K :: "bytes \<Rightarrow> bool" and b :: u64 and ab :: abort_check and sd :: bool
  assumes "\<forall>t \<in> set ts. table_ok t"
  defines "h \<equiv> heap_new (shown_items K b ab ts) b sd False"
  shows "drain_ordered h \<and>
    drain_lookup h k = (if K k then hide_deleted sd (lookup_tables ts k b ab) else None)"
proof -
  let ?its = "shown_items K b ab ts"
  have "drain_lookup h k = hide_deleted sd (map_option (\<lambda>i. (si_value i, si_tid i)) (winner b (heap_of ?its) k))"
    using heap_drain_new [of ?its b sd k] by (simp add: drain_lookup_def h_def shown_hide)
  moreover have "map_option (\<lambda>i. (si_value i, si_tid i)) (winner b (heap_of ?its) k)
      = (if K k then lookup_tables ts k b ab else None)"
  proof (cases "K k \<and> lookup_tables ts k b ab \<noteq> None")
    case True
    then obtain v n where L: "lookup_tables ts k b ab = Some (v, n)" by auto
    with shown_items_win [OF assms(1), of K k b ab] True obtain i
      where i: "wins ?its k i" "si_value i = v" "si_tid i = n" by auto
    have mem: "i \<in> set ?its" "si_key i = k" using i(1) by (auto simp: wins_def)
    then obtain w where w: "winner b (heap_of ?its) k = Some w"
      using winner_None [of b ?its k] shown_items_visible [of i K b ab ts]
      by (cases "winner b (heap_of ?its) k") auto
    from winner_newest [OF w] have W: "w \<in> set ?its" "si_key w = k" by auto
    have "item_le w i"
      using sorted_find_least [OF heap_of_sorted w [unfolded winner_def], of i] mem
        shown_items_visible [of i K b ab ts] by auto
    moreover have "item_le i w" using i(1) W by (auto simp: wins_def)
    ultimately have "item_eq i w" using item_less_total by blast
    with i(1) W have "w = i" by (auto simp: wins_def)
    with w i L True show ?thesis by simp
  next
    case False
    then have no: "\<not> K k \<or> lookup_tables ts k b ab = None" by blast
    have "si_key i \<noteq> k" if "i \<in> set ?its" for i
    proof (cases "K k")
      case True
      with no have "lookup_tables ts k b ab = None" by blast
      with shown_items_win [OF assms(1), of K k b ab] True that show ?thesis by auto
    next
      case False
      with shown_items_visible [OF that] show ?thesis by auto
    qed
    then have "winner b (heap_of ?its) k = None" using winner_None by auto
    moreover have "(if K k then lookup_tables ts k b ab else None) = None"
      using no by (elim disjE; simp only: if_False if_cancel)
    ultimately show ?thesis by (simp only: option.map)
  qed
  moreover have "drain_ordered h"
    using heap_drain_new [of ?its b sd k] by (simp add: drain_ordered_def h_def)
  ultimately show ?thesis by (simp add: hide_deleted_def)
qed

lemma mem_ok_tables: "mem_ok m \<Longrightarrow> t \<in> set (current_table m # frozen_tables m) \<Longrightarrow> table_ok t"
  by (auto simp: mem_ok_def mem_tables_def)

lemma memtable_begin_drain:
  assumes "mem_ok m"
  shows "\<exists>h. memtable_begin m b sd ab = Inr h \<and> drain_ordered h \<and>
    (\<forall>k. drain_lookup h k = hide_deleted sd (mem_lookup m k b ab))"
proof -
  have "collect_tables collect_all b ab (current_table m # frozen_tables m)
      = Inr (shown_items (\<lambda>_. True) b ab (current_table m # frozen_tables m))"
    by (intro collect_tables_shown collect_all_nodes mem_ok_tables [OF assms])
  then show ?thesis
    using heap_shows_lookup [of "mem_tables m" "\<lambda>_. True" b ab sd] mem_ok_tables [OF assms]
    by (simp add: memtable_begin_def mem_lookup_def mem_tables_def del: lookup_tables_simps)
qed

text \<open>C24: the full scan shows, in ascending key order and each key once, exactly what the point
  lookup with the same bound and abort check returns for every key; deleted keys are left out
  when the caller asks for it.\<close>

theorem memtable_begin_shows_lookup:
  assumes "mem_ok m"
  shows "\<exists>h. memtable_begin m b sd ab = Inr h \<and> drain_ordered h \<and>
    (\<forall>k. drain_lookup h k = hide_deleted sd (mem_lookup m k b ab))"
  by (rule memtable_begin_drain [OF assms])

text \<open>C24: the prefix scan shows exactly the live records with the prefix, each as the point lookup
  returns it, in ascending key order.\<close>

lemma memtable_iters_preffix_shows_lookup:
  assumes "mem_ok m"
  shows "\<exists>h. memtable_iters_preffix m p b ab = Inr h \<and> drain_ordered h \<and>
    (\<forall>k. drain_lookup h k = (if prefix p k then hide_deleted True (mem_lookup m k b ab) else None))"
proof -
  have "collect_tables (collect_preffix p) b ab (current_table m # frozen_tables m)
      = Inr (shown_items (prefix p) b ab (current_table m # frozen_tables m))"
    by (intro collect_tables_shown collect_preffix_nodes mem_ok_tables [OF assms])
  then show ?thesis
    using heap_shows_lookup [of "mem_tables m" "prefix p" b ab True] mem_ok_tables [OF assms]
    by (simp add: memtable_iters_preffix_def mem_lookup_def mem_tables_def del: lookup_tables_simps)
qed

lemma heap_is_end_drain: "heap_is_end h \<longleftrightarrow> heap_drain h = []"
  by (simp add: heap_drain.simps [of h])

lemma drain_lookup_empty: "heap_drain h = [] \<longleftrightarrow> (\<forall>k. drain_lookup h k = None)"
  by (cases "heap_drain h") (auto simp: drain_lookup_def)

text \<open>C25: a range query with a monotone predicate reports no range when no live record hits, and
  otherwise shows exactly the live hits, each as the point lookup returns it, in key order.\<close>

theorem memtable_predicate_shows_lookup:
  assumes "mem_ok m" "monotone_predicate pred"
  shows "\<exists>r. memtable_iters_monotony_predicate m b pred ab = Inr r \<and>
    (case r of
       None \<Rightarrow> \<forall>k. pred k = 0 \<longrightarrow> hide_deleted True (mem_lookup m k b ab) = None
     | Some (h, stop) \<Rightarrow> stop = memtable_end \<and> \<not> heap_is_end h \<and> drain_ordered h \<and>
         (\<forall>k. drain_lookup h k = (if pred k = 0 then hide_deleted True (mem_lookup m k b ab) else None)))"
proof -
  let ?ts = "current_table m # frozen_tables m"
  let ?h = "heap_new (shown_items (\<lambda>k. pred k = 0) b ab ?ts) b True False"
  have "collect_tables (collect_predicate pred) b ab ?ts = Inr (shown_items (\<lambda>k. pred k = 0) b ab ?ts)"
    by (intro collect_tables_shown collect_predicate_nodes mem_ok_tables [OF assms(1)] assms(2))
  then have R: "memtable_iters_monotony_predicate m b pred ab
      = Inr (if heap_is_end ?h then None else Some (?h, heap_empty True False))"
    by (simp only: memtable_iters_monotony_predicate_def ebind_simps Let_def)
  have S: "drain_ordered ?h \<and>
      drain_lookup ?h k = (if pred k = 0 then hide_deleted True (mem_lookup m k b ab) else None)" for k
    using heap_shows_lookup [of ?ts "\<lambda>k. pred k = 0" b ab True k] mem_ok_tables [OF assms(1)]
    by (simp only: mem_lookup_def mem_tables_def) blast
  show ?thesis
  proof (cases "heap_is_end ?h")
    case True
    then have "drain_lookup ?h k = None" for k
      using heap_is_end_drain drain_lookup_empty by blast
    then have "hide_deleted True (mem_lookup m k b ab) = None" if "pred k = 0" for k
      using S [of k] that by simp
    with R True show ?thesis by auto
  next
    case False
    with R S show ?thesis by (auto simp: memtable_end_def)
  qed
qed

section \<open>Flushing\<close>

definition commit_marks :: "entry list \<Rightarrow> u64 list" where
  "commit_marks es = map etid (filter (\<lambda>e. ekey e = [] \<and> evalue e = []) es)"

lemma flush_entries_add_all:
  "flush_entries add b pending es = ebind (add_all add b es) (\<lambda>b'. Inr (b', pending @ commit_marks es))"
proof (induction es arbitrary: b pending)
  case (Cons e es)
  show ?case by (cases "add b e") (auto simp: Cons commit_marks_def Let_def)
qed (simp add: commit_marks_def)

text \<open>The table that a flush takes: the oldest frozen one, or the active one when none is
  frozen.\<close>

definition flush_source :: "memtable \<Rightarrow> skiplist option" where
  "flush_source m =
     (if frozen_tables m \<noteq> [] then Some (last (frozen_tables m))
      else if skiplist_get_size (current_table m) = 0 then None else Some (current_table m))"

text \<open>Every record of that table, in order and with all its versions, goes through the
  builder; on success the table leaves the memory and its commit marks are reported, on an
  exception the table stays and nothing is reported.\<close>

lemma memtable_flush_last_spec:
  assumes "mem_ok m"
  shows "memtable_flush_last add build m bld flushed = (case flush_source m of
      None \<Rightarrow> (Inr None, m, flushed)
    | Some t \<Rightarrow>
        let m1 = freeze_for_flush m
        in case ebind (add_all add bld (table_entries t)) build of
             Inl e \<Rightarrow> (Inl e, m1, flushed)
           | Inr sst \<Rightarrow> (Inr (Some sst), m1\<lparr>frozen_tables := butlast (frozen_tables m1),
                 frozen_bytes := frozen_bytes m1 - skiplist_get_size t\<rparr>,
               flushed @ commit_marks (table_entries t)))"
proof -
  have flush: "skiplist_flush t = Inr (table_entries t)" if "t \<in> set (mem_tables m)" for t
    using that assms skiplist_flush_abs [OF table_okD] by (simp add: mem_ok_def)
  have built: "(case ebind (skiplist_flush t) (\<lambda>es. ebind (flush_entries add bld [] es) (\<lambda>(b, pending).
          ebind (build b) (\<lambda>sst. Inr (sst, pending)))) of
        Inl e \<Rightarrow> f e | Inr (sst, pending) \<Rightarrow> g sst pending) =
      (case ebind (add_all add bld (table_entries t)) build of
        Inl e \<Rightarrow> f e | Inr sst \<Rightarrow> g sst (commit_marks (table_entries t)))"
    if "t \<in> set (mem_tables m)" for t and f :: "cpp_error \<Rightarrow> 'z" and g
    unfolding flush [OF that] ebind_simps flush_entries_add_all
    by (cases "add_all add bld (table_entries t)") (auto split: sum.split)
  show ?thesis
  proof (cases "flush_source m")
    case None
    then show ?thesis
      by (auto simp: memtable_flush_last_def flush_source_def freeze_for_flush_def freeze_cur_table_def split: if_splits)
  next
    case (Some t)
    then have t: "t \<in> set (mem_tables m)" "frozen_tables (freeze_for_flush m) \<noteq> []"
      "last (frozen_tables (freeze_for_flush m)) = t"
      by (auto simp: flush_source_def freeze_for_flush_def freeze_cur_table_def mem_tables_def Let_def split: if_splits)
    show ?thesis
      unfolding memtable_flush_last_def Let_def t(3) built [OF t(1)] using t(2) Some by simp
  qed
qed

lemma sum_list_butlast: "xs \<noteq> [] \<Longrightarrow> sum_list (map f xs) = sum_list (map f (butlast xs)) + (f (last xs) :: u64)"
  by (induction xs rule: rev_induct) auto

lemma lookup_tables_snoc: "lookup_tables (ts @ [t]) k b ab = better (lookup_tables ts k b ab) (table_lookup t k b ab)"
  by (simp add: lookup_tables_def)

lemma freeze_for_flush_keeps:
  assumes "mem_ok m"
  shows "mem_ok (freeze_for_flush m) \<and> mem_entries (freeze_for_flush m) = mem_entries m \<and>
    mem_lookup (freeze_for_flush m) k b ab = mem_lookup m k b ab"
  using assms freeze_facts by (simp add: freeze_for_flush_def)

lemma memtable_flush_last_keeps_ok:
  assumes "mem_ok m" "memtable_flush_last add build m bld flushed = (Inr sst, m', flushed')"
    and Some: "flush_source m = Some t"
  shows "mem_ok m' \<and> t \<in> set (mem_tables m) \<and> mem_entries m = mem_entries m' \<union> user_entries t \<and>
    mem_lookup m k b ab = better (mem_lookup m' k b ab) (table_lookup t k b ab)"
proof -
  define m1 where "m1 = freeze_for_flush m"
  have m1: "mem_ok m1" "mem_entries m1 = mem_entries m" "frozen_tables m1 \<noteq> []" "t = last (frozen_tables m1)"
    "t \<in> set (mem_tables m)"
    using assms(1) Some freeze_for_flush_keeps [OF assms(1)]
    by (auto simp: m1_def freeze_for_flush_def flush_source_def freeze_cur_table_def Let_def mem_tables_def split: if_splits)
  have m': "m' = m1\<lparr>frozen_tables := butlast (frozen_tables m1),
      frozen_bytes := frozen_bytes m1 - skiplist_get_size t\<rparr>"
    using assms(2) memtable_flush_last_spec [OF assms(1), of add build bld flushed] Some
    by (auto simp: m1_def Let_def split: sum.splits)
  have split: "frozen_tables m1 = butlast (frozen_tables m1) @ [t]" using m1(3,4) by simp
  have sub: "set (butlast (frozen_tables m1)) \<subseteq> set (frozen_tables m1)" by (auto dest: in_set_butlastD)
  have "frozen_bytes m' = sum_list (map skiplist_get_size (frozen_tables m'))"
    using m1(1,3,4) sum_list_butlast [of "frozen_tables m1" skiplist_get_size]
    by (simp add: m' mem_ok_def)
  then have "mem_ok m'" using m1(1) sub by (auto simp: m' mem_ok_def mem_tables_def)
  moreover have "mem_entries m1 = mem_entries m' \<union> user_entries t"
    unfolding mem_entries_def mem_tables_def m' by (subst split) auto
  moreover have "mem_lookup m1 k b ab = better (mem_lookup m' k b ab) (table_lookup t k b ab)"
    unfolding mem_lookup_def mem_tables_def m' by (subst split) (simp add: lookup_tables_snoc better_assoc)
  moreover have "mem_lookup m1 k b ab = mem_lookup m k b ab"
    using freeze_for_flush_keeps [OF assms(1)] by (simp add: m1_def)
  ultimately show ?thesis using m1 by auto
qed


section \<open>Examples\<close>

theorem memtable_begin_shows_lookup_witness:
  "\<exists>m h. memtable_put 0 memtable_new [1] [2] 3 (\<lambda>_. False) = Inr m \<and>
    memtable_begin m 0 True None = Inr h \<and> drain_ordered h \<and> drain_lookup h [1] = Some ([2], 3)"
proof -
  obtain m where m: "memtable_put 0 memtable_new [1] [2] 3 (\<lambda>_. False) = Inr m" "mem_ok m"
    "mem_lookup m [1] 0 None = Some ([2], 3)"
    using memtable_one_put by auto
  show ?thesis
    using m(1,3) memtable_begin_shows_lookup [OF m(2), of 0 True None] by (auto simp: hide_deleted_def)
qed

theorem memtable_predicate_shows_lookup_witness:
  "\<exists>m h. memtable_put 0 memtable_new [1] [2] 3 (\<lambda>_. False) = Inr m \<and>
    memtable_iters_monotony_predicate m 0 (\<lambda>_. 0) None = Inr (Some (h, memtable_end)) \<and>
    drain_lookup h [1] = Some ([2], 3)"
proof -
  obtain m where m: "memtable_put 0 memtable_new [1] [2] 3 (\<lambda>_. False) = Inr m" "mem_ok m"
    "mem_lookup m [1] 0 None = Some ([2], 3)"
    using memtable_one_put by auto
  have p: "monotone_predicate (\<lambda>_. 0)" by (simp add: monotone_predicate_def)
  have live: "hide_deleted True (mem_lookup m [1] 0 None) = Some ([2], 3)"
    by (simp add: m(3) hide_deleted_def)
  obtain r where r: "memtable_iters_monotony_predicate m 0 (\<lambda>_. 0) None = Inr r"
      "case r of None \<Rightarrow> \<forall>k :: bytes. (0 :: int) = 0 \<longrightarrow> hide_deleted True (mem_lookup m k 0 None) = None
       | Some (h, stop) \<Rightarrow> stop = memtable_end \<and> \<not> heap_is_end h \<and> drain_ordered h \<and>
         (\<forall>k. drain_lookup h k = (if (0 :: int) = 0 then hide_deleted True (mem_lookup m k 0 None) else None))"
    using memtable_predicate_shows_lookup [OF m(2) p, of 0 None] by blast
  show ?thesis
  proof (cases r)
    case None
    with r(2) live show ?thesis by simp
  next
    case (Some x)
    with r live m(1) show ?thesis by (cases x) auto
  qed
qed


end
