(* ===== verification/Block.thy ===== *)
theory Block
  imports Kopi_Prelude
begin

text \<open>
  The data block of src/src/block/block.cpp: the byte layout (entries, offset table, count,
  optional CRC-32), the appending of entries with its limits, the checked field readers, the
  binary search for a key and the choice of the readable version. \<open>block_holds b es\<close>
  says that the bytes of \<open>b\<close> are the records \<open>es\<close>.
\<close>

section \<open>State and CRC\<close>

record block =
  bdata :: bytes
  boffsets :: "u16 list"
  bcapacity :: nat

definition block_new :: "nat \<Rightarrow> block" where
  "block_new cap = \<lparr>bdata = [], boffsets = [], bcapacity = cap\<rparr>"

definition crc_bit :: "u32 \<Rightarrow> u32" where
  "crc_bit c = (if c AND 1 \<noteq> 0 then drop_bit 1 c XOR 0xEDB88320 else drop_bit 1 c)"

definition crc_byte :: "byte \<Rightarrow> u32 \<Rightarrow> u32" where
  "crc_byte b c = (crc_bit ^^ 8) (c XOR ucast b)"

definition crc32_compute :: "bytes \<Rightarrow> u32" where
  "crc32_compute bs = fold crc_byte bs 0xFFFFFFFF XOR 0xFFFFFFFF"

section \<open>Encoding and decoding\<close>

definition block_encode :: "block \<Rightarrow> bool \<Rightarrow> bytes result" where
  "block_encode b with_hash =
     (let encoded = bdata b @ concat (map (le_write 2) (boffsets b))
      in if 65535 < length (boffsets b) then Inl Runtime_Error
         else let body = encoded @ le_write 2 (of_nat (length (boffsets b)) :: u16)
              in Inr (if with_hash then body @ le_write 4 (crc32_compute body) else body))"

definition u16_at :: "bytes \<Rightarrow> nat \<Rightarrow> u16" where
  "u16_at d i = ucast (d ! i) OR push_bit 8 (ucast (d ! Suc i))"

definition block_cur_size :: "block \<Rightarrow> nat" where
  "block_cur_size b = length (bdata b) + length (boffsets b) * 2 + 2"

definition block_decode :: "bytes \<Rightarrow> bool \<Rightarrow> block result" where
  "block_decode encoded with_hash =
     (let crc_size = (if with_hash then 4 else 0)
      in if length encoded < 2 + crc_size then Inl Runtime_Error
         else
           let body_size = length encoded - crc_size
           in if with_hash \<and> crc32_compute (take body_size encoded) \<noteq> le_read (drop body_size encoded)
              then Inl Runtime_Error
              else
                let num = unat (u16_at encoded (body_size - 2));
                    offset_sec_end = body_size - 2
                in if offset_sec_end < 2 * num then Inl Runtime_Error
                   else
                     let offset_sec_begin = offset_sec_end - num * 2;
                         b = \<lparr>bdata = take offset_sec_begin encoded,
                              boffsets = map (\<lambda>i. u16_at encoded (offset_sec_begin + 2 * i)) [0 ..< num],
                              bcapacity = 0\<rparr>
                     in Inr (b\<lparr>bcapacity := block_cur_size b\<rparr>))"

section \<open>Entries\<close>

definition block_get_first_key :: "block \<Rightarrow> bytes" where
  "block_get_first_key b =
     (if bdata b = [] \<or> boffsets b = [] then []
      else take (unat (u16_at (bdata b) 0)) (drop 2 (bdata b)))"

definition block_get_offset_at :: "block \<Rightarrow> nat \<Rightarrow> nat result" where
  "block_get_offset_at b idx =
     (if length (boffsets b) \<le> idx then Inl Runtime_Error else Inr (unat (boffsets b ! idx)))"

definition enc_entry :: "entry \<Rightarrow> bytes" where
  "enc_entry e = le_write 2 (of_nat (length (ekey e)) :: u16) @ ekey e
     @ le_write 2 (of_nat (length (evalue e)) :: u16) @ evalue e @ le_write 8 (etid e)"

definition block_add_entry :: "block \<Rightarrow> bytes \<Rightarrow> bytes \<Rightarrow> u64 \<Rightarrow> bool \<Rightarrow> (bool \<times> block) result" where
  "block_add_entry b k v tid force_write =
     (if 65535 < length k \<or> 65535 < length v then Inl Length_Error
      else
        let entry_size = 2 + length k + 2 + length v + 8
        in if \<not> force_write \<and> boffsets b \<noteq> [] \<and> bcapacity b < block_cur_size b + entry_size + 2
           then Inr (False, b)
           else if 65535 < length (bdata b) then Inl Length_Error
           else if 65535 \<le> length (boffsets b) then Inl Length_Error
           else Inr (True, b\<lparr>boffsets := boffsets b @ [of_nat (length (bdata b))],
                            bdata := bdata b @ enc_entry (k, v, tid)\<rparr>))"

text \<open>The readers check every length before they use it.\<close>

definition block_get_key_at :: "block \<Rightarrow> nat \<Rightarrow> bytes result" where
  "block_get_key_at b offset =
     (if length (bdata b) < offset \<or> length (bdata b) - offset < 2 then Inl Runtime_Error
      else
        let key_len = unat (u16_at (bdata b) offset)
        in if length (bdata b) - offset - 2 < key_len then Inl Runtime_Error
           else Inr (take key_len (drop (offset + 2) (bdata b))))"

definition block_get_value_at :: "block \<Rightarrow> nat \<Rightarrow> bytes result" where
  "block_get_value_at b offset =
     (if length (bdata b) < offset \<or> length (bdata b) - offset < 2 then Inl Runtime_Error
      else
        let key_len = unat (u16_at (bdata b) offset)
        in if length (bdata b) - offset - 2 < key_len then Inl Runtime_Error
           else
             let val_len_start = offset + 2 + key_len
             in if length (bdata b) - val_len_start < 2 then Inl Runtime_Error
                else
                  let val_len = unat (u16_at (bdata b) val_len_start)
                  in if length (bdata b) - val_len_start - 2 < val_len then Inl Runtime_Error
                     else Inr (take val_len (drop (val_len_start + 2) (bdata b))))"

definition block_get_tranc_id_at :: "block \<Rightarrow> nat \<Rightarrow> u64 result" where
  "block_get_tranc_id_at b offset =
     (if length (bdata b) < offset \<or> length (bdata b) - offset < 2 then Inl Runtime_Error
      else
        let key_len = unat (u16_at (bdata b) offset)
        in if length (bdata b) - offset - 2 < key_len then Inl Runtime_Error
           else
             let val_len_start = offset + 2 + key_len
             in if length (bdata b) - val_len_start < 2 then Inl Runtime_Error
                else
                  let val_len = unat (u16_at (bdata b) val_len_start)
                  in if length (bdata b) - val_len_start - 2 < val_len then Inl Runtime_Error
                     else
                       let tranc_id_start = val_len_start + val_len + 2
                       in if length (bdata b) - tranc_id_start < 8 then Inl Runtime_Error
                          else Inr (le_read (take 8 (drop tranc_id_start (bdata b)))))"

definition block_get_entry_at :: "block \<Rightarrow> nat \<Rightarrow> entry result" where
  "block_get_entry_at b offset =
     ebind (block_get_key_at b offset) (\<lambda>k.
     ebind (block_get_value_at b offset) (\<lambda>v.
     ebind (block_get_tranc_id_at b offset) (\<lambda>t. Inr (k, v, t))))"

definition str_compare :: "bytes \<Rightarrow> bytes \<Rightarrow> int" where
  "str_compare a b = (if a < b then - 1 else if a = b then 0 else 1)"

definition block_compare_key_at :: "block \<Rightarrow> nat \<Rightarrow> bytes \<Rightarrow> int result" where
  "block_compare_key_at b offset target =
     ebind (block_get_key_at b offset) (\<lambda>k. Inr (str_compare k target))"

definition block_is_same_key :: "block \<Rightarrow> nat \<Rightarrow> bytes \<Rightarrow> bool result" where
  "block_is_same_key b idx target =
     (if length (boffsets b) \<le> idx then Inr False
      else ebind (block_get_key_at b (unat (boffsets b ! idx))) (\<lambda>k. Inr (k = target)))"

definition block_size :: "block \<Rightarrow> nat" where
  "block_size b = length (boffsets b)"

definition block_is_empty :: "block \<Rightarrow> bool" where
  "block_is_empty b \<longleftrightarrow> boffsets b = []"

section \<open>Lookup\<close>

primrec group_start :: "block \<Rightarrow> bytes \<Rightarrow> nat \<Rightarrow> nat result" where
  "group_start b k 0 = Inr 0"
| "group_start b k (Suc i) =
     ebind (block_is_same_key b i k) (\<lambda>same. if same then group_start b k i else Inr (Suc i))"

text \<open>The scan of one version group, bounded by the number of entries left.\<close>

primrec group_scan :: "nat \<Rightarrow> block \<Rightarrow> bytes \<Rightarrow> u64 \<Rightarrow> abort_check \<Rightarrow> nat \<Rightarrow> int result" where
  "group_scan 0 b k bound ab idx = Inr (- 1)"
| "group_scan (Suc n) b k bound ab idx =
     ebind (block_is_same_key b idx k) (\<lambda>same.
       if \<not> same then Inr (- 1)
       else ebind (block_get_tranc_id_at b (unat (boffsets b ! idx))) (\<lambda>entry_id.
         if (bound = 0 \<or> entry_id \<le> bound) \<and> \<not> aborted_by ab entry_id then Inr (int idx)
         else group_scan n b k bound ab (Suc idx)))"

definition block_adjust_idx_by_tranc_id :: "block \<Rightarrow> nat \<Rightarrow> u64 \<Rightarrow> abort_check \<Rightarrow> int result" where
  "block_adjust_idx_by_tranc_id b idx bound ab =
     (if length (boffsets b) \<le> idx then Inr (- 1)
      else ebind (block_get_key_at b (unat (boffsets b ! idx))) (\<lambda>k.
           ebind (group_start b k idx) (\<lambda>start.
             if bound = 0 \<and> ab = None then Inr (int start)
             else group_scan (length (boffsets b) - start) b k bound ab start)))"

function search_key ::
  "block \<Rightarrow> bytes \<Rightarrow> u64 \<Rightarrow> abort_check \<Rightarrow> nat \<Rightarrow> nat \<Rightarrow> nat option result" where
  "search_key b k bound ab left right =
     (if left < right then
        let mid = left + (right - left) div 2
        in ebind (vec_at (boffsets b) mid) (\<lambda>off.
           ebind (block_compare_key_at b (unat off) k) (\<lambda>cmp.
             if cmp = 0 then
               ebind (block_adjust_idx_by_tranc_id b mid bound ab) (\<lambda>adjusted.
                 Inr (if adjusted < 0 then None else Some (nat adjusted)))
             else if 0 < cmp then search_key b k bound ab left mid
             else search_key b k bound ab (mid + 1) right))
      else Inr None)"
  by pat_completeness auto
termination by (relation "measure (\<lambda>(b, k, bound, ab, left, right). right - left)") auto

declare search_key.simps [simp del]

definition block_get_idx_binary :: "block \<Rightarrow> bytes \<Rightarrow> u64 \<Rightarrow> abort_check \<Rightarrow> nat option result" where
  "block_get_idx_binary b k bound ab = search_key b k bound ab 0 (length (boffsets b))"

definition block_get_value_binary :: "block \<Rightarrow> bytes \<Rightarrow> u64 \<Rightarrow> abort_check \<Rightarrow> bytes option result" where
  "block_get_value_binary b k bound ab =
     ebind (block_get_idx_binary b k bound ab) (\<lambda>idx.
       case idx of
         None \<Rightarrow> Inr None
       | Some i \<Rightarrow> ebind (vec_at (boffsets b) i) (\<lambda>off.
           ebind (block_get_value_at b (unat off)) (\<lambda>v. Inr (Some v))))"

text \<open>Two binary searches for the ends of the zone on which a monotone predicate is 0. The
  first one moves left on a hit, the second one moves right.\<close>

function search_zone ::
  "block \<Rightarrow> (bytes \<Rightarrow> int) \<Rightarrow> bool \<Rightarrow> nat \<Rightarrow> nat \<Rightarrow> nat result" where
  "search_zone b pred first left right =
     (if left < right then
        let mid = left + (right - left) div 2
        in ebind (vec_at (boffsets b) mid) (\<lambda>off.
           ebind (block_get_key_at b (unat off)) (\<lambda>k.
             let p = pred k
             in if p = 0 then (if first then search_zone b pred first left mid
                               else search_zone b pred first (mid + 1) right)
                else if 0 < p then search_zone b pred first (mid + 1) right
                else search_zone b pred first left mid))
      else Inr left)"
  by pat_completeness auto
termination by (relation "measure (\<lambda>(b, pred, first, left, right). right - left)") auto

declare search_zone.simps [simp del]

text \<open>The index range \<open>[first, end)\<close> from which the two block iterators are built.\<close>

definition block_predicate_zone :: "block \<Rightarrow> (bytes \<Rightarrow> int) \<Rightarrow> (nat \<times> nat) option result" where
  "block_predicate_zone b pred =
     (if boffsets b = [] then Inr None
      else ebind (search_zone b pred True 0 (length (boffsets b))) (\<lambda>left.
        if length (boffsets b) \<le> left then Inr None
        else ebind (block_get_key_at b (unat (boffsets b ! left))) (\<lambda>k.
          if pred k \<noteq> 0 then Inr None
          else ebind (search_zone b pred False left (length (boffsets b))) (\<lambda>end_idx.
            Inr (Some (left, end_idx))))))"

section \<open>What a block holds\<close>

definition entry_fits :: "entry \<Rightarrow> bool" where
  "entry_fits e \<longleftrightarrow> length (ekey e) \<le> 65535 \<and> length (evalue e) \<le> 65535"

primrec entry_offsets :: "nat \<Rightarrow> entry list \<Rightarrow> nat list" where
  "entry_offsets n [] = []"
| "entry_offsets n (e # es) = n # entry_offsets (n + length (enc_entry e)) es"

definition block_holds :: "block \<Rightarrow> entry list \<Rightarrow> bool" where
  "block_holds b es \<longleftrightarrow> bdata b = concat (map enc_entry es) \<and>
     map unat (boffsets b) = entry_offsets 0 es \<and>
     length es \<le> 65535 \<and> (\<forall>e \<in> set es. entry_fits e)"

lemma block_new_holds: "block_holds (block_new cap) []"
  by (simp add: block_holds_def block_new_def)

lemma entry_offsets_append:
  "entry_offsets n (xs @ ys) = entry_offsets n xs @ entry_offsets (n + length (concat (map enc_entry xs))) ys"
  by (induction xs arbitrary: n) (auto simp: add.assoc)

lemma length_entry_offsets [simp]: "length (entry_offsets n es) = length es"
  by (induction es arbitrary: n) auto

lemma entry_offsets_nth:
  "i < length es \<Longrightarrow> entry_offsets n es ! i = n + length (concat (map enc_entry (take i es)))"
proof (induction es arbitrary: n i)
  case (Cons e es)
  then show ?case by (cases i) auto
qed simp

lemma holds_length: "block_holds b es \<Longrightarrow> length (boffsets b) = length es"
  unfolding block_holds_def by (metis length_entry_offsets length_map)

lemma holds_drop:
  assumes "block_holds b es" "i < length es"
  defines "off \<equiv> unat (boffsets b ! i)"
  shows "off \<le> length (bdata b) \<and> drop off (bdata b) = enc_entry (es ! i) @ concat (map enc_entry (drop (Suc i) es))"
proof -
  have "off = map unat (boffsets b) ! i"
    using holds_length [OF assms(1)] assms(2) by (simp add: off_def)
  then have off: "off = length (concat (map enc_entry (take i es)))"
    using assms(1) entry_offsets_nth [OF assms(2), of 0] by (simp add: block_holds_def)
  have "bdata b = concat (map enc_entry (take i es @ es ! i # drop (Suc i) es))"
    using assms(1) id_take_nth_drop [OF assms(2)] by (simp add: block_holds_def)
  then show ?thesis by (simp add: off)
qed

section \<open>Fields of an encoded entry\<close>

lemma u16_at_le_read: "Suc i < length d \<Longrightarrow> u16_at d i = le_read (take 2 (drop i d))"
proof -
  assume "Suc i < length d"
  then have "take 2 (drop i d) = [d ! i, d ! Suc i]"
    by (simp add: Cons_nth_drop_Suc [symmetric] numeral_2_eq_2)
  then show ?thesis by (simp add: u16_at_def le_read_def)
qed

lemma u16_at_write: "drop i d = le_write 2 (w :: u16) @ r \<Longrightarrow> i \<le> length d \<Longrightarrow> u16_at d i = w"
proof -
  assume d: "drop i d = le_write 2 w @ r" and i: "i \<le> length d"
  have "length (drop i d) = 2 + length r" by (simp add: d)
  then have "Suc i < length d" using i by simp
  then show ?thesis by (simp add: u16_at_le_read d le_read_write)
qed

lemma unat_of_nat_u16: "n \<le> 65535 \<Longrightarrow> unat (of_nat n :: u16) = n"
  by (simp add: unsigned_of_nat take_bit_nat_eq_self)

text \<open>One lemma for the three readers: what they see at an offset where an entry starts.\<close>

lemma read_entry:
  assumes "off \<le> length (bdata b)" "drop off (bdata b) = enc_entry e @ rest" "entry_fits e"
  shows "block_get_key_at b off = Inr (ekey e)" "block_get_value_at b off = Inr (evalue e)"
    "block_get_tranc_id_at b off = Inr (etid e)"
proof -
  let ?d = "bdata b" and ?k = "ekey e" and ?v = "evalue e"
  let ?vs = "off + 2 + length ?k"
  have len: "length ?d = off + (2 + length ?k + 2 + length ?v + 8 + length rest)"
  proof -
    have "length (drop off ?d) = length (enc_entry e @ rest)" by (simp only: assms(2))
    with assms(1) show ?thesis by (simp add: enc_entry_def)
  qed
  have kl: "unat (u16_at ?d off) = length ?k"
    using u16_at_write [OF _ assms(1), of "of_nat (length ?k)"] assms(2,3)
    by (simp add: enc_entry_def unat_of_nat_u16 entry_fits_def)
  have dk: "drop (off + 2) ?d = ?k @ le_write 2 (of_nat (length ?v) :: u16) @ ?v @ le_write 8 (etid e) @ rest"
  proof -
    have "drop (off + 2) ?d = drop 2 (drop off ?d)" by (simp add: add.commute)
    then show ?thesis unfolding assms(2) enc_entry_def by simp
  qed
  have dv: "drop ?vs ?d = le_write 2 (of_nat (length ?v) :: u16) @ ?v @ le_write 8 (etid e) @ rest"
  proof -
    have "drop ?vs ?d = drop (length ?k) (drop (off + 2) ?d)" by (simp add: add.commute)
    then show ?thesis unfolding dk by simp
  qed
  have vl: "unat (u16_at ?d ?vs) = length ?v"
    using u16_at_write [OF dv] len assms(3) by (simp add: unat_of_nat_u16 entry_fits_def)
  have dvv: "drop (?vs + 2) ?d = ?v @ le_write 8 (etid e) @ rest"
  proof -
    have "drop (?vs + 2) ?d = drop 2 (drop ?vs ?d)" by (simp add: add.commute)
    then show ?thesis unfolding dv by simp
  qed
  have dt: "drop (?vs + length ?v + 2) ?d = le_write 8 (etid e) @ rest"
  proof -
    have "drop (?vs + length ?v + 2) ?d = drop (length ?v) (drop (?vs + 2) ?d)" by (simp add: ac_simps)
    then show ?thesis unfolding dvv by simp
  qed
  show "block_get_key_at b off = Inr ?k"
    using kl dk len by (simp add: block_get_key_at_def Let_def)
  show "block_get_value_at b off = Inr ?v"
    using kl vl dvv len by (simp add: block_get_value_at_def Let_def)
  show "block_get_tranc_id_at b off = Inr (etid e)"
    using kl vl dt len by (simp add: block_get_tranc_id_at_def Let_def le_read_write)
qed

lemma holds_read:
  assumes "block_holds b es" "i < length es"
  shows "block_get_key_at b (unat (boffsets b ! i)) = Inr (ekey (es ! i))"
    "block_get_value_at b (unat (boffsets b ! i)) = Inr (evalue (es ! i))"
    "block_get_tranc_id_at b (unat (boffsets b ! i)) = Inr (etid (es ! i))"
  using read_entry [of "unat (boffsets b ! i)" b "es ! i"] holds_drop [OF assms] assms
  by (auto simp: block_holds_def)

section \<open>Appending\<close>

lemma block_add_entry_cases:
  assumes "block_holds b es"
  shows "case block_add_entry b k v t force_write of
      Inl e \<Rightarrow> e = Length_Error \<and>
        (65535 < length k \<or> 65535 < length v \<or> 65535 < length (bdata b) \<or> length es = 65535)
    | Inr (ok, b') \<Rightarrow>
        (if ok then block_holds b' (es @ [(k, v, t)]) \<and> bcapacity b' = bcapacity b \<and>
            (force_write \<or> es = [] \<or> block_cur_size b' \<le> bcapacity b)
         else b' = b \<and> \<not> force_write \<and> es \<noteq> [] \<and>
           bcapacity b < block_cur_size b + length (enc_entry (k, v, t)) + 2)"
proof -
  have l: "length (boffsets b) = length es" "length es \<le> 65535"
    using holds_length [OF assms] assms by (auto simp: block_holds_def)
  then have ne: "boffsets b = [] \<longleftrightarrow> es = []" by auto
  have e: "length (enc_entry (k, v, t)) = length k + length v + 12" by (simp add: enc_entry_def)
  have "block_holds (b\<lparr>boffsets := boffsets b @ [of_nat (length (bdata b))],
      bdata := bdata b @ enc_entry (k, v, t)\<rparr>) (es @ [(k, v, t)])"
    if "length k \<le> 65535" "length v \<le> 65535" "length (bdata b) \<le> 65535" "length es < 65535"
    using assms that
    by (auto simp: block_holds_def entry_offsets_append entry_fits_def unat_of_nat_u16)
  with l ne e show ?thesis
    by (auto simp: block_add_entry_def Let_def not_less not_le block_cur_size_def)
qed

section \<open>Encode and decode\<close>

lemma u16_table_length: "length (concat (map (le_write 2) (ws :: u16 list))) = 2 * length ws"
  by (induction ws) auto

lemma u16_table_nth:
  "i < length os \<Longrightarrow> u16_at (d @ concat (map (le_write 2) os) @ r) (length d + 2 * i) = os ! i"
proof -
  assume i: "i < length os"
  note len = u16_table_length
  have os: "os = take i os @ os ! i # drop (Suc i) os" by (rule id_take_nth_drop [OF i])
  let ?pre = "concat (map (le_write 2) (take i os))"
  have l: "length ?pre = 2 * i" using len [of "take i os"] i by simp
  have "concat (map (le_write 2) os) = ?pre @ le_write 2 (os ! i) @ concat (map (le_write 2) (drop (Suc i) os))"
    by (subst os) (simp only: map_append concat_append list.map concat.simps)
  then have "drop (length d + 2 * i) (d @ concat (map (le_write 2) os) @ r)
      = le_write 2 (os ! i) @ concat (map (le_write 2) (drop (Suc i) os)) @ r"
    using l by simp
  then show ?thesis by (rule u16_at_write) (use len [of os] i in simp)
qed

lemma block_roundtrip:
  assumes "length (boffsets b) \<le> 65535"
  shows "\<exists>bs. block_encode b h = Inr bs \<and> block_decode bs h = Inr (b\<lparr>bcapacity := block_cur_size b\<rparr>)"
proof -
  let ?tab = "concat (map (le_write 2) (boffsets b))"
  let ?num = "le_write 2 (of_nat (length (boffsets b)) :: u16)"
  define body where "body = bdata b @ ?tab @ ?num"
  define bs where "bs = (if h then body @ le_write 4 (crc32_compute body) else body)"
  have tab: "length ?tab = 2 * length (boffsets b)" by (rule u16_table_length)
  have lb: "length body = length (bdata b) + 2 * length (boffsets b) + 2"
    by (simp add: body_def tab)
  have "block_encode b h = Inr bs"
    using assms by (simp add: block_encode_def bs_def body_def Let_def)
  moreover have "block_decode bs h = Inr (b\<lparr>bcapacity := block_cur_size b\<rparr>)"
  proof -
    have sz: "length bs - (if h then 4 else 0) = length body" "length bs = length body + (if h then 4 else 0)"
      by (auto simp: bs_def)
    have crc: "crc32_compute (take (length body) bs) = le_read (drop (length body) bs)" if h
      using that by (simp add: bs_def le_read_write)
    obtain r where r: "bs = body @ r"
      by (rule that [of "if h then le_write 4 (crc32_compute body) else []"]) (simp add: bs_def)
    have "drop (length body - 2) bs = ?num @ r" using lb by (simp add: r body_def tab)
    then have "u16_at bs (length body - 2) = of_nat (length (boffsets b))"
      by (rule u16_at_write) (simp add: r)
    then have num: "unat (u16_at bs (length body - 2)) = length (boffsets b)"
      using assms by (simp add: unat_of_nat_u16)
    have beg: "length body - 2 - length (boffsets b) * 2 = length (bdata b)" using lb by simp
    have "u16_at bs (length (bdata b) + 2 * i) = boffsets b ! i" if "i < length (boffsets b)" for i
      using u16_table_nth [OF that, of "bdata b" "?num @ r"] by (simp add: r body_def)
    then have "map (\<lambda>i. u16_at bs (length (bdata b) + 2 * i)) [0 ..< length (boffsets b)] = boffsets b"
      by (intro nth_equalityI) simp_all
    moreover have "take (length (bdata b)) bs = bdata b" by (simp add: r body_def)
    moreover have "\<not> length bs < 2 + (if h then 4 else 0)" using sz lb by auto
    moreover have "\<not> (h \<and> crc32_compute (take (length body) bs) \<noteq> le_read (drop (length body) bs))"
      using crc by blast
    moreover have "\<not> length body - 2 < 2 * length (boffsets b)" using lb by simp
    ultimately show ?thesis
      unfolding block_decode_def Let_def sz(1) num beg by (simp add: block_cur_size_def)
  qed
  ultimately show ?thesis by blast
qed

section \<open>The checksum rejects every change of one byte\<close>

lemma crc_bit_31: "bit (crc_bit c) 31 \<longleftrightarrow> bit c 0"
proof -
  have "bit (0xEDB88320 :: u32) 31" by simp
  moreover have "\<not> bit c 32" using bit_imp_le_length [of c 32] by auto
  ultimately show ?thesis
    by (auto simp: crc_bit_def bit_simps and_one_eq odd_iff_mod_2_eq_one bit_0)
qed

lemma xor_cancel: "(a :: 'a::len word) XOR c = b XOR c \<Longrightarrow> a = b"
  by (drule arg_cong [where f = "\<lambda>x. x XOR c"]) (simp only: xor.assoc xor_self_eq xor.right_neutral)

lemma crc_bit_inj: "crc_bit c = crc_bit d \<Longrightarrow> c = d"
proof -
  assume eq: "crc_bit c = crc_bit d"
  then have b0: "bit c 0 = bit d 0" using crc_bit_31 [of c] crc_bit_31 [of d] by simp
  then have "drop_bit 1 c = drop_bit 1 d"
    using eq xor_cancel [of "drop_bit 1 c" _ "drop_bit 1 d"]
    by (auto simp: crc_bit_def and_one_eq bit_0 odd_iff_mod_2_eq_one split: if_splits)
  then have "bit c (Suc n) = bit d (Suc n)" for n
    by (metis bit_drop_bit_eq plus_1_eq_Suc comp_apply)
  with b0 show ?thesis by (intro bit_eqI) (metis not0_implies_Suc)
qed

lemma crc_bits_inj: "(crc_bit ^^ n) c = (crc_bit ^^ n) d \<Longrightarrow> c = d"
  by (induction n) (auto dest: crc_bit_inj)

lemma crc_byte_inj: "crc_byte b c = crc_byte b d \<Longrightarrow> c = d"
proof -
  assume "crc_byte b c = crc_byte b d"
  then have "c XOR ucast b = d XOR ucast b" unfolding crc_byte_def by (rule crc_bits_inj)
  then have "(c XOR ucast b) XOR ucast b = (d XOR ucast b) XOR ucast b" by simp
  then show ?thesis by (simp only: xor.assoc xor_self_eq xor.right_neutral)
qed

lemma crc_byte_inj_byte: "crc_byte a c = crc_byte b c \<Longrightarrow> a = b"
proof -
  assume "crc_byte a c = crc_byte b c"
  then have "c XOR ucast a = c XOR ucast b" unfolding crc_byte_def by (rule crc_bits_inj)
  then have "c XOR (c XOR ucast a) = c XOR (c XOR ucast b)" by simp
  then have "(ucast a :: u32) = ucast b" by (simp only: xor.assoc [symmetric] xor_self_eq xor.left_neutral)
  then have eq: "bit (ucast a :: u32) n = bit (ucast b :: u32) n" for n by simp
  show ?thesis
  proof (rule bit_word_eqI)
    fix n assume "n < LENGTH(8)"
    then show "bit a n = bit b n" using eq [of n] by (simp add: bit_ucast_iff)
  qed
qed

lemma crc_fold_inj: "fold crc_byte bs c = fold crc_byte bs d \<Longrightarrow> c = d"
  by (induction bs arbitrary: c d) (auto dest: crc_byte_inj)

lemma crc32_one_byte:
  assumes "a \<noteq> b"
  shows "crc32_compute (xs @ a # ys) \<noteq> crc32_compute (xs @ b # ys)"
proof
  assume "crc32_compute (xs @ a # ys) = crc32_compute (xs @ b # ys)"
  then have "(fold crc_byte (xs @ a # ys) 0xFFFFFFFF XOR 0xFFFFFFFF) XOR 0xFFFFFFFF
      = (fold crc_byte (xs @ b # ys) 0xFFFFFFFF XOR 0xFFFFFFFF) XOR (0xFFFFFFFF :: u32)"
    by (simp only: crc32_compute_def)
  then have "fold crc_byte ys (crc_byte a (fold crc_byte xs 0xFFFFFFFF))
      = fold crc_byte ys (crc_byte b (fold crc_byte xs 0xFFFFFFFF))"
    by (simp only: xor.assoc xor_self_eq xor.right_neutral fold_append fold.simps comp_apply)
  then show False using assms crc_fold_inj crc_byte_inj_byte by blast
qed

text \<open>A changed byte before the checksum, and one in it.\<close>

lemma body_corruption:
  assumes body: "xs @ a # ys = body @ le_write 4 (crc32_compute body)" and "4 \<le> length ys" "a' \<noteq> a"
  shows "block_decode (xs @ a' # ys) True = Inl Runtime_Error"
proof -
  define ts where "ts = take (length ys - 4) ys"
  have len: "length xs + 1 + length ys = length body + 4"
    using arg_cong [OF body, of length] by simp
  then have "length body - Suc (length xs) = length ys - 4" by simp
  have lts: "length ts = length ys - 4" by (simp add: ts_def)
  have ys: "ys = ts @ drop (length ys - 4) ys" by (simp add: ts_def)
  have "take (length body) (xs @ a # ys) = body" by (simp add: body)
  then have b: "body = xs @ a # ts"
    using len assms(2) \<open>length body - Suc (length xs) = length ys - 4\<close>
    by (simp add: ts_def take_Cons' split: if_splits)
  have "drop (length body) (xs @ a # ys) = le_write 4 (crc32_compute body)" by (simp add: body)
  then have "drop (length body) (xs @ a' # ys) = le_write 4 (crc32_compute body)"
    by (simp add: b)
  moreover have "take (length body) (xs @ a' # ys) = xs @ a' # ts"
    by (simp add: b ts_def lts [unfolded ts_def])
  moreover have "crc32_compute (xs @ a' # ts) \<noteq> crc32_compute body"
    unfolding b using crc32_one_byte [OF assms(3)] .
  moreover have "length (xs @ a' # ys) - 4 = length body" using len by simp
  ultimately show ?thesis by (simp add: block_decode_def Let_def le_read_write)
qed

lemma checksum_corruption:
  assumes body: "xs @ a # ys = body @ le_write 4 (crc32_compute body)" and "length ys < 4" "a' \<noteq> a"
  shows "block_decode (xs @ a' # ys) True = Inl Runtime_Error"
proof -
  let ?n = "length body"
  have len: "length xs + 1 + length ys = ?n + 4" using arg_cong [OF body, of length] by simp
  with assms(2) have n: "?n \<le> length xs" by simp
  have "take ?n (xs @ a # ys) = body" "drop ?n (xs @ a # ys) = le_write 4 (crc32_compute body)" by (simp_all add: body)
  then have xs: "take ?n xs = body" "drop ?n xs @ a # ys = le_write 4 (crc32_compute body)" using n by simp_all
  have "(le_read (drop ?n xs @ a' # ys) :: u32) \<noteq> crc32_compute body"
  proof
    assume "(le_read (drop ?n xs @ a' # ys) :: u32) = crc32_compute body"
    moreover have "le_write 4 (le_read (drop ?n xs @ a' # ys) :: u32) = drop ?n xs @ a' # ys"
      by (rule le_write_read) (use len n in simp_all)
    ultimately have "drop ?n xs @ a' # ys = drop ?n xs @ a # ys" using xs(2) by simp
    with assms(3) show False by simp
  qed
  moreover have "length (xs @ a' # ys) - 4 = ?n" using len by simp
  ultimately show ?thesis using n xs(1) by (simp add: block_decode_def Let_def)
qed

text \<open>C31: the checksum detects every corruption of a single byte of an encoded block, be it in the
  data, the offsets, the count or the checksum itself: decoding fails.\<close>

theorem block_decode_rejects_corruption:
  assumes "block_encode b True = Inr (xs @ a # ys)" "a' \<noteq> a"
  shows "block_decode (xs @ a' # ys) True = Inl Runtime_Error"
proof -
  obtain body where body: "xs @ a # ys = body @ le_write 4 (crc32_compute body)"
  proof -
    have "\<exists>body. xs @ a # ys = body @ le_write 4 (crc32_compute body)"
      using assms(1) unfolding block_encode_def Let_def
      by (simp split: if_splits) (metis append_assoc)
    then show thesis using that by blast
  qed
  then show ?thesis using body_corruption checksum_corruption assms(2) by (metis not_less)
qed

text \<open>C30: decoding the encoding of a block with at most 65535 entries gives the block back, with
  or without checksum; only the capacity of the result is the size of its contents.\<close>

theorem block_decode_encode:
  assumes "length (boffsets b) \<le> 65535"
  shows "\<exists>bs. block_encode b h = Inr bs \<and> block_decode bs h = Inr (b\<lparr>bcapacity := block_cur_size b\<rparr>)"
  by (rule block_roundtrip [OF assms])

section \<open>Examples\<close>

definition sample_block :: block where
  "sample_block = \<lparr>bdata = enc_entry ([1], [2], 5) @ enc_entry ([1], [3], 4) @ enc_entry ([2], [], 6),
     boffsets = [0, 14, 28], bcapacity = 100\<rparr>"

definition sample_entries :: "entry list" where
  "sample_entries = [([1], [2], 5), ([1], [3], 4), ([2], [], 6)]"

lemma sample_holds: "block_holds sample_block sample_entries"
  by (simp add: block_holds_def sample_block_def sample_entries_def enc_entry_def entry_fits_def)

lemma sample_sorted: "sorted_entries sample_entries"
  by (simp add: sample_entries_def entry_less_def version_less_def)

theorem block_decode_encode_witness:
  "\<exists>bs. block_encode sample_block True = Inr bs \<and>
    block_decode bs True = Inr (sample_block\<lparr>bcapacity := block_cur_size sample_block\<rparr>)"
  by (rule block_decode_encode) (simp add: sample_block_def)

theorem block_decode_rejects_corruption_witness:
  "block_decode ([] @ 1 # [0] @ le_write 4 (crc32_compute [0, 0])) True = Inl Runtime_Error"
  by (rule block_decode_rejects_corruption [where b = "block_new 9" and a = 0])
    (simp_all add: block_encode_def block_new_def Let_def numeral_2_eq_2)

end
