(* ===== verification/Block_Search.thy ===== *)
theory Block_Search
  imports Block
begin

text \<open>
  Correctness of the searches of the block on sorted blocks: the binary search with the
  version choice returns the index of the newest readable record of the key, and the two
  predicate searches delimit exactly the records on which the predicate is 0.
\<close>

primrec index_of :: "(entry \<Rightarrow> bool) \<Rightarrow> entry list \<Rightarrow> nat \<Rightarrow> nat option" where
  "index_of P [] n = None"
| "index_of P (e # es) n = (if P e then Some n else index_of P es (Suc n))"

definition block_hit :: "bytes \<Rightarrow> u64 \<Rightarrow> abort_check \<Rightarrow> entry \<Rightarrow> bool" where
  "block_hit k bound ab e \<longleftrightarrow> ekey e = k \<and> readable bound ab (etid e)"

lemma index_of_None: "index_of P es n = None \<longleftrightarrow> (\<forall>e \<in> set es. \<not> P e)"
  by (induction es arbitrary: n) auto

lemma index_of_find: "find P es = map_option (\<lambda>i. es ! (i - n)) (index_of P es n)"
proof (induction es arbitrary: n)
  case (Cons e es)
  have ge: "Suc n \<le> i" if "index_of P es (Suc n) = Some i" for i
    using that by (induction es arbitrary: n) (force split: if_splits)+
  show ?case
  proof (cases "P e")
    case False
    have "map_option (\<lambda>i. es ! (i - Suc n)) (index_of P es (Suc n))
        = map_option (\<lambda>i. (e # es) ! (i - n)) (index_of P es (Suc n))"
      by (cases "index_of P es (Suc n)") (auto simp: nth_Cons' dest!: ge)
    with False Cons [of "Suc n"] show ?thesis by simp
  qed simp
qed simp

lemma index_of_bounds: "index_of P es n = Some i \<Longrightarrow> n \<le> i \<and> i < n + length es"
  by (induction es arbitrary: n) (force split: if_splits)+

lemma index_of_skip:
  "(\<And>j. j < m \<Longrightarrow> j < length es \<Longrightarrow> \<not> P (es ! j)) \<Longrightarrow> m \<le> length es \<Longrightarrow>
   index_of P es n = index_of P (drop m es) (n + m)"
proof (induction m arbitrary: es n)
  case (Suc m)
  then obtain e es' where es: "es = e # es'" by (cases es) auto
  have "\<not> P e" using Suc.prems(1) [of 0] es by simp
  moreover have "index_of P es' (Suc n) = index_of P (drop m es') (Suc n + m)"
    using Suc.prems(1) [of "Suc j" for j] Suc.prems(2) es by (intro Suc.IH) auto
  ultimately show ?case by (simp add: es)
qed simp

lemma sorted_nth_key:
  "sorted_entries es \<Longrightarrow> i \<le> j \<Longrightarrow> j < length es \<Longrightarrow> ekey (es ! i) \<le> ekey (es ! j)"
  using sorted_entries_keys [of es] sorted_nth_mono [of "map ekey es" i j] by simp

lemma holds_same_key:
  assumes "block_holds b es"
  shows "block_is_same_key b i k = Inr (i < length es \<and> ekey (es ! i) = k)"
  using holds_read(1) [OF assms, of i] holds_length [OF assms] by (simp add: block_is_same_key_def)

lemma group_start_spec:
  assumes "block_holds b es" "i < length es" "ekey (es ! i) = k"
  shows "\<exists>s. group_start b k i = Inr s \<and> s \<le> i \<and> ekey (es ! s) = k \<and> (s = 0 \<or> ekey (es ! (s - 1)) \<noteq> k)"
  using assms(2,3)
proof (induction i)
  case (Suc i)
  show ?case
  proof (cases "ekey (es ! i) = k")
    case True
    with Suc show ?thesis by (auto simp: holds_same_key [OF assms(1)] intro: le_SucI)
  next
    case False
    with Suc.prems show ?thesis by (auto simp: holds_same_key [OF assms(1)])
  qed
qed simp

lemma group_scan_spec:
  assumes "block_holds b es" "sorted_entries es" "idx \<le> length es"
    "\<And>j. idx \<le> j \<Longrightarrow> j < length es \<Longrightarrow> k \<le> ekey (es ! j)"
  shows "group_scan (length es - idx) b k bound ab idx =
    Inr (case index_of (block_hit k bound ab) (drop idx es) idx of None \<Rightarrow> - 1 | Some i \<Rightarrow> int i)"
  using assms(3,4)
proof (induction "length es - idx" arbitrary: idx)
  case 0
  then show ?case by simp
next
  case (Suc n)
  have idx: "idx < length es" using Suc(2) by simp
  have n: "n = length es - Suc idx" using Suc(2) by simp
  have d: "drop idx es = es ! idx # drop (Suc idx) es" using idx by (simp add: Cons_nth_drop_Suc)
  have IH: "group_scan n b k bound ab (Suc idx) =
      Inr (case index_of (block_hit k bound ab) (drop (Suc idx) es) (Suc idx) of None \<Rightarrow> - 1 | Some i \<Rightarrow> int i)"
    unfolding n using Suc(1) [OF n] idx Suc(4) by simp
  show ?case
  proof (cases "ekey (es ! idx) = k")
    case True
    then show ?thesis
      unfolding Suc(2) [symmetric]
      by (auto simp: holds_same_key [OF assms(1)] idx holds_read [OF assms(1) idx] IH d
          block_hit_def readable_def)
  next
    case False
    with Suc(4) [of idx] idx have "k < ekey (es ! idx)" by simp
    then have "k < ekey e" if "e \<in> set (drop idx es)" for e
    proof -
      from that obtain j where "e = es ! (idx + j)" "idx + j < length es"
        by (auto simp: in_set_conv_nth)
      then show ?thesis using sorted_nth_key [OF assms(2), of idx "idx + j"] \<open>k < ekey (es ! idx)\<close> by auto
    qed
    then have "index_of (block_hit k bound ab) (drop idx es) idx = None"
      unfolding index_of_None block_hit_def by blast
    with False show ?thesis
      unfolding Suc(2) [symmetric] by (simp add: holds_same_key [OF assms(1)])
  qed
qed

lemma block_adjust_spec:
  assumes "block_holds b es" "sorted_entries es" "i < length es" "ekey (es ! i) = k"
  shows "block_adjust_idx_by_tranc_id b i bound ab =
    Inr (case index_of (block_hit k bound ab) es 0 of None \<Rightarrow> - 1 | Some i \<Rightarrow> int i)"
proof -
  obtain s where s: "group_start b k i = Inr s" "s \<le> i" "ekey (es ! s) = k"
    "s = 0 \<or> ekey (es ! (s - 1)) \<noteq> k"
    using group_start_spec [OF assms(1,3,4)] by blast
  have before: "ekey (es ! j) < k" if "j < s" for j
  proof -
    have "ekey (es ! (s - 1)) \<noteq> k" using s(4) that by auto
    moreover have "ekey (es ! (s - 1)) \<le> ekey (es ! s)"
      using s(2) assms(3) by (intro sorted_nth_key [OF assms(2)]) auto
    moreover have "ekey (es ! j) \<le> ekey (es ! (s - 1))"
      using that s(2) assms(3) by (intro sorted_nth_key [OF assms(2)]) auto
    ultimately show ?thesis using s(3) by auto
  qed
  have I: "index_of (block_hit k bound ab) es 0 = index_of (block_hit k bound ab) (drop s es) s"
    using index_of_skip [of s es "block_hit k bound ab" 0] before s(2) assms(3)
    by (force simp: block_hit_def)
  show ?thesis
  proof (cases "bound = 0 \<and> ab = None")
    case True
    have "drop s es = es ! s # drop (Suc s) es" using s(2) assms(3) by (simp add: Cons_nth_drop_Suc)
    with True s I assms(3,4) show ?thesis
      by (simp add: block_adjust_idx_by_tranc_id_def holds_length [OF assms(1)]
          holds_read [OF assms(1,3)] block_hit_def)
  next
    case False
    have "k \<le> ekey (es ! j)" if "s \<le> j" "j < length es" for j
      using sorted_nth_key [OF assms(2) that] s(3) by simp
    then have "group_scan (length es - s) b k bound ab s =
        Inr (case index_of (block_hit k bound ab) (drop s es) s of None \<Rightarrow> - 1 | Some i \<Rightarrow> int i)"
      using s(2) assms(3) by (intro group_scan_spec [OF assms(1,2)]) simp_all
    with s(1) I assms(3,4) show ?thesis
      unfolding block_adjust_idx_by_tranc_id_def if_not_P [OF False]
      by (simp add: holds_length [OF assms(1)] holds_read [OF assms(1,3)])
  qed
qed

lemma search_key_spec:
  assumes "block_holds b es" "sorted_entries es" "right \<le> length es"
    "\<And>j. j < left \<Longrightarrow> j < length es \<Longrightarrow> ekey (es ! j) < k"
    "\<And>j. right \<le> j \<Longrightarrow> j < length es \<Longrightarrow> k < ekey (es ! j)"
  shows "search_key b k bound ab left right = Inr (index_of (block_hit k bound ab) es 0)"
  using assms
proof (induction b k bound ab left right rule: search_key.induct)
  case (1 b k bound ab left right)
  show ?case
  proof (cases "left < right")
    case False
    have "\<not> block_hit k bound ab (es ! j)" if "j < length es" for j
      using 1(6,7) [of j] that False by (cases "j < left") (auto simp: block_hit_def)
    then have "index_of (block_hit k bound ab) es 0 = None"
      unfolding index_of_None by (metis in_set_conv_nth)
    with False show ?thesis by (simp add: search_key.simps)
  next
    case True
    define mid where "mid = left + (right - left) div 2"
    have mid: "mid < right" "left \<le> mid" using True by (auto simp: mid_def)
    then have ml: "mid < length es" using 1(5) by simp
    then have off: "vec_at (boffsets b) mid = Inr (boffsets b ! mid)" by (simp add: holds_length [OF 1(3)])
    have key: "block_compare_key_at b (unat (boffsets b ! mid)) k = Inr (str_compare (ekey (es ! mid)) k)"
      using holds_read(1) [OF 1(3) ml] by (simp add: block_compare_key_at_def)
    consider (eq) "ekey (es ! mid) = k" | (gt) "k < ekey (es ! mid)" | (lt) "ekey (es ! mid) < k"
      by fastforce
    then show ?thesis
    proof cases
      case eq
      have "block_adjust_idx_by_tranc_id b mid bound ab =
          Inr (case index_of (block_hit k bound ab) es 0 of None \<Rightarrow> - 1 | Some i \<Rightarrow> int i)"
        by (rule block_adjust_spec [OF 1(3,4) ml eq])
      with eq True key show ?thesis
        by (subst search_key.simps)
          (simp add: Let_def mid_def [symmetric] off str_compare_def split: option.split)
    next
      case gt
      have "search_key b k bound ab left mid = Inr (index_of (block_hit k bound ab) es 0)"
        using True mid gt key 1(3-6) sorted_nth_key [OF 1(4)]
        by (intro 1(1) [OF True mid_def off, of 1]) (auto simp: str_compare_def intro: order.strict_trans2)
      with gt True key show ?thesis
        by (subst search_key.simps) (auto simp: Let_def mid_def [symmetric] off str_compare_def)
    next
      case lt
      have "search_key b k bound ab (mid + 1) right = Inr (index_of (block_hit k bound ab) es 0)"
        using True mid ml lt key 1(3-5,7) sorted_nth_key [OF 1(4)]
        by (intro 1(2) [OF True mid_def off, of "- 1"]) (auto simp: str_compare_def less_Suc_eq_le intro: order.strict_trans1 [OF _ lt])
      with lt True key show ?thesis
        by (subst search_key.simps) (auto simp: Let_def mid_def [symmetric] off str_compare_def)
    qed
  qed
qed

lemma block_get_idx_binary_spec:
  assumes "block_holds b es" "sorted_entries es"
  shows "block_get_idx_binary b k bound ab = Inr (index_of (block_hit k bound ab) es 0)"
  unfolding block_get_idx_binary_def holds_length [OF assms(1)]
  by (rule search_key_spec [OF assms]) auto

lemma block_get_value_binary_spec:
  assumes "block_holds b es" "sorted_entries es"
  shows "block_get_value_binary b k bound ab =
    Inr (map_option evalue (find (\<lambda>e. ekey e = k \<and> readable bound ab (etid e)) es))"
proof -
  have hit: "(\<lambda>e. ekey e = k \<and> readable bound ab (etid e)) = block_hit k bound ab"
    by (auto simp: block_hit_def)
  show ?thesis
  proof (cases "index_of (block_hit k bound ab) es 0")
    case None
    then show ?thesis
      unfolding hit index_of_find [of _ es 0] block_get_value_binary_def
        block_get_idx_binary_spec [OF assms] by simp
  next
    case (Some i)
    with index_of_bounds [OF this] holds_read(2) [OF assms(1), of i] holds_length [OF assms(1)] show ?thesis
      unfolding hit index_of_find [of _ es 0] block_get_value_binary_def
        block_get_idx_binary_spec [OF assms] by simp
  qed
qed

section \<open>Predicate zones\<close>

lemma search_zone_spec:
  assumes "block_holds b es" "sorted_entries es" "monotone_predicate pred" "right \<le> length es" "left \<le> right"
    "\<And>j. j < left \<Longrightarrow> c (pred (ekey (es ! j)))"
    "\<And>j. right \<le> j \<Longrightarrow> j < length es \<Longrightarrow> \<not> c (pred (ekey (es ! j)))"
    and c: "c = (\<lambda>p. if first then 0 < p else 0 \<le> p)"
  shows "\<exists>r. search_zone b pred first left right = Inr r \<and> left \<le> r \<and> r \<le> right \<and>
    (\<forall>j < r. c (pred (ekey (es ! j)))) \<and> (\<forall>j. r \<le> j \<longrightarrow> j < length es \<longrightarrow> \<not> c (pred (ekey (es ! j))))"
  using assms(1-7)
proof (induction "right - left" arbitrary: left right rule: less_induct)
  case less
  have down: "c (pred (ekey (es ! i)))" if "c (pred (ekey (es ! j)))" "i \<le> j" "j < length es" for i j
    using assms(3) sorted_nth_key [OF less(3) that(2,3)] that(1)
    unfolding monotone_predicate_def c by (auto split: if_splits) force
  show ?case
  proof (cases "left < right")
    case False
    then have "left = right" using less(6) by simp
    with less(7,8) False show ?thesis by (auto simp: search_zone.simps)
  next
    case True
    define mid where "mid = left + (right - left) div 2"
    have mid: "mid < right" "left \<le> mid" using True by (auto simp: mid_def)
    then have ml: "mid < length es" using less(5) by simp
    note key = holds_read(1) [OF less(2) ml]
    have off: "vec_at (boffsets b) mid = Inr (boffsets b ! mid)" using ml by (simp add: holds_length [OF less(2)])
    show ?thesis
    proof (cases "c (pred (ekey (es ! mid)))")
      case True
      have "\<exists>r. search_zone b pred first (mid + 1) right = Inr r \<and> mid + 1 \<le> r \<and> r \<le> right \<and>
          (\<forall>j < r. c (pred (ekey (es ! j)))) \<and> (\<forall>j. r \<le> j \<longrightarrow> j < length es \<longrightarrow> \<not> c (pred (ekey (es ! j))))"
        using mid ml less(2-5,8) down [OF True] by (intro less(1)) auto
      moreover have "search_zone b pred first left right = search_zone b pred first (mid + 1) right"
        using True \<open>left < right\<close> key
        by (subst search_zone.simps) (auto simp: Let_def mid_def [symmetric] off c split: if_splits)
      ultimately show ?thesis using mid by auto
    next
      case False
      have "\<exists>r. search_zone b pred first left mid = Inr r \<and> left \<le> r \<and> r \<le> mid \<and>
          (\<forall>j < r. c (pred (ekey (es ! j)))) \<and> (\<forall>j. r \<le> j \<longrightarrow> j < length es \<longrightarrow> \<not> c (pred (ekey (es ! j))))"
        using mid ml less(2-4,7) False down by (intro less(1)) auto
      moreover have "search_zone b pred first left right = search_zone b pred first left mid"
        using False \<open>left < right\<close> key
        by (subst search_zone.simps) (auto simp: Let_def mid_def [symmetric] off c split: if_splits)
      ultimately show ?thesis using mid by auto
    qed
  qed
qed

text \<open>The zone is exactly the records on which the predicate is 0.\<close>

lemma block_predicate_zone_spec:
  assumes "block_holds b es" "sorted_entries es" "monotone_predicate pred"
  shows "\<exists>r. block_predicate_zone b pred = Inr r \<and>
    (case r of
       None \<Rightarrow> \<forall>e \<in> set es. pred (ekey e) \<noteq> 0
     | Some (first, stop) \<Rightarrow> first < stop \<and> stop \<le> length es \<and>
         (\<forall>j < length es. pred (ekey (es ! j)) = 0 \<longleftrightarrow> first \<le> j \<and> j < stop))"
proof (cases "es = []")
  case True
  then show ?thesis using holds_length [OF assms(1)] by (simp add: block_predicate_zone_def)
next
  case False
  have len: "length (boffsets b) = length es" by (rule holds_length [OF assms(1)])
  then have ne: "boffsets b \<noteq> []" using False by auto
  have "\<exists>l. search_zone b pred True 0 (length es) = Inr l \<and> 0 \<le> l \<and> l \<le> length es \<and>
      (\<forall>j < l. 0 < pred (ekey (es ! j))) \<and> (\<forall>j. l \<le> j \<longrightarrow> j < length es \<longrightarrow> \<not> 0 < pred (ekey (es ! j)))"
    by (rule search_zone_spec [OF assms, of "length es" 0 "\<lambda>p. 0 < p" True]) simp_all
  then obtain l where l: "search_zone b pred True 0 (length es) = Inr l" "l \<le> length es"
    "\<And>j. j < l \<Longrightarrow> 0 < pred (ekey (es ! j))" "\<And>j. l \<le> j \<Longrightarrow> j < length es \<Longrightarrow> pred (ekey (es ! j)) \<le> 0"
    unfolding not_less by blast
  have neg: "pred (ekey (es ! j)) < 0" if "l \<le> j" "j < length es" "pred (ekey (es ! l)) < 0" for j
    using assms(3) sorted_nth_key [OF assms(2) that(1,2)] that(3)
    unfolding monotone_predicate_def by blast
  show ?thesis
  proof (cases "l < length es \<and> pred (ekey (es ! l)) = 0")
    case True
    have "\<exists>r. search_zone b pred False l (length es) = Inr r \<and> l \<le> r \<and> r \<le> length es \<and>
        (\<forall>j < r. 0 \<le> pred (ekey (es ! j))) \<and> (\<forall>j. r \<le> j \<longrightarrow> j < length es \<longrightarrow> \<not> 0 \<le> pred (ekey (es ! j)))"
      by (rule search_zone_spec [OF assms, of "length es" l "\<lambda>p. 0 \<le> p" False])
        (use l(2) order.strict_implies_order [OF l(3)] in simp_all)
    then obtain r where r: "search_zone b pred False l (length es) = Inr r" "l \<le> r" "r \<le> length es"
      "\<And>j. j < r \<Longrightarrow> 0 \<le> pred (ekey (es ! j))" "\<And>j. r \<le> j \<Longrightarrow> j < length es \<Longrightarrow> pred (ekey (es ! j)) < 0"
      unfolding not_le by blast
    have "l < r" using r(5) [of l] r(2) True by (cases "l = r") auto
    moreover have "pred (ekey (es ! j)) = 0 \<longleftrightarrow> l \<le> j \<and> j < r" if j: "j < length es" for j
    proof
      assume z: "pred (ekey (es ! j)) = 0"
      have "\<not> j < l" using l(3) [of j] unfolding z by blast
      moreover have "\<not> r \<le> j" using r(5) [of j] j unfolding z by blast
      ultimately show "l \<le> j \<and> j < r" by linarith
    next
      assume "l \<le> j \<and> j < r"
      with l(4) [of j] r(4) [of j] j show "pred (ekey (es ! j)) = 0"
        by (intro order.antisym) blast+
    qed
    moreover have "block_predicate_zone b pred = Inr (Some (l, r))"
      using ne len l(1) r(1) True holds_read(1) [OF assms(1), of l]
      by (simp add: block_predicate_zone_def)
    ultimately show ?thesis using r(3) by auto
  next
    case False
    have "block_predicate_zone b pred = Inr None"
      using ne len l(1) False holds_read(1) [OF assms(1), of l]
      by (auto simp: block_predicate_zone_def not_le)
    moreover have "pred (ekey (es ! j)) \<noteq> 0" if "j < length es" for j
    proof (cases "j < l")
      case True
      with l(3) [of j] show ?thesis by simp
    next
      case nl: False
      then have "l < length es" using that by simp
      with False l(4) [of l] have "pred (ekey (es ! l)) < 0" by auto
      with neg [of j] nl that show ?thesis by auto
    qed
    then have "\<forall>e \<in> set es. pred (ekey e) \<noteq> 0" by (metis in_set_conv_nth)
    ultimately show ?thesis by simp
  qed
qed

section \<open>The life of a block\<close>

text \<open>Entries are added one by one, each with its \<open>force_write\<close> flag, until one is
  refused.\<close>

primrec block_fill :: "block \<Rightarrow> (entry \<times> bool) list \<Rightarrow> block result" where
  "block_fill b [] = Inr b"
| "block_fill b (ef # efs) =
     ebind (block_add_entry b (ekey (fst ef)) (evalue (fst ef)) (etid (fst ef)) (snd ef))
       (\<lambda>(ok, b'). if ok then block_fill b' efs else Inl Out_Of_Range)"

lemma block_fill_holds:
  "block_holds b es \<Longrightarrow> block_fill b efs = Inr b' \<Longrightarrow> block_holds b' (es @ map fst efs)"
proof (induction efs arbitrary: b es)
  case (Cons ef efs)
  obtain k v t f where ef: "ef = ((k, v, t), f)" by (metis prod.exhaust)
  obtain b1 where b1: "block_add_entry b k v t f = Inr (True, b1)" "block_fill b1 efs = Inr b'"
    using Cons.prems(2) by (auto simp: ef ebind_Inr_conv split: if_splits)
  have "block_holds b1 (es @ [(k, v, t)])"
    using block_add_entry_cases [OF Cons.prems(1), of k v t f] by (simp add: b1(1))
  from Cons.IH [OF this b1(2)] show ?case by (simp add: ef)
qed simp

lemma block_decoded_holds:
  assumes "block_holds b es"
  shows "\<exists>bs b'. block_encode b h = Inr bs \<and> block_decode bs h = Inr b' \<and> block_holds b' es"
proof -
  have "length (boffsets b) \<le> 65535" using holds_length [OF assms] assms by (simp add: block_holds_def)
  from block_roundtrip [OF this, of h] assms show ?thesis by (auto simp: block_holds_def)
qed

text \<open>C19: a block that is filled with sorted records, encoded, stored and decoded answers every
  point lookup, with any version bound and abort check, with the value of the first readable
  record of the key, which is its newest readable version.\<close>

theorem block_life_lookup:
  assumes "block_fill (block_new cap) efs = Inr b" "sorted_entries (map fst efs)"
  shows "\<exists>bs b'. block_encode b h = Inr bs \<and> block_decode bs h = Inr b' \<and>
    (\<forall>k bound ab. block_get_value_binary b' k bound ab =
       Inr (map_option evalue (find (\<lambda>e. ekey e = k \<and> readable bound ab (etid e)) (map fst efs))))"
proof -
  have "block_holds b (map fst efs)"
    using block_fill_holds [OF block_new_holds assms(1)] by simp
  from block_decoded_holds [OF this, of h] block_get_value_binary_spec [OF _ assms(2)]
  show ?thesis by blast
qed

theorem block_life_lookup_witness:
  "\<exists>b bs b'. block_fill (block_new 32) [(([1], [2], 5), False), (([1], [3], 4), True)] = Inr b \<and>
    block_encode b True = Inr bs \<and> block_decode bs True = Inr b' \<and>
    block_get_value_binary b' [1] 4 None = Inr (Some [3])"
proof -
  let ?efs = "[(([1], [2], 5), False), (([1], [3], 4), True)] :: (entry \<times> bool) list"
  have s: "sorted_entries (map fst ?efs)" by (simp add: entry_less_def version_less_def)
  obtain b where b: "block_fill (block_new 32) ?efs = Inr b"
    by (simp add: block_add_entry_def block_new_def Let_def enc_entry_def)
  obtain bs b' where d: "block_encode b True = Inr bs" "block_decode bs True = Inr b'"
    "block_get_value_binary b' [1] 4 None =
       Inr (map_option evalue (find (\<lambda>e. ekey e = [1] \<and> readable 4 None (etid e)) (map fst ?efs)))"
    using block_life_lookup [OF b s, of True] by blast
  have "block_get_value_binary b' [1] 4 None = Inr (Some [3])"
    unfolding d(3) by (simp add: readable_def)
  with b d(1,2) show ?thesis by blast
qed

text \<open>C29: the range search of a block finds no zone exactly when no record hits the monotone
  predicate; otherwise the zone it returns is non-empty and its positions are exactly the hits.\<close>

theorem block_zone_exact:
  assumes "block_holds b es" "sorted_entries es" "monotone_predicate pred"
  shows "\<exists>r. block_predicate_zone b pred = Inr r \<and>
    (case r of
       None \<Rightarrow> \<forall>e \<in> set es. pred (ekey e) \<noteq> 0
     | Some (first, stop) \<Rightarrow> first < stop \<and> stop \<le> length es \<and>
         (\<forall>j < length es. pred (ekey (es ! j)) = 0 \<longleftrightarrow> first \<le> j \<and> j < stop))"
  by (rule block_predicate_zone_spec [OF assms])

theorem block_zone_exact_witness:
  "\<exists>z. block_predicate_zone sample_block (\<lambda>k. if k = [1] then 0 else if k < [1] then 1 else - 1) = Inr (Some z) \<and>
    fst z < snd z"
proof -
  let ?p = "\<lambda>k. if k = [1] then 0 else if k < [1 :: byte] then 1 else - 1 :: int"
  have m: "monotone_predicate ?p"
    unfolding monotone_predicate_def by (auto dest: order.strict_trans1 order.strict_trans2)
  obtain r where r: "block_predicate_zone sample_block ?p = Inr r"
    "case r of None \<Rightarrow> \<forall>e \<in> set sample_entries. ?p (ekey e) \<noteq> 0
     | Some (first, stop) \<Rightarrow> first < stop \<and> stop \<le> length sample_entries \<and>
         (\<forall>j < length sample_entries. ?p (ekey (sample_entries ! j)) = 0 \<longleftrightarrow> first \<le> j \<and> j < stop)"
    using block_zone_exact [OF sample_holds sample_sorted m] by blast
  show ?thesis
  proof (cases r)
    case None
    have "([1], [2], 5) \<in> set sample_entries" by (simp add: sample_entries_def)
    with r(2) None show ?thesis by fastforce
  next
    case (Some z)
    with r show ?thesis by (cases z) auto
  qed
qed

end
