(* ===== verification/BlockIterator.thy ===== *)
theory BlockIterator
  imports Block_Search
begin

text \<open>
  The block iterator of src/src/block/block_iterator.cpp: positioning, the skipping of
  unreadable versions, the removal of older versions of a key, comparison, and the range
  iterators of the block. The shared pointer to the block is its address together with the
  (immutable) block it points to.
\<close>

section \<open>The iterator\<close>

record block_iter =
  bi_block :: "(nat \<times> block) option"
  bi_index :: nat
  bi_tid :: u64
  bi_keep_all :: bool
  bi_is_aborted :: abort_check

function skip_unreadable :: "block \<Rightarrow> u64 \<Rightarrow> abort_check \<Rightarrow> nat \<Rightarrow> nat result" where
  "skip_unreadable b t ab idx =
     (if idx < block_size b then
        ebind (block_get_offset_at b idx) (\<lambda>offset.
        ebind (block_get_tranc_id_at b offset) (\<lambda>version.
          if (t = 0 \<or> version \<le> t) \<and> \<not> aborted_by ab version then Inr idx
          else skip_unreadable b t ab (Suc idx)))
      else Inr idx)"
  by pat_completeness auto
termination by (relation "measure (\<lambda>(b, t, ab, idx). block_size b - idx)") auto

declare skip_unreadable.simps [simp del]

definition biter_skip_by_tranc_id :: "block_iter \<Rightarrow> block_iter result" where
  "biter_skip_by_tranc_id it = (case bi_block it of
      None \<Rightarrow> Inr it
    | Some (_, b) \<Rightarrow>
        if bi_tid it = 0 \<and> bi_is_aborted it = None then Inr it
        else ebind (skip_unreadable b (bi_tid it) (bi_is_aborted it) (bi_index it))
               (\<lambda>i. Inr (it\<lparr>bi_index := i\<rparr>)))"

definition biter_new ::
  "(nat \<times> block) option \<Rightarrow> nat \<Rightarrow> u64 \<Rightarrow> bool \<Rightarrow> abort_check \<Rightarrow> block_iter result" where
  "biter_new blk index t keep ab =
     biter_skip_by_tranc_id \<lparr>bi_block = blk, bi_index = index, bi_tid = t, bi_keep_all = keep,
       bi_is_aborted = ab\<rparr>"

definition biter_at_key ::
  "(nat \<times> block) option \<Rightarrow> bytes \<Rightarrow> u64 \<Rightarrow> bool \<Rightarrow> abort_check \<Rightarrow> block_iter result" where
  "biter_at_key blk k t keep ab = (case blk of
      None \<Rightarrow> Inl Invalid_Argument
    | Some (_, b) \<Rightarrow>
        ebind (block_get_idx_binary b k t ab) (\<lambda>idx.
          Inr \<lparr>bi_block = blk, bi_index = (case idx of None \<Rightarrow> block_size b | Some i \<Rightarrow> i),
               bi_tid = t, bi_keep_all = keep, bi_is_aborted = ab\<rparr>))"

function skip_same_key :: "block \<Rightarrow> bytes \<Rightarrow> nat \<Rightarrow> nat result" where
  "skip_same_key b k idx =
     (if idx < block_size b then
        ebind (block_is_same_key b idx k) (\<lambda>same.
          if same then skip_same_key b k (Suc idx) else Inr idx)
      else Inr idx)"
  by pat_completeness auto
termination by (relation "measure (\<lambda>(b, k, idx). block_size b - idx)") auto

declare skip_same_key.simps [simp del]

definition biter_next :: "block_iter \<Rightarrow> block_iter result" where
  "biter_next it = (case bi_block it of
      None \<Rightarrow> Inr it
    | Some (_, b) \<Rightarrow>
        if block_size b \<le> bi_index it then Inr it
        else
          ebind (block_get_offset_at b (bi_index it)) (\<lambda>prev_offset.
          ebind (block_get_key_at b prev_offset) (\<lambda>prev_key.
          ebind (if bi_keep_all it then Inr (Suc (bi_index it))
                 else skip_same_key b prev_key (Suc (bi_index it))) (\<lambda>i.
            biter_skip_by_tranc_id (it\<lparr>bi_index := i\<rparr>)))))"

definition biter_eq :: "block_iter \<Rightarrow> block_iter \<Rightarrow> bool" where
  "biter_eq x y = (case (bi_block x, bi_block y) of
      (None, None) \<Rightarrow> True
    | (Some (p, _), Some (q, _)) \<Rightarrow> p = q \<and> bi_index x = bi_index y
    | _ \<Rightarrow> False)"

definition biter_deref :: "block_iter \<Rightarrow> (bytes \<times> bytes) result" where
  "biter_deref it = (case bi_block it of
      None \<Rightarrow> Inl Out_Of_Range
    | Some (_, b) \<Rightarrow>
        if block_size b \<le> bi_index it then Inl Out_Of_Range
        else ebind (block_get_offset_at b (bi_index it)) (\<lambda>offset.
             ebind (block_get_key_at b offset) (\<lambda>k.
             ebind (block_get_value_at b offset) (\<lambda>v. Inr (k, v)))))"

definition biter_get_cur_tranc_id :: "block_iter \<Rightarrow> u64 result" where
  "biter_get_cur_tranc_id it = (case bi_block it of
      None \<Rightarrow> Inr 0
    | Some (_, b) \<Rightarrow>
        if block_size b \<le> bi_index it then Inr 0
        else ebind (block_get_offset_at b (bi_index it)) (\<lambda>offset. block_get_tranc_id_at b offset))"

text \<open>The code dereferences the block here without a check.\<close>

definition biter_is_end :: "block_iter \<Rightarrow> bool result" where
  "biter_is_end it = (case bi_block it of None \<Rightarrow> Inl Undefined
     | Some (_, b) \<Rightarrow> Inr (bi_index it = block_size b))"

section \<open>The iterators a block hands out\<close>

definition block_begin :: "nat \<times> block \<Rightarrow> u64 \<Rightarrow> abort_check \<Rightarrow> block_iter result" where
  "block_begin p t ab = biter_new (Some p) 0 t False ab"

definition block_end :: "nat \<times> block \<Rightarrow> block_iter result" where
  "block_end p = biter_new (Some p) (block_size (snd p)) 0 False None"

definition block_get_monotony_predicate_iters ::
  "nat \<times> block \<Rightarrow> u64 \<Rightarrow> (bytes \<Rightarrow> int) \<Rightarrow> abort_check \<Rightarrow> (block_iter \<times> block_iter) option result" where
  "block_get_monotony_predicate_iters p t pred ab =
     ebind (block_predicate_zone (snd p) pred) (\<lambda>zone. case zone of
         None \<Rightarrow> Inr None
       | Some (first, end_idx) \<Rightarrow>
           ebind (biter_new (Some p) first t False ab) (\<lambda>i.
           ebind (biter_new (Some p) end_idx t False ab) (\<lambda>j. Inr (Some (i, j)))))"

text \<open>\<open>key.compare(0, n, prefix)\<close> compares the first \<open>n\<close> characters.\<close>

definition preffix_predicate :: "bytes \<Rightarrow> bytes \<Rightarrow> int" where
  "preffix_predicate preffix key = - str_compare (take (length preffix) key) preffix"

definition block_iters_preffix ::
  "nat \<times> block \<Rightarrow> u64 \<Rightarrow> bytes \<Rightarrow> abort_check \<Rightarrow> (block_iter \<times> block_iter) option result" where
  "block_iters_preffix p t preffix ab =
     block_get_monotony_predicate_iters p t (preffix_predicate preffix) ab"

text \<open>The client's loop from \<open>it\<close> to \<open>stop\<close>; \<open>n\<close> bounds the number of steps.\<close>

primrec biter_run :: "nat \<Rightarrow> block_iter \<Rightarrow> block_iter \<Rightarrow> entry list result" where
  "biter_run 0 it stop = (if biter_eq it stop then Inr [] else Inl Diverges)"
| "biter_run (Suc n) it stop =
     (if biter_eq it stop then Inr []
      else ebind (biter_deref it) (\<lambda>kv.
           ebind (biter_get_cur_tranc_id it) (\<lambda>t.
           ebind (biter_next it) (\<lambda>it'.
           ebind (biter_run n it' stop) (\<lambda>es. Inr ((fst kv, snd kv, t) # es))))))"

section \<open>The view of a reader\<close>

function dedup :: "entry list \<Rightarrow> entry list" where
  "dedup [] = []"
| "dedup (e # es) = e # dedup (dropWhile (\<lambda>x. ekey x = ekey e) es)"
  by pat_completeness auto
termination by (relation "measure length") (auto simp: le_imp_less_Suc length_dropWhile_le)

definition reader_view :: "bool \<Rightarrow> u64 \<Rightarrow> abort_check \<Rightarrow> entry list \<Rightarrow> entry list" where
  "reader_view keep t ab es =
     (let vs = filter (\<lambda>e. readable t ab (etid e)) es in if keep then vs else dedup vs)"

lemma sorted_filter_keys: "sorted (map ekey es) \<Longrightarrow> sorted (map ekey (filter P es))"
  by (induction es) auto

lemma sorted_dropWhile_keys: "sorted (map ekey es) \<Longrightarrow> sorted (map ekey (dropWhile P es))"
  by (induction es) auto

lemma dropWhile_key_greater:
  assumes "sorted (map ekey (e # es))" "x \<in> set (dropWhile (\<lambda>x. ekey x = ekey e) es)"
  shows "ekey e < ekey x"
proof -
  let ?d = "dropWhile (\<lambda>x. ekey x = ekey e) es"
  from assms(2) obtain y ys where d: "?d = y # ys" by (cases ?d) auto
  have "ekey y \<noteq> ekey e" using hd_dropWhile [of "\<lambda>x. ekey x = ekey e" es] d by simp
  moreover have "y \<in> set es" using set_dropWhileD [of y "\<lambda>x. ekey x = ekey e" es] d by simp
  moreover have "ekey y \<le> ekey x"
    using sorted_dropWhile_keys [of es "\<lambda>x. ekey x = ekey e"] assms d by auto
  ultimately show ?thesis using assms(1) by (auto intro: order.strict_trans2 order.not_eq_order_implies_strict)
qed

text \<open>The first record of each key survives, so a reader sees the newest readable version.\<close>

lemma find_dedup: "sorted (map ekey es) \<Longrightarrow> find (\<lambda>e. ekey e = k) (dedup es) = find (\<lambda>e. ekey e = k) es"
proof (induction es rule: dedup.induct)
  case (2 e es)
  let ?d = "dropWhile (\<lambda>x. ekey x = ekey e) es"
  have "find (\<lambda>x. ekey x = k) ?d = find (\<lambda>x. ekey x = k) es" if "k \<noteq> ekey e"
    using that by (induction es) auto
  with 2 show ?case using sorted_dropWhile_keys [of es] by auto
qed simp

lemma find_filter: "find P (filter Q es) = find (\<lambda>e. P e \<and> Q e) es"
  by (induction es) auto

lemma dedup_sorted: "sorted (map ekey es) \<Longrightarrow> sorted_wrt (\<lambda>a b. ekey a < ekey b) (dedup es)"
proof (induction es rule: dedup.induct)
  case (2 e es)
  have sub: "set (dedup xs) \<subseteq> set xs" for xs
    by (induction xs rule: dedup.induct) (auto dest: set_dropWhileD)
  have "ekey e < ekey x" if "x \<in> set (dedup (dropWhile (\<lambda>x. ekey x = ekey e) es))" for x
    using dropWhile_key_greater [OF 2(2), of x] that sub by blast
  with 2 show ?case using sorted_dropWhile_keys [of es] by auto
qed simp

lemma reader_view_find:
  assumes "sorted_entries es"
  shows "find (\<lambda>e. ekey e = k) (reader_view False t ab es) =
    find (\<lambda>e. ekey e = k \<and> readable t ab (etid e)) es"
  unfolding reader_view_def
  using find_dedup [OF sorted_filter_keys [OF sorted_entries_keys [OF assms]], of k] by (simp add: find_filter)

lemma reader_view_sorted:
  "sorted_entries es \<Longrightarrow> sorted_wrt (\<lambda>a b. ekey a < ekey b) (reader_view False t ab es)"
  unfolding reader_view_def using dedup_sorted [OF sorted_filter_keys [OF sorted_entries_keys]] by simp

section \<open>Traversal\<close>

definition next_readable :: "u64 \<Rightarrow> abort_check \<Rightarrow> entry list \<Rightarrow> nat \<Rightarrow> nat" where
  "next_readable t ab es i = i + length (takeWhile (\<lambda>e. \<not> readable t ab (etid e)) (drop i es))"

lemma next_readable_simps:
  "i < length es \<Longrightarrow> next_readable t ab es i =
     (if readable t ab (etid (es ! i)) then i else next_readable t ab es (Suc i))"
  "length es \<le> i \<Longrightarrow> next_readable t ab es i = i"
  by (simp_all add: next_readable_def Cons_nth_drop_Suc [symmetric])

lemma next_readable_bounds:
  "i \<le> length es \<Longrightarrow> i \<le> next_readable t ab es i \<and> next_readable t ab es i \<le> length es"
  using length_takeWhile_le [of "\<lambda>e. \<not> readable t ab (etid e)" "drop i es"]
  by (simp add: next_readable_def)

lemma next_readable_hit:
  "next_readable t ab es i < length es \<Longrightarrow> readable t ab (etid (es ! next_readable t ab es i))"
proof -
  assume less: "next_readable t ab es i < length es"
  let ?P = "\<lambda>e. \<not> readable t ab (etid e)"
  have "length (takeWhile ?P (drop i es)) < length (drop i es)"
    using less by (simp add: next_readable_def)
  from nth_length_takeWhile [OF this] less show ?thesis by (simp add: next_readable_def)
qed

lemma next_readable_skipped:
  "i \<le> j \<Longrightarrow> j < next_readable t ab es i \<Longrightarrow> j < length es \<Longrightarrow> \<not> readable t ab (etid (es ! j))"
proof -
  assume j: "i \<le> j" "j < next_readable t ab es i" "j < length es"
  let ?P = "\<lambda>e. \<not> readable t ab (etid e)"
  have "j - i < length (takeWhile ?P (drop i es))" using j by (simp add: next_readable_def)
  then have "takeWhile ?P (drop i es) ! (j - i) = drop i es ! (j - i)"
    "?P (takeWhile ?P (drop i es) ! (j - i))"
    by (auto intro: takeWhile_nth dest: nth_mem set_takeWhileD)
  with j show ?thesis by simp
qed

lemma skip_unreadable_spec:
  assumes "block_holds b es"
  shows "skip_unreadable b t ab i = Inr (next_readable t ab es i)"
proof (induction "length es - i" arbitrary: i)
  case 0
  then show ?case
    by (simp add: skip_unreadable.simps next_readable_simps(2) block_size_def holds_length [OF assms])
next
  case (Suc n)
  then have i: "i < length es" "n = length es - Suc i" by auto
  note r = holds_read(3) [OF assms i(1)] holds_length [OF assms]
  show ?case
    using Suc(1) [OF i(2)] i(1)
    by (subst skip_unreadable.simps)
      (simp add: r block_size_def block_get_offset_at_def next_readable_simps(1) readable_def)
qed

definition next_key :: "entry list \<Rightarrow> bytes \<Rightarrow> nat \<Rightarrow> nat" where
  "next_key es k i = i + length (takeWhile (\<lambda>e. ekey e = k) (drop i es))"

lemma skip_same_key_spec:
  assumes "block_holds b es"
  shows "skip_same_key b k i = Inr (next_key es k i)"
proof (induction "length es - i" arbitrary: i)
  case 0
  then show ?case
    by (simp add: skip_same_key.simps next_key_def block_size_def holds_length [OF assms])
next
  case (Suc n)
  then have i: "i < length es" "n = length es - Suc i" by auto
  show ?case
    using Suc(1) [OF i(2)] i(1)
    by (subst skip_same_key.simps)
      (simp add: holds_same_key [OF assms] block_size_def holds_length [OF assms] next_key_def
        Cons_nth_drop_Suc [symmetric])
qed

text \<open>An iterator that stands on a readable record, or at the end.\<close>

definition biter_on :: "nat \<times> block \<Rightarrow> entry list \<Rightarrow> u64 \<Rightarrow> bool \<Rightarrow> abort_check \<Rightarrow> nat \<Rightarrow> block_iter" where
  "biter_on p es t keep ab i = \<lparr>bi_block = Some p, bi_index = next_readable t ab es i, bi_tid = t,
     bi_keep_all = keep, bi_is_aborted = ab\<rparr>"

lemma next_readable_all: "next_readable 0 None es i = i"
  by (cases "drop i es") (simp_all add: next_readable_def)

lemma biter_new_on:
  assumes "block_holds (snd p) es"
  shows "biter_new (Some p) i t keep ab = Inr (biter_on p es t keep ab i)"
  using skip_unreadable_spec [OF assms]
  by (cases p) (auto simp: biter_new_def biter_skip_by_tranc_id_def biter_on_def next_readable_all)

lemma biter_next_on:
  assumes "block_holds (snd p) es" "next_readable t ab es i < length es"
  defines "j \<equiv> next_readable t ab es i"
  shows "biter_next (biter_on p es t keep ab i)
    = Inr (biter_on p es t keep ab (if keep then Suc j else next_key es (ekey (es ! j)) (Suc j)))"
proof -
  obtain a b where p: "p = (a, b)" by (cases p)
  have b: "block_holds b es" using assms(1) p by simp
  have "biter_skip_by_tranc_id \<lparr>bi_block = Some p, bi_index = m, bi_tid = t, bi_keep_all = keep,
      bi_is_aborted = ab\<rparr> = Inr (biter_on p es t keep ab m)" for m
    using biter_new_on [OF assms(1), of m t keep ab] by (simp add: biter_new_def)
  with assms(2) show ?thesis
    by (simp add: biter_next_def biter_on_def p j_def block_size_def holds_length [OF b]
        block_get_offset_at_def holds_read(1) [OF b] skip_same_key_spec [OF b])
qed

lemma seg_next_key:
  assumes "sorted_entries es" "i < stop" "stop \<le> length es"
    "stop < length es \<Longrightarrow> ekey (es ! (stop - 1)) \<noteq> ekey (es ! stop)"
  shows "next_key es (ekey (es ! i)) (Suc i) \<le> stop \<and>
    drop (next_key es (ekey (es ! i)) (Suc i)) (take stop es)
      = dropWhile (\<lambda>e. ekey e = ekey (es ! i)) (drop (Suc i) (take stop es))"
proof -
  let ?Q = "\<lambda>e. ekey e = ekey (es ! i)"
  let ?seg = "drop (Suc i) (take stop es)"
  have "takeWhile ?Q (drop (Suc i) es) = takeWhile ?Q ?seg"
  proof (cases "stop < length es")
    case False
    then show ?thesis using assms(3) by simp
  next
    case True
    have "ekey (es ! i) \<le> ekey (es ! (stop - 1))" "ekey (es ! (stop - 1)) \<le> ekey (es ! stop)"
      using assms(2) True by (auto intro!: sorted_nth_key [OF assms(1)])
    then have "\<not> ?Q (es ! stop)" using assms(4) [OF True] by auto
    moreover have "drop (Suc i) es = ?seg @ drop stop es"
      using assms(2,3) append_take_drop_id [of stop es]
      by (metis Suc_leI drop_append length_take min.absorb2 diff_is_0_eq drop_0)
    moreover have "drop stop es = es ! stop # drop (Suc stop) es"
      using True by (simp add: Cons_nth_drop_Suc)
    ultimately show ?thesis by (simp add: takeWhile_tail)
  qed
  then have nk: "next_key es (ekey (es ! i)) (Suc i) = Suc i + length (takeWhile ?Q ?seg)"
    by (simp add: next_key_def)
  have "length (takeWhile ?Q ?seg) \<le> stop - Suc i"
    using length_takeWhile_le [of ?Q ?seg] assms(3) by simp
  then have "next_key es (ekey (es ! i)) (Suc i) \<le> stop" using nk assms(2) by simp
  moreover have "drop (length (takeWhile ?Q ?seg)) ?seg = dropWhile ?Q ?seg"
    by (simp only: dropWhile_eq_drop)
  ultimately show ?thesis by (simp add: nk add.commute)
qed

lemma dropWhile_filter_key:
  assumes "sorted (map ekey (e # es))"
  shows "dropWhile (\<lambda>x. ekey x = ekey e) (filter P es) = filter P (dropWhile (\<lambda>x. ekey x = ekey e) es)"
  using assms
proof (induction es)
  case (Cons x es)
  show ?case
  proof (cases "ekey x = ekey e")
    case True
    with Cons show ?thesis by auto
  next
    case False
    with Cons.prems have "\<forall>y \<in> set (x # es). ekey e < ekey y" by fastforce
    then have "\<forall>y \<in> set (filter P (x # es)). ekey y \<noteq> ekey e" by auto
    then have "dropWhile (\<lambda>x. ekey x = ekey e) (filter P (x # es)) = filter P (x # es)"
      by (simp only: dropWhile_eq_self_iff) (metis hd_in_set)
    with False show ?thesis by simp
  qed
qed simp

lemma next_readable_past:
  assumes "i \<le> stop" "stop \<le> next_readable t ab es i" "next_readable t ab es i \<le> length es"
  shows "next_readable t ab es stop = next_readable t ab es i"
proof -
  let ?j = "next_readable t ab es i"
  have S: "stop \<le> next_readable t ab es stop" "next_readable t ab es stop \<le> length es"
    using next_readable_bounds [of stop es t ab] assms(2,3) by auto
  show ?thesis
  proof (cases "next_readable t ab es stop" ?j rule: linorder_cases)
    case less
    with next_readable_skipped [of i "next_readable t ab es stop" t ab es] next_readable_hit [of t ab es stop]
      S assms show ?thesis by auto
  next
    case greater
    with next_readable_skipped [of stop ?j t ab es] next_readable_hit [of t ab es i] S assms
    show ?thesis by auto
  qed
qed

lemma reader_view_step:
  assumes "sorted_entries es" "stop \<le> length es" "i \<le> j" "j < stop" "j = next_readable t ab es i"
    "m = (if keep then Suc j else next_key es (ekey (es ! j)) (Suc j))"
    "\<not> keep \<Longrightarrow> stop < length es \<Longrightarrow> ekey (es ! (stop - 1)) \<noteq> ekey (es ! stop)"
  shows "reader_view keep t ab (drop i (take stop es)) = es ! j # reader_view keep t ab (drop m (take stop es)) \<and>
    Suc j \<le> m \<and> m \<le> stop"
proof -
  let ?P = "\<lambda>e. readable t ab (etid e)" and ?T = "take stop es"
  have A: "\<not> ?P e" if "e \<in> set (take (j - i) (drop i ?T))" for e
  proof -
    from that obtain n where "n < j - i" "e = es ! (i + n)"
      using assms(2,4) by (auto simp: in_set_conv_nth)
    then show ?thesis using next_readable_skipped [of i "i + n" t ab es] assms(2,4,5) by auto
  qed
  have "drop i ?T = take (j - i) (drop i ?T) @ drop j ?T"
    using append_take_drop_id [of "j - i" "drop i ?T"] assms(3) by simp
  moreover have "filter ?P (take (j - i) (drop i ?T)) = []"
    using A by (simp only: filter_empty_conv) blast
  ultimately have F: "filter ?P (drop i ?T) = filter ?P (drop j ?T)"
    by (metis append_Nil filter_append)
  have d: "drop j ?T = es ! j # drop (Suc j) ?T"
    using assms(2,4) by (simp add: Cons_nth_drop_Suc [symmetric])
  have "?P (es ! j)" using next_readable_hit [of t ab es i] assms(2,4,5) by simp
  then have F': "filter ?P (drop i ?T) = es ! j # filter ?P (drop (Suc j) ?T)" by (simp add: F d)
  show ?thesis
  proof (cases keep)
    case True
    with F' assms(4,6) show ?thesis by (simp add: reader_view_def)
  next
    case False
    note nk = seg_next_key [OF assms(1,4,2) assms(7) [OF False]]
    have "sorted (map ekey (es ! j # drop (Suc j) ?T))"
      unfolding d [symmetric] using sorted_entries_keys [OF assms(1)]
      by (metis drop_map sorted_wrt_drop sorted_wrt_take take_map)
    note dw = dropWhile_filter_key [OF this, of ?P]
    have "Suc j \<le> m" using False assms(6) by (simp add: next_key_def)
    with False F' nk dw assms(6) show ?thesis by (simp add: reader_view_def)
  qed
qed

lemma seg_nth:
  assumes "x \<in> set (drop i (take stop es))" "stop \<le> length es"
  shows "\<exists>m. i \<le> m \<and> m < stop \<and> x = es ! m"
proof -
  obtain n where "n < length (drop i (take stop es))" "x = drop i (take stop es) ! n"
    using assms(1) by (metis in_set_conv_nth)
  with assms(2) have "i \<le> i + n \<and> i + n < stop \<and> x = es ! (i + n)" by auto
  then show ?thesis by blast
qed

lemma no_readable_seg:
  assumes "stop \<le> next_readable t ab es i" "stop \<le> length es"
  shows "filter (\<lambda>e. readable t ab (etid e)) (drop i (take stop es)) = []"
proof -
  have "\<not> readable t ab (etid x)" if x: "x \<in> set (drop i (take stop es))" for x
  proof -
    obtain m where "i \<le> m" "m < stop" "x = es ! m" using seg_nth [OF x assms(2)] by blast
    then show ?thesis using next_readable_skipped [of i m t ab es] assms by simp
  qed
  then show ?thesis by (simp only: filter_empty_conv) blast
qed

lemma biter_run_on:
  assumes "block_holds (snd p) es" "sorted_entries es" "stop \<le> length es"
    "\<not> keep \<Longrightarrow> stop < length es \<Longrightarrow> ekey (es ! (stop - 1)) \<noteq> ekey (es ! stop)"
    and stop_it: "bi_block e = Some p" "bi_index e = next_readable t ab es stop"
    and "i \<le> stop" "length es - next_readable t ab es i \<le> n"
  shows "biter_run n (biter_on p es t keep ab i) e = Inr (reader_view keep t ab (drop i (take stop es)))"
  using assms(7,8)
proof (induction n arbitrary: i)
  case 0
  then have "next_readable t ab es i = length es"
    using next_readable_bounds [of i es t ab] assms(3) by simp
  moreover from this have "next_readable t ab es stop = length es"
    using next_readable_past [of i stop t ab es] 0 assms(3) by simp
  moreover have "filter (\<lambda>e. readable t ab (etid e)) (drop i (take stop es)) = []"
    using calculation(1) assms(3) by (intro no_readable_seg) simp_all
  ultimately show ?case
    by (cases p) (simp add: biter_eq_def biter_on_def stop_it reader_view_def)
next
  case (Suc n)
  let ?j = "next_readable t ab es i"
  have jb: "i \<le> ?j" "?j \<le> length es" using next_readable_bounds [of i es t ab] Suc.prems assms(3) by auto
  have eq: "biter_eq (biter_on p es t keep ab i) e \<longleftrightarrow> ?j = next_readable t ab es stop"
    by (cases p) (simp add: biter_eq_def biter_on_def stop_it)
  show ?case
  proof (cases "stop \<le> ?j")
    case True
    have "filter (\<lambda>e. readable t ab (etid e)) (drop i (take stop es)) = []"
      by (rule no_readable_seg [OF True assms(3)])
    with True eq next_readable_past [OF Suc.prems(1) True jb(2)] show ?thesis
      by (simp add: reader_view_def)
  next
    case False
    then have j: "?j < stop" "?j < length es" using assms(3) by simp_all
    have "stop \<le> next_readable t ab es stop" using next_readable_bounds assms(3) by blast
    with j eq have ne: "\<not> biter_eq (biter_on p es t keep ab i) e" by simp
    define m where "m = (if keep then Suc ?j else next_key es (ekey (es ! ?j)) (Suc ?j))"
    note V = reader_view_step [OF assms(2,3) jb(1) j(1) refl m_def assms(4)]
    have "next_readable t ab es m \<ge> m" using V next_readable_bounds [of m es t ab] assms(3) by simp
    then have "length es - next_readable t ab es m \<le> n" using V Suc.prems(2) by linarith
    then have IH: "biter_run n (biter_on p es t keep ab m) e = Inr (reader_view keep t ab (drop m (take stop es)))"
      using V by (intro Suc.IH) simp_all
    obtain a b where p: "p = (a, b)" by (cases p)
    have b: "block_holds b es" using assms(1) p by simp
    have "biter_deref (biter_on p es t keep ab i) = Inr (ekey (es ! ?j), evalue (es ! ?j))"
      "biter_get_cur_tranc_id (biter_on p es t keep ab i) = Inr (etid (es ! ?j))"
      using j(2) holds_read [OF b j(2)]
      by (simp_all add: biter_deref_def biter_get_cur_tranc_id_def biter_on_def p block_size_def
          holds_length [OF b] block_get_offset_at_def)
    moreover have "biter_next (biter_on p es t keep ab i) = Inr (biter_on p es t keep ab m)"
      unfolding m_def by (rule biter_next_on [OF assms(1) j(2)])
    ultimately show ?thesis using ne IH V by simp
  qed
qed

text \<open>A scan of the whole block.\<close>

text \<open>C28: a traversal from the first readable record to the end of a block yields, in order, every
  readable record when all versions are kept, and otherwise the newest readable version of each
  key; it stops within as many steps as the block has records.\<close>

theorem block_scan:
  assumes "block_holds (snd p) es" "sorted_entries es"
  shows "\<exists>i e. biter_new (Some p) 0 t keep ab = Inr i \<and> block_end p = Inr e \<and>
    biter_run (length es) i e = Inr (reader_view keep t ab es)"
proof -
  have "block_end p = Inr (biter_on p es 0 False None (length es))"
    unfolding block_end_def biter_new_on [OF assms(1)]
    by (simp add: block_size_def holds_length [OF assms(1)])
  moreover have "biter_run (length es) (biter_on p es t keep ab 0) (biter_on p es 0 False None (length es))
      = Inr (reader_view keep t ab (drop 0 (take (length es) es)))"
    by (rule biter_run_on [OF assms order.refl])
      (simp_all add: biter_on_def next_readable_all next_readable_simps(2))
  ultimately show ?thesis using biter_new_on [OF assms(1)] by simp
qed

text \<open>A range: both ends are moved to readable records, and the loop still meets its end.\<close>

lemma block_range_scan:
  assumes "block_holds (snd p) es" "sorted_entries es" "monotone_predicate pred"
  shows "\<exists>r. block_get_monotony_predicate_iters p t pred ab = Inr r \<and>
    (case r of
       None \<Rightarrow> filter (\<lambda>e. pred (ekey e) = 0) es = []
     | Some (i, e) \<Rightarrow>
         biter_run (length es) i e = Inr (reader_view False t ab (filter (\<lambda>e. pred (ekey e) = 0) es)))"
proof -
  obtain z where z: "block_predicate_zone (snd p) pred = Inr z"
    "case z of None \<Rightarrow> \<forall>e \<in> set es. pred (ekey e) \<noteq> 0
     | Some (first, stop) \<Rightarrow> first < stop \<and> stop \<le> length es \<and>
         (\<forall>j < length es. pred (ekey (es ! j)) = 0 \<longleftrightarrow> first \<le> j \<and> j < stop)"
    using block_predicate_zone_spec [OF assms] by blast
  show ?thesis
  proof (cases z)
    case None
    with z show ?thesis by (auto simp: block_get_monotony_predicate_iters_def filter_empty_conv)
  next
    case (Some fs)
    obtain f s where fs: "fs = (f, s)" by (cases fs)
    have r: "f < s" "s \<le> length es" "\<And>j. j < length es \<Longrightarrow> pred (ekey (es ! j)) = 0 \<longleftrightarrow> f \<le> j \<and> j < s"
      using z(2) unfolding Some fs by simp_all
    let ?H = "\<lambda>e. pred (ekey e) = 0"
    have "filter ?H es = filter ?H (take f es) @ filter ?H (drop f (take s es)) @ filter ?H (drop s es)"
    proof -
      have "take f es = take f (take s es)" using r(1) by simp
      moreover have "(take f (take s es) @ drop f (take s es)) @ drop s es = es"
        by (simp only: append_take_drop_id)
      ultimately show ?thesis by (metis filter_append append.assoc)
    qed
    moreover have "filter ?H (take f es) = []" "filter ?H (drop s es) = []"
      "filter ?H (drop f (take s es)) = drop f (take s es)"
    proof -
      have "\<not> ?H x" if x: "x \<in> set (take f es)" for x
      proof -
        obtain m where "m < f" "x = es ! m" using seg_nth [of x 0 f es] x r(1,2) by auto
        with r(1,2) r(3) [of m] show ?thesis by simp
      qed
      then show "filter ?H (take f es) = []" by (simp only: filter_empty_conv) blast
      have "\<not> ?H x" if x: "x \<in> set (drop s es)" for x
      proof -
        obtain m where "s \<le> m" "m < length es" "x = es ! m"
          using seg_nth [of x s "length es" es] x by auto
        with r(3) [of m] show ?thesis by simp
      qed
      then show "filter ?H (drop s es) = []" by (simp only: filter_empty_conv) blast
      have "?H x" if x: "x \<in> set (drop f (take s es))" for x
      proof -
        obtain m where "f \<le> m" "m < s" "x = es ! m" using seg_nth [OF x r(2)] by blast
        with r(2) r(3) [of m] show ?thesis by simp
      qed
      then show "filter ?H (drop f (take s es)) = drop f (take s es)" by (simp only: filter_id_conv) blast
    qed
    ultimately have H: "filter ?H es = drop f (take s es)" by simp
    have bd: "ekey (es ! (s - 1)) \<noteq> ekey (es ! s)" if "s < length es"
    proof -
      have "pred (ekey (es ! (s - 1))) = 0" "pred (ekey (es ! s)) \<noteq> 0"
        using r(3) [of "s - 1"] r(3) [of s] r(1) that by auto
      then show ?thesis by auto
    qed
    have "biter_run (length es) (biter_on p es t False ab f) (biter_on p es t False ab s)
        = Inr (reader_view False t ab (drop f (take s es)))"
      using r(1) by (intro biter_run_on [OF assms(1,2) r(2)] bd) (simp_all add: biter_on_def)
    with z(1) Some fs H show ?thesis
      by (simp add: block_get_monotony_predicate_iters_def biter_new_on [OF assms(1)])
  qed
qed

lemma take_le_prefix: "take n k < p \<Longrightarrow> n = length p \<Longrightarrow> (k :: bytes) < p"
proof (induction p arbitrary: n k)
  case (Cons c p)
  then show ?case by (cases k) auto
qed simp

lemma preffix_predicate_zero: "preffix_predicate p k = 0 \<longleftrightarrow> prefix p k"
proof -
  have "preffix_predicate p k = 0 \<longleftrightarrow> take (length p) k = p"
    by (auto simp: preffix_predicate_def str_compare_def)
  then show ?thesis by (metis append_eq_conv_conj append_take_drop_id prefix_def)
qed

lemma take_mono_lex: "(a :: bytes) \<le> b \<Longrightarrow> take n a \<le> take n b"
proof (induction n arbitrary: a b)
  case (Suc n)
  then show ?case by (cases a; cases b) auto
qed simp

lemma preffix_predicate_monotone: "monotone_predicate (preffix_predicate p)"
  unfolding monotone_predicate_def
proof (intro allI impI)
  fix a b :: bytes
  assume "a \<le> b"
  then have "take (length p) a \<le> take (length p) b" by (rule take_mono_lex)
  then show "(0 < preffix_predicate p b \<longrightarrow> 0 < preffix_predicate p a) \<and>
      (preffix_predicate p a < 0 \<longrightarrow> preffix_predicate p b < 0)"
    by (auto simp: preffix_predicate_def str_compare_def)
qed

text \<open>A prefix query of a block yields the newest readable version of each key with the
  prefix, in order, and reports no range only when no key has the prefix. Both ends are moved to
  readable records, and the traversal still meets its end.\<close>

lemma block_preffix_scan:
  assumes "block_holds (snd p) es" "sorted_entries es"
  shows "\<exists>r. block_iters_preffix p t q ab = Inr r \<and>
    (case r of
       None \<Rightarrow> filter (\<lambda>e. prefix q (ekey e)) es = []
     | Some (i, e) \<Rightarrow>
         biter_run (length es) i e = Inr (reader_view False t ab (filter (\<lambda>e. prefix q (ekey e)) es)))"
  using block_range_scan [OF assms preffix_predicate_monotone, of t q ab]
  unfolding preffix_predicate_zero block_iters_preffix_def .

section \<open>Examples\<close>

theorem block_scan_witness:
  "\<exists>i e. biter_new (Some (7, sample_block)) 0 4 False None = Inr i \<and> block_end (7, sample_block) = Inr e \<and>
    biter_run 3 i e = Inr [([1], [3], 4)]"
proof -
  have l: "length sample_entries = 3" and v: "reader_view False 4 None sample_entries = [([1], [3], 4)]"
    by (simp_all add: sample_entries_def reader_view_def readable_def)
  show ?thesis
    using block_scan [of "(7, sample_block)" sample_entries 4 False None] sample_holds sample_sorted
    unfolding l v snd_conv by blast
qed

end
