(* ===== verification/BlockMeta.thy ===== *)
theory BlockMeta
  imports Kopi_Prelude
begin

text \<open>
  The meta section of an SST (src/src/block/blockmeta.cpp): for every block its offset and
  its first and last key, framed by the number of entries and a hash. Integers are copied with
  \<open>memcpy\<close> on a little-endian machine; \<open>hash\<close> stands for
  \<open>std::hash\<close> on strings, whose values the standard leaves open.
\<close>

record block_meta =
  bm_offset :: nat
  bm_first_key :: bytes
  bm_last_key :: bytes

section \<open>Encoding\<close>

text \<open>Lengths and offsets are narrowed to their fields; only the narrowed length is copied.\<close>

definition meta_key_bytes :: "bytes \<Rightarrow> bytes" where
  "meta_key_bytes k =
     (let len = (of_nat (length k) :: u16) in le_write 2 len @ take (unat len) k)"

definition meta_entry_bytes :: "block_meta \<Rightarrow> bytes" where
  "meta_entry_bytes m =
     le_write 4 (of_nat (bm_offset m) :: u32) @ meta_key_bytes (bm_first_key m) @ meta_key_bytes (bm_last_key m)"

definition meta_total :: "block_meta list \<Rightarrow> nat" where
  "meta_total ms = 8 + sum_list (map (\<lambda>m. 8 + length (bm_first_key m) + length (bm_last_key m)) ms)"

text \<open>The buffer is resized first and then overwritten from the front.\<close>

definition encode_meta_to_slice :: "(bytes \<Rightarrow> u64) \<Rightarrow> block_meta list \<Rightarrow> bytes \<Rightarrow> bytes" where
  "encode_meta_to_slice hash ms metadata =
     (let total = meta_total ms;
          buffer = take total (metadata @ replicate (total - length metadata) 0);
          num = (of_nat (length ms) :: u32);
          entries = concat (map meta_entry_bytes ms);
          h = (ucast (hash entries) :: u32);
          written = le_write 4 num @ entries @ le_write 4 h
      in written @ drop (length written) buffer)"

section \<open>Decoding\<close>

definition read_bytes :: "nat \<Rightarrow> bytes \<Rightarrow> (bytes \<times> bytes) result" where
  "read_bytes n bs = (if length bs < n then Inl Undefined else Inr (take n bs, drop n bs))"

definition read_meta_key :: "bytes \<Rightarrow> (bytes \<times> bytes) result" where
  "read_meta_key ptr =
     ebind (read_bytes 2 ptr) (\<lambda>(len, ptr). read_bytes (unat (le_read len :: u16)) ptr)"

definition read_meta_entry :: "bytes \<Rightarrow> (block_meta \<times> bytes) result" where
  "read_meta_entry ptr =
     ebind (read_bytes 4 ptr) (\<lambda>(off, ptr).
     ebind (read_meta_key ptr) (\<lambda>(fk, ptr).
     ebind (read_meta_key ptr) (\<lambda>(lk, ptr).
       Inr (\<lparr>bm_offset = unat (le_read off :: u32), bm_first_key = fk, bm_last_key = lk\<rparr>, ptr))))"

primrec read_meta_entries :: "nat \<Rightarrow> bytes \<Rightarrow> block_meta list result" where
  "read_meta_entries 0 ptr = Inr []"
| "read_meta_entries (Suc n) ptr =
     ebind (read_meta_entry ptr) (\<lambda>(m, ptr).
     ebind (read_meta_entries n ptr) (\<lambda>ms. Inr (m # ms)))"

definition decode_meta_from_slice :: "(bytes \<Rightarrow> u64) \<Rightarrow> bytes \<Rightarrow> block_meta list result" where
  "decode_meta_from_slice hash metadata =
     (if length metadata < 8 then Inl Runtime_Error
      else
        let entries_len = length metadata - 8;
            entries = take entries_len (drop 4 metadata);
            expect = (ucast (hash entries) :: u32);
            actual = (le_read (take 4 (drop (4 + entries_len) metadata)) :: u32)
        in if expect \<noteq> actual then Inl Runtime_Error
           else read_meta_entries (unat (le_read (take 4 metadata) :: u32)) (drop 4 metadata))"

section \<open>Round trip\<close>

definition meta_fits :: "block_meta \<Rightarrow> bool" where
  "meta_fits m \<longleftrightarrow> bm_offset m < 2 ^ 32 \<and> length (bm_first_key m) < 2 ^ 16 \<and> length (bm_last_key m) < 2 ^ 16"

lemma unat_of_nat_small: "n < 2 ^ LENGTH('a) \<Longrightarrow> unat (of_nat n :: 'a::len word) = n"
  by (simp add: unsigned_of_nat take_bit_nat_eq_self)

lemma read_bytes_append: "length xs = n \<Longrightarrow> read_bytes n (xs @ ys) = Inr (xs, ys)"
  by (simp add: read_bytes_def)

lemma read_meta_key_bytes:
  assumes "length k < 2 ^ 16"
  shows "read_meta_key (meta_key_bytes k @ rest) = Inr (k, rest)"
proof -
  have len: "unat (of_nat (length k) :: u16) = length k" using assms by (intro unat_of_nat_small) simp
  then show ?thesis
    by (simp add: read_meta_key_def meta_key_bytes_def Let_def read_bytes_append le_read_write)
qed

lemma read_meta_entry_bytes:
  assumes "meta_fits m"
  shows "read_meta_entry (meta_entry_bytes m @ rest) = Inr (m, rest)"
proof -
  have "unat (of_nat (bm_offset m) :: u32) = bm_offset m"
    using assms by (intro unat_of_nat_small) (simp add: meta_fits_def)
  with assms show ?thesis
    by (simp add: read_meta_entry_def meta_entry_bytes_def read_bytes_append read_meta_key_bytes
        le_read_write meta_fits_def)
qed

lemma read_meta_entries_bytes:
  "\<forall>m \<in> set ms. meta_fits m \<Longrightarrow>
   read_meta_entries (length ms) (concat (map meta_entry_bytes ms) @ rest) = Inr ms"
  by (induction ms) (simp_all add: read_meta_entry_bytes)

lemma meta_written_total:
  "\<forall>m \<in> set ms. meta_fits m \<Longrightarrow>
   length (concat (map meta_entry_bytes ms)) + 8 = meta_total ms"
proof (induction ms)
  case (Cons m ms)
  have "unat (of_nat (length (bm_first_key m)) :: u16) = length (bm_first_key m)"
    "unat (of_nat (length (bm_last_key m)) :: u16) = length (bm_last_key m)"
    using Cons.prems by (auto intro!: unat_of_nat_small simp: meta_fits_def)
  with Cons show ?case
    by (simp add: meta_total_def meta_entry_bytes_def meta_key_bytes_def Let_def)
qed (simp add: meta_total_def)

lemma encode_meta_written:
  assumes "\<forall>m \<in> set ms. meta_fits m"
  shows "encode_meta_to_slice hash ms old =
    le_write 4 (of_nat (length ms) :: u32) @ concat (map meta_entry_bytes ms)
      @ le_write 4 (ucast (hash (concat (map meta_entry_bytes ms))) :: u32)"
  using meta_written_total [OF assms] by (simp add: encode_meta_to_slice_def Let_def)

lemma decode_meta_written:
  assumes "\<forall>m \<in> set ms. meta_fits m" "length ms < 2 ^ 32"
  shows "decode_meta_from_slice hash (encode_meta_to_slice hash ms old) = Inr ms"
proof -
  let ?E = "concat (map meta_entry_bytes ms)"
  have "unat (of_nat (length ms) :: u32) = length ms" using assms(2) by (intro unat_of_nat_small) simp
  then show ?thesis
    using read_meta_entries_bytes [OF assms(1)]
    by (simp add: encode_meta_written [OF assms(1)] decode_meta_from_slice_def Let_def le_read_write)
qed

text \<open>C32: the meta section of an SST survives writing and reading, for any hash function, when
  offsets fit 32 bits and keys 16-bit lengths; the stale bytes behind it are not read.\<close>

theorem decode_meta_encode:
  assumes "\<forall>m \<in> set ms. meta_fits m" "length ms < 2 ^ 32"
  shows "decode_meta_from_slice hash (encode_meta_to_slice hash ms old) = Inr ms"
  by (rule decode_meta_written [OF assms])

text \<open>A slice whose stored hash does not match its entries is refused.\<close>

lemma decode_meta_rejects:
  assumes "8 \<le> length metadata"
    "(ucast (hash (take (length metadata - 8) (drop 4 metadata))) :: u32)
       \<noteq> le_read (drop (length metadata - 4) metadata)"
  shows "decode_meta_from_slice hash metadata = Inl Runtime_Error"
proof -
  have "4 + (length metadata - 8) = length metadata - 4" using assms(1) by simp
  with assms show ?thesis by (simp add: decode_meta_from_slice_def Let_def)
qed

theorem decode_meta_encode_witness:
  "decode_meta_from_slice (\<lambda>bs. of_nat (length bs))
    (encode_meta_to_slice (\<lambda>bs. of_nat (length bs))
      [\<lparr>bm_offset = 0, bm_first_key = [1], bm_last_key = [2, 3]\<rparr>] [9, 9]) =
    Inr [\<lparr>bm_offset = 0, bm_first_key = [1], bm_last_key = [2, 3]\<rparr>]"
  by (rule decode_meta_encode) (simp_all add: meta_fits_def)

end
