(* ===== verification/BlockCache.thy ===== *)
theory BlockCache
  imports Kopi_Prelude "HOL-Library.Multiset"
begin

text \<open>
  The LRU-K block cache (src/src/block/block_cache.cpp). Blocks seen fewer than \<open>k\<close> times
  wait in \<open>cache_list_less_k\<close>, the others in \<open>cache_list_greater_k\<close>, both
  most recently used first; \<open>cache_map\<close> is the index. A list iterator stored in the
  index stays valid while its node is spliced between the lists, so it is modelled by the key
  of its node; the mutex makes every operation one step. \<open>'b\<close> is the type of the shared
  block pointer, \<open>None\<close> the null pointer.
\<close>

section \<open>State and operations\<close>

type_synonym cache_key = "int \<times> int"

record 'b cache_item =
  ci_sst_id :: int
  ci_block_id :: int
  ci_block :: 'b
  ci_access_count :: nat

record 'b block_cache =
  bc_capacity :: nat
  bc_k :: nat
  bc_greater :: "'b cache_item list"
  bc_less :: "'b cache_item list"
  bc_map :: "cache_key list"
  bc_total_requests :: nat
  bc_hit_requests :: nat

definition block_cache_new :: "nat \<Rightarrow> nat \<Rightarrow> 'b block_cache" where
  "block_cache_new cap k = \<lparr>bc_capacity = cap, bc_k = k, bc_greater = [], bc_less = [],
     bc_map = [], bc_total_requests = 0, bc_hit_requests = 0\<rparr>"

definition ci_key :: "'b cache_item \<Rightarrow> cache_key" where
  "ci_key it = (ci_sst_id it, ci_block_id it)"

definition remove_node :: "cache_key \<Rightarrow> 'b cache_item list \<Rightarrow> 'b cache_item list" where
  "remove_node key l = filter (\<lambda>it. ci_key it \<noteq> key) l"

definition node_of :: "'b block_cache \<Rightarrow> cache_key \<Rightarrow> 'b cache_item option" where
  "node_of c key = find (\<lambda>it. ci_key it = key) (bc_less c @ bc_greater c)"

text \<open>\<open>splice\<close> moves the node to the front of the list it belongs to afterwards.\<close>

definition update_access_count :: "'b block_cache \<Rightarrow> 'b cache_item \<Rightarrow> 'b block_cache" where
  "update_access_count c it =
     (let key = ci_key it
      in if ci_access_count it < bc_k c then
           let it' = it\<lparr>ci_access_count := ci_access_count it + 1\<rparr>
           in if ci_access_count it' = bc_k c
              then c\<lparr>bc_greater := it' # bc_greater c, bc_less := remove_node key (bc_less c)\<rparr>
              else c\<lparr>bc_less := it' # remove_node key (bc_less c)\<rparr>
         else c\<lparr>bc_greater := it # remove_node key (bc_greater c)\<rparr>)"

definition block_cache_get :: "'b block_cache \<Rightarrow> int \<Rightarrow> int \<Rightarrow> 'b option \<times> 'b block_cache" where
  "block_cache_get c sst_id block_id =
     (let c1 = c\<lparr>bc_total_requests := bc_total_requests c + 1\<rparr>; key = (sst_id, block_id)
      in if key \<notin> set (bc_map c1) then (None, c1)
         else
           let c2 = c1\<lparr>bc_hit_requests := bc_hit_requests c1 + 1\<rparr>
           in case node_of c2 key of
                None \<Rightarrow> (None, c2)
              | Some it \<Rightarrow> (Some (ci_block it), update_access_count c2 it))"

definition evict_one :: "'b block_cache \<Rightarrow> 'b block_cache" where
  "evict_one c =
     (if bc_less c = []
      then c\<lparr>bc_map := removeAll (ci_key (last (bc_greater c))) (bc_map c),
             bc_greater := butlast (bc_greater c)\<rparr>
      else c\<lparr>bc_map := removeAll (ci_key (last (bc_less c))) (bc_map c),
             bc_less := butlast (bc_less c)\<rparr>)"

definition block_cache_put :: "'b block_cache \<Rightarrow> int \<Rightarrow> int \<Rightarrow> 'b option \<Rightarrow> 'b block_cache result" where
  "block_cache_put c sst_id block_id block_ptr =
     (if bc_k c = 0 then Inl Runtime_Error
      else case block_ptr of
        None \<Rightarrow> Inl Invalid_Argument
      | Some b \<Rightarrow>
          if bc_capacity c = 0 then Inr c
          else
            let key = (sst_id, block_id)
            in case (if key \<in> set (bc_map c) then node_of c key else None) of
                 Some it \<Rightarrow> Inr (update_access_count c it)
               | None \<Rightarrow>
                   let c1 = (if bc_capacity c \<le> length (bc_map c) then evict_one c else c);
                       it = \<lparr>ci_sst_id = sst_id, ci_block_id = block_id, ci_block = b,
                             ci_access_count = 1\<rparr>;
                       c2 = (if bc_k c = 1 then c1\<lparr>bc_greater := it # bc_greater c1\<rparr>
                             else c1\<lparr>bc_less := it # bc_less c1\<rparr>)
                   in Inr (c2\<lparr>bc_map := key # bc_map c2\<rparr>))"

section \<open>Invariant\<close>

definition bc_nodes :: "'b block_cache \<Rightarrow> 'b cache_item list" where
  "bc_nodes c = bc_less c @ bc_greater c"

definition cache_ok :: "'b block_cache \<Rightarrow> bool" where
  "cache_ok c \<longleftrightarrow> distinct (map ci_key (bc_nodes c)) \<and> distinct (bc_map c) \<and>
     set (bc_map c) = set (map ci_key (bc_nodes c)) \<and>
     length (bc_map c) \<le> bc_capacity c \<and>
     (\<forall>it \<in> set (bc_less c). 1 \<le> ci_access_count it \<and> ci_access_count it < bc_k c) \<and>
     (\<forall>it \<in> set (bc_greater c). ci_access_count it = bc_k c) \<and>
     bc_hit_requests c \<le> bc_total_requests c"

lemma cache_new_ok: "cache_ok (block_cache_new cap k)"
  by (simp add: cache_ok_def block_cache_new_def bc_nodes_def)

text \<open>What is cached, as a finite map.\<close>

definition cached :: "'b block_cache \<Rightarrow> cache_key \<Rightarrow> 'b option" where
  "cached c key = map_option ci_block (node_of c key)"

lemma node_of_Some:
  "node_of c key = Some it \<Longrightarrow> it \<in> set (bc_nodes c) \<and> ci_key it = key"
  unfolding node_of_def bc_nodes_def by (metis (mono_tags, lifting) find_Some_iff nth_mem)

lemma node_of_None: "node_of c key = None \<longleftrightarrow> key \<notin> set (map ci_key (bc_nodes c))"
  by (auto simp: node_of_def bc_nodes_def find_None_iff)

lemma node_of_unique:
  assumes "distinct (map ci_key (bc_nodes c))" "it \<in> set (bc_nodes c)"
  shows "node_of c (ci_key it) = Some it"
proof -
  obtain x where x: "node_of c (ci_key it) = Some x"
    using assms(2) node_of_None [of c "ci_key it"] by (cases "node_of c (ci_key it)") auto
  with node_of_Some [OF x] assms have "x = it" by (auto simp: distinct_map inj_on_def)
  with x show ?thesis by simp
qed

lemma cached_Some:
  assumes "distinct (map ci_key (bc_nodes c))"
  shows "cached c key = Some b \<longleftrightarrow> (\<exists>it \<in> set (bc_nodes c). ci_key it = key \<and> ci_block it = b)"
  using node_of_unique [OF assms] node_of_Some [of c key] by (fastforce simp: cached_def)

lemma cached_None: "cached c key = None \<longleftrightarrow> key \<notin> set (map ci_key (bc_nodes c))"
  by (simp add: cached_def node_of_None)

lemma remove_node_set: "set (remove_node key l) = {it \<in> set l. ci_key it \<noteq> key}"
  by (auto simp: remove_node_def)

lemma remove_node_distinct: "distinct (map ci_key l) \<Longrightarrow> distinct (map ci_key (remove_node key l))"
  by (simp add: remove_node_def distinct_map_filter)

lemma update_access_fields [simp]:
  "bc_map (update_access_count c it) = bc_map c" "bc_k (update_access_count c it) = bc_k c"
  "bc_capacity (update_access_count c it) = bc_capacity c"
  "bc_total_requests (update_access_count c it) = bc_total_requests c"
  "bc_hit_requests (update_access_count c it) = bc_hit_requests c"
  by (simp_all add: update_access_count_def Let_def)

lemma ci_key_count [simp]: "ci_key (it\<lparr>ci_access_count := n\<rparr>) = ci_key it"
  by (simp add: ci_key_def)

lemma moved_cached:
  assumes d: "distinct (map ci_key (bc_nodes c))" and d': "distinct (map ci_key (bc_nodes c'))"
    and it: "it \<in> set (bc_nodes c)" "ci_key it' = ci_key it" "ci_block it' = ci_block it"
    and nodes: "set (bc_nodes c') = insert it' {x \<in> set (bc_nodes c). ci_key x \<noteq> ci_key it}"
  shows "cached c' = cached c \<and> set (map ci_key (bc_nodes c')) = set (map ci_key (bc_nodes c))"
proof
  have uniq: "x = it" if "x \<in> set (bc_nodes c)" "ci_key x = ci_key it" for x
    using d that it(1) by (simp add: distinct_map inj_on_def)
  show "cached c' = cached c"
  proof
    fix key
    have "cached c' key = Some b \<longleftrightarrow> cached c key = Some b" for b
    proof (cases "key = ci_key it")
      case True
      then show ?thesis unfolding cached_Some [OF d] cached_Some [OF d'] nodes using it uniq by auto
    next
      case False
      then show ?thesis unfolding cached_Some [OF d] cached_Some [OF d'] nodes using it(2) by auto
    qed
    then show "cached c' key = cached c key" by (metis option.exhaust)
  qed
  show "set (map ci_key (bc_nodes c')) = set (map ci_key (bc_nodes c))"
    unfolding set_map nodes using it(1,2) by (auto simp: image_iff)
qed

lemma remove_node_absent: "key \<notin> ci_key ` set l \<Longrightarrow> remove_node key l = l"
  by (auto simp: remove_node_def filter_id_conv)

text \<open>A hit moves one node and changes neither the keys nor the blocks of the cache.\<close>

lemma update_access_ok:
  assumes ok: "cache_ok c" and it: "node_of c key = Some it"
  shows "cache_ok (update_access_count c it) \<and> cached (update_access_count c it) = cached c"
proof -
  have mem: "it \<in> set (bc_nodes c)" using node_of_Some [OF it] by auto
  have d: "distinct (map ci_key (bc_nodes c))" using ok by (simp add: cache_ok_def)
  have dl: "distinct (map ci_key (bc_less c))" "distinct (map ci_key (bc_greater c))"
    "ci_key ` set (bc_less c) \<inter> ci_key ` set (bc_greater c) = {}"
    using d by (auto simp: bc_nodes_def)
  let ?c = "update_access_count c it"
  let ?it = "it\<lparr>ci_access_count := ci_access_count it + 1\<rparr>"
  let ?r = "remove_node (ci_key it)"
  have counts: "\<forall>i \<in> set (bc_less c). 1 \<le> ci_access_count i \<and> ci_access_count i < bc_k c"
    "\<forall>i \<in> set (bc_greater c). ci_access_count i = bc_k c" using ok by (auto simp: cache_ok_def)
  obtain it' where it': "ci_key it' = ci_key it" "ci_block it' = ci_block it"
    "distinct (map ci_key (bc_nodes ?c))"
    "set (bc_nodes ?c) = insert it' {x \<in> set (bc_nodes c). ci_key x \<noteq> ci_key it}"
    "\<forall>i \<in> set (bc_less ?c). 1 \<le> ci_access_count i \<and> ci_access_count i < bc_k c"
    "\<forall>i \<in> set (bc_greater ?c). ci_access_count i = bc_k c"
  proof (cases "ci_access_count it < bc_k c")
    case True
    then have il: "it \<in> set (bc_less c)" using mem counts(2) by (auto simp: bc_nodes_def)
    then have ng: "ci_key it \<notin> ci_key ` set (bc_greater c)" using dl(3) by blast
    have B: "{x \<in> set (bc_nodes c). ci_key x \<noteq> ci_key it} = set (?r (bc_less c)) \<union> set (bc_greater c)"
    proof -
      have "ci_key x \<noteq> ci_key it" if "x \<in> set (bc_greater c)" for x using ng that by (metis imageI)
      then show ?thesis by (auto simp: bc_nodes_def remove_node_set)
    qed
    show thesis
    proof (cases "ci_access_count it + 1 = bc_k c")
      case hot: True
      then have u: "bc_less ?c = ?r (bc_less c)" "bc_greater ?c = ?it # bc_greater c"
        using True by (simp_all add: update_access_count_def Let_def)
      show thesis
      proof (rule that [of ?it])
        show "distinct (map ci_key (bc_nodes ?c))"
          using dl ng by (auto simp: bc_nodes_def u remove_node_set remove_node_distinct)
        show "set (bc_nodes ?c) = insert ?it {x \<in> set (bc_nodes c). ci_key x \<noteq> ci_key it}"
          unfolding B by (simp add: bc_nodes_def u)
      qed (use counts hot in \<open>simp_all add: u remove_node_set\<close>)
    next
      case cold: False
      then have u: "bc_less ?c = ?it # ?r (bc_less c)" "bc_greater ?c = bc_greater c"
        using True by (simp_all add: update_access_count_def Let_def)
      show thesis
      proof (rule that [of ?it])
        show "distinct (map ci_key (bc_nodes ?c))"
          using dl ng by (auto simp: bc_nodes_def u remove_node_set remove_node_distinct)
        show "set (bc_nodes ?c) = insert ?it {x \<in> set (bc_nodes c). ci_key x \<noteq> ci_key it}"
          unfolding B by (simp add: bc_nodes_def u)
      qed (use counts cold True in \<open>simp_all add: u remove_node_set\<close>)
    qed
  next
    case False
    then have ig: "it \<in> set (bc_greater c)" using mem counts(1) by (auto simp: bc_nodes_def)
    then have nl: "ci_key it \<notin> ci_key ` set (bc_less c)" using dl(3) by blast
    have B: "{x \<in> set (bc_nodes c). ci_key x \<noteq> ci_key it} = set (bc_less c) \<union> set (?r (bc_greater c))"
    proof -
      have "ci_key x \<noteq> ci_key it" if "x \<in> set (bc_less c)" for x using nl that by (metis imageI)
      then show ?thesis by (auto simp: bc_nodes_def remove_node_set)
    qed
    have u: "bc_less ?c = bc_less c" "bc_greater ?c = it # ?r (bc_greater c)"
      using False by (simp_all add: update_access_count_def Let_def)
    show thesis
    proof (rule that [of it])
      show "distinct (map ci_key (bc_nodes ?c))"
        using dl nl by (auto simp: bc_nodes_def u remove_node_set remove_node_distinct)
      show "set (bc_nodes ?c) = insert it {x \<in> set (bc_nodes c). ci_key x \<noteq> ci_key it}"
        unfolding B by (simp add: bc_nodes_def u)
    qed (use counts ig in \<open>simp_all add: u remove_node_set\<close>)
  qed
  with ok moved_cached [OF d it'(3) mem it'(1,2,4)] show ?thesis
    by (simp add: cache_ok_def)
qed

lemma cached_new: "cached (block_cache_new cap k) = Map.empty"
  by (auto simp: cached_def node_of_def block_cache_new_def)

section \<open>get\<close>

lemma block_cache_get_facts:
  assumes "cache_ok c"
  shows "fst (block_cache_get c s b) = cached c (s, b) \<and>
    cache_ok (snd (block_cache_get c s b)) \<and>
    cached (snd (block_cache_get c s b)) = cached c \<and>
    bc_total_requests (snd (block_cache_get c s b)) = bc_total_requests c + 1 \<and>
    bc_hit_requests (snd (block_cache_get c s b))
      = bc_hit_requests c + (if cached c (s, b) = None then 0 else 1)"
proof -
  let ?c1 = "c\<lparr>bc_total_requests := bc_total_requests c + 1\<rparr>"
  let ?c2 = "?c1\<lparr>bc_hit_requests := bc_hit_requests c + 1\<rparr>"
  have same: "node_of ?c1 = node_of c" "node_of ?c2 = node_of c" "cached ?c1 = cached c" "cached ?c2 = cached c"
    by (auto simp: node_of_def cached_def)
  have ok1: "cache_ok ?c1" and ok2: "cache_ok ?c2" using assms by (auto simp: cache_ok_def bc_nodes_def)
  have dom: "(s, b) \<in> set (bc_map c) \<longleftrightarrow> node_of c (s, b) \<noteq> None"
    using assms node_of_None [of c "(s, b)"] by (auto simp: cache_ok_def)
  show ?thesis
  proof (cases "node_of c (s, b)")
    case None
    with dom have "block_cache_get c s b = (None, ?c1)" by (simp add: block_cache_get_def)
    moreover have "cached c (s, b) = None" using None by (simp add: cached_def)
    ultimately show ?thesis using ok1 same(3) by simp
  next
    case (Some it)
    with dom have "block_cache_get c s b = (Some (ci_block it), update_access_count ?c2 it)"
      by (simp add: block_cache_get_def same [simplified] Let_def)
    moreover have "cached c (s, b) = Some (ci_block it)" using Some by (simp add: cached_def)
    moreover have "cache_ok (update_access_count ?c2 it) \<and> cached (update_access_count ?c2 it) = cached ?c2"
      using Some same(2) by (intro update_access_ok [OF ok2, of "(s, b)"]) simp
    ultimately show ?thesis using same(4) by simp
  qed
qed

section \<open>put\<close>

text \<open>The node that a full cache gives up: the least recently used one of the cold list, or
  of the hot list when no node is cold.\<close>

definition victim :: "'b block_cache \<Rightarrow> cache_key" where
  "victim c = ci_key (last (if bc_less c = [] then bc_greater c else bc_less c))"

lemma evict_one_ok:
  assumes ok: "cache_ok c" and ne: "bc_map c \<noteq> []"
  shows "cache_ok (evict_one c) \<and> Suc (length (bc_map (evict_one c))) = length (bc_map c) \<and>
    cached (evict_one c) = (cached c)(victim c := None) \<and> bc_k (evict_one c) = bc_k c \<and>
    bc_capacity (evict_one c) = bc_capacity c"
proof -
  have d: "distinct (map ci_key (bc_nodes c))" using ok by (simp add: cache_ok_def)
  define l where "l = (if bc_less c = [] then bc_greater c else bc_less c)"
  have lne: "l \<noteq> []" using ok ne by (auto simp: l_def cache_ok_def bc_nodes_def split: if_splits)
  have v: "victim c = ci_key (last l)" by (simp add: victim_def l_def)
  have split: "bc_less c @ bc_greater c = (if bc_less c = [] then [] else butlast (bc_less c)) @ last l #
      (if bc_less c = [] then [] else bc_greater c) \<or>
      bc_less c = [] \<and> bc_greater c = butlast (bc_greater c) @ [last l]"
    using lne by (auto simp: l_def)
  have nodes: "bc_nodes (evict_one c) = (if bc_less c = [] then butlast (bc_greater c)
      else butlast (bc_less c) @ bc_greater c)"
    by (simp add: evict_one_def bc_nodes_def)
  obtain xs ys where xy: "bc_nodes c = xs @ last l # ys" "bc_nodes (evict_one c) = xs @ ys"
  proof (cases "bc_less c = []")
    case True
    then have "bc_nodes c = butlast (bc_greater c) @ last l # []" "bc_nodes (evict_one c) = butlast (bc_greater c) @ []"
      unfolding nodes using lne by (simp_all add: l_def bc_nodes_def)
    then show thesis by (rule that)
  next
    case False
    then have "bc_nodes c = butlast (bc_less c) @ last l # bc_greater c"
      "bc_nodes (evict_one c) = butlast (bc_less c) @ bc_greater c"
      unfolding nodes by (simp_all add: l_def bc_nodes_def)
    then show thesis by (rule that)
  qed
  have vk: "victim c \<in> set (bc_map c)" "victim c \<notin> set (map ci_key (xs @ ys))"
    using ok d by (auto simp: cache_ok_def v xy(1))
  have m: "bc_map (evict_one c) = removeAll (victim c) (bc_map c)"
    by (simp add: evict_one_def victim_def)
  have len: "Suc (length (bc_map (evict_one c))) = length (bc_map c)"
  proof -
    have "distinct (bc_map c)" using ok by (simp add: cache_ok_def)
    then have "removeAll (victim c) (bc_map c) = remove1 (victim c) (bc_map c)"
      by (simp add: distinct_remove1_removeAll)
    then show ?thesis unfolding m using length_remove1 [of "victim c" "bc_map c"] vk(1) ne by simp
  qed
  have sub: "set (bc_less (evict_one c)) \<subseteq> set (bc_less c)" "set (bc_greater (evict_one c)) \<subseteq> set (bc_greater c)"
    by (auto simp: evict_one_def dest: in_set_butlastD)
  have f: "bc_k (evict_one c) = bc_k c" "bc_capacity (evict_one c) = bc_capacity c"
    "bc_total_requests (evict_one c) = bc_total_requests c" "bc_hit_requests (evict_one c) = bc_hit_requests c"
    by (simp_all add: evict_one_def)
  have d': "distinct (map ci_key (bc_nodes (evict_one c)))" using d by (simp add: xy)
  have "set (bc_map (evict_one c)) = set (map ci_key (bc_nodes (evict_one c)))"
    using ok vk(2) unfolding m xy(2) by (auto simp: cache_ok_def xy(1) v)
  then have okk: "cache_ok (evict_one c)"
    using ok sub len d' by (auto simp: cache_ok_def f m distinct_removeAll)
  moreover have "cached (evict_one c) = (cached c)(victim c := None)"
  proof
    fix x
    show "cached (evict_one c) x = ((cached c)(victim c := None)) x"
    proof (cases "x = victim c")
      case True
      then show ?thesis using vk(2) cached_None [of "evict_one c" x] by (simp add: xy)
    next
      case False
      have "cached (evict_one c) x = Some b \<longleftrightarrow> cached c x = Some b" for b
        unfolding cached_Some [OF d'] cached_Some [OF d] xy using False v by auto
      then have "cached (evict_one c) x = cached c x" by (metis option.exhaust)
      with False show ?thesis by simp
    qed
  qed
  ultimately show ?thesis using len f by simp
qed

lemma block_cache_put_facts:
  assumes "cache_ok c" "1 \<le> bc_k c" "1 \<le> bc_capacity c"
  shows "\<exists>c'. block_cache_put c s b (Some p) = Inr c' \<and> cache_ok c' \<and>
    cached c' = (if cached c (s, b) \<noteq> None then cached c
      else (if length (bc_map c) < bc_capacity c then cached c else (cached c)(victim c := None))
             ((s, b) \<mapsto> p))"
proof -
  have dom: "(s, b) \<in> set (bc_map c) \<longleftrightarrow> node_of c (s, b) \<noteq> None"
    using assms(1) node_of_None [of c "(s, b)"] by (auto simp: cache_ok_def)
  show ?thesis
  proof (cases "node_of c (s, b)")
    case (Some it)
    then have "block_cache_put c s b (Some p) = Inr (update_access_count c it)"
      using dom assms(2,3) by (simp add: block_cache_put_def)
    moreover have "cached c (s, b) \<noteq> None" using Some by (simp add: cached_def)
    ultimately show ?thesis using update_access_ok [OF assms(1) Some] by auto
  next
    case None
    define c1 where "c1 = (if bc_capacity c \<le> length (bc_map c) then evict_one c else c)"
    define it where "it = \<lparr>ci_sst_id = s, ci_block_id = b, ci_block = p, ci_access_count = 1\<rparr>"
    define c2 where "c2 = (if bc_k c = 1 then c1\<lparr>bc_greater := it # bc_greater c1\<rparr>
        else c1\<lparr>bc_less := it # bc_less c1\<rparr>)"
    define c3 where "c3 = c2\<lparr>bc_map := (s, b) # bc_map c2\<rparr>"
    have put: "block_cache_put c s b (Some p) = Inr c3"
      using None dom assms(2,3)
      by (simp add: block_cache_put_def c1_def [symmetric] it_def Let_def c2_def c3_def)
    have c1: "cache_ok c1" "length (bc_map c1) < bc_capacity c" "bc_k c1 = bc_k c" "bc_capacity c1 = bc_capacity c"
      "cached c1 = (if length (bc_map c) < bc_capacity c then cached c else (cached c)(victim c := None))"
    proof -
      have len: "length (bc_map c) \<le> bc_capacity c" using assms(1) by (simp add: cache_ok_def)
      have ne: "bc_map c \<noteq> []" if "bc_capacity c \<le> length (bc_map c)" using that assms(3) by auto
      note E = evict_one_ok [OF assms(1)]
      show "cache_ok c1" using E ne assms(1) by (simp add: c1_def)
      show "length (bc_map c1) < bc_capacity c" using E ne len by (auto simp: c1_def)
      show "bc_k c1 = bc_k c" "bc_capacity c1 = bc_capacity c" using E ne by (simp_all add: c1_def)
      show "cached c1 = (if length (bc_map c) < bc_capacity c then cached c else (cached c)(victim c := None))"
        using E ne by (simp add: c1_def)
    qed
    have cn: "cached c (s, b) = None" using None by (simp add: cached_def)
    then have "cached c1 (s, b) = None" by (simp add: c1(5))
    then have fresh: "(s, b) \<notin> set (map ci_key (bc_nodes c1))" by (rule cached_None [THEN iffD1])
    have key: "ci_key it = (s, b)" by (simp add: it_def ci_key_def)
    have nodes: "set (bc_nodes c3) = insert it (set (bc_nodes c1))"
      by (auto simp: c3_def c2_def bc_nodes_def)
    have d1: "distinct (map ci_key (bc_nodes c1))" using c1(1) by (simp add: cache_ok_def)
    have d3: "distinct (map ci_key (bc_nodes c3))"
      using d1 fresh by (auto simp: c3_def c2_def bc_nodes_def key)
    have "cache_ok c3"
    proof -
      have "set (bc_map c3) = set (map ci_key (bc_nodes c3))" "distinct (bc_map c3)"
        using c1(1) nodes fresh by (auto simp: cache_ok_def c3_def c2_def key)
      moreover have "(\<forall>x \<in> set (bc_less c3). 1 \<le> ci_access_count x \<and> ci_access_count x < bc_k c3) \<and>
          (\<forall>x \<in> set (bc_greater c3). ci_access_count x = bc_k c3)"
        using c1(1,3) assms(2) by (auto simp: cache_ok_def c3_def c2_def it_def)
      moreover have "length (bc_map c3) \<le> bc_capacity c3" "bc_hit_requests c3 \<le> bc_total_requests c3"
        using c1 by (auto simp: cache_ok_def c3_def c2_def)
      ultimately show ?thesis using d3 by (simp add: cache_ok_def)
    qed
    moreover have "cached c3 = (cached c1)((s, b) \<mapsto> p)"
    proof
      fix x
      show "cached c3 x = ((cached c1)((s, b) \<mapsto> p)) x"
      proof (cases "x = (s, b)")
        case True
        have "cached c3 (s, b) = Some p"
          using nodes key by (intro cached_Some [OF d3, THEN iffD2]) (auto simp: it_def ci_key_def)
        with True show ?thesis by simp
      next
        case False
        have "cached c3 x = Some y \<longleftrightarrow> cached c1 x = Some y" for y
          unfolding cached_Some [OF d3] cached_Some [OF d1] nodes using False key by auto
        then have "cached c3 x = cached c1 x" by (metis option.exhaust)
        with False show ?thesis by simp
      qed
    qed
    ultimately show ?thesis using put cn c1(5) by simp
  qed
qed

section \<open>Histories\<close>

datatype 'b cache_op = C_Get int int | C_Put int int "'b option"

text \<open>The answer of a call: the block of a lookup (nothing on a miss), or the exception.\<close>

primrec cache_exec :: "'b cache_op \<Rightarrow> 'b block_cache \<Rightarrow> 'b option result \<times> 'b block_cache" where
  "cache_exec (C_Get s b) c = (case block_cache_get c s b of (r, c') \<Rightarrow> (Inr r, c'))"
| "cache_exec (C_Put s b p) c = (case block_cache_put c s b p of Inl e \<Rightarrow> (Inl e, c) | Inr c' \<Rightarrow> (Inr None, c'))"

primrec cache_run :: "'b cache_op list \<Rightarrow> 'b block_cache \<Rightarrow> 'b option result list \<times> 'b block_cache" where
  "cache_run [] c = ([], c)"
| "cache_run (op # ops) c = (case cache_exec op c of (r, c1) \<Rightarrow>
     (case cache_run ops c1 of (rs, c2) \<Rightarrow> (r # rs, c2)))"

section \<open>The replacement policy\<close>

text \<open>The specification keeps the times of all uses of every cached block, newest first, and no
  order of the blocks. A block is cold as long as it was used fewer than \<open>k\<close> times. Among the
  cold blocks, or among all when none is cold, the one whose last use is the oldest has to go.\<close>

record 'b lru_entry =
  le_key :: cache_key
  le_block :: 'b
  le_uses :: "nat list"

definition last_use :: "'b lru_entry \<Rightarrow> nat" where
  "last_use e = hd (le_uses e)"

definition is_cold :: "nat \<Rightarrow> 'b lru_entry \<Rightarrow> bool" where
  "is_cold k e \<longleftrightarrow> length (le_uses e) < k"

definition lru_lookup :: "'b lru_entry list \<Rightarrow> cache_key \<Rightarrow> 'b option" where
  "lru_lookup es key = map_option le_block (find (\<lambda>e. le_key e = key) es)"

definition touch :: "nat \<Rightarrow> 'b lru_entry \<Rightarrow> 'b lru_entry" where
  "touch t e = e\<lparr>le_uses := t # le_uses e\<rparr>"

definition lru_use :: "nat \<Rightarrow> cache_key \<Rightarrow> 'b lru_entry list \<Rightarrow> 'b lru_entry list" where
  "lru_use t key es = map (\<lambda>e. if le_key e = key then touch t e else e) es"

definition lru_victim :: "nat \<Rightarrow> 'b lru_entry list \<Rightarrow> 'b lru_entry" where
  "lru_victim k es = arg_min_list last_use (if filter (is_cold k) es = [] then es else filter (is_cold k) es)"

definition lru_insert :: "nat \<Rightarrow> nat \<Rightarrow> nat \<Rightarrow> cache_key \<Rightarrow> 'b \<Rightarrow> 'b lru_entry list \<Rightarrow> 'b lru_entry list" where
  "lru_insert cap k t key b es =
     \<lparr>le_key = key, le_block = b, le_uses = [t]\<rparr> #
       (if cap \<le> length es then filter (\<lambda>e. le_key e \<noteq> le_key (lru_victim k es)) es else es)"

primrec lru_exec ::
  "nat \<Rightarrow> nat \<Rightarrow> nat \<Rightarrow> 'b cache_op \<Rightarrow> 'b lru_entry list \<Rightarrow> 'b option result \<times> 'b lru_entry list" where
  "lru_exec cap k t (C_Get s b) es = (Inr (lru_lookup es (s, b)), lru_use t (s, b) es)"
| "lru_exec cap k t (C_Put s b p) es =
     (if k = 0 then (Inl Runtime_Error, es)
      else case p of
        None \<Rightarrow> (Inl Invalid_Argument, es)
      | Some x \<Rightarrow> (Inr None,
          if cap = 0 then es
          else if lru_lookup es (s, b) \<noteq> None then lru_use t (s, b) es
          else lru_insert cap k t (s, b) x es))"

primrec lru_run ::
  "nat \<Rightarrow> nat \<Rightarrow> nat \<Rightarrow> 'b cache_op list \<Rightarrow> 'b lru_entry list \<Rightarrow> 'b option result list" where
  "lru_run cap k t [] es = []"
| "lru_run cap k t (op # ops) es = (case lru_exec cap k t op es of (r, es1) \<Rightarrow> r # lru_run cap k (Suc t) ops es1)"

section \<open>The lists are in order of last use\<close>

definition node_for :: "nat \<Rightarrow> 'b lru_entry \<Rightarrow> 'b cache_item" where
  "node_for k e = \<lparr>ci_sst_id = fst (le_key e), ci_block_id = snd (le_key e), ci_block = le_block e,
     ci_access_count = min k (length (le_uses e))\<rparr>"

definition recent_first :: "'b lru_entry list \<Rightarrow> bool" where
  "recent_first es \<longleftrightarrow> sorted_wrt (\<lambda>a b. last_use b < last_use a) es"

text \<open>\<open>lru_shows cap k t c es\<close>: at time \<open>t\<close> the two lists of the cache are the cold and the
  other entries, each in descending order of their last uses.\<close>

definition lru_shows :: "nat \<Rightarrow> nat \<Rightarrow> nat \<Rightarrow> 'b block_cache \<Rightarrow> 'b lru_entry list \<Rightarrow> bool" where
  "lru_shows cap k t c es \<longleftrightarrow> cache_ok c \<and> bc_capacity c = cap \<and> bc_k c = k \<and> distinct (map le_key es) \<and>
     (\<forall>e \<in> set es. le_uses e \<noteq> [] \<and> last_use e < t) \<and>
     (\<exists>cold hot. mset es = mset (cold @ hot) \<and> bc_less c = map (node_for k) cold \<and>
        bc_greater c = map (node_for k) hot \<and> recent_first cold \<and> recent_first hot \<and>
        (\<forall>e \<in> set cold. is_cold k e) \<and> (\<forall>e \<in> set hot. \<not> is_cold k e))"

lemma ci_key_node [simp]: "ci_key (node_for k e) = le_key e"
  by (simp add: ci_key_def node_for_def)

lemma lru_showsE:
  assumes "lru_shows cap k t c es"
  obtains cold hot where "cache_ok c" "bc_capacity c = cap" "bc_k c = k" "distinct (map le_key (cold @ hot))"
    "\<forall>e \<in> set (cold @ hot). le_uses e \<noteq> [] \<and> last_use e < t" "mset es = mset (cold @ hot)"
    "bc_less c = map (node_for k) cold" "bc_greater c = map (node_for k) hot" "recent_first cold" "recent_first hot"
    "\<forall>e \<in> set cold. is_cold k e" "\<forall>e \<in> set hot. \<not> is_cold k e"
proof -
  obtain cold hot where c: "mset es = mset (cold @ hot)" "bc_less c = map (node_for k) cold"
    "bc_greater c = map (node_for k) hot" "recent_first cold" "recent_first hot"
    "\<forall>e \<in> set cold. is_cold k e" "\<forall>e \<in> set hot. \<not> is_cold k e"
    using assms unfolding lru_shows_def by blast
  have "mset (map le_key es) = mset (map le_key (cold @ hot))" using c(1) by simp
  then have "distinct (map le_key (cold @ hot)) \<longleftrightarrow> distinct (map le_key es)" by (metis mset_eq_imp_distinct_iff)
  with assms have "distinct (map le_key (cold @ hot))" by (simp add: lru_shows_def)
  moreover have "set es = set (cold @ hot)" using c(1) by (metis set_mset_mset)
  ultimately show thesis using assms c by (intro that) (simp_all add: lru_shows_def)
qed

lemma distinct_key_split:
  assumes "distinct (map le_key (xs @ e # ys))"
  shows "remove_node (le_key e) (map (node_for k) (xs @ e # ys)) = map (node_for k) (xs @ ys)"
    "lru_use t (le_key e) (xs @ e # ys) = xs @ touch t e # ys"
    "filter (\<lambda>x. le_key x \<noteq> le_key e) (xs @ e # ys) = xs @ ys"
proof -
  have ne: "\<forall>x \<in> set xs. le_key x \<noteq> le_key e" "\<forall>x \<in> set ys. le_key x \<noteq> le_key e" using assms by (auto simp: image_iff)
  then have "filter (\<lambda>x. le_key x \<noteq> le_key e) xs = xs" "filter (\<lambda>x. le_key x \<noteq> le_key e) ys = ys"
    by (simp_all add: filter_id_conv)
  then show "filter (\<lambda>x. le_key x \<noteq> le_key e) (xs @ e # ys) = xs @ ys"
    "remove_node (le_key e) (map (node_for k) (xs @ e # ys)) = map (node_for k) (xs @ ys)"
    by (simp_all add: remove_node_def filter_map comp_def)
  show "lru_use t (le_key e) (xs @ e # ys) = xs @ touch t e # ys"
    using ne by (simp add: lru_use_def map_idI)
qed

lemma lru_node:
  assumes "lru_shows cap k t c es"
  shows "node_of c key = map_option (node_for k) (find (\<lambda>e. le_key e = key) es)"
proof -
  obtain cold hot where S: "cache_ok c" "mset es = mset (cold @ hot)" "bc_less c = map (node_for k) cold"
    "bc_greater c = map (node_for k) hot"
    by (rule lru_showsE [OF assms])
  have es: "set es = set (cold @ hot)" using S(2) by (metis set_mset_mset)
  have nodes: "set (bc_nodes c) = node_for k ` set es" unfolding es by (simp add: bc_nodes_def S(3,4) image_Un)
  have d: "distinct (map ci_key (bc_nodes c))" using S(1) by (simp add: cache_ok_def)
  show ?thesis
  proof (cases "find (\<lambda>e. le_key e = key) es")
    case None
    then have "key \<notin> set (map ci_key (bc_nodes c))" by (auto simp: nodes find_None_iff)
    then have "node_of c key = None" unfolding node_of_None .
    with None show ?thesis by simp
  next
    case (Some e)
    then have "e \<in> set es" "le_key e = key" by (auto simp: find_Some_iff)
    with node_of_unique [OF d, of "node_for k e"] Some show ?thesis by (simp add: nodes)
  qed
qed

lemma lru_cached: "lru_shows cap k t c es \<Longrightarrow> cached c key = lru_lookup es key"
  by (simp add: cached_def lru_lookup_def lru_node option.map_comp comp_def node_for_def)

lemma lru_shows_idle:
  assumes "lru_shows cap k t c es" "t \<le> t'"
  shows "lru_shows cap k t' c es"
  using assms unfolding lru_shows_def by (auto intro: less_le_trans)

lemma touch_simps [simp]:
  "le_key (touch t e) = le_key e" "last_use (touch t e) = t" "le_uses (touch t e) = t # le_uses e"
  by (simp_all add: touch_def last_use_def)

lemma lru_use_keys [simp]: "map le_key (lru_use t key es) = map le_key es" "length (lru_use t key es) = length es"
  by (simp_all add: lru_use_def comp_def if_distrib cong: if_cong)

lemma recent_first_touch:
  assumes "recent_first (xs @ ys)" "\<forall>x \<in> set (xs @ ys). last_use x < t"
  shows "recent_first (touch t e # xs @ ys)"
  using assms by (simp add: recent_first_def)

lemma recent_first_drop: "recent_first (xs @ e # ys) \<Longrightarrow> recent_first (xs @ ys)"
  by (auto simp: recent_first_def sorted_wrt_append)

text \<open>A use moves the node to the front of its list, and to the hot list when it is the k-th.\<close>

lemma lru_use_shows:
  assumes c: "lru_shows cap k t c es" and e: "e \<in> set es"
  shows "lru_shows cap k (Suc t) (update_access_count c (node_for k e)) (lru_use t (le_key e) es)"
proof -
  obtain cold hot where S: "cache_ok c" "bc_capacity c = cap" "bc_k c = k" "distinct (map le_key (cold @ hot))"
    "\<forall>e \<in> set (cold @ hot). le_uses e \<noteq> [] \<and> last_use e < t" "mset es = mset (cold @ hot)"
    "bc_less c = map (node_for k) cold" "bc_greater c = map (node_for k) hot" "recent_first cold" "recent_first hot"
    "\<forall>e \<in> set cold. is_cold k e" "\<forall>e \<in> set hot. \<not> is_cold k e"
    by (rule lru_showsE [OF c])
  let ?c = "update_access_count c (node_for k e)" and ?es = "lru_use t (le_key e) es"
  have es: "set es = set (cold @ hot)" using S(6) by (metis set_mset_mset)
  have de: "distinct (map le_key es)" using c by (simp add: lru_shows_def)
  then have "find (\<lambda>x. le_key x = le_key e) es = Some e"
    using e by (induction es) (auto simp: image_iff)
  then have "node_of c (le_key e) = Some (node_for k e)" using lru_node [OF c, of "le_key e"] by simp
  from update_access_ok [OF S(1) this] have ok: "cache_ok ?c" by blast
  have uses: "\<forall>x \<in> set ?es. le_uses x \<noteq> [] \<and> last_use x < Suc t"
    using S(5) es by (auto simp: lru_use_def less_Suc_eq)
  have ms: "mset ?es = mset (lru_use t (le_key e) (cold @ hot))" using S(6) by (simp add: lru_use_def)
  have count: "ci_access_count (node_for k e) = min k (length (le_uses e))" by (simp add: node_for_def)
  have touched: "node_for k (touch t e) = (node_for k e)\<lparr>ci_access_count := min k (Suc (length (le_uses e)))\<rparr>"
    by (simp add: node_for_def touch_def)
  have "\<exists>cold hot. mset ?es = mset (cold @ hot) \<and> bc_less ?c = map (node_for k) cold \<and>
        bc_greater ?c = map (node_for k) hot \<and> recent_first cold \<and> recent_first hot \<and>
        (\<forall>e \<in> set cold. is_cold k e) \<and> (\<forall>e \<in> set hot. \<not> is_cold k e)"
  proof (cases "e \<in> set cold")
    case True
    then obtain xs ys where xy: "cold = xs @ e # ys" by (auto simp: in_set_conv_decomp)
    have d: "distinct (map le_key (xs @ e # ys @ hot))" "distinct (map le_key (xs @ e # ys))" using S(4) by (auto simp: xy)
    have len: "length (le_uses e) < k" using S(11) True by (simp add: is_cold_def)
    have m: "mset ?es = add_mset (touch t e) (mset (xs @ ys) + mset hot)"
      unfolding ms xy using distinct_key_split(2) [OF d(1), of t] by simp
    note R = distinct_key_split(1) [OF d(2), of k]
    show ?thesis
    proof (cases "Suc (length (le_uses e)) = k")
      case True
      then have "bc_less ?c = map (node_for k) (xs @ ys)" "bc_greater ?c = map (node_for k) (touch t e # hot)"
        using len R by (simp_all add: update_access_count_def Let_def S(3,7,8) count touched xy)
      moreover have "recent_first (touch t e # hot)"
        using recent_first_touch [of "[]" hot t e] S(5,10) by simp
      moreover have "recent_first (xs @ ys)" using recent_first_drop S(9) by (simp add: xy)
      ultimately show ?thesis
        using m S(11,12) True by (intro exI [of _ "xs @ ys"] exI [of _ "touch t e # hot"]) (simp add: xy is_cold_def)
    next
      case False
      then have "bc_less ?c = map (node_for k) (touch t e # xs @ ys)" "bc_greater ?c = map (node_for k) hot"
        using len R by (simp_all add: update_access_count_def Let_def S(3,7,8) count touched xy)
      moreover have "recent_first (touch t e # xs @ ys)"
        by (rule recent_first_touch [OF recent_first_drop]) (use S(5,9) in \<open>auto simp: xy\<close>)
      ultimately show ?thesis
        using m S(10-12) False len by (intro exI [of _ "touch t e # xs @ ys"] exI [of _ hot]) (simp add: xy is_cold_def)
    qed
  next
    case False
    then obtain xs ys where xy: "hot = xs @ e # ys" using e es by (auto simp: in_set_conv_decomp)
    have d: "distinct (map le_key ((cold @ xs) @ e # ys))" "distinct (map le_key (xs @ e # ys))" using S(4) by (auto simp: xy)
    have len: "\<not> length (le_uses e) < k" using S(12) by (simp add: is_cold_def xy)
    have m: "mset ?es = mset cold + add_mset (touch t e) (mset (xs @ ys))"
      unfolding ms xy using distinct_key_split(2) [OF d(1), of t] by simp
    have "bc_less ?c = map (node_for k) cold" "bc_greater ?c = map (node_for k) (touch t e # xs @ ys)"
      using len distinct_key_split(1) [OF d(2), of k]
      by (simp_all add: update_access_count_def Let_def S(3,7,8) touched xy) (simp_all add: node_for_def)
    moreover have "recent_first (touch t e # xs @ ys)"
      by (rule recent_first_touch [OF recent_first_drop]) (use S(5,10) in \<open>auto simp: xy\<close>)
    ultimately show ?thesis
      using m S(9,11,12) len by (intro exI [of _ cold] exI [of _ "touch t e # xs @ ys"]) (simp add: xy is_cold_def)
  qed
  then show ?thesis using ok S(2,3) de uses unfolding lru_shows_def by simp
qed

lemma arg_min_oldest:
  assumes "mset ys = mset (xs @ [e])" "recent_first (xs @ [e])"
  shows "arg_min_list last_use ys = e"
proof -
  let ?x = "arg_min_list last_use ys"
  have ys: "set ys = set (xs @ [e])" using assms(1) by (metis set_mset_mset)
  then have ne: "ys \<noteq> []" by auto
  have "last_use ?x \<le> last_use e"
    unfolding f_arg_min_list_f [OF ne] using ys by (intro Min_le) auto
  moreover have "?x \<in> set (xs @ [e])" using arg_min_list_in [OF ne, of last_use] unfolding ys .
  moreover have "last_use e < last_use x" if "x \<in> set xs" for x
    using assms(2) that by (simp add: recent_first_def sorted_wrt_append)
  ultimately show ?thesis by (metis in_set_conv_decomp insert_iff list.simps(15) not_less rotate1.simps(2) set_rotate1)
qed

lemma recent_first_butlast: "recent_first es \<Longrightarrow> recent_first (butlast es)"
  by (cases es rule: rev_cases) (auto simp: recent_first_def sorted_wrt_append)

text \<open>The tail of the list that \<open>put\<close> looks at is the victim.\<close>

lemma lru_evict_shows:
  assumes c: "lru_shows cap k t c es" and ne: "es \<noteq> []"
  shows "lru_shows cap k t (evict_one c) (filter (\<lambda>e. le_key e \<noteq> le_key (lru_victim k es)) es)"
proof -
  obtain cold hot where S: "cache_ok c" "bc_capacity c = cap" "bc_k c = k" "distinct (map le_key (cold @ hot))"
    "\<forall>e \<in> set (cold @ hot). le_uses e \<noteq> [] \<and> last_use e < t" "mset es = mset (cold @ hot)"
    "bc_less c = map (node_for k) cold" "bc_greater c = map (node_for k) hot" "recent_first cold" "recent_first hot"
    "\<forall>e \<in> set cold. is_cold k e" "\<forall>e \<in> set hot. \<not> is_cold k e"
    by (rule lru_showsE [OF c])
  have "mset (filter (is_cold k) es) = mset (filter (is_cold k) (cold @ hot))" using S(6) by simp
  also have "filter (is_cold k) (cold @ hot) = cold" using S(11,12) by simp
  finally have fc: "mset (filter (is_cold k) es) = mset cold" .
  let ?rest = "filter (\<lambda>e. le_key e \<noteq> le_key (lru_victim k es)) es"
  have ms: "mset ?rest = mset (filter (\<lambda>e. le_key e \<noteq> le_key (lru_victim k es)) (cold @ hot))"
    using S(6) by simp
  have nodes: "bc_less c @ bc_greater c \<noteq> []" using ne S(6-8) by auto
  then have map: "bc_map c \<noteq> []" using S(1) by (auto simp: cache_ok_def bc_nodes_def)
  note E = evict_one_ok [OF S(1) map]
  have parts: "\<exists>cold' hot'. mset ?rest = mset (cold' @ hot') \<and> bc_less (evict_one c) = map (node_for k) cold' \<and>
        bc_greater (evict_one c) = map (node_for k) hot' \<and> recent_first cold' \<and> recent_first hot' \<and>
        (\<forall>e \<in> set cold'. is_cold k e) \<and> (\<forall>e \<in> set hot'. \<not> is_cold k e)"
  proof (cases cold rule: rev_cases)
    case Nil
    then obtain xs e where xe: "hot = xs @ [e]" using nodes S(7,8) by (cases hot rule: rev_cases) auto
    have "filter (is_cold k) es = []" using fc Nil by simp
    then have "lru_victim k es = e" using arg_min_oldest [of es xs e] S(6,10) Nil xe by (simp add: lru_victim_def)
    moreover have "filter (\<lambda>x. le_key x \<noteq> le_key e) (xs @ e # []) = xs @ []"
      by (rule distinct_key_split(3)) (use S(4) Nil xe in simp)
    ultimately have "mset ?rest = mset xs" unfolding ms Nil xe by simp
    then show ?thesis
      using S(7-12) Nil xe recent_first_butlast [OF S(10)]
      by (intro exI [of _ "[]"] exI [of _ xs]) (simp add: evict_one_def recent_first_def)
  next
    case (snoc xs e)
    then have "mset (filter (is_cold k) es) \<noteq> {#}" unfolding fc by simp
    then have "filter (is_cold k) es \<noteq> []" by (metis mset.simps(1))
    then have "lru_victim k es = e"
      using arg_min_oldest [of "filter (is_cold k) es" xs e] fc S(9) snoc by (simp add: lru_victim_def)
    moreover have "filter (\<lambda>x. le_key x \<noteq> le_key e) (xs @ e # hot) = xs @ hot"
      by (rule distinct_key_split(3)) (use S(4) snoc in simp)
    ultimately have "mset ?rest = mset (xs @ hot)" unfolding ms snoc by simp
    then show ?thesis
      using S(7-12) snoc recent_first_butlast [OF S(9)]
      by (intro exI [of _ xs] exI [of _ hot]) (simp add: evict_one_def)
  qed
  have "distinct (map le_key ?rest)" using c by (simp add: lru_shows_def distinct_map_filter)
  with parts E S(2,3) c show ?thesis by (auto simp: lru_shows_def)
qed

lemma lru_size:
  assumes "lru_shows cap k t c es"
  shows "length (bc_map c) = length es"
proof -
  obtain cold hot where S: "cache_ok c" "mset es = mset (cold @ hot)" "bc_less c = map (node_for k) cold"
    "bc_greater c = map (node_for k) hot"
    by (rule lru_showsE [OF assms])
  have "length (bc_map c) = length (map ci_key (bc_nodes c))"
    using S(1) unfolding cache_ok_def by (metis distinct_card)
  also have "\<dots> = length (cold @ hot)" by (simp add: bc_nodes_def S(3,4))
  also have "\<dots> = length es" using S(2) by (metis mset_eq_length)
  finally show ?thesis .
qed

lemma lru_insert_shows:
  assumes c: "lru_shows cap k t c es" and kc: "1 \<le> k" "1 \<le> cap" and new: "lru_lookup es (s, b) = None"
  shows "\<exists>c'. block_cache_put c s b (Some p) = Inr c' \<and> lru_shows cap k (Suc t) c' (lru_insert cap k t (s, b) p es)"
proof -
  have ok: "cache_ok c" "bc_k c = k" "bc_capacity c = cap" using c by (simp_all add: lru_shows_def)
  define c1 where "c1 = (if cap \<le> length (bc_map c) then evict_one c else c)"
  define es1 where "es1 = (if cap \<le> length es then filter (\<lambda>e. le_key e \<noteq> le_key (lru_victim k es)) es else es)"
  define e where "e = \<lparr>le_key = (s, b), le_block = p, le_uses = [t]\<rparr>"
  have "es \<noteq> []" if "cap \<le> length es" using that kc by auto
  then have c1: "lru_shows cap k t c1 es1"
    using lru_evict_shows [OF c] c lru_size [OF c] by (simp add: c1_def es1_def)
  obtain cold hot where S: "bc_k c1 = k" "bc_capacity c1 = cap" "distinct (map le_key (cold @ hot))"
    "\<forall>e \<in> set (cold @ hot). le_uses e \<noteq> [] \<and> last_use e < t" "mset es1 = mset (cold @ hot)"
    "bc_less c1 = map (node_for k) cold" "bc_greater c1 = map (node_for k) hot" "recent_first cold" "recent_first hot"
    "\<forall>e \<in> set cold. is_cold k e" "\<forall>e \<in> set hot. \<not> is_cold k e"
    by (rule lru_showsE [OF c1])
  obtain c' where c': "block_cache_put c s b (Some p) = Inr c'" "cache_ok c'"
    using block_cache_put_facts [OF ok(1), of s b p] kc ok by auto
  have absent: "(s, b) \<notin> le_key ` set es" using new by (auto simp: lru_lookup_def find_None_iff)
  have none: "node_of c (s, b) = None" using lru_node [OF c, of "(s, b)"] new by (simp add: lru_lookup_def)
  have node: "\<lparr>ci_sst_id = s, ci_block_id = b, ci_block = p, ci_access_count = 1\<rparr> = node_for k e"
    using kc(1) by (simp add: node_for_def e_def)
  have miss: "(if (s, b) \<in> set (bc_map c) then node_of c (s, b) else None) = None" using none by simp
  have "c' = (if k = 1 then c1\<lparr>bc_greater := node_for k e # bc_greater c1, bc_map := (s, b) # bc_map c1\<rparr>
      else c1\<lparr>bc_less := node_for k e # bc_less c1, bc_map := (s, b) # bc_map c1\<rparr>)"
    using c'(1) kc unfolding block_cache_put_def ok(2,3) Let_def c1_def [symmetric] miss node option.case
    by (simp split: if_splits)
  then have lists: "bc_less c' = (if k = 1 then bc_less c1 else node_for k e # bc_less c1)"
    "bc_greater c' = (if k = 1 then node_for k e # bc_greater c1 else bc_greater c1)" "bc_k c' = k" "bc_capacity c' = cap"
    by (simp_all add: S(1,2))
  have es1: "set es1 \<subseteq> set es" by (auto simp: es1_def)
  have last: "last_use e = t" by (simp add: e_def last_use_def)
  have front: "recent_first xs \<Longrightarrow> set xs \<subseteq> set (cold @ hot) \<Longrightarrow> recent_first (e # xs)" for xs
    using S(4) by (auto simp: recent_first_def last)
  have "\<exists>cold' hot'. mset (e # es1) = mset (cold' @ hot') \<and> bc_less c' = map (node_for k) cold' \<and>
        bc_greater c' = map (node_for k) hot' \<and> recent_first cold' \<and> recent_first hot' \<and>
        (\<forall>e \<in> set cold'. is_cold k e) \<and> (\<forall>e \<in> set hot'. \<not> is_cold k e)"
  proof (cases "k = 1")
    case True
    then show ?thesis using S(5-11) lists front [OF S(9)]
      by (intro exI [of _ cold] exI [of _ "e # hot"]) (simp add: is_cold_def e_def)
  next
    case False
    then show ?thesis using S(5-11) lists front [OF S(8)] kc(1)
      by (intro exI [of _ "e # cold"] exI [of _ hot]) (simp add: is_cold_def e_def)
  qed
  moreover have "distinct (map le_key (e # es1))" using c1 absent es1 by (auto simp: lru_shows_def e_def)
  moreover have "\<forall>x \<in> set (e # es1). le_uses x \<noteq> [] \<and> last_use x < Suc t"
    using c1 last by (auto simp: lru_shows_def less_Suc_eq e_def)
  ultimately have "lru_shows cap k (Suc t) c' (e # es1)" using c'(2) lists(3,4) by (simp add: lru_shows_def)
  then show ?thesis using c'(1) by (simp add: lru_insert_def e_def es1_def)
qed

lemma lru_exec_shows:
  assumes c: "lru_shows cap k t c es" and x: "cache_exec op c = (r, c')"
  shows "\<exists>es'. lru_exec cap k t op es = (r, es') \<and> lru_shows cap k (Suc t) c' es'"
proof (cases op)
  case (C_Get s b)
  define c1 where "c1 = c\<lparr>bc_total_requests := bc_total_requests c + 1\<rparr>"
  define c2 where "c2 = c1\<lparr>bc_hit_requests := bc_hit_requests c1 + 1\<rparr>"
  have c12: "lru_shows cap k t c1 es" "lru_shows cap k t c2 es"
    using c by (auto simp: lru_shows_def cache_ok_def c1_def c2_def bc_nodes_def)
  have ok: "cache_ok c" using c by (simp add: lru_shows_def)
  have dom: "(s, b) \<in> set (bc_map c1) \<longleftrightarrow> node_of c1 (s, b) \<noteq> None"
    using c12(1) node_of_None [of c1 "(s, b)"] by (auto simp: lru_shows_def cache_ok_def)
  show ?thesis
  proof (cases "find (\<lambda>e. le_key e = (s, b)) es")
    case None
    then have "node_of c1 (s, b) = None" using lru_node [OF c12(1)] by simp
    then have "block_cache_get c s b = (None, c1)" using dom by (simp add: block_cache_get_def c1_def)
    then have rc: "r = Inr None" "c' = c1" using x C_Get by simp_all
    have "lru_use t (s, b) es = es" using None by (auto simp: lru_use_def find_None_iff intro: map_idI)
    then show ?thesis using None rc lru_shows_idle [OF c12(1)] by (simp add: C_Get lru_lookup_def)
  next
    case (Some e)
    then have e: "e \<in> set es" "le_key e = (s, b)" by (auto simp: find_Some_iff)
    have "node_of c1 (s, b) = Some (node_for k e)" "node_of c2 (s, b) = Some (node_for k e)"
      using lru_node [OF c12(1)] lru_node [OF c12(2)] Some by simp_all
    then have "block_cache_get c s b = (Some (ci_block (node_for k e)), update_access_count c2 (node_for k e))"
      using dom unfolding block_cache_get_def Let_def c1_def [symmetric] c2_def [symmetric] by simp
    then have rc: "r = Inr (Some (le_block e))" "c' = update_access_count c2 (node_for k e)"
      using x C_Get by (simp_all add: node_for_def)
    show ?thesis using lru_use_shows [OF c12(2) e(1)] Some rc by (simp add: C_Get lru_lookup_def e(2))
  qed
next
  case (C_Put s b p)
  have kc: "bc_k c = k" "bc_capacity c = cap" using c by (simp_all add: lru_shows_def)
  show ?thesis
  proof (cases "k = 0 \<or> p = None \<or> cap = 0")
    case True
    then show ?thesis using x C_Put kc lru_shows_idle [OF c]
      by (auto simp: block_cache_put_def split: option.split)
  next
    case False
    then obtain q where q: "p = Some q" "1 \<le> k" "1 \<le> cap" by auto
    show ?thesis
    proof (cases "find (\<lambda>e. le_key e = (s, b)) es")
      case None
      then have "lru_lookup es (s, b) = None" by (simp add: lru_lookup_def)
      with lru_insert_shows [OF c q(2,3) this, of q] x C_Put q show ?thesis by auto
    next
      case (Some e)
      then have e: "e \<in> set es" "le_key e = (s, b)" by (auto simp: find_Some_iff)
      have n: "node_of c (s, b) = Some (node_for k e)" using lru_node [OF c] Some by simp
      then have "(s, b) \<in> set (bc_map c)" using c node_of_None [of c "(s, b)"] by (auto simp: lru_shows_def cache_ok_def)
      then have "block_cache_put c s b p = Inr (update_access_count c (node_for k e))"
        using n q kc by (simp add: block_cache_put_def)
      then show ?thesis using lru_use_shows [OF c e(1)] x C_Put q Some by (simp add: lru_lookup_def e(2))
    qed
  qed
qed

lemma lru_run_shows:
  "lru_shows cap k t c es \<Longrightarrow> fst (cache_run ops c) = lru_run cap k t ops es"
proof (induction ops arbitrary: t c es)
  case (Cons op ops)
  obtain r c1 where c1: "cache_exec op c = (r, c1)" by fastforce
  obtain es1 where "lru_exec cap k t op es = (r, es1)" "lru_shows cap k (Suc t) c1 es1"
    using lru_exec_shows [OF Cons.prems c1] by blast
  with Cons.IH c1 show ?case by (simp add: case_prod_unfold)
qed simp

text \<open>The counters of \<open>hit_rate\<close>.\<close>

definition is_lookup :: "'b cache_op \<Rightarrow> bool" where
  "is_lookup op \<longleftrightarrow> (case op of C_Get s b \<Rightarrow> True | C_Put s b p \<Rightarrow> False)"

definition is_hit :: "'b option result \<Rightarrow> bool" where
  "is_hit r \<longleftrightarrow> (case r of Inl e \<Rightarrow> False | Inr x \<Rightarrow> x \<noteq> None)"

lemma exec_counts:
  assumes "cache_ok c" "cache_exec op c = (r, c')"
  shows "bc_total_requests c' = bc_total_requests c + (if is_lookup op then 1 else 0) \<and>
    bc_hit_requests c' = bc_hit_requests c + (if is_hit r then 1 else 0)"
proof (cases op)
  case (C_Get s b)
  with assms block_cache_get_facts [OF assms(1), of s b] show ?thesis
    by (auto simp: is_lookup_def is_hit_def split: prod.splits)
next
  case (C_Put s b p)
  with assms(2) show ?thesis
    by (auto simp: is_lookup_def is_hit_def block_cache_put_def evict_one_def Let_def split: option.splits if_splits)
qed

lemma run_counts:
  "lru_shows cap k t c es \<Longrightarrow> cache_run ops c = (rs, c') \<Longrightarrow>
   bc_total_requests c' = bc_total_requests c + length (filter is_lookup ops) \<and>
   bc_hit_requests c' = bc_hit_requests c + length (filter is_hit rs)"
proof (induction ops arbitrary: t c es rs)
  case (Cons op ops)
  obtain r c1 where c1: "cache_exec op c = (r, c1)" by fastforce
  obtain rs1 where rs1: "cache_run ops c1 = (rs1, c')" "rs = r # rs1"
    using Cons.prems(2) c1 by (auto split: prod.splits)
  obtain es1 where "lru_shows cap k (Suc t) c1 es1" using lru_exec_shows [OF Cons.prems(1) c1] by blast
  from Cons.IH [OF this rs1(1)] exec_counts [OF _ c1] Cons.prems(1) rs1(2) show ?case
    by (simp add: lru_shows_def)
qed simp

lemma lru_shows_new: "lru_shows cap k 0 (block_cache_new cap k) []"
  using cache_new_ok [of cap k] by (auto simp: lru_shows_def block_cache_new_def recent_first_def intro!: exI [of _ "[]"])

text \<open>C33: the cache answers every sequence of lookups and insertions as the replacement policy
  says. The policy knows the times of all uses of every cached block; when the cache is full, the
  new block replaces, among the blocks used fewer than k times, the one whose last use is the
  oldest, and among all blocks when each was used k times. A lookup that hits and an insertion of
  a cached block both count as uses (the cached block stays, the new pointer is dropped). With k = 0
  and for a null pointer an insertion throws and changes nothing; with capacity 0 nothing is kept.
  The two counters of the hit rate are the number of lookups and the number of hits.\<close>

theorem block_cache_history:
  "\<exists>c. cache_run ops (block_cache_new cap k) = (lru_run cap k 0 ops [], c) \<and>
     bc_total_requests c = length (filter is_lookup ops) \<and>
     bc_hit_requests c = length (filter is_hit (lru_run cap k 0 ops []))"
proof -
  obtain rs c where run: "cache_run ops (block_cache_new cap k) = (rs, c)" by fastforce
  moreover have "rs = lru_run cap k 0 ops []" using lru_run_shows [OF lru_shows_new, of ops cap k] run by simp
  moreover note run_counts [OF lru_shows_new run]
  ultimately show ?thesis by (simp add: block_cache_new_def)
qed

text \<open>Capacity 2 and k = 2: the block (1, 0) was looked up, so (1, 1) is the victim although it
  came in later.\<close>

definition sample_cache_ops :: "nat cache_op list" where
  "sample_cache_ops = [C_Put 1 0 (Some 7), C_Get 1 0, C_Put 1 1 (Some 8), C_Put 1 2 (Some 9), C_Get 1 0, C_Get 1 1,
     C_Put 1 3 None]"

theorem block_cache_history_witness:
  "\<exists>c. cache_run sample_cache_ops (block_cache_new 2 2) =
      ([Inr None, Inr (Some 7), Inr None, Inr None, Inr (Some 7), Inr None, Inl Invalid_Argument], c) \<and>
    bc_total_requests c = 3 \<and> bc_hit_requests c = 2"
proof -
  have "lru_run 2 2 0 sample_cache_ops [] =
      [Inr None, Inr (Some 7), Inr None, Inr None, Inr (Some 7), Inr None, Inl Invalid_Argument]"
    by (simp add: sample_cache_ops_def lru_lookup_def lru_use_def lru_insert_def lru_victim_def is_cold_def last_use_def
        touch_def)
  moreover have "length (filter is_lookup sample_cache_ops) = 3" by (simp add: sample_cache_ops_def is_lookup_def)
  ultimately show ?thesis using block_cache_history [of sample_cache_ops 2 2] by (simp add: is_hit_def numeral_2_eq_2)
qed

section \<open>A scan does not displace hot blocks\<close>

lemma get_hit_counts:
  assumes ok: "cache_ok c" and it: "node_of c (s, b) = Some it"
  shows "\<exists>c' it'. block_cache_get c s b = (Some (ci_block it), c') \<and> cache_ok c' \<and> bc_k c' = bc_k c \<and>
    bc_capacity c' = bc_capacity c \<and> cached c' = cached c \<and> node_of c' (s, b) = Some it' \<and>
    ci_access_count it' = min (bc_k c) (Suc (ci_access_count it))"
proof -
  define c2 where "c2 = c\<lparr>bc_total_requests := bc_total_requests c + 1, bc_hit_requests := bc_hit_requests c + 1\<rparr>"
  define it' where "it' = (if ci_access_count it < bc_k c then it\<lparr>ci_access_count := ci_access_count it + 1\<rparr> else it)"
  have ok2: "cache_ok c2" using ok by (simp add: c2_def cache_ok_def bc_nodes_def)
  have it2: "node_of c2 (s, b) = Some it" using it by (simp add: node_of_def c2_def)
  have mem: "it \<in> set (bc_nodes c)" "ci_key it = (s, b)" using node_of_Some [OF it] by auto
  have dom: "(s, b) \<in> set (bc_map c)" using ok it node_of_None [of c "(s, b)"] by (auto simp: cache_ok_def)
  have get: "block_cache_get c s b = (Some (ci_block it), update_access_count c2 it)"
    using dom it2 by (simp add: block_cache_get_def c2_def)
  note U = update_access_ok [OF ok2 it2]
  have count: "ci_access_count it \<le> bc_k c"
    using ok mem(1) by (force simp: cache_ok_def bc_nodes_def)
  have "it' \<in> set (bc_nodes (update_access_count c2 it))"
    by (simp add: update_access_count_def Let_def bc_nodes_def it'_def c2_def)
  moreover have "distinct (map ci_key (bc_nodes (update_access_count c2 it)))" using U by (simp add: cache_ok_def)
  ultimately have "node_of (update_access_count c2 it) (ci_key it') = Some it'" by (intro node_of_unique)
  moreover have "ci_key it' = (s, b)" using mem(2) by (simp add: it'_def)
  moreover have "ci_access_count it' = min (bc_k c) (Suc (ci_access_count it))" using count by (simp add: it'_def)
  moreover have "cached c2 = cached c" by (auto simp: cached_def node_of_def c2_def)
  ultimately show ?thesis using get U by (simp add: c2_def)
qed

lemma gets_make_hot:
  "cache_ok c \<Longrightarrow> node_of c (s, b) = Some it \<Longrightarrow> c' = snd (cache_run (replicate n (C_Get s b)) c) \<Longrightarrow>
   cache_ok c' \<and> bc_k c' = bc_k c \<and> bc_capacity c' = bc_capacity c \<and> cached c' = cached c \<and>
   (\<exists>it'. node_of c' (s, b) = Some it' \<and> min (bc_k c) (ci_access_count it + n) \<le> ci_access_count it')"
proof (induction n arbitrary: c it)
  case (Suc n)
  obtain c1 it1 where c1: "block_cache_get c s b = (Some (ci_block it), c1)" "cache_ok c1" "bc_k c1 = bc_k c"
    "bc_capacity c1 = bc_capacity c" "cached c1 = cached c" "node_of c1 (s, b) = Some it1"
    "ci_access_count it1 = min (bc_k c) (Suc (ci_access_count it))"
    using get_hit_counts [OF Suc.prems(1,2)] by blast
  have "c' = snd (cache_run (replicate n (C_Get s b)) c1)"
    using Suc.prems(3) c1(1) by (simp add: case_prod_unfold)
  from Suc.IH [OF c1(2,6) this] obtain it' where "cache_ok c'" "bc_k c' = bc_k c" "bc_capacity c' = bc_capacity c"
    "cached c' = cached c" "node_of c' (s, b) = Some it'" "min (bc_k c) (ci_access_count it1 + n) \<le> ci_access_count it'"
    using c1(3-5) by auto
  then show ?case using c1(7) by auto
qed simp

lemma cold_put:
  assumes "cache_ok c" "2 \<le> bc_k c" "length (bc_greater c) < bc_capacity c" "cached c (s, b) = None"
  shows "\<exists>c'. block_cache_put c s b (Some q) = Inr c' \<and> cache_ok c' \<and> bc_k c' = bc_k c \<and>
    bc_capacity c' = bc_capacity c \<and> bc_greater c' = bc_greater c \<and>
    (\<forall>x. x \<noteq> (s, b) \<longrightarrow> cached c x = None \<longrightarrow> cached c' x = None)"
proof -
  define c1 where "c1 = (if bc_capacity c \<le> length (bc_map c) then evict_one c else c)"
  have "length (bc_map c) = length (map ci_key (bc_nodes c))"
    using assms(1) unfolding cache_ok_def by (metis distinct_card)
  then have "bc_less c \<noteq> []" if "bc_capacity c \<le> length (bc_map c)"
    using that assms(3) by (auto simp: bc_nodes_def)
  then have c1: "bc_greater c1 = bc_greater c" "bc_k c1 = bc_k c" "bc_capacity c1 = bc_capacity c"
    by (simp_all add: c1_def evict_one_def)
  have k: "1 \<le> bc_k c" "1 \<le> bc_capacity c" using assms(2,3) by auto
  from block_cache_put_facts [OF assms(1) k, of s b q] obtain c' where
    c': "block_cache_put c s b (Some q) = Inr c'" "cache_ok c'"
      "cached c' = (if length (bc_map c) < bc_capacity c then cached c else (cached c)(victim c := None))((s, b) \<mapsto> q)"
    using assms(4) by auto
  have none: "node_of c (s, b) = None" using assms(4) by (simp add: cached_def)
  then have miss: "(if (s, b) \<in> set (bc_map c) then node_of c (s, b) else None) = None" by simp
  have nz: "bc_k c \<noteq> 0" "bc_capacity c \<noteq> 0" "bc_k c \<noteq> 1" using assms(2,3) by auto
  have "bc_greater c' = bc_greater c \<and> bc_k c' = bc_k c \<and> bc_capacity c' = bc_capacity c"
    using c'(1) unfolding block_cache_put_def if_not_P [OF nz(1)] if_not_P [OF nz(2)] if_not_P [OF nz(3)]
      option.case Let_def c1_def [symmetric] miss by (auto simp: c1)
  moreover have "\<forall>x. x \<noteq> (s, b) \<longrightarrow> cached c x = None \<longrightarrow> cached c' x = None" by (simp add: c'(3))
  ultimately show ?thesis using c'(1,2) by blast
qed

definition scan_puts :: "(cache_key \<times> 'b) list \<Rightarrow> 'b cache_op list" where
  "scan_puts new = map (\<lambda>x. C_Put (fst (fst x)) (snd (fst x)) (Some (snd x))) new"

lemma scan_keeps_hot:
  "cache_ok c \<Longrightarrow> 2 \<le> bc_k c \<Longrightarrow> length (bc_greater c) < bc_capacity c \<Longrightarrow> distinct (map fst new) \<Longrightarrow>
   \<forall>x \<in> set new. cached c (fst x) = None \<Longrightarrow> c' = snd (cache_run (scan_puts new) c) \<Longrightarrow>
   cache_ok c' \<and> bc_greater c' = bc_greater c"
proof (induction new arbitrary: c)
  case (Cons x new)
  obtain s b q where x: "x = ((s, b), q)" by (metis surj_pair)
  obtain c1 where c1: "block_cache_put c s b (Some q) = Inr c1" "cache_ok c1" "bc_k c1 = bc_k c"
    "bc_capacity c1 = bc_capacity c" "bc_greater c1 = bc_greater c"
    "\<forall>y. y \<noteq> (s, b) \<longrightarrow> cached c y = None \<longrightarrow> cached c1 y = None"
    using cold_put [OF Cons.prems(1-3), of s b q] Cons.prems(5) x by auto
  have "\<forall>y \<in> set new. cached c1 (fst y) = None" using Cons.prems(4,5) c1(6) x by force
  moreover have "c' = snd (cache_run (scan_puts new) c1)"
    using Cons.prems(6) c1(1) x by (simp add: scan_puts_def case_prod_unfold)
  ultimately show ?case using Cons.IH [of c1] Cons.prems(2-4) c1 by simp
qed (simp add: scan_puts_def)

text \<open>C34: a block that is looked up k - 1 times after it came in is hot, and a scan does not
  displace it: as long as the hot blocks alone do not fill the cache, any number of insertions of
  new blocks, each once, leave it in the cache, whatever was cached before.\<close>

theorem scan_keeps_hot_block:
  assumes "cache_ok c" "2 \<le> bc_k c" "cached c (s, b) = Some p"
    and hot: "c' = snd (cache_run (replicate (bc_k c - 1) (C_Get s b)) c)" "length (bc_greater c') < bc_capacity c"
    and new: "distinct (map fst new)" "\<forall>x \<in> set new. cached c (fst x) = None"
  shows "fst (block_cache_get (snd (cache_run (scan_puts new) c')) s b) = Some p"
proof -
  define c2 where "c2 = snd (cache_run (scan_puts new) c')"
  obtain it where it: "node_of c (s, b) = Some it" using assms(3) by (auto simp: cached_def)
  have "1 \<le> ci_access_count it"
    using node_of_Some [OF it] assms(1,2) by (force simp: cache_ok_def bc_nodes_def)
  then have full: "min (bc_k c) (ci_access_count it + (bc_k c - 1)) = bc_k c" by simp
  from gets_make_hot [OF assms(1) it hot(1), unfolded full] obtain it' where
    it': "cache_ok c'" "bc_k c' = bc_k c" "bc_capacity c' = bc_capacity c" "cached c' = cached c"
      "node_of c' (s, b) = Some it'" "bc_k c \<le> ci_access_count it'" by blast
  have "it' \<notin> set (bc_less c')" using it'(1,2,6) by (auto simp: cache_ok_def)
  then have in_hot: "it' \<in> set (bc_greater c')" using node_of_Some [OF it'(5)] by (simp add: bc_nodes_def)
  have c2: "cache_ok c2" "bc_greater c2 = bc_greater c'"
    using scan_keeps_hot [OF it'(1) _ _ new(1) _ c2_def] assms(2) it'(2-4) hot(2) new(2) by auto
  have "cached c' (s, b) = Some p" using assms(3) it'(4) by simp
  then have p: "ci_block it' = p" using it'(5) by (simp add: cached_def)
  have "distinct (map ci_key (bc_nodes c2))" using c2(1) by (simp add: cache_ok_def)
  from cached_Some [OF this, of "(s, b)" p] have "cached c2 (s, b) = Some p"
    using in_hot c2(2) p node_of_Some [OF it'(5)] by (auto simp: bc_nodes_def)
  then show ?thesis using block_cache_get_facts [OF c2(1)] by (simp add: c2_def)
qed

text \<open>Capacity 2 and k = 2: the block (1, 0) is looked up once, then two new blocks come in.\<close>

theorem scan_keeps_hot_block_witness:
  "\<exists>c. block_cache_put (block_cache_new 2 2) 1 0 (Some (7 :: nat)) = Inr c \<and>
    fst (block_cache_get (snd (cache_run (scan_puts [((1, 1), 8), ((1, 2), 9)]) (snd (cache_run [C_Get 1 0] c)))) 1 0) = Some 7"
proof -
  define c :: "nat block_cache" where "c = \<lparr>bc_capacity = 2, bc_k = 2, bc_greater = [],
    bc_less = [\<lparr>ci_sst_id = 1, ci_block_id = 0, ci_block = 7, ci_access_count = 1\<rparr>], bc_map = [(1, 0)],
    bc_total_requests = 0, bc_hit_requests = 0\<rparr>"
  have put: "block_cache_put (block_cache_new 2 2) 1 0 (Some 7) = Inr c"
    by (simp add: block_cache_put_def block_cache_new_def c_def)
  have cached: "cached c = [(1, 0) \<mapsto> 7]" by (auto simp: cached_def node_of_def c_def ci_key_def)
  have ok: "cache_ok c" by (simp add: cache_ok_def c_def bc_nodes_def ci_key_def)
  have k: "bc_k c = 2" "bc_capacity c = 2" by (simp_all add: c_def)
  have "length (bc_greater (snd (cache_run [C_Get 1 0] c))) < 2"
    by (simp add: c_def block_cache_get_def node_of_def ci_key_def update_access_count_def remove_node_def)
  then have "fst (block_cache_get (snd (cache_run (scan_puts [((1, 1), 8), ((1, 2), 9)])
      (snd (cache_run [C_Get 1 0] c)))) 1 0) = Some 7"
    by (intro scan_keeps_hot_block [OF ok, where p = 7 and c' = "snd (cache_run [C_Get 1 0] c)"])
      (simp_all add: k cached)
  with put show ?thesis by blast
qed

end
