(* ===== verification/Store.thy ===== *)
theory Store
  imports BlockCache Block_Search
begin

text \<open>
  What the readers of the SST files share: the file object (src/src/utils/files.cpp and
  src/src/utils/std_file.cpp), whose content is a byte sequence that no reader changes, the
  block cache with the addresses of the blocks in it, and computations that read through the
  cache. \<open>spec I m Q\<close> says that \<open>m\<close>, started in a state with \<open>I\<close>,
  returns a value with \<open>Q\<close> in a state with \<open>I\<close> and throws nothing.
\<close>

section \<open>Files\<close>

text \<open>\<open>std::vector\<close> refuses lengths above \<open>2 ^ 63 - 1\<close>; a read that meets the
  end of the file fails.\<close>

definition std_file_read :: "bytes \<Rightarrow> u64 \<Rightarrow> u64 \<Rightarrow> bytes result" where
  "std_file_read f offset len =
     (if 2 ^ 63 - 1 < len then Inl Length_Error
      else if length f < unat offset + unat len then Inl Runtime_Error
      else Inr (take (unat len) (drop (unat offset) f)))"

definition read_to_slice :: "bytes \<Rightarrow> u64 \<Rightarrow> u64 \<Rightarrow> bytes result" where
  "read_to_slice f offset len =
     (if of_nat (length f) < offset + len then Inl Out_Of_Range else std_file_read f offset len)"

definition read_uint8 :: "bytes \<Rightarrow> u64 \<Rightarrow> byte result" where
  "read_uint8 f offset =
     (if of_nat (length f) < offset + 1 then Inl Out_Of_Range
      else ebind (std_file_read f offset 1) (\<lambda>bs. Inr (hd bs)))"

definition read_uint32 :: "bytes \<Rightarrow> u64 \<Rightarrow> u32 result" where
  "read_uint32 f offset =
     (if of_nat (length f) < offset + 4 then Inl Out_Of_Range
      else ebind (std_file_read f offset 4) (\<lambda>bs. Inr (le_read bs)))"

definition read_uint64 :: "bytes \<Rightarrow> u64 \<Rightarrow> u64 result" where
  "read_uint64 f offset =
     (if of_nat (length f) < offset + 8 then Inl Out_Of_Range
      else ebind (std_file_read f offset 8) (\<lambda>bs. Inr (le_read bs)))"

text \<open>\<open>create\<close> and the flush that follows it may fail; \<open>io buf\<close> tells whether they
  succeed for the content \<open>buf\<close>.\<close>

definition create_and_write :: "(bytes \<Rightarrow> bool) \<Rightarrow> bytes \<Rightarrow> bytes result" where
  "create_and_write io buf = (if io buf then Inr buf else Inl Runtime_Error)"

text \<open>Inside a file of less than \<open>2 ^ 63\<close> bytes a read returns the bytes asked for.\<close>

lemma unat_of_nat_u64: "n < 2 ^ 63 \<Longrightarrow> unat (of_nat n :: u64) = n"
  by (simp add: unsigned_of_nat take_bit_nat_eq_self)

lemma word_of_nat_sum_not_less:
  assumes "m < 2 ^ 63" "n \<le> m"
  shows "\<not> (of_nat m :: u64) < of_nat n"
  using assms by (simp add: word_less_nat_alt unat_of_nat_u64)

lemma std_file_read_ok:
  assumes "length f < 2 ^ 63" "i + n \<le> length f"
  shows "std_file_read f (of_nat i) (of_nat n) = Inr (take n (drop i f))"
proof -
  have n: "unat (of_nat n :: u64) = n" "unat (of_nat i :: u64) = i"
    using assms by (simp_all add: unat_of_nat_u64)
  have "\<not> (2 ^ 63 - 1 :: u64) < of_nat n"
    using assms by (simp add: word_less_nat_alt n)
  then show ?thesis using assms n by (simp add: std_file_read_def)
qed

lemma read_to_slice_ok:
  assumes "length f < 2 ^ 63" "i + n \<le> length f"
  shows "read_to_slice f (of_nat i) (of_nat n) = Inr (take n (drop i f))"
  using std_file_read_ok [OF assms] word_of_nat_sum_not_less [OF assms]
  by (simp add: read_to_slice_def)

lemma read_uint_ok:
  assumes "length f < 2 ^ 63"
  shows "i + 1 \<le> length f \<Longrightarrow> read_uint8 f (of_nat i) = Inr (f ! i)"
    "i + 4 \<le> length f \<Longrightarrow> read_uint32 f (of_nat i) = Inr (le_read (take 4 (drop i f)))"
    "i + 8 \<le> length f \<Longrightarrow> read_uint64 f (of_nat i) = Inr (le_read (take 8 (drop i f)))"
proof -
  show "read_uint8 f (of_nat i) = Inr (f ! i)" if "i + 1 \<le> length f"
    using std_file_read_ok [OF assms that] word_of_nat_sum_not_less [OF assms that] that
    by (simp add: read_uint8_def take_Suc hd_drop_conv_nth add.commute)
  show "read_uint32 f (of_nat i) = Inr (le_read (take 4 (drop i f)))" if "i + 4 \<le> length f"
    using std_file_read_ok [OF assms that] word_of_nat_sum_not_less [OF assms that]
    by (simp add: read_uint32_def)
  show "read_uint64 f (of_nat i) = Inr (le_read (take 8 (drop i f)))" if "i + 8 \<le> length f"
    using std_file_read_ok [OF assms that] word_of_nat_sum_not_less [OF assms that]
    by (simp add: read_uint64_def)
qed

section \<open>Computations on the store\<close>

text \<open>The shared state of the readers: the cache, whose entries are block pointers (an address
  with the immutable block behind it), and the next unused address.\<close>

record store =
  st_cache :: "(nat \<times> block) block_cache"
  st_next :: nat

text \<open>Computations that read and change a state of type \<open>'s\<close> and may throw; the state after
  an exception is the one at the point of the throw.\<close>

type_synonym ('s, 'a) sio = "'s \<Rightarrow> 'a result \<times> 's"
type_synonym 'a cio = "(store, 'a) sio"

definition cret :: "'a \<Rightarrow> ('s, 'a) sio" where
  "cret x st = (Inr x, st)"

definition cthrow :: "cpp_error \<Rightarrow> ('s, 'a) sio" where
  "cthrow e st = (Inl e, st)"

definition clift :: "'a result \<Rightarrow> ('s, 'a) sio" where
  "clift r st = (r, st)"

definition cbind :: "('s, 'a) sio \<Rightarrow> ('a \<Rightarrow> ('s, 'b) sio) \<Rightarrow> ('s, 'b) sio" where
  "cbind m f st = (case m st of (Inl e, st') \<Rightarrow> (Inl e, st') | (Inr x, st') \<Rightarrow> f x st')"

lemma cbind_cong [fundef_cong]:
  assumes "m = m'" "\<And>x st st'. m' st = (Inr x, st') \<Longrightarrow> f x st' = g x st'"
  shows "cbind m f = cbind m' g"
proof
  fix st
  show "cbind m f st = cbind m' g st"
    using assms(2) [of st] unfolding assms(1) cbind_def by (auto split: prod.split sum.split)
qed

lemma cbind_simps [simp]:
  "cbind (cret x) f = f x" "cbind (cthrow e) f = cthrow e" "clift (Inr x) = cret x" "clift (Inl e) = cthrow e"
  by (auto simp: cbind_def cret_def cthrow_def clift_def)

lemma cbind_assoc: "cbind (cbind m f) g = cbind m (\<lambda>x. cbind (f x) g)"
  by (auto simp: cbind_def split: prod.split sum.split)

lemma clift_ebind: "clift (ebind r f) = cbind (clift r) (\<lambda>x. clift (f x))"
  by (cases r) simp_all

definition spec :: "('s \<Rightarrow> bool) \<Rightarrow> ('s, 'a) sio \<Rightarrow> ('a \<Rightarrow> bool) \<Rightarrow> bool" where
  "spec I m Q \<longleftrightarrow> (\<forall>st. I st \<longrightarrow> (\<exists>x st'. m st = (Inr x, st') \<and> I st' \<and> Q x))"

named_theorems spec_intro \<open>one rule for each operation on the store\<close>

lemma spec_ret [spec_intro]: "Q x \<Longrightarrow> spec I (cret x) Q"
  by (simp add: spec_def cret_def)

lemma spec_lift: "r = Inr x \<Longrightarrow> Q x \<Longrightarrow> spec I (clift r) Q"
  unfolding spec_def clift_def by blast

lemma spec_bind:
  assumes "spec I m P" "\<And>x. P x \<Longrightarrow> spec I (f x) Q"
  shows "spec I (cbind m f) Q"
  unfolding spec_def
proof (intro allI impI)
  fix st
  assume "I st"
  then obtain x st' where m: "m st = (Inr x, st')" "I st'" "P x" using assms(1) unfolding spec_def by blast
  then obtain y st'' where "f x st' = (Inr y, st'')" "I st''" "Q y" using assms(2) unfolding spec_def by blast
  with m show "\<exists>y st''. cbind m f st = (Inr y, st'') \<and> I st'' \<and> Q y" by (simp add: cbind_def)
qed

lemma spec_weaken: "spec I m P \<Longrightarrow> (\<And>x. P x \<Longrightarrow> Q x) \<Longrightarrow> spec I m Q"
  unfolding spec_def by blast

lemma spec_run:
  "spec I m Q \<Longrightarrow> I st \<Longrightarrow> \<exists>x st'. m st = (Inr x, st') \<and> I st' \<and> Q x"
  unfolding spec_def by blast

text \<open>Both outcomes of a computation: \<open>triple P m Q E\<close> says that from a state with
  \<open>P\<close> a value is returned with \<open>Q\<close>, or an exception is thrown and leaves a state
  with \<open>E\<close>. A loop that does not return and undefined behaviour are excluded.\<close>

definition thrown :: "cpp_error \<Rightarrow> bool" where
  "thrown err \<longleftrightarrow> err \<noteq> Diverges \<and> err \<noteq> Undefined"

definition triple ::
  "('s \<Rightarrow> bool) \<Rightarrow> ('s, 'a) sio \<Rightarrow> ('a \<Rightarrow> 's \<Rightarrow> bool) \<Rightarrow> ('s \<Rightarrow> bool) \<Rightarrow> bool" where
  "triple P m Q E \<longleftrightarrow> (\<forall>st. P st \<longrightarrow> (case m st of
      (Inl err, st') \<Rightarrow> thrown err \<and> E st' | (Inr x, st') \<Rightarrow> Q x st'))"

lemma triple_ret: "(\<And>st. P st \<Longrightarrow> Q x st) \<Longrightarrow> triple P (cret x) Q E"
  by (simp add: triple_def cret_def)

lemma triple_throw: "thrown err \<Longrightarrow> (\<And>st. P st \<Longrightarrow> E st) \<Longrightarrow> triple P (cthrow err) Q E"
  by (simp add: triple_def cthrow_def)

lemma triple_lift:
  assumes "\<And>st err. P st \<Longrightarrow> r = Inl err \<Longrightarrow> thrown err \<and> E st"
    "\<And>st x. P st \<Longrightarrow> r = Inr x \<Longrightarrow> Q x st"
  shows "triple P (clift r) Q E"
  using assms by (auto simp: triple_def clift_def split: sum.split)

lemma triple_bind:
  assumes "triple P m R E" "\<And>x. triple (R x) (f x) Q E"
  shows "triple P (cbind m f) Q E"
  using assms unfolding triple_def cbind_def by (fastforce split: prod.splits sum.splits)

lemma triple_weaken:
  assumes "triple P m Q E" "\<And>st. P' st \<Longrightarrow> P st" "\<And>x st. Q x st \<Longrightarrow> Q' x st" "\<And>st. E st \<Longrightarrow> E' st"
  shows "triple P' m Q' E'"
  using assms unfolding triple_def by (fastforce split: prod.splits sum.splits)

lemma triple_run: "triple P m Q E \<Longrightarrow> P st \<Longrightarrow>
    (case m st of (Inl err, st') \<Rightarrow> thrown err \<and> E st' | (Inr x, st') \<Rightarrow> Q x st')"
  by (simp add: triple_def)

text \<open>A precondition on values, and a triple for one state.\<close>

lemma triple_pure: "(A \<Longrightarrow> triple P m Q E) \<Longrightarrow> triple (\<lambda>st. P st \<and> A) m Q E"
  by (simp add: triple_def)

lemma triple_here: "(\<And>st. P st \<Longrightarrow> triple (\<lambda>st'. st' = st) m Q E) \<Longrightarrow> triple P m Q E"
  by (simp add: triple_def)

section \<open>What the cache holds\<close>

text \<open>Every cached block holds the records that \<open>C\<close> gives for its key, and its address
  has been handed out. Blocks have records, so \<open>C\<close> is \<open>[]\<close> for keys that no SST uses.\<close>

definition store_holds :: "(cache_key \<Rightarrow> entry list) \<Rightarrow> store \<Rightarrow> bool" where
  "store_holds C st \<longleftrightarrow> cache_ok (st_cache st) \<and> 1 \<le> bc_k (st_cache st) \<and>
     (\<forall>key a b. cached (st_cache st) key = Some (a, b) \<longrightarrow>
        block_holds b (C key) \<and> C key \<noteq> [] \<and> a < st_next st)"

definition store_new :: "nat \<Rightarrow> nat \<Rightarrow> store" where
  "store_new capacity k = \<lparr>st_cache = block_cache_new capacity k, st_next = 0\<rparr>"

lemma store_new_holds: "1 \<le> k \<Longrightarrow> store_holds C (store_new capacity k)"
  by (simp add: store_holds_def store_new_def cache_new_ok cached_new)
    (simp add: block_cache_new_def)

lemma bc_k_update [simp]: "bc_k (update_access_count c it) = bc_k c"
  by (simp add: update_access_count_def Let_def)

lemma bc_k_get: "bc_k (snd (block_cache_get c s b)) = bc_k c"
  by (auto simp: block_cache_get_def Let_def split: option.split)

lemma bc_k_put: "block_cache_put c s b p = Inr c' \<Longrightarrow> bc_k c' = bc_k c"
  by (auto simp: block_cache_put_def Let_def evict_one_def split: if_splits option.splits)

lemma store_get:
  assumes "store_holds C st" "block_cache_get (st_cache st) s b = (r, c')"
  shows "store_holds C (st\<lparr>st_cache := c'\<rparr>)" "r = Some (a, blk) \<Longrightarrow> block_holds blk (C (s, b))"
proof -
  have ok: "cache_ok (st_cache st)" using assms(1) by (simp add: store_holds_def)
  note G = block_cache_get_facts [OF ok, of s b, unfolded assms(2) prod.sel]
  have "bc_k c' = bc_k (st_cache st)" using bc_k_get [of "st_cache st" s b] assms(2) by simp
  with G assms(1) show "store_holds C (st\<lparr>st_cache := c'\<rparr>)" by (simp add: store_holds_def)
  show "block_holds blk (C (s, b))" if "r = Some (a, blk)"
    using G assms(1) that unfolding store_holds_def by metis
qed

lemma store_put:
  assumes "store_holds C st" "block_holds blk (C (s, b))" "C (s, b) \<noteq> []"
  shows "\<exists>c'. block_cache_put (st_cache st) s b (Some (st_next st, blk)) = Inr c' \<and>
    store_holds C (st\<lparr>st_cache := c', st_next := Suc (st_next st)\<rparr>)"
proof (cases "bc_capacity (st_cache st) = 0")
  case True
  then show ?thesis using assms(1) unfolding store_holds_def by (auto simp: block_cache_put_def less_Suc_eq)
next
  case False
  have ok: "cache_ok (st_cache st)" "1 \<le> bc_k (st_cache st)"
    and H: "\<And>key a bb. cached (st_cache st) key = Some (a, bb) \<Longrightarrow> block_holds bb (C key) \<and> C key \<noteq> [] \<and> a < st_next st"
    using assms(1) unfolding store_holds_def by blast+
  obtain c' where c': "block_cache_put (st_cache st) s b (Some (st_next st, blk)) = Inr c'" "cache_ok c'"
    "cached c' = (if cached (st_cache st) (s, b) \<noteq> None then cached (st_cache st)
      else (if length (bc_map (st_cache st)) < bc_capacity (st_cache st) then cached (st_cache st)
            else (cached (st_cache st))(victim (st_cache st) := None)) ((s, b) \<mapsto> (st_next st, blk)))"
    using block_cache_put_facts [OF ok, of s b] False by (metis One_nat_def Suc_leI neq0_conv)
  have "block_holds bb (C key) \<and> C key \<noteq> [] \<and> a < Suc (st_next st)" if "cached c' key = Some (a, bb)" for key a bb
    using that H [of key a bb] assms(2,3) unfolding c'(3) by (auto split: if_splits)
  with c'(1,2) ok(2) bc_k_put [OF c'(1)] show ?thesis by (simp add: store_holds_def)
qed

text \<open>New SSTs extend \<open>C\<close> where it was \<open>[]\<close>.\<close>

lemma store_holds_extend:
  assumes "store_holds C st" "\<And>key. C key \<noteq> [] \<Longrightarrow> C' key = C key"
  shows "store_holds C' st"
proof -
  have "block_holds b (C' key) \<and> C' key \<noteq> [] \<and> a < st_next st" if "cached (st_cache st) key = Some (a, b)" for key a b
  proof -
    have "block_holds b (C key)" "C key \<noteq> []" "a < st_next st" using assms(1) that unfolding store_holds_def by blast+
    then show ?thesis by (simp add: assms(2))
  qed
  with assms(1) show ?thesis unfolding store_holds_def by blast
qed

end
