(* ===== verification/BloomFilter.thy ===== *)
theory BloomFilter
  imports Kopi_Prelude
begin

text \<open>
  The Bloom filter of an SST (src/src/utils/bloom_filter.cpp): insertion, query and the byte
  format. \<open>hash\<close> stands for \<open>std::hash\<close> on strings. The false positive rate
  is kept as the 64 bits of its double; the constructor's sizing formula is floating point
  arithmetic, so its outcome (the numbers of bits and of hashes, or \<open>None\<close> when the bit
  array would be too large) is an argument of \<open>bloom_new\<close>.
\<close>

record bloom =
  bf_expected :: u64
  bf_rate :: u64
  bf_num_bits :: u64
  bf_num_hashes :: u64
  bf_bits :: "bool list"

section \<open>Operations\<close>

text \<open>The bits of a double strictly between 0 and 1: sign and infinities excluded by the order
  of the bit patterns.\<close>

definition rate_valid :: "u64 \<Rightarrow> bool" where
  "rate_valid r \<longleftrightarrow> 0 < r \<and> r < 0x3FF0000000000000"

definition bloom_new :: "u64 \<Rightarrow> u64 \<Rightarrow> (u64 \<times> u64) option \<Rightarrow> bloom result" where
  "bloom_new expected rate sizing =
     (if expected = 0 then Inl Invalid_Argument
      else if \<not> rate_valid rate then Inl Invalid_Argument
      else case sizing of
        None \<Rightarrow> Inl Length_Error
      | Some (num_bits, num_hashes) \<Rightarrow>
          Inr \<lparr>bf_expected = expected, bf_rate = rate, bf_num_bits = num_bits,
            bf_num_hashes = num_hashes, bf_bits = replicate (unat num_bits) False\<rparr>)"

definition salt :: bytes where
  "salt = [115, 97, 108, 116]"

definition bloom_hash :: "(bytes \<Rightarrow> u64) \<Rightarrow> bloom \<Rightarrow> bytes \<Rightarrow> nat \<Rightarrow> nat" where
  "bloom_hash hash bf key idx = unat ((hash key + of_nat idx * hash (key @ salt)) mod bf_num_bits bf)"

definition bloom_add :: "(bytes \<Rightarrow> u64) \<Rightarrow> bloom \<Rightarrow> bytes \<Rightarrow> bloom" where
  "bloom_add hash bf key =
     bf\<lparr>bf_bits := fold (\<lambda>i bits. bits[bloom_hash hash bf key i := True])
          [0 ..< unat (bf_num_hashes bf)] (bf_bits bf)\<rparr>"

definition possibly_contains :: "(bytes \<Rightarrow> u64) \<Rightarrow> bloom \<Rightarrow> bytes \<Rightarrow> bool" where
  "possibly_contains hash bf key \<longleftrightarrow>
     list_all (\<lambda>i. bf_bits bf ! bloom_hash hash bf key i) [0 ..< unat (bf_num_hashes bf)]"

definition bloom_clear :: "bloom \<Rightarrow> bloom" where
  "bloom_clear bf = bf\<lparr>bf_bits := replicate (length (bf_bits bf)) False\<rparr>"

section \<open>The byte format\<close>

definition bytes_for :: "nat \<Rightarrow> nat" where
  "bytes_for n = n div 8 + (if n mod 8 \<noteq> 0 then 1 else 0)"

definition set_bit_at :: "bytes \<Rightarrow> nat \<Rightarrow> bytes" where
  "set_bit_at data i = data[i div 8 := data ! (i div 8) OR push_bit (i mod 8) 1]"

definition pack_bits :: "nat \<Rightarrow> bool list \<Rightarrow> bytes" where
  "pack_bits n bits = fold (\<lambda>i data. if bits ! i then set_bit_at data i else data)
     [0 ..< n] (replicate (bytes_for n) 0)"

definition bloom_encode :: "bloom \<Rightarrow> bytes result" where
  "bloom_encode bf =
     (if bf_bits bf = [] then Inl Logic_Error
      else Inr (le_write 8 (bf_expected bf) @ le_write 8 (bf_rate bf) @ le_write 8 (bf_num_bits bf)
             @ le_write 8 (bf_num_hashes bf) @ pack_bits (unat (bf_num_bits bf)) (bf_bits bf)))"

definition bloom_decode :: "bytes \<Rightarrow> bloom result" where
  "bloom_decode data =
     (if length data < 32 then Inl Runtime_Error
      else
        let expected = (le_read (take 8 data) :: u64);
            rate = (le_read (take 8 (drop 8 data)) :: u64);
            num_bits = (le_read (take 8 (drop 16 data)) :: u64);
            num_hashes = (le_read (take 8 (drop 24 data)) :: u64)
        in if expected = 0 \<or> \<not> rate_valid rate \<or> num_bits = 0 \<or> num_hashes = 0
           then Inl Runtime_Error
           else if length data - 32 \<noteq> bytes_for (unat num_bits) then Inl Runtime_Error
           else Inr \<lparr>bf_expected = expected, bf_rate = rate, bf_num_bits = num_bits,
                  bf_num_hashes = num_hashes,
                  bf_bits = map (\<lambda>i. drop_bit (i mod 8) (data ! (32 + i div 8)) AND 1 \<noteq> 0)
                    [0 ..< unat num_bits]\<rparr>)"

section \<open>No false negatives\<close>

definition bloom_ok :: "bloom \<Rightarrow> bool" where
  "bloom_ok bf \<longleftrightarrow> length (bf_bits bf) = unat (bf_num_bits bf) \<and> bf_num_bits bf \<noteq> 0 \<and>
     bf_num_hashes bf \<noteq> 0 \<and> bf_expected bf \<noteq> 0 \<and> rate_valid (bf_rate bf)"

lemma bloom_hash_bound: "bloom_ok bf \<Longrightarrow> bloom_hash hash bf key i < length (bf_bits bf)"
  by (simp add: bloom_ok_def bloom_hash_def unat_mod unat_gt_0)

lemma bloom_new_ok:
  "bloom_new e r (Some (nb, nh)) = Inr bf \<Longrightarrow> nb \<noteq> 0 \<Longrightarrow> nh \<noteq> 0 \<Longrightarrow> bloom_ok bf"
  by (auto simp: bloom_new_def bloom_ok_def split: if_splits)

lemma length_fold_set_bits: "length (fold (\<lambda>i bits. bits[f i := True]) xs bits) = length bits"
  by (induction xs arbitrary: bits) simp_all

lemma nth_fold_set_bits:
  "j < length bits \<Longrightarrow> fold (\<lambda>i bits. bits[f i := True]) xs bits ! j \<longleftrightarrow> bits ! j \<or> j \<in> f ` set xs"
proof (induction xs arbitrary: bits)
  case (Cons x xs)
  then show ?case using Cons.IH [of "bits[f x := True]"] by (cases "f x = j") auto
qed simp

lemmas fold_set_bits = length_fold_set_bits nth_fold_set_bits

lemma bloom_hash_bits [simp]: "bloom_hash hash (bf\<lparr>bf_bits := b\<rparr>) key i = bloom_hash hash bf key i"
  by (simp add: bloom_hash_def)

lemma bloom_add_ok: "bloom_ok bf \<Longrightarrow> bloom_ok (bloom_add hash bf key)"
  by (simp add: bloom_ok_def bloom_add_def fold_set_bits)

lemma bloom_add_keeps:
  assumes "bloom_ok bf" "possibly_contains hash bf key"
  shows "possibly_contains hash (bloom_add hash bf key') key"
  using assms bloom_hash_bound [OF assms(1)]
  by (auto simp: possibly_contains_def bloom_add_def list_all_iff fold_set_bits)

lemma bloom_add_contains:
  assumes "bloom_ok bf"
  shows "possibly_contains hash (bloom_add hash bf key) key"
  using bloom_hash_bound [OF assms]
  by (auto simp: possibly_contains_def bloom_add_def list_all_iff fold_set_bits)

text \<open>C37: the filter has no false negatives: after any sequence of insertions every inserted key is
  reported as possibly contained, whatever the hash function is.\<close>

theorem bloom_no_false_negative:
  assumes "bloom_ok bf" "key \<in> set keys"
  shows "possibly_contains hash (fold (\<lambda>k b. bloom_add hash b k) keys bf) key"
proof -
  have "bloom_ok b \<Longrightarrow> possibly_contains hash b key \<or> key \<in> set keys \<Longrightarrow>
      possibly_contains hash (fold (\<lambda>k b. bloom_add hash b k) keys b) key" for b
  proof (induction keys arbitrary: b)
    case (Cons k ks)
    then show ?case
      using Cons.IH [of "bloom_add hash b k"] bloom_add_ok [OF Cons.prems(1)]
        bloom_add_keeps [OF Cons.prems(1)] bloom_add_contains [OF Cons.prems(1)] by auto
  qed simp
  with assms show ?thesis by blast
qed

theorem bloom_no_false_negative_witness:
  "\<exists>bf. bloom_new 10 0x3FB999999999999A (Some (48, 4)) = Inr bf \<and>
    possibly_contains (\<lambda>bs. of_nat (length bs)) (fold (\<lambda>k b. bloom_add (\<lambda>bs. of_nat (length bs)) b k) [[1], [2, 3]] bf) [2, 3]"
proof -
  obtain bf where bf: "bloom_new 10 0x3FB999999999999A (Some (48, 4)) = Inr bf"
    by (simp add: bloom_new_def rate_valid_def)
  have "bloom_ok bf" by (rule bloom_new_ok [OF bf]) simp_all
  have "possibly_contains (\<lambda>bs. of_nat (length bs))
      (fold (\<lambda>k b. bloom_add (\<lambda>bs. of_nat (length bs)) b k) [[1], [2, 3]] bf) [2, 3]"
    by (rule bloom_no_false_negative [OF \<open>bloom_ok bf\<close>]) simp
  with bf show ?thesis by blast
qed

section \<open>Round trip\<close>

lemma bit_placed_one: "m < 8 \<Longrightarrow> bit (2 ^ n :: byte) m \<longleftrightarrow> n = m"
  by (auto simp: bit_exp_iff)

lemma set_bit_at_facts:
  assumes "i < 8 * length data"
  shows "length (set_bit_at data i) = length data"
    "j < 8 * length data \<Longrightarrow> bit (set_bit_at data i ! (j div 8)) (j mod 8) \<longleftrightarrow> bit (data ! (j div 8)) (j mod 8) \<or> i = j"
proof -
  show "length (set_bit_at data i) = length data" by (simp add: set_bit_at_def)
  assume j: "j < 8 * length data"
  have same: "i = j \<longleftrightarrow> i div 8 = j div 8 \<and> i mod 8 = j mod 8"
    by (metis div_mult_mod_eq)
  have "i div 8 < length data" "j div 8 < length data" using assms j by auto
  then show "bit (set_bit_at data i ! (j div 8)) (j mod 8) \<longleftrightarrow> bit (data ! (j div 8)) (j mod 8) \<or> i = j"
    unfolding same
    unfolding set_bit_at_def
    by (cases "i div 8 = j div 8") (auto simp: bit_or_iff bit_placed_one)
qed

lemma pack_bits_facts:
  assumes "length bits \<le> 8 * m"
  defines "D n \<equiv> fold (\<lambda>i data. if bits ! i then set_bit_at data i else data) [0 ..< n] (replicate m 0)"
  shows "n \<le> length bits \<Longrightarrow> length (D n) = m \<and>
    (\<forall>j < 8 * m. bit (D n ! (j div 8)) (j mod 8) \<longleftrightarrow> j < n \<and> bits ! j)"
proof (induction n)
  case 0
  then show ?case by (auto simp: D_def)
next
  case (Suc n)
  then have IH: "length (D n) = m" "\<forall>j < 8 * m. bit (D n ! (j div 8)) (j mod 8) \<longleftrightarrow> j < n \<and> bits ! j"
    and n: "n < 8 * length (D n)" using assms(1) by auto
  have D: "D (Suc n) = (if bits ! n then set_bit_at (D n) n else D n)"
    by (simp add: D_def)
  show ?case
  proof (cases "bits ! n")
    case True
    with set_bit_at_facts [OF n] IH show ?thesis by (auto simp: D less_Suc_eq)
  next
    case False
    with IH show ?thesis by (auto simp: D less_Suc_eq)
  qed
qed

lemma bytes_for_bound: "n \<le> 8 * bytes_for n"
proof -
  have "n = 8 * (n div 8) + n mod 8" "n mod 8 < 8" by simp_all
  then show ?thesis unfolding bytes_for_def by presburger
qed

lemma pack_bits_nth:
  assumes "j < length bits"
  shows "bit (pack_bits (length bits) bits ! (j div 8)) (j mod 8) \<longleftrightarrow> bits ! j"
  using pack_bits_facts [OF bytes_for_bound, where bits = bits and n = "length bits"] assms
    bytes_for_bound [of "length bits"]
  by (simp add: pack_bits_def)

lemma length_pack_bits: "length (pack_bits (length bits) bits) = bytes_for (length bits)"
  using pack_bits_facts [OF bytes_for_bound, where bits = bits and n = "length bits"]
  by (simp add: pack_bits_def)

lemma drop_bit_and_1: "drop_bit n (b :: byte) AND 1 \<noteq> 0 \<longleftrightarrow> bit b n"
  by (simp add: and_one_eq odd_iff_mod_2_eq_one [symmetric] bit_iff_odd_drop_bit)

lemma bloom_roundtrip:
  assumes "bloom_ok bf"
  shows "\<exists>bs. bloom_encode bf = Inr bs \<and> bloom_decode bs = Inr bf"
proof -
  have ok: "length (bf_bits bf) = unat (bf_num_bits bf)" "bf_num_bits bf \<noteq> 0"
    "bf_num_hashes bf \<noteq> 0" "bf_expected bf \<noteq> 0" "rate_valid (bf_rate bf)"
    using assms by (simp_all add: bloom_ok_def)
  have ne: "bf_bits bf \<noteq> []" using ok(1,2) by (auto simp: unat_eq_zero)
  let ?head = "le_write 8 (bf_expected bf) @ le_write 8 (bf_rate bf) @ le_write 8 (bf_num_bits bf)
    @ le_write 8 (bf_num_hashes bf)"
  let ?pack = "pack_bits (unat (bf_num_bits bf)) (bf_bits bf)"
  let ?bs = "?head @ ?pack"
  have len: "length ?head = 32" by simp
  have "map (\<lambda>i. drop_bit (i mod 8) (?bs ! (32 + i div 8)) AND 1 \<noteq> 0) [0 ..< unat (bf_num_bits bf)] = bf_bits bf"
  proof (rule nth_equalityI)
    fix i
    assume "i < length (map (\<lambda>i. drop_bit (i mod 8) (?bs ! (32 + i div 8)) AND 1 \<noteq> 0) [0 ..< unat (bf_num_bits bf)])"
    then have i: "i < length (bf_bits bf)" using ok(1) by simp
    have "?bs ! (32 + i div 8) = ?pack ! (i div 8)"
      using nth_append_length_plus [of ?head ?pack "i div 8"] unfolding len .
    then show "map (\<lambda>i. drop_bit (i mod 8) (?bs ! (32 + i div 8)) AND 1 \<noteq> 0) [0 ..< unat (bf_num_bits bf)] ! i
        = bf_bits bf ! i"
      using i ok(1) pack_bits_nth [OF i] unfolding ok(1) by (simp only: nth_map length_upt nth_upt diff_zero add_0 drop_bit_and_1)
  qed (simp add: ok(1))
  then have "bloom_decode ?bs = Inr bf"
    using ok length_pack_bits [of "bf_bits bf"] unfolding ok(1)
    by (simp add: bloom_decode_def Let_def le_read_write)
  moreover have "bloom_encode bf = Inr ?bs" using ne by (simp add: bloom_encode_def)
  ultimately show ?thesis by blast
qed

text \<open>C38: a filter that was written with an SST is read back as it was: \<open>decode\<close> accepts what
  \<open>encode\<close> writes and restores the parameters and every bit.\<close>

theorem bloom_decode_encode:
  assumes "bloom_ok bf"
  shows "ebind (bloom_encode bf) bloom_decode = Inr bf"
  using bloom_roundtrip [OF assms] by auto

theorem bloom_decode_encode_witness:
  "let bf = \<lparr>bf_expected = 1, bf_rate = 0x3FB999999999999A, bf_num_bits = 10, bf_num_hashes = 4,
      bf_bits = [True, False, True, True, False, False, False, False, True, True]\<rparr>
   in ebind (bloom_encode bf) bloom_decode = Inr bf"
  unfolding Let_def by (rule bloom_decode_encode) (simp add: bloom_ok_def rate_valid_def)

end
