(* ===== verification/Sst.thy ===== *)
theory Sst
  imports Store BlockMeta BloomFilter
begin

text \<open>
  The SST file and its builder (src/src/sst/sst.cpp). \<open>builder_add\<close> cuts a sorted
  sequence of records into blocks, \<open>builder_build\<close> writes the data blocks, the meta section,
  the Bloom filter and the footer, \<open>sst_open\<close> reads them back, and \<open>sst_read_block\<close>
  goes through the shared cache. \<open>hash\<close> stands for \<open>std::hash\<close> on strings.
  The value log (src/src/vlog/vlog.cpp) is modelled as it is: its two operations are stubs.
\<close>

section \<open>State\<close>

record sst =
  sst_id :: nat
  sst_file :: bytes
  sst_meta_entries :: "block_meta list"
  sst_bloom_offset :: u32
  sst_meta_block_offset :: u32
  sst_first_key :: bytes
  sst_last_key :: bytes
  sst_bloom_filter :: "bloom option"
  sst_has_cache :: bool
  sst_min_tranc_id :: u64
  sst_max_tranc_id :: u64
  sst_storage_mode :: byte
  sst_has_vlog :: bool

record sst_builder =
  sb_block :: block
  sb_first_key :: bytes
  sb_last_key :: bytes
  sb_meta_entries :: "block_meta list"
  sb_data :: bytes
  sb_block_size :: nat
  sb_bloom_filter :: "bloom option"
  sb_min_tranc_id :: u64
  sb_max_tranc_id :: u64
  sb_storage_mode :: byte
  sb_has_vlog :: bool
  sb_wisckey_threshold :: nat

definition vlog_append :: "bytes \<Rightarrow> bytes \<Rightarrow> u64" where
  "vlog_append key val = 0"

definition vlog_read_value :: "u64 \<Rightarrow> u32 \<Rightarrow> bytes" where
  "vlog_read_value offset value_size = []"

section \<open>SSTBuilder\<close>

text \<open>\<open>expected\<close>, \<open>rate\<close> and \<open>sizing\<close> are the configured Bloom
  parameters (see \<open>bloom_new\<close>).\<close>

definition builder_bloom :: "bool \<Rightarrow> u64 \<times> u64 \<times> (u64 \<times> u64) option \<Rightarrow> bloom option result" where
  "builder_bloom has_bloom cfg =
     (if has_bloom
      then ebind (bloom_new (fst cfg) (fst (snd cfg)) (snd (snd cfg))) (\<lambda>bf. Inr (Some bf))
      else Inr None)"

definition builder_new :: "nat \<Rightarrow> bool \<Rightarrow> u64 \<times> u64 \<times> (u64 \<times> u64) option \<Rightarrow> sst_builder result" where
  "builder_new bsize has_bloom cfg =
     ebind (builder_bloom has_bloom cfg) (\<lambda>bf.
       Inr \<lparr>sb_block = block_new bsize, sb_first_key = [], sb_last_key = [], sb_meta_entries = [],
            sb_data = [], sb_block_size = bsize, sb_bloom_filter = bf, sb_min_tranc_id = - 1,
            sb_max_tranc_id = 0, sb_storage_mode = 0, sb_has_vlog = False,
            sb_wisckey_threshold = 0\<rparr>)"

definition builder_new_wisckey ::
  "nat \<Rightarrow> bool \<Rightarrow> u64 \<times> u64 \<times> (u64 \<times> u64) option \<Rightarrow> bool \<Rightarrow> nat \<Rightarrow> sst_builder result" where
  "builder_new_wisckey bsize has_bloom cfg has_vlog threshold =
     ebind (builder_bloom has_bloom cfg) (\<lambda>bf.
       Inr \<lparr>sb_block = block_new bsize, sb_first_key = [], sb_last_key = [], sb_meta_entries = [],
            sb_data = [], sb_block_size = bsize, sb_bloom_filter = bf, sb_min_tranc_id = - 1,
            sb_max_tranc_id = 0, sb_storage_mode = 1, sb_has_vlog = has_vlog,
            sb_wisckey_threshold = threshold\<rparr>)"

definition builder_finish_block :: "sst_builder \<Rightarrow> sst_builder result" where
  "builder_finish_block b =
     ebind (block_encode (sb_block b) True) (\<lambda>encoded.
       Inr (b\<lparr>sb_meta_entries := sb_meta_entries b @
                [\<lparr>bm_offset = length (sb_data b), bm_first_key = sb_first_key b, bm_last_key = sb_last_key b\<rparr>],
              sb_data := sb_data b @ encoded,
              sb_block := block_new (sb_block_size b)\<rparr>))"

text \<open>What goes into the block for a value: the value, or its 12-byte reference.\<close>

definition builder_stored :: "sst_builder \<Rightarrow> bytes \<Rightarrow> bytes \<Rightarrow> bytes" where
  "builder_stored b key val =
     (if sb_storage_mode b = 1 \<and> sb_has_vlog b \<and> val \<noteq> [] \<and> 0 < sb_wisckey_threshold b \<and>
         sb_wisckey_threshold b < length val
      then le_write 8 (vlog_append key val) @ le_write 4 (of_nat (length val) :: u32)
      else val)"

definition builder_note :: "(bytes \<Rightarrow> u64) \<Rightarrow> sst_builder \<Rightarrow> bytes \<Rightarrow> u64 \<Rightarrow> sst_builder" where
  "builder_note hash b key tid =
     b\<lparr>sb_first_key := (if sb_first_key b = [] then key else sb_first_key b),
       sb_bloom_filter := map_option (\<lambda>bf. bloom_add hash bf key) (sb_bloom_filter b),
       sb_max_tranc_id := max (sb_max_tranc_id b) tid,
       sb_min_tranc_id := min (sb_min_tranc_id b) tid\<rparr>"

definition builder_add :: "(bytes \<Rightarrow> u64) \<Rightarrow> sst_builder \<Rightarrow> entry \<Rightarrow> sst_builder result" where
  "builder_add hash b e =
     (let key = ekey e; tid = etid e; b1 = builder_note hash b key tid;
          actual = builder_stored b1 key (evalue e);
          force_write = (key = sb_last_key b1)
      in ebind (block_add_entry (sb_block b1) key actual tid force_write) (\<lambda>(ok, blk).
           if ok then Inr (b1\<lparr>sb_block := blk, sb_last_key := key\<rparr>)
           else ebind (builder_finish_block b1) (\<lambda>b2.
             ebind (block_add_entry (sb_block b2) key actual tid False) (\<lambda>(_, blk2).
               Inr (b2\<lparr>sb_block := blk2, sb_first_key := key, sb_last_key := key\<rparr>)))))"

definition builder_real_size :: "sst_builder \<Rightarrow> nat" where
  "builder_real_size b = length (sb_data b) + block_cur_size (sb_block b)"

definition builder_estimated_size :: "sst_builder \<Rightarrow> nat" where
  "builder_estimated_size b = length (sb_data b)"

definition sst_footer :: "u32 \<Rightarrow> u32 \<Rightarrow> u64 \<Rightarrow> u64 \<Rightarrow> byte \<Rightarrow> bytes" where
  "sst_footer meta_offset bloom_off min_id max_id mode =
     le_write 4 meta_offset @ le_write 4 bloom_off @ le_write 8 min_id @ le_write 8 max_id
       @ (if mode = 1 then [mode, 0x4B] else [])"

definition builder_build ::
  "(bytes \<Rightarrow> u64) \<Rightarrow> (bytes \<Rightarrow> bool) \<Rightarrow> nat \<Rightarrow> bool \<Rightarrow> sst_builder \<Rightarrow> sst result" where
  "builder_build hash io sid has_cache b =
     ebind (if block_is_empty (sb_block b) then Inr b else builder_finish_block b) (\<lambda>b1.
     if sb_meta_entries b1 = [] then Inl Runtime_Error
     else
       let meta_offset = (of_nat (length (sb_data b1)) :: u32);
           data1 = sb_data b1 @ encode_meta_to_slice hash (sb_meta_entries b1) [];
           bloom_off = (of_nat (length data1) :: u32)
       in ebind (case sb_bloom_filter b1 of None \<Rightarrow> Inr [] | Some bf \<Rightarrow> bloom_encode bf) (\<lambda>bloom_bytes.
          ebind (create_and_write io (data1 @ bloom_bytes @
              sst_footer meta_offset bloom_off (sb_min_tranc_id b1) (sb_max_tranc_id b1)
                (sb_storage_mode b1))) (\<lambda>file.
            Inr \<lparr>sst_id = sid, sst_file = file, sst_meta_entries = sb_meta_entries b1,
                 sst_bloom_offset = bloom_off, sst_meta_block_offset = meta_offset,
                 sst_first_key = bm_first_key (hd (sb_meta_entries b1)),
                 sst_last_key = bm_last_key (last (sb_meta_entries b1)),
                 sst_bloom_filter = sb_bloom_filter b1, sst_has_cache = has_cache,
                 sst_min_tranc_id = sb_min_tranc_id b1, sst_max_tranc_id = sb_max_tranc_id b1,
                 sst_storage_mode = sb_storage_mode b1, sst_has_vlog = sb_has_vlog b1\<rparr>)))"

section \<open>SST\<close>

text \<open>The footer has 24 bytes, or 26 when the last byte is the magic number and the meta offset
  read under that assumption lies before the footer.\<close>

definition sst_probe_footer :: "bytes \<Rightarrow> (nat \<times> byte) result" where
  "sst_probe_footer f =
     (let n = length f
      in if n < 26 then Inr (24, 0)
         else ebind (read_uint8 f (of_nat (n - 1))) (\<lambda>magic.
           if magic \<noteq> 0x4B then Inr (24, 0)
           else ebind (read_uint32 f (of_nat (n - 26))) (\<lambda>meta_off.
             if unat meta_off < n - 26
             then ebind (read_uint8 f (of_nat (n - 2))) (\<lambda>mode. Inr (26, mode))
             else Inr (24, 0))))"

definition sst_open :: "(bytes \<Rightarrow> u64) \<Rightarrow> nat \<Rightarrow> bytes \<Rightarrow> bool \<Rightarrow> bool \<Rightarrow> sst result" where
  "sst_open hash sid f has_cache has_vlog =
     (if length f < 24 then Inl Runtime_Error
      else
        ebind (sst_probe_footer f) (\<lambda>(footer_size, mode).
        let base = length f - footer_size
        in ebind (read_uint32 f (of_nat base)) (\<lambda>meta_off.
           ebind (read_uint32 f (of_nat base + 4)) (\<lambda>bloom_off.
           ebind (read_uint64 f (of_nat base + 8)) (\<lambda>min_id.
           ebind (read_uint64 f (of_nat base + 16)) (\<lambda>max_id.
           ebind (read_to_slice f (ucast meta_off) (ucast (bloom_off - meta_off))) (\<lambda>meta_bytes.
           ebind (decode_meta_from_slice hash meta_bytes) (\<lambda>metas.
           ebind (if unat bloom_off < base
                  then ebind (read_to_slice f (ucast bloom_off) (of_nat base - ucast bloom_off)) (\<lambda>bs.
                       ebind (bloom_decode bs) (\<lambda>bf. Inr (Some bf)))
                  else Inr None) (\<lambda>bf.
             Inr \<lparr>sst_id = sid, sst_file = f, sst_meta_entries = metas, sst_bloom_offset = bloom_off,
                  sst_meta_block_offset = meta_off,
                  sst_first_key = (if metas = [] then [] else bm_first_key (hd metas)),
                  sst_last_key = (if metas = [] then [] else bm_last_key (last metas)),
                  sst_bloom_filter = bf, sst_has_cache = has_cache, sst_min_tranc_id = min_id,
                  sst_max_tranc_id = max_id, sst_storage_mode = mode, sst_has_vlog = has_vlog\<rparr>)))))))))"

definition sst_num_blocks :: "sst \<Rightarrow> nat" where
  "sst_num_blocks s = length (sst_meta_entries s)"

text \<open>\<open>BlockCache\<close> takes \<open>int\<close> keys: ids and indices are narrowed to 32 bits.\<close>

definition to_int32 :: "int \<Rightarrow> int" where
  "to_int32 i = signed_take_bit 31 i"

definition sst_cache_key :: "sst \<Rightarrow> int \<Rightarrow> cache_key" where
  "sst_cache_key s idx = (to_int32 (int (sst_id s)), to_int32 idx)"

text \<open>The bytes of a block, from its offset to the next offset or the meta section.\<close>

definition sst_block_bytes :: "sst \<Rightarrow> nat \<Rightarrow> bytes result" where
  "sst_block_bytes s idx =
     ebind (vec_at (sst_meta_entries s) idx) (\<lambda>meta.
       let offset = (of_nat (bm_offset meta) :: u64);
           end_off = (if Suc idx < length (sst_meta_entries s)
                      then of_nat (bm_offset (sst_meta_entries s ! Suc idx))
                      else ucast (sst_meta_block_offset s))
       in read_to_slice (sst_file s) offset (end_off - offset))"

definition sst_read_block :: "sst \<Rightarrow> int \<Rightarrow> (nat \<times> block) cio" where
  "sst_read_block s idx st =
     (if idx < 0 \<or> int (length (sst_meta_entries s)) \<le> idx then (Inl Runtime_Error, st)
      else if \<not> sst_has_cache s then (Inl Out_Of_Range, st)
      else
        let (cid, bid) = sst_cache_key s idx;
            (hit, c) = block_cache_get (st_cache st) cid bid;
            st1 = st\<lparr>st_cache := c\<rparr>
        in case hit of
             Some p \<Rightarrow> (Inr p, st1)
           | None \<Rightarrow>
               (case ebind (sst_block_bytes s (nat idx)) (\<lambda>d. block_decode d True) of
                  Inl e \<Rightarrow> (Inl e, st1)
                | Inr blk \<Rightarrow>
                    let p = (st_next st1, blk); st2 = st1\<lparr>st_next := Suc (st_next st1)\<rparr>
                    in case block_cache_put (st_cache st2) cid bid (Some p) of
                         Inl e \<Rightarrow> (Inl e, st2)
                       | Inr c' \<Rightarrow> (Inr p, st2\<lparr>st_cache := c'\<rparr>)))"

function search_block :: "block_meta list \<Rightarrow> bytes \<Rightarrow> nat \<Rightarrow> nat \<Rightarrow> int result" where
  "search_block metas key left right =
     (if left < right then
        let mid = (left + right) div 2
        in ebind (vec_at metas mid) (\<lambda>meta.
             if key < bm_first_key meta then search_block metas key left mid
             else if bm_last_key meta < key then search_block metas key (mid + 1) right
             else Inr (int mid))
      else if length metas \<le> left then Inr (- 1)
      else Inr (int left))"
  by pat_completeness auto
termination by (relation "measure (\<lambda>(metas, key, left, right). right - left)") auto

declare search_block.simps [simp del]

definition sst_find_block_idx :: "(bytes \<Rightarrow> u64) \<Rightarrow> sst \<Rightarrow> bytes \<Rightarrow> int result" where
  "sst_find_block_idx hash s key =
     (if (case sst_bloom_filter s of None \<Rightarrow> False | Some bf \<Rightarrow> \<not> possibly_contains hash bf key)
      then Inr (- 1)
      else search_block (sst_meta_entries s) key 0 (length (sst_meta_entries s)))"

definition sst_resolve_value :: "sst \<Rightarrow> bytes \<Rightarrow> bytes result" where
  "sst_resolve_value s raw =
     (if sst_storage_mode s = 0 \<or> raw = [] then Inr raw
      else if length raw < 12 then Inr raw
      else if \<not> sst_has_vlog s then Inl Runtime_Error
      else Inr (vlog_read_value (le_read (take 8 raw)) (le_read (take 4 (drop 8 raw)))))"

definition sst_is_wisckey :: "sst \<Rightarrow> bool" where
  "sst_is_wisckey s \<longleftrightarrow> sst_storage_mode s = 1"

definition sst_size :: "sst \<Rightarrow> nat" where
  "sst_size s = length (sst_file s)"

definition sst_tranc_id_range :: "sst \<Rightarrow> u64 \<times> u64" where
  "sst_tranc_id_range s = (sst_min_tranc_id s, sst_max_tranc_id s)"

end
