(* ===== verification/Sst_Build.thy ===== *)
theory Sst_Build
  imports Sst
begin

text \<open>
  What an SST holds and what the builder makes: \<open>sst_layout hash s ess\<close> says that the file
  of \<open>s\<close> consists of blocks with the record lists \<open>ess\<close>, that the meta entries locate
  them and delimit their keys, and that the Bloom filter knows every key. The builder invariant
  leads from a sorted sequence of records to such an SST.
\<close>

section \<open>Blocks of records\<close>

definition first_nonempty :: "entry list \<Rightarrow> bytes" where
  "first_nonempty es = (case find (\<lambda>e. ekey e \<noteq> []) es of None \<Rightarrow> [] | Some e \<Rightarrow> ekey e)"

definition keys_below :: "entry list \<Rightarrow> entry list \<Rightarrow> bool" where
  "keys_below xs ys \<longleftrightarrow> (\<forall>x \<in> set xs. \<forall>y \<in> set ys. ekey x < ekey y)"

text \<open>Non-empty blocks in order; all versions of a key are in one block.\<close>

definition sst_blocks :: "entry list list \<Rightarrow> bool" where
  "sst_blocks ess \<longleftrightarrow> (\<forall>es \<in> set ess. es \<noteq> []) \<and> sorted_entries (concat ess) \<and> sorted_wrt keys_below ess"

definition blocks_data :: "bytes list \<Rightarrow> entry list list \<Rightarrow> bool" where
  "blocks_data bss ess \<longleftrightarrow>
     list_all2 (\<lambda>bs es. \<exists>b. block_decode bs True = Inr b \<and> block_holds b es) bss ess"

text \<open>The meta entries of the blocks \<open>ess\<close> when the records \<open>cur\<close> follow. The first
  key is the first key that is not empty, in the block or after it.\<close>

definition metas_for :: "entry list \<Rightarrow> bytes list \<Rightarrow> entry list list \<Rightarrow> block_meta list \<Rightarrow> bool" where
  "metas_for cur bss ess metas \<longleftrightarrow> length metas = length ess \<and>
     (\<forall>i < length ess. metas ! i = \<lparr>bm_offset = length (concat (take i bss)),
        bm_first_key = first_nonempty (concat (drop i ess) @ cur),
        bm_last_key = ekey (last (ess ! i))\<rparr>)"

definition bloom_knows :: "(bytes \<Rightarrow> u64) \<Rightarrow> bloom option \<Rightarrow> entry list \<Rightarrow> bool" where
  "bloom_knows hash bfo es \<longleftrightarrow>
     (\<forall>bf. bfo = Some bf \<longrightarrow> bloom_ok bf \<and> (\<forall>e \<in> set es. possibly_contains hash bf (ekey e)))"

lemma first_nonempty_append:
  "first_nonempty (xs @ ys) = (if first_nonempty xs = [] then first_nonempty ys else first_nonempty xs)"
proof (induction xs)
  case Nil
  then show ?case by (simp add: first_nonempty_def)
next
  case (Cons x xs)
  then show ?case by (cases "ekey x = []") (simp_all add: first_nonempty_def)
qed

lemma first_nonempty_one [simp]: "first_nonempty [e] = ekey e" "first_nonempty [] = []"
  by (simp_all add: first_nonempty_def)

lemma first_nonempty_Nil: "first_nonempty es = [] \<longleftrightarrow> (\<forall>e \<in> set es. ekey e = [])"
  by (induction es) (auto simp: first_nonempty_def)

lemma first_nonempty_le:
  assumes "sorted (map ekey es)" "e \<in> set es" "ekey e \<noteq> []"
  shows "first_nonempty es \<le> ekey e"
  using assms
proof (induction es)
  case (Cons x es)
  show ?case
  proof (cases "ekey x = []")
    case True
    with Cons show ?thesis by (auto simp: first_nonempty_def)
  next
    case False
    with Cons.prems show ?thesis by (auto simp: first_nonempty_def)
  qed
qed simp

lemma first_nonempty_mem: "first_nonempty es \<noteq> [] \<Longrightarrow> \<exists>e \<in> set es. first_nonempty es = ekey e"
  by (induction es) (auto simp: first_nonempty_def split: if_splits)

lemma sst_blocks_snoc:
  "sst_blocks (ess @ [es]) \<longleftrightarrow> sst_blocks ess \<and> es \<noteq> [] \<and> sorted_entries (concat ess @ es) \<and>
     (\<forall>xs \<in> set ess. keys_below xs es)"
  by (auto simp: sst_blocks_def sorted_wrt_append)

text \<open>Sizes: of a sequence of records, and of one key's group in it.\<close>

definition entries_bytes :: "entry list \<Rightarrow> nat" where
  "entries_bytes es = length (concat (map enc_entry es))"

definition key_bytes :: "entry list \<Rightarrow> bytes \<Rightarrow> nat" where
  "key_bytes es k = entries_bytes (filter (\<lambda>e. ekey e = k) es)"

lemma entries_bytes_simps [simp]:
  "entries_bytes [] = 0" "entries_bytes (e # es) = length (enc_entry e) + entries_bytes es"
  "entries_bytes (xs @ ys) = entries_bytes xs + entries_bytes ys"
  by (simp_all add: entries_bytes_def)

lemma entries_bytes_count: "12 * length es \<le> entries_bytes es"
  by (induction es) (auto simp: enc_entry_def)

lemma key_bytes_simps [simp]:
  "key_bytes [] k = 0" "key_bytes (xs @ ys) k = key_bytes xs k + key_bytes ys k"
  "key_bytes [e] k = (if ekey e = k then length (enc_entry e) else 0)"
  by (simp_all add: key_bytes_def)

lemma key_bytes_Cons: "key_bytes (e # es) k = key_bytes [e] k + key_bytes es k"
  by (simp add: key_bytes_def)

text \<open>The data of a block stay within its capacity and the group of its last key.\<close>

definition block_room :: "nat \<Rightarrow> entry list \<Rightarrow> bool" where
  "block_room bsize cur \<longleftrightarrow>
     entries_bytes cur \<le> bsize + (if cur = [] then 0 else key_bytes cur (ekey (last cur)))"

section \<open>The builder invariant\<close>

definition builder_inv :: "(bytes \<Rightarrow> u64) \<Rightarrow> sst_builder \<Rightarrow> entry list list \<Rightarrow> entry list \<Rightarrow> bool" where
  "builder_inv hash b ess cur \<longleftrightarrow>
     (cur = [] \<longrightarrow> ess = []) \<and> (cur \<noteq> [] \<longrightarrow> sst_blocks (ess @ [cur])) \<and>
     block_holds (sb_block b) cur \<and> bcapacity (sb_block b) = sb_block_size b \<and>
     block_room (sb_block_size b) cur \<and>
     (\<exists>bss. sb_data b = concat bss \<and> blocks_data bss ess \<and> metas_for cur bss ess (sb_meta_entries b)) \<and>
     sb_first_key b = first_nonempty cur \<and>
     sb_last_key b = (if cur = [] then [] else ekey (last cur)) \<and>
     bloom_knows hash (sb_bloom_filter b) (concat ess @ cur)"

lemma bloom_knows_add:
  "bloom_knows hash bfo es \<Longrightarrow>
   bloom_knows hash (map_option (\<lambda>bf. bloom_add hash bf (ekey e)) bfo) (es @ [e])"
  unfolding bloom_knows_def
  by (auto intro: bloom_add_ok bloom_add_keeps bloom_add_contains)

lemma metas_for_next:
  assumes "metas_for cur bss ess metas" "sst_blocks (ess @ [cur])" "cur \<noteq> []"
  shows "metas_for (cur @ es) bss ess metas"
proof -
  have "first_nonempty (concat (drop i ess) @ cur) \<noteq> []" if "i < length ess" for i
  proof -
    have i: "ess ! i \<in> set ess" "ess ! i \<noteq> []" using assms(2) that by (simp_all add: sst_blocks_def)
    then have "keys_below (ess ! i) cur" using assms(2) unfolding sst_blocks_snoc by blast
    then have "ekey (hd (ess ! i)) < ekey (hd cur)"
      unfolding keys_below_def using hd_in_set [OF i(2)] hd_in_set [OF assms(3)] by blast
    then have "ekey (hd cur) \<noteq> []" by (metis not_less_Nil)
    moreover have "hd cur \<in> set (concat (drop i ess) @ cur)"
      using hd_in_set [OF assms(3)] by simp
    ultimately show ?thesis unfolding first_nonempty_Nil by blast
  qed
  then have E: "first_nonempty (concat (drop i ess) @ cur @ es) = first_nonempty (concat (drop i ess) @ cur)"
    if "i < length ess" for i
    using first_nonempty_append [of "concat (drop i ess) @ cur" es, unfolded append_assoc] that
    by (simp only: if_False)
  show ?thesis
    unfolding metas_for_def
  proof (intro conjI allI impI)
    show "length metas = length ess" using assms(1) by (simp only: metas_for_def)
    fix i
    assume i: "i < length ess"
    then show "metas ! i = \<lparr>bm_offset = length (concat (take i bss)),
        bm_first_key = first_nonempty (concat (drop i ess) @ cur @ es),
        bm_last_key = ekey (last (ess ! i))\<rparr>"
      using assms(1) unfolding E [OF i] metas_for_def by blast
  qed
qed

lemma metas_for_close:
  assumes "metas_for (cur @ es) bss ess metas" "length bss = length ess"
  shows "metas_for es (bss @ [enc]) (ess @ [cur])
    (metas @ [\<lparr>bm_offset = length (concat bss), bm_first_key = first_nonempty (cur @ es),
               bm_last_key = ekey (last cur)\<rparr>])"
  unfolding metas_for_def
proof (intro conjI allI impI)
  show "length (metas @ [\<lparr>bm_offset = length (concat bss), bm_first_key = first_nonempty (cur @ es),
      bm_last_key = ekey (last cur)\<rparr>]) = length (ess @ [cur])"
    using assms(1) by (simp add: metas_for_def)
  fix i
  assume "i < length (ess @ [cur])"
  then consider "i < length ess" | "i = length ess" by fastforce
  then show "(metas @ [\<lparr>bm_offset = length (concat bss), bm_first_key = first_nonempty (cur @ es),
      bm_last_key = ekey (last cur)\<rparr>]) ! i = \<lparr>bm_offset = length (concat (take i (bss @ [enc]))),
        bm_first_key = first_nonempty (concat (drop i (ess @ [cur])) @ es),
        bm_last_key = ekey (last ((ess @ [cur]) ! i))\<rparr>"
    by cases (use assms in \<open>simp_all add: metas_for_def nth_append\<close>)
qed

lemma blocks_data_length: "blocks_data bss ess \<Longrightarrow> length bss = length ess"
  unfolding blocks_data_def by (rule list_all2_lengthD)

lemma sorted_snoc_last_key:
  assumes "sorted_entries (es @ [e])" "es \<noteq> []"
  shows "ekey (last es) \<le> ekey e" "x \<in> set es \<Longrightarrow> ekey x \<le> ekey (last es)"
proof -
  have "entry_less (last es) e" using assms by (simp add: sorted_wrt_append)
  then show "ekey (last es) \<le> ekey e" by (rule entry_less_key_le)
  assume "x \<in> set es"
  then have "x \<in> set (butlast es @ [last es])" using assms(2) by simp
  moreover have "sorted_entries (butlast es @ [last es])" using assms by (simp add: sorted_wrt_append)
  ultimately show "ekey x \<le> ekey (last es)" by (auto simp: sorted_wrt_append entry_less_key_le)
qed

lemma builder_note_fields [simp]:
  "sb_block (builder_note hash b k t) = sb_block b" "sb_last_key (builder_note hash b k t) = sb_last_key b"
  "sb_meta_entries (builder_note hash b k t) = sb_meta_entries b" "sb_data (builder_note hash b k t) = sb_data b"
  "sb_block_size (builder_note hash b k t) = sb_block_size b"
  "builder_stored (builder_note hash b k t) = builder_stored b"
  "sb_first_key (builder_note hash b k t) = (if sb_first_key b = [] then k else sb_first_key b)"
  "sb_bloom_filter (builder_note hash b k t) = map_option (\<lambda>bf. bloom_add hash bf k) (sb_bloom_filter b)"
  by (auto simp: builder_note_def builder_stored_def fun_eq_iff)

text \<open>The record that the builder stores for \<open>e\<close>.\<close>

definition stored_entry :: "sst_builder \<Rightarrow> entry \<Rightarrow> entry" where
  "stored_entry b e = (ekey e, builder_stored b (ekey e) (evalue e), etid e)"

lemma builder_finish_inv:
  assumes "block_holds (sb_block b) cur"
  obtains enc blk where "block_decode enc True = Inr blk" "block_holds blk cur"
    "builder_finish_block b = Inr (b\<lparr>sb_meta_entries := sb_meta_entries b @
       [\<lparr>bm_offset = length (sb_data b), bm_first_key = sb_first_key b, bm_last_key = sb_last_key b\<rparr>],
     sb_data := sb_data b @ enc, sb_block := block_new (sb_block_size b)\<rparr>)"
proof -
  obtain enc blk where "block_encode (sb_block b) True = Inr enc" "block_decode enc True = Inr blk"
    "block_holds blk cur"
    using block_decoded_holds [OF assms, of True] by blast
  then show thesis using that [of enc blk] by (simp add: builder_finish_block_def)
qed

lemma keys_below_snoc:
  assumes "sst_blocks (ess @ [cur])" "sorted_entries (concat ess @ cur @ [e])" "xs \<in> set ess"
  shows "keys_below xs (cur @ [e])"
  unfolding keys_below_def
proof (intro ballI)
  fix x y
  assume x: "x \<in> set xs" and y: "y \<in> set (cur @ [e])"
  have ne: "cur \<noteq> []" and B: "\<And>c. c \<in> set cur \<Longrightarrow> ekey x < ekey c"
    using assms(1,3) x by (auto simp: sst_blocks_snoc keys_below_def)
  have "sorted_entries (cur @ [e])" using assms(2) by (simp add: sorted_wrt_append)
  then have "ekey (last cur) \<le> ekey e" using ne by (rule sorted_snoc_last_key(1))
  moreover have "ekey x < ekey (last cur)" using B ne by simp
  moreover have "y \<in> set cur \<or> y = e" using y by auto
  ultimately show "ekey x < ekey y" using B by (blast intro: order.strict_trans2)
qed

lemma builder_add_cases:
  assumes "builder_add hash b e = Inr b'"
  obtains (kept) blk where
    "block_add_entry (sb_block b) (ekey e) (builder_stored b (ekey e) (evalue e)) (etid e)
       (ekey e = sb_last_key b) = Inr (True, blk)"
    "b' = builder_note hash b (ekey e) (etid e)\<lparr>sb_block := blk, sb_last_key := ekey e\<rparr>"
  | (cut) blk0 b2 ok blk where
    "block_add_entry (sb_block b) (ekey e) (builder_stored b (ekey e) (evalue e)) (etid e)
       (ekey e = sb_last_key b) = Inr (False, blk0)"
    "builder_finish_block (builder_note hash b (ekey e) (etid e)) = Inr b2"
    "block_add_entry (sb_block b2) (ekey e) (builder_stored b (ekey e) (evalue e)) (etid e) False = Inr (ok, blk)"
    "b' = b2\<lparr>sb_block := blk, sb_first_key := ekey e, sb_last_key := ekey e\<rparr>"
proof -
  let ?b1 = "builder_note hash b (ekey e) (etid e)"
  obtain ok blk where A: "block_add_entry (sb_block b) (ekey e) (builder_stored b (ekey e) (evalue e)) (etid e)
      (ekey e = sb_last_key b) = Inr (ok, blk)"
    using assms unfolding builder_add_def Let_def builder_note_fields
    by (cases "block_add_entry (sb_block b) (ekey e) (builder_stored b (ekey e) (evalue e)) (etid e)
      (ekey e = sb_last_key b)") auto
  show thesis
  proof (cases ok)
    case True
    then have "b' = ?b1\<lparr>sb_block := blk, sb_last_key := ekey e\<rparr>"
      using assms unfolding builder_add_def Let_def builder_note_fields A by simp
    with A True show thesis by (intro kept [of blk]) simp_all
  next
    case False
    define tail where "tail = (\<lambda>b2 :: sst_builder. ebind (block_add_entry (sb_block b2) (ekey e)
        (builder_stored b (ekey e) (evalue e)) (etid e) False) (\<lambda>(_, blk2).
      Inr (b2\<lparr>sb_block := blk2, sb_first_key := ekey e, sb_last_key := ekey e\<rparr>)))"
    have "ebind (builder_finish_block ?b1) tail = Inr b'"
      using assms False unfolding builder_add_def Let_def builder_note_fields A tail_def by simp
    then obtain b2 where b2: "builder_finish_block ?b1 = Inr b2" "tail b2 = Inr b'"
      unfolding ebind_Inr_conv by blast
    from b2(2) obtain r where r: "block_add_entry (sb_block b2) (ekey e) (builder_stored b (ekey e) (evalue e)) (etid e) False = Inr r"
      "b' = b2\<lparr>sb_block := snd r, sb_first_key := ekey e, sb_last_key := ekey e\<rparr>"
      unfolding tail_def ebind_Inr_conv by (auto simp: case_prod_beta)
    show thesis by (rule cut [of blk b2 "fst r" "snd r"]) (use A False b2(1) r in simp_all)
  qed
qed

lemma block_room_kept:
  assumes "block_room bsize cur" "force \<or> cur = [] \<or> entries_bytes (cur @ [e]) \<le> bsize"
    "force \<Longrightarrow> cur \<noteq> [] \<Longrightarrow> ekey e = ekey (last cur)"
  shows "block_room bsize (cur @ [e])"
  using assms by (cases "cur = []"; cases force) (auto simp: block_room_def)

lemma builder_kept_inv:
  assumes inv: "builder_inv hash b ess cur"
    and sorted: "sorted_entries (concat ess @ cur @ [stored_entry b e])"
    and blk: "block_add_entry (sb_block b) (ekey e) (builder_stored b (ekey e) (evalue e)) (etid e)
      (ekey e = sb_last_key b) = Inr (True, blk)"
  shows "builder_inv hash (builder_note hash b (ekey e) (etid e)\<lparr>sb_block := blk, sb_last_key := ekey e\<rparr>)
    ess (cur @ [stored_entry b e])"
proof -
  define e' where "e' = stored_entry b e"
  have e': "ekey e' = ekey e" "e' = (ekey e, builder_stored b (ekey e) (evalue e), etid e)"
    by (simp_all add: e'_def stored_entry_def)
  obtain bss where bss: "sb_data b = concat bss" "blocks_data bss ess" "metas_for cur bss ess (sb_meta_entries b)"
    using inv unfolding builder_inv_def by blast
  have I: "cur = [] \<Longrightarrow> ess = []" "cur \<noteq> [] \<Longrightarrow> sst_blocks (ess @ [cur])"
    "block_holds (sb_block b) cur" "bcapacity (sb_block b) = sb_block_size b" "block_room (sb_block_size b) cur"
    "sb_first_key b = first_nonempty cur" "sb_last_key b = (if cur = [] then [] else ekey (last cur))"
    "bloom_knows hash (sb_bloom_filter b) (concat ess @ cur)"
    using inv unfolding builder_inv_def by simp_all
  note C = block_add_entry_cases [OF I(3), of "ekey e" "builder_stored b (ekey e) (evalue e)" "etid e"
      "ekey e = sb_last_key b", unfolded blk sum.case prod.case if_True e'(2) [symmetric]]
  have "length (bdata blk) = entries_bytes (cur @ [e'])"
    using C by (simp add: block_holds_def entries_bytes_def)
  then have "block_room (sb_block_size b) (cur @ [e'])"
    using C I(4,7) e'(1) by (intro block_room_kept [OF I(5), of "ekey e = sb_last_key b"]) (auto simp: block_cur_size_def)
  moreover have "sst_blocks (ess @ [cur @ [e']])"
    using I(1,2) keys_below_snoc [OF I(2)] sorted [folded e'_def]
    by (cases "cur = []") (auto simp: sst_blocks_snoc, simp add: sst_blocks_def)
  moreover have "metas_for (cur @ [e']) bss ess (sb_meta_entries b)"
    using bss(3) I(1) metas_for_next [OF bss(3) I(2)] by (cases "cur = []") (simp_all add: metas_for_def)
  moreover have "bloom_knows hash (map_option (\<lambda>bf. bloom_add hash bf (ekey e)) (sb_bloom_filter b)) (concat ess @ cur @ [e'])"
    using bloom_knows_add [OF I(8), of e'] by (simp add: e'(1))
  moreover have "(if sb_first_key b = [] then ekey e else sb_first_key b) = first_nonempty (cur @ [e'])"
    using I(6) by (simp add: first_nonempty_append e'(1))
  ultimately show ?thesis
    unfolding builder_inv_def e'_def [symmetric] using C I(4) bss(1,2) e'(1) by auto
qed

lemma builder_cut_inv:
  assumes inv: "builder_inv hash b ess cur"
    and sorted: "sorted_entries (concat ess @ cur @ [stored_entry b e])"
    and blk: "block_add_entry (sb_block b) (ekey e) (builder_stored b (ekey e) (evalue e)) (etid e)
        (ekey e = sb_last_key b) = Inr (False, blk0)"
      "builder_finish_block (builder_note hash b (ekey e) (etid e)) = Inr b2"
      "block_add_entry (sb_block b2) (ekey e) (builder_stored b (ekey e) (evalue e)) (etid e) False = Inr (ok, blk)"
  shows "cur \<noteq> [] \<and> builder_inv hash (b2\<lparr>sb_block := blk, sb_first_key := ekey e, sb_last_key := ekey e\<rparr>)
    (ess @ [cur]) [stored_entry b e]"
proof -
  define e' where "e' = stored_entry b e"
  have e': "ekey e' = ekey e" "e' = (ekey e, builder_stored b (ekey e) (evalue e), etid e)"
    by (simp_all add: e'_def stored_entry_def)
  have S: "sorted_entries (concat ess @ cur @ [e'])" "sorted_entries (cur @ [e'])"
    using sorted by (simp_all add: e'_def sorted_wrt_append)
  obtain bss where bss: "sb_data b = concat bss" "blocks_data bss ess" "metas_for cur bss ess (sb_meta_entries b)"
    using inv unfolding builder_inv_def by blast
  have I: "block_holds (sb_block b) cur" "sb_first_key b = first_nonempty cur"
    "sb_last_key b = (if cur = [] then [] else ekey (last cur))"
    "bloom_knows hash (sb_bloom_filter b) (concat ess @ cur)"
    using inv unfolding builder_inv_def by simp_all
  have ne: "cur \<noteq> []" and nf: "ekey e \<noteq> sb_last_key b"
    using block_add_entry_cases [OF I(1), of "ekey e" "builder_stored b (ekey e) (evalue e)" "etid e"
      "ekey e = sb_last_key b"] unfolding blk(1) by simp_all
  have blocks: "sst_blocks (ess @ [cur])" using inv ne by (simp add: builder_inv_def)
  obtain enc dec where enc: "block_decode enc True = Inr dec" "block_holds dec cur"
    "b2 = builder_note hash b (ekey e) (etid e)\<lparr>sb_meta_entries := sb_meta_entries b @
       [\<lparr>bm_offset = length (concat bss), bm_first_key = first_nonempty (cur @ [e']), bm_last_key = ekey (last cur)\<rparr>],
     sb_data := concat bss @ enc, sb_block := block_new (sb_block_size b)\<rparr>"
  proof -
    let ?n = "builder_note hash b (ekey e) (etid e)"
    have "block_holds (sb_block ?n) cur" using I(1) by simp
    then obtain enc dec where E: "block_decode enc True = Inr dec" "block_holds dec cur"
      "builder_finish_block ?n = Inr (?n\<lparr>sb_meta_entries := sb_meta_entries ?n @
         [\<lparr>bm_offset = length (sb_data ?n), bm_first_key = sb_first_key ?n, bm_last_key = sb_last_key ?n\<rparr>],
       sb_data := sb_data ?n @ enc, sb_block := block_new (sb_block_size ?n)\<rparr>)"
      using builder_finish_inv by blast
    have fk: "sb_first_key ?n = first_nonempty (cur @ [e'])"
      using I(2) by (simp add: first_nonempty_append e'(1))
    from E(3) have "b2 = ?n\<lparr>sb_meta_entries := sb_meta_entries ?n @
         [\<lparr>bm_offset = length (sb_data ?n), bm_first_key = sb_first_key ?n, bm_last_key = sb_last_key ?n\<rparr>],
       sb_data := sb_data ?n @ enc, sb_block := block_new (sb_block_size ?n)\<rparr>"
      using blk(2) by simp
    then have "b2 = ?n\<lparr>sb_meta_entries := sb_meta_entries b @
         [\<lparr>bm_offset = length (concat bss), bm_first_key = first_nonempty (cur @ [e']), bm_last_key = ekey (last cur)\<rparr>],
       sb_data := concat bss @ enc, sb_block := block_new (sb_block_size b)\<rparr>"
      unfolding fk using I(3) ne bss(1) by simp
    with E(1,2) show thesis by (rule that)
  qed
  have new: "sb_block b2 = block_new (sb_block_size b)" by (simp add: enc(3))
  have holds: "block_holds blk [e']" "bcapacity blk = sb_block_size b"
    using block_add_entry_cases [OF block_new_holds [of "sb_block_size b"], of "ekey e"
        "builder_stored b (ekey e) (evalue e)" "etid e" False] blk(3)
    unfolding new e'(2) [symmetric] by (auto simp: block_new_def split: if_splits)
  have "ekey (last cur) < ekey e'"
    using sorted_snoc_last_key(1) [OF S(2) ne] nf I(3) ne e'(1) by auto
  then have "keys_below cur [e']"
    using sorted_snoc_last_key(2) [OF S(2) ne] by (auto simp: keys_below_def intro: order.strict_trans1)
  moreover have "keys_below xs [e']" if "xs \<in> set ess" for xs
    using keys_below_snoc [OF blocks S(1) that] ne by (simp add: keys_below_def)
  ultimately have B: "sst_blocks ((ess @ [cur]) @ [[e']])"
    unfolding sst_blocks_snoc [of "ess @ [cur]"] using blocks S(1) by auto
  have M: "metas_for [e'] (bss @ [enc]) (ess @ [cur]) (sb_meta_entries b2)"
    using metas_for_close [OF metas_for_next [OF bss(3) blocks ne] blocks_data_length [OF bss(2)]]
    by (simp add: enc(3))
  have D: "blocks_data (bss @ [enc]) (ess @ [cur])"
    using bss(2) enc(1,2) unfolding blocks_data_def by (intro list_all2_appendI) auto
  have K: "bloom_knows hash (sb_bloom_filter b2) (concat (ess @ [cur]) @ [e'])"
    using bloom_knows_add [OF I(4), of e'] by (simp add: e'(1) enc(3))
  have "sb_data b2 = concat (bss @ [enc])" "sb_block_size b2 = sb_block_size b" by (simp_all add: enc(3))
  moreover from this have "\<exists>bss. sb_data b2 = concat bss \<and> blocks_data bss (ess @ [cur]) \<and>
      metas_for [e'] bss (ess @ [cur]) (sb_meta_entries b2)"
    using M D by blast
  ultimately show ?thesis
    unfolding builder_inv_def e'_def [symmetric] using B K holds e'(1) ne by (simp add: block_room_def)
qed

lemma builder_add_inv:
  assumes "builder_inv hash b ess cur" "sorted_entries (concat ess @ cur @ [stored_entry b e])"
    "builder_add hash b e = Inr b'"
  shows "builder_inv hash b' ess (cur @ [stored_entry b e]) \<or>
    cur \<noteq> [] \<and> builder_inv hash b' (ess @ [cur]) [stored_entry b e]"
  using assms(3)
proof (cases rule: builder_add_cases)
  case (kept blk)
  show ?thesis unfolding kept(2) using builder_kept_inv [OF assms(1,2) kept(1)] by blast
next
  case (cut blk0 b2 ok blk)
  show ?thesis unfolding cut(4) using builder_cut_inv [OF assms(1,2) cut(1-3)] by blast
qed

section \<open>Filling a builder\<close>

lemma builder_add_frame:
  assumes "builder_add hash b e = Inr b'"
  shows "builder_stored b' = builder_stored b" "sb_storage_mode b' = sb_storage_mode b"
    "sb_has_vlog b' = sb_has_vlog b"
    "sb_max_tranc_id b' = max (sb_max_tranc_id b) (etid e)"
    "sb_min_tranc_id b' = min (sb_min_tranc_id b) (etid e)"
  using assms
  by (cases rule: builder_add_cases; simp add: builder_note_def builder_stored_def builder_finish_block_def fun_eq_iff ebind_Inr_conv; fastforce?)+

text \<open>One record of a longer sequence.\<close>

lemma builder_add_step:
  assumes "builder_inv hash b ess cur" "sorted_entries (concat ess @ cur @ map (stored_entry b) (e # es))"
    "builder_add hash b e = Inr b1"
  obtains ess1 cur1 where "builder_inv hash b1 ess1 cur1"
    "cur1 = cur @ [stored_entry b e] \<or> cur1 = [stored_entry b e]"
    "concat ess1 @ cur1 @ map (stored_entry b1) es = concat ess @ cur @ map (stored_entry b) (e # es)"
    "sorted_entries (concat ess1 @ cur1 @ map (stored_entry b1) es)"
    "stored_entry b1 = stored_entry b" "sb_block_size b1 = sb_block_size b"
proof -
  have st: "stored_entry b1 = stored_entry b"
    using builder_add_frame(1) [OF assms(3)] by (simp add: stored_entry_def fun_eq_iff)
  have bs: "sb_block_size b1 = sb_block_size b"
    using assms(3) by (cases rule: builder_add_cases) (auto simp: builder_finish_block_def ebind_Inr_conv)
  have "sorted_entries (concat ess @ cur @ [stored_entry b e])"
    using assms(2) by (auto simp: sorted_wrt_append)
  from builder_add_inv [OF assms(1) this assms(3)] show thesis
  proof (elim disjE conjE)
    assume "builder_inv hash b1 ess (cur @ [stored_entry b e])"
    then show thesis by (rule that) (use st bs assms(2) in simp_all)
  next
    assume "builder_inv hash b1 (ess @ [cur]) [stored_entry b e]"
    then show thesis by (rule that) (use st bs assms(2) in simp_all)
  qed
qed

lemma builder_add_all_inv:
  assumes "builder_inv hash b ess cur" "sorted_entries (concat ess @ cur @ map (stored_entry b) es)"
    "add_all (builder_add hash) b es = Inr b'"
  shows "\<exists>ess' cur'. builder_inv hash b' ess' cur' \<and>
      concat ess' @ cur' = concat ess @ cur @ map (stored_entry b) es"
  using assms
proof (induction es arbitrary: b ess cur)
  case (Cons e es)
  obtain b1 where b1: "builder_add hash b e = Inr b1" "add_all (builder_add hash) b1 es = Inr b'"
    using Cons.prems(3) by (auto simp: ebind_Inr_conv)
  obtain ess1 cur1 where s: "builder_inv hash b1 ess1 cur1"
    "cur1 = cur @ [stored_entry b e] \<or> cur1 = [stored_entry b e]"
    "concat ess1 @ cur1 @ map (stored_entry b1) es = concat ess @ cur @ map (stored_entry b) (e # es)"
    "sorted_entries (concat ess1 @ cur1 @ map (stored_entry b1) es)"
    "stored_entry b1 = stored_entry b" "sb_block_size b1 = sb_block_size b"
    by (rule builder_add_step [OF Cons.prems(1,2) b1(1)])
  from Cons.IH [OF s(1,4) b1(2)] show ?case unfolding s(3) .
qed auto

lemma builder_add_all_ids:
  assumes "add_all (builder_add hash) b es = Inr b'"
  shows "sb_max_tranc_id b' = fold max (map etid es) (sb_max_tranc_id b)"
    "sb_min_tranc_id b' = fold min (map etid es) (sb_min_tranc_id b)"
    "sb_storage_mode b' = sb_storage_mode b" "sb_has_vlog b' = sb_has_vlog b"
proof -
  have "sb_max_tranc_id b' = fold max (map etid es) (sb_max_tranc_id b) \<and>
    sb_min_tranc_id b' = fold min (map etid es) (sb_min_tranc_id b) \<and>
    sb_storage_mode b' = sb_storage_mode b \<and> sb_has_vlog b' = sb_has_vlog b"
    using assms
  proof (induction es arbitrary: b)
    case (Cons e es)
    obtain b1 where b1: "builder_add hash b e = Inr b1" "add_all (builder_add hash) b1 es = Inr b'"
      using Cons.prems by (auto simp: ebind_Inr_conv)
    show ?case
      using Cons.IH [OF b1(2)] unfolding builder_add_frame [OF b1(1)] by (simp add: max.commute min.commute)
  qed simp
  then show "sb_max_tranc_id b' = fold max (map etid es) (sb_max_tranc_id b)"
    "sb_min_tranc_id b' = fold min (map etid es) (sb_min_tranc_id b)"
    "sb_storage_mode b' = sb_storage_mode b" "sb_has_vlog b' = sb_has_vlog b"
    by blast+
qed

definition builder_fresh :: "sst_builder \<Rightarrow> bool" where
  "builder_fresh b \<longleftrightarrow> sb_block b = block_new (sb_block_size b) \<and> sb_first_key b = [] \<and> sb_last_key b = [] \<and>
     sb_meta_entries b = [] \<and> sb_data b = [] \<and>
     (\<forall>bf. sb_bloom_filter b = Some bf \<longrightarrow> bloom_ok bf)"

lemma builder_fresh_inv: "builder_fresh b \<Longrightarrow> builder_inv hash b [] []"
  by (simp add: builder_fresh_def block_room_def builder_inv_def block_new_holds bloom_knows_def blocks_data_def
      metas_for_def block_new_def [of "sb_block_size b", THEN arg_cong [where f = bcapacity]] sst_blocks_def)

section \<open>The SST that is built\<close>

definition sst_layout :: "(bytes \<Rightarrow> u64) \<Rightarrow> sst \<Rightarrow> entry list list \<Rightarrow> bool" where
  "sst_layout hash s ess \<longleftrightarrow> ess \<noteq> [] \<and> sst_blocks ess \<and> length (sst_file s) < 2 ^ 63 \<and>
     (\<exists>bss rest. sst_file s = concat bss @ rest \<and> blocks_data bss ess \<and>
        metas_for [] bss ess (sst_meta_entries s) \<and>
        unat (sst_meta_block_offset s) = length (concat bss)) \<and>
     sst_first_key s = first_nonempty (concat ess) \<and> sst_last_key s = ekey (last (last ess)) \<and>
     bloom_knows hash (sst_bloom_filter s) (concat ess)"

text \<open>\<open>build\<close> closes the current block, if there is one.\<close>

lemma builder_close_inv:
  assumes "builder_inv hash b ess cur" "cur \<noteq> []"
  obtains b1 bss where "builder_finish_block b = Inr b1" "block_is_empty (sb_block b) = False"
    "sb_data b1 = concat bss" "blocks_data bss (ess @ [cur])" "metas_for [] bss (ess @ [cur]) (sb_meta_entries b1)"
    "sb_bloom_filter b1 = sb_bloom_filter b" "sb_min_tranc_id b1 = sb_min_tranc_id b"
    "sb_max_tranc_id b1 = sb_max_tranc_id b" "sb_storage_mode b1 = sb_storage_mode b" "sb_has_vlog b1 = sb_has_vlog b"
proof -
  obtain bss where bss: "sb_data b = concat bss" "blocks_data bss ess" "metas_for cur bss ess (sb_meta_entries b)"
    using assms(1) unfolding builder_inv_def by blast
  have I: "block_holds (sb_block b) cur" "sb_first_key b = first_nonempty cur" "sb_last_key b = ekey (last cur)"
    using assms unfolding builder_inv_def by simp_all
  obtain enc dec where enc: "block_decode enc True = Inr dec" "block_holds dec cur"
    "builder_finish_block b = Inr (b\<lparr>sb_meta_entries := sb_meta_entries b @
       [\<lparr>bm_offset = length (sb_data b), bm_first_key = sb_first_key b, bm_last_key = sb_last_key b\<rparr>],
     sb_data := sb_data b @ enc, sb_block := block_new (sb_block_size b)\<rparr>)"
    using builder_finish_inv [OF I(1)] by blast
  have "boffsets (sb_block b) \<noteq> []" using holds_length [OF I(1)] assms(2) by auto
  then have ne: "block_is_empty (sb_block b) = False" by (simp add: block_is_empty_def)
  have "metas_for (cur @ []) bss ess (sb_meta_entries b)" using bss(3) by simp
  from metas_for_close [OF this blocks_data_length [OF bss(2)], of enc]
  have "metas_for [] (bss @ [enc]) (ess @ [cur]) (sb_meta_entries b @
      [\<lparr>bm_offset = length (sb_data b), bm_first_key = sb_first_key b, bm_last_key = sb_last_key b\<rparr>])"
    by (simp add: bss(1) I(2,3))
  moreover have "blocks_data (bss @ [enc]) (ess @ [cur])"
    using bss(2) enc(1,2) unfolding blocks_data_def by (intro list_all2_appendI) auto
  ultimately show thesis
    by (intro that [OF enc(3) ne, of "bss @ [enc]"]) (simp_all add: bss(1))
qed

lemma metas_for_ends:
  assumes "metas_for [] bss ess metas" "ess \<noteq> []"
  shows "metas \<noteq> []" "bm_first_key (hd metas) = first_nonempty (concat ess)"
    "bm_last_key (last metas) = ekey (last (last ess))"
proof -
  have len: "length metas = length ess" using assms(1) by (simp add: metas_for_def)
  then show ne: "metas \<noteq> []" using assms(2) by auto
  have M: "metas ! i = \<lparr>bm_offset = length (concat (take i bss)),
      bm_first_key = first_nonempty (concat (drop i ess)), bm_last_key = ekey (last (ess ! i))\<rparr>"
    if "i < length ess" for i
    using assms(1) that by (simp add: metas_for_def)
  show "bm_first_key (hd metas) = first_nonempty (concat ess)"
    using M [of 0] ne assms(2) by (simp add: hd_conv_nth)
  show "bm_last_key (last metas) = ekey (last (last ess))"
    using M [of "length ess - 1"] ne assms(2) len by (simp add: last_conv_nth)
qed

lemma builder_build_layout:
  assumes "builder_inv hash b ess cur" "cur \<noteq> []" "builder_build hash io sid hc b = Inr s"
    "length (sst_file s) < 2 ^ 32"
  shows "sst_layout hash s (ess @ [cur])"
proof -
  obtain b1 bss where b1: "builder_finish_block b = Inr b1" "block_is_empty (sb_block b) = False"
    "sb_data b1 = concat bss" "blocks_data bss (ess @ [cur])" "metas_for [] bss (ess @ [cur]) (sb_meta_entries b1)"
    "sb_bloom_filter b1 = sb_bloom_filter b"
    using builder_close_inv [OF assms(1,2)] by metis
  note E = metas_for_ends [OF b1(5)]
  obtain rest where s: "sst_file s = concat bss @ rest" "sst_meta_entries s = sb_meta_entries b1"
    "sst_meta_block_offset s = of_nat (length (concat bss))"
    "sst_first_key s = bm_first_key (hd (sb_meta_entries b1))"
    "sst_last_key s = bm_last_key (last (sb_meta_entries b1))" "sst_bloom_filter s = sb_bloom_filter b"
    using assms(3) E(1) b1
    by (auto simp: builder_build_def ebind_Inr_conv create_and_write_def Let_def split: if_splits)
  have "length (concat bss) < 2 ^ 32" using assms(4) by (simp add: s(1))
  then have "unat (sst_meta_block_offset s) = length (concat bss)"
    by (simp add: s(3) unat_of_nat_small)
  moreover have "sst_blocks (ess @ [cur])" "bloom_knows hash (sst_bloom_filter s) (concat (ess @ [cur]))"
    using assms(1,2) by (simp_all add: builder_inv_def s(6))
  ultimately show ?thesis
    unfolding sst_layout_def using assms(4) b1(4,5) E(2,3) s(1,2,4,5) by auto
qed

end
