(* ===== verification/Sst_Read.thy ===== *)
theory Sst_Read
  imports Sst_Build
begin

text \<open>
  Reading an SST: the block search finds the only block that can hold a key, and a read
  through the cache returns a block with exactly its records, whether the cache hits, misses
  or evicts.
\<close>

section \<open>Locating a block\<close>

lemma sst_layout_facts:
  assumes "sst_layout hash s ess"
  shows "length (sst_meta_entries s) = length ess" "sst_blocks ess" "ess \<noteq> []" "sorted_entries (concat ess)"
    "sst_first_key s = first_nonempty (concat ess)" "sst_last_key s = ekey (last (last ess))"
    "bloom_knows hash (sst_bloom_filter s) (concat ess)"
  using assms unfolding sst_layout_def metas_for_def sst_blocks_def by blast+

lemma sst_layout_meta:
  assumes "sst_layout hash s ess" "i < length ess"
  shows "length (sst_meta_entries s) = length ess"
    "bm_first_key (sst_meta_entries s ! i) = first_nonempty (concat (drop i ess))"
    "bm_last_key (sst_meta_entries s ! i) = ekey (last (ess ! i))"
proof -
  obtain bss where M: "metas_for [] bss ess (sst_meta_entries s)"
    using assms(1) unfolding sst_layout_def by blast
  then show "length (sst_meta_entries s) = length ess"
    "bm_first_key (sst_meta_entries s ! i) = first_nonempty (concat (drop i ess))"
    "bm_last_key (sst_meta_entries s ! i) = ekey (last (ess ! i))"
    using assms(2) by (simp_all add: metas_for_def)
qed

lemma sorted_last_key: "sorted_entries es \<Longrightarrow> x \<in> set es \<Longrightarrow> ekey x \<le> ekey (last es)"
proof (induction es rule: rev_induct)
  case (snoc y ys)
  then have "x = y \<or> entry_less x y" by (auto simp: sorted_wrt_append)
  then show ?case using entry_less_key_le [of x y] by auto
qed simp

lemma sst_blocks_order:
  assumes "sst_blocks ess" "i < j" "j < length ess" "x \<in> set (ess ! i)" "y \<in> set (ess ! j)"
  shows "ekey x < ekey y"
  using assms sorted_wrt_nth_less [of keys_below ess i j] by (auto simp: sst_blocks_def keys_below_def)

lemma sst_block_sorted: "sst_blocks ess \<Longrightarrow> i < length ess \<Longrightarrow> sorted_entries (ess ! i) \<and> ess ! i \<noteq> []"
proof -
  assume a: "sst_blocks ess" "i < length ess"
  then have "concat ess = concat (take i ess) @ ess ! i @ concat (drop (Suc i) ess)"
    by (metis concat.simps(2) concat_append id_take_nth_drop)
  with a show ?thesis by (auto simp: sst_blocks_def sorted_wrt_append)
qed

lemma sst_block_last:
  assumes "sst_blocks ess" "i < length ess"
  shows "x \<in> set (ess ! i) \<Longrightarrow> ekey x \<le> ekey (last (ess ! i))" "last (ess ! i) \<in> set (ess ! i)"
  using sst_block_sorted [OF assms] sorted_last_key by auto

text \<open>The first key of the meta entry is a lower bound of all non-empty keys from its block on,
  and one of these keys.\<close>

lemma meta_first_key_le:
  assumes "sst_blocks ess" "i \<le> j" "j < length ess" "x \<in> set (ess ! j)" "ekey x \<noteq> []"
  shows "first_nonempty (concat (drop i ess)) \<le> ekey x"
proof (rule first_nonempty_le)
  have "concat ess = concat (take i ess) @ concat (drop i ess)" by (metis append_take_drop_id concat_append)
  then have "sorted_entries (concat (drop i ess))"
    using assms(1) by (simp add: sst_blocks_def sorted_wrt_append)
  then show "sorted (map ekey (concat (drop i ess)))" by (rule sorted_entries_keys)
  have "ess ! j \<in> set (drop i ess)" using assms(2,3) by (auto simp: in_set_conv_nth intro!: exI [of _ "j - i"])
  then show "x \<in> set (concat (drop i ess))" using assms(4) by auto
qed (rule assms(5))

lemma meta_first_key_greater:
  assumes "sst_blocks ess" "j < i" "i < length ess" "x \<in> set (ess ! j)"
  shows "ekey x < first_nonempty (concat (drop i ess))"
proof -
  have y: "ekey x < ekey y" if "y \<in> set (concat (drop i ess))" for y
  proof -
    from that obtain bs where bs: "bs \<in> set (drop i ess)" "y \<in> set bs" by auto
    from bs(1) obtain l where "l < length ess - i" "bs = ess ! (i + l)"
      unfolding in_set_conv_nth by auto
    with bs(2) have "l < length ess - i" "y \<in> set (ess ! (i + l))" by simp_all
    then show ?thesis using sst_blocks_order [OF assms(1), of j "i + l"] assms(2,4) by auto
  qed
  have "ess ! i \<in> set (drop i ess)" using assms(3) by (metis Cons_nth_drop_Suc list.set_intros(1))
  moreover have "ess ! i \<noteq> []" using sst_block_sorted [OF assms(1,3)] by simp
  ultimately have h: "hd (ess ! i) \<in> set (concat (drop i ess))" unfolding set_concat using hd_in_set by blast
  then have "ekey (hd (ess ! i)) \<noteq> []" using y [OF h] by (metis not_less_Nil)
  then have "first_nonempty (concat (drop i ess)) \<noteq> []" using h unfolding first_nonempty_Nil by blast
  then show ?thesis using first_nonempty_mem y by metis
qed

lemma search_block_spec:
  assumes "sst_layout hash s ess" "k \<noteq> []" "right \<le> length ess"
    "\<And>j e. j < left \<Longrightarrow> j < length ess \<Longrightarrow> e \<in> set (ess ! j) \<Longrightarrow> ekey e \<noteq> k"
    "\<And>j e. right \<le> j \<Longrightarrow> j < length ess \<Longrightarrow> e \<in> set (ess ! j) \<Longrightarrow> ekey e \<noteq> k"
  shows "\<exists>r. search_block (sst_meta_entries s) k left right = Inr r \<and> - 1 \<le> r \<and> r < int (length ess) \<and>
    (\<forall>j < length ess. \<forall>e \<in> set (ess ! j). ekey e = k \<longrightarrow> r = int j)"
  using assms(3-5)
proof (induction "right - left" arbitrary: left right rule: less_induct)
  case less
  have B: "sst_blocks ess" by (rule sst_layout_facts [OF assms(1)])
  show ?case
  proof (cases "left < right")
    case False
    then have "ekey e \<noteq> k" if "j < length ess" "e \<in> set (ess ! j)" for j e
      using less(3,4) [of j e] that by (cases "j < left") auto
    moreover have "search_block (sst_meta_entries s) k left right = Inr (if length ess \<le> left then - 1 else int left)"
      using False sst_layout_facts(1) [OF assms(1)] by (subst search_block.simps) simp
    ultimately show ?thesis by (auto split: if_splits)
  next
    case True
    define mid where "mid = (left + right) div 2"
    have mid: "mid < right" "left \<le> mid" "mid < length ess" using True less(2) by (auto simp: mid_def)
    note M = sst_layout_meta [OF assms(1) mid(3)]
    have at: "vec_at (sst_meta_entries s) mid = Inr (sst_meta_entries s ! mid)"
      using mid(3) sst_layout_meta(1) [OF assms(1) mid(3)] by simp
    show ?thesis
    proof (cases "k < first_nonempty (concat (drop mid ess))")
      case lt: True
      have "ekey e \<noteq> k" if "mid \<le> j" "j < length ess" "e \<in> set (ess ! j)" for j e
        using meta_first_key_le [OF B that] assms(2) lt by auto
      then have "\<exists>r. search_block (sst_meta_entries s) k left mid = Inr r \<and> - 1 \<le> r \<and> r < int (length ess) \<and>
          (\<forall>j < length ess. \<forall>e \<in> set (ess ! j). ekey e = k \<longrightarrow> r = int j)"
        using mid less(3) by (intro less(1)) auto
      with lt True M show ?thesis by (subst search_block.simps) (simp add: Let_def mid_def [symmetric] at)
    next
      case ge: False
      show ?thesis
      proof (cases "ekey (last (ess ! mid)) < k")
        case gt: True
        have "ekey e \<noteq> k" if "j < mid + 1" "e \<in> set (ess ! j)" for j e
        proof (cases "j = mid")
          case True
          with that(2) have "ekey e \<le> ekey (last (ess ! mid))" by (intro sst_block_last(1) [OF B mid(3)]) simp
          from order.strict_trans1 [OF this gt] show ?thesis by simp
        next
          case False
          with sst_blocks_order [OF B _ mid(3) that(2) sst_block_last(2) [OF B mid(3)]] that gt show ?thesis by auto
        qed
        then have "\<exists>r. search_block (sst_meta_entries s) k (mid + 1) right = Inr r \<and> - 1 \<le> r \<and> r < int (length ess) \<and>
            (\<forall>j < length ess. \<forall>e \<in> set (ess ! j). ekey e = k \<longrightarrow> r = int j)"
          using mid less(2,4) by (intro less(1)) auto
        with ge gt True M show ?thesis by (subst search_block.simps) (simp add: Let_def mid_def [symmetric] at)
      next
        case le: False
        have "j = mid" if "j < length ess" "e \<in> set (ess ! j)" "ekey e = k" for j e
        proof (cases j mid rule: linorder_cases)
          case less
          with meta_first_key_greater [OF B less mid(3) that(2)] that(3) ge show ?thesis by simp
        next
          case greater
          have "last (ess ! mid) \<in> set (ess ! mid)" using sst_block_sorted [OF B mid(3)] by simp
          with sst_blocks_order [OF B greater that(1) _ that(2), of "last (ess ! mid)"] that(3) le show ?thesis by simp
        qed
        moreover have "search_block (sst_meta_entries s) k left right = Inr (int mid)"
          using ge le True M by (subst search_block.simps) (simp add: Let_def mid_def [symmetric] at)
        ultimately show ?thesis using mid(3) by auto
      qed
    qed
  qed
qed

lemma sst_find_block_idx_spec:
  assumes "sst_layout hash s ess" "k \<noteq> []"
  shows "\<exists>r. sst_find_block_idx hash s k = Inr r \<and> - 1 \<le> r \<and> r < int (length ess) \<and>
    (\<forall>j < length ess. \<forall>e \<in> set (ess ! j). ekey e = k \<longrightarrow> r = int j)"
proof (cases "\<exists>bf. sst_bloom_filter s = Some bf \<and> \<not> possibly_contains hash bf k")
  case True
  then obtain bf where bf: "sst_bloom_filter s = Some bf" "\<not> possibly_contains hash bf k" by blast
  have "bloom_knows hash (sst_bloom_filter s) (concat ess)" "ess \<noteq> []" using assms(1) by (simp_all add: sst_layout_def)
  then have "ekey e \<noteq> k" if "j < length ess" "e \<in> set (ess ! j)" for j e
    using that bf unfolding bloom_knows_def by force
  then show ?thesis using bf by (auto simp: sst_find_block_idx_def)
next
  case False
  then have "sst_find_block_idx hash s k = search_block (sst_meta_entries s) k 0 (length (sst_meta_entries s))"
    by (auto simp: sst_find_block_idx_def split: option.splits)
  moreover note sst_layout_facts(1) [OF assms(1)]
  ultimately show ?thesis using search_block_spec [OF assms(1,2), of "length ess" 0] by auto
qed

section \<open>Reading a block\<close>

lemma take_drop_concat:
  assumes "i < length bss"
  shows "take (length (bss ! i)) (drop (length (concat (take i bss))) (concat bss @ rest)) = bss ! i"
    "length (concat (take (Suc i) bss)) = length (concat (take i bss)) + length (bss ! i)"
proof -
  have bss: "bss = take i bss @ bss ! i # drop (Suc i) bss" by (rule id_take_nth_drop [OF assms])
  then have "concat bss = concat (take i bss) @ bss ! i @ concat (drop (Suc i) bss)"
    by (metis concat.simps(2) concat_append)
  then show "take (length (bss ! i)) (drop (length (concat (take i bss))) (concat bss @ rest)) = bss ! i" by simp
  show "length (concat (take (Suc i) bss)) = length (concat (take i bss)) + length (bss ! i)"
    using assms by (simp add: take_Suc_conv_app_nth)
qed

lemma sst_block_bytes_spec:
  assumes "sst_layout hash s ess" "i < length ess"
  shows "\<exists>bs b. sst_block_bytes s i = Inr bs \<and> block_decode bs True = Inr b \<and> block_holds b (ess ! i)"
proof -
  obtain bss rest where L: "sst_file s = concat bss @ rest" "blocks_data bss ess"
    "metas_for [] bss ess (sst_meta_entries s)" "unat (sst_meta_block_offset s) = length (concat bss)"
    "length (sst_file s) < 2 ^ 63"
    using assms(1) by (auto simp: sst_layout_def)
  have len: "length bss = length ess" "length (sst_meta_entries s) = length ess"
    using blocks_data_length [OF L(2)] L(3) by (simp_all add: metas_for_def)
  let ?o = "length (concat (take i bss))" and ?n = "length (bss ! i)"
  have i: "i < length bss" and il: "i < length (sst_meta_entries s)" using assms(2) len by simp_all
  note T = take_drop_concat [OF i]
  have off: "bm_offset (sst_meta_entries s ! i) = ?o" using L(3) assms(2) by (simp add: metas_for_def)
  have fin: "(if Suc i < length (sst_meta_entries s) then of_nat (bm_offset (sst_meta_entries s ! Suc i))
      else ucast (sst_meta_block_offset s)) = (of_nat (?o + ?n) :: u64)"
  proof (cases "Suc i < length ess")
    case True
    then show ?thesis using L(3) len T(2) by (simp add: metas_for_def)
  next
    case False
    then have "take (Suc i) bss = bss" using i len by simp
    then have "unat (sst_meta_block_offset s) = ?o + ?n" using T(2) L(4) by simp
    then have "(ucast (sst_meta_block_offset s) :: u64) = of_nat (?o + ?n)"
      by (metis unsigned_of_nat of_nat_unat)
    then show ?thesis using False len by simp
  qed
  have "?o + ?n \<le> length (concat bss)"
    using T(2) by (metis append_take_drop_id concat_append length_append le_add1)
  then have bound: "?o + ?n \<le> length (sst_file s)" by (simp add: L(1))
  have "sst_block_bytes s i = read_to_slice (sst_file s) (of_nat ?o) (of_nat ?n)"
    unfolding sst_block_bytes_def vec_at_less [OF il] ebind_simps Let_def fin off by simp
  also have "\<dots> = Inr (bss ! i)"
    unfolding read_to_slice_ok [OF L(5) bound] using T(1) [of rest] by (simp add: L(1))
  finally show ?thesis
    using list_all2_nthD [OF L(2) [unfolded blocks_data_def] i] by blast
qed

text \<open>\<open>sst_shows C s ess\<close>: the SST has the layout, a cache, and \<open>C\<close> gives its records for
  its cache keys.\<close>

definition sst_shows :: "(bytes \<Rightarrow> u64) \<Rightarrow> (cache_key \<Rightarrow> entry list) \<Rightarrow> sst \<Rightarrow> entry list list \<Rightarrow> bool" where
  "sst_shows hash C s ess \<longleftrightarrow> sst_layout hash s ess \<and> sst_has_cache s \<and>
     (\<forall>i < length ess. C (sst_cache_key s (int i)) = ess ! i)"

lemma sst_read_block_spec [spec_intro]:
  assumes "sst_shows hash C s ess" "i < length ess"
  shows "spec (store_holds C) (sst_read_block s (int i)) (\<lambda>p. block_holds (snd p) (ess ! i))"
  unfolding spec_def
proof (intro allI impI)
  fix st
  assume st: "store_holds C st"
  have S: "sst_layout hash s ess" "sst_has_cache s" and C: "C (sst_cache_key s (int i)) = ess ! i"
    using assms by (auto simp: sst_shows_def)
  obtain cid bid where key: "sst_cache_key s (int i) = (cid, bid)" by (cases "sst_cache_key s (int i)")
  obtain hit c where get: "block_cache_get (st_cache st) cid bid = (hit, c)"
    by (cases "block_cache_get (st_cache st) cid bid")
  note G = store_get [OF st get]
  have guard: "\<not> (int i < 0 \<or> int (length (sst_meta_entries s)) \<le> int i)"
    using sst_layout_meta(1) [OF S(1) assms(2)] assms(2) by simp
  have read: "sst_read_block s (int i) st = (case hit of
      Some p \<Rightarrow> (Inr p, st\<lparr>st_cache := c\<rparr>)
    | None \<Rightarrow> (case ebind (sst_block_bytes s i) (\<lambda>d. block_decode d True) of
        Inl e \<Rightarrow> (Inl e, st\<lparr>st_cache := c\<rparr>)
      | Inr blk \<Rightarrow>
          (case block_cache_put c cid bid (Some (st_next st, blk)) of
             Inl e \<Rightarrow> (Inl e, st\<lparr>st_cache := c, st_next := Suc (st_next st)\<rparr>)
           | Inr c' \<Rightarrow> (Inr (st_next st, blk), st\<lparr>st_next := Suc (st_next st), st_cache := c'\<rparr>))))"
    using guard S(2) unfolding sst_read_block_def key prod.case Let_def get
    by (simp cong del: option.case_cong_weak sum.case_cong_weak)
  show "\<exists>x st'. sst_read_block s (int i) st = (Inr x, st') \<and> store_holds C st' \<and> block_holds (snd x) (ess ! i)"
  proof (cases hit)
    case (Some p)
    with G(2) [of "fst p" "snd p"] C key have "block_holds (snd p) (ess ! i)" by simp
    with Some G(1) read show ?thesis by simp
  next
    case None
    obtain bs b where b: "sst_block_bytes s i = Inr bs" "block_decode bs True = Inr b" "block_holds b (ess ! i)"
      using sst_block_bytes_spec [OF S(1) assms(2)] by blast
    have "block_holds b (C (cid, bid))" "C (cid, bid) \<noteq> []"
      using b(3) C key sst_block_sorted [OF sst_layout_facts(2) [OF S(1)] assms(2)] by simp_all
    from store_put [OF G(1) this] obtain c' where
      c': "block_cache_put c cid bid (Some (st_next st, b)) = Inr c'"
        "store_holds C (st\<lparr>st_cache := c', st_next := Suc (st_next st)\<rparr>)"
      by auto
    have "st\<lparr>st_next := Suc (st_next st), st_cache := c'\<rparr> = st\<lparr>st_cache := c', st_next := Suc (st_next st)\<rparr>"
      by simp
    with c'(2) have "store_holds C (st\<lparr>st_next := Suc (st_next st), st_cache := c'\<rparr>)" by (simp only:)
    with b(3) show ?thesis unfolding read None option.case b(1) ebind_simps b(2) sum.case c'(1) by auto
  qed
qed

end
