(* ===== verification/SstIter.thy ===== *)
theory SstIter
  imports Sst_Read BlockIterator HeapIter
begin

text \<open>
  The SST iterator of src/src/sst/sst_iterator.cpp and the lookups of the SST that go through
  it. An iterator owns its block iterator (the copies the code makes are not used after their
  original moves), the pointer to the immutable SST is the SST itself, and \<open>cached_value\<close>,
  which only memoises the record under the iterator, is left out.
\<close>

section \<open>The iterator\<close>

record sst_iter =
  sit_sst :: "sst option"
  sit_block_idx :: nat
  sit_max_tranc_id :: u64
  sit_block_it :: "block_iter option"
  sit_keep_all :: bool
  sit_is_aborted :: abort_check

text \<open>The search for the first block from \<open>idx\<close> on with a readable record: the loop of
  \<open>seek_first\<close> and, from the next block on, of \<open>operator++\<close>.\<close>

function seek_from :: "sst \<Rightarrow> u64 \<Rightarrow> bool \<Rightarrow> abort_check \<Rightarrow> nat \<Rightarrow> (nat \<times> block_iter option) cio" where
  "seek_from s t keep ab idx =
     (if idx < sst_num_blocks s then
        cbind (sst_read_block s (int idx)) (\<lambda>p.
        cbind (clift (biter_new (Some p) 0 t keep ab)) (\<lambda>bi.
        cbind (clift (biter_is_end bi)) (\<lambda>at_end.
          if at_end then seek_from s t keep ab (Suc idx) else cret (idx, Some bi))))
      else cret (idx, None))"
  by pat_completeness auto
termination by (relation "measure (\<lambda>(s, t, keep, ab, idx). sst_num_blocks s - idx)") auto

declare seek_from.simps [simp del]

definition sit_seek_first :: "sst_iter \<Rightarrow> sst_iter cio" where
  "sit_seek_first it = (case sit_sst it of
      None \<Rightarrow> cret (it\<lparr>sit_block_it := None, sit_block_idx := 0\<rparr>)
    | Some s \<Rightarrow>
        cbind (seek_from s (sit_max_tranc_id it) (sit_keep_all it) (sit_is_aborted it) 0) (\<lambda>(idx, bi).
          cret (it\<lparr>sit_block_idx := idx, sit_block_it := bi\<rparr>)))"

definition sit_start :: "sst option \<Rightarrow> u64 \<Rightarrow> bool \<Rightarrow> abort_check \<Rightarrow> sst_iter" where
  "sit_start so t keep ab = \<lparr>sit_sst = so, sit_block_idx = 0, sit_max_tranc_id = t,
     sit_block_it = None, sit_keep_all = keep, sit_is_aborted = ab\<rparr>"

definition sit_new :: "sst option \<Rightarrow> u64 \<Rightarrow> bool \<Rightarrow> abort_check \<Rightarrow> sst_iter cio" where
  "sit_new so t keep ab =
     (if so = None then cret (sit_start so t keep ab) else sit_seek_first (sit_start so t keep ab))"

text \<open>An exception leaves through the constructor, so the partly reset iterator is not seen.\<close>

definition sit_seek :: "(bytes \<Rightarrow> u64) \<Rightarrow> sst_iter \<Rightarrow> bytes \<Rightarrow> sst_iter cio" where
  "sit_seek hash it key = (case sit_sst it of
      None \<Rightarrow> cret (it\<lparr>sit_block_it := None\<rparr>)
    | Some s \<Rightarrow>
        cbind (clift (sst_find_block_idx hash s key)) (\<lambda>idx.
        let at_end = it\<lparr>sit_block_idx := sst_num_blocks s, sit_block_it := None\<rparr>
        in if idx = - 1 \<or> int (sst_num_blocks s) \<le> idx then cret at_end
           else
             cbind (sst_read_block s idx) (\<lambda>p.
             cbind (clift (biter_at_key (Some p) key (sit_max_tranc_id it) (sit_keep_all it) (sit_is_aborted it))) (\<lambda>bi.
             cbind (clift (biter_is_end bi)) (\<lambda>missing.
               if missing then cret at_end
               else cret (it\<lparr>sit_block_idx := nat idx, sit_block_it := Some bi\<rparr>))))))"

definition sit_at_key ::
  "(bytes \<Rightarrow> u64) \<Rightarrow> sst option \<Rightarrow> bytes \<Rightarrow> u64 \<Rightarrow> bool \<Rightarrow> abort_check \<Rightarrow> sst_iter cio" where
  "sit_at_key hash so key t keep ab =
     (if so = None then cret (sit_start so t keep ab) else sit_seek hash (sit_start so t keep ab) key)"

definition sit_next :: "sst_iter \<Rightarrow> sst_iter cio" where
  "sit_next it = (case (sit_block_it it, sit_sst it) of
      (Some bi, Some s) \<Rightarrow>
        cbind (clift (biter_next bi)) (\<lambda>bi'.
        cbind (clift (biter_is_end bi')) (\<lambda>at_end.
          if at_end then
            cbind (seek_from s (sit_max_tranc_id it) (sit_keep_all it) (sit_is_aborted it) (Suc (sit_block_idx it)))
              (\<lambda>(idx, bi''). cret (it\<lparr>sit_block_idx := idx, sit_block_it := bi''\<rparr>))
          else cret (it\<lparr>sit_block_it := Some bi'\<rparr>)))
    | (Some bi, None) \<Rightarrow> cthrow Undefined
    | (None, _) \<Rightarrow> cret it)"

definition sit_is_end :: "sst_iter \<Rightarrow> bool" where
  "sit_is_end it \<longleftrightarrow> sit_block_it it = None"

definition sit_is_valid :: "sst_iter \<Rightarrow> bool result" where
  "sit_is_valid it = (case sit_block_it it of
      None \<Rightarrow> Inr False
    | Some bi \<Rightarrow>
        ebind (biter_is_end bi) (\<lambda>at_end.
          if at_end then Inr False
          else case sit_sst it of None \<Rightarrow> Inl Undefined
               | Some s \<Rightarrow> Inr (sit_block_idx it < sst_num_blocks s)))"

definition sit_resolve :: "sst_iter \<Rightarrow> bytes \<Rightarrow> bytes result" where
  "sit_resolve it raw = (case sit_sst it of None \<Rightarrow> Inl Undefined | Some s \<Rightarrow> sst_resolve_value s raw)"

definition sit_key :: "sst_iter \<Rightarrow> bytes result" where
  "sit_key it = (case sit_block_it it of
      None \<Rightarrow> Inl Runtime_Error | Some bi \<Rightarrow> ebind (biter_deref bi) (\<lambda>kv. Inr (fst kv)))"

definition sit_value :: "sst_iter \<Rightarrow> bytes result" where
  "sit_value it = (case sit_block_it it of
      None \<Rightarrow> Inl Runtime_Error | Some bi \<Rightarrow> ebind (biter_deref bi) (\<lambda>kv. sit_resolve it (snd kv)))"

definition sit_deref :: "sst_iter \<Rightarrow> (bytes \<times> bytes) result" where
  "sit_deref it =
     ebind (sit_is_valid it) (\<lambda>valid.
       if \<not> valid then Inl Runtime_Error
       else case sit_block_it it of
          None \<Rightarrow> Inl Undefined
        | Some bi \<Rightarrow> ebind (biter_deref bi) (\<lambda>(k, raw).
            ebind (sit_resolve it raw) (\<lambda>v. Inr (k, v))))"

definition sit_get_cur_tranc_id :: "sst_iter \<Rightarrow> u64 result" where
  "sit_get_cur_tranc_id it = (case sit_block_it it of None \<Rightarrow> Inr 0 | Some bi \<Rightarrow> biter_get_cur_tranc_id bi)"

definition sit_get_tranc_id :: "sst_iter \<Rightarrow> u64 result" where
  "sit_get_tranc_id it =
     (if sit_keep_all it \<and> sit_block_it it \<noteq> None then sit_get_cur_tranc_id it
      else Inr (sit_max_tranc_id it))"

definition sit_eq :: "sst_iter \<Rightarrow> sst_iter \<Rightarrow> bool" where
  "sit_eq x y \<longleftrightarrow> sit_sst x = sit_sst y \<and> sit_block_idx x = sit_block_idx y \<and>
     (case (sit_block_it x, sit_block_it y) of
        (None, None) \<Rightarrow> True
      | (Some bx, Some by) \<Rightarrow> biter_eq bx by
      | _ \<Rightarrow> False)"

section \<open>SST::get, begin, end\<close>

definition sst_end :: "sst \<Rightarrow> sst_iter" where
  "sst_end s = (sit_start None 0 False None)\<lparr>sit_sst := Some s, sit_block_idx := sst_num_blocks s\<rparr>"

definition sst_begin :: "sst \<Rightarrow> u64 \<Rightarrow> bool \<Rightarrow> abort_check \<Rightarrow> sst_iter cio" where
  "sst_begin s t keep ab = sit_new (Some s) t keep ab"

definition sst_get :: "(bytes \<Rightarrow> u64) \<Rightarrow> sst \<Rightarrow> bytes \<Rightarrow> u64 \<Rightarrow> abort_check \<Rightarrow> sst_iter cio" where
  "sst_get hash s key t ab =
     (if key < sst_first_key s \<or> sst_last_key s < key then cret (sst_end s)
      else if (case sst_bloom_filter s of None \<Rightarrow> False | Some bf \<Rightarrow> \<not> possibly_contains hash bf key)
      then cret (sst_end s)
      else sit_at_key hash (Some s) key t False ab)"

section \<open>Merging\<close>

text \<open>The loop that empties one iterator into the heap; every record takes at least one byte of
  the file, so \<open>length (sst_file s)\<close> steps are enough.\<close>

primrec sit_drain :: "nat \<Rightarrow> sst_iter \<Rightarrow> search_item list \<Rightarrow> search_item list cio" where
  "sit_drain 0 it heap = cthrow Diverges"
| "sit_drain (Suc n) it heap =
     cbind (clift (sit_is_valid it)) (\<lambda>valid.
       if \<not> (valid \<and> \<not> sit_is_end it) then cret heap
       else
         cbind (clift (sit_key it)) (\<lambda>k.
         cbind (clift (sit_value it)) (\<lambda>v.
         cbind (clift (sit_get_cur_tranc_id it)) (\<lambda>t.
         cbind (sit_next it) (\<lambda>it'.
           sit_drain n it' (heap_push heap \<lparr>si_key = k, si_value = v, si_tid = t,
             si_idx = (case sit_sst it of None \<Rightarrow> 0 | Some s \<Rightarrow> sst_id s), si_level = 0\<rparr>))))))"

definition sit_fuel :: "sst_iter \<Rightarrow> nat" where
  "sit_fuel it = (case sit_sst it of None \<Rightarrow> 1 | Some s \<Rightarrow> Suc (length (sst_file s)))"

primrec drain_all :: "sst_iter list \<Rightarrow> search_item list \<Rightarrow> search_item list cio" where
  "drain_all [] heap = cret heap"
| "drain_all (it # its) heap = cbind (sit_drain (sit_fuel it) it heap) (\<lambda>heap'. drain_all its heap')"

definition merge_sst_iterator :: "sst_iter list \<Rightarrow> u64 \<Rightarrow> bool \<Rightarrow> (heap_iter \<times> heap_iter) cio" where
  "merge_sst_iterator its t keep =
     (if its = [] then cret (heap_empty True False, heap_empty True False)
      else cbind (drain_all its []) (\<lambda>heap.
        cret ((heap_empty False keep)\<lparr>items := heap\<rparr>, heap_empty True False)))"

section \<open>Ranges\<close>

text \<open>One block of the range query: nothing, or the two ends in this block, if the range has a
  readable record.\<close>

definition sst_range_block ::
  "sst \<Rightarrow> u64 \<Rightarrow> (bytes \<Rightarrow> int) \<Rightarrow> abort_check \<Rightarrow> nat \<Rightarrow> (block_iter \<times> block_iter) option cio" where
  "sst_range_block s t pred ab idx =
     cbind (sst_read_block s (int idx)) (\<lambda>p.
     cbind (clift (block_get_monotony_predicate_iters p t pred ab)) (\<lambda>range.
       cret (case range of
           None \<Rightarrow> None
         | Some (i, j) \<Rightarrow> if biter_eq i j then None else Some (i, j))))"

function sst_range_loop ::
  "sst \<Rightarrow> u64 \<Rightarrow> (bytes \<Rightarrow> int) \<Rightarrow> abort_check \<Rightarrow> nat \<Rightarrow> (sst_iter \<times> sst_iter) option \<Rightarrow>
   (sst_iter \<times> sst_iter) option cio" where
  "sst_range_loop s t pred ab idx acc =
     (if idx < sst_num_blocks s then
        cbind (clift (vec_at (sst_meta_entries s) idx)) (\<lambda>meta.
        if pred (bm_first_key meta) < 0 then cret acc
        else if 0 < pred (bm_last_key meta) then sst_range_loop s t pred ab (Suc idx) acc
        else
          cbind (sst_range_block s t pred ab idx) (\<lambda>range. case range of
              None \<Rightarrow> sst_range_loop s t pred ab (Suc idx) acc
            | Some (i, j) \<Rightarrow>
                let at = (\<lambda>bi. \<lparr>sit_sst = Some s, sit_block_idx = idx, sit_max_tranc_id = t,
                       sit_block_it = Some bi, sit_keep_all = False, sit_is_aborted = ab\<rparr>);
                    start = (case acc of None \<Rightarrow> at i | Some (b, _) \<Rightarrow> b)
                in sst_range_loop s t pred ab (Suc idx) (Some (start, at j))))
      else cret acc)"
  by pat_completeness auto
termination by (relation "measure (\<lambda>(s, t, pred, ab, idx, acc). sst_num_blocks s - idx)") auto

declare sst_range_loop.simps [simp del]

definition sst_iters_monotony_predicate ::
  "sst option \<Rightarrow> u64 \<Rightarrow> (bytes \<Rightarrow> int) \<Rightarrow> abort_check \<Rightarrow> (sst_iter \<times> sst_iter) option cio" where
  "sst_iters_monotony_predicate so t pred ab = (case so of
      None \<Rightarrow> cret None
    | Some s \<Rightarrow>
        cbind (sst_range_loop s t pred ab 0 None) (\<lambda>range. case range of
            None \<Rightarrow> cret None
          | Some (b, e) \<Rightarrow>
              cbind (clift (case sit_block_it e of None \<Rightarrow> Inl Undefined | Some bi \<Rightarrow> biter_is_end bi)) (\<lambda>at_end.
                if at_end then cbind (sit_next e) (\<lambda>e'. cret (Some (b, e'))) else cret (Some (b, e)))))"

end
