(* ===== verification/Sst_File.thy ===== *)
theory Sst_File
  imports Sst_Read
begin

text \<open>
  The SST as a file: opening a built file gives the built SST back, a builder accepts every
  sorted sequence of records whose version groups fit the 16-bit entry offsets, and refuses
  a group that does not fit.
\<close>

section \<open>Opening what was built\<close>

lemma blocks_data_fits:
  assumes "blocks_data bss ess" "e \<in> set (concat ess)"
  shows "entry_fits e"
proof -
  obtain es where es: "es \<in> set ess" "e \<in> set es" using assms(2) by auto
  then obtain i where i: "i < length ess" "es = ess ! i" by (metis in_set_conv_nth)
  have "i < length bss" using i(1) blocks_data_length [OF assms(1)] by simp
  then obtain b where "block_holds b es"
    using list_all2_nthD [OF assms(1) [unfolded blocks_data_def]] i(2) by blast
  with es(2) show ?thesis by (simp add: block_holds_def)
qed

lemma metas_for_fit:
  assumes "metas_for [] bss ess metas" "blocks_data bss ess" "\<forall>es \<in> set ess. es \<noteq> []"
    "length (concat bss) < 2 ^ 32" "m \<in> set metas"
  shows "meta_fits m"
proof -
  obtain i where i: "i < length ess" "m = metas ! i"
    using assms(1,5) unfolding metas_for_def by (metis in_set_conv_nth)
  have m: "m = \<lparr>bm_offset = length (concat (take i bss)),
      bm_first_key = first_nonempty (concat (drop i ess)), bm_last_key = ekey (last (ess ! i))\<rparr>"
    using assms(1) i by (simp add: metas_for_def)
  have "concat bss = concat (take i bss) @ concat (drop i bss)" by (metis append_take_drop_id concat_append)
  then have off: "length (concat (take i bss)) < 2 ^ 32" using assms(4) by simp
  have key: "length (ekey e) < 2 ^ 16" if "e \<in> set (concat ess)" for e
    using blocks_data_fits [OF assms(2) that] by (simp add: entry_fits_def)
  have "set (concat (drop i ess)) \<subseteq> set (concat ess)" by (auto dest: in_set_dropD)
  then have "length (first_nonempty (concat (drop i ess))) < 2 ^ 16"
  proof (cases "first_nonempty (concat (drop i ess)) = []")
    case False
    then obtain e where e: "e \<in> set (concat (drop i ess))" "first_nonempty (concat (drop i ess)) = ekey e"
      using first_nonempty_mem by blast
    from subsetD [OF \<open>set (concat (drop i ess)) \<subseteq> set (concat ess)\<close> e(1)] show ?thesis
      unfolding e(2) by (rule key)
  qed simp
  moreover have "last (ess ! i) \<in> set (concat ess)"
    unfolding set_concat using i(1) assms(3) by (metis UN_I last_in_set nth_mem)
  ultimately show ?thesis using off key by (simp add: meta_fits_def m)
qed

lemma ucast_of_nat_u32: "n < 2 ^ 32 \<Longrightarrow> (ucast (of_nat n :: u32) :: u64) = of_nat n"
  using of_nat_unat [of "of_nat n :: u32", where 'a = "u64"] by (simp add: unat_of_nat_small)

text \<open>The five reads of the footer.\<close>

lemma footer_reads:
  assumes "f = pre @ sst_footer mo bo mn mx mode" "length f < 2 ^ 32"
  defines "base \<equiv> length pre"
  shows "read_uint32 f (of_nat base) = Inr mo" "read_uint32 f (of_nat base + 4) = Inr bo"
    "read_uint64 f (of_nat base + 8) = Inr mn" "read_uint64 f (of_nat base + 16) = Inr mx"
proof -
  have len: "length f < 2 ^ 63" using assms(2) by simp
  have n: "base + 24 \<le> length f" by (simp add: assms(1) base_def sst_footer_def)
  have d: "drop base f = sst_footer mo bo mn mx mode" by (simp add: assms(1) base_def)
  have dn: "drop (base + i) f = drop i (sst_footer mo bo mn mx mode)" for i
    unfolding d [symmetric] by (simp add: add.commute)
  have c: "(of_nat base + 4 :: u64) = of_nat (base + 4)" "(of_nat base + 8 :: u64) = of_nat (base + 8)"
    "(of_nat base + 16 :: u64) = of_nat (base + 16)" by simp_all
  show "read_uint32 f (of_nat base) = Inr mo"
    using read_uint_ok(2) [OF len, of base] n d by (simp add: sst_footer_def le_read_write)
  show "read_uint32 f (of_nat base + 4) = Inr bo"
    unfolding c using read_uint_ok(2) [OF len, of "base + 4"] n unfolding dn by (simp add: sst_footer_def le_read_write)
  show "read_uint64 f (of_nat base + 8) = Inr mn"
    unfolding c using read_uint_ok(3) [OF len, of "base + 8"] n unfolding dn by (simp add: sst_footer_def le_read_write)
  show "read_uint64 f (of_nat base + 16) = Inr mx"
    unfolding c using read_uint_ok(3) [OF len, of "base + 16"] n unfolding dn by (simp add: sst_footer_def le_read_write)
qed

text \<open>The format probe: a 24-byte footer is misread only when the top byte of the greatest id is
  the magic number.\<close>

lemma probe_footer:
  assumes "f = pre @ sst_footer mo bo mn mx mode" "length f < 2 ^ 32"
    and mode: "mode = 1 \<or> mode = 0 \<and> drop_bit 56 mx \<noteq> 0x4B" and off: "unat mo < length pre" and "2 \<le> length pre"
  shows "sst_probe_footer f = Inr (length f - length pre, mode)"
proof -
  have len: "length f < 2 ^ 63" using assms(2) by simp
  have n: "\<not> length f < 26" using assms(5) by (simp add: assms(1) sst_footer_def)
  have last: "read_uint8 f (of_nat (length f - 1)) = Inr (last f)"
    using read_uint_ok(1) [OF len, of "length f - 1"] n by (cases "f = []") (auto simp: last_conv_nth)
  show ?thesis
  proof (cases "mode = 1")
    case True
    have f: "f = (pre @ le_write 4 mo @ le_write 4 bo @ le_write 8 mn @ le_write 8 mx) @ [1, 0x4B]"
      by (simp add: assms(1) sst_footer_def True)
    have l: "length f = length pre + 26" by (simp add: f)
    have "read_uint8 f (of_nat (length f - 2)) = Inr 1"
      using read_uint_ok(1) [OF len, of "length f - 2"] by (simp add: l) (simp add: f nth_append)
    moreover have "last f = 0x4B" by (simp add: f)
    moreover have "read_uint32 f (of_nat (length f - 26)) = Inr mo"
      using footer_reads(1) [OF assms(1,2)] by (simp add: l)
    ultimately show ?thesis using n last off by (simp add: sst_probe_footer_def l True)
  next
    case False
    then have m: "mode = 0" "drop_bit 56 mx \<noteq> 0x4B" using mode by auto
    have "last (le_write 8 mx) = ucast (drop_bit 56 mx)"
      using nth_le_write [of 7 8 mx] last_conv_nth [of "le_write 8 mx"] by (simp add: length_greater_0_conv [symmetric] del: length_greater_0_conv)
    moreover have "last f = last (le_write 8 mx)"
    proof -
      have "le_write 8 mx \<noteq> []" by (simp add: length_greater_0_conv [symmetric] del: length_greater_0_conv)
      then show ?thesis by (simp add: assms(1) sst_footer_def m(1))
    qed
    moreover have "(ucast (drop_bit 56 mx) :: byte) \<noteq> 0x4B"
    proof
      assume eq: "(ucast (drop_bit 56 mx) :: byte) = 0x4B"
      have "drop_bit 56 mx = ucast (ucast (drop_bit 56 mx) :: byte)"
      proof (rule bit_eqI)
        fix i
        show "bit (drop_bit 56 mx) i \<longleftrightarrow> bit (ucast (ucast (drop_bit 56 mx) :: byte) :: u64) i"
          using bit_imp_le_length [of mx "56 + i"] by (auto simp: bit_ucast_iff bit_drop_bit_eq)
      qed
      with eq m(2) show False by simp
    qed
    moreover have "length f - length pre = 24" by (simp add: assms(1) sst_footer_def m(1))
    ultimately show ?thesis using n last by (simp add: sst_probe_footer_def m(1))
  qed
qed

lemma sst_open_file:
  assumes f: "f = data @ meta @ bbytes @ sst_footer mo bo mn mx mode" "length f < 2 ^ 32"
    and off: "mo = of_nat (length data)" "bo = of_nat (length (data @ meta))"
    and mode: "mode = 1 \<or> mode = 0 \<and> drop_bit 56 mx \<noteq> 0x4B"
    and meta: "decode_meta_from_slice hash meta = Inr metas" "metas \<noteq> []" "8 \<le> length meta"
    and bloom: "case bfo of None \<Rightarrow> bbytes = [] | Some bf \<Rightarrow> bbytes \<noteq> [] \<and> bloom_decode bbytes = Inr bf"
  shows "sst_open hash sid f hc hv = Inr \<lparr>sst_id = sid, sst_file = f, sst_meta_entries = metas,
      sst_bloom_offset = bo, sst_meta_block_offset = mo, sst_first_key = bm_first_key (hd metas),
      sst_last_key = bm_last_key (last metas), sst_bloom_filter = bfo, sst_has_cache = hc,
      sst_min_tranc_id = mn, sst_max_tranc_id = mx, sst_storage_mode = mode, sst_has_vlog = hv\<rparr>"
proof -
  let ?pre = "data @ meta @ bbytes"
  have f': "f = ?pre @ sst_footer mo bo mn mx mode" by (simp add: f(1))
  have len: "length f < 2 ^ 63" using f(2) by simp
  have sz: "length ?pre < 2 ^ 32" using f(2) by (simp add: f(1))
  have u: "unat mo = length data" "unat bo = length data + length meta"
    using sz by (simp_all add: off unat_of_nat_small del: of_nat_add)
  have c: "(ucast mo :: u64) = of_nat (length data)" "(ucast bo :: u64) = of_nat (length data + length meta)"
    "bo - mo = of_nat (length meta)"
    using sz by (simp_all add: off ucast_of_nat_u32 del: of_nat_add) simp
  have cm: "(ucast (bo - mo) :: u64) = of_nat (length meta)"
    unfolding c(3) using sz by (intro ucast_of_nat_u32) simp
  have probe: "sst_probe_footer f = Inr (length f - length ?pre, mode)"
    using meta(3) by (intro probe_footer [OF f' f(2) mode]) (auto simp: u)
  have base: "length f - (length f - length ?pre) = length ?pre" by (simp add: f(1))
  note R = footer_reads [OF f' f(2)]
  have rm: "read_to_slice f (ucast mo) (ucast (bo - mo)) = Inr meta"
    unfolding c(1) cm using read_to_slice_ok [OF len, of "length data" "length meta"] by (simp add: f(1))
  have rb: "(if unat bo < length ?pre
      then ebind (read_to_slice f (ucast bo) (of_nat (length ?pre) - ucast bo)) (\<lambda>bs.
        ebind (bloom_decode bs) (\<lambda>bf. Inr (Some bf)))
      else Inr None) = Inr bfo"
  proof (cases bfo)
    case None
    then show ?thesis using bloom u(2) by simp
  next
    case (Some bf)
    have "(of_nat (length ?pre) :: u64) - ucast bo = of_nat (length bbytes)" unfolding c(2) by simp
    then have "read_to_slice f (ucast bo) (of_nat (length ?pre) - ucast bo) = Inr bbytes"
      unfolding c(2) using read_to_slice_ok [OF len, of "length data + length meta" "length bbytes"] by (simp add: f(1))
    with Some bloom u(2) show ?thesis by simp
  qed
  have "\<not> length f < 24" using f(1) by (simp add: sst_footer_def)
  then show ?thesis
    unfolding sst_open_def Let_def by (simp only: if_False probe ebind_simps prod.case base R rm meta(1) rb)
      (simp add: meta(2))
qed

lemma bloom_encode_decode:
  assumes "bloom_ok bf"
  shows "\<exists>bs. bloom_encode bf = Inr bs \<and> bloom_decode bs = Inr bf \<and> bs \<noteq> []"
proof -
  obtain bs where bs: "bloom_encode bf = Inr bs" "bloom_decode bs = Inr bf" using bloom_roundtrip [OF assms] by blast
  moreover have "bs \<noteq> []" using bs(2) by (auto simp: bloom_decode_def)
  ultimately show ?thesis by blast
qed

text \<open>\<open>build\<close> succeeds, and what it builds can be opened again.\<close>

lemma builder_build_open:
  assumes inv: "builder_inv hash b ess cur" "cur \<noteq> []"
  shows "\<exists>s. builder_build hash (\<lambda>_. True) sid hc b = Inr s \<and> sst_id s = sid \<and> sst_has_cache s = hc \<and>
    sst_storage_mode s = sb_storage_mode b \<and> sst_has_vlog s = sb_has_vlog b \<and>
    sst_min_tranc_id s = sb_min_tranc_id b \<and> sst_max_tranc_id s = sb_max_tranc_id b \<and>
    (length (sst_file s) < 2 ^ 32 \<longrightarrow> sst_layout hash s (ess @ [cur]) \<and>
      (sst_storage_mode s = 1 \<or> sst_storage_mode s = 0 \<and> drop_bit 56 (sst_max_tranc_id s) \<noteq> 0x4B \<longrightarrow>
        (\<forall>hv. sst_open hash sid (sst_file s) hc hv = Inr (s\<lparr>sst_has_vlog := hv\<rparr>))))"
proof -
  obtain b1 bss where b1: "builder_finish_block b = Inr b1" "block_is_empty (sb_block b) = False"
    "sb_data b1 = concat bss" "blocks_data bss (ess @ [cur])" "metas_for [] bss (ess @ [cur]) (sb_meta_entries b1)"
    "sb_bloom_filter b1 = sb_bloom_filter b" "sb_min_tranc_id b1 = sb_min_tranc_id b"
    "sb_max_tranc_id b1 = sb_max_tranc_id b" "sb_storage_mode b1 = sb_storage_mode b" "sb_has_vlog b1 = sb_has_vlog b"
    using builder_close_inv [OF inv] by metis
  have ne: "sb_meta_entries b1 \<noteq> []" by (rule metas_for_ends(1) [OF b1(5)]) simp
  have B: "bloom_knows hash (sb_bloom_filter b) (concat ess @ cur)" "sst_blocks (ess @ [cur])"
    using inv by (simp_all add: builder_inv_def)
  obtain bbytes where bb: "(case sb_bloom_filter b of None \<Rightarrow> Inr [] | Some bf \<Rightarrow> bloom_encode bf) = Inr bbytes"
    "case sb_bloom_filter b of None \<Rightarrow> bbytes = [] | Some bf \<Rightarrow> bbytes \<noteq> [] \<and> bloom_decode bbytes = Inr bf"
  proof (cases "sb_bloom_filter b")
    case None
    then show thesis by (intro that [of "[]"]) simp_all
  next
    case (Some bf)
    then have "bloom_ok bf" using B(1) by (simp add: bloom_knows_def)
    from bloom_encode_decode [OF this] Some show thesis by (elim exE conjE) (rule that, simp_all)
  qed
  let ?data = "concat bss" and ?metas = "sb_meta_entries b1"
  let ?meta = "encode_meta_to_slice hash ?metas []"
  let ?mo = "of_nat (length ?data) :: u32" and ?bo = "of_nat (length (?data @ ?meta)) :: u32"
  let ?f = "?data @ ?meta @ bbytes @ sst_footer ?mo ?bo (sb_min_tranc_id b) (sb_max_tranc_id b) (sb_storage_mode b)"
  define s where "s = \<lparr>sst_id = sid, sst_file = ?f, sst_meta_entries = ?metas,
      sst_bloom_offset = ?bo, sst_meta_block_offset = ?mo, sst_first_key = bm_first_key (hd ?metas),
      sst_last_key = bm_last_key (last ?metas), sst_bloom_filter = sb_bloom_filter b, sst_has_cache = hc,
      sst_min_tranc_id = sb_min_tranc_id b, sst_max_tranc_id = sb_max_tranc_id b,
      sst_storage_mode = sb_storage_mode b, sst_has_vlog = sb_has_vlog b\<rparr>"
  have built: "builder_build hash (\<lambda>_. True) sid hc b = Inr s"
    unfolding builder_build_def b1(2) if_False b1(1) ebind_simps if_not_P [OF ne] Let_def b1(6-10) bb(1) b1(3)
    by (simp add: create_and_write_def s_def)
  have "sst_layout hash s (ess @ [cur])" if small: "length (sst_file s) < 2 ^ 32"
    by (rule builder_build_layout [OF inv built small])
  moreover have "sst_open hash sid (sst_file s) hc hv = Inr (s\<lparr>sst_has_vlog := hv\<rparr>)"
    if small: "length (sst_file s) < 2 ^ 32"
      and mode: "sst_storage_mode s = 1 \<or> sst_storage_mode s = 0 \<and> drop_bit 56 (sst_max_tranc_id s) \<noteq> 0x4B" for hv
  proof -
    have sz: "length ?data < 2 ^ 32" "length ?f < 2 ^ 32" using small by (simp_all add: s_def)
    have fit: "\<forall>m \<in> set ?metas. meta_fits m"
      using metas_for_fit [OF b1(5,4) _ sz(1)] B(2) by (simp add: sst_blocks_def)
    note E = encode_meta_written [OF fit, of hash "[]"]
    have "meta_total ?metas = length ?meta"
      using meta_written_total [OF fit] by (simp add: E)
    moreover have "8 * length ?metas \<le> meta_total ?metas"
    proof -
      have "8 * length ms \<le> sum_list (map (\<lambda>m. 8 + length (bm_first_key m) + length (bm_last_key m)) ms)" for ms
        by (induction ms) auto
      from this [of ?metas] show ?thesis by (simp add: meta_total_def)
    qed
    ultimately have "8 * length ?metas \<le> length ?meta" "8 \<le> length ?meta"
      by (simp_all add: E)
    then have "length ?metas < 2 ^ 32" "8 \<le> length ?meta" using sz(2) by simp_all
    with decode_meta_written [OF fit this(1), of hash "[]"] show ?thesis
      using sst_open_file [OF refl sz(2) refl refl _ _ ne _ bb(2), of hash sid hc hv] mode
      by (simp add: s_def)
  qed
  ultimately show ?thesis using built by (intro exI [of _ s]) (simp add: s_def)
qed

section \<open>What a builder accepts\<close>

lemma block_add_entry_ok:
  assumes "block_holds b es" "entry_fits (k, v, t)" "entries_bytes es \<le> 65535"
  shows "\<exists>ok blk. block_add_entry b k v t force_write = Inr (ok, blk)"
proof -
  have "length es < 65535" using entries_bytes_count [of es] assms(3) by linarith
  moreover have "length (bdata b) = entries_bytes es" using assms(1) by (simp add: block_holds_def entries_bytes_def)
  ultimately show ?thesis
    using block_add_entry_cases [OF assms(1), of k v t force_write] assms(2,3)
    by (cases "block_add_entry b k v t force_write") (auto simp: entry_fits_def)
qed

lemma builder_add_accepts:
  assumes inv: "builder_inv hash b ess cur" and fits: "entry_fits (stored_entry b e)"
    and group: "cur \<noteq> [] \<Longrightarrow> sb_block_size b + key_bytes cur (ekey (last cur)) \<le> 65535"
  shows "\<exists>b'. builder_add hash b e = Inr b'"
proof -
  let ?n = "builder_note hash b (ekey e) (etid e)"
  have I: "block_holds (sb_block b) cur" "block_room (sb_block_size b) cur"
    using inv by (simp_all add: builder_inv_def)
  have small: "entries_bytes cur \<le> 65535"
    using I(2) group by (cases "cur = []") (auto simp: block_room_def)
  have fits': "entry_fits (ekey e, builder_stored b (ekey e) (evalue e), etid e)"
    using fits by (simp add: stored_entry_def)
  obtain ok blk where A: "block_add_entry (sb_block b) (ekey e) (builder_stored b (ekey e) (evalue e)) (etid e)
      (ekey e = sb_last_key b) = Inr (ok, blk)"
    using block_add_entry_ok [OF I(1) fits' small] by blast
  show ?thesis
  proof (cases ok)
    case True
    then show ?thesis unfolding builder_add_def Let_def builder_note_fields A by simp
  next
    case False
    have "block_holds (sb_block ?n) cur" using I(1) by simp
    then obtain b2 where b2: "builder_finish_block ?n = Inr b2" "sb_block b2 = block_new (sb_block_size ?n)"
      using builder_finish_inv [of ?n cur] by (metis (no_types, lifting) sst_builder.select_convs(1) sst_builder.surjective sst_builder.update_convs(1))
    obtain ok2 blk2 where "block_add_entry (sb_block b2) (ekey e) (builder_stored b (ekey e) (evalue e)) (etid e) False
        = Inr (ok2, blk2)"
      using block_add_entry_ok [OF block_new_holds fits', of "sb_block_size ?n" False] unfolding b2(2) by auto
    then show ?thesis using False unfolding builder_add_def Let_def builder_note_fields A by (simp add: b2(1))
  qed
qed

lemma builder_add_all_accepts:
  assumes "builder_inv hash b ess cur" "sorted_entries (concat ess @ cur @ map (stored_entry b) es)"
    "\<And>e. e \<in> set es \<Longrightarrow> entry_fits (stored_entry b e)"
    "\<And>k. sb_block_size b + key_bytes (cur @ map (stored_entry b) es) k \<le> 65535"
  shows "\<exists>b'. add_all (builder_add hash) b es = Inr b'"
  using assms
proof (induction es arbitrary: b ess cur)
  case (Cons e es)
  have "sb_block_size b + key_bytes cur (ekey (last cur)) \<le> 65535"
    using Cons.prems(4) [of "ekey (last cur)"] by simp
  then obtain b1 where b1: "builder_add hash b e = Inr b1"
    using builder_add_accepts [OF Cons.prems(1)] Cons.prems(3) by (meson list.set_intros(1))
  obtain ess1 cur1 where s: "builder_inv hash b1 ess1 cur1"
    "cur1 = cur @ [stored_entry b e] \<or> cur1 = [stored_entry b e]"
    "concat ess1 @ cur1 @ map (stored_entry b1) es = concat ess @ cur @ map (stored_entry b) (e # es)"
    "sorted_entries (concat ess1 @ cur1 @ map (stored_entry b1) es)"
    "stored_entry b1 = stored_entry b" "sb_block_size b1 = sb_block_size b"
    by (rule builder_add_step [OF Cons.prems(1,2) b1])
  have K: "sb_block_size b1 + key_bytes (cur1 @ map (stored_entry b1) es) k \<le> 65535" for k
    using Cons.prems(4) [of k] s(2) key_bytes_Cons [of "stored_entry b e" "map (stored_entry b) es" k]
    unfolding s(5,6) by auto
  have F: "entry_fits (stored_entry b1 x)" if "x \<in> set es" for x
    using Cons.prems(3) that by (simp add: s(5))
  from Cons.IH [OF s(1,4) F K] show ?case by (simp add: b1)
qed simp

lemma top_byte_below: "(w :: u64) < 0x4B00000000000000 \<Longrightarrow> drop_bit 56 w \<noteq> 0x4B"
proof
  assume less: "w < 0x4B00000000000000" and eq: "drop_bit 56 w = 0x4B"
  have "unat (drop_bit 56 w) = unat w div 2 ^ 56" 
    unfolding unat_drop_bit_eq by (rule drop_bit_eq_div)
  then have "unat w div 2 ^ 56 = 0x4B" using eq by simp
  then have "0x4B * 2 ^ 56 \<le> unat w" by (simp add: div_nat_eqI)
  moreover have "unat w < 0x4B00000000000000" using less by (simp add: word_less_nat_alt)
  ultimately show False by simp
qed

text \<open>C12: the builder loses nothing and the file can be reopened. A fresh builder accepts every
  non-empty sorted sequence of records whose stored keys and values have at most 65535 bytes, as
  long as a full block and all versions of any one key fit 65535 bytes; \<open>build\<close> then succeeds,
  and below 4 GB the SST consists of exactly these records, cut into blocks between keys, and
  opening its file gives the same SST. An inline SST whose greatest id has the magic number as its
  top byte is excluded: its footer can be taken for a WiscKey footer.\<close>

theorem sst_build_open:
  assumes "builder_fresh b" "sorted_entries es" "es \<noteq> []"
    "\<forall>e \<in> set es. entry_fits (stored_entry b e)"
    "\<forall>k. sb_block_size b + key_bytes (map (stored_entry b) es) k \<le> 65535"
    "sb_storage_mode b = 1 \<or> sb_storage_mode b = 0 \<and> (\<forall>e \<in> set es. etid e < 0x4B00000000000000)"
    "sb_max_tranc_id b = 0"
  shows "\<exists>b' s. add_all (builder_add hash) b es = Inr b' \<and> builder_build hash (\<lambda>_. True) sid hc b' = Inr s \<and>
    (length (sst_file s) < 2 ^ 32 \<longrightarrow>
      (\<exists>ess. concat ess = map (stored_entry b) es \<and> sst_layout hash s ess) \<and>
      (\<forall>hv. sst_open hash sid (sst_file s) hc hv = Inr (s\<lparr>sst_has_vlog := hv\<rparr>)))"
proof -
  have S: "sorted_entries (map (stored_entry b) es)"
    using assms(2) unfolding sorted_wrt_map
    by (rule sorted_wrt_mono_rel [rotated]) (simp add: entry_less_def stored_entry_def)
  obtain b' where b': "add_all (builder_add hash) b es = Inr b'"
    using builder_add_all_accepts [OF builder_fresh_inv [OF assms(1)], of es hash] S assms(4,5) by auto
  obtain ess cur where inv: "builder_inv hash b' ess cur" "concat ess @ cur = map (stored_entry b) es"
    using builder_add_all_inv [OF builder_fresh_inv [OF assms(1)] _ b'] S by auto
  have ne: "cur \<noteq> []"
  proof
    assume "cur = []"
    then have "ess = []" using inv(1) by (simp add: builder_inv_def)
    with \<open>cur = []\<close> inv(2) assms(3) show False by simp
  qed
  obtain s where s: "builder_build hash (\<lambda>_. True) sid hc b' = Inr s" "sst_storage_mode s = sb_storage_mode b'"
    "sst_max_tranc_id s = sb_max_tranc_id b'"
    "length (sst_file s) < 2 ^ 32 \<longrightarrow> sst_layout hash s (ess @ [cur]) \<and>
      (sst_storage_mode s = 1 \<or> sst_storage_mode s = 0 \<and> drop_bit 56 (sst_max_tranc_id s) \<noteq> 0x4B \<longrightarrow>
        (\<forall>hv. sst_open hash sid (sst_file s) hc hv = Inr (s\<lparr>sst_has_vlog := hv\<rparr>)))"
    using builder_build_open [OF inv(1) ne, of sid hc] by blast
  have mode: "sst_storage_mode s = 1 \<or> sst_storage_mode s = 0 \<and> drop_bit 56 (sst_max_tranc_id s) \<noteq> 0x4B"
  proof (cases "sb_storage_mode b = 1")
    case True
    then show ?thesis using s(2) builder_add_all_ids(3) [OF b'] by simp
  next
    case False
    then have m: "sb_storage_mode b = 0" "\<forall>t \<in> set (map etid es). t < 0x4B00000000000000" using assms(6) by auto
    have "fold max ts a < c" if "\<forall>t \<in> set ts. t < c" "a < c" for ts :: "u64 list" and a c
      using that by (induction ts arbitrary: a) auto
    from this [OF m(2), of 0] have "sst_max_tranc_id s < 0x4B00000000000000"
      using s(3) builder_add_all_ids(1) [OF b'] assms(7) by simp
    then have "drop_bit 56 (sst_max_tranc_id s) \<noteq> 0x4B" by (rule top_byte_below)
    with m(1) show ?thesis using s(2) builder_add_all_ids(3) [OF b'] by simp
  qed
  have "\<exists>ess'. concat ess' = map (stored_entry b) es \<and> sst_layout hash s ess'" if "length (sst_file s) < 2 ^ 32"
    using s(4) that inv(2) by (intro exI [of _ "ess @ [cur]"]) simp
  with b' s(1,4) mode show ?thesis by blast
qed

lemma builder_new_fresh:
  assumes "builder_new bsize has_bloom (e, r, Some (nb, nh)) = Inr b" "nb \<noteq> 0" "nh \<noteq> 0"
  shows "builder_fresh b" "sb_block_size b = bsize" "sb_storage_mode b = 0" "sb_max_tranc_id b = 0"
    "stored_entry b = id"
  using assms
  by (auto simp: builder_new_def builder_bloom_def ebind_Inr_conv builder_fresh_def bloom_new_ok
      stored_entry_def builder_stored_def fun_eq_iff split: if_splits)

lemma key_bytes_le: "key_bytes es k \<le> entries_bytes es"
  unfolding key_bytes_def by (induction es) simp_all

theorem sst_build_open_witness:
  "\<exists>b b' s. builder_new 4096 True (10, 0x3FB999999999999A, Some (48, 4)) = Inr b \<and>
    add_all (builder_add (\<lambda>bs. of_nat (length bs))) b [([1], [2], 5), ([1], [], 4), ([2], [3], 6)] = Inr b' \<and>
    builder_build (\<lambda>bs. of_nat (length bs)) (\<lambda>_. True) 7 True b' = Inr s"
proof -
  let ?es = "[([1], [2], 5), ([1], [], 4), ([2], [3], 6)] :: entry list"
  obtain b where b: "builder_new 4096 True (10, 0x3FB999999999999A, Some (48, 4)) = Inr b"
    by (simp add: builder_new_def builder_bloom_def bloom_new_def rate_valid_def)
  note F = builder_new_fresh [OF b, simplified]
  have "key_bytes (map (stored_entry b) ?es) k \<le> 41" for k
    using key_bytes_le [of ?es k] by (simp add: F enc_entry_def)
  then have "\<forall>k. sb_block_size b + key_bytes (map (stored_entry b) ?es) k \<le> 65535"
    unfolding F(2) by (intro allI) (rule order.trans [OF add_left_mono], assumption, simp)
  moreover have "sorted_entries ?es" by (simp add: entry_less_def version_less_def)
  moreover have "\<forall>e \<in> set ?es. entry_fits (stored_entry b e)" by (simp add: F entry_fits_def)
  moreover have "\<forall>e \<in> set ?es. etid e < 0x4B00000000000000" by simp
  ultimately show ?thesis
    using sst_build_open [OF F(1), of ?es "\<lambda>bs. of_nat (length bs)" 7 True] F(3,4) b by blast
qed

section \<open>What a builder refuses\<close>

lemma builder_add_error:
  assumes "builder_inv hash b ess cur" "builder_add hash b e = Inl err"
  shows "err = Length_Error"
proof -
  let ?n = "builder_note hash b (ekey e) (etid e)"
  have I: "block_holds (sb_block b) cur" using assms(1) by (simp add: builder_inv_def)
  note C = block_add_entry_cases [OF I, of "ekey e" "builder_stored b (ekey e) (evalue e)" "etid e" "ekey e = sb_last_key b"]
  show ?thesis
  proof (cases "block_add_entry (sb_block b) (ekey e) (builder_stored b (ekey e) (evalue e)) (etid e) (ekey e = sb_last_key b)")
    case (Inl x)
    then have "err = x" using assms(2) unfolding builder_add_def Let_def builder_note_fields Inl by simp
    then show ?thesis using C unfolding Inl by simp
  next
    case (Inr r)
    obtain ok blk where r: "r = (ok, blk)" by (cases r)
    have nok: "\<not> ok" using assms(2) unfolding builder_add_def Let_def builder_note_fields Inr r by (cases ok) simp_all
    have "block_holds (sb_block ?n) cur" using I by simp
    then obtain b2 where b2: "builder_finish_block ?n = Inr b2" "sb_block b2 = block_new (sb_block_size ?n)"
      by (rule builder_finish_inv) simp
    have "block_holds (sb_block b2) []" unfolding b2(2) by (rule block_new_holds)
    note C2 = block_add_entry_cases [OF this, of "ekey e" "builder_stored b (ekey e) (evalue e)" "etid e" False]
    show ?thesis
    proof (cases "block_add_entry (sb_block b2) (ekey e) (builder_stored b (ekey e) (evalue e)) (etid e) False")
      case Inl2: (Inl x)
      then have "err = x"
        using assms(2) nok unfolding builder_add_def Let_def builder_note_fields Inr r by (simp add: b2(1))
      then show ?thesis using C2 unfolding Inl2 by simp
    next
      case (Inr r2)
      then show ?thesis
        using assms(2) nok \<open>_ = Inr r\<close> unfolding builder_add_def Let_def builder_note_fields r
        by (simp add: b2(1) split: prod.splits)
    qed
  qed
qed

lemma builder_add_all_error:
  assumes "builder_inv hash b ess cur" "sorted_entries (concat ess @ cur @ map (stored_entry b) es)"
    "add_all (builder_add hash) b es = Inl err"
  shows "err = Length_Error"
  using assms
proof (induction es arbitrary: b ess cur)
  case (Cons e es)
  show ?case
  proof (cases "builder_add hash b e")
    case (Inl x)
    with Cons.prems(3) builder_add_error [OF Cons.prems(1) Inl] show ?thesis by simp
  next
    case (Inr b1)
    have rest: "add_all (builder_add hash) b1 es = Inl err" using Cons.prems(3) Inr by simp
    obtain ess1 cur1 where s: "builder_inv hash b1 ess1 cur1"
    "cur1 = cur @ [stored_entry b e] \<or> cur1 = [stored_entry b e]"
    "concat ess1 @ cur1 @ map (stored_entry b1) es = concat ess @ cur @ map (stored_entry b) (e # es)"
    "sorted_entries (concat ess1 @ cur1 @ map (stored_entry b1) es)"
    "stored_entry b1 = stored_entry b" "sb_block_size b1 = sb_block_size b"
    by (rule builder_add_step [OF Cons.prems(1,2) Inr])
    from Cons.IH [OF s(1,4) rest] show ?thesis .
  qed
qed simp

text \<open>Versions of the key of the current block are forced into it, until its data pass the
  last offset that 16 bits can hold.\<close>

lemma builder_forced_limit:
  assumes "builder_inv hash b ess cur" "cur \<noteq> []" "es \<noteq> []"
    "sorted_entries (concat ess @ cur @ map (stored_entry b) es)"
    "\<forall>e \<in> set es. ekey e = ekey (last cur)" "add_all (builder_add hash) b es = Inr b'"
  shows "entries_bytes cur + entries_bytes (butlast (map (stored_entry b) es)) \<le> 65535"
  using assms
proof (induction es arbitrary: b cur)
  case (Cons e es)
  obtain b1 where b1: "builder_add hash b e = Inr b1" "add_all (builder_add hash) b1 es = Inr b'"
    using Cons.prems(6) by (auto simp: ebind_Inr_conv)
  have I: "block_holds (sb_block b) cur" "sb_last_key b = ekey (last cur)"
    using Cons.prems(1,2) by (simp_all add: builder_inv_def)
  have force: "ekey e = sb_last_key b" using Cons.prems(5) I(2) by simp
  have L: "length (bdata (sb_block b)) = entries_bytes cur"
    using I(1) by (simp add: block_holds_def entries_bytes_def)
  have st: "stored_entry b1 = stored_entry b"
    using builder_add_frame(1) [OF b1(1)] by (simp add: stored_entry_def fun_eq_iff)
  have S: "sorted_entries (concat ess @ cur @ [stored_entry b e])"
    using Cons.prems(4) by (auto simp: sorted_wrt_append)
  from b1(1) show ?case
  proof (cases rule: builder_add_cases)
    case (kept blk)
    have small: "entries_bytes cur \<le> 65535"
      using kept(1) L by (auto simp: block_add_entry_def Let_def split: if_splits)
    have inv: "builder_inv hash b1 ess (cur @ [stored_entry b e])"
      unfolding kept(2) by (rule builder_kept_inv [OF Cons.prems(1) S kept(1)])
    show ?thesis
    proof (cases "es = []")
      case True
      with small show ?thesis by simp
    next
      case False
      have "sorted_entries (concat ess @ (cur @ [stored_entry b e]) @ map (stored_entry b1) es)"
        using Cons.prems(4) by (simp only: st append_assoc append.simps list.map)
      moreover have "\<forall>x \<in> set es. ekey x = ekey (last (cur @ [stored_entry b e]))"
        using Cons.prems(5) by (simp add: stored_entry_def)
      ultimately have "entries_bytes (cur @ [stored_entry b e]) + entries_bytes (butlast (map (stored_entry b1) es)) \<le> 65535"
        by (intro Cons.IH [OF inv _ False _ _ b1(2)]) simp_all
      with False show ?thesis by (simp add: st)
    qed
  next
    case (cut blk0 b2 ok blk)
    then show ?thesis
      using block_add_entry_cases [OF I(1), of "ekey e" "builder_stored b (ekey e) (evalue e)" "etid e" True] force by simp
  qed
qed simp

lemma builder_group_limit:
  assumes "builder_inv hash b ess cur" "sorted_entries (concat ess @ cur @ map (stored_entry b) es)"
    "\<forall>e \<in> set es. ekey e = k" "add_all (builder_add hash) b es = Inr b'"
  shows "entries_bytes (butlast (map (stored_entry b) es)) \<le> 65535"
proof (cases es)
  case (Cons e es')
  show ?thesis
  proof (cases "es' = []")
    case False
    obtain b1 where b1: "builder_add hash b e = Inr b1" "add_all (builder_add hash) b1 es' = Inr b'"
      using assms(4) Cons by (auto simp: ebind_Inr_conv)
    obtain ess1 cur1 where s: "builder_inv hash b1 ess1 cur1"
    "cur1 = cur @ [stored_entry b e] \<or> cur1 = [stored_entry b e]"
    "concat ess1 @ cur1 @ map (stored_entry b1) es' = concat ess @ cur @ map (stored_entry b) (e # es')"
    "sorted_entries (concat ess1 @ cur1 @ map (stored_entry b1) es')"
    "stored_entry b1 = stored_entry b" "sb_block_size b1 = sb_block_size b"
    by (rule builder_add_step [OF assms(1) assms(2) [unfolded Cons] b1(1)])
    have "ekey (last cur1) = ekey e" "cur1 \<noteq> []" using s(2) by (auto simp: stored_entry_def)
    then have "entries_bytes cur1 + entries_bytes (butlast (map (stored_entry b1) es')) \<le> 65535"
      using assms(3) Cons by (intro builder_forced_limit [OF s(1) _ False s(4) _ b1(2)]) simp_all
    moreover have "length (enc_entry (stored_entry b e)) \<le> entries_bytes cur1" using s(2) by auto
    ultimately show ?thesis using False Cons by (simp add: s(5))
  qed (simp add: Cons)
qed simp

lemma builder_add_all_stored:
  "add_all (builder_add hash) b es = Inr b' \<Longrightarrow> stored_entry b' = stored_entry b"
proof (induction es arbitrary: b)
  case (Cons e es)
  then obtain b1 where "builder_add hash b e = Inr b1" "stored_entry b' = stored_entry b1"
    by (auto simp: ebind_Inr_conv)
  with builder_add_frame(1) show ?case by (simp add: stored_entry_def fun_eq_iff)
qed simp

lemma add_all_append: "add_all add b (xs @ ys) = ebind (add_all add b xs) (\<lambda>b'. add_all add b' ys)"
proof (induction xs arbitrary: b)
  case (Cons x xs)
  then show ?case by (cases "add b x") simp_all
qed simp

lemma sorted_entries_key_split:
  "sorted (map ekey es) \<Longrightarrow>
   es = filter (\<lambda>e. ekey e < k) es @ filter (\<lambda>e. ekey e = k) es @ filter (\<lambda>e. k < ekey e) es"
proof (induction es)
  case (Cons e es)
  then have IH: "es = filter (\<lambda>e. ekey e < k) es @ filter (\<lambda>e. ekey e = k) es @ filter (\<lambda>e. k < ekey e) es"
    and above: "\<And>x. x \<in> set es \<Longrightarrow> ekey e \<le> ekey x" by auto
  consider "ekey e < k" | "ekey e = k" | "k < ekey e" by fastforce
  then show ?case
  proof cases
    case 1
    with IH show ?thesis by (simp add: less_imp_neq order.strict_implies_not_eq)
  next
    case 2
    then have "\<not> ekey x < k" if "x \<in> set es" for x using above [OF that] by (simp add: not_less)
    then have "filter (\<lambda>e. ekey e < k) es = []" unfolding filter_empty_conv by blast
    with IH 2 show ?thesis by simp
  next
    case 3
    have "k < ekey x" if "x \<in> set es" for x using 3 above [OF that] by (rule order.strict_trans2)
    then have "\<not> ekey x < k" "ekey x \<noteq> k" if "x \<in> set es" for x using that by fastforce+
    then have "filter (\<lambda>e. ekey e < k) es = []" "filter (\<lambda>e. ekey e = k) es = []"
      unfolding filter_empty_conv by blast+
    with IH 3 show ?thesis by auto
  qed
qed simp

text \<open>C39: the builder throws \<open>std::length_error\<close> on every sorted sequence in which the versions of
  one key, but the last one, fill more than 65535 bytes: they are forced into one block, whose
  entry offsets have 16 bits. Commit marks all share the empty key, so a table with more than 5462
  of them cannot be written.\<close>

theorem builder_refuses_large_group:
  assumes "builder_fresh b" "sorted_entries es"
    "65535 < entries_bytes (butlast (filter (\<lambda>e. ekey e = k) (map (stored_entry b) es)))"
  shows "add_all (builder_add hash) b es = Inl Length_Error"
proof -
  let ?xs = "filter (\<lambda>e. ekey e < k) es" and ?grp = "filter (\<lambda>e. ekey e = k) es"
  let ?ys = "filter (\<lambda>e. k < ekey e) es"
  note inv = builder_fresh_inv [OF assms(1), of hash]
  have es: "es = ?xs @ ?grp @ ?ys" by (rule sorted_entries_key_split [OF sorted_entries_keys [OF assms(2)]])
  have "sorted_entries (map (stored_entry b) es)"
    using assms(2) unfolding sorted_wrt_map
    by (rule sorted_wrt_mono_rel [rotated]) (simp add: entry_less_def stored_entry_def)
  then have S: "sorted_entries (concat [] @ [] @ map (stored_entry b) es)" by simp
  show ?thesis
  proof (cases "add_all (builder_add hash) b es")
    case (Inl err)
    from builder_add_all_error [OF inv S Inl] Inl show ?thesis by simp
  next
    case (Inr b3)
    then obtain b1 b2 where r: "add_all (builder_add hash) b ?xs = Inr b1" "add_all (builder_add hash) b1 ?grp = Inr b2"
      by (subst (asm) es) (auto simp: add_all_append ebind_Inr_conv)
    have "sorted_entries (map (stored_entry b) (?xs @ ?grp @ ?ys))" using S es by simp
    then have S2: "sorted_entries (map (stored_entry b) ?xs)"
      "sorted_entries (map (stored_entry b) ?xs @ map (stored_entry b) ?grp)"
      by (simp_all add: sorted_wrt_append)
    obtain ess cur where i1: "builder_inv hash b1 ess cur" "concat ess @ cur = map (stored_entry b) ?xs"
      using builder_add_all_inv [OF inv _ r(1)] S2(1) by auto
    have st: "stored_entry b1 = stored_entry b"
      using r(1) by (rule builder_add_all_stored)
    have "sorted_entries (concat ess @ cur @ map (stored_entry b1) ?grp)"
      using S2(2) unfolding st append_assoc [symmetric] i1(2) .
    then have "entries_bytes (butlast (map (stored_entry b1) ?grp)) \<le> 65535"
      by (intro builder_group_limit [OF i1(1) _ _ r(2), of k]) simp_all
    moreover have "filter (\<lambda>e. ekey e = k) (map (stored_entry b) es) = map (stored_entry b) ?grp"
      by (induction es) (simp_all add: stored_entry_def)
    ultimately show ?thesis using assms(3) unfolding st by simp
  qed
qed

lemma entries_bytes_marks:
  "\<forall>e \<in> set es. ekey e = [] \<and> evalue e = [] \<Longrightarrow> entries_bytes es = 12 * length es"
  by (induction es) (auto simp: enc_entry_def)

theorem builder_refuses_large_group_witness:
  "\<exists>b. builder_new 4096 True (10, 0x3FB999999999999A, Some (48, 4)) = Inr b \<and>
    add_all (builder_add (\<lambda>bs. of_nat (length bs))) b (map (\<lambda>i. ([], [], of_nat (6000 - i))) [0 ..< 5463])
      = Inl Length_Error"
proof -
  let ?es = "map (\<lambda>i. ([], [], of_nat (6000 - i))) [0 ..< 5463] :: entry list"
  obtain b where b: "builder_new 4096 True (10, 0x3FB999999999999A, Some (48, 4)) = Inr b"
    by (simp add: builder_new_def builder_bloom_def bloom_new_def rate_valid_def)
  note F = builder_new_fresh [OF b, simplified]
  have "(of_nat (6000 - j) :: u64) < of_nat (6000 - i)" if "i < j" "j < 5463" for i j
    
    unfolding word_less_nat_alt by (subst (1 2) unat_of_nat_u64) (use that in simp_all)
  then have "sorted_entries ?es"
    unfolding sorted_wrt_map
    by (intro sorted_wrt_mono_rel [OF _ sorted_wrt_upt]) (simp add: entry_less_def version_less_def)
  moreover have "65535 < entries_bytes (butlast (filter (\<lambda>e. ekey e = []) (map (stored_entry b) ?es)))"
  proof -
    have "filter (\<lambda>e. ekey e = []) (map (stored_entry b) ?es) = ?es" by (simp add: F filter_id_conv)
    moreover have "entries_bytes (butlast ?es) = 12 * length (butlast ?es)"
      by (rule entries_bytes_marks) (auto dest!: in_set_butlastD)
    ultimately show ?thesis by simp
  qed
  ultimately have "add_all (builder_add (\<lambda>bs. of_nat (length bs))) b ?es = Inl Length_Error"
    by (rule builder_refuses_large_group [OF F(1)])
  with b show ?thesis by blast
qed

end
