(* ===== verification/SstIter_Scan.thy ===== *)
theory SstIter_Scan
  imports SstIter Sst_File
begin

text \<open>
  Correctness of the SST iterator. \<open>sit_shows\<close> says which records an iterator has before it;
  the invariant is kept by construction, by \<open>seek\<close> and by \<open>operator++\<close>, whatever the
  cache does in between.
\<close>

section \<open>Views of several blocks\<close>

definition blocks_view :: "bool \<Rightarrow> u64 \<Rightarrow> abort_check \<Rightarrow> entry list list \<Rightarrow> entry list" where
  "blocks_view keep t ab ess = concat (map (reader_view keep t ab) ess)"

lemma dedup_set: "set (dedup xs) \<subseteq> set xs"
  by (induction xs rule: dedup.induct) (auto dest: set_dropWhileD)

lemma reader_view_set: "set (reader_view keep t ab es) \<subseteq> set es"
  using dedup_set [of "filter (\<lambda>e. readable t ab (etid e)) es"] by (auto simp: reader_view_def Let_def)

lemma dedup_append: "keys_below xs ys \<Longrightarrow> dedup (xs @ ys) = dedup xs @ dedup ys"
proof (induction xs rule: dedup.induct)
  case (2 e es)
  have below: "ekey e \<noteq> ekey y" if "y \<in> set ys" for y using 2(2) that by (auto simp: keys_below_def)
  then have none: "dropWhile (\<lambda>x. ekey x = ekey e) ys = ys"
    unfolding dropWhile_eq_self_iff using hd_in_set by metis
  have "dropWhile (\<lambda>x. ekey x = ekey e) (es @ ys) = dropWhile (\<lambda>x. ekey x = ekey e) es @ ys"
  proof (cases "\<forall>x \<in> set es. ekey x = ekey e")
    case True
    then show ?thesis using none by (simp add: dropWhile_append2 dropWhile_eq_Nil_conv [THEN iffD2])
  next
    case False
    then show ?thesis by (auto simp: dropWhile_append1)
  qed
  moreover have "keys_below (dropWhile (\<lambda>x. ekey x = ekey e) es) ys"
    using 2(2) by (auto simp: keys_below_def dest: set_dropWhileD)
  ultimately show ?case using 2(1) by simp
qed simp

lemma reader_view_append:
  "keys_below xs ys \<Longrightarrow> reader_view keep t ab (xs @ ys) = reader_view keep t ab xs @ reader_view keep t ab ys"
  using dedup_append [of "filter (\<lambda>e. readable t ab (etid e)) xs" "filter (\<lambda>e. readable t ab (etid e)) ys"]
  by (auto simp: reader_view_def Let_def keys_below_def)

text \<open>Because no key is in two blocks, the views of the blocks add up to the view of the SST.\<close>

lemma blocks_view_concat:
  "sorted_wrt keys_below ess \<Longrightarrow> blocks_view keep t ab ess = reader_view keep t ab (concat ess)"
proof (induction ess)
  case Nil
  then show ?case by (simp add: blocks_view_def reader_view_def)
next
  case (Cons es ess)
  then have "keys_below es (concat ess)" by (auto simp: keys_below_def)
  with Cons show ?case by (simp add: blocks_view_def reader_view_append)
qed

section \<open>The position of an iterator\<close>

definition sit_place :: "sst \<Rightarrow> u64 \<Rightarrow> bool \<Rightarrow> abort_check \<Rightarrow> nat \<times> block_iter option \<Rightarrow> sst_iter" where
  "sit_place s t keep ab r = \<lparr>sit_sst = Some s, sit_block_idx = fst r, sit_max_tranc_id = t,
     sit_block_it = snd r, sit_keep_all = keep, sit_is_aborted = ab\<rparr>"

lemma sit_place_fields [simp]:
  "sit_sst (sit_place s t keep ab r) = Some s" "sit_block_idx (sit_place s t keep ab r) = fst r"
  "sit_max_tranc_id (sit_place s t keep ab r) = t" "sit_block_it (sit_place s t keep ab r) = snd r"
  "sit_keep_all (sit_place s t keep ab r) = keep" "sit_is_aborted (sit_place s t keep ab r) = ab"
  "(sit_place s t keep ab r)\<lparr>sit_block_idx := i, sit_block_it := bi\<rparr> = sit_place s t keep ab (i, bi)"
  "(sit_place s t keep ab r)\<lparr>sit_block_it := bi\<rparr> = sit_place s t keep ab (fst r, bi)"
  by (simp_all add: sit_place_def)

text \<open>The two kinds of positions and the records that are left: past the last block, or in block
  \<open>i\<close> on the first readable record from \<open>j\<close> on.\<close>

definition rest_view :: "u64 \<Rightarrow> bool \<Rightarrow> abort_check \<Rightarrow> entry list list \<Rightarrow> nat \<Rightarrow> nat \<Rightarrow> entry list" where
  "rest_view t keep ab ess i j =
     reader_view keep t ab (drop j (ess ! i)) @ blocks_view keep t ab (drop (Suc i) ess)"

definition in_block ::
  "entry list list \<Rightarrow> u64 \<Rightarrow> abort_check \<Rightarrow> nat \<times> block \<Rightarrow> nat \<Rightarrow> nat \<Rightarrow> bool" where
  "in_block ess t ab p i j \<longleftrightarrow> i < length ess \<and> block_holds (snd p) (ess ! i) \<and> j \<le> length (ess ! i) \<and>
     next_readable t ab (ess ! i) j < length (ess ! i)"

definition sit_shows ::
  "sst \<Rightarrow> entry list list \<Rightarrow> u64 \<Rightarrow> bool \<Rightarrow> abort_check \<Rightarrow> sst_iter \<Rightarrow> entry list \<Rightarrow> bool" where
  "sit_shows s ess t keep ab it vs \<longleftrightarrow>
     (it = sit_place s t keep ab (length ess, None) \<and> vs = [] \<or>
      (\<exists>p i j. in_block ess t ab p i j \<and> vs = rest_view t keep ab ess i j \<and>
         it = sit_place s t keep ab (i, Some (biter_on p (ess ! i) t keep ab j))))"

lemma reader_view_Nil: "length es \<le> next_readable t ab es j \<Longrightarrow> reader_view keep t ab (drop j es) = []"
  using no_readable_seg [of "length es" t ab es j] by (simp add: reader_view_def)

lemma reader_view_hit:
  assumes "sorted_entries es" "next_readable t ab es j < length es" "j \<le> length es"
  defines "i \<equiv> next_readable t ab es j"
  shows "reader_view keep t ab (drop j es) = es ! i #
      reader_view keep t ab (drop (if keep then Suc i else next_key es (ekey (es ! i)) (Suc i)) es)"
    "(if keep then Suc i else next_key es (ekey (es ! i)) (Suc i)) \<le> length es"
proof -
  have "j \<le> i" using next_readable_bounds [OF assms(3)] by (simp add: i_def)
  from reader_view_step [OF assms(1) order.refl this, of t ab "if keep then Suc i else next_key es (ekey (es ! i)) (Suc i)" keep]
  show "reader_view keep t ab (drop j es) = es ! i #
      reader_view keep t ab (drop (if keep then Suc i else next_key es (ekey (es ! i)) (Suc i)) es)"
    "(if keep then Suc i else next_key es (ekey (es ! i)) (Suc i)) \<le> length es"
    using assms(2) by (simp_all add: i_def)
qed

lemma biter_end_on:
  assumes "block_holds (snd p) es" "j \<le> length es"
  shows "biter_is_end (biter_on p es t keep ab j) = Inr (next_readable t ab es j = length es)"
    "block_size (snd p) = length es"
  using holds_length [OF assms(1)] by (cases p; simp add: biter_is_end_def biter_on_def block_size_def)+

lemma blocks_view_drop:
  "i < length ess \<Longrightarrow> blocks_view keep t ab (drop i ess) =
     reader_view keep t ab (ess ! i) @ blocks_view keep t ab (drop (Suc i) ess)"
  by (simp add: blocks_view_def Cons_nth_drop_Suc [symmetric])

lemma sst_shows_blocks:
  assumes "sst_shows hash C s ess"
  shows "sst_num_blocks s = length ess" "sst_blocks ess" "i < length ess \<Longrightarrow> sorted_entries (ess ! i)"
  using assms sst_layout_facts(1,2) [of hash s ess] sst_block_sorted [of ess i]
  by (simp_all add: sst_shows_def sst_num_blocks_def)

lemma seek_from_spec:
  assumes "sst_shows hash C s ess" "idx \<le> length ess"
  shows "spec (store_holds C) (seek_from s t keep ab idx)
    (\<lambda>r. sit_shows s ess t keep ab (sit_place s t keep ab r) (blocks_view keep t ab (drop idx ess)))"
  using assms(2)
proof (induction "length ess - idx" arbitrary: idx)
  case 0
  then have idx: "idx = length ess" by simp
  then show ?case
    using sst_shows_blocks(1) [OF assms(1)]
    by (subst seek_from.simps) (simp add: sit_shows_def blocks_view_def spec_ret)
next
  case (Suc n)
  then have idx: "idx < length ess" "n = length ess - Suc idx" by auto
  show ?case
    unfolding seek_from.simps [of s t keep ab idx] sst_shows_blocks(1) [OF assms(1)] if_P [OF idx(1)]
  proof (rule spec_bind [OF sst_read_block_spec [OF assms(1) idx(1)]])
    fix p :: "nat \<times> block"
    assume p: "block_holds (snd p) (ess ! idx)"
    note E = biter_end_on(1) [OF p, of 0 t keep ab]
    note V = blocks_view_drop [OF idx(1), of keep t ab]
    show "spec (store_holds C)
        (cbind (clift (biter_new (Some p) 0 t keep ab)) (\<lambda>bi. cbind (clift (biter_is_end bi)) (\<lambda>at_end.
          if at_end then seek_from s t keep ab (Suc idx) else cret (idx, Some bi))))
        (\<lambda>r. sit_shows s ess t keep ab (sit_place s t keep ab r) (blocks_view keep t ab (drop idx ess)))"
    proof (cases "next_readable t ab (ess ! idx) 0 = length (ess ! idx)")
      case True
      have "blocks_view keep t ab (drop idx ess) = blocks_view keep t ab (drop (Suc idx) ess)"
        using V reader_view_Nil [of "ess ! idx" t ab 0 keep] True by simp
      with Suc(1) [OF idx(2)] idx(1) show ?thesis
        by (simp add: biter_new_on [OF p] E True)
    next
      case False
      have "next_readable t ab (ess ! idx) 0 \<le> length (ess ! idx)"
        using next_readable_bounds [of 0 "ess ! idx" t ab] by simp
      with False p idx(1) have "in_block ess t ab p idx 0" by (simp add: in_block_def)
      then have "sit_shows s ess t keep ab (sit_place s t keep ab (idx, Some (biter_on p (ess ! idx) t keep ab 0)))
          (blocks_view keep t ab (drop idx ess))"
        unfolding sit_shows_def using V by (intro disjI2 exI conjI) (auto simp: rest_view_def)
      with False show ?thesis by (simp add: biter_new_on [OF p] E spec_ret)
    qed
  qed
qed

lemma spec_place:
  assumes "spec I m (\<lambda>r. Q (sit_place s t keep ab r))"
  shows "spec I (cbind m (\<lambda>(idx, bi). cret (sit_place s t keep ab (idx, bi)))) Q"
  using assms by (rule spec_bind) (simp add: spec_ret split: prod.split)

lemma sit_new_spec [spec_intro]:
  assumes "sst_shows hash C s ess"
  shows "spec (store_holds C) (sit_new (Some s) t keep ab)
    (\<lambda>it. sit_shows s ess t keep ab it (reader_view keep t ab (concat ess)))"
proof -
  have "blocks_view keep t ab (drop 0 ess) = reader_view keep t ab (concat ess)"
    using sst_shows_blocks(2) [OF assms] blocks_view_concat by (simp add: sst_blocks_def)
  then have "spec (store_holds C) (seek_from s t keep ab 0)
    (\<lambda>r. sit_shows s ess t keep ab (sit_place s t keep ab r) (reader_view keep t ab (concat ess)))"
    using seek_from_spec [OF assms, of 0 t keep ab] by simp
  from spec_place [OF this] show ?thesis
    by (simp add: sit_new_def sit_seek_first_def sit_start_def sit_place_def)
qed

lemma sit_shows_Nil:
  assumes "sit_shows s ess t keep ab it []" "sst_blocks ess"
  shows "it = sit_place s t keep ab (length ess, None)"
proof (rule ccontr)
  assume "it \<noteq> sit_place s t keep ab (length ess, None)"
  then obtain p i j where "in_block ess t ab p i j" "rest_view t keep ab ess i j = []"
    using assms(1) unfolding sit_shows_def by metis
  then show False
    using reader_view_hit(1) [of "ess ! i" t ab j keep] sst_block_sorted [OF assms(2), of i]
    by (simp add: in_block_def rest_view_def)
qed

lemma sit_shows_Cons:
  assumes "sit_shows s ess t keep ab it (v # vs)" "sst_blocks ess"
  obtains p i j where "in_block ess t ab p i j"
    "it = sit_place s t keep ab (i, Some (biter_on p (ess ! i) t keep ab j))"
    "v = ess ! i ! next_readable t ab (ess ! i) j"
    "vs = rest_view t keep ab ess i (let n = next_readable t ab (ess ! i) j
        in if keep then Suc n else next_key (ess ! i) (ekey v) (Suc n))"
proof -
  obtain p i j where b: "in_block ess t ab p i j" "v # vs = rest_view t keep ab ess i j"
    "it = sit_place s t keep ab (i, Some (biter_on p (ess ! i) t keep ab j))"
    using assms(1) unfolding sit_shows_def by blast
  have "sorted_entries (ess ! i)" using b(1) sst_block_sorted [OF assms(2)] by (simp add: in_block_def)
  from reader_view_hit(1) [OF this, of t ab j keep] b(1,2)
  have "v = ess ! i ! next_readable t ab (ess ! i) j"
    "vs = rest_view t keep ab ess i (let n = next_readable t ab (ess ! i) j
        in if keep then Suc n else next_key (ess ! i) (ekey v) (Suc n))"
    by (simp_all add: in_block_def rest_view_def Let_def)
  with b(1,3) show thesis by (intro that)
qed

section \<open>Observing and moving\<close>

lemma sit_valid_Nil:
  assumes "sit_shows s ess t keep ab it []" "sst_blocks ess"
  shows "sit_is_valid it = Inr False" "sit_is_end it"
  using sit_shows_Nil [OF assms] by (simp_all add: sit_is_valid_def sit_is_end_def)

lemma sit_observe:
  assumes "sst_shows hash C s ess" "sit_shows s ess t keep ab it (v # vs)"
  shows "sit_is_valid it = Inr True" "\<not> sit_is_end it" "sit_key it = Inr (ekey v)"
    "sit_value it = sst_resolve_value s (evalue v)"
    "sit_deref it = ebind (sst_resolve_value s (evalue v)) (\<lambda>x. Inr (ekey v, x))"
    "sit_get_cur_tranc_id it = Inr (etid v)"
proof -
  note B = sst_shows_blocks [OF assms(1)]
  obtain p i j where b: "in_block ess t ab p i j"
    "it = sit_place s t keep ab (i, Some (biter_on p (ess ! i) t keep ab j))"
    "v = ess ! i ! next_readable t ab (ess ! i) j"
    by (rule sit_shows_Cons [OF assms(2) B(2)])
  let ?b = "biter_on p (ess ! i) t keep ab j" and ?n = "next_readable t ab (ess ! i) j"
  have I: "i < length ess" "block_holds (snd p) (ess ! i)" "j \<le> length (ess ! i)" "?n < length (ess ! i)"
    using b(1) by (simp_all add: in_block_def)
  obtain a blk where p: "p = (a, blk)" by (cases p)
  have blk: "block_holds blk (ess ! i)" using I(2) p by simp
  note R = holds_read [OF blk I(4)] holds_length [OF blk]
  have D: "biter_deref ?b = Inr (ekey v, evalue v)" "biter_get_cur_tranc_id ?b = Inr (etid v)"
    using I(4) R by (simp_all add: biter_deref_def biter_get_cur_tranc_id_def biter_on_def p block_size_def
        block_get_offset_at_def b(3))
  have E: "biter_is_end ?b = Inr False" using biter_end_on(1) [OF I(2,3)] I(4) by simp
  show V: "sit_is_valid it = Inr True" using E I(1) B(1) by (simp add: sit_is_valid_def b(2))
  show "\<not> sit_is_end it" by (simp add: sit_is_end_def b(2))
  show "sit_key it = Inr (ekey v)" "sit_value it = sst_resolve_value s (evalue v)"
    "sit_get_cur_tranc_id it = Inr (etid v)"
    using D by (simp_all add: sit_key_def sit_value_def sit_resolve_def sit_get_cur_tranc_id_def b(2))
  show "sit_deref it = ebind (sst_resolve_value s (evalue v)) (\<lambda>x. Inr (ekey v, x))"
    using D V by (simp add: sit_deref_def sit_resolve_def b(2))
qed

lemma sit_next_spec [spec_intro]:
  assumes "sst_shows hash C s ess" "sit_shows s ess t keep ab it (v # vs)"
  shows "spec (store_holds C) (sit_next it) (\<lambda>it'. sit_shows s ess t keep ab it' vs)"
proof -
  note B = sst_shows_blocks [OF assms(1)]
  obtain p i j where b: "in_block ess t ab p i j"
    "it = sit_place s t keep ab (i, Some (biter_on p (ess ! i) t keep ab j))"
    "v = ess ! i ! next_readable t ab (ess ! i) j"
    "vs = rest_view t keep ab ess i (let n = next_readable t ab (ess ! i) j
        in if keep then Suc n else next_key (ess ! i) (ekey v) (Suc n))"
    by (rule sit_shows_Cons [OF assms(2) B(2)])
  let ?n = "next_readable t ab (ess ! i) j"
  define m where "m = (if keep then Suc ?n else next_key (ess ! i) (ekey (ess ! i ! ?n)) (Suc ?n))"
  have I: "i < length ess" "block_holds (snd p) (ess ! i)" "j \<le> length (ess ! i)" "?n < length (ess ! i)"
    using b(1) by (simp_all add: in_block_def)
  have vs: "vs = rest_view t keep ab ess i m" using b(3,4) by (simp add: m_def Let_def)
  have m: "m \<le> length (ess ! i)"
    using reader_view_hit(2) [OF B(3) [OF I(1)] I(4,3), of keep] by (simp add: m_def)
  have nx: "biter_next (biter_on p (ess ! i) t keep ab j) = Inr (biter_on p (ess ! i) t keep ab m)"
    unfolding m_def by (rule biter_next_on [OF I(2,4)])
  note E = biter_end_on(1) [OF I(2) m, of t keep ab]
  show ?thesis
  proof (cases "next_readable t ab (ess ! i) m = length (ess ! i)")
    case True
    have "vs = blocks_view keep t ab (drop (Suc i) ess)"
      using reader_view_Nil [of "ess ! i" t ab m keep] True by (simp add: vs rest_view_def)
    with seek_from_spec [OF assms(1), of "Suc i" t keep ab] I(1)
    have "spec (store_holds C) (seek_from s t keep ab (Suc i)) (\<lambda>r. sit_shows s ess t keep ab (sit_place s t keep ab r) vs)"
      by simp
    from spec_place [OF this] show ?thesis
      by (simp add: sit_next_def b(2) nx E True)
  next
    case False
    have "next_readable t ab (ess ! i) m \<le> length (ess ! i)" using next_readable_bounds [OF m] by simp
    with False I(1,2) m have "in_block ess t ab p i m" by (simp add: in_block_def)
    then have "sit_shows s ess t keep ab (sit_place s t keep ab (i, Some (biter_on p (ess ! i) t keep ab m))) vs"
      unfolding sit_shows_def using vs by blast
    with False show ?thesis by (simp add: sit_next_def b(2) nx E spec_ret)
  qed
qed

section \<open>Values\<close>

text \<open>Values can be resolved in an inline SST and in a WiscKey SST with a value log.\<close>

definition resolvable :: "sst \<Rightarrow> bool" where
  "resolvable s \<longleftrightarrow> sst_storage_mode s = 0 \<or> sst_has_vlog s"

definition resolve_entry :: "sst \<Rightarrow> entry \<Rightarrow> entry" where
  "resolve_entry s e =
     (ekey e, (case sst_resolve_value s (evalue e) of Inl _ \<Rightarrow> [] | Inr v \<Rightarrow> v), etid e)"

lemma resolve_entry_simps [simp]:
  "ekey (resolve_entry s e) = ekey e" "etid (resolve_entry s e) = etid e"
  by (simp_all add: resolve_entry_def)

lemma resolve_value: "resolvable s \<Longrightarrow> sst_resolve_value s (evalue e) = Inr (evalue (resolve_entry s e))"
  by (auto simp: resolvable_def resolve_entry_def sst_resolve_value_def)

lemma resolve_inline: "sst_storage_mode s = 0 \<Longrightarrow> resolve_entry s = id"
  by (simp add: resolve_entry_def sst_resolve_value_def fun_eq_iff)

section \<open>Emptying an iterator\<close>

lemma sst_file_bytes:
  assumes "sst_layout hash s ess"
  shows "12 * length (concat ess) \<le> length (sst_file s)"
proof -
  obtain bss rest where L: "sst_file s = concat bss @ rest" "blocks_data bss ess"
    using assms unfolding sst_layout_def by blast
  have one: "12 * length es \<le> length bs" if dec: "block_decode bs True = Inr b" "block_holds b es" for bs b es
  proof -
    have "length (bdata b) \<le> length bs"
      using dec(1) by (auto simp: block_decode_def Let_def split: if_splits)
    moreover have "length (bdata b) = entries_bytes es"
      using dec(2) by (simp add: block_holds_def entries_bytes_def)
    ultimately show ?thesis using entries_bytes_count [of es] by simp
  qed
  have "12 * length (concat ess) \<le> length (concat bss)"
    using L(2) unfolding blocks_data_def
    by (induction bss ess rule: list_all2_induct) (auto dest: one intro: add_mono)
  then show ?thesis by (simp add: L(1))
qed

lemma sst_file_count: "sst_layout hash s ess \<Longrightarrow> length (concat ess) \<le> length (sst_file s)"
  using sst_file_bytes [of hash s ess] by linarith

definition sst_item :: "sst \<Rightarrow> entry \<Rightarrow> search_item" where
  "sst_item s e = \<lparr>si_key = ekey e, si_value = evalue (resolve_entry s e), si_tid = etid e,
     si_idx = sst_id s, si_level = 0\<rparr>"

lemma sit_drain_spec:
  assumes "sst_shows hash C s ess" "resolvable s" "sit_shows s ess t keep ab it vs" "length vs < n"
  shows "spec (store_holds C) (sit_drain n it heap) (\<lambda>h. h = foldl heap_push heap (map (sst_item s) vs))"
  using assms(3,4)
proof (induction n arbitrary: it vs heap)
  case (Suc n)
  show ?case
  proof (cases vs)
    case Nil
    with sit_valid_Nil [of s ess t keep ab it] sst_shows_blocks(2) [OF assms(1)] Suc.prems
    show ?thesis by (simp add: spec_ret)
  next
    case (Cons v vs')
    note O = sit_observe [OF assms(1) Suc.prems(1) [unfolded Cons]]
    have sst: "sit_sst it = Some s" using Suc.prems(1) unfolding sit_shows_def by auto
    have "spec (store_holds C) (sit_drain (Suc n) it heap) (\<lambda>h. h = foldl heap_push (heap_push heap (sst_item s v)) (map (sst_item s) vs'))"
      using O resolve_value [OF assms(2), of v] sst
      by (simp add: sst_item_def [symmetric])
        (rule spec_bind [OF sit_next_spec [OF assms(1) Suc.prems(1) [unfolded Cons]]], rule Suc.IH,
          assumption, use Suc.prems(2) Cons in simp)
    then show ?thesis by (simp add: Cons)
  qed
qed simp

lemma reader_view_length: "length (reader_view keep t ab es) \<le> length es"
proof -
  have "length (dedup xs) \<le> length xs" for xs
    by (induction xs rule: dedup.induct) (auto intro: order.trans [OF _ length_dropWhile_le])
  from order.trans [OF this [of "filter (\<lambda>e. readable t ab (etid e)) es"] length_filter_le] show ?thesis
    by (simp add: reader_view_def Let_def)
qed

text \<open>The heap of several fresh iterators.\<close>

lemma drain_all_spec:
  assumes "list_all2 (\<lambda>it (s, ess). sst_shows hash C s ess \<and> resolvable s \<and>
      sit_shows s ess t keep ab it (reader_view keep t ab (concat ess))) its ssts"
  shows "spec (store_holds C) (drain_all its heap)
    (\<lambda>h. h = foldl heap_push heap (concat (map (\<lambda>(s, ess). map (sst_item s) (reader_view keep t ab (concat ess))) ssts)))"
  using assms
proof (induction its ssts arbitrary: heap rule: list_all2_induct)
  case Nil
  then show ?case by (simp add: spec_ret)
next
  case (Cons it its x ssts)
  obtain s ess where x: "x = (s, ess)" by (cases x)
  have H: "sst_shows hash C s ess" "resolvable s" "sit_shows s ess t keep ab it (reader_view keep t ab (concat ess))"
    using Cons(1) x by simp_all
  have "sit_fuel it = Suc (length (sst_file s))"
    using H(3) unfolding sit_shows_def by (auto simp: sit_fuel_def)
  moreover have "length (reader_view keep t ab (concat ess)) \<le> length (sst_file s)"
    using order.trans [OF reader_view_length [of keep t ab "concat ess"] sst_file_count [of hash s ess]] H(1)
    unfolding sst_shows_def by blast
  ultimately have "length (reader_view keep t ab (concat ess)) < sit_fuel it" by simp
  from sit_drain_spec [OF H this, of heap]
  show ?case
    unfolding drain_all.simps x by (rule spec_bind) (use Cons(3) in simp)
qed

text \<open>The client's loop over an iterator.\<close>

primrec sit_run :: "nat \<Rightarrow> sst_iter \<Rightarrow> entry list cio" where
  "sit_run 0 it = cthrow Diverges"
| "sit_run (Suc n) it =
     cbind (clift (sit_is_valid it)) (\<lambda>valid.
       if \<not> valid then cret []
       else cbind (clift (sit_deref it)) (\<lambda>kv.
            cbind (clift (sit_get_cur_tranc_id it)) (\<lambda>t.
            cbind (sit_next it) (\<lambda>it'.
            cbind (sit_run n it') (\<lambda>es. cret ((fst kv, snd kv, t) # es))))))"

lemma sit_run_spec:
  assumes "sst_shows hash C s ess" "resolvable s" "sit_shows s ess t keep ab it vs" "length vs < n"
  shows "spec (store_holds C) (sit_run n it) (\<lambda>es. es = map (resolve_entry s) vs)"
  using assms(3,4)
proof (induction n arbitrary: it vs)
  case (Suc n)
  show ?case
  proof (cases vs)
    case Nil
    with sit_valid_Nil [of s ess t keep ab it] sst_shows_blocks(2) [OF assms(1)] Suc.prems
    show ?thesis by (simp add: spec_ret)
  next
    case (Cons v vs')
    note O = sit_observe [OF assms(1) Suc.prems(1) [unfolded Cons]]
    have e: "(ekey v, evalue (resolve_entry s v), etid v) = resolve_entry s v" by (simp add: resolve_entry_def)
    have IH: "spec (store_holds C) (sit_run n it') (\<lambda>es. es = map (resolve_entry s) vs')"
      if "sit_shows s ess t keep ab it' vs'" for it'
      using that Suc.prems(2) Cons by (intro Suc.IH) simp_all
    show ?thesis
      using O resolve_value [OF assms(2), of v]
      by (simp add: Cons e)
        (rule spec_bind [OF sit_next_spec [OF assms(1) Suc.prems(1) [unfolded Cons]]],
          rule spec_bind [OF IH], assumption, simp add: spec_ret)
  qed
qed simp

section \<open>Point lookup\<close>

lemma find_none_all: "(\<And>e. e \<in> set xs \<Longrightarrow> \<not> P e) \<Longrightarrow> find P xs = None"
  unfolding find_None_iff by blast

lemma find_concat_block:
  assumes "i < length ess" "\<And>j e. j < length ess \<Longrightarrow> e \<in> set (ess ! j) \<Longrightarrow> P e \<Longrightarrow> j = i"
  shows "find P (concat ess) = find P (ess ! i)"
proof -
  have c: "concat ess = concat (take i ess) @ ess ! i @ concat (drop (Suc i) ess)"
    using assms(1) by (metis concat.simps(2) concat_append id_take_nth_drop)
  have pre: "find P (concat (take i ess)) = None"
  proof -
    have "\<not> P e" if e: "e \<in> set (concat (take i ess))" for e
    proof -
      obtain xs where xs: "xs \<in> set (take i ess)" "e \<in> set xs" using e by auto
      then obtain j where "j < i" "xs = ess ! j" using assms(1) by (auto simp: in_set_conv_nth)
      with assms xs show ?thesis by (metis less_irrefl less_trans)
    qed
    then show ?thesis by (rule find_none_all)
  qed
  have suf: "find P (concat (drop (Suc i) ess)) = None"
  proof -
    have "\<not> P e" if e: "e \<in> set (concat (drop (Suc i) ess))" for e
    proof -
      obtain xs where xs: "xs \<in> set (drop (Suc i) ess)" "e \<in> set xs" using e by auto
      from xs(1) obtain j where "j < length (drop (Suc i) ess)" "drop (Suc i) ess ! j = xs"
        unfolding in_set_conv_nth by blast
      then have "Suc i + j < length ess" "ess ! (Suc i + j) = xs" by (simp_all add: less_diff_conv add.commute)
      with assms(2) [of "Suc i + j" e] xs show ?thesis by auto
    qed
    then show ?thesis by (rule find_none_all)
  qed
  have app: "find P (xs @ ys) = (case find P xs of None \<Rightarrow> find P ys | Some x \<Rightarrow> Some x)" for xs ys
    by (induction xs) auto
  show ?thesis unfolding c app pre suf by (simp split: option.split)
qed

text \<open>What a lookup found: nothing (an invalid iterator), or one record.\<close>

definition found :: "sst \<Rightarrow> sst_iter \<Rightarrow> entry option \<Rightarrow> bool" where
  "found s it r \<longleftrightarrow> (case r of
      None \<Rightarrow> sit_is_valid it = Inr False
    | Some e \<Rightarrow> sit_is_valid it = Inr True \<and> sit_get_cur_tranc_id it = Inr (etid e) \<and>
        sit_deref it = ebind (sst_resolve_value s (evalue e)) (\<lambda>v. Inr (ekey e, v)))"

lemma found_end: "found s (sst_end s) None" "found s (sit_place s t keep ab (i, None)) None"
  by (simp_all add: found_def sst_end_def sit_is_valid_def sit_start_def)

lemma biter_at_key_spec:
  assumes "block_holds (snd p) es" "sorted_entries es"
  shows "biter_at_key (Some p) k t keep ab = Inr \<lparr>bi_block = Some p,
      bi_index = (case index_of (block_hit k t ab) es 0 of None \<Rightarrow> length es | Some i \<Rightarrow> i),
      bi_tid = t, bi_keep_all = keep, bi_is_aborted = ab\<rparr>"
  using block_get_idx_binary_spec [OF assms] holds_length [OF assms(1)]
  by (cases p) (simp add: biter_at_key_def block_size_def split: option.split)

lemma sit_at_key_spec:
  assumes "sst_shows hash C s ess" "k \<noteq> []"
  shows "spec (store_holds C) (sit_at_key hash (Some s) k t keep ab)
    (\<lambda>it. found s it (find (block_hit k t ab) (concat ess)))"
proof -
  note B = sst_shows_blocks [OF assms(1)]
  obtain r where r: "sst_find_block_idx hash s k = Inr r" and F: "- 1 \<le> r" "r < int (length ess)" "\<And>j e. j < length ess \<Longrightarrow> e \<in> set (ess ! j) \<Longrightarrow> ekey e = k \<Longrightarrow> r = int j"
    using sst_find_block_idx_spec [of hash s ess k] assms unfolding sst_shows_def by blast
  show ?thesis
  proof (cases "r = - 1")
    case True
    have "\<not> block_hit k t ab e" if "e \<in> set (concat ess)" for e
    proof -
      from that obtain xs where xs: "xs \<in> set ess" "e \<in> set xs" by auto
      from xs(1) obtain j where "j < length ess" "ess ! j = xs" unfolding in_set_conv_nth by blast
      with xs(2) have j: "j < length ess" "e \<in> set (ess ! j)" by simp_all
      have "ekey e \<noteq> k"
      proof
        assume "ekey e = k"
        from F(3) [OF j this] True show False by simp
      qed
      then show ?thesis unfolding block_hit_def by blast
    qed
    then have "find (block_hit k t ab) (concat ess) = None" by (rule find_none_all)
    moreover have "sit_at_key hash (Some s) k t keep ab = cret (sit_place s t keep ab (length ess, None))"
      using True B(1) r
      by (simp add: sit_at_key_def sit_seek_def sit_start_def sit_place_def)
    ultimately show ?thesis using found_end(2) by (simp only: spec_ret)
  next
    case False
    then have "0 \<le> r" using F(1) by linarith
    then obtain i where i: "r = int i" by (rule nonneg_int_cases)
    moreover from this F(2) have "i < length ess" by simp
    ultimately have i: "r = int i" "i < length ess" by this+
    have find: "find (block_hit k t ab) (concat ess) = find (block_hit k t ab) (ess ! i)"
    proof (rule find_concat_block [OF i(2)])
      fix j e
      assume "j < length ess" "e \<in> set (ess ! j)" "block_hit k t ab e"
      from F(3) [OF this(1,2)] this(3) show "j = i" unfolding block_hit_def i(1) by simp
    qed
    have guard: "\<not> (r = - 1 \<or> int (sst_num_blocks s) \<le> r)" using i B(1) by simp
    show ?thesis
      unfolding sit_at_key_def sit_seek_def sit_start_def sst_iter.simps option.case if_not_P [OF option.distinct(2)] Let_def
        r cbind_simps if_not_P [OF guard] unfolding i(1) find
    proof (rule spec_bind [OF sst_read_block_spec [OF assms(1) i(2)]])
      fix p :: "nat \<times> block"
      assume p: "block_holds (snd p) (ess ! i)"
      obtain a blk where ab': "p = (a, blk)" by (cases p)
      have blk: "block_holds blk (ess ! i)" using p ab' by simp
      note K = biter_at_key_spec [OF p B(3) [OF i(2)], of k t keep ab]
      show "spec (store_holds C) (cbind (clift (biter_at_key (Some p) k t keep ab)) (\<lambda>bi.
          cbind (clift (biter_is_end bi)) (\<lambda>missing.
            if missing then cret \<lparr>sit_sst = Some s, sit_block_idx = sst_num_blocks s, sit_max_tranc_id = t,
              sit_block_it = None, sit_keep_all = keep, sit_is_aborted = ab\<rparr>
            else cret \<lparr>sit_sst = Some s, sit_block_idx = nat (int i), sit_max_tranc_id = t,
              sit_block_it = Some bi, sit_keep_all = keep, sit_is_aborted = ab\<rparr>)))
          (\<lambda>it. found s it (find (block_hit k t ab) (ess ! i)))"
      proof (cases "index_of (block_hit k t ab) (ess ! i) 0")
        case None
        then have "find (block_hit k t ab) (ess ! i) = None" by (simp add: index_of_find [of _ _ 0])
        with None show ?thesis
          using holds_length [OF blk] by (simp add: K [unfolded ab'] biter_is_end_def block_size_def ab' spec_ret found_def sit_is_valid_def)
      next
        case (Some n)
        then have n: "n < length (ess ! i)" using index_of_bounds by fastforce
        have f: "find (block_hit k t ab) (ess ! i) = Some (ess ! i ! n)" using Some by (simp add: index_of_find [of _ _ 0])
        note R = holds_read [OF blk n] holds_length [OF blk]
        show ?thesis
          using n R Some i(2) B(1)
          by (simp add: K [unfolded ab'] biter_is_end_def ab' spec_ret found_def f sit_is_valid_def sit_get_cur_tranc_id_def
              biter_get_cur_tranc_id_def sit_deref_def biter_deref_def block_size_def block_get_offset_at_def
              sit_resolve_def)
      qed
    qed
  qed
qed

lemma sst_get_spec [spec_intro]:
  assumes "sst_shows hash C s ess" "k \<noteq> []"
  shows "spec (store_holds C) (sst_get hash s k t ab)
    (\<lambda>it. found s it (find (\<lambda>e. ekey e = k \<and> readable t ab (etid e)) (concat ess)))"
proof -
  have hit: "(\<lambda>e. ekey e = k \<and> readable t ab (etid e)) = block_hit k t ab" by (auto simp: block_hit_def)
  have L: "sst_layout hash s ess" using assms(1) by (simp add: sst_shows_def)
  note F = sst_layout_facts [OF L]
  have none: "find (block_hit k t ab) (concat ess) = None"
    if "\<And>e. e \<in> set (concat ess) \<Longrightarrow> ekey e \<noteq> k"
    by (rule find_none_all) (use that in \<open>simp add: block_hit_def\<close>)
  show ?thesis
  proof (cases "k < sst_first_key s \<or> sst_last_key s < k")
    case True
    have "ekey e \<noteq> k" if e: "e \<in> set (concat ess)" for e
    proof
      assume k: "ekey e = k"
      have "first_nonempty (concat ess) \<le> k"
        using first_nonempty_le [OF sorted_entries_keys [OF F(4)] e] assms(2) k by simp
      moreover have "last (concat ess) = last (last ess)" "concat ess \<noteq> []"
        using F(2,3) by (cases ess rule: rev_cases; auto simp: sst_blocks_def)+
      then have "k \<le> ekey (last (last ess))" using sorted_last_key [OF F(4) e] k by simp
      ultimately show False using True F(5,6) by auto
    qed
    with none have "find (block_hit k t ab) (concat ess) = None" by blast
    with True show ?thesis unfolding hit sst_get_def by (simp add: spec_ret found_end)
  next
    case False
    show ?thesis
    proof (cases "\<exists>bf. sst_bloom_filter s = Some bf \<and> \<not> possibly_contains hash bf k")
      case True
      then have "ekey e \<noteq> k" if "e \<in> set (concat ess)" for e
        using F(7) that unfolding bloom_knows_def by blast
      with none have "find (block_hit k t ab) (concat ess) = None" by blast
      with True False show ?thesis unfolding hit sst_get_def by (auto simp: spec_ret found_end)
    next
      case nb: False
      then have "sst_get hash s k t ab = sit_at_key hash (Some s) k t False ab"
        using False unfolding sst_get_def by (auto split: option.splits)
      with sit_at_key_spec [OF assms, of t False ab] show ?thesis unfolding hit by simp
    qed
  qed
qed

end
