(* ===== verification/SstIter_Range.thy ===== *)
theory SstIter_Range
  imports SstIter_Scan
begin

text \<open>
  The range query of an SST: the first iterator stands on the first readable hit of the
  monotone predicate, and no hit lies at or behind any position that compares equal to the
  second one. The two may fail to meet (their block pointers can differ after an eviction), so
  nothing here says that a loop which only compares the two iterators stops.
\<close>

abbreviation hits :: "(bytes \<Rightarrow> int) \<Rightarrow> entry list \<Rightarrow> entry list" where
  "hits pred \<equiv> filter (\<lambda>e. pred (ekey e) = 0)"

lemma no_hits: "(\<And>e. e \<in> set es \<Longrightarrow> pred (ekey e) \<noteq> 0) \<Longrightarrow> hits pred es = []"
  unfolding filter_empty_conv by blast

lemma no_hits_view: "hits pred es = [] \<Longrightarrow> hits pred (reader_view keep t ab es) = []"
  unfolding filter_empty_conv using reader_view_set [of keep t ab es] by blast

lemma blocks_view_append: "blocks_view keep t ab (xs @ ys) = blocks_view keep t ab xs @ blocks_view keep t ab ys"
  by (simp add: blocks_view_def)

lemma reader_view_from_next:
  "reader_view keep t ab (drop (next_readable t ab es j) es) = reader_view keep t ab (drop j es)"
proof -
  let ?P = "\<lambda>e. readable t ab (etid e)"
  have "filter ?P (dropWhile (\<lambda>e. \<not> ?P e) xs) = filter ?P xs" for xs by (induction xs) auto
  moreover have "drop (next_readable t ab es j) es = dropWhile (\<lambda>e. \<not> ?P e) (drop j es)"
    by (simp add: next_readable_def dropWhile_eq_drop add.commute)
  ultimately show ?thesis by (simp add: reader_view_def)
qed

lemma keys_below_at:
  assumes "sorted_entries es" "n < length es" "0 < n \<Longrightarrow> ekey (es ! (n - 1)) \<noteq> ekey (es ! n)"
  shows "keys_below (take n es) (drop n es)"
  unfolding keys_below_def
proof (intro ballI)
  fix x y
  assume x: "x \<in> set (take n es)" and y: "y \<in> set (drop n es)"
  from x obtain i where i: "i < n" "x = es ! i" unfolding in_set_conv_nth by auto
  from y obtain j where "j < length (drop n es)" "y = drop n es ! j" unfolding in_set_conv_nth by blast
  then have j: "n + j < length es" "y = es ! (n + j)" by (simp_all add: less_diff_conv add.commute)
  have "ekey (es ! i) \<le> ekey (es ! (n - 1))" "ekey (es ! (n - 1)) \<le> ekey (es ! n)" "ekey (es ! n) \<le> ekey (es ! (n + j))"
    using i(1) j(1) assms(2) by (auto intro!: sorted_nth_key [OF assms(1)])
  with assms(3) i j show "ekey x < ekey y" by (auto intro: order.strict_trans1 order.strict_trans2 order.not_eq_order_implies_strict)
qed

lemma hits_view_drop:
  assumes "sorted_entries es" "first < length es" "hits pred (take first es) = []" "pred (ekey (es ! first)) = 0"
  shows "hits pred (reader_view keep t ab es) = hits pred (reader_view keep t ab (drop first es))"
proof -
  have "ekey (es ! (first - 1)) \<noteq> ekey (es ! first)" if "0 < first"
  proof -
    have "es ! (first - 1) \<in> set (take first es)"
      using that assms(2) unfolding in_set_conv_nth by (intro exI [of _ "first - 1"]) simp
    with assms(3) have "pred (ekey (es ! (first - 1))) \<noteq> 0" unfolding filter_empty_conv by blast
    with assms(4) show ?thesis by metis
  qed
  then have "keys_below (take first es) (drop first es)" by (rule keys_below_at [OF assms(1,2)])
  from reader_view_append [OF this, of keep t ab] no_hits_view [OF assms(3), of keep t ab] show ?thesis by simp
qed

section \<open>The hits of one block\<close>

lemma monotone_below:
  assumes "monotone_predicate pred" "a \<le> b"
  shows "pred a < 0 \<Longrightarrow> pred b < 0" "0 < pred b \<Longrightarrow> 0 < pred a"
  using assms unfolding monotone_predicate_def by blast+

text \<open>What the query of one block gives: no readable hit, or the two ends of the hits.\<close>

definition block_range ::
  "u64 \<Rightarrow> abort_check \<Rightarrow> (bytes \<Rightarrow> int) \<Rightarrow> entry list \<Rightarrow> (block_iter \<times> block_iter) option \<Rightarrow> bool" where
  "block_range t ab pred es r \<longleftrightarrow> (case r of
      None \<Rightarrow> hits pred (reader_view False t ab es) = []
    | Some (i, j) \<Rightarrow> \<exists>p first stop. block_holds (snd p) es \<and>
        i = biter_on p es t False ab first \<and> j = biter_on p es t False ab stop \<and>
        first \<le> stop \<and> stop \<le> length es \<and> next_readable t ab es first < stop \<and>
        hits pred (take first es) = [] \<and> hits pred (drop stop es) = [] \<and>
        (\<forall>m. first \<le> m \<and> m < stop \<longrightarrow> pred (ekey (es ! m)) = 0))"

lemma range_block_spec:
  assumes "block_holds (snd p) es" "sorted_entries es" "monotone_predicate pred"
  shows "\<exists>r. block_get_monotony_predicate_iters p t pred ab = Inr r \<and>
    block_range t ab pred es (case r of None \<Rightarrow> None | Some (i, j) \<Rightarrow> if biter_eq i j then None else Some (i, j))"
proof -
  obtain z where z: "block_predicate_zone (snd p) pred = Inr z"
    "case z of None \<Rightarrow> \<forall>e \<in> set es. pred (ekey e) \<noteq> 0
     | Some (first, stop) \<Rightarrow> first < stop \<and> stop \<le> length es \<and>
         (\<forall>j < length es. pred (ekey (es ! j)) = 0 \<longleftrightarrow> first \<le> j \<and> j < stop)"
    using block_predicate_zone_spec [OF assms] by blast
  show ?thesis
  proof (cases z)
    case None
    then have "hits pred es = []" using z(2) unfolding None option.case by (intro no_hits) blast
    with None z(1) no_hits_view [OF this] show ?thesis
      by (simp add: block_get_monotony_predicate_iters_def block_range_def)
  next
    case (Some fs)
    obtain f s where fs: "fs = (f, s)" by (cases fs)
    have r: "f < s" "s \<le> length es" "\<And>j. j < length es \<Longrightarrow> pred (ekey (es ! j)) = 0 \<longleftrightarrow> f \<le> j \<and> j < s"
      using z(2) unfolding Some fs by simp_all
    have pre: "hits pred (take f es) = []"
    proof (rule no_hits)
      fix e assume "e \<in> set (take f es)"
      then obtain j where "j < f" "j < length es" "e = es ! j" unfolding in_set_conv_nth by auto
      with r(3) [of j] show "pred (ekey e) \<noteq> 0" by simp
    qed
    have suf: "hits pred (drop s es) = []"
    proof (rule no_hits)
      fix e assume "e \<in> set (drop s es)"
      then obtain j where "j < length es - s" "e = es ! (s + j)" unfolding in_set_conv_nth by auto
      with r(3) [of "s + j"] show "pred (ekey e) \<noteq> 0" by simp
    qed
    let ?i = "biter_on p es t False ab f" and ?j = "biter_on p es t False ab s"
    have iters: "block_get_monotony_predicate_iters p t pred ab = Inr (Some (?i, ?j))"
      using z(1) biter_new_on [OF assms(1)] by (simp add: block_get_monotony_predicate_iters_def Some fs)
    have eq: "biter_eq ?i ?j \<longleftrightarrow> next_readable t ab es f = next_readable t ab es s"
      by (cases p) (simp add: biter_eq_def biter_on_def)
    show ?thesis
    proof (cases "biter_eq ?i ?j")
      case True
      have "s \<le> next_readable t ab es f" using True eq next_readable_bounds [OF r(2), of t ab] by simp
      then have N: "filter (\<lambda>e. readable t ab (etid e)) (drop f (take s es)) = []"
        by (rule no_readable_seg) (rule r(2))
      have "take f es @ drop f (take s es) = take s es"
        using append_take_drop_id [of f "take s es"] r(1) by (simp add: min_def)
      then have "es = take f es @ drop f (take s es) @ drop s es" by (metis append.assoc append_take_drop_id)
      then have S: "set es = set (take f es) \<union> set (drop f (take s es)) \<union> set (drop s es)"
        by (metis set_append Un_assoc)
      have "\<not> (readable t ab (etid e) \<and> pred (ekey e) = 0)" if "e \<in> set es" for e
        using that N pre suf unfolding S filter_empty_conv by blast
      then have "hits pred (filter (\<lambda>e. readable t ab (etid e)) es) = []"
        unfolding filter_empty_conv by simp
      then have "hits pred (reader_view False t ab es) = []"
        using dedup_set [of "filter (\<lambda>e. readable t ab (etid e)) es"]
        unfolding reader_view_def Let_def filter_empty_conv if_False by blast
      with iters True show ?thesis by (simp add: block_range_def)
    next
      case False
      have "next_readable t ab es f < s"
      proof (rule ccontr)
        assume "\<not> next_readable t ab es f < s"
        then have "next_readable t ab es s = next_readable t ab es f"
          using next_readable_bounds [of f es t ab] r(1,2) by (intro next_readable_past) simp_all
        with False eq show False by simp
      qed
      moreover have "\<forall>m. f \<le> m \<and> m < s \<longrightarrow> pred (ekey (es ! m)) = 0" using r(2,3) by simp
      ultimately have "\<exists>p first stop. block_holds (snd p) es \<and> ?i = biter_on p es t False ab first \<and> ?j = biter_on p es t False ab stop \<and>
         first \<le> stop \<and> stop \<le> length es \<and> next_readable t ab es first < stop \<and>
         hits pred (take first es) = [] \<and> hits pred (drop stop es) = [] \<and>
         (\<forall>m. first \<le> m \<and> m < stop \<longrightarrow> pred (ekey (es ! m)) = 0)"
        using r(1,2) pre suf assms(1) by (intro exI [of _ p] exI [of _ f] exI [of _ s]) simp
      then show ?thesis
        unfolding iters using False by (intro exI [of _ "Some (?i, ?j)"] conjI refl)
          (simp only: option.case prod.case if_False block_range_def)
    qed
  qed
qed

section \<open>The hits of the SST\<close>

text \<open>The state of the loop before block \<open>idx\<close>.\<close>

definition range_acc ::
  "sst \<Rightarrow> entry list list \<Rightarrow> u64 \<Rightarrow> abort_check \<Rightarrow> (bytes \<Rightarrow> int) \<Rightarrow> nat \<Rightarrow> (sst_iter \<times> sst_iter) option \<Rightarrow> bool" where
  "range_acc s ess t ab pred idx acc \<longleftrightarrow> (case acc of
      None \<Rightarrow> hits pred (blocks_view False t ab (take idx ess)) = []
    | Some (b, e) \<Rightarrow>
        (\<exists>p i j q k l. in_block ess t ab p i j \<and>
          b = sit_place s t False ab (i, Some (biter_on p (ess ! i) t False ab j)) \<and>
          hits pred (rest_view t False ab ess i j) = hits pred (blocks_view False t ab ess) \<and>
          pred (ekey (ess ! i ! next_readable t ab (ess ! i) j)) = 0 \<and>
          k < idx \<and> k < length ess \<and> block_holds (snd q) (ess ! k) \<and> l \<le> length (ess ! k) \<and>
          e = sit_place s t False ab (k, Some (biter_on q (ess ! k) t False ab l)) \<and>
          hits pred (drop l (ess ! k)) = [] \<and>
          hits pred (blocks_view False t ab (drop (Suc k) (take idx ess))) = []))"

lemma take_Suc_view:
  "idx < length ess \<Longrightarrow> blocks_view keep t ab (take (Suc idx) ess) = blocks_view keep t ab (take idx ess) @ reader_view keep t ab (ess ! idx)"
  by (simp add: take_Suc_conv_app_nth blocks_view_def)

lemma range_acc_skip:
  assumes "range_acc s ess t ab pred idx acc" "idx < length ess"
    "hits pred (reader_view False t ab (ess ! idx)) = []"
  shows "range_acc s ess t ab pred (Suc idx) acc"
proof (cases acc)
  case None
  with assms show ?thesis by (simp add: range_acc_def take_Suc_view)
next
  case (Some be)
  obtain b e where be: "be = (b, e)" by (cases be)
  have ext: "hits pred (blocks_view False t ab (drop (Suc k) (take (Suc idx) ess))) = []"
    if "k < idx" "hits pred (blocks_view False t ab (drop (Suc k) (take idx ess))) = []" for k
  proof -
    have "drop (Suc k) (take (Suc idx) ess) = drop (Suc k) (take idx ess) @ [ess ! idx]"
      using that(1) assms(2) by (simp add: take_Suc_conv_app_nth)
    then show ?thesis using that(2) assms(3) by (simp add: blocks_view_def)
  qed
  from assms(1) show ?thesis
    unfolding range_acc_def Some be option.case prod.case using ext less_SucI by blast
qed

lemma range_acc_hit:
  assumes "range_acc s ess t ab pred idx acc" "idx < length ess" "block_holds (snd p) (ess ! idx)"
    "first \<le> stop" "stop \<le> length (ess ! idx)" "next_readable t ab (ess ! idx) first < stop"
    "hits pred (take first (ess ! idx)) = []" "hits pred (drop stop (ess ! idx)) = []"
    "\<And>m. first \<le> m \<Longrightarrow> m < stop \<Longrightarrow> pred (ekey (ess ! idx ! m)) = 0" "sst_blocks ess"
  defines "at \<equiv> (\<lambda>j. sit_place s t False ab (idx, Some (biter_on p (ess ! idx) t False ab j)))"
  shows "range_acc s ess t ab pred (Suc idx) (Some (case acc of None \<Rightarrow> at first | Some (b, _) \<Rightarrow> b, at stop))"
proof -
  let ?es = "ess ! idx"
  have ends: "hits pred (blocks_view False t ab (drop (Suc idx) (take (Suc idx) ess))) = []"
    by (simp add: blocks_view_def)
  have hit: "pred (ekey (?es ! next_readable t ab ?es first)) = 0"
    using assms(4-6,9) next_readable_bounds [of first ?es t ab] by simp
  show ?thesis
  proof (cases acc)
    case None
    have ib: "in_block ess t ab p idx first"
      using assms(2-6) by (simp add: in_block_def)
    have "sorted_entries ?es" using sst_block_sorted [OF assms(10,2)] by simp
    then have "hits pred (reader_view False t ab ?es) = hits pred (reader_view False t ab (drop first ?es))"
      using assms(4-6,9) next_readable_bounds [of first ?es t ab] by (intro hits_view_drop assms(7)) simp_all
    moreover have "hits pred (blocks_view False t ab (take idx ess)) = []"
      using assms(1) None by (simp add: range_acc_def)
    moreover have "ess = take idx ess @ ess ! idx # drop (Suc idx) ess" by (rule id_take_nth_drop [OF assms(2)])
    then have "blocks_view False t ab ess = blocks_view False t ab (take idx ess) @
        reader_view False t ab ?es @ blocks_view False t ab (drop (Suc idx) ess)"
      by (metis blocks_view_append blocks_view_def concat.simps(2) list.map(2))
    ultimately have "hits pred (rest_view t False ab ess idx first) = hits pred (blocks_view False t ab ess)"
      by (simp add: rest_view_def)
    with ib hit ends assms(2,3,5,8) show ?thesis
      unfolding range_acc_def None option.case prod.case at_def by blast
  next
    case (Some be)
    obtain b e where be: "be = (b, e)" by (cases be)
    from assms(1) obtain q i j where b: "in_block ess t ab q i j"
      "b = sit_place s t False ab (i, Some (biter_on q (ess ! i) t False ab j))"
      "hits pred (rest_view t False ab ess i j) = hits pred (blocks_view False t ab ess)"
      "pred (ekey (ess ! i ! next_readable t ab (ess ! i) j)) = 0"
      unfolding range_acc_def Some be option.case prod.case by blast
    with ends assms(2,3,5,8) show ?thesis
      unfolding range_acc_def Some be option.case prod.case at_def by blast
  qed
qed

section \<open>The loop over the blocks\<close>

lemma range_block_cspec:
  assumes "sst_shows hash C s ess" "idx < length ess" "monotone_predicate pred"
  shows "spec (store_holds C) (sst_range_block s t pred ab idx) (block_range t ab pred (ess ! idx))"
  unfolding sst_range_block_def
proof (rule spec_bind [OF sst_read_block_spec [OF assms(1,2)]])
  fix p :: "nat \<times> block"
  assume p: "block_holds (snd p) (ess ! idx)"
  from range_block_spec [OF p sst_shows_blocks(3) [OF assms(1,2)] assms(3), of t ab]
  show "spec (store_holds C) (cbind (clift (block_get_monotony_predicate_iters p t pred ab)) (\<lambda>range.
       cret (case range of None \<Rightarrow> None | Some (i, j) \<Rightarrow> if biter_eq i j then None else Some (i, j))))
     (block_range t ab pred (ess ! idx))"
    by (elim exE conjE) (simp only: cbind_simps spec_ret)
qed

text \<open>Pruning by the meta entries. The empty key of commit marks is never asked for.\<close>

lemma pruned_right:
  assumes "sst_blocks ess" "idx < length ess" "monotone_predicate pred" "0 < pred []"
    "pred (first_nonempty (concat (drop idx ess))) < 0" "idx \<le> j" "j < length ess"
  shows "hits pred (ess ! j) = []"
proof (rule no_hits)
  fix e assume e: "e \<in> set (ess ! j)"
  show "pred (ekey e) \<noteq> 0"
  proof (cases "ekey e = []")
    case False
    from meta_first_key_le [OF assms(1,6,7) e False] monotone_below(1) [OF assms(3)] assms(5)
    have "pred (ekey e) < 0" by blast
    then show ?thesis by simp
  qed (use assms(4) in simp)
qed

lemma pruned_left:
  assumes "sst_blocks ess" "idx < length ess" "monotone_predicate pred" "0 < pred (ekey (last (ess ! idx)))"
  shows "hits pred (ess ! idx) = []"
proof (rule no_hits)
  fix e assume e: "e \<in> set (ess ! idx)"
  from sst_block_last(1) [OF assms(1,2) e] monotone_below(2) [OF assms(3)] assms(4)
  have "0 < pred (ekey e)" by blast
  then show "pred (ekey e) \<noteq> 0" by simp
qed

lemma range_acc_stop:
  assumes "range_acc s ess t ab pred idx acc" "idx \<le> length ess"
    "\<And>j. idx \<le> j \<Longrightarrow> j < length ess \<Longrightarrow> hits pred (ess ! j) = []"
  shows "range_acc s ess t ab pred (length ess) acc"
  using assms
proof (induction "length ess - idx" arbitrary: idx)
  case (Suc n)
  then have "range_acc s ess t ab pred (Suc idx) acc"
    by (intro range_acc_skip no_hits_view) simp_all
  with Suc show ?case by (intro Suc.hyps(1) [of "Suc idx"]) simp_all
qed simp

lemma range_loop_spec:
  assumes "sst_shows hash C s ess" "monotone_predicate pred" "0 < pred []"
    "range_acc s ess t ab pred idx acc" "idx \<le> length ess"
  shows "spec (store_holds C) (sst_range_loop s t pred ab idx acc) (\<lambda>acc'. range_acc s ess t ab pred (length ess) acc')"
  using assms(4,5)
proof (induction "length ess - idx" arbitrary: idx acc)
  case 0
  then have "idx = length ess" by simp
  with 0 show ?case
    using sst_shows_blocks(1) [OF assms(1)] by (subst sst_range_loop.simps) (simp add: spec_ret)
next
  case (Suc n)
  then have idx: "idx < length ess" "n = length ess - Suc idx" by auto
  note B = sst_shows_blocks [OF assms(1)]
  have L: "sst_layout hash s ess" using assms(1) by (simp add: sst_shows_def)
  note M = sst_layout_meta [OF L idx(1)]
  have next_block: "spec (store_holds C) (sst_range_loop s t pred ab (Suc idx) acc')
      (\<lambda>acc'. range_acc s ess t ab pred (length ess) acc')" if "range_acc s ess t ab pred (Suc idx) acc'" for acc'
    using Suc(1) [OF idx(2) that] idx(1) by simp
  show ?case
  proof (cases "pred (first_nonempty (concat (drop idx ess))) < 0")
    case True
    have "range_acc s ess t ab pred (length ess) acc"
      by (rule range_acc_stop [OF Suc(3,4) pruned_right [OF B(2) idx(1) assms(2,3) True]])
    with True idx(1) show ?thesis by (subst sst_range_loop.simps) (simp add: B(1) M spec_ret)
  next
    case right: False
    show ?thesis
    proof (cases "0 < pred (ekey (last (ess ! idx)))")
      case True
      have "range_acc s ess t ab pred (Suc idx) acc"
        by (rule range_acc_skip [OF Suc(3) idx(1) no_hits_view [OF pruned_left [OF B(2) idx(1) assms(2) True]]])
      from next_block [OF this] right True idx(1) show ?thesis
        by (subst sst_range_loop.simps) (simp add: B(1) M)
    next
      case False
      have "spec (store_holds C) (cbind (sst_range_block s t pred ab idx) (\<lambda>range. case range of
          None \<Rightarrow> sst_range_loop s t pred ab (Suc idx) acc
        | Some (i, j) \<Rightarrow> sst_range_loop s t pred ab (Suc idx)
            (Some (case acc of None \<Rightarrow> sit_place s t False ab (idx, Some i) | Some (b, _) \<Rightarrow> b,
              sit_place s t False ab (idx, Some j)))))
          (\<lambda>acc'. range_acc s ess t ab pred (length ess) acc')"
      proof (rule spec_bind [OF range_block_cspec [OF assms(1) idx(1) assms(2)]])
        fix r
        assume r: "block_range t ab pred (ess ! idx) r"
        show "spec (store_holds C) (case r of
          None \<Rightarrow> sst_range_loop s t pred ab (Suc idx) acc
        | Some (i, j) \<Rightarrow> sst_range_loop s t pred ab (Suc idx)
            (Some (case acc of None \<Rightarrow> sit_place s t False ab (idx, Some i) | Some (b, _) \<Rightarrow> b,
              sit_place s t False ab (idx, Some j))))
          (\<lambda>acc'. range_acc s ess t ab pred (length ess) acc')"
        proof (cases r)
          case None
          with r show ?thesis by (simp add: next_block range_acc_skip [OF Suc(3) idx(1)] block_range_def)
        next
          case (Some ij)
          obtain i j where ij: "ij = (i, j)" by (cases ij)
          from r obtain p first stop where z: "block_holds (snd p) (ess ! idx)"
            "i = biter_on p (ess ! idx) t False ab first" "j = biter_on p (ess ! idx) t False ab stop"
            "first \<le> stop" "stop \<le> length (ess ! idx)" "next_readable t ab (ess ! idx) first < stop"
            "hits pred (take first (ess ! idx)) = []" "hits pred (drop stop (ess ! idx)) = []"
            "\<And>m. first \<le> m \<Longrightarrow> m < stop \<Longrightarrow> pred (ekey (ess ! idx ! m)) = 0"
            unfolding Some ij option.case prod.case block_range_def by blast
          from range_acc_hit [OF Suc(3) idx(1) z(1,4-9) B(2)] show ?thesis
            unfolding Some ij option.case prod.case z(2,3) by (rule next_block)
        qed
      qed
      with False right idx(1) show ?thesis
        by (subst sst_range_loop.simps)
          (simp add: B(1) M sit_place_def Let_def cong: option.case_cong prod.case_cong)
    qed
  qed
qed

section \<open>The two iterators\<close>

lemma sit_eq_same_rest:
  assumes "sit_shows s ess t keep ab x xs" "sit_shows s ess t keep ab y ys" "sit_eq x y"
  shows "xs = ys"
proof -
  have nn: "\<not> sit_eq (sit_place s t keep ab (i, None)) (sit_place s t keep ab (j, Some b))"
    "\<not> sit_eq (sit_place s t keep ab (j, Some b)) (sit_place s t keep ab (i, None))" for i j b
    by (simp_all add: sit_eq_def)
  have "rest_view t keep ab ess i j = rest_view t keep ab ess i' j'"
    if "sit_eq (sit_place s t keep ab (i, Some (biter_on p (ess ! i) t keep ab j)))
       (sit_place s t keep ab (i', Some (biter_on q (ess ! i') t keep ab j')))" for p q i j i' j'
  proof -
    have "i = i'" using that by (simp add: sit_eq_def)
    moreover from this that have "next_readable t ab (ess ! i) j = next_readable t ab (ess ! i) j'"
      by (cases p; cases q) (simp add: sit_eq_def biter_eq_def biter_on_def)
    then have "reader_view keep t ab (drop j (ess ! i)) = reader_view keep t ab (drop j' (ess ! i))"
      by (metis reader_view_from_next)
    ultimately show ?thesis by (simp add: rest_view_def)
  qed
  note rest = this
  consider "x = sit_place s t keep ab (length ess, None)" "xs = []"
    | (x_in) p i j where "xs = rest_view t keep ab ess i j"
        "x = sit_place s t keep ab (i, Some (biter_on p (ess ! i) t keep ab j))"
    using assms(1) unfolding sit_shows_def by blast
  then show ?thesis
  proof cases
    case 1
    with assms(2,3) nn show ?thesis unfolding sit_shows_def by auto
  next
    case x_in
    consider "y = sit_place s t keep ab (length ess, None)"
      | (y_in) q i' j' where "ys = rest_view t keep ab ess i' j'"
          "y = sit_place s t keep ab (i', Some (biter_on q (ess ! i') t keep ab j'))"
      using assms(2) unfolding sit_shows_def by blast
    then show ?thesis
    proof cases
      case 1
      with assms(3) x_in(2) nn show ?thesis by simp
    next
      case y_in
      have "sit_eq (sit_place s t keep ab (i, Some (biter_on p (ess ! i) t keep ab j)))
         (sit_place s t keep ab (i', Some (biter_on q (ess ! i') t keep ab j')))"
        using assms(3) unfolding x_in(2) y_in(2) .
      from rest [OF this] show ?thesis unfolding x_in(1) y_in(1) .
    qed
  qed
qed

definition range_ends ::
  "sst \<Rightarrow> entry list list \<Rightarrow> u64 \<Rightarrow> abort_check \<Rightarrow> (bytes \<Rightarrow> int) \<Rightarrow> sst_iter \<times> sst_iter \<Rightarrow> bool" where
  "range_ends s ess t ab pred be \<longleftrightarrow> (\<exists>v vs ws.
     sit_shows s ess t False ab (fst be) (v # vs) \<and> sit_shows s ess t False ab (snd be) ws \<and>
     pred (ekey v) = 0 \<and> hits pred ws = [] \<and>
     hits pred (v # vs) = hits pred (reader_view False t ab (concat ess)))"

lemma sst_iters_spec [spec_intro]:
  assumes "sst_shows hash C s ess" "monotone_predicate pred" "0 < pred []"
  shows "spec (store_holds C) (sst_iters_monotony_predicate (Some s) t pred ab) (\<lambda>r. case r of
      None \<Rightarrow> hits pred (reader_view False t ab (concat ess)) = []
    | Some be \<Rightarrow> range_ends s ess t ab pred be)"
proof -
  note B = sst_shows_blocks [OF assms(1)]
  have V: "blocks_view False t ab ess = reader_view False t ab (concat ess)"
    using B(2) blocks_view_concat by (simp add: sst_blocks_def)
  have start: "range_acc s ess t ab pred 0 None" by (simp add: range_acc_def blocks_view_def)
  show ?thesis
    unfolding sst_iters_monotony_predicate_def option.case
  proof (rule spec_bind [OF range_loop_spec [OF assms start]])
    fix r
    assume r: "range_acc s ess t ab pred (length ess) r"
    show "spec (store_holds C) (case r of None \<Rightarrow> cret None
        | Some (b, e) \<Rightarrow> cbind (clift (case sit_block_it e of None \<Rightarrow> Inl Undefined | Some bi \<Rightarrow> biter_is_end bi))
            (\<lambda>at_end. if at_end then cbind (sit_next e) (\<lambda>e'. cret (Some (b, e'))) else cret (Some (b, e))))
      (\<lambda>r. case r of
        None \<Rightarrow> hits pred (reader_view False t ab (concat ess)) = []
      | Some be \<Rightarrow> range_ends s ess t ab pred be)"
    proof (cases r)
      case None
      with r show ?thesis by (simp add: range_acc_def V spec_ret)
    next
      case (Some be)
      obtain b e where be: "be = (b, e)" by (cases be)
      from r obtain p i j q k l where b: "in_block ess t ab p i j"
        "b = sit_place s t False ab (i, Some (biter_on p (ess ! i) t False ab j))"
        "hits pred (rest_view t False ab ess i j) = hits pred (blocks_view False t ab ess)"
        "pred (ekey (ess ! i ! next_readable t ab (ess ! i) j)) = 0"
        and e: "k < length ess" "block_holds (snd q) (ess ! k)" "l \<le> length (ess ! k)"
        "e = sit_place s t False ab (k, Some (biter_on q (ess ! k) t False ab l))"
        "hits pred (drop l (ess ! k)) = []"
        "hits pred (blocks_view False t ab (drop (Suc k) ess)) = []"
        unfolding range_acc_def Some be option.case prod.case take_all [OF order.refl] by blast
      define m where "m = next_key (ess ! i) (ekey (ess ! i ! next_readable t ab (ess ! i) j)) (Suc (next_readable t ab (ess ! i) j))"
      have hit: "rest_view t False ab ess i j = ess ! i ! next_readable t ab (ess ! i) j # rest_view t False ab ess i m"
        using b(1) reader_view_hit(1) [OF B(3), of i t ab j False] by (simp add: in_block_def rest_view_def m_def)
      have bs: "sit_shows s ess t False ab b (ess ! i ! next_readable t ab (ess ! i) j # rest_view t False ab ess i m)"
        unfolding sit_shows_def hit [symmetric] using b(1,2) by blast
      have ends: "range_ends s ess t ab pred (b, e')" if "sit_shows s ess t False ab e' ws" "hits pred ws = []" for e' ws
        unfolding range_ends_def fst_conv snd_conv using bs that b(3,4) V hit by metis
      note E = biter_end_on(1) [OF e(2,3), of t False ab]
      show ?thesis
      proof (cases "next_readable t ab (ess ! k) l = length (ess ! k)")
        case True
        have "biter_next (biter_on q (ess ! k) t False ab l) = Inr (biter_on q (ess ! k) t False ab l)"
          using True biter_end_on(2) [OF e(2,3)] by (cases q) (simp add: biter_next_def biter_on_def)
        then have nx: "sit_next e = cbind (seek_from s t False ab (Suc k)) (\<lambda>(idx, bi). cret (sit_place s t False ab (idx, bi)))"
          using E True by (simp add: sit_next_def e(4))
        have "spec (store_holds C) (sit_next e) (\<lambda>e'. sit_shows s ess t False ab e' (blocks_view False t ab (drop (Suc k) ess)))"
          unfolding nx using e(1) by (intro spec_place seek_from_spec [OF assms(1)]) simp
        then have "spec (store_holds C) (cbind (sit_next e) (\<lambda>e'. cret (Some (b, e')))) (\<lambda>r. case r of
            None \<Rightarrow> hits pred (reader_view False t ab (concat ess)) = []
          | Some be \<Rightarrow> range_ends s ess t ab pred be)"
          by (rule spec_bind) (use ends e(6) in \<open>simp add: spec_ret\<close>)
        with True E show ?thesis unfolding Some be by (simp add: e(4))
      next
        case False
        have "next_readable t ab (ess ! k) l \<le> length (ess ! k)" using next_readable_bounds [OF e(3)] by simp
        with False e(1-3) have "in_block ess t ab q k l" by (simp add: in_block_def)
        then have "sit_shows s ess t False ab e (rest_view t False ab ess k l)"
          unfolding sit_shows_def using e(4) by blast
        moreover have "hits pred (rest_view t False ab ess k l) = []"
          using no_hits_view [OF e(5)] e(6) by (simp add: rest_view_def)
        ultimately have "range_ends s ess t ab pred (b, e)" by (rule ends)
        with False E show ?thesis unfolding Some be by (simp add: e(4) spec_ret)
      qed
    qed
  qed simp
qed

end
