(* ===== verification/Wal_Record.thy ===== *)
theory Wal_Record
  imports Kopi_Prelude
begin

text \<open>
  Records of the write-ahead log (src/src/wal/record.cpp): the five factories with their
  length checks, the byte layout, and the decoder of a sequence of records, which checks every
  read against the end of its record.
\<close>

section \<open>Records\<close>

datatype operation_type = OP_CREATE | OP_COMMIT | OP_ROLLBACK | OP_PUT | OP_DELETE

record wal_record =
  wr_tranc_id :: u64
  wr_operation_type :: operation_type
  wr_key :: bytes
  wr_value :: bytes
  wr_record_len :: u16

definition createRecord :: "u64 \<Rightarrow> wal_record" where
  "createRecord tid = \<lparr>wr_tranc_id = tid, wr_operation_type = OP_CREATE, wr_key = [], wr_value = [],
     wr_record_len = 2 + 8 + 1\<rparr>"

definition commitRecord :: "u64 \<Rightarrow> wal_record" where
  "commitRecord tid = \<lparr>wr_tranc_id = tid, wr_operation_type = OP_COMMIT, wr_key = [], wr_value = [],
     wr_record_len = 2 + 8 + 1\<rparr>"

definition rollbackRecord :: "u64 \<Rightarrow> wal_record" where
  "rollbackRecord tid = \<lparr>wr_tranc_id = tid, wr_operation_type = OP_ROLLBACK, wr_key = [], wr_value = [],
     wr_record_len = 2 + 8 + 1\<rparr>"

definition putRecord :: "u64 \<Rightarrow> bytes \<Rightarrow> bytes \<Rightarrow> wal_record result" where
  "putRecord tid k v =
     (if 65535 < length k \<or> 65535 < length v then Inl Length_Error
      else
        let total_length = (2 + 8 + 1 + 2 + 2) + length k + length v
        in if 65535 < total_length then Inl Length_Error
           else Inr \<lparr>wr_tranc_id = tid, wr_operation_type = OP_PUT, wr_key = k, wr_value = v,
                  wr_record_len = of_nat total_length\<rparr>)"

definition deleteRecord :: "u64 \<Rightarrow> bytes \<Rightarrow> wal_record result" where
  "deleteRecord tid k =
     (if 65535 < length k then Inl Length_Error
      else
        let total_length = (2 + 8 + 1 + 2) + length k
        in if 65535 < total_length then Inl Length_Error
           else Inr \<lparr>wr_tranc_id = tid, wr_operation_type = OP_DELETE, wr_key = k, wr_value = [],
                  wr_record_len = of_nat total_length\<rparr>)"

fun record_eq :: "wal_record \<Rightarrow> wal_record \<Rightarrow> bool" where
  "record_eq a b =
     (if wr_tranc_id a \<noteq> wr_tranc_id b \<or> wr_operation_type a \<noteq> wr_operation_type b then False
      else if wr_operation_type a = OP_CREATE \<or> wr_operation_type a = OP_COMMIT \<or>
              wr_operation_type a = OP_ROLLBACK then True
      else if wr_operation_type a = OP_DELETE then wr_key a = wr_key b
      else wr_key a = wr_key b \<and> wr_value a = wr_value b)"

section \<open>Encoding\<close>

fun op_code :: "operation_type \<Rightarrow> byte" where
  "op_code OP_CREATE = 0" | "op_code OP_COMMIT = 1" | "op_code OP_ROLLBACK = 2"
| "op_code OP_PUT = 3" | "op_code OP_DELETE = 4"

definition append_string :: "bytes \<Rightarrow> bytes" where
  "append_string text = le_write 2 (of_nat (length text) :: u16) @ text"

definition record_encode :: "wal_record \<Rightarrow> bytes" where
  "record_encode r =
     le_write 2 (wr_record_len r) @ le_write 8 (wr_tranc_id r) @ [op_code (wr_operation_type r)]
     @ (if wr_operation_type r = OP_PUT \<or> wr_operation_type r = OP_DELETE
        then append_string (wr_key r) else [])
     @ (if wr_operation_type r = OP_PUT then append_string (wr_value r) else [])"

section \<open>Decoding\<close>

definition read_uint :: "bytes \<Rightarrow> nat \<Rightarrow> nat \<Rightarrow> nat \<Rightarrow> (u64 \<times> nat) result" where
  "read_uint data pos byte_count stop =
     (if stop - pos < byte_count then Inl Runtime_Error
      else Inr (le_read (take byte_count (drop pos data)), pos + byte_count))"

definition read_string :: "bytes \<Rightarrow> nat \<Rightarrow> nat \<Rightarrow> (bytes \<times> nat) result" where
  "read_string data pos record_end =
     ebind (read_uint data pos 2 record_end) (\<lambda>(n, pos).
       let len = unat n
       in if record_end - pos < len then Inl Runtime_Error
          else Inr (take len (drop pos data), pos + len))"

definition op_of_code :: "u64 \<Rightarrow> operation_type option" where
  "op_of_code c = (if c = 0 then Some OP_CREATE else if c = 1 then Some OP_COMMIT
     else if c = 2 then Some OP_ROLLBACK else if c = 3 then Some OP_PUT
     else if c = 4 then Some OP_DELETE else None)"

definition read_payload ::
  "bytes \<Rightarrow> nat \<Rightarrow> nat \<Rightarrow> operation_type \<Rightarrow> (bytes \<times> bytes \<times> nat) result" where
  "read_payload data pos record_end op = (case op of
      OP_PUT \<Rightarrow>
        ebind (read_string data pos record_end) (\<lambda>(k, pos).
        ebind (read_string data pos record_end) (\<lambda>(v, pos). Inr (k, v, pos)))
    | OP_DELETE \<Rightarrow> ebind (read_string data pos record_end) (\<lambda>(k, pos). Inr (k, [], pos))
    | _ \<Rightarrow> Inr ([], [], pos))"

definition read_record :: "bytes \<Rightarrow> nat \<Rightarrow> (wal_record \<times> nat) result" where
  "read_record data record_start =
     ebind (read_uint data record_start 2 (length data)) (\<lambda>(n, pos).
       let record_len = (ucast n :: u16)
       in if unat record_len < 11 \<or> length data - record_start < unat record_len
          then Inl Runtime_Error
          else
            let record_end = record_start + unat record_len
            in ebind (read_uint data pos 8 record_end) (\<lambda>(tid, pos).
               ebind (read_uint data pos 1 record_end) (\<lambda>(code, pos).
                 case op_of_code code of
                   None \<Rightarrow> Inl Runtime_Error
                 | Some op \<Rightarrow>
                     ebind (read_payload data pos record_end op) (\<lambda>(k, v, pos).
                       if pos \<noteq> record_end then Inl Runtime_Error
                       else Inr (\<lparr>wr_tranc_id = tid, wr_operation_type = op, wr_key = k, wr_value = v,
                                   wr_record_len = record_len\<rparr>, pos)))))"

lemma read_record_advances:
  assumes "read_record data pos = Inr (r, pos')"
  shows "pos + 11 \<le> pos' \<and> pos' \<le> length data \<and> pos' = pos + unat (wr_record_len r)"
proof -
  have "pos + 11 \<le> length data" if "unat (w :: u16) \<ge> 11" "\<not> length data - pos < unat w" for w
    using that by simp
  with assms show ?thesis
    by (auto simp: read_record_def ebind_Inr_conv Let_def not_less split: if_splits option.splits)
qed

function decode_from :: "bytes \<Rightarrow> nat \<Rightarrow> wal_record list result" where
  "decode_from data pos =
     (if pos < length data then
        ebind (read_record data pos) (\<lambda>x. case x of (r, pos') \<Rightarrow>
        ebind (decode_from data pos') (\<lambda>rs. Inr (r # rs)))
      else Inr [])"
  by pat_completeness auto
termination
  by (relation "measure (\<lambda>(data, pos). length data - pos)") (auto dest!: read_record_advances)

declare decode_from.simps [simp del]

definition record_decode :: "bytes \<Rightarrow> wal_record list result" where
  "record_decode data = decode_from data 0"

section \<open>Well-formed records\<close>

definition record_ok :: "wal_record \<Rightarrow> bool" where
  "record_ok r \<longleftrightarrow> unat (wr_record_len r) = length (record_encode r) \<and>
     length (wr_key r) \<le> 65535 \<and> length (wr_value r) \<le> 65535 \<and>
     (wr_operation_type r \<noteq> OP_PUT \<longrightarrow> wr_value r = []) \<and>
     (wr_operation_type r \<noteq> OP_PUT \<and> wr_operation_type r \<noteq> OP_DELETE \<longrightarrow> wr_key r = [])"

lemma unat_len_u16: "n \<le> 65535 \<Longrightarrow> unat (of_nat n :: u16) = n"
  by (simp add: unsigned_of_nat take_bit_nat_eq_self)

lemma factories_ok:
  "record_ok (createRecord t)" "record_ok (commitRecord t)" "record_ok (rollbackRecord t)"
  "putRecord t k v = Inr r \<Longrightarrow> record_ok r" "deleteRecord t k = Inr r \<Longrightarrow> record_ok r"
  by (auto simp: record_ok_def createRecord_def commitRecord_def rollbackRecord_def putRecord_def
      deleteRecord_def record_encode_def append_string_def Let_def unat_len_u16
      simp del: of_nat_add of_nat_numeral split: if_splits)

lemma length_record_encode:
  "11 \<le> length (record_encode r)"
  by (simp add: record_encode_def)

section \<open>Reading what was written\<close>

lemma read_uint_write:
  assumes "drop pos data = le_write n (w :: 'a::len word) @ rest" "pos + n \<le> stop"
    "LENGTH('a) \<le> 8 * n" "8 * n \<le> 64"
  shows "read_uint data pos n stop = Inr (ucast w, pos + n)"
proof -
  have "(le_read (le_write n w) :: u64) = ucast w"
  proof (rule bit_word_eqI)
    fix m assume m: "m < LENGTH(64)"
    have "bit w m \<Longrightarrow> m < 8 * n" using bit_imp_le_length [of w m] assms(3) by simp
    then show "bit (le_read (le_write n w) :: u64) m = bit (ucast w :: u64) m"
      using m by (auto simp: le_read_def bit_le_read_from nth_le_write bit_ucast_iff bit_drop_bit_eq)
  qed
  with assms(1,2) show ?thesis by (simp add: read_uint_def)
qed

lemma read_string_write:
  assumes "drop pos data = append_string text @ rest" "pos + 2 + length text \<le> stop" "length text \<le> 65535"
  shows "read_string data pos stop = Inr (text, pos + 2 + length text)"
proof -
  have "read_uint data pos 2 stop = Inr (ucast (of_nat (length text) :: u16), pos + 2)"
    using assms(1,2) by (intro read_uint_write [where rest = "text @ rest"]) (simp_all add: append_string_def)
  moreover have "unat (ucast (of_nat (length text) :: u16) :: u64) = length text"
    using assms(3) by (simp add: unsigned_ucast_eq unat_len_u16 unsigned_of_nat take_bit_nat_eq_self)
  moreover have "drop (pos + 2) data = text @ rest"
  proof -
    have "drop (pos + 2) data = drop 2 (drop pos data)" by (simp add: add.commute)
    then show ?thesis unfolding assms(1) append_string_def by simp
  qed
  ultimately show ?thesis using assms(2) by (simp add: read_string_def Let_def)
qed

lemma op_of_code_op_code: "op_of_code (ucast (op_code op)) = Some op"
  by (cases op) (simp_all add: op_of_code_def)

lemma u16_u64: "ucast (ucast (w :: u16) :: u64) = w"
  by (rule bit_word_eqI) (auto simp: bit_ucast_iff)

lemma drop_plus: "drop (m + n) xs = drop n (drop m xs)"
  by (simp add: add.commute)

lemma drop_part: "drop pos data = xs @ ys \<Longrightarrow> drop (pos + length xs) data = ys"
  by (simp add: drop_plus)

lemma read_record_encode:
  assumes d: "drop pos data = record_encode r @ rest" and ok: "record_ok r"
  shows "read_record data pos = Inr (r, pos + length (record_encode r))"
proof -
  let ?L = "length (record_encode r)" and ?op = "wr_operation_type r"
  have L: "unat (wr_record_len r) = ?L" "11 \<le> ?L" "length (wr_key r) \<le> 65535" "length (wr_value r) \<le> 65535"
    using ok length_record_encode by (auto simp: record_ok_def)
  have len: "length data - pos = ?L + length rest"
    using arg_cong [OF d, of length] by simp
  then have len': "length data = pos + ?L + length rest" using L(2) by simp
  define payload where "payload = (if ?op = OP_PUT \<or> ?op = OP_DELETE then append_string (wr_key r) else [])
     @ (if ?op = OP_PUT then append_string (wr_value r) else [])"
  have enc: "record_encode r = le_write 2 (wr_record_len r) @ le_write 8 (wr_tranc_id r) @ [op_code ?op] @ payload"
    by (simp add: record_encode_def payload_def)
  have pl: "?L = 11 + length payload" by (simp add: enc)
  have d2: "drop (pos + 2) data = le_write 8 (wr_tranc_id r) @ [op_code ?op] @ payload @ rest"
    using drop_part [of pos data "le_write 2 (wr_record_len r)"] d by (simp add: enc)
  have d10: "drop (pos + 10) data = [op_code ?op] @ payload @ rest"
    using drop_part [of "pos + 2" data "le_write 8 (wr_tranc_id r)"] d2 by (simp add: add.commute)
  have d11: "drop (pos + 11) data = payload @ rest"
    using drop_part [of "pos + 10" data "[op_code ?op]"] d10 by (simp add: add.commute)
  have r1: "read_uint data pos 2 (length data) = Inr (ucast (wr_record_len r), pos + 2)"
    using d len' L(2) by (intro read_uint_write [where rest = "drop 2 (record_encode r) @ rest"]) (simp_all add: enc)
  have r2: "read_uint data (pos + 2) 8 (pos + ?L) = Inr (wr_tranc_id r, pos + 10)"
    using read_uint_write [OF d2, of "pos + ?L"] pl by (simp add: add.commute)
  have r3: "read_uint data (pos + 10) 1 (pos + ?L) = Inr (ucast (op_code ?op), pos + 11)"
  proof -
    have "drop (pos + 10) data = le_write 1 (op_code ?op) @ payload @ rest" using d10 by simp
    from read_uint_write [OF this, of "pos + ?L"] pl show ?thesis by (simp add: add.commute)
  qed
  have r4: "read_payload data (pos + 11) (pos + ?L) ?op = Inr (wr_key r, wr_value r, pos + ?L)"
  proof -
    have k: "read_string data (pos + 11) (pos + ?L) = Inr (wr_key r, pos + 11 + 2 + length (wr_key r))"
      if "?op = OP_PUT \<or> ?op = OP_DELETE"
      using d11 pl L(3) that unfolding payload_def
      by (intro read_string_write [where rest = "(if ?op = OP_PUT then append_string (wr_value r) else []) @ rest"])
        (auto simp: append_string_def)
    have v: "read_string data (pos + 11 + 2 + length (wr_key r)) (pos + ?L) = Inr (wr_value r, pos + ?L)"
      if "?op = OP_PUT"
    proof -
      have "drop (pos + 11 + length (append_string (wr_key r))) data = append_string (wr_value r) @ rest"
        using d11 that by (intro drop_part) (simp add: payload_def)
      then have "drop (pos + 11 + 2 + length (wr_key r)) data = append_string (wr_value r) @ rest"
        by (simp add: append_string_def add.assoc)
      from read_string_write [OF this, of "pos + ?L"] show ?thesis
        using that pl L(4) by (simp add: payload_def append_string_def)
    qed
    have "wr_value r = []" if "?op \<noteq> OP_PUT" using ok that by (simp add: record_ok_def)
    moreover have "wr_key r = []" if "?op \<noteq> OP_PUT" "?op \<noteq> OP_DELETE" using ok that by (simp add: record_ok_def)
    ultimately show ?thesis
      using k v pl by (cases ?op) (simp_all add: read_payload_def payload_def append_string_def)
  qed
  have "\<not> (unat (wr_record_len r) < 11 \<or> length data - pos < unat (wr_record_len r))"
    using L(1,2) len by simp
  then show ?thesis
    unfolding read_record_def r1 ebind_simps prod.case Let_def
    by (simp add: u16_u64 L(1) r2 [simplified] r3 [simplified] r4 op_of_code_op_code)
qed

lemma record_decode_encode:
  assumes "\<forall>r \<in> set rs. record_ok r"
  shows "record_decode (concat (map record_encode rs)) = Inr rs"
proof -
  have "decode_from data pos = Inr rs"
    if "drop pos data = concat (map record_encode rs)" "pos \<le> length data" for data pos
    using that assms
  proof (induction rs arbitrary: pos)
    case Nil
    then show ?case by (simp add: decode_from.simps [of data pos])
  next
    case (Cons r rs)
    have len: "length data = pos + length (record_encode r) + length (concat (map record_encode rs))"
      using arg_cong [OF Cons.prems(1), of length] Cons.prems(2) by simp
    have "read_record data pos = Inr (r, pos + length (record_encode r))"
      using Cons.prems by (intro read_record_encode) simp_all
    moreover have "decode_from data (pos + length (record_encode r)) = Inr rs"
      using Cons.prems len by (intro Cons.IH drop_part) simp_all
    moreover have "pos < length data" using len length_record_encode [of r] by linarith
    ultimately show ?case by (simp add: decode_from.simps [of data pos])
  qed
  then show ?thesis by (simp add: record_decode_def)
qed

section \<open>Only encodings are accepted\<close>

lemma le_read_ucast16: "ucast (le_read bs :: u64) = (le_read bs :: u16)"
  by (rule bit_word_eqI) (auto simp: bit_ucast_iff le_read_def bit_le_read_from)

lemma read_uint_inv:
  assumes "read_uint data pos n stop = Inr (w, p)" "pos \<le> stop" "stop \<le> length data"
  shows "p = pos + n \<and> p \<le> stop \<and> w = le_read (take n (drop pos data)) \<and>
    length (take n (drop pos data)) = n \<and> drop pos data = take n (drop pos data) @ drop p data"
proof -
  have p: "p = pos + n" "w = le_read (take n (drop pos data))" "n \<le> stop - pos"
    using assms(1) by (auto simp: read_uint_def split: if_splits)
  have "drop pos data = take n (drop pos data) @ drop n (drop pos data)" by (rule append_take_drop_id [symmetric])
  moreover have "drop n (drop pos data) = drop p data" by (simp add: p(1) add.commute)
  ultimately have "drop pos data = take n (drop pos data) @ drop p data" by (simp only:)
  moreover have "length (take n (drop pos data)) = n" "p \<le> stop" using p assms(2,3) by simp_all
  ultimately show ?thesis using p(1,2) by blast
qed

lemma read_string_inv:
  assumes "read_string data pos stop = Inr (t, p)" "pos \<le> stop" "stop \<le> length data"
  shows "pos \<le> p \<and> p \<le> stop \<and> length t \<le> 65535 \<and> drop pos data = append_string t @ drop p data"
proof -
  obtain w q where w: "read_uint data pos 2 stop = Inr (w, q)" and t: "unat w \<le> stop - q"
    "t = take (unat w) (drop q data)" "p = q + unat w"
    using assms(1) by (auto simp: read_string_def ebind_Inr_conv Let_def split: if_splits)
  note I = read_uint_inv [OF w assms(2,3)]
  let ?bs = "take 2 (drop pos data)"
  have wl: "w = le_read ?bs" "length ?bs = 2" using I by auto
  have small: "unat w < 2 ^ 16" unfolding wl(1) using le_read_small [of ?bs, where 'a = 64] wl(2) by simp
  have lt: "length t = unat w" using t I assms(3) by simp
  have "(of_nat (unat w) :: u16) = ucast w" by simp
  then have W: "le_write 2 (of_nat (length t) :: u16) = ?bs"
    unfolding lt using wl by (simp add: le_read_ucast16 le_write_read)
  have D: "drop q data = t @ drop p data"
  proof -
    have "drop p data = drop (unat w) (drop q data)" by (simp add: t(3) add.commute)
    then show ?thesis unfolding t(2) by (simp only: append_take_drop_id)
  qed
  have "drop pos data = ?bs @ drop q data" using I by blast
  then have "drop pos data = append_string t @ drop p data"
    unfolding append_string_def W D by (simp only: append_assoc)
  moreover have "q = pos + 2" "q \<le> stop" using I by blast+
  moreover have "length t \<le> 65535" using small lt by simp
  ultimately show ?thesis using t(1,3) by simp
qed

lemma op_of_code_inv: "op_of_code (le_read [b]) = Some op \<Longrightarrow> op_code op = b"
proof -
  assume op: "op_of_code (le_read [b]) = Some op"
  have "b = ucast (le_read [b] :: u64)"
    by (rule bit_word_eqI) (auto simp: bit_ucast_iff le_read_def)
  with op show ?thesis by (auto simp: op_of_code_def split: if_splits)
qed

lemma read_payload_inv:
  assumes "read_payload data pos stop op = Inr (k, v, p)" "pos \<le> stop" "stop \<le> length data"
  shows "p \<le> stop \<and> length k \<le> 65535 \<and> length v \<le> 65535 \<and> (op \<noteq> OP_PUT \<longrightarrow> v = []) \<and>
    (op \<noteq> OP_PUT \<and> op \<noteq> OP_DELETE \<longrightarrow> k = []) \<and>
    drop pos data = (if op = OP_PUT \<or> op = OP_DELETE then append_string k else []) @
      (if op = OP_PUT then append_string v else []) @ drop p data"
proof (cases op)
  case OP_PUT
  then obtain q where 1: "read_string data pos stop = Inr (k, q)" "read_string data q stop = Inr (v, p)"
    using assms(1) by (auto simp: read_payload_def ebind_Inr_conv)
  note I = read_string_inv [OF 1(1) assms(2,3)]
  then have "q \<le> stop" by simp
  note J = read_string_inv [OF 1(2) this assms(3)]
  from I J OP_PUT show ?thesis by simp
next
  case OP_DELETE
  then have "read_string data pos stop = Inr (k, p)" "v = []"
    using assms(1) by (auto simp: read_payload_def ebind_Inr_conv)
  with read_string_inv [OF this(1) assms(2,3)] OP_DELETE show ?thesis by simp
qed (use assms in \<open>auto simp: read_payload_def\<close>)

lemma read_record_inv:
  assumes "read_record data pos = Inr (r, p)" "pos \<le> length data"
  shows "record_ok r \<and> drop pos data = record_encode r @ drop p data"
proof -
  obtain n q where n: "read_uint data pos 2 (length data) = Inr (n, q)"
    and len: "11 \<le> unat (ucast n :: u16)" "unat (ucast n :: u16) \<le> length data - pos"
    and rest: "ebind (read_uint data q 8 (pos + unat (ucast n :: u16))) (\<lambda>(tid, a).
        ebind (read_uint data a 1 (pos + unat (ucast n :: u16))) (\<lambda>(code, b).
          case op_of_code code of None \<Rightarrow> Inl Runtime_Error
          | Some op \<Rightarrow> ebind (read_payload data b (pos + unat (ucast n :: u16)) op) (\<lambda>(k, v, c).
              if c \<noteq> pos + unat (ucast n :: u16) then Inl Runtime_Error
              else Inr (\<lparr>wr_tranc_id = tid, wr_operation_type = op, wr_key = k, wr_value = v,
                         wr_record_len = ucast n\<rparr>, c)))) = Inr (r, p)"
    using assms(1) by (auto simp: read_record_def ebind_Inr_conv Let_def split: if_splits)
  define e where "e = pos + unat (ucast n :: u16)"
  have e: "pos \<le> e" "e \<le> length data" "pos + 11 \<le> e" using len assms(2) by (simp_all add: e_def)
  obtain tid a code b op k v where
    2: "read_uint data q 8 e = Inr (tid, a)" and 3: "read_uint data a 1 e = Inr (code, b)"
    and op: "op_of_code code = Some op" and 4: "read_payload data b e op = Inr (k, v, e)"
    and r: "r = \<lparr>wr_tranc_id = tid, wr_operation_type = op, wr_key = k, wr_value = v, wr_record_len = ucast n\<rparr>"
    and p: "p = e"
    using rest unfolding e_def [symmetric]
    by (auto simp: ebind_Inr_conv split: if_splits option.splits)
  note I1 = read_uint_inv [OF n assms(2) order.refl]
  have q: "q \<le> e" using I1 e by simp
  note I2 = read_uint_inv [OF 2 q e(2)]
  have a: "a \<le> e" using I2 by simp
  note I3 = read_uint_inv [OF 3 a e(2)]
  have b: "b \<le> e" using I3 by simp
  note I4 = read_payload_inv [OF 4 b e(2)]
  have W1: "le_write 2 (ucast n :: u16) = take 2 (drop pos data)"
    using I1 by (simp add: le_read_ucast16 le_write_read)
  have W2: "le_write 8 tid = take 8 (drop q data)"
    using I2 by (simp add: le_write_read)
  have W3: "[op_code op] = take 1 (drop a data)"
  proof -
    obtain x where "take 1 (drop a data) = [x]" using I3 by (metis length_0_conv length_Suc_conv One_nat_def)
    with op I3 op_of_code_inv [of x op] show ?thesis by simp
  qed
  have E1: "drop pos data = le_write 2 (ucast n :: u16) @ drop q data" unfolding W1 using I1 by blast
  have E2: "drop q data = le_write 8 tid @ drop a data" unfolding W2 using I2 by blast
  have E3: "drop a data = [op_code op] @ drop b data" unfolding W3 using I3 by blast
  have E4: "drop b data = (if op = OP_PUT \<or> op = OP_DELETE then append_string k else []) @
      (if op = OP_PUT then append_string v else []) @ drop e data" using I4 by blast
  have D: "drop pos data = record_encode r @ drop e data"
    unfolding E1 E2 E3 E4 by (simp add: record_encode_def r)
  then have "length (record_encode r) = e - pos"
  proof -
    have "length (drop pos data) = length (record_encode r @ drop e data)" by (rule arg_cong [OF D])
    then show ?thesis using e(1,2) unfolding length_drop length_append by linarith
  qed
  then have "unat (wr_record_len r) = length (record_encode r)" by (simp add: r e_def)
  with I4 D p show ?thesis by (simp add: record_ok_def r)
qed

lemma record_decode_exact:
  assumes "record_decode data = Inr rs"
  shows "(\<forall>r \<in> set rs. record_ok r) \<and> data = concat (map record_encode rs)"
proof -
  have "(\<forall>r \<in> set rs. record_ok r) \<and> drop pos data = concat (map record_encode rs)"
    if "decode_from data pos = Inr rs" "pos \<le> length data" for pos
    using that
  proof (induction data pos arbitrary: rs rule: decode_from.induct)
    case (1 data pos)
    show ?case
    proof (cases "pos < length data")
      case False
      with 1(2,3) show ?thesis by (simp add: decode_from.simps [of data pos])
    next
      case True
      then obtain r p rs' where R: "read_record data pos = Inr (r, p)"
        "decode_from data p = Inr rs'" "rs = r # rs'"
        using 1(2) by (auto simp: decode_from.simps [of data pos] ebind_Inr_conv)
      have "p \<le> length data" using read_record_advances [OF R(1)] by simp
      with 1(1) [OF True R(1) refl R(2)] read_record_inv [OF R(1)] True R(3) show ?thesis by simp
    qed
  qed
  from this [of 0] assms show ?thesis by (simp add: record_decode_def)
qed

lemma read_uint_error: "read_uint data pos n stop = Inl e \<Longrightarrow> e = Runtime_Error"
  by (simp add: read_uint_def split: if_splits)

lemma ebind_Inl_conv: "ebind r f = Inl e \<longleftrightarrow> r = Inl e \<or> (\<exists>x. r = Inr x \<and> f x = Inl e)"
  by (cases r) auto

lemma read_string_error: "read_string data pos stop = Inl e \<Longrightarrow> e = Runtime_Error"
  by (auto simp: read_string_def ebind_Inl_conv Let_def dest: read_uint_error split: if_splits)

lemma read_payload_error: "read_payload data pos stop op = Inl e \<Longrightarrow> e = Runtime_Error"
  by (cases op) (auto simp: read_payload_def ebind_Inl_conv dest: read_string_error)

lemma read_record_error: "read_record data pos = Inl e \<Longrightarrow> e = Runtime_Error"
  by (auto simp: read_record_def ebind_Inl_conv Let_def
      dest: read_uint_error read_payload_error split: if_splits option.splits)

lemma record_decode_error: "record_decode data = Inl e \<Longrightarrow> e = Runtime_Error"
proof -
  have "decode_from data pos = Inl e \<Longrightarrow> e = Runtime_Error" for pos
  proof (induction data pos rule: decode_from.induct)
    case (1 data pos)
    show ?case
    proof (cases "pos < length data")
      case True
      with 1(2) consider "read_record data pos = Inl e"
        | r p where "read_record data pos = Inr (r, p)" "decode_from data p = Inl e"
        by (auto simp: decode_from.simps [of data pos] ebind_Inl_conv)
      then show ?thesis using 1(1) [OF True _ refl] read_record_error by cases auto
    qed (use 1(2) in \<open>simp add: decode_from.simps [of data pos]\<close>)
  qed
  then show "record_decode data = Inl e \<Longrightarrow> e = Runtime_Error" by (simp add: record_decode_def)
qed

text \<open>The records that the program builds.\<close>

definition built_record :: "wal_record \<Rightarrow> bool" where
  "built_record r \<longleftrightarrow> (\<exists>t. r = createRecord t \<or> r = commitRecord t \<or> r = rollbackRecord t) \<or>
     (\<exists>t k v. putRecord t k v = Inr r) \<or> (\<exists>t k. deleteRecord t k = Inr r)"

lemma built_record_ok: "built_record r \<Longrightarrow> record_ok r"
  unfolding built_record_def by (elim disjE exE) (simp_all add: factories_ok)

text \<open>C20: decoding the concatenated encodings of any records that the factories build gives
  the records back, in order.\<close>

theorem record_log_roundtrip:
  assumes "\<forall>r \<in> set rs. built_record r"
  shows "record_decode (concat (map record_encode rs)) = Inr rs"
  using assms by (intro record_decode_encode) (blast intro: built_record_ok)

theorem record_log_roundtrip_witness:
  "record_decode (concat (map record_encode [createRecord 5, commitRecord 5])) = Inr [createRecord 5, commitRecord 5]"
  by (rule record_log_roundtrip) (auto simp: built_record_def)

text \<open>C21: the decoder accepts exactly the encodings: it returns records if and only if they are
  well-formed and the bytes are their encodings one after the other, so a truncated, extended or
  altered frame is refused, with a runtime error.\<close>

theorem record_decode_iff:
  "(record_decode data = Inr rs \<longleftrightarrow> (\<forall>r \<in> set rs. record_ok r) \<and> data = concat (map record_encode rs)) \<and>
   (record_decode data = Inl e \<longrightarrow> e = Runtime_Error)"
  using record_decode_exact [of data rs] record_decode_encode [of rs] record_decode_error [of data e] by blast

theorem record_decode_iff_witness:
  "record_decode (record_encode (createRecord 5)) = Inr [createRecord 5]"
  using record_decode_iff [of "record_encode (createRecord 5)" "[createRecord 5]"] by (simp add: factories_ok)

end
