(* ===== verification/Wal.thy ===== *)
theory Wal
  imports Wal_Record "HOL-Library.AList"
begin

text \<open>
  The write-ahead log (src/src/wal/wal.cpp): construction on a directory, buffering, forced
  writes, rotation to the next file, the sticky failure state, and the cleaning of old files.
  A directory is an association list from file names to contents, in the order in which the
  files were created. What the operating system answers is an argument of every operation; a
  failed write may leave any prefix of its bytes. The background thread that calls the cleaning
  at intervals, and the lock, are not modelled.
\<close>

section \<open>File names\<close>

type_synonym dir = "(bytes \<times> bytes) list"

definition wal_prefix :: bytes where
  "wal_prefix = [119, 97, 108, 46]"

definition is_digit :: "byte \<Rightarrow> bool" where
  "is_digit c \<longleftrightarrow> 48 \<le> c \<and> c \<le> 57"

definition wal_suffix :: "bytes \<Rightarrow> bytes option" where
  "wal_suffix name =
     (if prefix wal_prefix name \<and> drop 4 name \<noteq> [] \<and> list_all is_digit (drop 4 name)
      then Some (drop 4 name) else None)"

text \<open>\<open>std::stoull\<close> on a string of digits and \<open>std::to_string\<close>.\<close>

definition digits_value :: "bytes \<Rightarrow> nat" where
  "digits_value s = foldl (\<lambda>n c. n * 10 + (unat c - 48)) 0 s"

definition stoull :: "bytes \<Rightarrow> u64 result" where
  "stoull s = (if digits_value s < 2 ^ 64 then Inr (of_nat (digits_value s)) else Inl Out_Of_Range)"

fun to_decimal :: "nat \<Rightarrow> bytes" where
  "to_decimal n = (if n < 10 then [of_nat (48 + n)] else to_decimal (n div 10) @ [of_nat (48 + n mod 10)])"

declare to_decimal.simps [simp del]

definition wal_name :: "u64 \<Rightarrow> bytes" where
  "wal_name seq = wal_prefix @ to_decimal (unat seq)"

section \<open>State and construction\<close>

record wal =
  wal_dir :: dir
  active_log :: bytes
  log_buffer :: "wal_record list"
  write_failed :: bool
  buffer_size :: nat
  wal_checkpoint :: u64
  file_size_limit :: nat

primrec scan_seqs :: "dir \<Rightarrow> u64 \<Rightarrow> u64 result" where
  "scan_seqs [] next_seq = Inr next_seq"
| "scan_seqs (e # es) next_seq = (case wal_suffix (fst e) of
      None \<Rightarrow> scan_seqs es next_seq
    | Some digits \<Rightarrow>
        ebind (stoull digits) (\<lambda>seq.
          if seq = - 1 then Inl Overflow_Error else scan_seqs es (max next_seq (seq + 1))))"

definition wal_new :: "bool \<Rightarrow> dir \<Rightarrow> nat \<Rightarrow> u64 \<Rightarrow> nat \<Rightarrow> wal result" where
  "wal_new open_ok d buf_size checkpoint limit =
     ebind (scan_seqs d 0) (\<lambda>next_seq.
       if open_ok
       then Inr \<lparr>wal_dir = AList.update (wal_name next_seq) [] d, active_log = wal_name next_seq,
              log_buffer = [], write_failed = False, buffer_size = buf_size,
              wal_checkpoint = checkpoint, file_size_limit = limit\<rparr>
       else Inl Runtime_Error)"

definition wal_set_checkpoint :: "wal \<Rightarrow> u64 \<Rightarrow> wal" where
  "wal_set_checkpoint w c = w\<lparr>wal_checkpoint := c\<rparr>"

section \<open>Logging\<close>

text \<open>
  The answers of the file system during one call: the size can be read; creating the next
  file succeeds (\<open>None\<close>) or fails, possibly leaving an empty file; appending and
  flushing the stream succeed (\<open>None\<close>) or fail after that many bytes reached the file.
\<close>

record wal_io =
  io_size :: bool
  io_create :: "bool option"
  io_append :: "nat option"
  io_sync :: "nat option"

definition io_good :: wal_io where
  "io_good = \<lparr>io_size = True, io_create = None, io_append = None, io_sync = None\<rparr>"

definition file_content :: "wal \<Rightarrow> bytes" where
  "file_content w = (case map_of (wal_dir w) (active_log w) of None \<Rightarrow> [] | Some c \<Rightarrow> c)"

definition reset_file :: "wal_io \<Rightarrow> wal \<Rightarrow> unit result \<times> wal" where
  "reset_file io w = (case stoull (drop 4 (active_log w)) of
      Inl e \<Rightarrow> (Inl e, w)
    | Inr seq \<Rightarrow>
        if seq = - 1 then (Inl Overflow_Error, w)
        else
          let next_name = wal_name (seq + 1)
          in if map_of (wal_dir w) next_name \<noteq> None then (Inl Runtime_Error, w)
             else case io_create io of
                 Some made \<Rightarrow> (Inl Runtime_Error,
                   if made then w\<lparr>wal_dir := AList.update next_name [] (wal_dir w)\<rparr> else w)
               | None \<Rightarrow> (Inr (), w\<lparr>wal_dir := AList.update next_name [] (wal_dir w),
                   active_log := next_name\<rparr>))"

definition append_bytes :: "bytes \<Rightarrow> wal \<Rightarrow> wal" where
  "append_bytes bs w = w\<lparr>wal_dir := AList.update (active_log w) (file_content w @ bs) (wal_dir w)\<rparr>"

text \<open>The \<open>try\<close> block: rotate, append, flush.\<close>

definition write_batch :: "wal_io \<Rightarrow> bytes \<Rightarrow> wal \<Rightarrow> unit result \<times> wal" where
  "write_batch io encoded w =
     (let rotated =
        (if file_size_limit w = 0 then (Inr (), w)
         else if \<not> io_size io then (Inl Runtime_Error, w)
         else if file_size_limit w \<le> length (file_content w) then reset_file io w
         else (Inr (), w))
      in case rotated of
           (Inl e, w1) \<Rightarrow> (Inl e, w1)
         | (Inr _, w1) \<Rightarrow>
             (case io_append io of
                Some n \<Rightarrow> (Inl Runtime_Error, append_bytes (take n encoded) w1)
              | None \<Rightarrow>
                  (case io_sync io of
                     Some n \<Rightarrow> (Inl Runtime_Error, append_bytes (take n encoded) w1)
                   | None \<Rightarrow> (Inr (), append_bytes encoded w1))))"

definition wal_log :: "wal_io \<Rightarrow> wal \<Rightarrow> wal_record list \<Rightarrow> bool \<Rightarrow> unit result \<times> wal" where
  "wal_log io w records force_flush =
     (if write_failed w then (Inl Runtime_Error, w)
      else
        let w1 = w\<lparr>log_buffer := log_buffer w @ records\<rparr>
        in if log_buffer w1 = [] \<or> (\<not> force_flush \<and> length (log_buffer w1) < buffer_size w1)
           then (Inr (), w1)
           else
             let encoded = concat (map record_encode (log_buffer w1))
             in case write_batch io encoded w1 of
                  (Inl e, w2) \<Rightarrow> (Inl e, w2\<lparr>write_failed := True\<rparr>)
                | (Inr _, w2) \<Rightarrow> (Inr (), w2\<lparr>log_buffer := []\<rparr>))"

definition wal_flush :: "wal_io \<Rightarrow> wal \<Rightarrow> unit result \<times> wal" where
  "wal_flush io w = wal_log io w [] True"

text \<open>\<open>TranManager::write_to_wal\<close>: an absent log and every exception are a failure.\<close>

definition write_to_wal :: "wal_io \<Rightarrow> wal option \<Rightarrow> wal_record list \<Rightarrow> bool \<times> wal option" where
  "write_to_wal io wo records = (case wo of
      None \<Rightarrow> (False, None)
    | Some w \<Rightarrow> (case wal_log io w records True of
          (Inl _, w') \<Rightarrow> (False, Some w')
        | (Inr _, w') \<Rightarrow> (True, Some w')))"

section \<open>Cleaning\<close>

definition can_delete :: "u64 \<Rightarrow> u64 \<Rightarrow> bytes \<times> bytes \<Rightarrow> bool" where
  "can_delete active_seq checkpoint e = (case wal_suffix (fst e) of
      None \<Rightarrow> False
    | Some digits \<Rightarrow>
        (case stoull digits of
           Inl _ \<Rightarrow> False
         | Inr seq \<Rightarrow> seq < active_seq \<and>
             (case record_decode (snd e) of
                Inl _ \<Rightarrow> False
              | Inr records \<Rightarrow> list_all (\<lambda>r. wr_tranc_id r \<le> checkpoint) records)))"

text \<open>\<open>readable_file\<close> and \<open>remove_ok\<close> tell for which names opening and reading, and
  removing, succeed; an error keeps the file.\<close>

definition clean_wal_file :: "(bytes \<Rightarrow> bool) \<Rightarrow> (bytes \<Rightarrow> bool) \<Rightarrow> wal \<Rightarrow> wal result" where
  "clean_wal_file readable_file remove_ok w =
     ebind (stoull (drop 4 (active_log w))) (\<lambda>active_seq.
       Inr (w\<lparr>wal_dir := filter (\<lambda>e. \<not> (can_delete active_seq (wal_checkpoint w) e \<and>
           readable_file (fst e) \<and> remove_ok (fst e))) (wal_dir w)\<rparr>))"

section \<open>Names and numbers\<close>

lemma digits_value_append: "digits_value (s @ [c]) = digits_value s * 10 + (unat c - 48)"
  by (simp add: digits_value_def)

lemma digit_word: "d < 10 \<Longrightarrow> unat (of_nat (48 + d) :: byte) = 48 + d \<and> is_digit (of_nat (48 + d))"
proof -
  assume d: "d < 10"
  then have u: "unat (of_nat (48 + d) :: byte) = 48 + d"
    by (subst unsigned_of_nat) (simp add: take_bit_nat_eq_self)
  with d show ?thesis by (simp only: is_digit_def word_le_nat_alt) simp
qed

lemma to_decimal_facts: "digits_value (to_decimal n) = n \<and> to_decimal n \<noteq> [] \<and> list_all is_digit (to_decimal n)"
proof (induction n rule: to_decimal.induct)
  case (1 n)
  show ?case
  proof (cases "n < 10")
    case True
    then show ?thesis
      using digit_word [OF True] by (subst (1 2 3) to_decimal.simps) (simp add: digits_value_def del: of_nat_add)
  next
    case False
    have d: "n mod 10 < 10" by simp
    from 1 [OF False] digit_word [OF d] False show ?thesis
      by (subst (1 2 3) to_decimal.simps) (simp add: digits_value_append del: of_nat_add)
  qed
qed

lemma stoull_to_decimal: "stoull (to_decimal (unat (seq :: u64))) = Inr seq"
  using to_decimal_facts [of "unat seq"] unsigned_less [of seq] by (simp add: stoull_def)

lemma drop_wal_name [simp]: "drop 4 (wal_name seq) = to_decimal (unat seq)"
  by (simp add: wal_name_def wal_prefix_def)

lemma wal_suffix_name [simp]: "wal_suffix (wal_name seq) = Some (to_decimal (unat seq))"
  using to_decimal_facts [of "unat seq"] by (simp add: wal_suffix_def wal_name_def wal_prefix_def)

lemma wal_name_inject: "wal_name a = wal_name b \<longleftrightarrow> a = b"
  by (metis drop_wal_name stoull_to_decimal sum.inject(2))

section \<open>Construction never overwrites a file\<close>

lemma update_new: "map_of al k = None \<Longrightarrow> AList.update k v al = al @ [(k, v)]"
  by (induction al) (auto split: if_splits)

lemma update_last: "k \<notin> fst ` set al \<Longrightarrow> AList.update k v (al @ [(k, u)]) = al @ [(k, v)]"
  by (induction al) auto

lemma seq_bound:
  assumes "scan_seqs d n = Inr m" "e \<in> set d" "wal_suffix (fst e) = Some s" "stoull s = Inr q"
  shows "q < m \<and> n \<le> m"
  using assms
proof (induction d arbitrary: n)
  case (Cons x d)
  have mono: "scan_seqs d n' = Inr m \<Longrightarrow> n' \<le> m" for n'
  proof (induction d arbitrary: n')
    case (Cons y d)
    show ?case
    proof (cases "wal_suffix (fst y)")
      case None
      with Cons show ?thesis by simp
    next
      case (Some s')
      with Cons.prems obtain q' where "scan_seqs d (max n' (q' + 1)) = Inr m"
        by (auto simp: ebind_Inr_conv split: if_splits)
      from Cons.IH [OF this] show ?thesis by simp
    qed
  qed simp
  show ?case
  proof (cases "e = x")
    case True
    then have q: "q \<noteq> - 1" "scan_seqs d (max n (q + 1)) = Inr m"
      using Cons.prems by (auto simp: ebind_Inr_conv split: if_splits)
    have "q < q + 1" using q(1) inc_less_eq_self_iff_eq [of q] by (simp add: not_le [symmetric])
    moreover have "max n (q + 1) \<le> m" by (rule mono [OF q(2)])
    ultimately show ?thesis by (auto intro: order.strict_trans2)
  next
    case False
    then have e: "e \<in> set d" using Cons.prems by simp
    obtain n' where "n \<le> n'" "scan_seqs d n' = Inr m"
    proof (cases "wal_suffix (fst x)")
      case None
      with Cons.prems show thesis by (intro that [of n]) auto
    next
      case (Some s')
      with Cons.prems obtain q' where "scan_seqs d (max n (q' + 1)) = Inr m"
        by (auto simp: ebind_Inr_conv split: if_splits)
      then show thesis by (intro that [of "max n (q' + 1)"]) auto
    qed
    with Cons.IH [of n'] e Cons.prems(3,4) show ?thesis by auto
  qed
qed simp

lemma wal_new_facts:
  assumes "wal_new open_ok d bs ck lim = Inr w"
  shows "\<exists>seq. scan_seqs d 0 = Inr seq \<and> wal_dir w = d @ [(wal_name seq, [])] \<and>
    active_log w = wal_name seq \<and> wal_name seq \<notin> fst ` set d \<and>
    log_buffer w = [] \<and> \<not> write_failed w \<and> wal_checkpoint w = ck"
proof -
  obtain seq where seq: "scan_seqs d 0 = Inr seq"
    and w: "w = \<lparr>wal_dir = AList.update (wal_name seq) [] d, active_log = wal_name seq, log_buffer = [],
      write_failed = False, buffer_size = bs, wal_checkpoint = ck, file_size_limit = lim\<rparr>"
    using assms by (auto simp: wal_new_def ebind_Inr_conv split: if_splits)
  have new: "wal_name seq \<notin> fst ` set d"
  proof
    assume "wal_name seq \<in> fst ` set d"
    then obtain e where e: "e \<in> set d" "fst e = wal_name seq" by auto
    from seq_bound [OF seq e(1) _ stoull_to_decimal [of seq]] e(2) show False by simp
  qed
  then have "map_of d (wal_name seq) = None" by (simp add: map_of_eq_None_iff)
  with seq w new show ?thesis by (simp add: update_new)
qed

section \<open>What is on disk\<close>

definition encode_all :: "wal_record list \<Rightarrow> bytes" where
  "encode_all rs = concat (map record_encode rs)"

lemma encode_all_append [simp]: "encode_all (rs @ ss) = encode_all rs @ encode_all ss" "encode_all [] = []"
  by (simp_all add: encode_all_def)

text \<open>The bytes in the files that were created after the first \<open>n\<close>.\<close>

definition written :: "nat \<Rightarrow> wal \<Rightarrow> bytes" where
  "written n w = concat (map snd (drop n (wal_dir w)))"

lemma file_content_last:
  "wal_dir w = al @ [(active_log w, c)] \<Longrightarrow> active_log w \<notin> fst ` set al \<Longrightarrow> file_content w = c"
proof -
  assume w: "wal_dir w = al @ [(active_log w, c)]" and new: "active_log w \<notin> fst ` set al"
  have "map_of al (active_log w) = None" using new unfolding map_of_eq_None_iff .
  then show "file_content w = c" by (simp add: file_content_def w map_add_def)
qed

lemma append_bytes_last:
  assumes "wal_dir w = d @ ds @ [(active_log w, c)]" "active_log w \<notin> fst ` set (d @ ds)"
  shows "wal_dir (append_bytes bs w) = d @ ds @ [(active_log w, c @ bs)]"
    "written (length d) (append_bytes bs w) = written (length d) w @ bs"
proof -
  have "file_content w = c" using file_content_last [of w "d @ ds" c] assms by simp
  then show 1: "wal_dir (append_bytes bs w) = d @ ds @ [(active_log w, c @ bs)]"
    using update_last [OF assms(2), of "c @ bs" c] by (simp add: append_bytes_def assms(1))
  show "written (length d) (append_bytes bs w) = written (length d) w @ bs"
    by (simp add: written_def 1 assms(1))
qed

text \<open>One batch: all of it reaches the files, or a prefix and an error.\<close>

definition at_end :: "dir \<Rightarrow> wal \<Rightarrow> bool" where
  "at_end d w \<longleftrightarrow> (\<exists>ds c seq. wal_dir w = d @ ds @ [(active_log w, c)] \<and> active_log w = wal_name seq \<and>
     active_log w \<notin> fst ` set (d @ ds))"

lemma append_bytes_at_end:
  assumes "at_end d w"
  shows "at_end d (append_bytes bs w)" "written (length d) (append_bytes bs w) = written (length d) w @ bs"
proof -
  obtain ds c seq where w: "wal_dir w = d @ ds @ [(active_log w, c)]" "active_log w = wal_name seq"
    "active_log w \<notin> fst ` set (d @ ds)"
    using assms unfolding at_end_def by blast
  have "active_log (append_bytes bs w) = active_log w" by (simp add: append_bytes_def)
  with append_bytes_last(1) [OF w(1,3), of bs] w(2,3) show "at_end d (append_bytes bs w)"
    unfolding at_end_def by metis
  show "written (length d) (append_bytes bs w) = written (length d) w @ bs"
    by (rule append_bytes_last(2) [OF w(1,3)])
qed

lemma reset_file_cases:
  assumes "at_end d w" "reset_file io w = (r, w')"
  shows "written (length d) w' = written (length d) w \<and> (\<exists>ds. wal_dir w' = d @ ds) \<and>
    (r = Inr () \<longrightarrow> at_end d w') \<and> log_buffer w' = log_buffer w \<and> write_failed w' = write_failed w"
proof -
  obtain ds c seq where w: "wal_dir w = d @ ds @ [(active_log w, c)]" "active_log w = wal_name seq"
    using assms(1) by (auto simp: at_end_def)
  let ?n = "wal_name (seq + 1)"
  have seq: "stoull (drop 4 (active_log w)) = Inr seq" by (simp add: w(2) stoull_to_decimal)
  show ?thesis
  proof (cases "seq = - 1 \<or> map_of (wal_dir w) ?n \<noteq> None")
    case True
    then have "w' = w" "r \<noteq> Inr ()"
      using assms(2) unfolding reset_file_def seq by (auto simp: Let_def split: if_splits)
    with w(1) show ?thesis by auto
  next
    case False
    let ?w = "w\<lparr>wal_dir := AList.update ?n [] (wal_dir w)\<rparr>"
    from False have none: "map_of (wal_dir w) ?n = None" by blast
    have dir: "AList.update ?n [] (wal_dir w) = d @ (ds @ [(active_log w, c)]) @ [(?n, [])]"
      using update_new [OF none, of "[]"] by (simp add: w(1))
    have new: "?n \<notin> fst ` set (d @ ds @ [(active_log w, c)])"
      using none by (simp only: w(1) map_of_eq_None_iff) simp
    have R: "reset_file io w = (case io_create io of
          Some made \<Rightarrow> (Inl Runtime_Error, if made then ?w else w)
        | None \<Rightarrow> (Inr (), ?w\<lparr>active_log := ?n\<rparr>))"
      using False unfolding reset_file_def seq by (simp add: Let_def)
    have wd: "wal_dir ?w = d @ (ds @ [(active_log w, c)]) @ [(?n, [])]" unfolding dir by simp
    then have "\<exists>ds. wal_dir ?w = d @ ds" by blast
    moreover have "written (length d) ?w = written (length d) w" unfolding written_def wd by (simp add: w(1))
    ultimately have W: "written (length d) ?w = written (length d) w" "\<exists>ds. wal_dir ?w = d @ ds" by auto
    have W': "written (length d) (?w\<lparr>active_log := ?n\<rparr>) = written (length d) w"
      using W(1) by (simp add: written_def)
    have E: "at_end d (?w\<lparr>active_log := ?n\<rparr>)"
      unfolding at_end_def
      by (rule exI [of _ "ds @ [(active_log w, c)]"], rule exI [of _ "[]"], rule exI [of _ "seq + 1"])
        (use dir new in simp)
    show ?thesis
    proof (cases "io_create io")
      case None
      then have "r = Inr ()" "w' = ?w\<lparr>active_log := ?n\<rparr>" using assms(2) R by auto
      with W W' E show ?thesis by simp
    next
      case (Some made)
      then have "r = Inl Runtime_Error" "w' = (if made then ?w else w)" using assms(2) R by auto
      with W w(1) show ?thesis by auto
    qed
  qed
qed

lemma write_batch_cases:
  assumes "at_end d w" "write_batch io enc w = (r, w')"
  shows "(\<exists>ds. wal_dir w' = d @ ds) \<and> log_buffer w' = log_buffer w \<and> write_failed w' = write_failed w \<and>
    (case r of
       Inr _ \<Rightarrow> at_end d w' \<and> written (length d) w' = written (length d) w @ enc
     | Inl _ \<Rightarrow> \<exists>n. written (length d) w' = written (length d) w @ take n enc)"
proof -
  define rot where "rot = (if file_size_limit w = 0 then (Inr (), w)
         else if \<not> io_size io then (Inl Runtime_Error, w)
         else if file_size_limit w \<le> length (file_content w) then reset_file io w
         else (Inr (), w))"
  obtain q w1 where q: "rot = (q, w1)" by fastforce
  have w1: "written (length d) w1 = written (length d) w \<and> (\<exists>ds. wal_dir w1 = d @ ds) \<and>
    (q = Inr () \<longrightarrow> at_end d w1) \<and> log_buffer w1 = log_buffer w \<and> write_failed w1 = write_failed w"
    using q assms(1) reset_file_cases [OF assms(1), of io q w1]
    by (auto simp: rot_def at_end_def split: if_splits)
  have B: "write_batch io enc w = (case (q, w1) of (Inl e, w1) \<Rightarrow> (Inl e, w1)
         | (Inr _, w1) \<Rightarrow> (case io_append io of
                Some n \<Rightarrow> (Inl Runtime_Error, append_bytes (take n enc) w1)
              | None \<Rightarrow> (case io_sync io of
                     Some n \<Rightarrow> (Inl Runtime_Error, append_bytes (take n enc) w1)
                   | None \<Rightarrow> (Inr (), append_bytes enc w1))))"
    unfolding write_batch_def rot_def [symmetric] q Let_def by simp
  show ?thesis
  proof (cases q)
    case (Inl e)
    then have "r = Inl e" "w' = w1" using assms(2) B by auto
    with w1 show ?thesis by (auto intro: exI [of _ 0])
  next
    case (Inr u)
    with w1 have E: "at_end d w1" by simp
    have A: "(\<exists>ds. wal_dir (append_bytes bs w1) = d @ ds)" for bs
      using append_bytes_at_end(1) [OF E, of bs] by (auto simp: at_end_def)
    have L: "log_buffer (append_bytes bs w1) = log_buffer w" "write_failed (append_bytes bs w1) = write_failed w" for bs
      using w1 by (simp_all add: append_bytes_def)
    show ?thesis
    proof (cases "io_append io")
      case (Some n)
      then have "r = Inl Runtime_Error" "w' = append_bytes (take n enc) w1" using assms(2) B Inr by auto
      with A L w1 append_bytes_at_end [OF E] show ?thesis by auto
    next
      case ap: None
      show ?thesis
      proof (cases "io_sync io")
        case (Some n)
        then have "r = Inl Runtime_Error" "w' = append_bytes (take n enc) w1" using assms(2) B Inr ap by auto
        with A L w1 append_bytes_at_end [OF E] show ?thesis by auto
      next
        case None
        then have "r = Inr ()" "w' = append_bytes enc w1" using assms(2) B Inr ap by auto
        with A L w1 append_bytes_at_end [OF E] show ?thesis by auto
      qed
    qed
  qed
qed

section \<open>Histories of the log\<close>

text \<open>
  \<open>wal_run calls w rs\<close> runs log calls whatever the file system answers; the second
  component collects the records of all calls that were not refused at once.
\<close>

primrec wal_run :: "(wal_io \<times> wal_record list \<times> bool) list \<Rightarrow> wal \<Rightarrow> wal_record list \<Rightarrow> wal \<times> wal_record list" where
  "wal_run [] w rs = (w, rs)"
| "wal_run (c # cs) w rs =
     wal_run cs (snd (wal_log (fst c) w (fst (snd c)) (snd (snd c))))
       (if write_failed w then rs else rs @ fst (snd c))"

definition wal_inv :: "dir \<Rightarrow> wal \<Rightarrow> wal_record list \<Rightarrow> bool" where
  "wal_inv d w rs \<longleftrightarrow> (\<exists>ds. wal_dir w = d @ ds) \<and>
     (if write_failed w then prefix (written (length d) w) (encode_all rs)
      else at_end d w \<and> written (length d) w @ encode_all (log_buffer w) = encode_all rs)"

lemma wal_new_inv:
  assumes "wal_new open_ok d bs ck lim = Inr w"
  shows "wal_inv d w []"
proof -
  obtain seq where w: "wal_dir w = d @ [(wal_name seq, [])]" "active_log w = wal_name seq"
    "wal_name seq \<notin> fst ` set d" "log_buffer w = []" "\<not> write_failed w"
    using wal_new_facts [OF assms] by blast
  then have "at_end d w" unfolding at_end_def by (intro exI [of _ "[]"] exI) auto
  with w show ?thesis by (simp add: wal_inv_def written_def)
qed

lemma prefix_part: "prefix (a @ take n b) (a @ b)"
  by (simp add: take_is_prefix)

lemma wal_log_inv:
  assumes inv: "wal_inv d w rs" and log: "wal_log io w new force_flush = (r, w')"
  shows "wal_inv d w' (if write_failed w then rs else rs @ new) \<and>
    (r = Inr () \<longrightarrow> force_flush \<longrightarrow> \<not> write_failed w \<and> \<not> write_failed w' \<and> log_buffer w' = [])"
proof (cases "write_failed w")
  case True
  then have "w' = w" "r \<noteq> Inr ()" using log by (auto simp: wal_log_def)
  with True inv show ?thesis by simp
next
  case False
  let ?w = "w\<lparr>log_buffer := log_buffer w @ new\<rparr>"
  let ?enc = "concat (map record_encode (log_buffer ?w))"
  have E: "at_end d w" "written (length d) w @ encode_all (log_buffer w) = encode_all rs"
    "\<exists>ds. wal_dir w = d @ ds"
    using inv False by (auto simp: wal_inv_def)
  have enc: "written (length d) ?w @ ?enc = encode_all (rs @ new)"
    using E(2) by (simp add: written_def encode_all_def)
  have E': "at_end d ?w" using E(1) by (simp add: at_end_def)
  show ?thesis
  proof (cases "log_buffer ?w = [] \<or> (\<not> force_flush \<and> length (log_buffer ?w) < buffer_size ?w)")
    case keep: True
    then have "w' = ?w" "r = Inr ()" using log False by (auto simp: wal_log_def Let_def)
    moreover have "wal_inv d ?w (rs @ new)"
      using E' enc E(3) False by (auto simp: wal_inv_def encode_all_def)
    ultimately show ?thesis using keep False by auto
  next
    case batch: False
    obtain q w2 where q: "write_batch io ?enc ?w = (q, w2)" by fastforce
    have W: "(\<exists>ds. wal_dir w2 = d @ ds) \<and> log_buffer w2 = log_buffer ?w \<and> write_failed w2 = write_failed ?w \<and>
      (case q of Inr _ \<Rightarrow> at_end d w2 \<and> written (length d) w2 = written (length d) ?w @ ?enc
       | Inl _ \<Rightarrow> \<exists>n. written (length d) w2 = written (length d) ?w @ take n ?enc)"
      by (rule write_batch_cases [OF E' q])
    have L: "wal_log io w new force_flush = (case (q, w2) of
         (Inl e, w2) \<Rightarrow> (Inl e, w2\<lparr>write_failed := True\<rparr>) | (Inr _, w2) \<Rightarrow> (Inr (), w2\<lparr>log_buffer := []\<rparr>))"
      unfolding wal_log_def if_not_P [OF False] Let_def if_not_P [OF batch] q ..
    show ?thesis
    proof (cases q)
      case (Inl e)
      then have R: "r = Inl e" "w' = w2\<lparr>write_failed := True\<rparr>" using log L by auto
      obtain n where n: "written (length d) w2 = written (length d) ?w @ take n ?enc"
        using W Inl by auto
      have "prefix (written (length d) w2) (written (length d) ?w @ ?enc)"
        unfolding n by (rule prefix_part)
      then have "prefix (written (length d) w') (encode_all (rs @ new))"
        unfolding enc R(2) by (simp add: written_def)
      with W R False show ?thesis by (simp add: wal_inv_def)
    next
      case (Inr u)
      then have R: "r = Inr ()" "w' = w2\<lparr>log_buffer := []\<rparr>" using log L by auto
      have "at_end d w'" using W Inr R(2) by (simp add: at_end_def)
      moreover have "written (length d) w' = encode_all (rs @ new)"
        using W Inr unfolding R(2) enc [symmetric] by (simp add: written_def)
      ultimately show ?thesis using W R False by (simp add: wal_inv_def)
    qed
  qed
qed

lemma wal_run_inv: "wal_inv d w rs \<Longrightarrow> wal_run cs w rs = (w', rs') \<Longrightarrow> wal_inv d w' rs'"
proof (induction cs arbitrary: w rs)
  case (Cons c cs)
  obtain r w1 where l: "wal_log (fst c) w (fst (snd c)) (snd (snd c)) = (r, w1)" by fastforce
  from wal_log_inv [OF Cons.prems(1) l] have "wal_inv d w1 (if write_failed w then rs else rs @ fst (snd c))"
    by blast
  from Cons.IH [OF this] Cons.prems(2) show ?case by (simp add: l)
qed simp

text \<open>C10: the log writes each record exactly once, in order. Over any history of log calls on a new
  log, whatever file operations fail, the older files keep their contents, and the bytes in the
  new files are a prefix of the encoding of the accepted records, so nothing is ever
  written twice, not even after a failed batch. When a forced call succeeds, decoding the new
  files gives exactly all accepted records.\<close>

theorem wal_exactly_once:
  assumes "wal_new open_ok d bs ck lim = Inr w0" "wal_run cs w0 [] = (w, rs)"
    and "\<forall>r \<in> set (rs @ new). built_record r"
  shows "take (length d) (wal_dir w) = d \<and> prefix (written (length d) w) (encode_all rs) \<and>
    (\<forall>w'. wal_log io w new True = (Inr (), w') \<longrightarrow>
       take (length d) (wal_dir w') = d \<and> record_decode (written (length d) w') = Inr (rs @ new))"
proof -
  have inv: "wal_inv d w rs" by (rule wal_run_inv [OF wal_new_inv [OF assms(1)] assms(2)])
  have "prefix (written (length d) w) (encode_all rs)"
    using inv by (auto simp: wal_inv_def split: if_splits intro: prefixI [OF sym])
  moreover have "take (length d) (wal_dir w) = d" using inv by (auto simp: wal_inv_def)
  moreover have "take (length d) (wal_dir w') = d \<and> record_decode (written (length d) w') = Inr (rs @ new)"
    if "wal_log io w new True = (Inr (), w')" for w'
  proof -
    from wal_log_inv [OF inv that] have I: "wal_inv d w' (rs @ new)" "\<not> write_failed w'" "log_buffer w' = []"
      by (auto split: if_splits)
    then have "written (length d) w' = concat (map record_encode (rs @ new))"
      by (simp add: wal_inv_def encode_all_def)
    moreover have "record_decode (concat (map record_encode (rs @ new))) = Inr (rs @ new)"
      by (rule record_decode_encode) (use assms(3) in \<open>blast intro: built_record_ok\<close>)
    moreover have "take (length d) (wal_dir w') = d" using I(1) by (auto simp: wal_inv_def)
    ultimately show ?thesis by simp
  qed
  ultimately show ?thesis by blast
qed

theorem wal_exactly_once_witness:
  "\<exists>w0 w w'. wal_new True [] 4 0 0 = Inr w0 \<and>
    wal_run [(io_good, [createRecord 5], False), (io_good, [createRecord 6], True)] w0 [] =
      (w, [createRecord 5, createRecord 6]) \<and>
    wal_log io_good w [commitRecord 5] True = (Inr (), w') \<and>
    record_decode (written 0 w') = Inr [createRecord 5, createRecord 6, commitRecord 5]"
proof -
  obtain w0 where w0: "wal_new True [] 4 0 0 = Inr w0" by (simp add: wal_new_def)
  let ?cs = "[(io_good, [createRecord 5], False), (io_good, [createRecord 6], True)]"
  obtain w rs where w: "wal_run ?cs w0 [] = (w, rs)" by fastforce
  have d0: "wal_dir w0 = [(wal_name 0, [])]" "active_log w0 = wal_name 0" "log_buffer w0 = []"
    "\<not> write_failed w0" "buffer_size w0 = 4" "file_size_limit w0 = 0"
    using w0 by (auto simp: wal_new_def)
  let ?b = "record_encode (createRecord 5) @ record_encode (createRecord 6)"
  have wv: "w = w0\<lparr>wal_dir := [(wal_name 0, ?b)]\<rparr>" "rs = [createRecord 5, createRecord 6]"
    using w by (auto simp: wal_log_def write_batch_def d0 io_good_def Let_def file_content_def append_bytes_def)
  obtain w' where w': "wal_log io_good w [commitRecord 5] True = (Inr (), w')"
    by (auto simp: wv wal_log_def write_batch_def d0 io_good_def Let_def)
  have "\<forall>r \<in> set (rs @ [commitRecord 5]). built_record r"
    by (auto simp: wv(2) built_record_def)
  from wal_exactly_once [OF w0 w this] w' have "record_decode (written 0 w') = Inr (rs @ [commitRecord 5])"
    by auto
  with w0 w w' wv(2) show ?thesis by auto
qed

section \<open>Cleaning is safe\<close>

text \<open>The number in the name of a log file, as the cleaner reads it.\<close>

definition log_number :: "bytes \<Rightarrow> u64 option" where
  "log_number name = (case wal_suffix name of
      None \<Rightarrow> None
    | Some digits \<Rightarrow> (case stoull digits of Inl _ \<Rightarrow> None | Inr seq \<Rightarrow> Some seq))"

lemma log_number_wal_name: "log_number (wal_name n) = Some n"
  by (simp add: log_number_def stoull_to_decimal)

lemma can_delete_iff:
  "can_delete n ckpt e \<longleftrightarrow> (\<exists>m rs. log_number (fst e) = Some m \<and> m < n \<and>
     record_decode (snd e) = Inr rs \<and> (\<forall>r \<in> set rs. wr_tranc_id r \<le> ckpt))"
  by (auto simp: can_delete_def log_number_def list_all_iff split: option.splits sum.splits)

text \<open>C11: cleaning changes nothing but the list of files, from which it takes entries out and
  keeps the others in place. A file that it removes has a number below that of the active file
  and is a complete sequence of records whose ids are all up to the checkpoint; so the active
  file and every file with a larger number stay, and so does an older file with a record above
  the checkpoint. Conversely every older file of covered records goes, if it can be read and
  removed.\<close>

theorem clean_wal_file_safe:
  assumes "clean_wal_file readable_file remove_ok w = Inr w'" "active_log w = wal_name n"
  shows "(\<exists>P. w' = w\<lparr>wal_dir := filter P (wal_dir w)\<rparr>) \<and>
    (\<forall>e \<in> set (wal_dir w) - set (wal_dir w'). \<exists>m rs. log_number (fst e) = Some m \<and> m < n \<and>
       snd e = concat (map record_encode rs) \<and>
       (\<forall>r \<in> set rs. record_ok r \<and> wr_tranc_id r \<le> wal_checkpoint w)) \<and>
    (\<forall>m c. n \<le> m \<longrightarrow> (wal_name m, c) \<in> set (wal_dir w) \<longrightarrow> (wal_name m, c) \<in> set (wal_dir w')) \<and>
    (\<forall>m rs. m < n \<and> (\<forall>r \<in> set rs. record_ok r \<and> wr_tranc_id r \<le> wal_checkpoint w) \<and>
       readable_file (wal_name m) \<and> remove_ok (wal_name m) \<longrightarrow>
       (wal_name m, concat (map record_encode rs)) \<notin> set (wal_dir w'))"
proof -
  let ?gone = "\<lambda>e. can_delete n (wal_checkpoint w) e \<and> readable_file (fst e) \<and> remove_ok (fst e)"
  have w': "w' = w\<lparr>wal_dir := filter (\<lambda>e. \<not> ?gone e) (wal_dir w)\<rparr>"
    using assms by (simp add: clean_wal_file_def stoull_to_decimal)
  have 1: "\<exists>m rs. log_number (fst e) = Some m \<and> m < n \<and> snd e = concat (map record_encode rs) \<and>
      (\<forall>r \<in> set rs. record_ok r \<and> wr_tranc_id r \<le> wal_checkpoint w)" if gone: "can_delete n (wal_checkpoint w) e" for e
  proof -
    obtain m rs where "log_number (fst e) = Some m" "m < n" "record_decode (snd e) = Inr rs"
      "\<forall>r \<in> set rs. wr_tranc_id r \<le> wal_checkpoint w" using gone unfolding can_delete_iff by blast
    with record_decode_exact [of "snd e" rs] show ?thesis by blast
  qed
  have 2: "\<not> can_delete n (wal_checkpoint w) (wal_name m, c)" if "n \<le> m" for m c
    using that by (auto simp: can_delete_iff log_number_wal_name)
  have 3: "can_delete n (wal_checkpoint w) (wal_name m, concat (map record_encode rs))"
    if "m < n" "\<forall>r \<in> set rs. record_ok r \<and> wr_tranc_id r \<le> wal_checkpoint w" for m rs
    using that record_decode_encode [of rs] by (simp add: can_delete_iff log_number_wal_name)
  show ?thesis using w' 1 2 3 by (intro conjI) auto
qed

definition sample_wal :: wal where
  "sample_wal = \<lparr>wal_dir = [(wal_name 0, record_encode (createRecord 3)),
       (wal_name 1, record_encode (createRecord 8)), (wal_name 2, []),
       (wal_name 3, record_encode (createRecord 4))],
     active_log = wal_name 2, log_buffer = [], write_failed = False, buffer_size = 4,
     wal_checkpoint = 5, file_size_limit = 0\<rparr>"

text \<open>The covered file \<open>wal.0\<close> goes; \<open>wal.1\<close> with its uncovered record, the
  active \<open>wal.2\<close> and the newer \<open>wal.3\<close> stay.\<close>

theorem clean_wal_file_safe_witness:
  "\<exists>w'. clean_wal_file (\<lambda>_. True) (\<lambda>_. True) sample_wal = Inr w' \<and>
     (wal_name 0, record_encode (createRecord 3)) \<notin> set (wal_dir w') \<and>
     (wal_name 1, record_encode (createRecord 8)) \<in> set (wal_dir w') \<and>
     (wal_name 2, []) \<in> set (wal_dir w') \<and>
     (wal_name 3, record_encode (createRecord 4)) \<in> set (wal_dir w')"
proof -
  have t: "wr_tranc_id (createRecord i) = i" for i by (simp add: createRecord_def)
  have a: "active_log sample_wal = wal_name 2" "wal_checkpoint sample_wal = 5"
    by (simp_all add: sample_wal_def)
  obtain w' where w': "clean_wal_file (\<lambda>_. True) (\<lambda>_. True) sample_wal = Inr w'"
    using stoull_to_decimal [of 2] by (simp add: clean_wal_file_def a)
  note C = clean_wal_file_safe [OF w' a(1), unfolded a(2)]
  have removed: "(wal_name m, concat (map record_encode rs)) \<notin> set (wal_dir w')"
    if "m < 2" "\<forall>r \<in> set rs. record_ok r \<and> wr_tranc_id r \<le> 5" for m rs using C that by blast
  have kept: "(wal_name m, c) \<in> set (wal_dir w')" if "2 \<le> m" "(wal_name m, c) \<in> set (wal_dir sample_wal)" for m c
    using C that by blast
  have covered: "\<exists>rs. snd e = concat (map record_encode rs) \<and> (\<forall>r \<in> set rs. record_ok r \<and> wr_tranc_id r \<le> 5)"
    if "e \<in> set (wal_dir sample_wal)" "e \<notin> set (wal_dir w')" for e using C that by blast
  have "(wal_name 0, record_encode (createRecord 3)) \<notin> set (wal_dir w')"
    using removed [of 0 "[createRecord 3]"] by (simp add: t factories_ok)
  moreover have "(wal_name 1, record_encode (createRecord 8)) \<in> set (wal_dir w')"
  proof (rule ccontr)
    assume gone: "(wal_name 1, record_encode (createRecord 8)) \<notin> set (wal_dir w')"
    have "(wal_name 1, record_encode (createRecord 8)) \<in> set (wal_dir sample_wal)" by (simp add: sample_wal_def)
    from covered [OF this gone] obtain rs where rs: "record_encode (createRecord 8) = concat (map record_encode rs)"
      "\<forall>r \<in> set rs. record_ok r \<and> wr_tranc_id r \<le> 5" unfolding snd_conv by blast
    then have "record_decode (record_encode (createRecord 8)) = Inr rs"
      using record_decode_encode [of rs] by simp
    then have "rs = [createRecord 8]"
      using record_decode_encode [of "[createRecord 8]"] by (simp add: factories_ok)
    with rs(2) show False by (simp add: t)
  qed
  moreover have "(wal_name 2, []) \<in> set (wal_dir w')" by (rule kept) (simp_all add: sample_wal_def)
  moreover have "(wal_name 3, record_encode (createRecord 4)) \<in> set (wal_dir w')"
    by (rule kept) (simp_all add: sample_wal_def word_le_nat_alt)
  ultimately show ?thesis using w' by blast
qed

end
