(* ===== verification/Tran_Manager.thy ===== *)
theory Tran_Manager
  imports Kopi_Prelude
begin

text \<open>
  The transaction manager (class \<open>TranManager\<close> of src/src/lsm/transation.cpp): id
  allocation, the sets of active, finished and aborted transactions, the checkpoint of settled
  ids, the visibility test of reads, and the state file. A \<open>std::set\<close> or
  \<open>std::map\<close> is a list in ascending order, an \<open>unordered_set\<close> a list
  without repetitions; the mutex makes every operation one step.
\<close>

section \<open>State\<close>

datatype transaction_state = OP_COMMITTED | ABORTED

record tran_manager =
  tm_engine_bound :: bool
  tm_aborted :: "u64 list"
  tm_next :: u64
  tm_active :: "u64 list"
  tm_ready :: "(u64 \<times> transaction_state) list"
  tm_flushed :: "u64 list"
  tm_file :: "bytes option"

section \<open>Status of transactions\<close>

definition tm_is_aborted :: "tran_manager \<Rightarrow> u64 \<Rightarrow> bool" where
  "tm_is_aborted m tid \<longleftrightarrow> tid \<in> set (tm_aborted m)"

definition tm_should_skip_read :: "tran_manager \<Rightarrow> u64 \<Rightarrow> bool \<Rightarrow> bool" where
  "tm_should_skip_read m tid require_committed =
     (if tid \<in> set (tm_aborted m) then True else require_committed \<and> tid \<in> set (tm_active m))"

primrec map_assign :: "u64 \<Rightarrow> transaction_state \<Rightarrow> (u64 \<times> transaction_state) list \<Rightarrow> (u64 \<times> transaction_state) list" where
  "map_assign k v [] = [(k, v)]"
| "map_assign k v (x # xs) =
     (if fst x = k then (k, v) # xs else if k < fst x then (k, v) # x # xs else x # map_assign k v xs)"

definition tm_add_ready_to_flush_tranc_id :: "tran_manager \<Rightarrow> u64 \<Rightarrow> transaction_state \<Rightarrow> tran_manager" where
  "tm_add_ready_to_flush_tranc_id m tid state =
     m\<lparr>tm_aborted := (if state = ABORTED then List.insert tid (tm_aborted m) else tm_aborted m),
       tm_ready := map_assign tid state (tm_ready m),
       tm_active := removeAll tid (tm_active m)\<rparr>"

section \<open>Settling flushed transactions\<close>

text \<open>The leading run of consecutive ids is replaced by its last element.\<close>

fun advance_checkpoint :: "u64 list \<Rightarrow> u64 list" where
  "advance_checkpoint (a # b # xs) = (if b - a = 1 then advance_checkpoint (b # xs) else a # b # xs)"
| "advance_checkpoint xs = xs"

fun settle :: "u64 \<Rightarrow> u64 list \<Rightarrow> (u64 \<times> transaction_state) list \<Rightarrow> u64 list \<times> (u64 \<times> transaction_state) list" where
  "settle tid fl [] = (fl, [])"
| "settle tid fl ((ready_id, state) # rest) =
     (if ready_id \<le> tid then
        if ready_id \<noteq> tid \<and> state \<noteq> ABORTED then
          (let (fl', rest') = settle tid fl rest in (fl', (ready_id, state) # rest'))
        else
          settle tid (if hd fl < ready_id then advance_checkpoint (insort_insert ready_id fl) else fl) rest
      else (fl, (ready_id, state) # rest))"

definition tm_add_flushed_tranc_id :: "tran_manager \<Rightarrow> u64 \<Rightarrow> tran_manager" where
  "tm_add_flushed_tranc_id m tid =
     (let (fl, rd) = settle tid (tm_flushed m) (tm_ready m) in m\<lparr>tm_flushed := fl, tm_ready := rd\<rparr>)"

definition tm_get_next_transaction_id :: "tran_manager \<Rightarrow> u64 \<times> tran_manager" where
  "tm_get_next_transaction_id m = (tm_next m, m\<lparr>tm_next := tm_next m + 1\<rparr>)"

definition tm_get_max_flushed_tranc_id :: "tran_manager \<Rightarrow> u64" where
  "tm_get_max_flushed_tranc_id m = last (tm_flushed m)"

definition tm_get_checkpoint_tranc_id :: "tran_manager \<Rightarrow> u64" where
  "tm_get_checkpoint_tranc_id m = hd (tm_flushed m)"

text \<open>Allocating a transaction; the caller builds the context of the returned id.\<close>

definition tm_new_tranc :: "tran_manager \<Rightarrow> (u64 \<times> tran_manager) result" where
  "tm_new_tranc m =
     (if \<not> tm_engine_bound m then Inl Logic_Error
      else let (tid, m1) = tm_get_next_transaction_id m
           in Inr (tid, m1\<lparr>tm_active := insort_insert tid (tm_active m1)\<rparr>))"

definition tm_set_engine :: "tran_manager \<Rightarrow> tran_manager" where
  "tm_set_engine m = m\<lparr>tm_engine_bound := True\<rparr>"

section \<open>The state file\<close>

definition state_code :: "transaction_state \<Rightarrow> u64" where
  "state_code s = (case s of ABORTED \<Rightarrow> 1 | OP_COMMITTED \<Rightarrow> 0)"

definition append_u64s :: "u64 list \<Rightarrow> bytes" where
  "append_u64s ws = concat (map (le_write 8) ws)"

definition encode_tranc_state :: "tran_manager \<Rightarrow> bytes result" where
  "encode_tranc_state m =
     (if tm_flushed m = [] \<or> tm_next m = 0 then Inl Logic_Error
      else Inr (append_u64s
        ([tm_next m, of_nat (length (tm_flushed m)), of_nat (length (tm_ready m)),
          of_nat (length (tm_aborted m))]
         @ tm_flushed m
         @ concat (map (\<lambda>(tid, s). [tid, state_code s]) (tm_ready m))
         @ tm_aborted m)))"

text \<open>\<open>io_ok\<close>: the write and the flush of the file stream succeed.\<close>

definition tm_write_tranc_id_file :: "bool \<Rightarrow> tran_manager \<Rightarrow> tran_manager result" where
  "tm_write_tranc_id_file io_ok m =
     ebind (encode_tranc_state m) (\<lambda>buf.
       if io_ok then Inr (m\<lparr>tm_file := Some buf\<rparr>) else Inl Runtime_Error)"

definition read_u64 :: "bytes \<Rightarrow> u64 \<times> bytes" where
  "read_u64 bs = (le_read (take 8 bs), drop 8 bs)"

primrec read_flushed :: "nat \<Rightarrow> u64 list \<Rightarrow> bytes \<Rightarrow> (u64 list \<times> bytes) result" where
  "read_flushed 0 acc bs = Inr (acc, bs)"
| "read_flushed (Suc n) acc bs =
     (let (tid, bs1) = read_u64 bs
      in if acc \<noteq> [] \<and> tid \<le> last acc then Inl Runtime_Error
         else read_flushed n (acc @ [tid]) bs1)"

primrec read_ready ::
  "nat \<Rightarrow> (u64 \<times> transaction_state) list \<Rightarrow> bytes \<Rightarrow> ((u64 \<times> transaction_state) list \<times> bytes) result" where
  "read_ready 0 acc bs = Inr (acc, bs)"
| "read_ready (Suc n) acc bs =
     (let (tid, bs1) = read_u64 bs; (code, bs2) = read_u64 bs1
      in if 1 < code \<or> (acc \<noteq> [] \<and> tid \<le> fst (last acc)) then Inl Runtime_Error
         else read_ready n (acc @ [(tid, if code = 0 then OP_COMMITTED else ABORTED)]) bs2)"

primrec read_aborted :: "nat \<Rightarrow> u64 list \<Rightarrow> bytes \<Rightarrow> u64 list result" where
  "read_aborted 0 acc bs = Inr acc"
| "read_aborted (Suc n) acc bs =
     (let (tid, bs1) = read_u64 bs
      in if tid \<in> set acc then Inl Runtime_Error else read_aborted n (acc @ [tid]) bs1)"

definition decode_tranc_state ::
  "bytes \<Rightarrow> (u64 \<times> u64 list \<times> (u64 \<times> transaction_state) list \<times> u64 list) result" where
  "decode_tranc_state buf =
     (if length buf < 32 \<or> length buf mod 8 \<noteq> 0 then Inl Runtime_Error
      else
        let (next_id, b1) = read_u64 buf; (flushed_count, b2) = read_u64 b1;
            (ready_count, b3) = read_u64 b2; (aborted_count, b4) = read_u64 b3;
            remaining = length b4 div 8
        in if next_id = 0 \<or> flushed_count = 0 \<or> remaining < unat flushed_count then Inl Runtime_Error
           else
             let remaining = remaining - unat flushed_count
             in if remaining div 2 < unat ready_count then Inl Runtime_Error
                else
                  let remaining = remaining - unat ready_count * 2
                  in if unat aborted_count \<noteq> remaining then Inl Runtime_Error
                     else
                       ebind (read_flushed (unat flushed_count) [] b4) (\<lambda>(flushed, b5).
                       ebind (read_ready (unat ready_count) [] b5) (\<lambda>(ready, b6).
                       ebind (read_aborted (unat aborted_count) [] b6) (\<lambda>aborted.
                         Inr (next_id, flushed, ready, aborted)))))"

definition tm_read_tranc_id_file :: "tran_manager \<Rightarrow> tran_manager result" where
  "tm_read_tranc_id_file m = (case tm_file m of
      None \<Rightarrow> Inl Runtime_Error
    | Some buf \<Rightarrow>
        ebind (decode_tranc_state buf) (\<lambda>(next_id, flushed, ready, aborted).
          Inr (m\<lparr>tm_flushed := flushed, tm_ready := ready, tm_aborted := aborted, tm_next := next_id\<rparr>)))"

text \<open>The constructor: an existing state file is read, otherwise the checkpoint is 0.\<close>

definition tran_manager_new :: "bytes option \<Rightarrow> tran_manager result" where
  "tran_manager_new file =
     (let m = \<lparr>tm_engine_bound = False, tm_aborted = [], tm_next = 1, tm_active = [], tm_ready = [],
            tm_flushed = [], tm_file = file\<rparr>
      in case file of
           Some _ \<Rightarrow> tm_read_tranc_id_file m
         | None \<Rightarrow> Inr (m\<lparr>tm_flushed := [0], tm_file := Some []\<rparr>))"

section \<open>Invariant\<close>

definition compressed :: "u64 list \<Rightarrow> bool" where
  "compressed fl \<longleftrightarrow> fl \<noteq> [] \<and> sorted_wrt (<) fl \<and> (tl fl \<noteq> [] \<longrightarrow> hd (tl fl) - hd fl \<noteq> 1)"

definition tm_ok :: "tran_manager \<Rightarrow> bool" where
  "tm_ok m \<longleftrightarrow> compressed (tm_flushed m) \<and>
     sorted_wrt (\<lambda>a b. fst a < fst b) (tm_ready m) \<and>
     sorted_wrt (<) (tm_active m) \<and> distinct (tm_aborted m) \<and>
     (\<forall>tid. (tid, ABORTED) \<in> set (tm_ready m) \<longrightarrow> tid \<in> set (tm_aborted m)) \<and>
     fst ` set (tm_ready m) \<inter> set (tm_active m) = {}"

lemma tran_manager_new_ok: "tran_manager_new None = Inr m \<Longrightarrow> tm_ok m"
  by (auto simp: tran_manager_new_def tm_ok_def compressed_def)

text \<open>The ids known to be settled: the checkpoint stands for everything below it.\<close>

definition settled :: "u64 list \<Rightarrow> u64 set" where
  "settled fl = {i. i \<le> hd fl} \<union> set fl"

lemma map_assign_set:
  "sorted_wrt (\<lambda>a b. fst a < fst b) xs \<Longrightarrow>
   set (map_assign k v xs) = insert (k, v) {x \<in> set xs. fst x \<noteq> k}"
proof (induction xs)
  case (Cons x xs)
  then have IH: "set (map_assign k v xs) = insert (k, v) {x \<in> set xs. fst x \<noteq> k}"
    and above: "\<forall>y \<in> set xs. fst x < fst y" by auto
  consider "fst x = k" | "k < fst x" | "fst x < k" by fastforce
  then show ?case
  proof cases
    case 1
    with above have "\<forall>y \<in> set xs. fst y \<noteq> k" by auto
    with 1 show ?thesis by auto
  next
    case 2
    with above have "\<forall>y \<in> set xs. fst y \<noteq> k" by fastforce
    with 2 show ?thesis by auto
  next
    case 3
    then have "map_assign k v (x # xs) = x # map_assign k v xs" by auto
    with 3 IH show ?thesis by auto
  qed
qed simp

lemma map_assign_sorted:
  "sorted_wrt (\<lambda>a b. fst a < fst b) xs \<Longrightarrow> sorted_wrt (\<lambda>a b. fst a < fst b) (map_assign k v xs)"
proof (induction xs)
  case (Cons x xs)
  show ?case
  proof (cases "k < fst x")
    case True
    with Cons show ?thesis by (auto intro: order.strict_trans)
  next
    case False
    with Cons show ?thesis by (auto simp: map_assign_set)
  qed
qed simp

lemma sorted_wrt_removeAll: "sorted_wrt P xs \<Longrightarrow> sorted_wrt P (removeAll x xs)"
  by (induction xs) auto

lemma tm_add_ready_ok:
  assumes "tm_ok m"
  shows "tm_ok (tm_add_ready_to_flush_tranc_id m tid st)"
proof -
  have s: "sorted_wrt (\<lambda>a b. fst a < fst b) (tm_ready m)" using assms by (simp add: tm_ok_def)
  show ?thesis
    using assms map_assign_sorted [OF s] sorted_wrt_removeAll [of "(<)" "tm_active m" tid]
    by (auto simp: tm_ok_def tm_add_ready_to_flush_tranc_id_def map_assign_set [OF s])
qed

text \<open>Once a rollback is registered, no read is shown the transaction again.\<close>

lemma tm_abort_skipped:
  "tm_should_skip_read (tm_add_ready_to_flush_tranc_id m tid ABORTED) tid rc"
  "tm_should_skip_read m t rc \<Longrightarrow> t \<noteq> tid \<Longrightarrow>
   tm_should_skip_read (tm_add_ready_to_flush_tranc_id m tid st) t rc"
  by (auto simp: tm_should_skip_read_def tm_add_ready_to_flush_tranc_id_def split: if_splits)

lemma tm_add_flushed_aborted [simp]: "tm_aborted (tm_add_flushed_tranc_id m tid) = tm_aborted m"
  "tm_active (tm_add_flushed_tranc_id m tid) = tm_active m" "tm_next (tm_add_flushed_tranc_id m tid) = tm_next m"
  by (simp_all add: tm_add_flushed_tranc_id_def split: prod.split)

section \<open>The checkpoint\<close>

lemma word_diff_1: "b - a = (1 :: u64) \<longleftrightarrow> b = a + 1"
  by (simp add: diff_eq_eq add.commute)

lemma word_between: "(a :: u64) < b \<Longrightarrow> b = a + 1 \<Longrightarrow> i \<le> b \<longleftrightarrow> i \<le> a \<or> i = b"
  using inc_le [of a i] by (cases "a < i") auto

lemma advance_checkpoint_settled:
  "sorted_wrt (<) fl \<Longrightarrow> fl \<noteq> [] \<Longrightarrow>
   compressed (advance_checkpoint fl) \<and> settled (advance_checkpoint fl) = settled fl \<and>
   hd fl \<le> hd (advance_checkpoint fl) \<and> set (advance_checkpoint fl) \<subseteq> set fl"
proof (induction fl rule: advance_checkpoint.induct)
  case (1 a b xs)
  show ?case
  proof (cases "b - a = 1")
    case True
    have ab: "a < b" using 1(2) by simp
    then have b: "b = a + 1" using word_diff_1 True by simp
    have "settled (b # xs) = settled (a # b # xs)"
      using word_between [OF ab b] by (auto simp: settled_def)
    with 1 True ab show ?thesis by auto
  next
    case False
    with 1 show ?thesis by (simp add: compressed_def)
  qed
qed (auto simp: compressed_def)

lemma sorted_insort_insert: "sorted_wrt (<) fl \<Longrightarrow> sorted_wrt (<) (insort_insert (x :: u64) fl)"
  by (simp add: strict_sorted_iff sorted_insort_insert distinct_insort_insert)

lemma settled_insert:
  assumes "compressed fl" "hd fl < x"
  shows "settled (insort_insert x fl) = insert x (settled fl)" "hd (insort_insert x fl) = hd fl"
    "insort_insert x fl \<noteq> []"
proof -
  obtain a as where fl: "fl = a # as" using assms(1) by (cases fl) (auto simp: compressed_def)
  then have "insort_insert x fl = a # insort_insert x as"
    using assms(2) by (auto simp: insort_insert_key_def)
  then show "settled (insort_insert x fl) = insert x (settled fl)" "hd (insort_insert x fl) = hd fl"
    "insort_insert x fl \<noteq> []"
    by (auto simp: settled_def fl set_insort_insert)
qed

text \<open>Which ready entries one notification settles.\<close>

definition settles :: "u64 \<Rightarrow> u64 \<times> transaction_state \<Rightarrow> bool" where
  "settles tid e \<longleftrightarrow> fst e \<le> tid \<and> (fst e = tid \<or> snd e = ABORTED)"

lemma settle_spec:
  assumes "compressed fl" "sorted_wrt (\<lambda>a b. fst a < fst b) rd"
  shows "compressed (fst (settle tid fl rd)) \<and>
    settled (fst (settle tid fl rd)) = settled fl \<union> fst ` set (filter (settles tid) rd) \<and>
    snd (settle tid fl rd) = filter (\<lambda>e. \<not> settles tid e) rd \<and>
    hd fl \<le> hd (fst (settle tid fl rd))"
  using assms
proof (induction tid fl rd rule: settle.induct)
  case (2 tid fl rid st rest)
  have rest: "sorted_wrt (\<lambda>a b. fst a < fst b) rest" using 2(4) by simp
  show ?case
  proof (cases "rid \<le> tid")
    case False
    then have "\<not> settles tid e" if "e \<in> set ((rid, st) # rest)" for e
      using that 2(4) by (auto simp: settles_def)
    then have "filter (settles tid) ((rid, st) # rest) = []"
      "filter (\<lambda>e. \<not> settles tid e) ((rid, st) # rest) = (rid, st) # rest"
      by (simp_all only: filter_empty_conv filter_id_conv) blast+
    with False 2(3) show ?thesis by (simp only: settle.simps if_False fst_conv snd_conv) simp
  next
    case True
    show ?thesis
    proof (cases "rid \<noteq> tid \<and> st \<noteq> ABORTED")
      case keep: True
      obtain f r where fr: "settle tid fl rest = (f, r)" by (cases "settle tid fl rest")
      have ns: "\<not> settles tid (rid, st)" using keep by (auto simp: settles_def)
      with 2(1) [OF True keep 2(3) rest] fr True keep show ?thesis by auto
    next
      case False
      then have sv: "settles tid (rid, st)" using True by (auto simp: settles_def)
      let ?fl = "if hd fl < rid then advance_checkpoint (insort_insert rid fl) else fl"
      have step: "compressed ?fl \<and> settled ?fl = insert rid (settled fl) \<and> hd fl \<le> hd ?fl"
      proof (cases "hd fl < rid")
        case True
        note I = settled_insert [OF 2(3) True]
        have "sorted_wrt (<) fl" using 2(3) by (simp add: compressed_def)
        from advance_checkpoint_settled [OF sorted_insort_insert [OF this, of rid] I(3)] I True
        show ?thesis by simp
      next
        case False
        then have "rid \<in> settled fl" by (simp add: settled_def not_less)
        with False 2(3) show ?thesis by (simp add: insert_absorb)
      qed
      have "settle tid fl ((rid, st) # rest) = settle tid ?fl rest"
        by (simp only: settle.simps if_P [OF True] if_not_P [OF False])
      with 2(2) [OF True False] step rest sv show ?thesis by auto
    qed
  qed
qed simp

lemma tm_add_flushed_spec:
  assumes "tm_ok m"
  shows "tm_ok (tm_add_flushed_tranc_id m tid) \<and>
    settled (tm_flushed (tm_add_flushed_tranc_id m tid)) =
      settled (tm_flushed m) \<union> fst ` set (filter (settles tid) (tm_ready m)) \<and>
    tm_ready (tm_add_flushed_tranc_id m tid) = filter (\<lambda>e. \<not> settles tid e) (tm_ready m) \<and>
    tm_get_checkpoint_tranc_id m \<le> tm_get_checkpoint_tranc_id (tm_add_flushed_tranc_id m tid)"
proof -
  have c: "compressed (tm_flushed m)" and s: "sorted_wrt (\<lambda>a b. fst a < fst b) (tm_ready m)"
    using assms by (auto simp: tm_ok_def)
  obtain f r where fr: "settle tid (tm_flushed m) (tm_ready m) = (f, r)" by fastforce
  have m': "tm_add_flushed_tranc_id m tid = m\<lparr>tm_flushed := f, tm_ready := r\<rparr>"
    by (simp add: tm_add_flushed_tranc_id_def fr)
  note S = settle_spec [OF c s, of tid, unfolded fr fst_conv snd_conv]
  have "sorted_wrt (\<lambda>a b. fst a < fst b) r" using S s by (simp add: sorted_wrt_filter)
  then have "tm_ok (m\<lparr>tm_flushed := f, tm_ready := r\<rparr>)"
    using assms S by (auto simp: tm_ok_def)
  with S show ?thesis by (simp add: m' tm_get_checkpoint_tranc_id_def)
qed

text \<open>In a well-formed state the successor of the checkpoint is not settled.\<close>

lemma checkpoint_successor:
  assumes "tm_ok m" and max: "tm_get_checkpoint_tranc_id m \<noteq> - 1"
  shows "tm_get_checkpoint_tranc_id m + 1 \<notin> settled (tm_flushed m)"
proof -
  obtain a as where fl: "tm_flushed m = a # as" and c: "compressed (a # as)"
    using assms(1) by (cases "tm_flushed m") (auto simp: tm_ok_def compressed_def)
  have less: "a < a + 1"
    using max inc_less_eq_self_iff_eq [of a] by (simp add: tm_get_checkpoint_tranc_id_def fl not_le [symmetric])
  have "a + 1 \<notin> set as"
  proof
    assume "a + 1 \<in> set as"
    then obtain b bs where as: "as = b # bs" by (cases as) auto
    have ab: "a < b" "b \<le> a + 1" using c \<open>a + 1 \<in> set as\<close> by (auto simp: as compressed_def)
    then have "a + 1 \<le> b" by (simp add: inc_le)
    with ab have "b - a = 1" by simp
    with c show False by (simp add: as compressed_def)
  qed
  with less show "tm_get_checkpoint_tranc_id m + 1 \<notin> settled (tm_flushed m)"
    by (auto simp: settled_def tm_get_checkpoint_tranc_id_def fl not_le)
qed

section \<open>The state file round trip\<close>

lemma append_u64s_Cons: "append_u64s (w # ws) = le_write 8 w @ append_u64s ws"
  by (simp add: append_u64s_def)

lemma append_u64s_append: "append_u64s (xs @ ys) = append_u64s xs @ append_u64s ys"
  by (simp add: append_u64s_def)

lemma append_u64s_Nil [simp]: "append_u64s [] = []"
  by (simp add: append_u64s_def)

lemma length_append_u64s [simp]: "length (append_u64s ws) = 8 * length ws"
  by (induction ws) (simp_all add: append_u64s_Cons)

lemma read_u64_append [simp]: "read_u64 (le_write 8 w @ rest) = (w, rest)"
  by (simp add: read_u64_def le_read_write)

lemma read_flushed_append:
  "sorted_wrt (<) (acc @ ws) \<Longrightarrow>
   read_flushed (length ws) acc (append_u64s ws @ rest) = Inr (acc @ ws, rest)"
proof (induction ws arbitrary: acc)
  case (Cons w ws)
  have "\<not> (acc \<noteq> [] \<and> w \<le> last acc)"
    using Cons.prems by (auto simp: sorted_wrt_append not_le dest: last_in_set)
  moreover have "read_flushed (length ws) (acc @ [w]) (append_u64s ws @ rest) = Inr ((acc @ [w]) @ ws, rest)"
    using Cons.prems by (intro Cons.IH) simp
  ultimately show ?case by (simp add: append_u64s_Cons)
qed simp

lemma read_ready_append:
  "sorted_wrt (\<lambda>a b. fst a < fst b) (acc @ rd) \<Longrightarrow>
   read_ready (length rd) acc (append_u64s (concat (map (\<lambda>(tid, s). [tid, state_code s]) rd)) @ rest) =
     Inr (acc @ rd, rest)"
proof (induction rd arbitrary: acc)
  case (Cons e rd)
  obtain tid s where e: "e = (tid, s)" by fastforce
  have "\<not> (acc \<noteq> [] \<and> tid \<le> fst (last acc))"
    using Cons.prems by (auto simp: sorted_wrt_append not_le e dest: last_in_set)
  moreover have "read_ready (length rd) (acc @ [e])
      (append_u64s (concat (map (\<lambda>(tid, s). [tid, state_code s]) rd)) @ rest) = Inr ((acc @ [e]) @ rd, rest)"
    using Cons.prems by (intro Cons.IH) simp
  ultimately show ?case
    by (cases s) (simp_all add: append_u64s_Cons e state_code_def)
qed simp

lemma read_aborted_append:
  "distinct (acc @ ws) \<Longrightarrow> read_aborted (length ws) acc (append_u64s ws) = Inr (acc @ ws)"
proof (induction ws arbitrary: acc)
  case (Cons w ws)
  have "read_aborted (length ws) (acc @ [w]) (append_u64s ws) = Inr ((acc @ [w]) @ ws)"
    using Cons.prems by (intro Cons.IH) simp
  with Cons.prems show ?case by (simp add: append_u64s_Cons)
qed simp

definition state_fits :: "tran_manager \<Rightarrow> bool" where
  "state_fits m \<longleftrightarrow> tm_next m \<noteq> 0 \<and>
     length (tm_flushed m) < 2 ^ 64 \<and> length (tm_ready m) < 2 ^ 64 \<and> length (tm_aborted m) < 2 ^ 64"

lemma unat_count: "n < 2 ^ 64 \<Longrightarrow> unat (of_nat n :: u64) = n"
  by (simp add: unsigned_of_nat take_bit_nat_eq_self)

lemma decode_encode_tranc_state:
  assumes "tm_ok m" "state_fits m"
  shows "\<exists>buf. encode_tranc_state m = Inr buf \<and>
    decode_tranc_state buf = Inr (tm_next m, tm_flushed m, tm_ready m, tm_aborted m)"
proof -
  let ?F = "tm_flushed m" and ?R = "tm_ready m" and ?A = "tm_aborted m"
  let ?f = "append_u64s ?F" and ?a = "append_u64s ?A"
  let ?r = "append_u64s (concat (map (\<lambda>(tid, s). [tid, state_code s]) ?R))"
  let ?nf = "of_nat (length ?F) :: u64" and ?nr = "of_nat (length ?R) :: u64"
  let ?na = "of_nat (length ?A) :: u64"
  let ?buf = "le_write 8 (tm_next m) @ le_write 8 ?nf @ le_write 8 ?nr @ le_write 8 ?na @ ?f @ ?r @ ?a"
  have F: "sorted_wrt (<) ([] @ ?F)" "?F \<noteq> []" and R: "sorted_wrt (\<lambda>a b. fst a < fst b) ([] @ ?R)"
    and A: "distinct ([] @ ?A)" using assms(1) by (simp_all add: tm_ok_def compressed_def)
  have n: "tm_next m \<noteq> 0" "unat ?nf = length ?F" "unat ?nr = length ?R" "unat ?na = length ?A"
    using assms(2) unat_count by (auto simp: state_fits_def)
  have nf0: "?nf \<noteq> 0" using n(2) F(2) by auto
  have rl: "length (concat (map (\<lambda>(tid, s). [tid, state_code s]) rd)) = 2 * length rd" for rd
    by (induction rd) auto
  have lr: "length ?r = 16 * length ?R" using rl [of ?R] by simp
  have enc: "encode_tranc_state m = Inr ?buf"
    using F(2) n(1) by (simp add: encode_tranc_state_def append_u64s_Cons append_u64s_append)
  have total: "length (?f @ ?r @ ?a) div 8 = length ?F + 2 * length ?R + length ?A"
    unfolding length_append length_append_u64s rl by simp
  have len: "length ?buf = 32 + length (?f @ ?r @ ?a)" by simp
  have m8: "length (?f @ ?r @ ?a) mod 8 = 0" unfolding length_append length_append_u64s rl by presburger
  have "\<not> (length ?buf < 32 \<or> length ?buf mod 8 \<noteq> 0)"
    unfolding len using m8 by presburger
  then have "decode_tranc_state ?buf = Inr (tm_next m, ?F, ?R, ?A)"
    unfolding decode_tranc_state_def
    by (simp only: if_False read_u64_append Let_def prod.case total n nf0 simp_thms
        diff_add_inverse read_flushed_append [OF F(1)])
      (simp add: read_ready_append [OF R, unfolded append_Nil] read_aborted_append [OF A, unfolded append_Nil])
  with enc show ?thesis by blast
qed

text \<open>A manager that is saved and reopened has the same ids and sets; no transaction is
  active and no engine is bound.\<close>

lemma tran_manager_reopen:
  assumes "tm_ok m" "state_fits m"
  shows "\<exists>m'. tm_write_tranc_id_file True m = Inr m' \<and>
    tran_manager_new (tm_file m') = Inr (m'\<lparr>tm_engine_bound := False, tm_active := []\<rparr>)"
proof -
  obtain buf where b: "encode_tranc_state m = Inr buf"
    "decode_tranc_state buf = Inr (tm_next m, tm_flushed m, tm_ready m, tm_aborted m)"
    using decode_encode_tranc_state [OF assms] by blast
  then show ?thesis
    by (simp add: tm_write_tranc_id_file_def tran_manager_new_def tm_read_tranc_id_file_def Let_def)
qed

section \<open>Life of a manager\<close>

text \<open>
  \<open>tm_reach m R N\<close>: the manager state \<open>m\<close> is reached from a fresh one by
  allocations of transactions and of bare ids, registrations \<open>R\<close> of ended transactions,
  flush notifications \<open>N\<close> and saved and reopened state files. A registration is for an
  id that was allocated; allocation stops before the 64-bit counter wraps.
\<close>

inductive tm_reach :: "tran_manager \<Rightarrow> (u64 \<times> transaction_state) set \<Rightarrow> u64 set \<Rightarrow> bool" where
  fresh: "tran_manager_new None = Inr m \<Longrightarrow> tm_reach m {} {}"
| bind: "tm_reach m R N \<Longrightarrow> tm_reach (tm_set_engine m) R N"
| begin_tran: "tm_reach m R N \<Longrightarrow> tm_next m \<noteq> - 1 \<Longrightarrow> tm_new_tranc m = Inr (tid, m') \<Longrightarrow> tm_reach m' R N"
| take_id: "tm_reach m R N \<Longrightarrow> tm_next m \<noteq> - 1 \<Longrightarrow> tm_get_next_transaction_id m = (tid, m') \<Longrightarrow>
    tm_reach m' R N"
| finish: "tm_reach m R N \<Longrightarrow> tid < tm_next m \<Longrightarrow>
    tm_reach (tm_add_ready_to_flush_tranc_id m tid st) (insert (tid, st) R) N"
| flushed: "tm_reach m R N \<Longrightarrow> tm_reach (tm_add_flushed_tranc_id m tid) R (insert tid N)"
| reopen: "tm_reach m R N \<Longrightarrow> state_fits m \<Longrightarrow> tm_write_tranc_id_file True m = Inr m1 \<Longrightarrow>
    tran_manager_new (tm_file m1) = Inr m' \<Longrightarrow> tm_reach m' R N"

definition tm_inv :: "tran_manager \<Rightarrow> (u64 \<times> transaction_state) set \<Rightarrow> u64 set \<Rightarrow> bool" where
  "tm_inv m R N \<longleftrightarrow> tm_ok m \<and> 0 < tm_next m \<and> set (tm_ready m) \<subseteq> R \<and>
     (\<forall>tid \<in> fst ` set (tm_ready m) \<union> set (tm_active m). tid < tm_next m) \<and>
     (\<forall>i \<in> settled (tm_flushed m). i = 0 \<or> (\<exists>st. (i, st) \<in> R \<and> (st = ABORTED \<or> i \<in> N))) \<and>
     (\<forall>i. (i, ABORTED) \<in> R \<longrightarrow> i \<in> set (tm_aborted m))"

lemma next_less: "(n :: u64) \<noteq> - 1 \<Longrightarrow> n < n + 1"
  using inc_less_eq_self_iff_eq [of n] by (simp add: not_le [symmetric])

lemma tm_inv_take_id:
  assumes "tm_inv m R N" "tm_next m \<noteq> - 1"
  shows "tm_inv (m\<lparr>tm_next := tm_next m + 1\<rparr>) R N"
  using assms(1) next_less [OF assms(2)]
  by (auto simp: tm_inv_def tm_ok_def intro: order.strict_trans)

lemma tm_inv_activate:
  assumes "tm_inv m R N" "tid < tm_next m" "tid \<notin> fst ` set (tm_ready m)"
  shows "tm_inv (m\<lparr>tm_active := insort_insert tid (tm_active m)\<rparr>) R N"
  using assms by (auto simp: tm_inv_def tm_ok_def set_insort_insert sorted_insort_insert)

lemma tm_inv_begin:
  assumes "tm_inv m R N" "tm_next m \<noteq> - 1" "tm_new_tranc m = Inr (tid, m')"
  shows "tm_inv m' R N"
proof -
  let ?m = "m\<lparr>tm_next := tm_next m + 1\<rparr>"
  have m': "m' = ?m\<lparr>tm_active := insort_insert (tm_next m) (tm_active ?m)\<rparr>"
    using assms(3) by (auto simp: tm_new_tranc_def tm_get_next_transaction_id_def split: if_splits)
  have "tm_next m \<notin> fst ` set (tm_ready ?m)" using assms(1) by (auto simp: tm_inv_def)
  then show ?thesis
    unfolding m' using tm_inv_take_id [OF assms(1,2)] next_less [OF assms(2)]
    by (intro tm_inv_activate) auto
qed

lemma tm_inv_finish:
  assumes "tm_inv m R N" "tid < tm_next m"
  shows "tm_inv (tm_add_ready_to_flush_tranc_id m tid st) (insert (tid, st) R) N"
proof -
  have ok: "tm_ok m" and s: "sorted_wrt (\<lambda>a b. fst a < fst b) (tm_ready m)"
    using assms(1) by (auto simp: tm_inv_def tm_ok_def)
  have A: "(\<forall>i \<in> settled (tm_flushed m). i = 0 \<or> (\<exists>st'. (i, st') \<in> insert (tid, st) R \<and> (st' = ABORTED \<or> i \<in> N)))"
    using assms(1) unfolding tm_inv_def by blast
  have B: "(\<forall>i. (i, ABORTED) \<in> insert (tid, st) R \<longrightarrow>
      i \<in> set (if st = ABORTED then List.insert tid (tm_aborted m) else tm_aborted m))"
    using assms(1) by (auto simp: tm_inv_def)
  show ?thesis
    using tm_add_ready_ok [OF ok, of tid st] assms A B
    by (auto simp: tm_inv_def tm_add_ready_to_flush_tranc_id_def map_assign_set [OF s])
qed

lemma tm_inv_flushed:
  assumes "tm_inv m R N"
  shows "tm_inv (tm_add_flushed_tranc_id m tid) R (insert tid N)"
proof -
  let ?m = "tm_add_flushed_tranc_id m tid"
  have ok: "tm_ok m" and pos: "0 < tm_next m" and R: "set (tm_ready m) \<subseteq> R"
    and below: "\<forall>tid \<in> fst ` set (tm_ready m) \<union> set (tm_active m). tid < tm_next m"
    and S: "\<forall>i \<in> settled (tm_flushed m). i = 0 \<or> (\<exists>st. (i, st) \<in> R \<and> (st = ABORTED \<or> i \<in> N))"
    and A: "\<forall>i. (i, ABORTED) \<in> R \<longrightarrow> i \<in> set (tm_aborted m)"
    using assms unfolding tm_inv_def by simp_all
  have F: "tm_ok ?m" "settled (tm_flushed ?m) = settled (tm_flushed m) \<union> fst ` set (filter (settles tid) (tm_ready m))"
    "tm_ready ?m = filter (\<lambda>e. \<not> settles tid e) (tm_ready m)"
    using tm_add_flushed_spec [OF ok, of tid] by simp_all
  have sub: "set (tm_ready ?m) \<subseteq> set (tm_ready m)" unfolding F(3) by auto
  have "i = 0 \<or> (\<exists>st. (i, st) \<in> R \<and> (st = ABORTED \<or> i \<in> insert tid N))"
    if "i \<in> settled (tm_flushed ?m)" for i
  proof (cases "i \<in> settled (tm_flushed m)")
    case True
    with S show ?thesis by blast
  next
    case False
    with that F(2) obtain e where "e \<in> set (tm_ready m)" "settles tid e" "i = fst e" by auto
    with R show ?thesis by (cases e) (auto simp: settles_def)
  qed
  moreover have "\<forall>tid \<in> fst ` set (tm_ready ?m) \<union> set (tm_active m). tid < tm_next m"
    using below sub by blast
  ultimately show ?thesis
    unfolding tm_inv_def tm_add_flushed_aborted using F(1) pos sub R A by blast
qed

lemma tm_inv_reopen:
  assumes "tm_inv m R N" "state_fits m" "tm_write_tranc_id_file True m = Inr m1"
    "tran_manager_new (tm_file m1) = Inr m'"
  shows "tm_inv m' R N"
proof -
  have ok: "tm_ok m" using assms(1) by (simp add: tm_inv_def)
  have m': "m' = m1\<lparr>tm_engine_bound := False, tm_active := []\<rparr>"
    using tran_manager_reopen [OF ok assms(2)] assms(3,4) by auto
  obtain buf where "m1 = m\<lparr>tm_file := Some buf\<rparr>"
    using assms(3) by (auto simp: tm_write_tranc_id_file_def ebind_Inr_conv)
  then show ?thesis using assms(1) by (auto simp: m' tm_inv_def tm_ok_def)
qed

lemma tm_reach_inv: "tm_reach m R N \<Longrightarrow> tm_inv m R N"
proof (induction rule: tm_reach.induct)
  case (fresh m)
  then show ?case
    using tran_manager_new_ok [OF fresh] by (auto simp: tm_inv_def tran_manager_new_def settled_def)
next
  case (bind m R N)
  then show ?case by (simp add: tm_set_engine_def tm_inv_def tm_ok_def)
next
  case (take_id m R N tid m')
  then have "m' = m\<lparr>tm_next := tm_next m + 1\<rparr>" by (auto simp: tm_get_next_transaction_id_def)
  with tm_inv_take_id [OF take_id.IH take_id.hyps(2)] show ?case by simp
qed (use tm_inv_begin tm_inv_finish tm_inv_flushed tm_inv_reopen in blast)+

text \<open>C13: the checkpoint is safe in every reachable state, across restarts: every id between 1 and
  the checkpoint was registered as ended, and it was rolled back or its commit mark was reported
  as flushed. A log file whose ids are all up to the checkpoint is therefore not needed again.\<close>

theorem checkpoint_safe:
  assumes "tm_reach m R N" "0 < i" "i \<le> tm_get_checkpoint_tranc_id m"
  shows "\<exists>st. (i, st) \<in> R \<and> (st = ABORTED \<or> i \<in> N)"
proof -
  have "i \<in> settled (tm_flushed m)" "i \<noteq> 0"
    using assms(2,3) by (auto simp: settled_def tm_get_checkpoint_tranc_id_def)
  with tm_reach_inv [OF assms(1)] show ?thesis unfolding tm_inv_def by blast
qed

text \<open>C14: a transaction that was ever registered as rolled back is skipped by every read, strict
  or not, in every later state, flush notifications and restarts included.\<close>

theorem rolled_back_never_read:
  assumes "tm_reach m R N" "(tid, ABORTED) \<in> R"
  shows "tm_should_skip_read m tid require_committed \<and> tm_is_aborted m tid"
  using tm_reach_inv [OF assms(1)] assms(2)
  by (auto simp: tm_inv_def tm_should_skip_read_def tm_is_aborted_def)

section \<open>Progress of the checkpoint\<close>

text \<open>A registered id stays known until it is settled, restarts included.\<close>

lemma registered_known:
  "tm_reach m R N \<Longrightarrow> (i, st) \<in> R \<Longrightarrow> i \<in> settled (tm_flushed m) \<union> fst ` set (tm_ready m)"
proof (induction arbitrary: st rule: tm_reach.induct)
  case (finish m R N tid st')
  have "sorted_wrt (\<lambda>a b. fst a < fst b) (tm_ready m)"
    using tm_reach_inv [OF finish.hyps(1)] by (simp add: tm_inv_def tm_ok_def)
  from map_assign_set [OF this, of tid st'] finish show ?case
    by (cases "i = tid") (force simp: tm_add_ready_to_flush_tranc_id_def image_iff)+
next
  case (flushed m R N tid)
  have "tm_ok m" using tm_reach_inv [OF flushed.hyps] by (simp add: tm_inv_def)
  from tm_add_flushed_spec [OF this, of tid] flushed show ?case by (fastforce simp: image_iff)
next
  case (reopen m R N m1 m')
  have "tm_ok m" using tm_reach_inv [OF reopen.hyps(1)] by (simp add: tm_inv_def)
  from tran_manager_reopen [OF this reopen.hyps(2)] reopen show ?case
    by (auto simp: tm_write_tranc_id_file_def ebind_Inr_conv)
qed (auto simp: tran_manager_new_def tm_set_engine_def tm_new_tranc_def tm_get_next_transaction_id_def split: if_splits)

definition notify_all :: "u64 list \<Rightarrow> tran_manager \<Rightarrow> tran_manager" where
  "notify_all ts m = fold (\<lambda>t m. tm_add_flushed_tranc_id m t) ts m"

lemma notify_all_reach: "tm_reach m R N \<Longrightarrow> tm_reach (notify_all ts m) R (set ts \<union> N)"
proof (induction ts arbitrary: m N)
  case (Cons t ts)
  from Cons.IH [OF tm_reach.flushed [OF Cons.prems]] show ?case by (simp add: notify_all_def)
qed (simp add: notify_all_def)

lemma notify_all_settled:
  "tm_ok m \<Longrightarrow> settled (tm_flushed (notify_all ts m)) =
     settled (tm_flushed m) \<union> fst ` {e \<in> set (tm_ready m). \<exists>t \<in> set ts. settles t e}"
proof (induction ts arbitrary: m)
  case (Cons t ts)
  note S = tm_add_flushed_spec [OF Cons.prems, of t]
  have ok: "tm_ok (tm_add_flushed_tranc_id m t)" using S by blast
  have "{e \<in> set (tm_ready m). \<exists>t \<in> set (t # ts). settles t e} = set (filter (settles t) (tm_ready m)) \<union>
      {e \<in> set (filter (\<lambda>e. \<not> settles t e) (tm_ready m)). \<exists>t \<in> set ts. settles t e}"
    by auto
  with Cons.IH [OF ok] S show ?case by (simp add: notify_all_def image_Un Un_assoc)
qed (simp add: notify_all_def)

text \<open>C36: the checkpoint advances. If every id from 1 to n was registered as ended, in any order
  and across restarts, and the flush notifications that follow, in any order, name every
  committed transaction up to n that is still waiting, and reach every rolled back one, then the
  checkpoint is at least n afterwards; and it is n exactly when n + 1 was not registered: an id
  that is taken and never registered, as the auto-commit operations of the store do, stops it.\<close>

theorem checkpoint_advances:
  assumes "tm_reach m R N" "\<forall>i. 0 < i \<and> i \<le> n \<longrightarrow> (\<exists>st. (i, st) \<in> R)"
    and "\<forall>i st. (i, st) \<in> set (tm_ready m) \<and> i \<le> n \<longrightarrow> i \<in> set ts \<or> st = ABORTED \<and> (\<exists>t \<in> set ts. i \<le> t)"
  shows "n \<le> tm_get_checkpoint_tranc_id (notify_all ts m) \<and>
    (n \<noteq> - 1 \<and> (\<forall>st. (n + 1, st) \<notin> R) \<longrightarrow> tm_get_checkpoint_tranc_id (notify_all ts m) = n)"
proof -
  let ?m = "notify_all ts m" and ?c = "tm_get_checkpoint_tranc_id (notify_all ts m)"
  have ok: "tm_ok m" using tm_reach_inv [OF assms(1)] by (simp add: tm_inv_def)
  note inv = tm_reach_inv [OF notify_all_reach [OF assms(1), of ts]]
  have known: "i \<in> settled (tm_flushed ?m)" if i: "i \<le> n" for i
  proof (cases "i = 0 \<or> i \<in> settled (tm_flushed m)")
    case True
    then show ?thesis using notify_all_settled [OF ok, of ts] by (auto simp: settled_def)
  next
    case False
    with assms(2) i registered_known [OF assms(1)] obtain st where "(i, st) \<in> set (tm_ready m)"
      by (fastforce simp: word_gt_0)
    moreover from this assms(3) i have "\<exists>t \<in> set ts. settles t (i, st)" by (fastforce simp: settles_def)
    ultimately show ?thesis unfolding notify_all_settled [OF ok] by (force simp: image_iff)
  qed
  have n: "n \<le> ?c"
  proof (rule ccontr)
    assume "\<not> n \<le> ?c"
    then have c: "?c < n" by simp
    then have "?c \<noteq> - 1" by (metis not_less word_order.extremum)
    moreover from c have "?c + 1 \<le> n" by (rule inc_le)
    ultimately show False using checkpoint_successor [of ?m] inv known by (auto simp: tm_inv_def)
  qed
  moreover have "?c = n" if stop: "n \<noteq> - 1" "\<forall>st. (n + 1, st) \<notin> R"
  proof (rule ccontr)
    assume "?c \<noteq> n"
    with n have "n < ?c" by simp
    then have "n + 1 \<le> ?c" by (rule inc_le)
    then have "n + 1 \<in> settled (tm_flushed ?m)" by (simp add: settled_def tm_get_checkpoint_tranc_id_def)
    moreover have "n + 1 \<noteq> 0" using next_less [OF stop(1)] by (metis not_less word_le_0_iff word_zero_le)
    ultimately show False using inv stop(2) unfolding tm_inv_def by blast
  qed
  ultimately show ?thesis by blast
qed

text \<open>C35: a flush notification settles the notified id, when it is registered, and every registered
  rollback below it, nothing else; it removes exactly these registrations, never moves the
  checkpoint back, and keeps the state well formed.\<close>

theorem flush_notification_exact:
  assumes "tm_reach m R N"
  shows "tm_ok (tm_add_flushed_tranc_id m tid) \<and>
    settled (tm_flushed (tm_add_flushed_tranc_id m tid)) =
      settled (tm_flushed m) \<union> fst ` set (filter (settles tid) (tm_ready m)) \<and>
    tm_ready (tm_add_flushed_tranc_id m tid) = filter (\<lambda>e. \<not> settles tid e) (tm_ready m) \<and>
    tm_get_checkpoint_tranc_id m \<le> tm_get_checkpoint_tranc_id (tm_add_flushed_tranc_id m tid)"
  using tm_add_flushed_spec [of m tid] tm_reach_inv [OF assms] by (simp add: tm_inv_def)

text \<open>C27: the state file of every reachable state whose sets fit 64-bit counts is read back by
  the constructor of the next manager: same ids, same sets, no active transaction.\<close>

theorem state_file_roundtrip:
  assumes "tm_reach m R N" "state_fits m"
  shows "\<exists>m'. tm_write_tranc_id_file True m = Inr m' \<and>
    tran_manager_new (tm_file m') = Inr (m'\<lparr>tm_engine_bound := False, tm_active := []\<rparr>)"
  using tran_manager_reopen [OF _ assms(2)] tm_reach_inv [OF assms(1)] by (simp add: tm_inv_def)

section \<open>Examples\<close>

text \<open>Transaction 1 is rolled back, 2 commits and is flushed, then the id 3 is taken.\<close>

definition ready_manager :: tran_manager where
  "ready_manager = \<lparr>tm_engine_bound = True, tm_aborted = [1], tm_next = 3, tm_active = [],
     tm_ready = [(1, ABORTED), (2, OP_COMMITTED)], tm_flushed = [0], tm_file = Some []\<rparr>"

definition sample_manager :: tran_manager where
  "sample_manager = \<lparr>tm_engine_bound = True, tm_aborted = [1], tm_next = 4, tm_active = [], tm_ready = [],
     tm_flushed = [2], tm_file = Some []\<rparr>"

lemma ready_manager_reach: "tm_reach ready_manager {(2, OP_COMMITTED), (1, ABORTED)} {}"
proof -
  let ?m0 = "\<lparr>tm_engine_bound = False, tm_aborted = [], tm_next = 1, tm_active = [], tm_ready = [],
     tm_flushed = [0], tm_file = Some []\<rparr>"
  let ?m1 = "?m0\<lparr>tm_engine_bound := True\<rparr>"
  let ?m2 = "?m1\<lparr>tm_next := 2, tm_active := [1]\<rparr>"
  let ?m3 = "?m2\<lparr>tm_next := 3, tm_active := [1, 2]\<rparr>"
  let ?m4 = "?m3\<lparr>tm_aborted := [1], tm_ready := [(1, ABORTED)], tm_active := [2]\<rparr>"
  have "tm_reach ?m0 {} {}" by (rule tm_reach.fresh) (simp add: tran_manager_new_def)
  from tm_reach.bind [OF this] have "tm_reach ?m1 {} {}" by (simp add: tm_set_engine_def)
  from tm_reach.begin_tran [OF this, of 1 ?m2] have "tm_reach ?m2 {} {}"
    by (simp add: tm_new_tranc_def tm_get_next_transaction_id_def insort_insert_key_def word_le_nat_alt)
  from tm_reach.begin_tran [OF this, of 2 ?m3] have "tm_reach ?m3 {} {}"
    by (simp add: tm_new_tranc_def tm_get_next_transaction_id_def insort_insert_key_def word_le_nat_alt)
  from tm_reach.finish [OF this, of 1 ABORTED] have "tm_reach ?m4 {(1, ABORTED)} {}"
    by (simp add: tm_add_ready_to_flush_tranc_id_def)
  from tm_reach.finish [OF this, of 2 OP_COMMITTED] show ?thesis
    by (simp add: tm_add_ready_to_flush_tranc_id_def ready_manager_def)
qed

lemma ready_manager_notified: "tm_add_flushed_tranc_id ready_manager 2 = ready_manager\<lparr>tm_ready := [], tm_flushed := [2]\<rparr>"
  by (simp add: ready_manager_def tm_add_flushed_tranc_id_def insort_insert_key_def word_le_nat_alt)

lemma sample_manager_reach: "tm_reach sample_manager {(2, OP_COMMITTED), (1, ABORTED)} {2}"
proof -
  from tm_reach.flushed [OF ready_manager_reach, of 2]
  have "tm_reach (ready_manager\<lparr>tm_ready := [], tm_flushed := [2]\<rparr>) {(2, OP_COMMITTED), (1, ABORTED)} {2}"
    by (simp add: ready_manager_notified)
  from tm_reach.take_id [OF this, of 3 sample_manager] show ?thesis
    by (simp add: tm_get_next_transaction_id_def sample_manager_def ready_manager_def)
qed

text \<open>Both transactions are waiting; the notification of 2 moves the checkpoint from 0 to 2.\<close>

theorem checkpoint_advances_witness:
  "tm_get_checkpoint_tranc_id ready_manager = 0 \<and> tm_get_checkpoint_tranc_id (notify_all [2] ready_manager) = 2"
proof -
  have small: "i = 1 \<or> i = 2" if "0 < i" "i \<le> 2" for i :: u64
  proof -
    have "unat i = 1 \<or> unat i = 2" using that by (auto simp: word_less_nat_alt word_le_nat_alt)
    then show ?thesis by (auto simp: word_unat_eq_iff)
  qed
  have "\<forall>i. 0 < i \<and> i \<le> (2 :: u64) \<longrightarrow> (\<exists>st. (i, st) \<in> {(2, OP_COMMITTED), (1, ABORTED)})" using small by blast
  moreover have "\<forall>i st. (i, st) \<in> set (tm_ready ready_manager) \<and> i \<le> 2 \<longrightarrow>
      i \<in> set [2] \<or> st = ABORTED \<and> (\<exists>t \<in> set [2]. i \<le> t)"
    by (auto simp: ready_manager_def word_le_nat_alt)
  ultimately have "tm_get_checkpoint_tranc_id (notify_all [2] ready_manager) = 2"
    using checkpoint_advances [OF ready_manager_reach, of 2 "[2]"] by auto
  then show ?thesis by (simp add: ready_manager_def tm_get_checkpoint_tranc_id_def)
qed

theorem checkpoint_safe_witness:
  "\<exists>st. (1, st) \<in> {(2 :: u64, OP_COMMITTED), (1, ABORTED)} \<and> (st = ABORTED \<or> (1 :: u64) \<in> {2})"
  by (rule checkpoint_safe [OF sample_manager_reach])
    (simp_all add: tm_get_checkpoint_tranc_id_def sample_manager_def)

theorem rolled_back_never_read_witness: "tm_should_skip_read sample_manager 1 False \<and> tm_is_aborted sample_manager 1"
  by (rule rolled_back_never_read [OF sample_manager_reach]) simp

theorem flush_notification_exact_witness:
  "tm_ready (tm_add_flushed_tranc_id ready_manager 2) = [] \<and>
    settled (tm_flushed (tm_add_flushed_tranc_id ready_manager 2)) = settled [0] \<union> {1, 2}"
  using flush_notification_exact [OF ready_manager_reach, of 2]
  by (auto simp: ready_manager_def settles_def word_le_nat_alt)

theorem state_file_roundtrip_witness:
  "\<exists>m'. tm_write_tranc_id_file True sample_manager = Inr m' \<and>
    tran_manager_new (tm_file m') = Inr (m'\<lparr>tm_engine_bound := False, tm_active := []\<rparr>)"
  by (rule state_file_roundtrip [OF sample_manager_reach]) (simp add: state_fits_def sample_manager_def)

end
