(* ===== verification/Merge_Iter.thy ===== *)
theory Merge_Iter
  imports SstIter_Range "HOL-Library.Multiset"
begin

text \<open>
  The iterators over several tables: ConcactIterator (src/src/sst/concact_iterator.cpp), which
  chains the SSTs of a level, and TwoMergeIterator (src/src/lsm/two_merge_iterator.cpp), which
  merges two streams. Both are used through the virtual functions of BaseIterator, which are a
  record of functions here; the locale \<open>record_stream\<close> is the contract of that interface.
\<close>

section \<open>BaseIterator\<close>

text \<open>\<open>io_fuel\<close> bounds the records an iterator has left; it is the fuel of loops that run to
  the end of an iterator and has no counterpart in the code.\<close>

record 'it iter_ops =
  io_valid :: "'it \<Rightarrow> bool result"
  io_end :: "'it \<Rightarrow> bool result"
  io_deref :: "'it \<Rightarrow> (bytes \<times> bytes) result"
  io_tid :: "'it \<Rightarrow> u64 result"
  io_next :: "'it \<Rightarrow> 'it cio"
  io_fuel :: "'it \<Rightarrow> nat"

text \<open>The loop \<open>while (it->is_valid() && P(it)) ++it\<close>.\<close>

primrec skip_while :: "nat \<Rightarrow> ('it \<Rightarrow> bool result) \<Rightarrow> 'it iter_ops \<Rightarrow> 'it \<Rightarrow> 'it cio" where
  "skip_while 0 P ops it = cthrow Diverges"
| "skip_while (Suc n) P ops it =
     cbind (clift (io_valid ops it)) (\<lambda>valid.
       if \<not> valid then cret it
       else cbind (clift (P it)) (\<lambda>more.
         if more then cbind (io_next ops it) (\<lambda>it'. skip_while n P ops it') else cret it))"

section \<open>ConcactIterator\<close>

record conc_iter =
  ci_cur :: sst_iter
  ci_idx :: nat
  ci_ssts :: "sst list"
  ci_max_tranc_id :: u64
  ci_keep_all :: bool
  ci_is_aborted :: abort_check

text \<open>The first SST from \<open>idx\<close> on with a visible record, and its iterator; the iterator of
  no SST when there is none.\<close>

function conc_from :: "sst list \<Rightarrow> u64 \<Rightarrow> bool \<Rightarrow> abort_check \<Rightarrow> nat \<Rightarrow> (nat \<times> sst_iter) cio" where
  "conc_from ssts t keep ab idx =
     (if idx < length ssts then
        cbind (sst_begin (ssts ! idx) t keep ab) (\<lambda>it.
        cbind (clift (sit_is_valid it)) (\<lambda>valid.
          if valid then cret (idx, it) else conc_from ssts t keep ab (Suc idx)))
      else cret (idx, sit_start None t keep None))"
  by pat_completeness auto
termination by (relation "measure (\<lambda>(ssts, t, keep, ab, idx). length ssts - idx)") auto

declare conc_from.simps [simp del]

definition conc_new :: "sst list \<Rightarrow> u64 \<Rightarrow> bool \<Rightarrow> abort_check \<Rightarrow> conc_iter cio" where
  "conc_new ssts t keep ab =
     cbind (conc_from ssts t keep ab 0) (\<lambda>(idx, it).
       cret \<lparr>ci_cur = it, ci_idx = idx, ci_ssts = ssts, ci_max_tranc_id = t, ci_keep_all = keep,
         ci_is_aborted = ab\<rparr>)"

definition conc_is_end :: "conc_iter \<Rightarrow> bool result" where
  "conc_is_end c =
     (if sit_is_end (ci_cur c) then Inr True
      else ebind (sit_is_valid (ci_cur c)) (\<lambda>valid. Inr (\<not> valid)))"

definition conc_is_valid :: "conc_iter \<Rightarrow> bool result" where
  "conc_is_valid c = (if sit_is_end (ci_cur c) then Inr False else sit_is_valid (ci_cur c))"

definition conc_deref :: "conc_iter \<Rightarrow> (bytes \<times> bytes) result" where
  "conc_deref c =
     ebind (conc_is_valid c) (\<lambda>valid. if \<not> valid then Inl Runtime_Error else sit_deref (ci_cur c))"

definition conc_get_cur_tranc_id :: "conc_iter \<Rightarrow> u64 result" where
  "conc_get_cur_tranc_id c = sit_get_cur_tranc_id (ci_cur c)"

definition conc_get_tranc_id :: "conc_iter \<Rightarrow> u64 result" where
  "conc_get_tranc_id c =
     (if ci_keep_all c then sit_get_tranc_id (ci_cur c) else Inr (ci_max_tranc_id c))"

definition conc_eq :: "conc_iter \<Rightarrow> conc_iter \<Rightarrow> bool" where
  "conc_eq x y \<longleftrightarrow> sit_eq (ci_cur y) (ci_cur x)"

definition conc_next :: "conc_iter \<Rightarrow> conc_iter cio" where
  "conc_next c =
     cbind (clift (conc_is_end c)) (\<lambda>at_end.
       if at_end then cret c
       else
         cbind (sit_next (ci_cur c)) (\<lambda>it.
         cbind (clift (sit_is_valid it)) (\<lambda>valid.
           if valid then cret (c\<lparr>ci_cur := it\<rparr>)
           else cbind (conc_from (ci_ssts c) (ci_max_tranc_id c) (ci_keep_all c) (ci_is_aborted c)
                  (Suc (ci_idx c))) (\<lambda>(idx, it'). cret (c\<lparr>ci_cur := it', ci_idx := idx\<rparr>)))))"

definition conc_ops :: "conc_iter iter_ops" where
  "conc_ops = \<lparr>io_valid = conc_is_valid, io_end = conc_is_end, io_deref = conc_deref,
     io_tid = conc_get_cur_tranc_id, io_next = conc_next,
     io_fuel = (\<lambda>c. Suc (sum_list (map (\<lambda>s. length (sst_file s)) (ci_ssts c))))\<rparr>"

definition heap_ops :: "heap_iter iter_ops" where
  "heap_ops = \<lparr>io_valid = (\<lambda>h. Inr (heap_is_valid h)), io_end = (\<lambda>h. Inr (heap_is_end h)),
     io_deref = heap_deref, io_tid = heap_get_cur_tranc_id, io_next = (\<lambda>h. cret (heap_next h)),
     io_fuel = (\<lambda>h. Suc (length (items h)))\<rparr>"

section \<open>TwoMergeIterator\<close>

text \<open>A null pointer is \<open>None\<close>. The pair \<open>current\<close> behind \<open>operator->\<close> is
  the value of \<open>operator*\<close>.\<close>

record ('a, 'b) two_merge =
  tw_a :: "'a option"
  tw_b :: "'b option"
  tw_choose_a :: bool
  tw_max_tranc_id :: u64
  tw_keep_all :: bool

definition two_default :: "('a, 'b) two_merge" where
  "two_default = \<lparr>tw_a = None, tw_b = None, tw_choose_a = False, tw_max_tranc_id = 0, tw_keep_all = False\<rparr>"

definition choose_it_a :: "'a iter_ops \<Rightarrow> 'b iter_ops \<Rightarrow> ('a, 'b) two_merge \<Rightarrow> bool result" where
  "choose_it_a opsa opsb w = (case tw_a w of
      None \<Rightarrow> Inl Undefined
    | Some a \<Rightarrow>
        ebind (io_end opsa a) (\<lambda>end_a.
          if end_a then Inr False
          else case tw_b w of
              None \<Rightarrow> Inl Undefined
            | Some b \<Rightarrow>
                ebind (io_end opsb b) (\<lambda>end_b.
                  if end_b then Inr True
                  else ebind (io_deref opsa a) (\<lambda>kv_a. ebind (io_deref opsb b) (\<lambda>kv_b.
                    if fst kv_a \<noteq> fst kv_b then Inr (fst kv_a < fst kv_b)
                    else ebind (io_tid opsa a) (\<lambda>t_a. ebind (io_tid opsb b) (\<lambda>t_b.
                      Inr (t_b \<le> t_a))))))))"

definition skip_opt :: "('it \<Rightarrow> bool result) \<Rightarrow> 'it iter_ops \<Rightarrow> 'it option \<Rightarrow> 'it option cio" where
  "skip_opt P ops ito = (case ito of
      None \<Rightarrow> cret None
    | Some it \<Rightarrow> cbind (skip_while (io_fuel ops it) P ops it) (\<lambda>it'. cret (Some it')))"

definition two_skip_by_tranc_id ::
  "'a iter_ops \<Rightarrow> 'b iter_ops \<Rightarrow> ('a, 'b) two_merge \<Rightarrow> ('a, 'b) two_merge cio" where
  "two_skip_by_tranc_id opsa opsb w =
     (if tw_max_tranc_id w = 0 then cret w
      else
        cbind (skip_opt (\<lambda>a. ebind (io_tid opsa a) (\<lambda>t. Inr (tw_max_tranc_id w < t))) opsa (tw_a w)) (\<lambda>a'.
        cbind (skip_opt (\<lambda>b. ebind (io_tid opsb b) (\<lambda>t. Inr (tw_max_tranc_id w < t))) opsb (tw_b w)) (\<lambda>b'.
          cret (w\<lparr>tw_a := a', tw_b := b'\<rparr>))))"

text \<open>The end of the constructor and of \<open>operator++\<close>.\<close>

definition two_settle ::
  "'a iter_ops \<Rightarrow> 'b iter_ops \<Rightarrow> ('a, 'b) two_merge \<Rightarrow> ('a, 'b) two_merge cio" where
  "two_settle opsa opsb w =
     cbind (two_skip_by_tranc_id opsa opsb w) (\<lambda>w'.
     cbind (clift (choose_it_a opsa opsb w')) (\<lambda>c. cret (w'\<lparr>tw_choose_a := c\<rparr>)))"

definition two_new ::
  "'a iter_ops \<Rightarrow> 'b iter_ops \<Rightarrow> 'a option \<Rightarrow> 'b option \<Rightarrow> u64 \<Rightarrow> bool \<Rightarrow> ('a, 'b) two_merge cio" where
  "two_new opsa opsb a b t keep =
     two_settle opsa opsb \<lparr>tw_a = a, tw_b = b, tw_choose_a = False, tw_max_tranc_id = t, tw_keep_all = keep\<rparr>"

definition opt_valid :: "'it iter_ops \<Rightarrow> 'it option \<Rightarrow> bool result" where
  "opt_valid ops ito = (case ito of None \<Rightarrow> Inr False | Some it \<Rightarrow> io_valid ops it)"

definition opt_end :: "'it iter_ops \<Rightarrow> 'it option \<Rightarrow> bool result" where
  "opt_end ops ito = (case ito of None \<Rightarrow> Inr True | Some it \<Rightarrow> io_end ops it)"

definition two_is_valid :: "'a iter_ops \<Rightarrow> 'b iter_ops \<Rightarrow> ('a, 'b) two_merge \<Rightarrow> bool result" where
  "two_is_valid opsa opsb w =
     ebind (opt_valid opsa (tw_a w)) (\<lambda>v. if v then Inr True else opt_valid opsb (tw_b w))"

definition two_is_end :: "'a iter_ops \<Rightarrow> 'b iter_ops \<Rightarrow> ('a, 'b) two_merge \<Rightarrow> bool result" where
  "two_is_end opsa opsb w =
     ebind (opt_end opsa (tw_a w)) (\<lambda>e. if \<not> e then Inr False else opt_end opsb (tw_b w))"

definition opt_deref :: "'it iter_ops \<Rightarrow> 'it option \<Rightarrow> (bytes \<times> bytes) result" where
  "opt_deref ops ito = (case ito of None \<Rightarrow> Inl Undefined | Some it \<Rightarrow> io_deref ops it)"

definition two_deref :: "'a iter_ops \<Rightarrow> 'b iter_ops \<Rightarrow> ('a, 'b) two_merge \<Rightarrow> (bytes \<times> bytes) result" where
  "two_deref opsa opsb w =
     ebind (two_is_valid opsa opsb w) (\<lambda>valid.
       if \<not> valid then Inl Runtime_Error
       else if tw_choose_a w then opt_deref opsa (tw_a w) else opt_deref opsb (tw_b w))"

definition two_get_cur_tranc_id ::
  "'a iter_ops \<Rightarrow> 'b iter_ops \<Rightarrow> ('a, 'b) two_merge \<Rightarrow> u64 result" where
  "two_get_cur_tranc_id opsa opsb w =
     (if tw_choose_a w
      then case tw_a w of None \<Rightarrow> Inl Runtime_Error
         | Some a \<Rightarrow> ebind (io_valid opsa a) (\<lambda>v. if v then io_tid opsa a else Inl Runtime_Error)
      else case tw_b w of None \<Rightarrow> Inl Runtime_Error
         | Some b \<Rightarrow> ebind (io_valid opsb b) (\<lambda>v. if v then io_tid opsb b else Inl Runtime_Error))"

definition step_opt :: "'it iter_ops \<Rightarrow> 'it option \<Rightarrow> 'it option cio" where
  "step_opt ops ito = (case ito of
      None \<Rightarrow> cret None | Some it \<Rightarrow> cbind (io_next ops it) (\<lambda>it'. cret (Some it')))"

definition key_is :: "'it iter_ops \<Rightarrow> bytes \<Rightarrow> 'it \<Rightarrow> bool result" where
  "key_is ops key it = ebind (io_deref ops it) (\<lambda>kv. Inr (fst kv = key))"

definition two_next ::
  "'a iter_ops \<Rightarrow> 'b iter_ops \<Rightarrow> ('a, 'b) two_merge \<Rightarrow> ('a, 'b) two_merge cio" where
  "two_next opsa opsb w =
     cbind (clift (if tw_choose_a w then opt_valid opsa (tw_a w) else opt_valid opsb (tw_b w))) (\<lambda>valid.
       if \<not> valid then cret w
       else if tw_keep_all w then
         cbind (if tw_choose_a w
                then cbind (step_opt opsa (tw_a w)) (\<lambda>a. cret (w\<lparr>tw_a := a\<rparr>))
                else cbind (step_opt opsb (tw_b w)) (\<lambda>b. cret (w\<lparr>tw_b := b\<rparr>))) (\<lambda>w'.
           two_settle opsa opsb w')
       else
         cbind (clift (if tw_choose_a w then opt_deref opsa (tw_a w) else opt_deref opsb (tw_b w))) (\<lambda>kv.
         cbind (skip_opt (key_is opsa (fst kv)) opsa (tw_a w)) (\<lambda>a.
         cbind (skip_opt (key_is opsb (fst kv)) opsb (tw_b w)) (\<lambda>b.
           two_settle opsa opsb (w\<lparr>tw_a := a, tw_b := b\<rparr>)))))"

definition two_ops :: "'a iter_ops \<Rightarrow> 'b iter_ops \<Rightarrow> ('a, 'b) two_merge iter_ops" where
  "two_ops opsa opsb = \<lparr>io_valid = two_is_valid opsa opsb, io_end = two_is_end opsa opsb,
     io_deref = two_deref opsa opsb, io_tid = two_get_cur_tranc_id opsa opsb,
     io_next = two_next opsa opsb,
     io_fuel = (\<lambda>w. (case tw_a w of None \<Rightarrow> 0 | Some a \<Rightarrow> io_fuel opsa a)
                  + (case tw_b w of None \<Rightarrow> 0 | Some b \<Rightarrow> io_fuel opsb b))\<rparr>"

end
