(* ===== verification/Merge_Stream.thy ===== *)
theory Merge_Stream
  imports Merge_Iter
begin

text \<open>
  The contract of BaseIterator as a locale, and what its providers promise: the merge heap that
  keeps all versions, the chain of the SSTs of a level, and the two-way merge of any two
  streams.
\<close>

section \<open>The interface\<close>

text \<open>\<open>stands it es\<close>: the iterator stands before the records \<open>es\<close>. Reading does not
  change the store beyond the invariant \<open>I\<close>, and the fuel is enough.\<close>

locale record_stream =
  fixes I :: "store \<Rightarrow> bool"
    and ops :: "'it iter_ops"
    and stands :: "'it \<Rightarrow> entry list \<Rightarrow> bool"
  assumes at_end: "stands it [] \<Longrightarrow> io_valid ops it = Inr False \<and> io_end ops it = Inr True"
    and at_record: "stands it (e # es) \<Longrightarrow> io_valid ops it = Inr True \<and> io_end ops it = Inr False \<and>
      io_deref ops it = Inr (ekey e, evalue e) \<and> io_tid ops it = Inr (etid e)"
    and advance: "stands it (e # es) \<Longrightarrow> spec I (io_next ops it) (\<lambda>it'. stands it' es)"
    and fuel: "stands it es \<Longrightarrow> length es < io_fuel ops it"
begin

lemma skip_while_spec:
  assumes "stands it es" "length es < n"
    "\<And>it e es. stands it (e # es) \<Longrightarrow> P it = Inr (Q e)"
  shows "spec I (skip_while n P ops it) (\<lambda>it'. stands it' (dropWhile Q es))"
  using assms(1,2)
proof (induction n arbitrary: it es)
  case (Suc n)
  show ?case
  proof (cases es)
    case Nil
    with Suc.prems(1) at_end show ?thesis by (simp add: spec_ret)
  next
    case (Cons e es')
    note R = at_record [OF Suc.prems(1) [unfolded Cons]] assms(3) [OF Suc.prems(1) [unfolded Cons]]
    show ?thesis
    proof (cases "Q e")
      case True
      have "spec I (cbind (io_next ops it) (\<lambda>it'. skip_while n P ops it')) (\<lambda>it'. stands it' (dropWhile Q es'))"
        by (rule spec_bind [OF advance [OF Suc.prems(1) [unfolded Cons]]], rule Suc.IH)
          (use Suc.prems(2) Cons in simp_all)
      with R True show ?thesis by (simp add: Cons)
    next
      case False
      with R Suc.prems(1) show ?thesis by (simp add: Cons spec_ret)
    qed
  qed
qed simp

end

section \<open>The heap that keeps all versions\<close>

definition item_entry :: "search_item \<Rightarrow> entry" where
  "item_entry i = (si_key i, si_value i, si_tid i)"

definition heap_shows_all :: "heap_iter \<Rightarrow> entry list \<Rightarrow> bool" where
  "heap_shows_all h es \<longleftrightarrow> keep_all_versions h \<and> \<not> skip_delete h \<and> max_tranc_id h = 0 \<and>
     es = map item_entry (items h)"

lemma heap_filter_none: "heap_filter 0 False its = its"
  by (subst heap_filter.simps) (simp add: Let_def skip_by_tranc_id_def top_value_legal_def)

interpretation heap_all: record_stream I heap_ops heap_shows_all for I
proof
  fix it e es
  show "heap_shows_all it [] \<Longrightarrow> io_valid heap_ops it = Inr False \<and> io_end heap_ops it = Inr True"
    by (simp add: heap_shows_all_def heap_ops_def heap_is_valid_def heap_is_end_def)
  show "heap_shows_all it (e # es) \<Longrightarrow> io_valid heap_ops it = Inr True \<and> io_end heap_ops it = Inr False \<and>
      io_deref heap_ops it = Inr (ekey e, evalue e) \<and> io_tid heap_ops it = Inr (etid e)"
    by (cases "items it") (auto simp: heap_shows_all_def heap_ops_def heap_is_valid_def heap_is_end_def
        heap_deref_def heap_get_cur_tranc_id_def item_entry_def)
  show "spec I (io_next heap_ops it) (\<lambda>it'. heap_shows_all it' es)" if "heap_shows_all it (e # es)"
    using that by (cases "items it") (auto simp: heap_shows_all_def heap_ops_def heap_next_def update_current_def
        heap_filter_none intro!: spec_ret)
  show "heap_shows_all it es \<Longrightarrow> length es < io_fuel heap_ops it"
    by (simp add: heap_shows_all_def heap_ops_def)
qed

section \<open>The chain of SSTs\<close>

text \<open>What an SST shows to a reader, its values resolved.\<close>

definition sst_view :: "u64 \<Rightarrow> bool \<Rightarrow> abort_check \<Rightarrow> sst \<times> entry list list \<Rightarrow> entry list" where
  "sst_view t keep ab p = map (resolve_entry (fst p)) (reader_view keep t ab (concat (snd p)))"

definition ssts_shown ::
  "(bytes \<Rightarrow> u64) \<Rightarrow> (cache_key \<Rightarrow> entry list) \<Rightarrow> (sst \<times> entry list list) list \<Rightarrow> bool" where
  "ssts_shown hash C ps \<longleftrightarrow> (\<forall>(s, ess) \<in> set ps. sst_shows hash C s ess \<and> resolvable s)"

definition conc_place ::
  "(sst \<times> entry list list) list \<Rightarrow> u64 \<Rightarrow> bool \<Rightarrow> abort_check \<Rightarrow> nat \<times> sst_iter \<Rightarrow> conc_iter" where
  "conc_place ps t keep ab r = \<lparr>ci_cur = snd r, ci_idx = fst r, ci_ssts = map fst ps, ci_max_tranc_id = t,
     ci_keep_all = keep, ci_is_aborted = ab\<rparr>"

lemma conc_place_fields [simp]:
  "ci_cur (conc_place ps t keep ab r) = snd r" "ci_idx (conc_place ps t keep ab r) = fst r"
  "ci_ssts (conc_place ps t keep ab r) = map fst ps" "ci_max_tranc_id (conc_place ps t keep ab r) = t"
  "ci_keep_all (conc_place ps t keep ab r) = keep" "ci_is_aborted (conc_place ps t keep ab r) = ab"
  "(conc_place ps t keep ab r)\<lparr>ci_cur := it\<rparr> = conc_place ps t keep ab (fst r, it)"
  "(conc_place ps t keep ab r)\<lparr>ci_idx := i\<rparr> = conc_place ps t keep ab (i, snd r)"
  by (simp_all add: conc_place_def)

text \<open>The two kinds of positions: past the last SST, or on a record of SST \<open>i\<close>.\<close>

definition conc_at ::
  "(sst \<times> entry list list) list \<Rightarrow> u64 \<Rightarrow> bool \<Rightarrow> abort_check \<Rightarrow> nat \<times> sst_iter \<Rightarrow> entry list \<Rightarrow> bool" where
  "conc_at ps t keep ab r es \<longleftrightarrow>
     (r = (length ps, sit_start None t keep None) \<and> es = [] \<or>
      (\<exists>v vs. fst r < length ps \<and> sit_shows (fst (ps ! fst r)) (snd (ps ! fst r)) t keep ab (snd r) (v # vs) \<and>
         es = map (resolve_entry (fst (ps ! fst r))) (v # vs)
            @ concat (map (sst_view t keep ab) (drop (Suc (fst r)) ps))))"

definition conc_shows ::
  "(bytes \<Rightarrow> u64) \<Rightarrow> (cache_key \<Rightarrow> entry list) \<Rightarrow> conc_iter \<Rightarrow> entry list \<Rightarrow> bool" where
  "conc_shows hash C c es \<longleftrightarrow> (\<exists>ps t keep ab r. ssts_shown hash C ps \<and> c = conc_place ps t keep ab r \<and>
     conc_at ps t keep ab r es)"

lemma conc_showsI:
  "ssts_shown hash C ps \<Longrightarrow> conc_at ps t keep ab r es \<Longrightarrow> conc_shows hash C (conc_place ps t keep ab r) es"
  unfolding conc_shows_def by blast

lemma conc_showsE:
  assumes "conc_shows hash C c es"
  obtains ps t keep ab r where "ssts_shown hash C ps" "c = conc_place ps t keep ab r" "conc_at ps t keep ab r es"
  using assms unfolding conc_shows_def by blast

lemma blocks_view_length: "length (blocks_view keep t ab ess) \<le> length (concat ess)"
  unfolding blocks_view_def by (induction ess) (auto intro: add_mono reader_view_length)

lemma sit_shows_length:
  assumes "sit_shows s ess t keep ab it es"
  shows "length es \<le> length (concat ess)"
proof -
  have "length (rest_view t keep ab ess i j) \<le> length (concat ess)" if "i < length ess" for i j
  proof -
    have "length (reader_view keep t ab (drop j (ess ! i))) \<le> length (ess ! i)"
      using reader_view_length [of keep t ab "drop j (ess ! i)"] by simp
    moreover have "concat ess = concat (take i ess) @ ess ! i @ concat (drop (Suc i) ess)"
      using that by (metis concat.simps(2) concat_append id_take_nth_drop)
    then have "length (ess ! i) + length (concat (drop (Suc i) ess)) \<le> length (concat ess)" by simp
    ultimately show ?thesis
      using blocks_view_length [of keep t ab "drop (Suc i) ess"] unfolding rest_view_def length_append by linarith
  qed
  note R = this
  from assms consider "es = []" | i j where "i < length ess" "es = rest_view t keep ab ess i j"
    unfolding sit_shows_def in_block_def by blast
  then show ?thesis by cases (simp_all add: R)
qed

lemma sst_view_length:
  assumes "sst_shows hash C s ess"
  shows "length (sst_view t keep ab (s, ess)) \<le> length (sst_file s)"
  using order.trans [OF reader_view_length [of keep t ab "concat ess"] sst_file_count [of hash s ess]] assms
  by (simp add: sst_view_def sst_shows_def)

lemma ssts_shown_nth:
  "ssts_shown hash C ps \<Longrightarrow> i < length ps \<Longrightarrow> sst_shows hash C (fst (ps ! i)) (snd (ps ! i)) \<and> resolvable (fst (ps ! i))"
  unfolding ssts_shown_def using nth_mem [of i ps] by fastforce

lemma conc_from_spec:
  assumes "ssts_shown hash C ps" "idx \<le> length ps"
  shows "spec (store_holds C) (conc_from (map fst ps) t keep ab idx)
    (\<lambda>r. conc_at ps t keep ab r (concat (map (sst_view t keep ab) (drop idx ps))))"
  using assms(2)
proof (induction "length ps - idx" arbitrary: idx)
  case 0
  then have "idx = length ps" by simp
  then show ?case by (subst conc_from.simps) (simp add: spec_ret conc_at_def)
next
  case (Suc n)
  then have idx: "idx < length ps" "n = length ps - Suc idx" by auto
  obtain s ess where p: "ps ! idx = (s, ess)" by (cases "ps ! idx")
  note S = ssts_shown_nth [OF assms(1) idx(1), unfolded p fst_conv snd_conv]
  have D: "drop idx ps = (s, ess) # drop (Suc idx) ps" using Cons_nth_drop_Suc [OF idx(1)] p by simp
  show ?case
    unfolding conc_from.simps [of "map fst ps" t keep ab idx] length_map if_P [OF idx(1)] nth_map [OF idx(1)] p fst_conv sst_begin_def
  proof (rule spec_bind [OF sit_new_spec [OF conjunct1 [OF S], of t keep ab]])
    fix it
    assume it: "sit_shows s ess t keep ab it (reader_view keep t ab (concat ess))"
    show "spec (store_holds C) (cbind (clift (sit_is_valid it)) (\<lambda>valid.
        if valid then cret (idx, it) else conc_from (map fst ps) t keep ab (Suc idx)))
      (\<lambda>r. conc_at ps t keep ab r (concat (map (sst_view t keep ab) (drop idx ps))))"
    proof (cases "reader_view keep t ab (concat ess)")
      case Nil
      then have "sit_is_valid it = Inr False"
        using it sit_valid_Nil sst_shows_blocks(2) [OF conjunct1 [OF S]] by metis
      moreover have "concat (map (sst_view t keep ab) (drop idx ps)) = concat (map (sst_view t keep ab) (drop (Suc idx) ps))"
        by (simp add: D sst_view_def Nil)
      ultimately show ?thesis using Suc(1) [OF idx(2)] idx(1) by simp
    next
      case (Cons v vs)
      from it [unfolded Cons] have "sit_is_valid it = Inr True"
        using sit_observe [OF conjunct1 [OF S]] by blast
      moreover have "conc_at ps t keep ab (idx, it) (concat (map (sst_view t keep ab) (drop idx ps)))"
        unfolding conc_at_def using idx(1) it [unfolded Cons]
        by (intro disjI2 exI [of _ v] exI [of _ vs] conjI) (simp_all add: D p sst_view_def Cons)
      ultimately show ?thesis by (simp add: spec_ret)
    qed
  qed
qed

lemma conc_new_spec:
  assumes "ssts_shown hash C ps"
  shows "spec (store_holds C) (conc_new (map fst ps) t keep ab)
    (\<lambda>c. conc_shows hash C c (concat (map (sst_view t keep ab) ps)))"
  unfolding conc_new_def
proof (rule spec_bind [OF conc_from_spec [OF assms, of 0, simplified]])
  fix r
  assume "conc_at ps t keep ab r (concat (map (sst_view t keep ab) ps))"
  then have "conc_shows hash C (conc_place ps t keep ab r) (concat (map (sst_view t keep ab) ps))"
    by (rule conc_showsI [OF assms])
  then show "spec (store_holds C) (case r of (idx, it) \<Rightarrow> cret \<lparr>ci_cur = it, ci_idx = idx, ci_ssts = map fst ps,
      ci_max_tranc_id = t, ci_keep_all = keep, ci_is_aborted = ab\<rparr>)
    (\<lambda>c. conc_shows hash C c (concat (map (sst_view t keep ab) ps)))"
    by (cases r) (simp add: spec_ret conc_place_def)
qed

lemma conc_at_end:
  assumes "ssts_shown hash C ps" "conc_at ps t keep ab r []"
  shows "conc_is_valid (conc_place ps t keep ab r) = Inr False" "conc_is_end (conc_place ps t keep ab r) = Inr True"
  using assms(2)
  by (auto simp: conc_at_def conc_is_valid_def conc_is_end_def sit_is_end_def sit_start_def)

text \<open>On a record: the iterator of the SST and the records after it.\<close>

lemma conc_at_record:
  assumes "ssts_shown hash C ps" "conc_at ps t keep ab r (e # es)"
  obtains s ess v vs where "fst r < length ps" "ps ! fst r = (s, ess)" "sst_shows hash C s ess" "resolvable s"
    "sit_shows s ess t keep ab (snd r) (v # vs)" "e = resolve_entry s v"
    "es = map (resolve_entry s) vs @ concat (map (sst_view t keep ab) (drop (Suc (fst r)) ps))"
proof -
  from assms(2) obtain v vs where v: "fst r < length ps"
    "sit_shows (fst (ps ! fst r)) (snd (ps ! fst r)) t keep ab (snd r) (v # vs)"
    "e # es = map (resolve_entry (fst (ps ! fst r))) (v # vs) @ concat (map (sst_view t keep ab) (drop (Suc (fst r)) ps))"
    unfolding conc_at_def by blast
  from ssts_shown_nth [OF assms(1) v(1)] v show thesis
    by (intro that [of "fst (ps ! fst r)" "snd (ps ! fst r)" v vs]) simp_all
qed

lemma conc_next_spec:
  assumes "ssts_shown hash C ps" "conc_at ps t keep ab r (e # es)"
  shows "spec (store_holds C) (conc_next (conc_place ps t keep ab r)) (\<lambda>c. conc_shows hash C c es)"
proof -
  obtain s ess v vs where A: "fst r < length ps" "ps ! fst r = (s, ess)" "sst_shows hash C s ess" "resolvable s"
    "sit_shows s ess t keep ab (snd r) (v # vs)" "e = resolve_entry s v"
    "es = map (resolve_entry s) vs @ concat (map (sst_view t keep ab) (drop (Suc (fst r)) ps))"
    by (rule conc_at_record [OF assms])
  note O = sit_observe(1,2) [OF A(3,5)]
  have "conc_is_end (conc_place ps t keep ab r) = Inr False"
    using O by (simp add: conc_is_end_def)
  then have N: "conc_next (conc_place ps t keep ab r) = cbind (sit_next (snd r)) (\<lambda>it.
      cbind (clift (sit_is_valid it)) (\<lambda>valid.
        if valid then cret (conc_place ps t keep ab (fst r, it))
        else cbind (conc_from (map fst ps) t keep ab (Suc (fst r)))
          (\<lambda>(idx, it'). cret (conc_place ps t keep ab (idx, it')))))"
    by (simp add: conc_next_def cong: if_cong)
  show ?thesis
    unfolding N
  proof (rule spec_bind [OF sit_next_spec [OF A(3,5)]])
    fix it
    assume it: "sit_shows s ess t keep ab it vs"
    show "spec (store_holds C) (cbind (clift (sit_is_valid it)) (\<lambda>valid.
        if valid then cret (conc_place ps t keep ab (fst r, it))
        else cbind (conc_from (map fst ps) t keep ab (Suc (fst r)))
          (\<lambda>(idx, it'). cret (conc_place ps t keep ab (idx, it'))))) (\<lambda>c. conc_shows hash C c es)"
    proof (cases vs)
      case Nil
      then have "sit_is_valid it = Inr False"
        using it sit_valid_Nil [of s ess t keep ab it] sst_shows_blocks(2) [OF A(3)] by simp
      moreover have "spec (store_holds C) (cbind (conc_from (map fst ps) t keep ab (Suc (fst r)))
          (\<lambda>(idx, it'). cret (conc_place ps t keep ab (idx, it')))) (\<lambda>c. conc_shows hash C c es)"
      proof (rule spec_bind [OF conc_from_spec [OF assms(1), of "Suc (fst r)"]])
        fix r'
        assume "conc_at ps t keep ab r' (concat (map (sst_view t keep ab) (drop (Suc (fst r)) ps)))"
        then have "conc_shows hash C (conc_place ps t keep ab r') es"
          using conc_showsI [OF assms(1)] by (simp add: A(7) Nil)
        then show "spec (store_holds C) (case r' of (idx, it') \<Rightarrow> cret (conc_place ps t keep ab (idx, it')))
            (\<lambda>c. conc_shows hash C c es)"
          by (cases r') (simp add: spec_ret)
      qed (use A(1) in simp)
      ultimately show ?thesis by simp
    next
      case (Cons w ws)
      have "conc_at ps t keep ab (fst r, it) es"
        unfolding conc_at_def A(7) Cons using A(1,2) it [unfolded Cons]
        by (intro disjI2 exI [of _ w] exI [of _ ws] conjI) simp_all
      then have "conc_shows hash C (conc_place ps t keep ab (fst r, it)) es"
        by (rule conc_showsI [OF assms(1)])
      then show ?thesis using sit_observe(1) [OF A(3) it [unfolded Cons]] by (simp add: spec_ret)
    qed
  qed
qed

lemma conc_at_length:
  assumes "ssts_shown hash C ps" "conc_at ps t keep ab r es"
  shows "length es \<le> sum_list (map (\<lambda>p. length (sst_file (fst p))) ps)"
proof (cases es)
  case (Cons e es')
  obtain s ess v vs where A: "fst r < length ps" "ps ! fst r = (s, ess)" "sst_shows hash C s ess" "resolvable s"
    "sit_shows s ess t keep ab (snd r) (v # vs)" "e = resolve_entry s v"
    "es' = map (resolve_entry s) vs @ concat (map (sst_view t keep ab) (drop (Suc (fst r)) ps))"
    by (rule conc_at_record [OF assms(1) assms(2) [unfolded Cons]])
  have views: "length (concat (map (sst_view t keep ab) qs)) \<le> sum_list (map (\<lambda>p. length (sst_file (fst p))) qs)"
    if "set qs \<subseteq> set ps" for qs
    using that
  proof (induction qs)
    case (Cons q qs)
    obtain s' ess' where q: "q = (s', ess')" by (cases q)
    then have "sst_shows hash C s' ess'" using Cons.prems assms(1) by (auto simp: ssts_shown_def)
    from sst_view_length [OF this, of t keep ab] Cons show ?case by (simp add: q)
  qed simp
  have "length (v # vs) \<le> length (sst_file s)"
    using order.trans [OF sit_shows_length [OF A(5)] sst_file_count [of hash s ess]] A(3) by (simp add: sst_shows_def)
  moreover have "ps = take (fst r) ps @ (s, ess) # drop (Suc (fst r)) ps"
    using id_take_nth_drop [OF A(1)] A(2) by simp
  then have "length (sst_file s) + sum_list (map (\<lambda>p. length (sst_file (fst p))) (drop (Suc (fst r)) ps))
      \<le> sum_list (map (\<lambda>p. length (sst_file (fst p))) ps)"
    by (metis (no_types, lifting) fst_conv le_add2 list.simps(9) map_append sum_list.Cons sum_list_append)
  ultimately show ?thesis
    using views [of "drop (Suc (fst r)) ps"] set_drop_subset [of "Suc (fst r)" ps] by (simp add: Cons A(7))
qed simp

interpretation conc: record_stream "store_holds C" conc_ops "conc_shows hash C" for C hash
proof
  fix it e es
  show "io_valid conc_ops it = Inr False \<and> io_end conc_ops it = Inr True" if it: "conc_shows hash C it []"
  proof -
    obtain ps t keep ab r where P: "ssts_shown hash C ps" "it = conc_place ps t keep ab r" "conc_at ps t keep ab r []"
      by (rule conc_showsE [OF it])
    from conc_at_end [OF P(1,3)] show ?thesis unfolding P(2) conc_ops_def by simp
  qed
  show "io_valid conc_ops it = Inr True \<and> io_end conc_ops it = Inr False \<and>
      io_deref conc_ops it = Inr (ekey e, evalue e) \<and> io_tid conc_ops it = Inr (etid e)"
    if it: "conc_shows hash C it (e # es)"
  proof -
    obtain ps t keep ab r where P: "ssts_shown hash C ps" "it = conc_place ps t keep ab r" "conc_at ps t keep ab r (e # es)"
      by (rule conc_showsE [OF it])
    obtain s ess v vs where A: "fst r < length ps" "ps ! fst r = (s, ess)" "sst_shows hash C s ess" "resolvable s"
      "sit_shows s ess t keep ab (snd r) (v # vs)" "e = resolve_entry s v"
      "es = map (resolve_entry s) vs @ concat (map (sst_view t keep ab) (drop (Suc (fst r)) ps))"
      by (rule conc_at_record [OF P(1,3)])
    from sit_observe [OF A(3,5)] resolve_value [OF A(4), of v] show ?thesis
      by (simp add: P(2) A(6) conc_ops_def conc_is_valid_def conc_is_end_def conc_deref_def
          conc_get_cur_tranc_id_def)
  qed
  show "spec (store_holds C) (io_next conc_ops it) (\<lambda>it'. conc_shows hash C it' es)" if it: "conc_shows hash C it (e # es)"
  proof -
    obtain ps t keep ab r where P: "ssts_shown hash C ps" "it = conc_place ps t keep ab r" "conc_at ps t keep ab r (e # es)"
      by (rule conc_showsE [OF it])
    from conc_next_spec [OF P(1,3)] show ?thesis unfolding P(2) conc_ops_def by simp
  qed
  show "length es < io_fuel conc_ops it" if it: "conc_shows hash C it es"
  proof -
    obtain ps t keep ab r where P: "ssts_shown hash C ps" "it = conc_place ps t keep ab r" "conc_at ps t keep ab r es"
      by (rule conc_showsE [OF it])
    from conc_at_length [OF P(1,3)] show ?thesis by (simp add: P(2) conc_ops_def comp_def)
  qed
qed

section \<open>Merging two streams\<close>

definition takes_first :: "entry list \<Rightarrow> entry list \<Rightarrow> bool" where
  "takes_first xs ys = (case xs of [] \<Rightarrow> False | x # _ \<Rightarrow>
     (case ys of [] \<Rightarrow> True | y # _ \<Rightarrow>
       if ekey x \<noteq> ekey y then ekey x < ekey y else etid y \<le> etid x))"

fun merge_entries :: "entry list \<Rightarrow> entry list \<Rightarrow> entry list" where
  "merge_entries [] ys = ys"
| "merge_entries (x # xs) [] = x # xs"
| "merge_entries (x # xs) (y # ys) =
     (if takes_first (x # xs) (y # ys) then x # merge_entries xs (y # ys)
      else y # merge_entries (x # xs) ys)"

lemma merge_entries_Nil [simp]: "merge_entries xs [] = xs"
  by (cases xs) simp_all

lemma merge_entries_first:
  "takes_first (x # xs) ys \<Longrightarrow> merge_entries (x # xs) ys = x # merge_entries xs ys"
  "\<not> takes_first xs (y # ys) \<Longrightarrow> merge_entries xs (y # ys) = y # merge_entries xs ys"
  by (cases ys; simp add: takes_first_def) (cases xs; simp)

lemma mset_merge_entries: "mset (merge_entries xs ys) = mset xs + mset ys"
  by (induction xs ys rule: merge_entries.induct) auto

lemma set_merge_entries: "set (merge_entries xs ys) = set xs \<union> set ys"
  using mset_merge_entries [of xs ys] by (metis set_mset_mset set_mset_union)

abbreviation eversion :: "entry \<Rightarrow> bytes \<times> u64" where
  "eversion e \<equiv> (ekey e, etid e)"

lemma sorted_merge_entries:
  assumes "sorted_entries xs" "sorted_entries ys" "eversion ` set xs \<inter> eversion ` set ys = {}"
  shows "sorted_entries (merge_entries xs ys)"
  using assms
proof (induction xs ys rule: merge_entries.induct)
  case (3 x xs y ys)
  have ne: "eversion x \<noteq> eversion y" using 3(5) by auto
  show ?case
  proof (cases "takes_first (x # xs) (y # ys)")
    case True
    have xy: "entry_less x y"
      using True ne by (auto simp: takes_first_def entry_less_def version_less_def split: if_splits)
    have "entry_less x z" if "z \<in> set (merge_entries xs (y # ys))" for z
    proof -
      from that consider "z \<in> set xs" | "z = y" | "z \<in> set ys" unfolding set_merge_entries by auto
      then show ?thesis
      proof cases
        case 3
        then have "entry_less y z" using \<open>sorted_entries (y # ys)\<close> by simp
        with xy show ?thesis by (rule entry_less_trans)
      qed (use xy 3(3) in auto)
    qed
    moreover have "sorted_entries (merge_entries xs (y # ys))"
      using True 3(3,4,5) by (intro 3(1)) auto
    ultimately show ?thesis using True by simp
  next
    case False
    have yx: "entry_less y x"
      using False ne by (auto simp: takes_first_def entry_less_def version_less_def split: if_splits)
    have "entry_less y z" if "z \<in> set (merge_entries (x # xs) ys)" for z
    proof -
      from that consider "z = x" | "z \<in> set xs" | "z \<in> set ys" unfolding set_merge_entries by auto
      then show ?thesis
      proof cases
        case 2
        then have "entry_less x z" using \<open>sorted_entries (x # xs)\<close> by simp
        with yx show ?thesis by (rule entry_less_trans)
      qed (use yx 3(4) in auto)
    qed
    moreover have "sorted_entries (merge_entries (x # xs) ys)"
      using False 3(3,4,5) by (intro 3(2)) auto
    ultimately show ?thesis using False by simp
  qed
qed simp_all

definition two_shows ::
  "('a \<Rightarrow> entry list \<Rightarrow> bool) \<Rightarrow> ('b \<Rightarrow> entry list \<Rightarrow> bool) \<Rightarrow> ('a, 'b) two_merge \<Rightarrow> entry list \<Rightarrow> bool" where
  "two_shows sa sb w es \<longleftrightarrow> (\<exists>a b xs ys. sa a xs \<and> sb b ys \<and> es = merge_entries xs ys \<and>
     w = \<lparr>tw_a = Some a, tw_b = Some b, tw_choose_a = takes_first xs ys, tw_max_tranc_id = 0, tw_keep_all = True\<rparr>)"

text \<open>Two streams over the same store: the merge that keeps all versions is a stream again.\<close>

locale stream_pair = a: record_stream I opsa sa + b: record_stream I opsb sb
  for I and opsa :: "'a iter_ops" and sa and opsb :: "'b iter_ops" and sb
begin

lemma choose_it_a_spec:
  assumes "sa x xs" "sb y ys"
  shows "choose_it_a opsa opsb \<lparr>tw_a = Some x, tw_b = Some y, tw_choose_a = c, tw_max_tranc_id = t, tw_keep_all = k\<rparr>
    = Inr (takes_first xs ys)"
proof (cases xs)
  case Nil
  with a.at_end assms(1) show ?thesis by (simp add: choose_it_a_def takes_first_def)
next
  case (Cons x1 xs1)
  note A = a.at_record [OF assms(1) [unfolded Cons]]
  show ?thesis
  proof (cases ys)
    case Nil
    with b.at_end assms(2) A show ?thesis by (simp add: choose_it_a_def takes_first_def Cons)
  next
    case (Cons y1 ys1)
    from A b.at_record [OF assms(2) [unfolded Cons]] \<open>xs = x1 # xs1\<close> Cons show ?thesis
      by (simp add: choose_it_a_def takes_first_def)
  qed
qed

lemma two_settle_spec:
  assumes "sa x xs" "sb y ys"
  shows "spec I (two_settle opsa opsb
      \<lparr>tw_a = Some x, tw_b = Some y, tw_choose_a = c, tw_max_tranc_id = 0, tw_keep_all = True\<rparr>)
    (\<lambda>w. two_shows sa sb w (merge_entries xs ys))"
  using assms
  by (simp add: two_settle_def two_skip_by_tranc_id_def choose_it_a_spec [OF assms])
    (intro spec_ret, auto simp: two_shows_def)

lemma two_new_spec:
  assumes "sa x xs" "sb y ys"
  shows "spec I (two_new opsa opsb (Some x) (Some y) 0 True) (\<lambda>w. two_shows sa sb w (merge_entries xs ys))"
  unfolding two_new_def by (rule two_settle_spec [OF assms])

lemma two_next_spec:
  assumes "two_shows sa sb w (e # es)"
  shows "spec I (two_next opsa opsb w) (\<lambda>w'. two_shows sa sb w' es)"
proof -
  obtain x y xs ys where W: "sa x xs" "sb y ys" "e # es = merge_entries xs ys"
    "w = \<lparr>tw_a = Some x, tw_b = Some y, tw_choose_a = takes_first xs ys, tw_max_tranc_id = 0, tw_keep_all = True\<rparr>"
    using assms unfolding two_shows_def by blast
  show ?thesis
  proof (cases "takes_first xs ys")
    case True
    then obtain x1 xs1 where xs: "xs = x1 # xs1" by (cases xs) (simp_all add: takes_first_def)
    have es: "es = merge_entries xs1 ys" using W(3) True merge_entries_first(1) by (simp add: xs)
    have "spec I (cbind (io_next opsa x) (\<lambda>x'. two_settle opsa opsb
        \<lparr>tw_a = Some x', tw_b = Some y, tw_choose_a = True, tw_max_tranc_id = 0, tw_keep_all = True\<rparr>))
        (\<lambda>w'. two_shows sa sb w' es)"
      unfolding es by (rule spec_bind [OF a.advance [OF W(1) [unfolded xs]] two_settle_spec [OF _ W(2)]])
    with True a.at_record [OF W(1) [unfolded xs]] show ?thesis
      by (simp add: two_next_def W(4) opt_valid_def step_opt_def cbind_assoc)
  next
    case False
    then obtain y1 ys1 where ys: "ys = y1 # ys1" using W(3) by (cases ys; cases xs) (simp_all add: takes_first_def)
    have es: "es = merge_entries xs ys1" using W(3) False merge_entries_first(2) by (simp add: ys)
    have "spec I (cbind (io_next opsb y) (\<lambda>y'. two_settle opsa opsb
        \<lparr>tw_a = Some x, tw_b = Some y', tw_choose_a = False, tw_max_tranc_id = 0, tw_keep_all = True\<rparr>))
        (\<lambda>w'. two_shows sa sb w' es)"
      unfolding es by (rule spec_bind [OF b.advance [OF W(2) [unfolded ys]] two_settle_spec [OF W(1)]])
    with False b.at_record [OF W(2) [unfolded ys]] show ?thesis
      by (simp add: two_next_def W(4) opt_valid_def step_opt_def cbind_assoc)
  qed
qed

sublocale two: record_stream I "two_ops opsa opsb" "two_shows sa sb"
proof
  fix w e es
  show "io_valid (two_ops opsa opsb) w = Inr False \<and> io_end (two_ops opsa opsb) w = Inr True"
    if "two_shows sa sb w []"
  proof -
    from that obtain x y xs ys where W: "sa x xs" "sb y ys" "merge_entries xs ys = []" "tw_a w = Some x" "tw_b w = Some y"
      unfolding two_shows_def by fastforce
    then have "xs = []" "ys = []" by (cases xs; cases ys; auto split: if_splits)+
    with W a.at_end [of x] b.at_end [of y] show ?thesis
      by (simp add: two_ops_def two_is_valid_def two_is_end_def opt_valid_def opt_end_def)
  qed
  show "io_valid (two_ops opsa opsb) w = Inr True \<and> io_end (two_ops opsa opsb) w = Inr False \<and>
      io_deref (two_ops opsa opsb) w = Inr (ekey e, evalue e) \<and> io_tid (two_ops opsa opsb) w = Inr (etid e)"
    if w: "two_shows sa sb w (e # es)"
  proof -
    obtain x y xs ys where W: "sa x xs" "sb y ys" "e # es = merge_entries xs ys"
      "w = \<lparr>tw_a = Some x, tw_b = Some y, tw_choose_a = takes_first xs ys, tw_max_tranc_id = 0, tw_keep_all = True\<rparr>"
      using w unfolding two_shows_def by blast
    show ?thesis
    proof (cases "takes_first xs ys")
      case True
      then obtain x1 xs1 where xs: "xs = x1 # xs1" by (cases xs) (simp_all add: takes_first_def)
      have "e = x1" using W(3) True merge_entries_first(1) by (simp add: xs)
      with True a.at_record [OF W(1) [unfolded xs]] show ?thesis
        by (simp add: two_ops_def two_is_valid_def two_is_end_def opt_valid_def opt_end_def two_deref_def
            opt_deref_def two_get_cur_tranc_id_def W(4))
    next
      case False
      then obtain y1 ys1 where ys: "ys = y1 # ys1" using W(3) by (cases ys; cases xs) (simp_all add: takes_first_def)
      have "e = y1" using W(3) False merge_entries_first(2) by (simp add: ys)
      moreover have "\<exists>v. io_valid opsa x = Inr v" "\<exists>v. io_end opsa x = Inr v"
        using a.at_end [of x] a.at_record [of x] W(1) by (cases xs; auto)+
      ultimately show ?thesis using False b.at_record [OF W(2) [unfolded ys]]
        by (auto simp: two_ops_def two_is_valid_def two_is_end_def opt_valid_def opt_end_def two_deref_def
            opt_deref_def two_get_cur_tranc_id_def W(4))
    qed
  qed
  show "spec I (io_next (two_ops opsa opsb) w) (\<lambda>w'. two_shows sa sb w' es)" if "two_shows sa sb w (e # es)"
    using two_next_spec [OF that] by (simp add: two_ops_def)
  show "length es < io_fuel (two_ops opsa opsb) w" if "two_shows sa sb w es"
  proof -
    from that obtain x y xs ys where W: "sa x xs" "sb y ys" "es = merge_entries xs ys" "tw_a w = Some x" "tw_b w = Some y"
      unfolding two_shows_def by fastforce
    have "length es = length xs + length ys" unfolding W(3) using mset_merge_entries [of xs ys]
      by (metis size_mset size_union)
    with a.fuel [OF W(1)] b.fuel [OF W(2)] W(4,5) show ?thesis by (simp add: two_ops_def)
  qed
qed

end

text \<open>The two merges of a compaction: level 0 with level 1, and two deeper levels.\<close>

interpretation heap_conc: stream_pair "store_holds C" heap_ops heap_shows_all conc_ops "conc_shows hash C"
  for C hash
  by unfold_locales

interpretation conc_conc: stream_pair "store_holds C" conc_ops "conc_shows hash C" conc_ops "conc_shows hash C"
  for C hash
  by unfold_locales

end
