(* ===== verification/Engine.thy ===== *)
theory Engine
  imports Merge_Stream MemTable_Scan Tran_Manager
begin

text \<open>
  The engine of src/src/lsm/engine.cpp: the memtable, the SSTs with their levels, and the shared
  block cache; reads over all of them, writes, flush and full compaction. Every operation is a
  state transformer with exceptions; the state after an exception is the state the code leaves.
  The locks make every operation one step. File names are left out: an SST is its content.
\<close>

section \<open>Environment and state\<close>

text \<open>What the engine takes from outside: \<open>std::hash\<close>, the outcome of writing a file (a
  function of its id and content), the limits of the configuration, and the sizing of a Bloom
  filter (see \<open>bloom_new\<close>).\<close>

record engine_env =
  env_hash :: "bytes \<Rightarrow> u64"
  env_io :: "nat \<Rightarrow> bytes \<Rightarrow> bool"
  env_tol_mem :: u64
  env_per_mem :: u64
  env_ratio :: nat
  env_block_size :: nat
  env_bloom :: "u64 \<times> u64 \<times> (u64 \<times> u64) option"
  env_wisckey :: nat

text \<open>\<open>level_sst_ids\<close> is a map ordered by level; the weak pointer to the transaction manager
  is \<open>None\<close> when it was never set or has expired.\<close>

type_synonym levels = "(nat \<times> nat list) list"

record engine =
  e_memtable :: memtable
  e_levels :: levels
  e_ssts :: "(nat \<times> sst) list"
  e_store :: store
  e_tran_manager :: "tran_manager option"
  e_next_sst_id :: nat
  e_cur_max_level :: nat

type_synonym 'a eio = "(engine, 'a) sio"

definition estore :: "'a cio \<Rightarrow> 'a eio" where
  "estore m e = (case m (e_store e) of (r, st) \<Rightarrow> (r, e\<lparr>e_store := st\<rparr>))"

definition eget :: "(engine \<Rightarrow> 'a) \<Rightarrow> 'a eio" where
  "eget f e = (Inr (f e), e)"

definition emod :: "(engine \<Rightarrow> engine) \<Rightarrow> unit eio" where
  "emod f e = (Inr (), f e)"

text \<open>\<open>level_sst_ids[level]\<close> inserts an empty list for a missing level.\<close>

definition level_ids :: "levels \<Rightarrow> nat \<Rightarrow> nat list" where
  "level_ids ls l = (case map_of ls l of None \<Rightarrow> [] | Some ids \<Rightarrow> ids)"

primrec level_set :: "nat \<Rightarrow> nat list \<Rightarrow> levels \<Rightarrow> levels" where
  "level_set l ids [] = [(l, ids)]"
| "level_set l ids (x # xs) =
     (if fst x = l then (l, ids) # xs else if l < fst x then (l, ids) # x # xs
      else x # level_set l ids xs)"

text \<open>\<open>ssts.at(id)\<close> throws, \<open>ssts[id]\<close> gives a null pointer.\<close>

definition ssts_at :: "(nat \<times> sst) list \<Rightarrow> nat \<Rightarrow> sst result" where
  "ssts_at ssts i = (case map_of ssts i of None \<Rightarrow> Inl Out_Of_Range | Some s \<Rightarrow> Inr s)"

definition ssts_index :: "(nat \<times> sst) list \<Rightarrow> nat \<Rightarrow> sst result" where
  "ssts_index ssts i = (case map_of ssts i of None \<Rightarrow> Inl Undefined | Some s \<Rightarrow> Inr s)"

section \<open>Point lookups\<close>

definition update_best_from_sst ::
  "(bytes \<Rightarrow> u64) \<Rightarrow> sst \<Rightarrow> bytes \<Rightarrow> u64 \<Rightarrow> abort_check \<Rightarrow> (bytes \<times> u64) option \<Rightarrow> (bytes \<times> u64) option cio" where
  "update_best_from_sst hash s key t ab best =
     cbind (sst_get hash s key t ab) (\<lambda>candidate.
     cbind (clift (sit_is_valid candidate)) (\<lambda>valid.
       if \<not> valid then cret best
       else
         cbind (clift (sit_get_cur_tranc_id candidate)) (\<lambda>version.
           if (case best of None \<Rightarrow> True | Some b \<Rightarrow> snd b < version)
           then cbind (clift (sit_deref candidate)) (\<lambda>kv. cret (Some (snd kv, version)))
           else cret best)))"

primrec sst_get_l0 ::
  "(bytes \<Rightarrow> u64) \<Rightarrow> (nat \<times> sst) list \<Rightarrow> bytes \<Rightarrow> u64 \<Rightarrow> abort_check \<Rightarrow> nat list \<Rightarrow>
   (bytes \<times> u64) option \<Rightarrow> (bytes \<times> u64) option cio" where
  "sst_get_l0 hash ssts key t ab [] best = cret best"
| "sst_get_l0 hash ssts key t ab (i # ids) best =
     cbind (clift (ssts_at ssts i)) (\<lambda>s.
     cbind (update_best_from_sst hash s key t ab best) (\<lambda>best'. sst_get_l0 hash ssts key t ab ids best'))"

function search_level ::
  "(bytes \<Rightarrow> u64) \<Rightarrow> (nat \<times> sst) list \<Rightarrow> nat list \<Rightarrow> bytes \<Rightarrow> u64 \<Rightarrow> abort_check \<Rightarrow> nat \<Rightarrow> nat \<Rightarrow>
   (bytes \<times> u64) option \<Rightarrow> (bytes \<times> u64) option cio" where
  "search_level hash ssts ids key t ab left right best =
     (if left < right then
        let mid = (left + right) div 2
        in cbind (clift (ebind (vec_at ids mid) (ssts_at ssts))) (\<lambda>s.
             if sst_first_key s \<le> key \<and> key \<le> sst_last_key s then update_best_from_sst hash s key t ab best
             else if sst_last_key s < key then search_level hash ssts ids key t ab (mid + 1) right best
             else search_level hash ssts ids key t ab left mid best)
      else cret best)"
  by pat_completeness auto
termination by (relation "measure (\<lambda>(hash, ssts, ids, key, t, ab, left, right, best). right - left)") auto

declare search_level.simps [simp del]

primrec sst_get_deep ::
  "(bytes \<Rightarrow> u64) \<Rightarrow> (nat \<times> sst) list \<Rightarrow> bytes \<Rightarrow> u64 \<Rightarrow> abort_check \<Rightarrow> levels \<Rightarrow>
   (bytes \<times> u64) option \<Rightarrow> (bytes \<times> u64) option cio" where
  "sst_get_deep hash ssts key t ab [] best = cret best"
| "sst_get_deep hash ssts key t ab (l # ls) best =
     (if fst l = 0 then sst_get_deep hash ssts key t ab ls best
      else cbind (search_level hash ssts (snd l) key t ab 0 (length (snd l)) best)
             (\<lambda>best'. sst_get_deep hash ssts key t ab ls best'))"

definition sst_get_unlocked ::
  "(bytes \<Rightarrow> u64) \<Rightarrow> levels \<Rightarrow> (nat \<times> sst) list \<Rightarrow> bytes \<Rightarrow> u64 \<Rightarrow> abort_check \<Rightarrow> (bytes \<times> u64) option cio" where
  "sst_get_unlocked hash ls ssts key t ab =
     cbind (case map_of ls 0 of None \<Rightarrow> cret None | Some ids \<Rightarrow> sst_get_l0 hash ssts key t ab ids None)
       (\<lambda>best. sst_get_deep hash ssts key t ab ls best)"

definition visible :: "(bytes \<times> u64) option \<Rightarrow> (bytes \<times> u64) option" where
  "visible best = (case best of None \<Rightarrow> None | Some b \<Rightarrow> if fst b = [] then None else best)"

definition engine_sst_get :: "engine_env \<Rightarrow> bytes \<Rightarrow> u64 \<Rightarrow> abort_check \<Rightarrow> (bytes \<times> u64) option eio" where
  "engine_sst_get env key t ab =
     cbind (eget (\<lambda>e. sst_get_unlocked (env_hash env) (e_levels e) (e_ssts e) key t ab)) (\<lambda>m. estore m)"

definition engine_get :: "engine_env \<Rightarrow> bytes \<Rightarrow> u64 \<Rightarrow> bool \<Rightarrow> (bytes \<times> u64) option eio" where
  "engine_get env key t require_committed =
     cbind (eget e_tran_manager) (\<lambda>man. case man of
         None \<Rightarrow> cthrow Runtime_Error
       | Some m \<Rightarrow>
           let skip = Some (\<lambda>tid. tm_should_skip_read m tid require_committed)
           in cbind (eget (\<lambda>e. memtable_get_record (e_memtable e) key t skip)) (\<lambda>r.
              cbind (clift r) (\<lambda>best.
              cbind (engine_sst_get env key t skip) (\<lambda>sst_ret.
                cret (visible (better best sst_ret))))))"

primrec engine_batch_ssts ::
  "engine_env \<Rightarrow> u64 \<Rightarrow> abort_check \<Rightarrow> (bytes \<times> (bytes \<times> u64) option) list \<Rightarrow>
   (bytes \<times> (bytes \<times> u64) option) list eio" where
  "engine_batch_ssts env t ab [] = cret []"
| "engine_batch_ssts env t ab (r # rs) =
     cbind (engine_sst_get env (fst r) t ab) (\<lambda>sst_ret.
     cbind (engine_batch_ssts env t ab rs) (\<lambda>rest.
       cret ((fst r, visible (better (snd r) sst_ret)) # rest)))"

definition engine_get_batch ::
  "engine_env \<Rightarrow> bytes list \<Rightarrow> u64 \<Rightarrow> (bytes \<times> (bytes \<times> u64) option) list eio" where
  "engine_get_batch env keys t =
     cbind (eget e_tran_manager) (\<lambda>man. case man of
         None \<Rightarrow> cthrow Runtime_Error
       | Some m \<Rightarrow>
           if keys = [] then cret []
           else
             let ab = Some (\<lambda>tid. tm_is_aborted m tid)
             in cbind (eget (\<lambda>e. memtable_get_batch (e_memtable e) keys t ab)) (\<lambda>r.
                cbind (clift r) (\<lambda>results. engine_batch_ssts env t ab results)))"

section \<open>Building new SSTs\<close>

text \<open>The value log is open for the whole life of the engine.\<close>

definition new_builder :: "engine_env \<Rightarrow> sst_builder result" where
  "new_builder env =
     (if 0 < env_wisckey env
      then builder_new_wisckey (env_block_size env) True (env_bloom env) True (env_wisckey env)
      else builder_new (env_block_size env) True (env_bloom env))"

definition take_sst_id :: "nat eio" where
  "take_sst_id e = (Inr (e_next_sst_id e), e\<lparr>e_next_sst_id := Suc (e_next_sst_id e)\<rparr>)"

definition build_sst :: "engine_env \<Rightarrow> sst_builder \<Rightarrow> sst eio" where
  "build_sst env b =
     cbind take_sst_id (\<lambda>sid. clift (builder_build (env_hash env) (env_io env sid) sid True b))"

definition more_records :: "'it iter_ops \<Rightarrow> 'it \<Rightarrow> bool result" where
  "more_records ops it =
     ebind (io_valid ops it) (\<lambda>valid. if \<not> valid then Inr False
       else ebind (io_end ops it) (\<lambda>at_end. Inr (\<not> at_end)))"

definition next_same_key :: "'it iter_ops \<Rightarrow> 'it \<Rightarrow> bytes \<Rightarrow> bool result" where
  "next_same_key ops it key =
     ebind (more_records ops it) (\<lambda>more. if \<not> more then Inr False
       else ebind (io_deref ops it) (\<lambda>kv. Inr (fst kv = key)))"

primrec gen_loop ::
  "nat \<Rightarrow> engine_env \<Rightarrow> 'it iter_ops \<Rightarrow> nat \<Rightarrow> 'it \<Rightarrow> sst_builder \<Rightarrow> bool \<Rightarrow> sst list \<Rightarrow> sst list eio" where
  "gen_loop 0 env ops target it b pending new = cthrow Diverges"
| "gen_loop (Suc n) env ops target it b pending new =
     cbind (clift (more_records ops it)) (\<lambda>more.
       if more then
         cbind (clift (io_deref ops it)) (\<lambda>kv.
         cbind (clift (io_tid ops it)) (\<lambda>tid.
         cbind (clift (builder_add (env_hash env) b (fst kv, snd kv, tid))) (\<lambda>b1.
         cbind (estore (io_next ops it)) (\<lambda>it1.
         cbind (clift (next_same_key ops it1 (fst kv))) (\<lambda>same.
           if \<not> same \<and> target \<le> builder_estimated_size b1 then
             cbind (build_sst env b1) (\<lambda>s.
             cbind (clift (new_builder env)) (\<lambda>b2. gen_loop n env ops target it1 b2 False (new @ [s])))
           else gen_loop n env ops target it1 b1 True new)))))
       else if pending then cbind (build_sst env b) (\<lambda>s. cret (new @ [s]))
       else cret new)"

definition gen_sst_from_iter :: "engine_env \<Rightarrow> 'it iter_ops \<Rightarrow> 'it \<Rightarrow> nat \<Rightarrow> sst list eio" where
  "gen_sst_from_iter env ops it target =
     cbind (clift (new_builder env)) (\<lambda>b. gen_loop (io_fuel ops it) env ops target it b False [])"

section \<open>Compaction\<close>

definition get_sst_size :: "engine_env \<Rightarrow> nat \<Rightarrow> nat" where
  "get_sst_size env level =
     (if level = 0 then unat (env_per_mem env) else unat (env_per_mem env * of_nat (env_ratio env ^ level)))"

primrec ssts_of :: "(nat \<times> sst) list \<Rightarrow> nat list \<Rightarrow> sst list result" where
  "ssts_of ssts [] = Inr []"
| "ssts_of ssts (i # ids) =
     ebind (ssts_index ssts i) (\<lambda>s. ebind (ssts_of ssts ids) (\<lambda>ss. Inr (s # ss)))"

primrec begin_all :: "sst list \<Rightarrow> sst_iter list cio" where
  "begin_all [] = cret []"
| "begin_all (s # ss) =
     cbind (sst_begin s 0 True None) (\<lambda>it. cbind (begin_all ss) (\<lambda>its. cret (it # its)))"

definition full_l0_l1_compact :: "engine_env \<Rightarrow> nat list \<Rightarrow> nat list \<Rightarrow> sst list eio" where
  "full_l0_l1_compact env l0_ids l1_ids =
     cbind (eget (\<lambda>e. ssts_of (e_ssts e) l0_ids)) (\<lambda>r0. cbind (clift r0) (\<lambda>l0_ssts.
     cbind (estore (begin_all l0_ssts)) (\<lambda>l0_iters.
     cbind (eget (\<lambda>e. ssts_of (e_ssts e) l1_ids)) (\<lambda>r1. cbind (clift r1) (\<lambda>l1_ssts.
     cbind (estore (merge_sst_iterator l0_iters 0 True)) (\<lambda>(l0_begin, l0_end).
     cbind (estore (conc_new l1_ssts 0 True None)) (\<lambda>l1_begin.
     cbind (estore (two_new heap_ops conc_ops (Some l0_begin) (Some l1_begin) 0 True)) (\<lambda>it.
       gen_sst_from_iter env (two_ops heap_ops conc_ops) it (unat (env_per_mem env * of_nat (env_ratio env)))))))))))"

definition full_common_compact :: "engine_env \<Rightarrow> nat list \<Rightarrow> nat list \<Rightarrow> nat \<Rightarrow> sst list eio" where
  "full_common_compact env lx_ids ly_ids level_y =
     cbind (eget (\<lambda>e. ssts_of (e_ssts e) lx_ids)) (\<lambda>rx. cbind (clift rx) (\<lambda>lx_ssts.
     cbind (eget (\<lambda>e. ssts_of (e_ssts e) ly_ids)) (\<lambda>ry. cbind (clift ry) (\<lambda>ly_ssts.
     cbind (estore (conc_new lx_ssts 0 True None)) (\<lambda>lx_begin.
     cbind (estore (conc_new ly_ssts 0 True None)) (\<lambda>ly_begin.
     cbind (estore (two_new conc_ops conc_ops (Some lx_begin) (Some ly_begin) 0 True)) (\<lambda>it.
       gen_sst_from_iter env (two_ops conc_ops conc_ops) it (get_sst_size env level_y))))))))"

text \<open>The last part of a compaction: the old SSTs of both levels go, the new ones come in.\<close>

definition install_ssts :: "nat \<Rightarrow> nat list \<Rightarrow> nat list \<Rightarrow> sst list \<Rightarrow> engine \<Rightarrow> engine" where
  "install_ssts src xs ys new e =
     (let ssts1 = filter (\<lambda>p. fst p \<notin> set xs \<and> fst p \<notin> set ys) (e_ssts e);
          ssts2 = fold (\<lambda>s m. (sst_id s, s) # m) new ssts1;
          levels1 = level_set (Suc src) (sort (map sst_id new)) (level_set src [] (e_levels e))
      in e\<lparr>e_ssts := ssts2, e_levels := levels1, e_cur_max_level := max (e_cur_max_level e) (Suc src)\<rparr>)"

text \<open>Each call of the recursion is for a level that has SSTs, so the number of levels is enough
  fuel, unless the ratio is 0: then the code recurses for ever.\<close>

primrec full_compact :: "nat \<Rightarrow> engine_env \<Rightarrow> nat \<Rightarrow> unit eio" where
  "full_compact 0 env src = cthrow Diverges"
| "full_compact (Suc n) env src =
     cbind (emod (\<lambda>e. e\<lparr>e_levels := level_set (Suc src) (level_ids (e_levels e) (Suc src)) (e_levels e)\<rparr>)) (\<lambda>_.
     cbind (eget (\<lambda>e. env_ratio env \<le> length (level_ids (e_levels e) (Suc src)))) (\<lambda>deeper.
     cbind (if deeper then full_compact n env (Suc src) else cret ()) (\<lambda>_.
     cbind (eget (\<lambda>e. (level_ids (e_levels e) src, level_ids (e_levels e) (Suc src)))) (\<lambda>(xs, ys).
     cbind (if src = 0 then full_l0_l1_compact env xs ys else full_common_compact env xs ys (Suc src)) (\<lambda>new.
       emod (install_ssts src xs ys new))))))"

definition compact_fuel :: "engine \<Rightarrow> nat" where
  "compact_fuel e = Suc (length (e_levels e))"

section \<open>Flush\<close>

text \<open>\<open>MemTable::flush_last\<close> as the engine calls it.\<close>

definition flush_table :: "engine_env \<Rightarrow> nat \<Rightarrow> sst_builder \<Rightarrow> (sst option \<times> u64 list) eio" where
  "flush_table env sid b e =
     (case memtable_flush_last (builder_add (env_hash env))
             (builder_build (env_hash env) (env_io env sid) sid True) (e_memtable e) b [] of
        (Inl err, m, flushed) \<Rightarrow> (Inl err, e\<lparr>e_memtable := m\<rparr>)
      | (Inr s, m, flushed) \<Rightarrow> (Inr (s, flushed), e\<lparr>e_memtable := m\<rparr>))"

definition register_l0 :: "nat \<Rightarrow> sst \<Rightarrow> engine \<Rightarrow> engine" where
  "register_l0 sid s e =
     e\<lparr>e_ssts := (sid, s) # e_ssts e,
       e_levels := level_set 0 (sid # level_ids (e_levels e) 0) (e_levels e)\<rparr>"

definition notify_flushed :: "u64 list \<Rightarrow> engine \<Rightarrow> engine" where
  "notify_flushed tids e =
     e\<lparr>e_tran_manager := map_option (\<lambda>m. fold (\<lambda>tid m. tm_add_flushed_tranc_id m tid) tids m) (e_tran_manager e)\<rparr>"

definition engine_flush :: "engine_env \<Rightarrow> u64 eio" where
  "engine_flush env =
     cbind (eget (\<lambda>e. memtable_get_total_size (e_memtable e))) (\<lambda>total.
       if total = 0 then cret 0
       else
         cbind (eget (\<lambda>e. (compact_fuel e, case map_of (e_levels e) 0 of
               None \<Rightarrow> False | Some ids \<Rightarrow> env_ratio env \<le> length ids))) (\<lambda>(fuel, full).
         cbind (if full then full_compact fuel env 0 else cret ()) (\<lambda>_.
         cbind take_sst_id (\<lambda>sid.
         cbind (clift (new_builder env)) (\<lambda>b.
         cbind (flush_table env sid b) (\<lambda>(new_sst, flushed). case new_sst of
             None \<Rightarrow> cret 0
           | Some s \<Rightarrow>
               cbind (emod (register_l0 sid s)) (\<lambda>_.
               cbind (emod (notify_flushed flushed)) (\<lambda>_.
                 cret (snd (sst_tranc_id_range s))))))))))"

section \<open>Writes\<close>

definition ememtable :: "(memtable \<Rightarrow> memtable result) \<Rightarrow> unit eio" where
  "ememtable f e = (case f (e_memtable e) of
      Inl err \<Rightarrow> (Inl err, e) | Inr m \<Rightarrow> (Inr (), e\<lparr>e_memtable := m\<rparr>))"

definition flush_if_full :: "engine_env \<Rightarrow> u64 eio" where
  "flush_if_full env =
     cbind (eget (\<lambda>e. env_tol_mem env \<le> memtable_get_total_size (e_memtable e))) (\<lambda>full.
       if full then engine_flush env else cret 0)"

definition engine_put :: "engine_env \<Rightarrow> bytes \<Rightarrow> bytes \<Rightarrow> u64 \<Rightarrow> (nat \<Rightarrow> bool) \<Rightarrow> u64 eio" where
  "engine_put env k v t coin =
     cbind (ememtable (\<lambda>m. memtable_put (env_per_mem env) m k v t coin)) (\<lambda>_. flush_if_full env)"

definition engine_put_batch ::
  "engine_env \<Rightarrow> (bytes \<times> bytes) list \<Rightarrow> u64 \<Rightarrow> (nat \<Rightarrow> nat \<Rightarrow> bool) \<Rightarrow> u64 eio" where
  "engine_put_batch env kvs t coins =
     cbind (ememtable (\<lambda>m. memtable_put_batch (env_per_mem env) m kvs t coins)) (\<lambda>_. flush_if_full env)"

definition engine_remove :: "engine_env \<Rightarrow> bytes \<Rightarrow> u64 \<Rightarrow> (nat \<Rightarrow> bool) \<Rightarrow> u64 eio" where
  "engine_remove env k t coin =
     cbind (ememtable (\<lambda>m. memtable_remove (env_per_mem env) m k t coin)) (\<lambda>_. flush_if_full env)"

definition engine_remove_batch ::
  "engine_env \<Rightarrow> bytes list \<Rightarrow> u64 \<Rightarrow> (nat \<Rightarrow> nat \<Rightarrow> bool) \<Rightarrow> u64 eio" where
  "engine_remove_batch env ks t coins =
     cbind (ememtable (\<lambda>m. memtable_remove_batch (env_per_mem env) m ks t coins)) (\<lambda>_. flush_if_full env)"

definition engine_clear :: "unit eio" where
  "engine_clear = emod (\<lambda>e. e\<lparr>e_memtable := memtable_clear (e_memtable e), e_levels := [], e_ssts := []\<rparr>)"

definition engine_set_tran_manager :: "tran_manager option \<Rightarrow> unit eio" where
  "engine_set_tran_manager man = emod (\<lambda>e. e\<lparr>e_tran_manager := man\<rparr>)"

text \<open>The engine of a directory without SST files.\<close>

definition engine_new :: "nat \<Rightarrow> nat \<Rightarrow> engine" where
  "engine_new cache_capacity cache_k =
     \<lparr>e_memtable = memtable_new, e_levels = [], e_ssts = [], e_store = store_new cache_capacity cache_k,
      e_tran_manager = None, e_next_sst_id = 1, e_cur_max_level = 0\<rparr>"

end
