(* ===== verification/Engine_Read.thy ===== *)
theory Engine_Read
  imports Engine
begin

text \<open>
  Point lookups of the engine: linear search of level 0, binary search by key range of the deeper
  levels, and the choice between them and the memtable return the newest readable record of all
  tables, whatever the cache holds.
\<close>

section \<open>One SST\<close>

definition sst_lookup :: "entry list list \<Rightarrow> bytes \<Rightarrow> u64 \<Rightarrow> abort_check \<Rightarrow> (bytes \<times> u64) option" where
  "sst_lookup ess k t ab = map_option snd (find (\<lambda>e. ekey e = k \<and> readable t ab (etid e)) (concat ess))"

interpretation sst_source: versioned_source "\<lambda>ess. set (concat ess)" "\<lambda>ess. sorted_entries (concat ess)" sst_lookup
  by unfold_locales (unfold sst_lookup_def, rule newest_sorted_find)

text \<open>Opening the file of an SST gives the SST back, unless the last byte of its greatest id is the
  magic number of a WiscKey footer.\<close>

definition reopens :: "(bytes \<Rightarrow> u64) \<Rightarrow> sst \<Rightarrow> bool" where
  "reopens hash s \<longleftrightarrow> sst_id s < 2 ^ 31 \<and> sst_has_cache s \<and> (drop_bit 56 (sst_max_tranc_id s) \<noteq> 0x4B \<longrightarrow>
     (\<forall>hv. sst_open hash (sst_id s) (sst_file s) True hv = Inr (s\<lparr>sst_has_vlog := hv\<rparr>)))"

definition sst_plain :: "(bytes \<Rightarrow> u64) \<Rightarrow> (cache_key \<Rightarrow> entry list) \<Rightarrow> sst \<Rightarrow> entry list list \<Rightarrow> bool" where
  "sst_plain hash C s ess \<longleftrightarrow> sst_shows hash C s ess \<and> sst_storage_mode s = 0 \<and> reopens hash s"

lemma sst_plain_facts:
  assumes "sst_plain hash C s ess"
  shows "sst_shows hash C s ess" "sst_layout hash s ess" "sst_blocks ess" "ess \<noteq> []"
    "sorted_entries (concat ess)" "concat ess \<noteq> []"
    "sst_first_key s = first_nonempty (concat ess)" "sst_last_key s = ekey (last (concat ess))"
    "resolvable s" "resolve_entry s = id"
proof -
  show S: "sst_shows hash C s ess" and m: "resolvable s" "resolve_entry s = id"
    using assms resolve_inline by (simp_all add: sst_plain_def resolvable_def)
  then show L: "sst_layout hash s ess" by (simp add: sst_shows_def)
  note F = sst_layout_facts [OF L]
  show "sst_blocks ess" "ess \<noteq> []" "sorted_entries (concat ess)" "sst_first_key s = first_nonempty (concat ess)"
    using F by blast+
  have "last (concat ess) = last (last ess) \<and> concat ess \<noteq> []"
    using F(2,3) by (cases ess rule: rev_cases) (auto simp: sst_blocks_def)
  then show "concat ess \<noteq> []" "sst_last_key s = ekey (last (concat ess))" using F(6) by simp_all
qed

lemma update_best_spec:
  assumes "sst_plain hash C s ess" "k \<noteq> []"
  shows "spec (store_holds C) (update_best_from_sst hash s k t ab best)
    (\<lambda>r. r = better best (sst_lookup ess k t ab))"
  unfolding update_best_from_sst_def
proof (rule spec_bind [OF sst_get_spec [OF sst_plain_facts(1) [OF assms(1)] assms(2)]])
  fix it
  assume it: "found s it (find (\<lambda>e. ekey e = k \<and> readable t ab (etid e)) (concat ess))"
  have m: "sst_storage_mode s = 0" using assms(1) by (simp add: sst_plain_def)
  show "spec (store_holds C) (cbind (clift (sit_is_valid it)) (\<lambda>valid.
      if \<not> valid then cret best
      else cbind (clift (sit_get_cur_tranc_id it)) (\<lambda>version.
        if (case best of None \<Rightarrow> True | Some b \<Rightarrow> snd b < version)
        then cbind (clift (sit_deref it)) (\<lambda>kv. cret (Some (snd kv, version))) else cret best)))
    (\<lambda>r. r = better best (sst_lookup ess k t ab))"
  proof (cases "find (\<lambda>e. ekey e = k \<and> readable t ab (etid e)) (concat ess)")
    case None
    with it show ?thesis by (simp add: found_def sst_lookup_def better_def spec_ret)
  next
    case (Some e)
    then have "sit_is_valid it = Inr True" "sit_get_cur_tranc_id it = Inr (etid e)" "sit_deref it = Inr (ekey e, evalue e)"
      using it m by (simp_all add: found_def sst_resolve_value_def)
    with Some show ?thesis
      by (cases best) (auto simp: sst_lookup_def better_def spec_ret)
  qed
qed

section \<open>Levels\<close>

text \<open>\<open>P\<close> gives the blocks of the SST with an id. The SSTs of a deeper level are in key
  order, which is the order of their ids.\<close>

definition tables_shown ::
  "(bytes \<Rightarrow> u64) \<Rightarrow> (cache_key \<Rightarrow> entry list) \<Rightarrow> (nat \<times> sst) list \<Rightarrow> (nat \<Rightarrow> entry list list) \<Rightarrow> nat list \<Rightarrow> bool" where
  "tables_shown hash C ssts P ids \<longleftrightarrow>
     (\<forall>i \<in> set ids. \<exists>s. map_of ssts i = Some s \<and> sst_id s = i \<and> sst_plain hash C s (P i))"

definition level_entries :: "(nat \<Rightarrow> entry list list) \<Rightarrow> nat list \<Rightarrow> entry set" where
  "level_entries P ids = (\<Union>i \<in> set ids. set (concat (P i)))"

definition level_ordered :: "(nat \<Rightarrow> entry list list) \<Rightarrow> nat list \<Rightarrow> bool" where
  "level_ordered P ids \<longleftrightarrow> sorted_wrt (\<lambda>i j. i < j \<and> keys_below (concat (P i)) (concat (P j))) ids"

lemma tables_shownE:
  assumes "tables_shown hash C ssts P ids" "i \<in> set ids"
  obtains s where "ssts_at ssts i = Inr s" "ssts_index ssts i = Inr s" "sst_id s = i" "sst_plain hash C s (P i)"
  using assms unfolding tables_shown_def by (force simp: ssts_at_def ssts_index_def)

lemma sst_get_l0_spec:
  assumes "tables_shown hash C ssts P ids" "k \<noteq> []"
  shows "spec (store_holds C) (sst_get_l0 hash ssts k t ab ids best)
    (\<lambda>r. r = fold (\<lambda>i b. better b (sst_lookup (P i) k t ab)) ids best)"
  using assms(1)
proof (induction ids arbitrary: best)
  case Nil
  then show ?case by (simp add: spec_ret)
next
  case (Cons i ids)
  obtain s where s: "ssts_at ssts i = Inr s" "sst_plain hash C s (P i)"
    by (rule tables_shownE [OF Cons.prems, of i]) auto
  have "tables_shown hash C ssts P ids" using Cons.prems by (simp add: tables_shown_def)
  note IH = Cons.IH [OF this]
  show ?case
    using s(1) by simp (rule spec_bind [OF update_best_spec [OF s(2) assms(2)]], simp add: IH)
qed

lemma l0_newest:
  assumes "tables_shown hash C ssts P ids"
  shows "newest (level_entries P ids) k t ab (fold (\<lambda>i b. better b (sst_lookup (P i) k t ab)) ids None)"
proof -
  have "\<forall>ess \<in> set (map P ids). sorted_entries (concat ess)"
  proof
    fix ess
    assume "ess \<in> set (map P ids)"
    then obtain i where "i \<in> set ids" "ess = P i" by auto
    then show "sorted_entries (concat ess)"
      using tables_shownE [OF assms] sst_plain_facts(5) by metis
  qed
  from sst_source.fold_sources_newest [OF this newest_empty] show ?thesis
    by (simp add: level_entries_def fold_map comp_def)
qed

text \<open>Only the SST whose key range has the key can hold it.\<close>

lemma level_range:
  assumes "tables_shown hash C ssts P ids" "level_ordered P ids" "mid < length ids"
    "map_of ssts (ids ! mid) = Some s" "k \<noteq> []" "j < length ids" "e \<in> set (concat (P (ids ! j)))" "ekey e = k"
  shows "j \<le> mid \<Longrightarrow> k \<le> sst_last_key s" "mid \<le> j \<Longrightarrow> sst_first_key s \<le> k"
    "j < mid \<Longrightarrow> k < sst_first_key s" "mid < j \<Longrightarrow> sst_last_key s < k"
proof -
  have S: "sst_plain hash C s (P (ids ! mid))"
    using tables_shownE [OF assms(1) nth_mem [OF assms(3)]] assms(4) by (auto simp: ssts_at_def split: option.splits)
  note F = sst_plain_facts [OF S]
  have below: "ekey x < ekey y" if "a < b" "b < length ids" "x \<in> set (concat (P (ids ! a)))" "y \<in> set (concat (P (ids ! b)))" for a b x y
  proof -
    have "keys_below (concat (P (ids ! a))) (concat (P (ids ! b)))"
      using sorted_wrt_nth_less [OF assms(2) [unfolded level_ordered_def] that(1,2)] by simp
    with that(3,4) show ?thesis unfolding keys_below_def by blast
  qed
  have last_in: "last (concat (P (ids ! mid))) \<in> set (concat (P (ids ! mid)))" using F(6) by (rule last_in_set)
  have last: "ekey x \<le> sst_last_key s" if "x \<in> set (concat (P (ids ! mid)))" for x
    unfolding F(8) by (rule sorted_last_key [OF F(5) that])
  show le: "k \<le> sst_last_key s" if "j \<le> mid"
  proof (cases "j = mid")
    case True
    with last [of e] assms(7,8) show ?thesis by simp
  next
    case False
    with that have "j < mid" by simp
    from below [OF this assms(3,7) last_in] show ?thesis by (simp add: F(8) assms(8))
  qed
  show "sst_last_key s < k" if "mid < j"
    using below [OF that assms(6) last_in assms(7)] by (simp add: F(8) assms(8))
  have lt: "k < sst_first_key s" if "j < mid"
  proof -
    have up: "k < ekey y" if "y \<in> set (concat (P (ids ! mid)))" for y
      using below [OF \<open>j < mid\<close> assms(3,7) that] assms(8) by simp
    have "ekey (hd (concat (P (ids ! mid)))) \<noteq> []"
      using up [OF hd_in_set [OF F(6)]] by (metis not_less_Nil)
    then have "first_nonempty (concat (P (ids ! mid))) \<noteq> []"
      using hd_in_set [OF F(6)] unfolding first_nonempty_Nil by blast
    then obtain y where "y \<in> set (concat (P (ids ! mid)))" "first_nonempty (concat (P (ids ! mid))) = ekey y"
      using first_nonempty_mem by blast
    with up show ?thesis by (simp add: F(7))
  qed
  then show "k < sst_first_key s" if "j < mid" using that .
  show "sst_first_key s \<le> k" if "mid \<le> j"
  proof (cases "j = mid")
    case True
    have "first_nonempty (concat (P (ids ! mid))) \<le> ekey e"
      using assms(5,7,8) True by (intro first_nonempty_le [OF sorted_entries_keys [OF F(5)]]) simp_all
    then show ?thesis by (simp add: F(7) assms(8))
  next
    case False
    with that have j: "mid < j" by simp
    show ?thesis
    proof (cases "first_nonempty (concat (P (ids ! mid))) = []")
      case True
      then show ?thesis by (simp add: F(7))
    next
      case False
      then obtain y where "y \<in> set (concat (P (ids ! mid)))" "first_nonempty (concat (P (ids ! mid))) = ekey y"
        using first_nonempty_mem by blast
      with below [OF j assms(6) _ assms(7)] show ?thesis by (simp add: F(7) assms(8) less_imp_le)
    qed
  qed
qed

lemma level_entries_nth:
  "e \<in> level_entries P ids \<longleftrightarrow> (\<exists>j < length ids. e \<in> set (concat (P (ids ! j))))"
  unfolding level_entries_def set_conv_nth [of ids] by blast

lemma search_level_spec:
  assumes "tables_shown hash C ssts P ids" "level_ordered P ids" "k \<noteq> []" "right \<le> length ids"
    "\<And>j e. j < length ids \<Longrightarrow> e \<in> set (concat (P (ids ! j))) \<Longrightarrow> ekey e = k \<Longrightarrow> left \<le> j \<and> j < right"
  shows "spec (store_holds C) (search_level hash ssts ids k t ab left right best)
    (\<lambda>r. \<exists>c. newest (level_entries P ids) k t ab c \<and> r = better best c)"
  using assms(4,5)
proof (induction "right - left" arbitrary: left right rule: less_induct)
  case less
  show ?case
  proof (cases "left < right")
    case False
    have "candidates (level_entries P ids) k t ab = {}"
      unfolding candidates_def level_entries_nth using less.prems(2) False by fastforce
    then have "newest (level_entries P ids) k t ab None" by (simp add: newest_def)
    with False show ?thesis
      by (subst search_level.simps, simp) (intro spec_ret exI [of _ None], simp add: better_def)
  next
    case True
    define mid where "mid = (left + right) div 2"
    have mid: "left \<le> mid" "mid < right" "mid < length ids" using True less.prems(1) by (auto simp: mid_def)
    obtain s where s: "ssts_at ssts (ids ! mid) = Inr s" "ssts_index ssts (ids ! mid) = Inr s" "sst_id s = ids ! mid"
      "sst_plain hash C s (P (ids ! mid))"
      by (rule tables_shownE [OF assms(1) nth_mem [OF mid(3)]])
    have m: "map_of ssts (ids ! mid) = Some s" using s(1) by (simp add: ssts_at_def split: option.splits)
    note R = level_range [OF assms(1,2) mid(3) m assms(3)]
    have step: "search_level hash ssts ids k t ab left right best =
        (if sst_first_key s \<le> k \<and> k \<le> sst_last_key s then update_best_from_sst hash s k t ab best
         else if sst_last_key s < k then search_level hash ssts ids k t ab (mid + 1) right best
         else search_level hash ssts ids k t ab left mid best)"
      using True s(1) mid(3) by (subst search_level.simps) (simp add: Let_def mid_def [symmetric])
    show ?thesis
    proof (cases "sst_first_key s \<le> k \<and> k \<le> sst_last_key s")
      case here: True
      have "j = mid" if "j < length ids" "e \<in> set (concat (P (ids ! j)))" "ekey e = k" for j e
      proof (cases j mid rule: linorder_cases)
        case less
        from R(3) [OF that less] here show ?thesis by (simp add: not_le [symmetric])
      next
        case greater
        from R(4) [OF that greater] here show ?thesis by (simp add: not_le [symmetric])
      qed
      then have only: "e \<in> level_entries P ids \<longleftrightarrow> e \<in> set (concat (P (ids ! mid)))" if "ekey e = k" for e
        using that mid(3) unfolding level_entries_nth by blast
      have "candidates (level_entries P ids) k t ab = candidates (set (concat (P (ids ! mid)))) k t ab"
        unfolding candidates_def using only by blast
      moreover have "newest (set (concat (P (ids ! mid)))) k t ab (sst_lookup (P (ids ! mid)) k t ab)"
        by (rule sst_source.lookup_newest [OF sst_plain_facts(5) [OF s(4)]])
      ultimately have "newest (level_entries P ids) k t ab (sst_lookup (P (ids ! mid)) k t ab)"
        using newest_cong by blast
      with update_best_spec [OF s(4) assms(3), of t ab best] here show ?thesis
        unfolding step by (auto elim: spec_weaken)
    next
      case not_here: False
      show ?thesis
      proof (cases "sst_last_key s < k")
        case gt: True
        have "mid + 1 \<le> j \<and> j < right" if "j < length ids" "e \<in> set (concat (P (ids ! j)))" "ekey e = k" for j e
        proof -
          have "\<not> j \<le> mid" using R(1) [OF that] gt by auto
          then show ?thesis using less.prems(2) [OF that] by simp
        qed
        then have "spec (store_holds C) (search_level hash ssts ids k t ab (mid + 1) right best)
            (\<lambda>r. \<exists>c. newest (level_entries P ids) k t ab c \<and> r = better best c)"
          using mid less.prems(1) by (intro less.hyps) auto
        then show ?thesis unfolding step if_not_P [OF not_here] if_P [OF gt] .
      next
        case le: False
        then have lt: "k < sst_first_key s" using not_here by auto
        have "left \<le> j \<and> j < mid" if "j < length ids" "e \<in> set (concat (P (ids ! j)))" "ekey e = k" for j e
        proof -
          have "\<not> mid \<le> j" using R(2) [OF that] lt by auto
          then show ?thesis using less.prems(2) [OF that] by simp
        qed
        then have "spec (store_holds C) (search_level hash ssts ids k t ab left mid best)
            (\<lambda>r. \<exists>c. newest (level_entries P ids) k t ab c \<and> r = better best c)"
          using mid less.prems(1) by (intro less.hyps) auto
        then show ?thesis unfolding step if_not_P [OF not_here] if_not_P [OF le] .
      qed
    qed
  qed
qed

section \<open>All levels\<close>

definition levels_ok :: "(nat \<Rightarrow> entry list list) \<Rightarrow> levels \<Rightarrow> bool" where
  "levels_ok P ls \<longleftrightarrow> sorted_wrt (<) (map fst ls) \<and> (\<forall>(l, ids) \<in> set ls. l \<noteq> 0 \<longrightarrow> level_ordered P ids)"

definition all_ids :: "levels \<Rightarrow> nat list" where
  "all_ids ls = concat (map snd ls)"

lemma level_entries_append: "level_entries P (xs @ ys) = level_entries P xs \<union> level_entries P ys"
  by (auto simp: level_entries_def)

lemma tables_shown_append:
  "tables_shown hash C ssts P (xs @ ys) \<longleftrightarrow> tables_shown hash C ssts P xs \<and> tables_shown hash C ssts P ys"
  by (auto simp: tables_shown_def)

lemma better_newest_assoc:
  "newest A k t ab c \<Longrightarrow> newest B k t ab d \<Longrightarrow>
   \<exists>x. newest (A \<union> B) k t ab x \<and> better (better best c) d = better best x"
  by (intro exI [of _ "better c d"]) (simp add: newest_better better_assoc)

lemma sst_get_deep_spec:
  assumes "tables_shown hash C ssts P (all_ids ls)" "\<forall>(l, ids) \<in> set ls. l \<noteq> 0 \<longrightarrow> level_ordered P ids" "k \<noteq> []"
  shows "spec (store_holds C) (sst_get_deep hash ssts k t ab ls best)
    (\<lambda>r. \<exists>c. newest (level_entries P (all_ids (filter (\<lambda>l. fst l \<noteq> 0) ls))) k t ab c \<and> r = better best c)"
  using assms(1,2)
proof (induction ls arbitrary: best)
  case Nil
  have "newest {} k t ab None" by simp
  then show ?case by (auto simp: all_ids_def level_entries_def better_def intro!: spec_ret exI [of _ None])
next
  case (Cons x ls)
  obtain l ids where x: "x = (l, ids)" by (cases x)
  have sh: "tables_shown hash C ssts P ids" "tables_shown hash C ssts P (all_ids ls)"
    using Cons.prems(1) by (simp_all add: x all_ids_def tables_shown_append)
  have IH: "spec (store_holds C) (sst_get_deep hash ssts k t ab ls best)
      (\<lambda>r. \<exists>c. newest (level_entries P (all_ids (filter (\<lambda>l. fst l \<noteq> 0) ls))) k t ab c \<and> r = better best c)" for best
    using Cons.prems(2) by (intro Cons.IH sh(2)) simp
  show ?case
  proof (cases "l = 0")
    case True
    with IH show ?thesis by (simp add: x)
  next
    case False
    then have o: "level_ordered P ids" using Cons.prems(2) by (simp add: x)
    have "spec (store_holds C) (cbind (search_level hash ssts ids k t ab 0 (length ids) best) (\<lambda>b. sst_get_deep hash ssts k t ab ls b))
        (\<lambda>r. \<exists>c. newest (level_entries P ids \<union> level_entries P (all_ids (filter (\<lambda>l. fst l \<noteq> 0) ls))) k t ab c \<and> r = better best c)"
    proof (rule spec_bind [OF search_level_spec [OF sh(1) o assms(3)]])
      fix b
      assume "\<exists>c. newest (level_entries P ids) k t ab c \<and> b = better best c"
      then obtain c where c: "newest (level_entries P ids) k t ab c" "b = better best c" by blast
      show "spec (store_holds C) (sst_get_deep hash ssts k t ab ls b)
        (\<lambda>r. \<exists>c. newest (level_entries P ids \<union> level_entries P (all_ids (filter (\<lambda>l. fst l \<noteq> 0) ls))) k t ab c \<and> r = better best c)"
        by (rule spec_weaken [OF IH]) (use better_newest_assoc [OF c(1)] c(2) in fastforce)
    qed auto
    with False show ?thesis by (simp add: x all_ids_def level_entries_append)
  qed
qed

lemma level_zero_first:
  assumes "sorted_wrt (<) (map fst ls)"
  shows "level_entries P (all_ids ls) =
    level_entries P (level_ids ls 0) \<union> level_entries P (all_ids (filter (\<lambda>l. fst l \<noteq> 0) ls))"
proof (cases ls)
  case (Cons x xs)
  have "filter (\<lambda>l. fst l \<noteq> 0) xs = xs" using assms Cons by (auto simp: filter_id_conv)
  moreover have "map_of xs 0 = None" using assms Cons by (auto simp: map_of_eq_None_iff)
  ultimately show ?thesis by (cases x) (auto simp: Cons all_ids_def level_ids_def level_entries_append, auto simp: level_entries_def)
qed (simp add: all_ids_def level_ids_def level_entries_def)

lemma level_ids_subset: "set (level_ids ls l) \<subseteq> set (all_ids ls)"
proof (cases "map_of ls l")
  case (Some ids)
  from map_of_SomeD [OF this] Some show ?thesis by (auto simp: level_ids_def all_ids_def intro: bexI [of _ "(l, ids)"])
qed (simp add: level_ids_def)

lemma sst_get_unlocked_spec:
  assumes "tables_shown hash C ssts P (all_ids ls)" "levels_ok P ls" "k \<noteq> []"
  shows "spec (store_holds C) (sst_get_unlocked hash ls ssts k t ab)
    (\<lambda>r. newest (level_entries P (all_ids ls)) k t ab r)"
proof -
  have sh: "tables_shown hash C ssts P (level_ids ls 0)"
    using assms(1) level_ids_subset [of ls 0] unfolding tables_shown_def by blast
  have l0: "spec (store_holds C) (case map_of ls 0 of None \<Rightarrow> cret None | Some ids \<Rightarrow> sst_get_l0 hash ssts k t ab ids None)
      (\<lambda>r. newest (level_entries P (level_ids ls 0)) k t ab r)"
  proof (cases "map_of ls 0")
    case None
    have "newest {} k t ab None" by simp
    with None show ?thesis by (simp add: level_ids_def level_entries_def spec_ret)
  next
    case (Some ids)
    then have "level_ids ls 0 = ids" by (simp add: level_ids_def)
    with spec_weaken [OF sst_get_l0_spec [OF sh assms(3), of t ab None]] l0_newest [OF sh] Some
    show ?thesis by simp
  qed
  show ?thesis
    unfolding sst_get_unlocked_def
  proof (rule spec_bind [OF l0])
    fix best
    assume best: "newest (level_entries P (level_ids ls 0)) k t ab best"
    show "spec (store_holds C) (sst_get_deep hash ssts k t ab ls best) (\<lambda>r. newest (level_entries P (all_ids ls)) k t ab r)"
      by (rule spec_weaken [OF sst_get_deep_spec [OF assms(1) _ assms(3)]])
        (use assms(2) newest_better [OF best] level_zero_first [of ls P] in \<open>auto simp: levels_ok_def\<close>)
  qed
qed

end
