(* ===== verification/Engine_Gen.thy ===== *)
theory Engine_Gen
  imports Engine_Read
begin

text \<open>
  \<open>gen_sst_from_iter\<close>: the records of any sorted stream end up, in order and complete, in
  new SSTs between whose key ranges there is no overlap, or an exception leaves an engine in
  which only the block cache and the next SST id have changed.
\<close>

section \<open>Assumptions about the environment\<close>

text \<open>Writes succeed only below 4 GB (the offsets of the meta section have 32 bits) and for
  fewer than \<open>2 ^ 31\<close> SSTs (the cache takes the id as an \<open>int\<close>). The value log is a
  stub, so values are stored inline. The sizing of a Bloom filter gives at least one bit and one
  hash.\<close>

definition env_ok :: "engine_env \<Rightarrow> bool" where
  "env_ok env \<longleftrightarrow> (\<forall>sid f. env_io env sid f \<longrightarrow> sid < 2 ^ 31 \<and> length f < 2 ^ 32) \<and>
     env_wisckey env = 0 \<and> 0 < env_ratio env \<and>
     (case snd (snd (env_bloom env)) of None \<Rightarrow> True | Some (nb, nh) \<Rightarrow> nb \<noteq> 0 \<and> nh \<noteq> 0)"

definition sst_made :: "(bytes \<Rightarrow> u64) \<Rightarrow> sst \<Rightarrow> entry list list \<Rightarrow> bool" where
  "sst_made hash s ess \<longleftrightarrow> sst_layout hash s ess \<and> sst_has_cache s \<and> sst_storage_mode s = 0 \<and>
     length (sst_file s) < 2 ^ 32 \<and> sst_id s < 2 ^ 31 \<and> reopens hash s"

definition plain_builder :: "sst_builder \<Rightarrow> bool" where
  "plain_builder b \<longleftrightarrow> sb_storage_mode b = 0 \<and> stored_entry b = id"

lemma thrown_simps [simp]: "thrown Runtime_Error" "thrown Length_Error" "thrown Out_Of_Range"
    "thrown Invalid_Argument" "\<not> thrown Diverges" "\<not> thrown Undefined"
  by (simp_all add: thrown_def)

lemma new_builder_spec:
  assumes "env_ok env"
  shows "new_builder env = Inl err \<Longrightarrow> thrown err"
    "new_builder env = Inr b \<Longrightarrow> builder_fresh b \<and> plain_builder b"
proof -
  obtain e r sz where c: "env_bloom env = (e, r, sz)" by (cases "env_bloom env") auto
  have N: "new_builder env = builder_new (env_block_size env) True (e, r, sz)"
    using assms by (simp add: new_builder_def env_ok_def c)
  show "thrown err" if "new_builder env = Inl err"
    using that unfolding N
    by (cases sz) (auto simp: builder_new_def builder_bloom_def bloom_new_def split: if_splits)
  show "builder_fresh b \<and> plain_builder b" if b: "new_builder env = Inr b"
  proof (cases sz)
    case None
    with b show ?thesis unfolding N
      by (simp add: builder_new_def builder_bloom_def bloom_new_def split: if_splits)
  next
    case (Some p)
    obtain nb nh where p: "p = (nb, nh)" by (cases p)
    have "nb \<noteq> 0" "nh \<noteq> 0" using assms by (simp_all add: env_ok_def c Some p)
    from builder_new_fresh [OF b [unfolded N Some p] this] show ?thesis
      by (simp add: plain_builder_def)
  qed
qed

lemma builder_build_outcome:
  assumes "builder_inv hash b ess cur" "cur \<noteq> []"
  shows "builder_build hash io sid hc b = Inl err \<Longrightarrow> err = Runtime_Error"
    "builder_build hash io sid hc b = Inr s \<Longrightarrow> sst_id s = sid \<and> sst_has_cache s = hc \<and>
      sst_storage_mode s = sb_storage_mode b \<and> io (sst_file s)"
proof -
  obtain b1 bss where b1: "builder_finish_block b = Inr b1" "block_is_empty (sb_block b) = False"
    "metas_for [] bss (ess @ [cur]) (sb_meta_entries b1)"
    "sb_bloom_filter b1 = sb_bloom_filter b" "sb_storage_mode b1 = sb_storage_mode b"
    using builder_close_inv [OF assms] by metis
  have ne: "sb_meta_entries b1 \<noteq> []" by (rule metas_for_ends(1) [OF b1(3)]) simp
  obtain bbytes where bb: "(case sb_bloom_filter b1 of None \<Rightarrow> Inr [] | Some bf \<Rightarrow> bloom_encode bf) = Inr bbytes"
  proof (cases "sb_bloom_filter b")
    case None
    then show thesis by (intro that [of "[]"]) (simp add: b1(4))
  next
    case (Some bf)
    then have "bloom_ok bf" using assms(1) by (simp add: builder_inv_def bloom_knows_def)
    with bloom_encode_decode [OF this] Some show thesis by (elim exE conjE) (rule that, simp add: b1(4))
  qed
  note U = builder_build_def b1(2) if_False b1(1) ebind_simps if_not_P [OF ne] Let_def bb create_and_write_def
  show "err = Runtime_Error" if "builder_build hash io sid hc b = Inl err"
    using that unfolding U by (simp split: if_splits)
  show "sst_id s = sid \<and> sst_has_cache s = hc \<and> sst_storage_mode s = sb_storage_mode b \<and> io (sst_file s)"
    if "builder_build hash io sid hc b = Inr s"
    using that unfolding U by (simp split: if_splits) (auto simp: b1(5))
qed

lemma builder_build_io: "builder_build hash io sid hc b = Inr s \<Longrightarrow> builder_build hash (\<lambda>_. True) sid hc b = Inr s"
  by (simp add: builder_build_def ebind_Inr_conv Let_def create_and_write_def split: if_splits) auto

lemma builder_build_reopens:
  assumes "builder_inv hash b ess cur" "cur \<noteq> []" "builder_build hash io sid True b = Inr s"
    "length (sst_file s) < 2 ^ 32" "sst_storage_mode s = 0" "sid < 2 ^ 31"
  shows "reopens hash s"
  using builder_build_open [OF assms(1,2), of sid True] builder_build_io [OF assms(3)] assms(4-6)
  unfolding reopens_def by auto

section \<open>The state during a compaction\<close>

text \<open>Only the store and the next id have moved since \<open>e0\<close>; the ids of the SSTs built so
  far are the ids that were taken.\<close>

definition moved :: "(store \<Rightarrow> bool) \<Rightarrow> engine \<Rightarrow> engine \<Rightarrow> bool" where
  "moved I e0 e \<longleftrightarrow> (\<exists>st n. e = e0\<lparr>e_store := st, e_next_sst_id := n\<rparr> \<and> I st \<and> e_next_sst_id e0 \<le> n)"

definition gen_at :: "(store \<Rightarrow> bool) \<Rightarrow> engine \<Rightarrow> sst list \<Rightarrow> engine \<Rightarrow> bool" where
  "gen_at I e0 new e \<longleftrightarrow> moved I e0 e \<and> map sst_id new = [e_next_sst_id e0 ..< e_next_sst_id e]"

lemma moved_refl: "I (e_store e) \<Longrightarrow> moved I e e"
  unfolding moved_def by (intro exI [of _ "e_store e"] exI [of _ "e_next_sst_id e"]) simp

lemma gen_at_moved: "gen_at I e0 new e \<Longrightarrow> moved I e0 e"
  by (simp add: gen_at_def)

lemma moved_store: "moved I e0 e \<Longrightarrow> I (e_store e)"
  by (auto simp: moved_def)

lemma moved_set_store: "moved I e0 e \<Longrightarrow> I st \<Longrightarrow> moved I e0 (e\<lparr>e_store := st\<rparr>)"
  unfolding moved_def
proof (elim exE conjE)
  fix st' n
  assume "I st" "e = e0\<lparr>e_store := st', e_next_sst_id := n\<rparr>" "e_next_sst_id e0 \<le> n"
  then show "\<exists>st' n. e\<lparr>e_store := st\<rparr> = e0\<lparr>e_store := st', e_next_sst_id := n\<rparr> \<and> I st' \<and> e_next_sst_id e0 \<le> n"
    by (intro exI [of _ st] exI [of _ n]) simp
qed

lemma triple_estore:
  assumes "spec I m Q" "\<And>e. A e \<Longrightarrow> I (e_store e)" "\<And>e st. A e \<Longrightarrow> I st \<Longrightarrow> A (e\<lparr>e_store := st\<rparr>)"
  shows "triple A (estore m) (\<lambda>x e. A e \<and> Q x) E"
  unfolding triple_def
proof (intro allI impI)
  fix e
  assume e: "A e"
  obtain x st where m: "m (e_store e) = (Inr x, st)" "I st" "Q x"
    using spec_run [OF assms(1) assms(2) [OF e]] by blast
  with assms(3) [OF e m(2)] show "case estore m e of (Inl err, st') \<Rightarrow> thrown err \<and> E st' | (Inr x, st') \<Rightarrow> A st' \<and> Q x"
    by (simp add: estore_def)
qed

lemma gen_at_estore: "spec I m Q \<Longrightarrow> triple (gen_at I e0 new) (estore m) (\<lambda>x e. gen_at I e0 new e \<and> Q x) E"
  by (rule triple_estore [where I = I]) (auto simp: gen_at_def moved_set_store intro: moved_store)

lemma moved_estore: "spec I m Q \<Longrightarrow> triple (moved I e0) (estore m) (\<lambda>x e. moved I e0 e \<and> Q x) E"
  by (rule triple_estore [where I = I]) (auto simp: moved_set_store intro: moved_store)

lemma build_sst_spec:
  assumes "env_ok env" "builder_inv (env_hash env) b ess cur" "cur \<noteq> []" "plain_builder b"
  shows "triple (gen_at I e0 new) (build_sst env b)
    (\<lambda>s e. gen_at I e0 (new @ [s]) e \<and> sst_made (env_hash env) s (ess @ [cur])) (moved I e0)"
  unfolding triple_def
proof (intro allI impI)
  fix e
  assume e: "gen_at I e0 new e"
  let ?sid = "e_next_sst_id e"
  let ?e = "e\<lparr>e_next_sst_id := Suc ?sid\<rparr>"
  have E: "moved I e0 ?e" "e_next_sst_id e0 \<le> ?sid"
    using e unfolding gen_at_def moved_def by fastforce+
  note B = builder_build_outcome [OF assms(2,3), of "env_io env ?sid" ?sid True]
  show "case build_sst env b e of (Inl err, e') \<Rightarrow> thrown err \<and> moved I e0 e'
    | (Inr s, e') \<Rightarrow> gen_at I e0 (new @ [s]) e' \<and> sst_made (env_hash env) s (ess @ [cur])"
  proof (cases "builder_build (env_hash env) (env_io env ?sid) ?sid True b")
    case (Inl err)
    with B(1) [OF Inl] E(1) show ?thesis by (simp add: build_sst_def cbind_def take_sst_id_def cthrow_def cret_def)
  next
    case (Inr s)
    note F = B(2) [OF Inr]
    have small: "length (sst_file s) < 2 ^ 32" "?sid < 2 ^ 31" using F assms(1) by (auto simp: env_ok_def)
    have "sst_made (env_hash env) s (ess @ [cur])"
      using builder_build_layout [OF assms(2,3) Inr small(1)] builder_build_reopens [OF assms(2,3) Inr small(1) _ small(2)] F small assms(4)
      by (simp add: sst_made_def plain_builder_def)
    moreover have "gen_at I e0 (new @ [s]) ?e" using e E F by (simp add: gen_at_def)
    ultimately show ?thesis using Inr by (simp add: build_sst_def cbind_def take_sst_id_def cthrow_def cret_def)
  qed
qed

section \<open>The loop\<close>

text \<open>\<open>done\<close> are the blocks of the finished SSTs, \<open>rest\<close> the records of the builder and
  of the stream.\<close>

definition ssts_made :: "(bytes \<Rightarrow> u64) \<Rightarrow> sst list \<Rightarrow> entry list list list \<Rightarrow> entry list \<Rightarrow> bool" where
  "ssts_made hash new esss rest \<longleftrightarrow> list_all2 (sst_made hash) new esss \<and>
     sorted_wrt keys_below (map concat esss @ [rest])"

lemma keys_below_last:
  assumes "sorted_entries (xs @ ys)" "xs \<noteq> []" "ys \<noteq> [] \<Longrightarrow> ekey (last xs) \<noteq> ekey (hd ys)"
  shows "keys_below xs ys"
proof (cases ys)
  case (Cons y ys')
  have S: "sorted_entries xs" "sorted_entries ys" "\<And>x y. x \<in> set xs \<Longrightarrow> y \<in> set ys \<Longrightarrow> entry_less x y"
    using assms(1) by (auto simp: sorted_wrt_append)
  have l: "last xs \<in> set xs" using assms(2) by simp
  have "ekey (last xs) \<le> ekey y" using entry_less_key_le [OF S(3) [OF l, of y]] Cons by simp
  then have lt: "ekey (last xs) < ekey y" using assms(3) Cons by simp
  have "ekey y \<le> ekey z" if "z \<in> set ys" for z
    using that S(2) Cons by (auto intro: entry_less_key_le)
  with lt sorted_last_key [OF S(1)] show ?thesis
    unfolding keys_below_def by (meson order.strict_trans1 order.strict_trans2)
qed (simp add: keys_below_def)

lemma ssts_made_cut:
  assumes "ssts_made hash new esss (xs @ ys)" "sst_made hash s ess" "concat ess = xs" "keys_below xs ys"
  shows "ssts_made hash (new @ [s]) (esss @ [ess]) ys"
  using assms by (auto simp: ssts_made_def sorted_wrt_append keys_below_def list_all2_appendI)

context record_stream
begin

lemma more_records_spec: "stands it es \<Longrightarrow> more_records ops it = Inr (es \<noteq> [])"
  using at_end [of it] at_record [of it] by (cases es) (auto simp: more_records_def)

lemma next_same_key_spec:
  "stands it es \<Longrightarrow> next_same_key ops it k = Inr (es \<noteq> [] \<and> ekey (hd es) = k)"
  using more_records_spec [of it es] at_record [of it] by (cases es) (auto simp: next_same_key_def)

lemma gen_loop_spec:
  assumes "env_ok env" "stands it es" "length es < n" "builder_inv (env_hash env) b ess cur" "plain_builder b"
    "pending \<longleftrightarrow> cur \<noteq> []" "sorted_entries (concat ess @ cur @ es)"
    "ssts_made (env_hash env) new esss (concat ess @ cur @ es)"
  shows "triple (gen_at I e0 new) (gen_loop n env ops target it b pending new)
    (\<lambda>new' e. gen_at I e0 new' e \<and> (\<exists>esss'. ssts_made (env_hash env) new' esss' [] \<and>
       concat (map concat esss') = concat (map concat esss) @ concat ess @ cur @ es)) (moved I e0)"
  using assms(2-8)
proof (induction n arbitrary: it es b ess cur pending new esss)
  case (Suc n)
  show ?case
  proof (cases es)
    case Nil
    show ?thesis
    proof (cases pending)
      case True
      then have ne: "cur \<noteq> []" using Suc.prems(5) by simp
      have m: "ssts_made (env_hash env) (new @ [s]) (esss @ [ess @ [cur]]) []" if "sst_made (env_hash env) s (ess @ [cur])" for s
        using ssts_made_cut [of "env_hash env" new esss "concat ess @ cur" "[]" s "ess @ [cur]"] Suc.prems(7) that Nil
        by (simp add: keys_below_def)
      have "triple (gen_at I e0 new) (cbind (build_sst env b) (\<lambda>s. cret (new @ [s])))
          (\<lambda>new' e. gen_at I e0 new' e \<and> (\<exists>esss'. ssts_made (env_hash env) new' esss' [] \<and>
            concat (map concat esss') = concat (map concat esss) @ concat ess @ cur @ es)) (moved I e0)"
        by (rule triple_bind [OF build_sst_spec [OF assms(1) Suc.prems(3) ne Suc.prems(4)]], rule triple_ret,
            intro conjI exI [of _ "esss @ [ess @ [cur]]"]) (use m Nil in auto)
      with True more_records_spec [OF Suc.prems(1)] show ?thesis by (simp add: Nil)
    next
      case False
      then have "cur = []" "ess = []" using Suc.prems(3,5) by (simp_all add: builder_inv_def)
      with Suc.prems(7) False more_records_spec [OF Suc.prems(1)] show ?thesis
        by (auto simp: Nil intro!: triple_ret exI [of _ esss])
    qed
  next
    case (Cons x xs)
    note st = Suc.prems(1) [unfolded Cons]
    have id: "stored_entry b = id" using Suc.prems(4) by (simp add: plain_builder_def)
    have sorted: "sorted_entries (concat ess @ cur @ map (stored_entry b) (x # xs))"
      using Suc.prems(6) by (simp add: id Cons)
    let ?Q = "\<lambda>new' e. gen_at I e0 new' e \<and> (\<exists>esss'. ssts_made (env_hash env) new' esss' [] \<and>
       concat (map concat esss') = concat (map concat esss) @ concat ess @ cur @ es)"
    define next_loop where "next_loop b1 = (\<lambda>it1. cbind (clift (next_same_key ops it1 (ekey x))) (\<lambda>same.
        if \<not> same \<and> target \<le> builder_estimated_size b1 then
          cbind (build_sst env b1) (\<lambda>s.
          cbind (clift (new_builder env)) (\<lambda>b2. gen_loop n env ops target it1 b2 False (new @ [s])))
        else gen_loop n env ops target it1 b1 True new))" for b1
    have step: "gen_loop (Suc n) env ops target it b pending new =
        cbind (clift (builder_add (env_hash env) b x)) (\<lambda>b1. cbind (estore (io_next ops it)) (next_loop b1))"
      using more_records_spec [OF st] at_record [OF st] by (simp add: next_loop_def)
    show ?thesis
      unfolding step
    proof (cases "builder_add (env_hash env) b x")
      case (Inl err)
      with builder_add_error [OF Suc.prems(3) Inl]
      show "triple (gen_at I e0 new) (cbind (clift (builder_add (env_hash env) b x))
        (\<lambda>b1. cbind (estore (io_next ops it)) (next_loop b1))) ?Q (moved I e0)"
        by (auto intro!: triple_throw gen_at_moved)
    next
      case (Inr b1)
      obtain ess1 cur1 where s: "builder_inv (env_hash env) b1 ess1 cur1"
        "cur1 = cur @ [stored_entry b x] \<or> cur1 = [stored_entry b x]"
        "concat ess1 @ cur1 @ map (stored_entry b1) xs = concat ess @ cur @ map (stored_entry b) (x # xs)"
        "sorted_entries (concat ess1 @ cur1 @ map (stored_entry b1) xs)"
        "stored_entry b1 = stored_entry b" "sb_block_size b1 = sb_block_size b"
        by (rule builder_add_step [OF Suc.prems(3) sorted Inr])
      have P: "plain_builder b1" using Suc.prems(4) s(5) builder_add_frame(2) [OF Inr] by (simp add: plain_builder_def)
      have cur1: "cur1 \<noteq> []" "last cur1 = x" using s(2) by (auto simp: id)
      have all: "concat ess1 @ cur1 @ xs = concat ess @ cur @ es" "sorted_entries (concat ess1 @ cur1 @ xs)"
        using s(3,4) by (simp_all add: s(5) id Cons)
      have loop: "triple (gen_at I e0 new) (next_loop b1 it1) ?Q (moved I e0)" if it1: "stands it1 xs" for it1
      proof (cases "\<not> (xs \<noteq> [] \<and> ekey (hd xs) = ekey x) \<and> target \<le> builder_estimated_size b1")
        case True
        have below: "keys_below (concat ess1 @ cur1) xs"
          by (rule keys_below_last) (use all(2) cur1 True in auto)
        have cut: "ssts_made (env_hash env) (new @ [s]) (esss @ [ess1 @ [cur1]]) xs"
          if "sst_made (env_hash env) s (ess1 @ [cur1])" for s
          using ssts_made_cut [of "env_hash env" new esss "concat ess1 @ cur1" xs s "ess1 @ [cur1]"] Suc.prems(7) that below
          by (simp add: all(1) [symmetric])
        have "triple (\<lambda>e. gen_at I e0 (new @ [s]) e \<and> sst_made (env_hash env) s (ess1 @ [cur1]))
            (cbind (clift (new_builder env)) (\<lambda>b2. gen_loop n env ops target it1 b2 False (new @ [s]))) ?Q (moved I e0)" for s
        proof (rule triple_here, elim conjE)
          fix e
          assume e: "gen_at I e0 (new @ [s]) e" and s: "sst_made (env_hash env) s (ess1 @ [cur1])"
          show "triple (\<lambda>e'. e' = e) (cbind (clift (new_builder env)) (\<lambda>b2. gen_loop n env ops target it1 b2 False (new @ [s])))
              ?Q (moved I e0)"
          proof (cases "new_builder env")
            case (Inl err)
            with e new_builder_spec(1) [OF assms(1) Inl] show ?thesis by (auto intro!: triple_throw gen_at_moved)
          next
            case (Inr b2)
            then have b2: "builder_inv (env_hash env) b2 [] []" "plain_builder b2"
              using new_builder_spec(2) [OF assms(1) Inr] builder_fresh_inv by auto
            have "triple (gen_at I e0 (new @ [s])) (gen_loop n env ops target it1 b2 False (new @ [s]))
                (\<lambda>new' e. gen_at I e0 new' e \<and> (\<exists>esss'. ssts_made (env_hash env) new' esss' [] \<and>
                  concat (map concat esss') = concat (map concat (esss @ [ess1 @ [cur1]])) @ concat [] @ [] @ xs)) (moved I e0)"
              by (rule Suc.IH [OF it1 _ b2]) (use Suc.prems(2) Cons all(2) cut [OF s] in \<open>auto simp: sorted_wrt_append\<close>)
            then show ?thesis
              unfolding Inr cbind_simps by (rule triple_weaken) (use e all(1) in simp_all)
          qed
        qed
        with True next_same_key_spec [OF it1, of "ekey x"] show ?thesis
          unfolding next_loop_def by (auto intro!: triple_bind [OF build_sst_spec [OF assms(1) s(1) cur1(1) P]])
      next
        case False
        have "triple (gen_at I e0 new) (gen_loop n env ops target it1 b1 True new)
            (\<lambda>new' e. gen_at I e0 new' e \<and> (\<exists>esss'. ssts_made (env_hash env) new' esss' [] \<and>
              concat (map concat esss') = concat (map concat esss) @ concat ess1 @ cur1 @ xs)) (moved I e0)"
          by (rule Suc.IH [OF it1 _ s(1) P]) (use Suc.prems(2,7) Cons all(2) cur1(1) in \<open>simp_all add: all(1)\<close>)
        with False next_same_key_spec [OF it1, of "ekey x"] show ?thesis
          unfolding next_loop_def all(1) by auto
      qed
      have "triple (gen_at I e0 new) (cbind (estore (io_next ops it)) (next_loop b1)) ?Q (moved I e0)"
        by (rule triple_bind [OF gen_at_estore [OF advance [OF st]]], rule triple_pure, rule loop)
      with Inr show "triple (gen_at I e0 new) (cbind (clift (builder_add (env_hash env) b x))
        (\<lambda>b1. cbind (estore (io_next ops it)) (next_loop b1))) ?Q (moved I e0)" by simp
    qed
  qed
qed simp

lemma gen_sst_from_iter_spec:
  assumes "env_ok env" "stands it es" "sorted_entries es"
  shows "triple (gen_at I e0 []) (gen_sst_from_iter env ops it target)
    (\<lambda>new e. gen_at I e0 new e \<and> (\<exists>esss. ssts_made (env_hash env) new esss [] \<and> concat (map concat esss) = es))
    (moved I e0)"
proof (cases "new_builder env")
  case (Inl err)
  with new_builder_spec(1) [OF assms(1) Inl] show ?thesis
    by (auto simp: gen_sst_from_iter_def intro!: triple_throw gen_at_moved)
next
  case (Inr b)
  then have b: "builder_inv (env_hash env) b [] []" "plain_builder b"
    using new_builder_spec(2) [OF assms(1) Inr] builder_fresh_inv by auto
  have "triple (gen_at I e0 []) (gen_loop (io_fuel ops it) env ops target it b False [])
      (\<lambda>new e. gen_at I e0 new e \<and> (\<exists>esss. ssts_made (env_hash env) new esss [] \<and>
        concat (map concat esss) = concat (map concat []) @ concat [] @ [] @ es)) (moved I e0)"
    by (rule gen_loop_spec [OF assms(1,2) fuel [OF assms(2)] b]) (use assms(3) in \<open>auto simp: ssts_made_def\<close>)
  then have "triple (gen_at I e0 []) (gen_loop (io_fuel ops it) env ops target it b False [])
      (\<lambda>new e. gen_at I e0 new e \<and> (\<exists>esss. ssts_made (env_hash env) new esss [] \<and> concat (map concat esss) = es)) (moved I e0)"
    by simp
  then show ?thesis
    unfolding gen_sst_from_iter_def Inr cbind_simps by (rule triple_weaken) simp_all
qed

end

end
