(* ===== verification/Engine_State.thy ===== *)
theory Engine_State
  imports Engine_Gen
begin

text \<open>
  The invariant of the engine. A ghost function \<open>P\<close> gives the blocks of every SST id that
  was ever used; it determines what the cache may hold. The records of the engine are those of
  the memory tables and of the SSTs in the levels, and no version occurs twice.
\<close>

section \<open>Ghost blocks and the cache\<close>

definition blocks_of :: "(nat \<Rightarrow> entry list list) \<Rightarrow> cache_key \<Rightarrow> entry list" where
  "blocks_of P key = (case key of (i, b) \<Rightarrow>
     if 0 \<le> i \<and> 0 \<le> b \<and> nat b < length (P (nat i)) then P (nat i) ! nat b else [])"

lemma to_int32_small: "n < 2 ^ 31 \<Longrightarrow> to_int32 (int n) = int n"
  unfolding to_int32_def by (rule signed_take_bit_int_eq_self) simp_all

lemma length_concat_ge: "\<forall>es \<in> set ess. es \<noteq> [] \<Longrightarrow> length ess \<le> length (concat ess)"
  by (induction ess) (auto simp: neq_Nil_conv)

lemma sst_made_plain:
  assumes "sst_made hash s ess" "P (sst_id s) = ess"
  shows "sst_plain hash (blocks_of P) s ess"
proof -
  have L: "sst_layout hash s ess" and "length (sst_file s) < 2 ^ 32" and sid: "sst_id s < 2 ^ 31"
    using assms(1) by (simp_all add: sst_made_def)
  moreover have "length ess \<le> length (concat ess)"
    using sst_layout_facts(2) [OF L] by (intro length_concat_ge) (simp add: sst_blocks_def)
  ultimately have n: "length ess < 2 ^ 31" using sst_file_bytes [OF L] by simp
  have "blocks_of P (sst_cache_key s (int i)) = ess ! i" if "i < length ess" for i
    using to_int32_small [OF sid] to_int32_small [of i] that n
    by (simp add: blocks_of_def sst_cache_key_def assms(2))
  with assms(1) show ?thesis by (simp add: sst_plain_def sst_shows_def sst_made_def)
qed

text \<open>New ids get blocks, used ids keep theirs.\<close>

definition ghost_extends :: "nat \<Rightarrow> (nat \<Rightarrow> entry list list) \<Rightarrow> (nat \<Rightarrow> entry list list) \<Rightarrow> bool" where
  "ghost_extends n P P' \<longleftrightarrow> (\<forall>i < n. P' i = P i) \<and> (\<forall>i \<ge> n. P i = [])"

lemma ghost_extends_blocks:
  assumes "ghost_extends n P P'" "blocks_of P key \<noteq> []"
  shows "blocks_of P' key = blocks_of P key"
proof -
  obtain i b where key: "key = (i, b)" by (cases key)
  have "0 \<le> i" "0 \<le> b" "nat b < length (P (nat i))"
    using assms(2) by (auto simp: blocks_of_def key split: if_splits)
  moreover from this have "P (nat i) \<noteq> []" by auto
  then have "nat i < n" using assms(1) unfolding ghost_extends_def by (meson not_less)
  then have "P' (nat i) = P (nat i)" using assms(1) by (simp add: ghost_extends_def)
  ultimately show ?thesis by (simp add: blocks_of_def key)
qed

lemma sst_plain_extend:
  assumes "sst_plain hash (blocks_of P) s ess" "ghost_extends n P P'"
  shows "sst_plain hash (blocks_of P') s ess"
proof -
  have S: "sst_shows hash (blocks_of P) s ess" using assms(1) by (simp add: sst_plain_def)
  then have B: "sst_blocks ess" using sst_shows_blocks(2) by blast
  have "blocks_of P' (sst_cache_key s (int i)) = ess ! i" if "i < length ess" for i
    using ghost_extends_blocks [OF assms(2), of "sst_cache_key s (int i)"] sst_block_sorted [OF B that] S that
    by (simp add: sst_shows_def)
  with assms(1) show ?thesis by (simp add: sst_plain_def sst_shows_def)
qed

lemma tables_shown_extend:
  assumes "tables_shown hash (blocks_of P) ssts P ids" "ghost_extends n P P'" "\<forall>i \<in> set ids. i < n"
    "\<forall>i \<in> set ids. map_of ssts' i = map_of ssts i"
  shows "tables_shown hash (blocks_of P') ssts' P' ids"
  unfolding tables_shown_def
proof
  fix i
  assume i: "i \<in> set ids"
  then obtain s where "map_of ssts i = Some s" "sst_id s = i" "sst_plain hash (blocks_of P) s (P i)"
    using assms(1) unfolding tables_shown_def by blast
  moreover have "P' i = P i" using assms(2,3) i by (simp add: ghost_extends_def)
  ultimately show "\<exists>s. map_of ssts' i = Some s \<and> sst_id s = i \<and> sst_plain hash (blocks_of P') s (P' i)"
    using sst_plain_extend [OF _ assms(2)] assms(4) i by auto
qed

section \<open>Levels\<close>

lemma map_of_level_set: "map_of (level_set l ids ls) = (map_of ls)(l \<mapsto> ids)"
  by (induction ls) (auto simp: fun_eq_iff)

lemma level_ids_set [simp]: "level_ids (level_set l ids ls) l' = (if l' = l then ids else level_ids ls l')"
  by (simp add: level_ids_def map_of_level_set)

lemma level_set_keys: "set (map fst (level_set l ids ls)) = insert l (set (map fst ls))"
  by (induction ls) auto

lemma level_set_sorted: "sorted_wrt (<) (map fst ls) \<Longrightarrow> sorted_wrt (<) (map fst (level_set l ids ls))"
proof (induction ls)
  case (Cons x xs)
  then show ?case using level_set_keys [of l ids xs] by (auto simp del: set_map)
qed simp

lemma level_set_members: "set (level_set l ids ls) \<subseteq> insert (l, ids) (set ls)"
  by (induction ls) auto

lemma all_ids_level_set:
  assumes "sorted_wrt (<) (map fst ls)"
  shows "mset (all_ids (level_set l ids ls)) + mset (level_ids ls l) = mset (all_ids ls) + mset ids"
  using assms
proof (induction ls)
  case (Cons x xs)
  obtain k ks where x: "x = (k, ks)" by (cases x)
  have none: "level_ids ((k, ks) # xs) l = []" if "l < k"
    using Cons.prems that by (fastforce simp: x level_ids_def split: option.splits dest: map_of_SomeD)
  consider "k = l" | "l < k" | "k < l" by fastforce
  then show ?case
  proof cases
    case 3
    with Cons have "mset (all_ids (level_set l ids xs)) + mset (level_ids xs l) = mset (all_ids xs) + mset ids"
      by simp
    with 3 show ?thesis by (simp add: x all_ids_def level_ids_def)
  qed (use none in \<open>simp_all add: x all_ids_def, simp_all add: level_ids_def\<close>)
qed (simp add: all_ids_def level_ids_def)

text \<open>Two levels are disjoint parts of all ids.\<close>

lemma level_pair_subset:
  assumes "sorted_wrt (<) (map fst ls)"
  shows "mset (level_ids ls l @ level_ids ls (Suc l)) \<subseteq># mset (all_ids ls)"
proof -
  have "mset (level_ids ls l) \<subseteq># mset (all_ids ls)"
    using all_ids_level_set [OF assms, of l "[]"] by (simp add: subset_mset.le_iff_add) (metis union_commute)
  moreover have "mset (level_ids ls (Suc l)) \<subseteq># mset (all_ids (level_set l [] ls))"
    using all_ids_level_set [OF level_set_sorted [OF assms], of "Suc l" "[]" l "[]"]
    by (simp add: subset_mset.le_iff_add) (metis union_commute)
  ultimately show ?thesis
    using all_ids_level_set [OF assms, of l "[]"] by (metis add.commute add.right_neutral mset.simps(1) mset_append subset_mset.add_left_mono)
qed

lemma levels_ok_set:
  assumes "levels_ok P ls" "l = 0 \<or> level_ordered P ids"
  shows "levels_ok P (level_set l ids ls)"
  using assms level_set_sorted [of ls l ids] level_set_members [of l ids ls] unfolding levels_ok_def by auto

lemma level_ordered_cong: "\<forall>i \<in> set ids. P' i = P i \<Longrightarrow> level_ordered P ids \<Longrightarrow> level_ordered P' ids"
  unfolding level_ordered_def by (auto elim!: sorted_wrt_mono_rel [rotated])

lemma levels_ok_cong:
  assumes "levels_ok P ls" "\<forall>i \<in> set (all_ids ls). P' i = P i"
  shows "levels_ok P' ls"
proof -
  have "level_ordered P' ids" if "(l, ids) \<in> set ls" "l \<noteq> 0" for l ids
  proof (rule level_ordered_cong [of ids P' P])
    show "level_ordered P ids" using assms(1) that unfolding levels_ok_def by fastforce
    have "set ids \<subseteq> set (all_ids ls)" using that(1) unfolding all_ids_def by force
    then show "\<forall>i \<in> set ids. P' i = P i" using assms(2) by blast
  qed
  with assms(1) show ?thesis by (auto simp: levels_ok_def)
qed

lemma levels_ok_ids: "levels_ok P ls \<Longrightarrow> l \<noteq> 0 \<Longrightarrow> level_ordered P (level_ids ls l)"
  unfolding levels_ok_def level_ids_def
  by (auto simp: level_ordered_def split: option.splits dest!: map_of_SomeD)

section \<open>Records\<close>

definition mem_records :: "memtable \<Rightarrow> entry list" where
  "mem_records m = concat (map table_entries (mem_tables m))"

definition ids_records :: "(nat \<Rightarrow> entry list list) \<Rightarrow> nat list \<Rightarrow> entry list" where
  "ids_records P ids = concat (map (\<lambda>i. concat (P i)) ids)"

definition engine_records :: "(nat \<Rightarrow> entry list list) \<Rightarrow> engine \<Rightarrow> entry list" where
  "engine_records P e = mem_records (e_memtable e) @ ids_records P (all_ids (e_levels e))"

definition engine_ok :: "engine_env \<Rightarrow> (nat \<Rightarrow> entry list list) \<Rightarrow> engine \<Rightarrow> bool" where
  "engine_ok env P e \<longleftrightarrow>
     store_holds (blocks_of P) (e_store e) \<and> mem_ok (e_memtable e) \<and>
     tables_shown (env_hash env) (blocks_of P) (e_ssts e) P (all_ids (e_levels e)) \<and>
     distinct (all_ids (e_levels e)) \<and> levels_ok P (e_levels e) \<and>
     (\<forall>i \<in> set (all_ids (e_levels e)). i < e_next_sst_id e) \<and> (\<forall>i \<ge> e_next_sst_id e. P i = []) \<and>
     distinct (map eversion (engine_records P e))"

lemma ids_records_append [simp]: "ids_records P (xs @ ys) = ids_records P xs @ ids_records P ys"
  by (simp add: ids_records_def)

lemma ids_records_cong: "\<forall>i \<in> set ids. P' i = P i \<Longrightarrow> ids_records P' ids = ids_records P ids"
  unfolding ids_records_def by (metis (mono_tags, lifting) map_eq_conv)

lemma mset_ids_records: "mset (ids_records P ids) = (\<Sum>i \<in># mset ids. mset (concat (P i)))"
  by (induction ids) (simp_all add: ids_records_def)

lemma ids_records_mset: "mset xs = mset ys \<Longrightarrow> mset (ids_records P xs) = mset (ids_records P ys)"
  by (simp add: mset_ids_records)

lemma set_ids_records: "set (ids_records P ids) = level_entries P ids"
  by (auto simp: ids_records_def level_entries_def)

lemma mset_distinct_versions:
  assumes "mset xs = mset ys" "distinct (map eversion xs)"
  shows "distinct (map eversion ys)"
proof -
  have "mset (map eversion xs) = mset (map eversion ys)" unfolding mset_map assms(1) ..
  then show ?thesis using assms(2) mset_eq_imp_distinct_iff by blast
qed

lemma moved_ok:
  assumes "engine_ok env P e0" "moved (store_holds (blocks_of P)) e0 e"
  shows "engine_ok env P e" "engine_records P e = engine_records P e0"
proof -
  obtain st n where e: "e = e0\<lparr>e_store := st, e_next_sst_id := n\<rparr>" "store_holds (blocks_of P) st" "e_next_sst_id e0 \<le> n"
    using assms(2) unfolding moved_def by blast
  show r: "engine_records P e = engine_records P e0" by (simp add: engine_records_def e(1))
  have "\<forall>i \<in> set (all_ids (e_levels e0)). i < n" "\<forall>i \<ge> n. P i = []"
    using assms(1) e(3) unfolding engine_ok_def by (meson order.strict_trans2 order.trans)+
  moreover have "e_store e = st" "e_memtable e = e_memtable e0" "e_ssts e = e_ssts e0" "e_levels e = e_levels e0"
    "e_next_sst_id e = n" by (simp_all add: e(1))
  ultimately show "engine_ok env P e" using assms(1) e(2) unfolding engine_ok_def r by metis
qed

text \<open>The engine with some ghost blocks.\<close>

definition engine_has :: "engine_env \<Rightarrow> entry multiset \<Rightarrow> engine \<Rightarrow> bool" where
  "engine_has env R e \<longleftrightarrow> (\<exists>P. engine_ok env P e \<and> mset (engine_records P e) = R)"

lemma engine_hasE:
  assumes "engine_has env R e"
  obtains P where "engine_ok env P e" "mset (engine_records P e) = R"
  using assms unfolding engine_has_def by blast

end
