(* ===== verification/Engine_Compact.thy ===== *)
theory Engine_Compact
  imports Engine_State
begin

text \<open>
  Full compaction: whatever level it starts at, whether it succeeds or stops at an exception in
  any file write or builder, the engine holds exactly the records it held before, versions and
  commit marks included, and its invariant; and it ends.
\<close>

section \<open>The sources of a merge\<close>

lemma reader_view_all [simp]: "reader_view True 0 None es = es"
  by (simp add: reader_view_def)

lemma heap_of_mset: "mset (heap_of vec) = mset vec"
proof -
  have push: "mset (heap_push ys x) = add_mset x (mset ys)" for ys x by (induction ys) auto
  have "mset (foldl heap_push ys vec) = mset ys + mset vec" for ys
    by (induction vec arbitrary: ys) (auto simp: push)
  then show ?thesis by (simp add: heap_of_def)
qed

lemma sorted_item_entries:
  assumes "sorted_wrt item_le its" "distinct (map eversion (map item_entry its))"
  shows "sorted_entries (map item_entry its)"
  using assms
proof (induction its)
  case (Cons i its)
  have "entry_less (item_entry i) (item_entry j)" if j: "j \<in> set its" for j
  proof -
    have "item_le i j" using Cons.prems(1) j by simp
    moreover have "eversion (item_entry i) \<noteq> eversion (item_entry j)" using Cons.prems(2) j by auto
    ultimately show ?thesis
      by (auto simp: item_entry_def item_less_def entry_less_def version_less_def split: if_splits)
  qed
  with Cons show ?case by simp
qed simp

definition table_pairs :: "(nat \<times> sst) list \<Rightarrow> (nat \<Rightarrow> entry list list) \<Rightarrow> nat list \<Rightarrow> (sst \<times> entry list list) list" where
  "table_pairs ssts P ids = map (\<lambda>i. (the (map_of ssts i), P i)) ids"

lemma table_pairs_shown:
  assumes "tables_shown hash C ssts P ids"
  shows "ssts_of ssts ids = Inr (map fst (table_pairs ssts P ids))"
    "\<forall>p \<in> set (table_pairs ssts P ids). sst_plain hash C (fst p) (snd p)"
    "ssts_shown hash C (table_pairs ssts P ids)"
proof -
  show "ssts_of ssts ids = Inr (map fst (table_pairs ssts P ids))"
    using assms
  proof (induction ids)
    case (Cons i ids)
    obtain s where s: "map_of ssts i = Some s" using Cons.prems unfolding tables_shown_def by fastforce
    have "tables_shown hash C ssts P ids" using Cons.prems by (simp add: tables_shown_def)
    from Cons.IH [OF this] s show ?case by (simp add: ssts_index_def table_pairs_def)
  qed (simp add: table_pairs_def)
  show p: "\<forall>p \<in> set (table_pairs ssts P ids). sst_plain hash C (fst p) (snd p)"
    using assms unfolding tables_shown_def table_pairs_def by fastforce
  then show "ssts_shown hash C (table_pairs ssts P ids)"
    unfolding ssts_shown_def using sst_plain_facts(1,9) by fastforce
qed

lemma table_pairs_records:
  "concat (map (\<lambda>p. concat (snd p)) (table_pairs ssts P ids)) = ids_records P ids"
  by (simp add: table_pairs_def ids_records_def comp_def)

lemma begin_all_spec:
  assumes "\<forall>p \<in> set ps. sst_plain hash C (fst p) (snd p)"
  shows "spec (store_holds C) (begin_all (map fst ps))
    (\<lambda>its. list_all2 (\<lambda>it (s, ess). sst_shows hash C s ess \<and> resolvable s \<and>
      sit_shows s ess 0 True None it (reader_view True 0 None (concat ess))) its ps)"
  using assms
proof (induction ps)
  case (Cons p ps)
  obtain s ess where p: "p = (s, ess)" by (cases p)
  have S: "sst_shows hash C s ess" "resolvable s" using Cons.prems p sst_plain_facts(1,9) by auto
  have IH: "spec (store_holds C) (begin_all (map fst ps))
    (\<lambda>its. list_all2 (\<lambda>it (s, ess). sst_shows hash C s ess \<and> resolvable s \<and>
      sit_shows s ess 0 True None it (reader_view True 0 None (concat ess))) its ps)"
    using Cons by simp
  show ?case
    unfolding p list.map fst_conv begin_all.simps sst_begin_def
    by (rule spec_bind [OF sit_new_spec [OF S(1)]], rule spec_bind [OF IH], rule spec_ret) (use S in simp)
qed (simp add: spec_ret)

lemma l0_heap_spec:
  assumes "list_all2 (\<lambda>it (s, ess). sst_shows hash C s ess \<and> resolvable s \<and>
      sit_shows s ess 0 True None it (reader_view True 0 None (concat ess))) its ps"
    "\<forall>p \<in> set ps. sst_plain hash C (fst p) (snd p)" "ps \<noteq> []"
    "distinct (map eversion (concat (map (\<lambda>p. concat (snd p)) ps)))"
  shows "spec (store_holds C) (merge_sst_iterator its 0 True)
    (\<lambda>r. \<exists>es. heap_shows_all (fst r) es \<and> mset es = mset (concat (map (\<lambda>p. concat (snd p)) ps)) \<and> sorted_entries es)"
proof -
  define vec where "vec = concat (map (\<lambda>(s, ess). map (sst_item s) (reader_view True 0 None (concat ess))) ps)"
  have "map item_entry vec = concat (map (\<lambda>p. concat (snd p)) ps)"
    using assms(2) unfolding vec_def
  proof (induction ps)
    case (Cons p ps)
    obtain s ess where p: "p = (s, ess)" by (cases p)
    have "resolve_entry s = id" using Cons.prems p sst_plain_facts(10) by auto
    then have "map item_entry (map (sst_item s) (concat ess)) = concat ess"
      by (auto intro!: map_idI simp: sst_item_def item_entry_def)
    with Cons p show ?case by simp
  qed simp
  then have m: "mset (map item_entry (heap_of vec)) = mset (concat (map (\<lambda>p. concat (snd p)) ps))"
    using heap_of_mset [of vec] by (metis mset_map)
  have s: "sorted_entries (map item_entry (heap_of vec))"
    by (rule sorted_item_entries [OF heap_of_sorted], rule mset_distinct_versions [OF m [symmetric] assms(4)])
  have ne: "its \<noteq> []" using assms(1,3) by auto
  show ?thesis
    unfolding merge_sst_iterator_def if_not_P [OF ne]
    by (rule spec_bind [OF drain_all_spec [OF assms(1)]], rule spec_ret, rule exI [of _ "map item_entry (heap_of vec)"])
      (use m s in \<open>simp add: heap_shows_all_def heap_empty_def heap_of_def vec_def\<close>)
qed

lemma conc_level_spec:
  assumes "tables_shown hash C ssts P ids"
  shows "spec (store_holds C) (conc_new (map fst (table_pairs ssts P ids)) 0 True None)
    (\<lambda>c. conc_shows hash C c (ids_records P ids))"
proof -
  have "sst_view 0 True None p = concat (snd p)" if "p \<in> set (table_pairs ssts P ids)" for p
    using table_pairs_shown(2) [OF assms] that sst_plain_facts(10) [of hash C "fst p" "snd p"] by (simp add: sst_view_def)
  then have "map (sst_view 0 True None) (table_pairs ssts P ids) = map (\<lambda>p. concat (snd p)) (table_pairs ssts P ids)"
    by simp
  with conc_new_spec [OF table_pairs_shown(3) [OF assms], of 0 True None] show ?thesis
    by (simp add: table_pairs_records)
qed

lemma level_sorted:
  assumes "tables_shown hash C ssts P ids" "level_ordered P ids"
  shows "sorted_entries (ids_records P ids)"
  using assms
proof (induction ids)
  case (Cons i ids)
  obtain s where s: "sst_plain hash C s (P i)" by (rule tables_shownE [OF Cons.prems(1), of i]) auto
  have IH: "sorted_entries (ids_records P ids)"
    using Cons by (simp add: tables_shown_def level_ordered_def)
  have "entry_less x y" if x: "x \<in> set (concat (P i))" and y: "y \<in> set (ids_records P ids)" for x y
  proof -
    obtain j where "j \<in> set ids" "y \<in> set (concat (P j))" using y unfolding set_ids_records level_entries_def by blast
    then have "ekey x < ekey y" using Cons.prems(2) x unfolding level_ordered_def keys_below_def by auto
    then show ?thesis by (simp add: entry_less_def version_less_def)
  qed
  with IH sst_plain_facts(5) [OF s] show ?case by (simp add: ids_records_def sorted_wrt_append)
qed (simp add: ids_records_def)

section \<open>Generating the new SSTs\<close>

lemma triple_eget:
  assumes "\<And>e. A e \<Longrightarrow> f e = v" "triple A (g v) Q E"
  shows "triple A (cbind (eget f) g) Q E"
  using assms by (auto simp: triple_def cbind_def eget_def)

lemma triple_eget_at:
  "triple (\<lambda>e. e = e0) (g (f e0)) Q E \<Longrightarrow> triple (\<lambda>e. e = e0) (cbind (eget f) g) Q E"
  by (rule triple_eget [of _ f "f e0"]) simp_all

text \<open>The new SSTs hold the records of \<open>ids\<close>.\<close>

definition compacted ::
  "engine_env \<Rightarrow> (nat \<Rightarrow> entry list list) \<Rightarrow> engine \<Rightarrow> nat list \<Rightarrow> sst list \<Rightarrow> engine \<Rightarrow> bool" where
  "compacted env P e0 ids new e \<longleftrightarrow> gen_at (store_holds (blocks_of P)) e0 new e \<and>
     (\<exists>esss. ssts_made (env_hash env) new esss [] \<and> mset (concat (map concat esss)) = mset (ids_records P ids))"

lemma gen_at_ssts: "gen_at I e0 new e \<Longrightarrow> e_ssts e = e_ssts e0"
  by (auto simp: gen_at_def moved_def)

lemma merge_two_sorted:
  assumes "sorted_entries xs" "sorted_entries ys" "mset xs = mset us" "mset ys = mset vs"
    "distinct (map eversion (us @ vs))"
  shows "sorted_entries (merge_entries xs ys)" "mset (merge_entries xs ys) = mset (us @ vs)"
proof -
  have "set xs = set us" "set ys = set vs" using assms(3,4) by (metis set_mset_mset)+
  with assms(5) have "eversion ` set xs \<inter> eversion ` set ys = {}" by simp
  with assms(1,2) show "sorted_entries (merge_entries xs ys)" by (rule sorted_merge_entries)
  show "mset (merge_entries xs ys) = mset (us @ vs)" by (simp add: mset_merge_entries assms(3,4))
qed

text \<open>Both compactions end in the same way.\<close>

lemma merged_generation:
  assumes "env_ok env" "record_stream (store_holds (blocks_of P)) ops stands" "stands it es"
    "sorted_entries es" "mset es = mset (ids_records P ids)"
  shows "triple (gen_at (store_holds (blocks_of P)) e0 []) (gen_sst_from_iter env ops it target)
    (compacted env P e0 ids) (moved (store_holds (blocks_of P)) e0)"
  by (rule triple_weaken [OF record_stream.gen_sst_from_iter_spec [OF assms(2,1,3,4)]])
    (use assms(5) in \<open>auto simp: compacted_def\<close>)

lemma full_l0_l1_compact_spec:
  assumes "env_ok env" "tables_shown (env_hash env) (blocks_of P) (e_ssts e0) P xs"
    "tables_shown (env_hash env) (blocks_of P) (e_ssts e0) P ys" "level_ordered P ys" "xs \<noteq> []"
    "distinct (map eversion (ids_records P (xs @ ys)))"
  shows "triple (gen_at (store_holds (blocks_of P)) e0 []) (full_l0_l1_compact env xs ys)
    (compacted env P e0 (xs @ ys)) (moved (store_holds (blocks_of P)) e0)"
proof -
  let ?C = "blocks_of P" and ?h = "env_hash env"
  note X = table_pairs_shown [OF assms(2)] and Y = table_pairs_shown [OF assms(3)]
  have ne: "table_pairs (e_ssts e0) P xs \<noteq> []" using assms(5) by (simp add: table_pairs_def)
  have dx: "distinct (map eversion (concat (map (\<lambda>p. concat (snd p)) (table_pairs (e_ssts e0) P xs))))"
    using assms(6) unfolding table_pairs_records by simp
  have final: "triple (gen_at (store_holds ?C) e0 []) (gen_sst_from_iter env (two_ops heap_ops conc_ops) it target)
      (compacted env P e0 (xs @ ys)) (moved (store_holds ?C) e0)"
    if "two_shows heap_shows_all (conc_shows ?h ?C) it (merge_entries es (ids_records P ys))"
      "mset es = mset (ids_records P xs)" "sorted_entries es" for it es target
  proof -
    note M = merge_two_sorted [OF that(3) level_sorted [OF assms(3,4)] that(2) refl assms(6) [unfolded ids_records_append]]
    show ?thesis
      by (rule merged_generation [OF assms(1) heap_conc.two.record_stream_axioms that(1) M(1)])
        (use M(2) in simp)
  qed
  show ?thesis
    unfolding full_l0_l1_compact_def case_prod_beta
    apply (rule triple_eget [OF arg_cong [OF gen_at_ssts]], assumption)
    apply (simp only: X(1) cbind_simps)
    apply (rule triple_bind [OF gen_at_estore [OF begin_all_spec [OF X(2)]]], rule triple_pure)
    apply (rule triple_eget [OF arg_cong [OF gen_at_ssts]], assumption)
    apply (simp only: Y(1) cbind_simps)
    apply (rule triple_bind [OF gen_at_estore [OF l0_heap_spec [OF _ X(2) ne dx]]], assumption, rule triple_pure)
    apply (rule triple_bind [OF gen_at_estore [OF conc_level_spec [OF assms(3)]]], rule triple_pure)
    apply (elim exE conjE)
    apply (rule triple_bind [OF gen_at_estore [OF heap_conc.two_new_spec]], assumption, assumption, rule triple_pure)
    apply (rule final, assumption)
     apply (simp_all add: table_pairs_records)
    done
qed

lemma full_common_compact_spec:
  assumes "env_ok env" "tables_shown (env_hash env) (blocks_of P) (e_ssts e0) P xs"
    "tables_shown (env_hash env) (blocks_of P) (e_ssts e0) P ys" "level_ordered P xs" "level_ordered P ys"
    "distinct (map eversion (ids_records P (xs @ ys)))"
  shows "triple (gen_at (store_holds (blocks_of P)) e0 []) (full_common_compact env xs ys l)
    (compacted env P e0 (xs @ ys)) (moved (store_holds (blocks_of P)) e0)"
proof -
  let ?C = "blocks_of P" and ?h = "env_hash env"
  note X = table_pairs_shown [OF assms(2)] and Y = table_pairs_shown [OF assms(3)]
  note M = merge_two_sorted [OF level_sorted [OF assms(2,4)] level_sorted [OF assms(3,5)] refl refl
      assms(6) [unfolded ids_records_append]]
  have final: "triple (gen_at (store_holds ?C) e0 []) (gen_sst_from_iter env (two_ops conc_ops conc_ops) it target)
      (compacted env P e0 (xs @ ys)) (moved (store_holds ?C) e0)"
    if "two_shows (conc_shows ?h ?C) (conc_shows ?h ?C) it (merge_entries (ids_records P xs) (ids_records P ys))" for it target
    by (rule merged_generation [OF assms(1) conc_conc.two.record_stream_axioms that M(1)]) (use M(2) in simp)
  show ?thesis
    unfolding full_common_compact_def
    apply (rule triple_eget [OF arg_cong [OF gen_at_ssts]], assumption)
    apply (simp only: X(1) cbind_simps)
    apply (rule triple_eget [OF arg_cong [OF gen_at_ssts]], assumption)
    apply (simp only: Y(1) cbind_simps)
    apply (rule triple_bind [OF gen_at_estore [OF conc_level_spec [OF assms(2)]]], rule triple_pure)
    apply (rule triple_bind [OF gen_at_estore [OF conc_level_spec [OF assms(3)]]], rule triple_pure)
    apply (rule triple_bind [OF gen_at_estore [OF conc_conc.two_new_spec]], assumption, assumption, rule triple_pure)
    apply (erule final)
    done
qed

section \<open>Installing them\<close>

lemma map_of_added:
  "i \<notin> f ` set new \<Longrightarrow> map_of (fold (\<lambda>s m. (f s, s) # m) new m0) i = map_of m0 i"
  "distinct (map f new) \<Longrightarrow> s \<in> set new \<Longrightarrow> map_of (fold (\<lambda>s m. (f s, s) # m) new m0) (f s) = Some s"
proof -
  show other: "i \<notin> f ` set new \<Longrightarrow> map_of (fold (\<lambda>s m. (f s, s) # m) new m0) i = map_of m0 i" for new i m0
    by (induction new arbitrary: m0) auto
  show "distinct (map f new) \<Longrightarrow> s \<in> set new \<Longrightarrow> map_of (fold (\<lambda>s m. (f s, s) # m) new m0) (f s) = Some s"
    by (induction new arbitrary: m0) (auto simp: other)
qed

lemma map_of_kept: "map_of (filter (\<lambda>p. Q (fst p)) ssts) i = (if Q i then map_of ssts i else None)"
  by (induction ssts) auto

text \<open>The ids after an installation: those of the other levels, and the new ones.\<close>

lemma install_ids:
  fixes src :: nat
  assumes "sorted_wrt (<) (map fst ls)" "distinct (all_ids ls)"
  obtains M where "mset (all_ids ls) = M + mset (level_ids ls src @ level_ids ls (Suc src))"
    "mset (all_ids (level_set (Suc src) new (level_set src [] ls))) = M + mset new" "set_mset M \<subseteq> set (all_ids ls)"
    "\<forall>i \<in># M. i \<notin> set (level_ids ls src) \<and> i \<notin> set (level_ids ls (Suc src))"
proof -
  define ls' where "ls' = level_set (Suc src) new (level_set src [] ls)"
  have "mset (all_ids ls') + mset (level_ids ls (Suc src)) + mset (level_ids ls src) = mset (all_ids ls) + mset new"
    using all_ids_level_set [OF level_set_sorted [OF assms(1)], of "Suc src" new src "[]"]
      all_ids_level_set [OF assms(1), of src "[]"] by (simp add: ls'_def ac_simps)
  moreover have "mset (level_ids ls src @ level_ids ls (Suc src)) \<subseteq># mset (all_ids ls)"
    using level_pair_subset [OF assms(1)] .
  then obtain M where M: "mset (all_ids ls) = M + mset (level_ids ls src @ level_ids ls (Suc src))"
    by (metis subset_mset.le_iff_add union_commute)
  ultimately have "mset (all_ids ls') = M + mset new" by (simp add: ac_simps)
  moreover have "set_mset M \<subseteq> set (all_ids ls)" using M by (metis set_mset_mset set_mset_union sup_ge1)
  moreover have "\<forall>i \<in># M. i \<notin> set (level_ids ls src) \<and> i \<notin> set (level_ids ls (Suc src))"
  proof (intro ballI)
    fix i
    assume i: "i \<in># M"
    have "count (mset (all_ids ls)) i \<le> 1" using assms(2) by (simp add: distinct_count_atmost_1)
    moreover have "1 \<le> count M i" using i by simp
    ultimately have "count (mset (level_ids ls src @ level_ids ls (Suc src))) i = 0" unfolding M count_union by linarith
    then show "i \<notin> set (level_ids ls src) \<and> i \<notin> set (level_ids ls (Suc src))"
      by (simp add: count_mset_0_iff)
  qed
  ultimately show thesis using M that unfolding ls'_def by blast
qed

text \<open>The ghost blocks of the new SSTs.\<close>

definition ghost_add :: "nat \<Rightarrow> entry list list list \<Rightarrow> (nat \<Rightarrow> entry list list) \<Rightarrow> nat \<Rightarrow> entry list list" where
  "ghost_add n esss P i = (if n \<le> i \<and> i < n + length esss then esss ! (i - n) else P i)"

lemma ghost_add_map: "map (ghost_add n esss P) [n ..< n + length esss] = esss"
  by (rule nth_equalityI) (simp_all add: ghost_add_def)

lemma ghost_add_extends: "\<forall>i \<ge> n. P i = [] \<Longrightarrow> ghost_extends n P (ghost_add n esss P)"
  by (simp add: ghost_extends_def ghost_add_def)

lemma sorted_wrt_both: "sorted_wrt P xs \<Longrightarrow> sorted_wrt Q xs \<Longrightarrow> sorted_wrt (\<lambda>x y. P x y \<and> Q x y) xs"
  by (induction xs) auto

lemma new_level:
  fixes P :: "nat \<Rightarrow> entry list list"
  assumes "list_all2 (sst_made hash) new esss" "sorted_wrt keys_below (map concat esss)"
    "map sst_id new = [n ..< n + length esss]"
  defines "P' \<equiv> ghost_add n esss P"
  shows "level_ordered P' [n ..< n + length esss]" "ids_records P' [n ..< n + length esss] = concat (map concat esss)"
    "tables_shown hash (blocks_of P') (fold (\<lambda>s m. (sst_id s, s) # m) new ssts) P' [n ..< n + length esss]"
proof -
  have m: "map (\<lambda>i. concat (P' i)) [n ..< n + length esss] = map concat esss"
    using arg_cong [OF ghost_add_map [of n esss P], of "map concat"] by (simp add: P'_def comp_def)
  show "level_ordered P' [n ..< n + length esss]"
    using sorted_wrt_both [OF sorted_wrt_upt assms(2) [folded m, unfolded sorted_wrt_map]]
    unfolding level_ordered_def .
  show "ids_records P' [n ..< n + length esss] = concat (map concat esss)" by (simp only: ids_records_def m)
  have len: "length new = length esss" using assms(1) by (rule list_all2_lengthD)
  show "tables_shown hash (blocks_of P') (fold (\<lambda>s m. (sst_id s, s) # m) new ssts) P' [n ..< n + length esss]"
    unfolding tables_shown_def
  proof
    fix i
    assume i: "i \<in> set [n ..< n + length esss]"
    then have j: "i - n < length new" "n + (i - n) = i" by (auto simp: len)
    have id: "sst_id (new ! (i - n)) = i" using arg_cong [OF assms(3), of "\<lambda>l. l ! (i - n)"] j len by simp
    have "P' i = esss ! (i - n)" using i by (simp add: P'_def ghost_add_def)
    moreover have "sst_made hash (new ! (i - n)) (esss ! (i - n))" using assms(1) j(1) by (rule list_all2_nthD)
    ultimately have "sst_plain hash (blocks_of P') (new ! (i - n)) (P' i)"
      using sst_made_plain [of hash "new ! (i - n)" "P' i" P'] id by simp
    moreover have "map_of (fold (\<lambda>s m. (sst_id s, s) # m) new ssts) i = Some (new ! (i - n))"
      using map_of_added(2) [of sst_id new "new ! (i - n)" ssts] j(1) id assms(3) by simp
    ultimately show "\<exists>s. map_of (fold (\<lambda>s m. (sst_id s, s) # m) new ssts) i = Some s \<and> sst_id s = i \<and>
        sst_plain hash (blocks_of P') s (P' i)" using id by blast
  qed
qed

lemma install_ok:
  assumes ok: "engine_ok env P e0" and new: "compacted env P e0 (xs @ ys) new e"
    and xs: "xs = level_ids (e_levels e0) src" "ys = level_ids (e_levels e0) (Suc src)"
  shows "engine_has env (mset (engine_records P e0)) (install_ssts src xs ys new e)"
proof -
  let ?n = "e_next_sst_id e0" and ?ls = "e_levels e0" and ?h = "env_hash env"
  obtain st n1 where e: "e = e0\<lparr>e_store := st, e_next_sst_id := n1\<rparr>" "store_holds (blocks_of P) st"
    and ids: "map sst_id new = [?n ..< n1]" "?n \<le> n1"
    using new unfolding compacted_def gen_at_def moved_def by fastforce
  obtain esss where m: "list_all2 (sst_made ?h) new esss" "sorted_wrt keys_below (map concat esss)"
    "mset (concat (map concat esss)) = mset (ids_records P (xs @ ys))"
    using new by (auto simp: compacted_def ssts_made_def sorted_wrt_append)
  have n1: "n1 = ?n + length esss"
    using list_all2_lengthD [OF m(1)] arg_cong [OF ids(1), of length] ids(2) by simp
  note ids' = ids(1) [unfolded n1]
  define P' where "P' = ghost_add ?n esss P"
  note N = new_level [OF m(1,2) ids', of P, folded P'_def]
  have K: "tables_shown ?h (blocks_of P) (e_ssts e0) P (all_ids ?ls)" "distinct (all_ids ?ls)" "levels_ok P ?ls"
    "\<forall>i \<in> set (all_ids ?ls). i < ?n" "\<forall>i \<ge> ?n. P i = []" "distinct (map eversion (engine_records P e0))"
    "mem_ok (e_memtable e0)"
    using ok unfolding engine_ok_def by blast+
  note ext = ghost_add_extends [OF K(5), of esss, folded P'_def]
  have sorted: "sorted_wrt (<) (map fst ?ls)" using K(3) by (simp add: levels_ok_def)
  obtain M where M: "mset (all_ids ?ls) = M + mset (xs @ ys)"
    "mset (all_ids (level_set (Suc src) [?n ..< n1] (level_set src [] ?ls))) = M + mset [?n ..< n1]"
    "set_mset M \<subseteq> set (all_ids ?ls)" "\<forall>i \<in># M. i \<notin> set xs \<and> i \<notin> set ys"
    unfolding xs by (rule install_ids [OF sorted K(2)])
  define e' where "e' = install_ssts src xs ys new e"
  have F: "e_store e' = st" "e_memtable e' = e_memtable e0" "e_next_sst_id e' = n1"
    "e_levels e' = level_set (Suc src) [?n ..< n1] (level_set src [] ?ls)"
    "e_ssts e' = fold (\<lambda>s m. (sst_id s, s) # m) new (filter (\<lambda>p. fst p \<notin> set xs \<and> fst p \<notin> set ys) (e_ssts e0))"
    by (simp_all add: e'_def install_ssts_def Let_def e(1) ids(1))
  note A = M(2) [folded F(4)]
  have same: "P' i = P i" if "i < ?n" for i using ext that by (simp add: ghost_extends_def)
  obtain ms where ms: "mset ms = M" using ex_mset by blast
  have old: "set ms \<subseteq> set (all_ids ?ls)" "\<forall>i \<in> set ms. i < ?n" "set (all_ids e_levels') = set ms \<union> set [?n ..< n1]"
    if "e_levels' = e_levels e'" for e_levels'
    using M(3) K(4) arg_cong [OF A, of set_mset] ms that by (auto simp: set_mset_mset [symmetric] simp del: set_mset_mset)
  note old = old [OF refl]
  have "tables_shown ?h (blocks_of P') (e_ssts e') P' (all_ids (e_levels e'))"
  proof -
    have "tables_shown ?h (blocks_of P) (e_ssts e0) P ms" using K(1) old(1) unfolding tables_shown_def by blast
    moreover have "map_of (e_ssts e') i = map_of (e_ssts e0) i" if "i \<in> set ms" for i
    proof -
      have "i \<notin> sst_id ` set new" using old(2) that ids(1) by (metis atLeastLessThan_iff image_set leD list.set_map set_upt)
      moreover have "i \<notin> set xs \<and> i \<notin> set ys" using M(4) that ms by auto
      ultimately show ?thesis
        by (simp add: F(5) map_of_added(1) map_of_kept [of "\<lambda>i. i \<notin> set xs \<and> i \<notin> set ys"])
    qed
    ultimately have "tables_shown ?h (blocks_of P') (e_ssts e') P' ms"
      using tables_shown_extend [OF _ ext old(2)] by blast
    with N(3) [folded n1] show ?thesis unfolding tables_shown_def old(3) F(5) by blast
  qed
  moreover have "distinct (all_ids (e_levels e'))"
  proof -
    have "distinct ms" using K(2) M(1) ms by (metis distinct_append mset_append mset_eq_imp_distinct_iff)
    then have "distinct (ms @ [?n ..< n1])" using old(2) by auto
    then show ?thesis using A ms by (metis mset_append mset_eq_imp_distinct_iff)
  qed
  moreover have "levels_ok P' (e_levels e')"
  proof -
    have "levels_ok P' ?ls" using K(3) by (rule levels_ok_cong) (use K(4) same in blast)
    then have "levels_ok P' (level_set src [] ?ls)" by (rule levels_ok_set) (simp add: level_ordered_def)
    then show ?thesis unfolding F(4) by (rule levels_ok_set) (use N(1) n1 in simp)
  qed
  moreover have recs: "mset (engine_records P' e') = mset (engine_records P e0)"
  proof -
    have "mset (ids_records P' (all_ids (e_levels e'))) = mset (ids_records P' ms) + mset (concat (map concat esss))"
      using N(2) [folded n1] ids_records_mset [of "all_ids (e_levels e')" "ms @ [?n ..< n1]" P'] A ms by simp
    moreover have "ids_records P' ms = ids_records P ms" by (rule ids_records_cong) (use old(2) same in blast)
    moreover have "mset (ids_records P (all_ids ?ls)) = mset (ids_records P ms) + mset (ids_records P (xs @ ys))"
      using ids_records_mset [of "all_ids ?ls" "ms @ xs @ ys" P] M(1) ms by simp
    ultimately show ?thesis by (simp add: engine_records_def F(2) m(3))
  qed
  moreover have "distinct (map eversion (engine_records P' e'))"
    by (rule mset_distinct_versions [OF recs [symmetric] K(6)])
  moreover have "\<forall>i \<in> set (all_ids (e_levels e')). i < n1" using old(2,3) ids(2) by auto
  moreover have "\<forall>i \<ge> n1. P' i = []" using K(5) n1 by (simp add: P'_def ghost_add_def)
  moreover have "store_holds (blocks_of P') st"
    by (rule store_holds_extend [OF e(2)]) (rule ghost_extends_blocks [OF ext])
  ultimately show ?thesis
    unfolding engine_has_def e'_def [symmetric] engine_ok_def F(1-3) using K(7) by blast
qed

section \<open>The recursion over the levels\<close>

text \<open>\<open>level_sst_ids[l]\<close> on a missing level.\<close>

lemma touch_level:
  assumes "sorted_wrt (<) (map fst ls)"
  shows "all_ids (level_set l (level_ids ls l) ls) = all_ids ls"
    "filter (\<lambda>x. Q (fst x) \<and> snd x \<noteq> []) (level_set l (level_ids ls l) ls) = filter (\<lambda>x. Q (fst x) \<and> snd x \<noteq> []) ls"
proof -
  have "all_ids (level_set l (level_ids ls l) ls) = all_ids ls \<and>
    filter (\<lambda>x. Q (fst x) \<and> snd x \<noteq> []) (level_set l (level_ids ls l) ls) = filter (\<lambda>x. Q (fst x) \<and> snd x \<noteq> []) ls"
    using assms
  proof (induction ls)
    case (Cons x xs)
    obtain k ks where x: "x = (k, ks)" by (cases x)
    have none: "level_ids ((k, ks) # xs) l = []" if "l < k"
      using Cons.prems that by (fastforce simp: x level_ids_def split: option.splits dest: map_of_SomeD)
    have rest: "level_ids ((k, ks) # xs) l = level_ids xs l" if "k \<noteq> l" using that by (simp add: level_ids_def)
    have here: "level_ids ((l, ks) # xs) l = ks" by (simp add: level_ids_def)
    consider "k = l" | "l < k" | "k < l" by fastforce
    then show ?case
      by cases (use Cons none rest here in \<open>auto simp: x all_ids_def\<close>)
  qed (simp add: all_ids_def level_ids_def)
  then show "all_ids (level_set l (level_ids ls l) ls) = all_ids ls"
    "filter (\<lambda>x. Q (fst x) \<and> snd x \<noteq> []) (level_set l (level_ids ls l) ls) = filter (\<lambda>x. Q (fst x) \<and> snd x \<noteq> []) ls"
    by blast+
qed

definition levels_above :: "nat \<Rightarrow> levels \<Rightarrow> nat" where
  "levels_above src ls = length (filter (\<lambda>x. src < fst x \<and> snd x \<noteq> []) ls)"

lemma levels_above_less:
  assumes "level_ids ls (Suc src) \<noteq> []"
  shows "levels_above (Suc src) ls < levels_above src ls"
proof -
  obtain ids where ids: "(Suc src, ids) \<in> set ls" "ids \<noteq> []"
    using assms by (auto simp: level_ids_def split: option.splits dest: map_of_SomeD)
  have "filter (\<lambda>x. Suc src < fst x \<and> snd x \<noteq> []) ls
      = filter (\<lambda>x. fst x \<noteq> Suc src) (filter (\<lambda>x. src < fst x \<and> snd x \<noteq> []) ls)"
    by (auto simp: filter_filter intro!: filter_cong)
  moreover have "length (filter (\<lambda>x. fst x \<noteq> Suc src) (filter (\<lambda>x. src < fst x \<and> snd x \<noteq> []) ls))
      < length (filter (\<lambda>x. src < fst x \<and> snd x \<noteq> []) ls)"
    by (rule length_filter_less [of "(Suc src, ids)"]) (use ids in simp_all)
  ultimately show ?thesis by (simp add: levels_above_def)
qed

text \<open>What a compaction from level \<open>src\<close> keeps of the engine.\<close>

definition kept :: "engine_env \<Rightarrow> entry multiset \<Rightarrow> engine \<Rightarrow> nat \<Rightarrow> engine \<Rightarrow> bool" where
  "kept env R e0 src e \<longleftrightarrow> engine_has env R e \<and> e_memtable e = e_memtable e0 \<and>
     e_tran_manager e = e_tran_manager e0 \<and> (\<forall>l < src. level_ids (e_levels e) l = level_ids (e_levels e0) l)"

text \<open>A compaction that returns has also emptied its level.\<close>

definition moved_down :: "engine_env \<Rightarrow> entry multiset \<Rightarrow> engine \<Rightarrow> nat \<Rightarrow> engine \<Rightarrow> bool" where
  "moved_down env R e0 src e \<longleftrightarrow> kept env R e0 src e \<and> level_ids (e_levels e) src = []"

lemma touch_kept:
  assumes "engine_ok env P e"
  shows "engine_ok env P (e\<lparr>e_levels := level_set l (level_ids (e_levels e) l) (e_levels e)\<rparr>)"
    "engine_records P (e\<lparr>e_levels := level_set l (level_ids (e_levels e) l) (e_levels e)\<rparr>) = engine_records P e"
proof -
  let ?ls = "e_levels e"
  have L: "levels_ok P ?ls" using assms by (simp add: engine_ok_def)
  then have s: "sorted_wrt (<) (map fst ?ls)" by (simp add: levels_ok_def)
  note T = touch_level(1) [OF s, of l]
  show r: "engine_records P (e\<lparr>e_levels := level_set l (level_ids ?ls l) ?ls\<rparr>) = engine_records P e"
    by (simp add: engine_records_def T)
  have "levels_ok P (level_set l (level_ids ?ls l) ?ls)"
    using levels_ok_ids [OF L] by (intro levels_ok_set [OF L]) blast
  with assms show "engine_ok env P (e\<lparr>e_levels := level_set l (level_ids ?ls l) ?ls\<rparr>)"
    unfolding engine_ok_def r by (simp add: T)
qed

lemma records_part:
  assumes "mset us \<subseteq># mset vs" "distinct (map eversion vs)"
  shows "distinct (map eversion us)"
proof -
  obtain W where "mset vs = mset us + W" using assms(1) by (metis subset_mset.le_iff_add)
  moreover obtain ws where "mset ws = W" using ex_mset by blast
  ultimately have "mset vs = mset (us @ ws)" by simp
  from mset_distinct_versions [OF this assms(2)] show ?thesis by simp
qed

lemma ids_records_part:
  assumes "mset xs \<subseteq># mset ys"
  shows "mset (ids_records P xs) \<subseteq># mset (ids_records P ys)"
proof -
  obtain Z where "mset ys = mset xs + Z" using assms by (metis subset_mset.le_iff_add)
  then show ?thesis by (simp add: mset_ids_records)
qed

lemma compact_step:
  assumes "env_ok env" "engine_ok env P e1" "src = 0 \<Longrightarrow> level_ids (e_levels e1) 0 \<noteq> []"
    "xs = level_ids (e_levels e1) src" "ys = level_ids (e_levels e1) (Suc src)"
  shows "triple (\<lambda>e. e = e1)
    (cbind (if src = 0 then full_l0_l1_compact env xs ys else full_common_compact env xs ys (Suc src))
      (\<lambda>new. emod (install_ssts src xs ys new)))
    (\<lambda>_. moved_down env (mset (engine_records P e1)) e1 src) (kept env (mset (engine_records P e1)) e1 (Suc src))"
proof -
  let ?I = "store_holds (blocks_of P)" and ?R = "mset (engine_records P e1)"
  have L: "levels_ok P (e_levels e1)" and T: "tables_shown (env_hash env) (blocks_of P) (e_ssts e1) P (all_ids (e_levels e1))"
    and st: "?I (e_store e1)" and d: "distinct (map eversion (engine_records P e1))"
    using assms(2) unfolding engine_ok_def by blast+
  have sub: "mset (xs @ ys) \<subseteq># mset (all_ids (e_levels e1))"
    unfolding assms(4,5) using L by (intro level_pair_subset) (simp add: levels_ok_def)
  have "set (xs @ ys) \<subseteq> set (all_ids (e_levels e1))" using set_mset_mono [OF sub] by (simp only: set_mset_mset)
  then have shown: "tables_shown (env_hash env) (blocks_of P) (e_ssts e1) P xs"
    "tables_shown (env_hash env) (blocks_of P) (e_ssts e1) P ys"
    using T unfolding tables_shown_def by auto
  have dv: "distinct (map eversion (ids_records P (xs @ ys)))"
    by (rule records_part [OF ids_records_part [OF sub, of P]]) (use d in \<open>simp add: engine_records_def\<close>)
  have ord: "level_ordered P ys" "src \<noteq> 0 \<Longrightarrow> level_ordered P xs"
    using levels_ok_ids [OF L] by (simp_all add: assms(4,5))
  have gen: "triple (gen_at ?I e1 []) (if src = 0 then full_l0_l1_compact env xs ys else full_common_compact env xs ys (Suc src))
      (compacted env P e1 (xs @ ys)) (moved ?I e1)"
  proof (cases "src = 0")
    case True
    then have "xs \<noteq> []" using assms(3,4) by simp
    from full_l0_l1_compact_spec [OF assms(1) shown ord(1) this dv] True show ?thesis by simp
  next
    case False
    from full_common_compact_spec [OF assms(1) shown ord(2) [OF False] ord(1) dv] False show ?thesis by simp
  qed
  have frame: "kept env ?R e1 (Suc src) e" if "moved ?I e1 e" for e
    using moved_ok [OF assms(2) that] that unfolding kept_def engine_has_def by (auto simp: moved_def)
  have inst: "moved_down env ?R e1 src (install_ssts src xs ys new e)" if "compacted env P e1 (xs @ ys) new e" for new e
  proof -
    have "moved ?I e1 e" using that by (simp add: compacted_def gen_at_def)
    then obtain s n where "e = e1\<lparr>e_store := s, e_next_sst_id := n\<rparr>" unfolding moved_def by blast
    with install_ok [OF assms(2) that assms(4,5)] show ?thesis
      by (simp add: moved_down_def kept_def install_ssts_def Let_def)
  qed
  have "triple (gen_at ?I e1 [])
    (cbind (if src = 0 then full_l0_l1_compact env xs ys else full_common_compact env xs ys (Suc src))
      (\<lambda>new. emod (install_ssts src xs ys new))) (\<lambda>_. moved_down env ?R e1 src) (kept env ?R e1 (Suc src))"
  proof (rule triple_bind)
    show "triple (gen_at ?I e1 []) (if src = 0 then full_l0_l1_compact env xs ys else full_common_compact env xs ys (Suc src))
      (compacted env P e1 (xs @ ys)) (kept env ?R e1 (Suc src))"
      by (rule triple_weaken [OF gen]) (simp_all add: frame)
  qed (simp add: triple_def emod_def inst)
  then show ?thesis by (rule triple_weaken) (use st moved_refl in \<open>auto simp: gen_at_def\<close>)
qed

lemma full_compact_spec:
  assumes "env_ok env" "engine_has env R e0" "levels_above src (e_levels e0) < n"
    "src = 0 \<Longrightarrow> level_ids (e_levels e0) 0 \<noteq> []"
  shows "triple (\<lambda>e. e = e0) (full_compact n env src) (\<lambda>_. moved_down env R e0 src) (kept env R e0 (Suc src))"
  using assms(2-4)
proof (induction n arbitrary: src e0)
  case (Suc n)
  obtain P where P: "engine_ok env P e0" "mset (engine_records P e0) = R"
    by (rule engine_hasE [OF Suc.prems(1)])
  let ?ls = "e_levels e0"
  define e1 where "e1 = e0\<lparr>e_levels := level_set (Suc src) (level_ids ?ls (Suc src)) ?ls\<rparr>"
  have s: "sorted_wrt (<) (map fst ?ls)" using P(1) by (simp add: engine_ok_def levels_ok_def)
  have e1: "engine_has env R e1" "kept env R e0 src e1" "\<And>l. level_ids (e_levels e1) l = level_ids ?ls l"
    using touch_kept [OF P(1), of "Suc src"] P(2) unfolding engine_has_def kept_def by (auto simp: e1_def)
  have above: "levels_above (Suc src) (e_levels e1) < n" if "env_ratio env \<le> length (level_ids (e_levels e1) (Suc src))"
  proof -
    have "level_ids (e_levels e1) (Suc src) \<noteq> []" using that assms(1) by (auto simp: env_ok_def)
    then have "levels_above (Suc src) (e_levels e1) < levels_above src (e_levels e1)" by (rule levels_above_less)
    moreover have "levels_above src (e_levels e1) = levels_above src ?ls"
      using touch_level(2) [OF s, of "\<lambda>l. src < l" "Suc src"] by (simp add: e1_def levels_above_def)
    ultimately show ?thesis using Suc.prems(2) by simp
  qed
  let ?rest = "\<lambda>_. cbind (eget (\<lambda>e. (level_ids (e_levels e) src, level_ids (e_levels e) (Suc src)))) (\<lambda>(xs, ys).
      cbind (if src = 0 then full_l0_l1_compact env xs ys else full_common_compact env xs ys (Suc src)) (\<lambda>new.
       emod (install_ssts src xs ys new)))"
  have rest: "triple (kept env R e1 (Suc src)) (?rest u) (\<lambda>_. moved_down env R e0 src) (kept env R e0 (Suc src))" for u
  proof (rule triple_here)
    fix e2
    assume e2: "kept env R e1 (Suc src) e2"
    then obtain Q where Q: "engine_ok env Q e2" "mset (engine_records Q e2) = R"
      unfolding kept_def by (auto elim: engine_hasE)
    have "level_ids (e_levels e2) 0 \<noteq> []" if "src = 0" using e2 e1(3) Suc.prems(3) that by (simp add: kept_def)
    note C = compact_step [OF assms(1) Q(1) this refl refl, unfolded Q(2)]
    show "triple (\<lambda>e. e = e2) (?rest u) (\<lambda>_. moved_down env R e0 src) (kept env R e0 (Suc src))"
      by (rule triple_eget_at, simp only: prod.case)
        (rule triple_weaken [OF C], use e1(2,3) e2 in \<open>auto simp: moved_down_def kept_def\<close>)
  qed
  have deeper: "triple (\<lambda>e. e = e1) (if env_ratio env \<le> length (level_ids (e_levels e1) (Suc src))
      then full_compact n env (Suc src) else cret ()) (\<lambda>_. kept env R e1 (Suc src)) (kept env R e0 (Suc src))"
  proof (cases "env_ratio env \<le> length (level_ids (e_levels e1) (Suc src))")
    case True
    have "triple (\<lambda>e. e = e1) (full_compact n env (Suc src)) (\<lambda>_. moved_down env R e1 (Suc src))
        (kept env R e1 (Suc (Suc src)))"
      by (rule Suc.IH [OF e1(1) above [OF True]]) simp
    then show ?thesis
      unfolding if_P [OF True] by (rule triple_weaken) (use e1(2,3) in \<open>auto simp: moved_down_def kept_def\<close>)
  next
    case False
    then show ?thesis using e1(1) by (auto simp: kept_def intro!: triple_ret)
  qed
  have "triple (\<lambda>e. e = e0) (emod (\<lambda>e. e\<lparr>e_levels := level_set (Suc src) (level_ids (e_levels e) (Suc src)) (e_levels e)\<rparr>))
      (\<lambda>_ e. e = e1) (kept env R e0 (Suc src))"
    by (simp add: triple_def emod_def e1_def)
  then show ?case
    unfolding full_compact.simps
    by (rule triple_bind) (rule triple_eget_at, rule triple_bind [OF deeper rest])
qed simp

end
