(* ===== verification/Engine_Flush.thy ===== *)
theory Engine_Flush
  imports Engine_Compact
begin

text \<open>
  Flush: the oldest memory table becomes an SST of level 0, and its commit marks are reported to
  the transaction manager, or an exception leaves an engine with the same records.
\<close>

section \<open>The memory tables\<close>

lemma freeze_records [simp]: "mem_records (freeze_cur_table m) = mem_records m"
    "mem_records (freeze_if_full limit m) = mem_records m"
  by (simp_all add: freeze_if_full_def freeze_cur_table_def Let_def mem_records_def mem_tables_def)

text \<open>The non-empty tables, newest first.\<close>

definition mem_layers :: "memtable \<Rightarrow> entry list list" where
  "mem_layers m = filter (\<lambda>es. es \<noteq> []) (map table_entries (mem_tables m))"

lemma mem_layers_records: "concat (mem_layers m) = mem_records m"
proof -
  have "concat (filter (\<lambda>es. es \<noteq> []) ess) = concat ess" for ess :: "entry list list" by (induction ess) auto
  then show ?thesis by (simp add: mem_layers_def mem_records_def)
qed

lemma freeze_layers [simp]: "mem_layers (freeze_cur_table m) = mem_layers m"
    "mem_layers (freeze_if_full limit m) = mem_layers m"
  by (simp_all add: freeze_if_full_def freeze_cur_table_def Let_def mem_layers_def mem_tables_def)

lemma table_sorted: "table_ok t \<Longrightarrow> sorted_entries (table_entries t)"
  by (rule sl_abs_sorted [OF table_okD])

lemma flush_source_records:
  assumes "mem_ok m" "flush_source m = Some t"
  defines "m1 \<equiv> freeze_for_flush m"
  defines "m' \<equiv> m1\<lparr>frozen_tables := butlast (frozen_tables m1), frozen_bytes := frozen_bytes m1 - skiplist_get_size t\<rparr>"
  shows "table_ok t" "mem_layers m = mem_layers m' @ (if table_entries t = [] then [] else [table_entries t])"
proof -
  have m1: "frozen_tables m1 \<noteq> []" "t = last (frozen_tables m1)" "mem_layers m1 = mem_layers m" "mem_ok m1"
  proof -
    show "frozen_tables m1 \<noteq> []" "t = last (frozen_tables m1)"
      using assms(2) by (auto simp: m1_def freeze_for_flush_def flush_source_def freeze_cur_table_def Let_def split: if_splits)
    show "mem_layers m1 = mem_layers m" "mem_ok m1" using assms(1) freeze_facts(1) by (simp_all add: m1_def freeze_for_flush_def)
  qed
  have "t \<in> set (frozen_tables m1)" using m1(1,2) by simp
  then show "table_ok t" using m1(4) unfolding mem_ok_def mem_tables_def by simp
  have "frozen_tables m1 = butlast (frozen_tables m1) @ [t]" using m1(1,2) by simp
  then have "mem_tables m1 = mem_tables m' @ [t]" by (simp add: mem_tables_def m'_def)
  then show "mem_layers m = mem_layers m' @ (if table_entries t = [] then [] else [table_entries t])"
    unfolding m1(3) [symmetric] unfolding mem_layers_def by simp
qed

section \<open>Building the SST of a table\<close>

text \<open>A builder with the records of a sorted list, none left out.\<close>

lemma build_table_spec:
  assumes "env_ok env" "builder_fresh b" "plain_builder b" "sorted_entries es"
  shows "case ebind (add_all (builder_add (env_hash env)) b es) (builder_build (env_hash env) (env_io env sid) sid True) of
      Inl err \<Rightarrow> thrown err
    | Inr s \<Rightarrow> sst_id s = sid \<and> (\<exists>ess. sst_made (env_hash env) s ess \<and> concat ess = es)"
proof -
  let ?h = "env_hash env"
  have id: "stored_entry b = id" "sb_storage_mode b = 0" using assms(3) by (simp_all add: plain_builder_def)
  note inv = builder_fresh_inv [OF assms(2), of ?h]
  have S: "sorted_entries (concat [] @ [] @ map (stored_entry b) es)" using assms(4) by (simp add: id)
  show ?thesis
  proof (cases "add_all (builder_add ?h) b es")
    case (Inl err)
    from builder_add_all_error [OF inv S Inl] Inl show ?thesis by simp
  next
    case (Inr b')
    obtain ess cur where i: "builder_inv ?h b' ess cur" "concat ess @ cur = es"
      using builder_add_all_inv [OF inv S Inr] id(1) by auto
    have mode: "sb_storage_mode b' = 0" using builder_add_all_ids(3) [OF Inr] id(2) by simp
    show ?thesis
    proof (cases "cur = []")
      case True
      then have "block_holds (sb_block b') []" "sb_meta_entries b' = []" using i(1) by (auto simp: builder_inv_def metas_for_def)
      then have "builder_build ?h (env_io env sid) sid True b' = Inl Runtime_Error"
        using holds_length [of "sb_block b'" "[]"] by (simp add: builder_build_def block_is_empty_def)
      with Inr show ?thesis by simp
    next
      case False
      note B = builder_build_outcome [OF i(1) False, of "env_io env sid" sid True]
      show ?thesis
      proof (cases "builder_build ?h (env_io env sid) sid True b'")
        case Inl2: (Inl err)
        with B(1) Inr show ?thesis by simp
      next
        case s: (Inr s)
        note F = B(2) [OF s]
        have small: "length (sst_file s) < 2 ^ 32" "sid < 2 ^ 31" using F assms(1) by (auto simp: env_ok_def)
        have "sst_made ?h s (ess @ [cur])"
          using builder_build_layout [OF i(1) False s small(1)] builder_build_reopens [OF i(1) False s small(1) _ small(2)] F small mode
          by (simp add: sst_made_def)
        with Inr s F i(2) show ?thesis by (auto intro: exI [of _ "ess @ [cur]"])
      qed
    qed
  qed
qed

text \<open>The three outcomes of \<open>flush_last\<close>.\<close>

lemma flush_table_spec:
  assumes "env_ok env" "mem_ok (e_memtable e)" "builder_fresh b" "plain_builder b"
  shows "case flush_table env sid b e of
      (Inl err, e') \<Rightarrow> thrown err \<and> (\<exists>m. e' = e\<lparr>e_memtable := m\<rparr> \<and> mem_ok m \<and> mem_layers m = mem_layers (e_memtable e))
    | (Inr (None, marks), e') \<Rightarrow> memtable_get_total_size (e_memtable e) = 0 \<and> (\<exists>m. e' = e\<lparr>e_memtable := m\<rparr> \<and> mem_ok m \<and> mem_layers m = mem_layers (e_memtable e))
    | (Inr (Some s, marks), e') \<Rightarrow> (\<exists>m ess. e' = e\<lparr>e_memtable := m\<rparr> \<and> mem_ok m \<and>
        mem_layers (e_memtable e) = mem_layers m @ [concat ess] \<and>
        sst_id s = sid \<and> sst_made (env_hash env) s ess \<and> marks = commit_marks (concat ess))"
proof -
  let ?add = "builder_add (env_hash env)" and ?build = "builder_build (env_hash env) (env_io env sid) sid True"
  let ?m = "e_memtable e"
  define m1 where "m1 = freeze_for_flush ?m"
  have m1: "mem_ok m1" "mem_layers m1 = mem_layers ?m"
    using assms(2) freeze_facts(1) by (simp_all add: m1_def freeze_for_flush_def)
  note L = memtable_flush_last_spec [OF assms(2), of ?add ?build b "[]"]
  show ?thesis
  proof (cases "flush_source ?m")
    case None
    then have "memtable_get_total_size ?m = 0"
      using assms(2) by (auto simp: flush_source_def memtable_get_total_size_def mem_ok_def Let_def split: if_splits)
    with None L assms(2) show ?thesis unfolding flush_table_def by (auto intro!: exI [of _ ?m])
  next
    case (Some t)
    note R = flush_source_records [OF assms(2) Some, folded m1_def]
    note B = build_table_spec [OF assms(1,3,4) table_sorted [OF R(1)], of sid]
    show ?thesis
    proof (cases "ebind (add_all ?add b (table_entries t)) ?build")
      case (Inl err)
      then have "memtable_flush_last ?add ?build ?m b [] = (Inl err, m1, [])"
        using L Some by (simp add: m1_def)
      with B Inl m1 show ?thesis unfolding flush_table_def by auto
    next
      case (Inr s)
      define m2 where "m2 = m1\<lparr>frozen_tables := butlast (frozen_tables m1),
         frozen_bytes := frozen_bytes m1 - skiplist_get_size t\<rparr>"
      have fl: "memtable_flush_last ?add ?build ?m b [] = (Inr (Some s), m2, commit_marks (table_entries t))"
        using L Some Inr by (simp add: m1_def m2_def Let_def)
      have "mem_ok m2" using memtable_flush_last_keeps_ok [OF assms(2) fl Some] by blast
      moreover obtain ess where "sst_id s = sid" "sst_made (env_hash env) s ess" "concat ess = table_entries t"
        using B Inr by auto
      moreover have "concat ess \<noteq> []"
        using sst_plain_facts(6) [OF sst_made_plain [of _ s ess "\<lambda>_. ess"]] calculation(3) by blast
      then have "mem_layers ?m = mem_layers m2 @ [concat ess]"
        using R(2) calculation(4) by (simp add: m2_def)
      ultimately show ?thesis unfolding flush_table_def fl by (auto intro!: exI [of _ m2] exI [of _ ess])
    qed
  qed
qed

section \<open>Registering it\<close>

lemma register_ok:
  assumes ok: "engine_ok env P e0" and "mem_ok m" "sst_made (env_hash env) s ess" "sst_id s = e_next_sst_id e0"
    and layers: "mem_layers (e_memtable e0) = mem_layers m @ [concat ess]"
  shows "engine_has env (mset (engine_records P e0))
    (register_l0 (e_next_sst_id e0) s (e0\<lparr>e_next_sst_id := Suc (e_next_sst_id e0), e_memtable := m\<rparr>))"
proof -
  let ?n = "e_next_sst_id e0" and ?ls = "e_levels e0" and ?h = "env_hash env"
  define e' where "e' = register_l0 ?n s (e0\<lparr>e_next_sst_id := Suc ?n, e_memtable := m\<rparr>)"
  define P' where "P' = P(?n := ess)"
  have F: "e_store e' = e_store e0" "e_memtable e' = m" "e_next_sst_id e' = Suc ?n" "e_ssts e' = (?n, s) # e_ssts e0"
    "e_levels e' = level_set 0 (?n # level_ids ?ls 0) ?ls"
    by (simp_all add: e'_def register_l0_def)
  have recs: "mset (mem_records (e_memtable e0)) = mset (mem_records m) + mset (concat ess)"
    using arg_cong [OF layers, of concat] by (simp add: mem_layers_records)
  have K: "store_holds (blocks_of P) (e_store e0)" "tables_shown ?h (blocks_of P) (e_ssts e0) P (all_ids ?ls)"
    "distinct (all_ids ?ls)" "levels_ok P ?ls" "\<forall>i \<in> set (all_ids ?ls). i < ?n" "\<forall>i \<ge> ?n. P i = []"
    "distinct (map eversion (engine_records P e0))"
    using ok unfolding engine_ok_def by blast+
  have ext: "ghost_extends ?n P P'" using K(6) by (simp add: ghost_extends_def P'_def)
  have sorted: "sorted_wrt (<) (map fst ?ls)" using K(4) by (simp add: levels_ok_def)
  have A: "mset (all_ids (e_levels e')) = mset (?n # all_ids ?ls)"
    using all_ids_level_set [OF sorted, of 0 "?n # level_ids ?ls 0"] by (simp add: F(5))
  then have ids: "set (all_ids (e_levels e')) = insert ?n (set (all_ids ?ls))"
    by (metis list.simps(15) set_mset_mset)
  have same: "P' i = P i" if "i < ?n" for i using that by (simp add: P'_def)
  have plain: "sst_plain ?h (blocks_of P') s (P' ?n)"
    by (rule sst_made_plain) (use assms(3,4) in \<open>simp_all add: P'_def\<close>)
  have "tables_shown ?h (blocks_of P') (e_ssts e') P' (all_ids (e_levels e'))"
  proof -
    have "tables_shown ?h (blocks_of P') (e_ssts e') P' (all_ids ?ls)"
      by (rule tables_shown_extend [OF K(2) ext K(5)]) (use K(5) in \<open>auto simp: F(4)\<close>)
    then show ?thesis unfolding tables_shown_def ids using plain assms(4) by (simp add: F(4))
  qed
  moreover have "distinct (all_ids (e_levels e'))"
    using mset_eq_imp_distinct_iff [OF A] K(3,5) by auto
  moreover have "levels_ok P' (e_levels e')"
    unfolding F(5) by (intro levels_ok_set levels_ok_cong [OF K(4)]) (use K(5) same in auto)
  moreover have r: "mset (engine_records P' e') = mset (engine_records P e0)"
  proof -
    have "mset (ids_records P' (all_ids (e_levels e'))) = mset (concat ess) + mset (ids_records P' (all_ids ?ls))"
      unfolding ids_records_mset [OF A] by (simp add: ids_records_def P'_def)
    moreover have "ids_records P' (all_ids ?ls) = ids_records P (all_ids ?ls)"
      by (rule ids_records_cong) (use K(5) same in blast)
    ultimately show ?thesis by (simp add: engine_records_def F(2) recs)
  qed
  moreover have "distinct (map eversion (engine_records P' e'))"
    by (rule mset_distinct_versions [OF r [symmetric] K(7)])
  moreover have "\<forall>i \<in> set (all_ids (e_levels e')). i < Suc ?n" using K(5) unfolding ids by (auto simp: less_Suc_eq)
  moreover have "\<forall>i \<ge> Suc ?n. P' i = []" using K(6) by (simp add: P'_def)
  moreover have "store_holds (blocks_of P') (e_store e0)"
    by (rule store_holds_extend [OF K(1)]) (rule ghost_extends_blocks [OF ext])
  ultimately show ?thesis
    unfolding engine_has_def e'_def [symmetric] engine_ok_def F(1-3) using assms(2) by blast
qed

section \<open>The whole flush\<close>

text \<open>What changes but the store, the levels and the SSTs: nothing, or the oldest table has
  left the memory and its commit marks have reached the manager.\<close>

definition l0_length :: "engine \<Rightarrow> nat" where
  "l0_length e = length (level_ids (e_levels e) 0)"

definition unflushed :: "engine_env \<Rightarrow> entry multiset \<Rightarrow> engine \<Rightarrow> engine \<Rightarrow> bool" where
  "unflushed env R e0 e \<longleftrightarrow> engine_has env R e \<and> mem_layers (e_memtable e) = mem_layers (e_memtable e0) \<and>
     e_tran_manager e = e_tran_manager e0 \<and> l0_length e \<le> l0_length e0"

definition oldest_flushed :: "engine_env \<Rightarrow> entry multiset \<Rightarrow> engine \<Rightarrow> engine \<Rightarrow> bool" where
  "oldest_flushed env R e0 e \<longleftrightarrow> engine_has env R e \<and> l0_length e \<le> Suc (l0_length e0) \<and>
     (\<exists>es. mem_layers (e_memtable e0) = mem_layers (e_memtable e) @ [es] \<and>
        e_tran_manager e = map_option (\<lambda>m. fold (\<lambda>tid m. tm_add_flushed_tranc_id m tid) (commit_marks es) m) (e_tran_manager e0))"

lemma engine_has_manager: "engine_has env R e \<Longrightarrow> engine_has env R (e\<lparr>e_tran_manager := man\<rparr>)"
  by (simp add: engine_has_def engine_ok_def engine_records_def)

lemma engine_has_memtable:
  assumes "engine_ok env P e0" "moved (store_holds (blocks_of P)) e0 e" "mem_ok m"
    "mem_layers m = mem_layers (e_memtable e0)"
  shows "engine_has env (mset (engine_records P e0)) (e\<lparr>e_memtable := m\<rparr>)"
proof -
  have "mem_records m = mem_records (e_memtable e0)" using assms(4) mem_layers_records by metis
  then have "engine_records P (e\<lparr>e_memtable := m\<rparr>) = engine_records P e0"
    using assms(2) by (auto simp: engine_records_def moved_def)
  moreover from this moved_ok [OF assms(1,2)] assms(3) have "engine_ok env P (e\<lparr>e_memtable := m\<rparr>)"
    unfolding engine_ok_def by simp
  ultimately show ?thesis unfolding engine_has_def by metis
qed

text \<open>The flush after a possible compaction.\<close>

definition flush_oldest :: "engine_env \<Rightarrow> u64 eio" where
  "flush_oldest env =
     cbind take_sst_id (\<lambda>sid.
     cbind (clift (new_builder env)) (\<lambda>b.
     cbind (flush_table env sid b) (\<lambda>(new_sst, flushed). case new_sst of
         None \<Rightarrow> cret 0
       | Some s \<Rightarrow>
           cbind (emod (register_l0 sid s)) (\<lambda>_.
           cbind (emod (notify_flushed flushed)) (\<lambda>_.
             cret (snd (sst_tranc_id_range s)))))))"

lemma flush_oldest_spec:
  assumes "env_ok env" "engine_has env R e0"
  shows "triple (\<lambda>e. e = e0) (flush_oldest env)
    (\<lambda>_ e. memtable_get_total_size (e_memtable e0) = 0 \<and> unflushed env R e0 e \<or> oldest_flushed env R e0 e)
    (unflushed env R e0)"
proof -
  obtain P where P: "engine_ok env P e0" "mset (engine_records P e0) = R"
    by (rule engine_hasE [OF assms(2)])
  let ?n = "e_next_sst_id e0"
  define e1 where "e1 = e0\<lparr>e_next_sst_id := Suc ?n\<rparr>"
  have "store_holds (blocks_of P) (e_store e0)" using P(1) by (simp add: engine_ok_def)
  then have mv: "moved (store_holds (blocks_of P)) e0 e1"
    unfolding moved_def e1_def by (intro exI [of _ "e_store e0"] exI [of _ "Suc ?n"]) simp
  have un: "unflushed env R e0 (e1\<lparr>e_memtable := m\<rparr>)" if "mem_ok m" "mem_layers m = mem_layers (e_memtable e0)" for m
    using engine_has_memtable [OF P(1) mv that] that(2) by (simp add: unflushed_def P(2) e1_def l0_length_def)
  have ok0: "mem_ok (e_memtable e0)" using P(1) by (simp add: engine_ok_def)
  show ?thesis
  proof (cases "new_builder env")
    case (Inl err)
    have "unflushed env R e0 e1" using un [OF ok0 refl] by (simp add: e1_def)
    with Inl new_builder_spec(1) [OF assms(1) Inl] show ?thesis
      by (simp add: flush_oldest_def triple_def cbind_def take_sst_id_def cthrow_def e1_def)
  next
    case (Inr b)
    have b: "builder_fresh b" "plain_builder b" using new_builder_spec(2) [OF assms(1) Inr] by simp_all
    have ok1: "mem_ok (e_memtable e1)" using ok0 by (simp add: e1_def)
    have run: "flush_oldest env e0 = (case flush_table env ?n b e1 of
        (Inl err, e) \<Rightarrow> (Inl err, e)
      | (Inr (new_sst, flushed), e) \<Rightarrow> (case new_sst of None \<Rightarrow> (Inr 0, e)
         | Some s \<Rightarrow> (Inr (snd (sst_tranc_id_range s)), notify_flushed flushed (register_l0 ?n s e))))"
      by (simp add: flush_oldest_def cbind_def take_sst_id_def Inr e1_def cret_def emod_def
          split: prod.split sum.split option.split)
    obtain r e where fe: "flush_table env ?n b e1 = (r, e)" by fastforce
    note F = flush_table_spec [OF assms(1) ok1 b, of ?n, unfolded fe prod.case]
    show ?thesis
    proof (cases r)
      case (Inl err)
      with F un run fe show ?thesis by (auto simp: triple_def e1_def)
    next
      case r: (Inr p)
      obtain new_sst flushed where p: "p = (new_sst, flushed)" by (cases p)
      show ?thesis
      proof (cases new_sst)
        case None
        with F un run fe r p show ?thesis by (auto simp: triple_def e1_def)
      next
        case (Some s)
        with F r p obtain m ess where m: "e = e1\<lparr>e_memtable := m\<rparr>" "mem_ok m"
          "mem_layers (e_memtable e0) = mem_layers m @ [concat ess]" "sst_id s = ?n"
          "sst_made (env_hash env) s ess" "flushed = commit_marks (concat ess)"
          by (auto simp: e1_def)
        let ?e2 = "register_l0 ?n s e"
        have "engine_has env R ?e2"
          using register_ok [OF P(1) m(2,5,4,3)] by (simp add: P(2) m(1) e1_def)
        moreover have "e_memtable ?e2 = m" "e_tran_manager ?e2 = e_tran_manager e0"
          by (simp_all add: register_l0_def m(1) e1_def)
        moreover have "l0_length ?e2 = Suc (l0_length e0)"
          by (simp add: register_l0_def m(1) e1_def l0_length_def)
        ultimately have "oldest_flushed env R e0 (notify_flushed flushed ?e2)"
          unfolding oldest_flushed_def notify_flushed_def using m(3,6) engine_has_manager
          by (auto simp: l0_length_def)
        with run fe r p Some show ?thesis by (simp add: triple_def)
      qed
    qed
  qed
qed

lemma engine_flush_spec:
  assumes "env_ok env" "engine_has env R e0"
  shows "triple (\<lambda>e. e = e0) (engine_flush env)
    (\<lambda>_ e. memtable_get_total_size (e_memtable e0) = 0 \<and> unflushed env R e0 e \<or>
       oldest_flushed env R e0 e \<and> l0_length e \<le> env_ratio env) (unflushed env R e0)"
proof -
  let ?Q = "\<lambda>_ e. memtable_get_total_size (e_memtable e0) = 0 \<and> unflushed env R e0 e \<or>
       oldest_flushed env R e0 e \<and> l0_length e \<le> env_ratio env"
  have here: "unflushed env R e0 e0" using assms(2) by (simp add: unflushed_def)
  define full where "full = (case map_of (e_levels e0) 0 of None \<Rightarrow> False | Some ids \<Rightarrow> env_ratio env \<le> length ids)"
  have ratio: "0 < env_ratio env" using assms(1) by (simp add: env_ok_def)
  have not_full: "\<not> full \<Longrightarrow> l0_length e0 < env_ratio env"
    using ratio by (auto simp: full_def l0_length_def level_ids_def split: option.splits)
  let ?K = "\<lambda>e. kept env R e0 0 e \<and> l0_length e \<le> l0_length e0"
  let ?C = "\<lambda>e. ?K e \<and> l0_length e < env_ratio env"
  have compact: "triple (\<lambda>e. e = e0) (if full then full_compact (compact_fuel e0) env 0 else cret ()) (\<lambda>_. ?C) ?K"
  proof (cases full)
    case True
    then have "level_ids (e_levels e0) 0 \<noteq> []"
      using ratio by (auto simp: full_def level_ids_def split: option.splits)
    moreover have "levels_above 0 (e_levels e0) < compact_fuel e0"
      by (simp add: levels_above_def compact_fuel_def le_imp_less_Suc)
    ultimately have "triple (\<lambda>e. e = e0) (full_compact (compact_fuel e0) env 0)
        (\<lambda>_. moved_down env R e0 0) (kept env R e0 (Suc 0))"
      using full_compact_spec [OF assms, of 0] by simp
    then show ?thesis
      unfolding if_P [OF True]
      by (rule triple_weaken) (use ratio in \<open>auto simp: moved_down_def kept_def l0_length_def\<close>)
  next
    case False
    then show ?thesis using assms(2) not_full by (auto simp: kept_def intro!: triple_ret)
  qed
  have rest: "triple ?C (flush_oldest env) ?Q (unflushed env R e0)"
  proof (rule triple_here)
    fix e
    assume e: "?C e"
    show "triple (\<lambda>e'. e' = e) (flush_oldest env) ?Q (unflushed env R e0)"
      by (rule triple_weaken [OF flush_oldest_spec [OF assms(1), of R e]])
        (use e in \<open>auto simp: kept_def unflushed_def oldest_flushed_def\<close>)
  qed
  have un: "?K e \<Longrightarrow> unflushed env R e0 e" for e by (simp add: kept_def unflushed_def)
  have "triple (\<lambda>e. e = e0) (cbind (if full then full_compact (compact_fuel e0) env 0 else cret ()) (\<lambda>_. flush_oldest env))
      ?Q (unflushed env R e0)"
    by (rule triple_bind [OF triple_weaken [OF compact _ _ un] rest]) simp_all
  then show ?thesis
    unfolding engine_flush_def flush_oldest_def [symmetric]
    by (intro triple_eget_at) (auto simp: full_def [symmetric] here intro!: triple_ret triple_eget_at)
qed

end
