(* ===== verification/Engine_History.thy ===== *)
theory Engine_History
  imports Engine_Flush MemTable_History
begin

text \<open>
  Histories of the engine: any sequence of reads, writes, flushes, clears and changes of the
  transaction manager, with any failures of the file system in between, refines one map from
  (key, version) to value.
\<close>

section \<open>Reads\<close>

lemma spec_estore:
  assumes "spec I m Q" "I (e_store e)"
  shows "\<exists>x st. estore m e = (Inr x, e\<lparr>e_store := st\<rparr>) \<and> I st \<and> Q x"
  using spec_run [OF assms] by (auto simp: estore_def)

lemma engine_ok_store:
  assumes "engine_ok env P e" "store_holds (blocks_of P) st"
  shows "engine_ok env P (e\<lparr>e_store := st\<rparr>)" "engine_records P (e\<lparr>e_store := st\<rparr>) = engine_records P e"
proof -
  show r: "engine_records P (e\<lparr>e_store := st\<rparr>) = engine_records P e" by (simp add: engine_records_def)
  show "engine_ok env P (e\<lparr>e_store := st\<rparr>)" using assms unfolding engine_ok_def r by simp
qed

lemma mem_entries_candidates:
  assumes "k \<noteq> []"
  shows "candidates (mem_entries m) k t ab = candidates (set (mem_records m)) k t ab"
proof -
  have "e \<in> mem_entries m \<longleftrightarrow> e \<in> set (mem_records m)" if "ekey e = k" for e
    using assms that by (auto simp: mem_entries_def mem_records_def user_entries_def)
  then show ?thesis unfolding candidates_def by blast
qed

lemma engine_sst_get_spec:
  assumes "engine_ok env P e" "k \<noteq> []"
  shows "\<exists>r st. engine_sst_get env k t ab e = (Inr r, e\<lparr>e_store := st\<rparr>) \<and> store_holds (blocks_of P) st \<and>
    newest (set (ids_records P (all_ids (e_levels e)))) k t ab r"
proof -
  have K: "tables_shown (env_hash env) (blocks_of P) (e_ssts e) P (all_ids (e_levels e))"
    "levels_ok P (e_levels e)" "store_holds (blocks_of P) (e_store e)"
    using assms(1) unfolding engine_ok_def by blast+
  from spec_estore [where e = e, OF sst_get_unlocked_spec [OF K(1,2) assms(2), of t ab] K(3)] show ?thesis
    by (auto simp: engine_sst_get_def cbind_def eget_def set_ids_records)
qed

lemma engine_get_spec:
  assumes "engine_ok env P e" "k \<noteq> []" "e_tran_manager e = Some man"
  shows "\<exists>r st. engine_get env k t rc e = (Inr (visible r), e\<lparr>e_store := st\<rparr>) \<and> store_holds (blocks_of P) st \<and>
    newest (set (engine_records P e)) k t (Some (\<lambda>tid. tm_should_skip_read man tid rc)) r"
proof -
  let ?ab = "Some (\<lambda>tid. tm_should_skip_read man tid rc)"
  have ok: "mem_ok (e_memtable e)" using assms(1) by (simp add: engine_ok_def)
  obtain r st where r: "engine_sst_get env k t ?ab e = (Inr r, e\<lparr>e_store := st\<rparr>)" "store_holds (blocks_of P) st"
    "newest (set (ids_records P (all_ids (e_levels e)))) k t ?ab r"
    using engine_sst_get_spec [OF assms(1,2)] by blast
  have "newest (set (mem_records (e_memtable e))) k t ?ab (mem_lookup (e_memtable e) k t ?ab)"
    using mem.lookup_newest [OF ok] newest_cong [OF mem_entries_candidates [OF assms(2)]] by blast
  from newest_better [OF this r(3)] r(1,2) show ?thesis
    by (auto simp: engine_get_def cbind_def eget_def cret_def assms(3) Let_def memtable_get_record_lookup [OF ok]
        engine_records_def)
qed

lemma engine_batch_ssts_spec:
  assumes "engine_ok env P e" "\<forall>r \<in> set rs. fst r \<noteq> []"
  shows "\<exists>out st. engine_batch_ssts env t ab rs e = (Inr out, e\<lparr>e_store := st\<rparr>) \<and> store_holds (blocks_of P) st \<and>
    list_all2 (\<lambda>r o'. fst o' = fst r \<and> (\<exists>d. newest (set (ids_records P (all_ids (e_levels e)))) (fst r) t ab d \<and>
      snd o' = visible (better (snd r) d))) rs out"
  using assms
proof (induction rs arbitrary: e)
  case Nil
  then have "store_holds (blocks_of P) (e_store e)" by (simp add: engine_ok_def)
  then show ?case by (intro exI [of _ "[]"] exI [of _ "e_store e"]) (simp add: cret_def)
next
  case (Cons r rs)
  obtain d st where d: "engine_sst_get env (fst r) t ab e = (Inr d, e\<lparr>e_store := st\<rparr>)" "store_holds (blocks_of P) st"
    "newest (set (ids_records P (all_ids (e_levels e)))) (fst r) t ab d"
    using engine_sst_get_spec [OF Cons.prems(1)] Cons.prems(2) by (metis list.set_intros(1))
  have "engine_ok env P (e\<lparr>e_store := st\<rparr>)" by (rule engine_ok_store(1) [OF Cons.prems(1) d(2)])
  from Cons.IH [OF this] Cons.prems(2) obtain out st' where
    "engine_batch_ssts env t ab rs (e\<lparr>e_store := st\<rparr>) = (Inr out, e\<lparr>e_store := st'\<rparr>)" "store_holds (blocks_of P) st'"
    "list_all2 (\<lambda>r o'. fst o' = fst r \<and> (\<exists>d. newest (set (ids_records P (all_ids (e_levels e)))) (fst r) t ab d \<and>
      snd o' = visible (better (snd r) d))) rs out"
    by auto
  with d show ?case by (auto simp: cbind_def cret_def)
qed

lemma engine_get_batch_spec:
  assumes "engine_ok env P e" "\<forall>k \<in> set ks. k \<noteq> []" "e_tran_manager e = Some man"
  shows "\<exists>out st. engine_get_batch env ks t e = (Inr out, e\<lparr>e_store := st\<rparr>) \<and> store_holds (blocks_of P) st \<and>
    list_all2 (\<lambda>k o'. fst o' = k \<and> (\<exists>r. newest (set (engine_records P e)) k t (Some (tm_is_aborted man)) r \<and>
      snd o' = visible r)) ks out"
proof (cases "ks = []")
  case True
  have "store_holds (blocks_of P) (e_store e)" using assms(1) by (simp add: engine_ok_def)
  with True show ?thesis
    by (intro exI [of _ "[]"] exI [of _ "e_store e"]) (simp add: engine_get_batch_def cbind_def eget_def cret_def assms(3))
next
  case False
  let ?ab = "Some (\<lambda>tid. tm_is_aborted man tid)"
  let ?rs = "map (\<lambda>k. (k, mem_lookup (e_memtable e) k t ?ab)) ks"
  have ok: "mem_ok (e_memtable e)" using assms(1) by (simp add: engine_ok_def)
  obtain out st where o: "engine_batch_ssts env t ?ab ?rs e = (Inr out, e\<lparr>e_store := st\<rparr>)" "store_holds (blocks_of P) st"
    "list_all2 (\<lambda>r o'. fst o' = fst r \<and> (\<exists>d. newest (set (ids_records P (all_ids (e_levels e)))) (fst r) t ?ab d \<and>
      snd o' = visible (better (snd r) d))) ?rs out"
    using engine_batch_ssts_spec [OF assms(1), of ?rs t ?ab] assms(2) by auto
  have "newest (set (mem_records (e_memtable e))) k t ?ab (mem_lookup (e_memtable e) k t ?ab)" if "k \<noteq> []" for k
    using mem.lookup_newest [OF ok] newest_cong [OF mem_entries_candidates [OF that]] by blast
  then have N: "newest (set (engine_records P e)) k t ?ab (better (mem_lookup (e_memtable e) k t ?ab) d)"
    if "k \<noteq> []" "newest (set (ids_records P (all_ids (e_levels e)))) k t ?ab d" for k d
    using newest_better [OF _ that(2)] that(1) unfolding engine_records_def set_append by blast
  have "list_all2 (\<lambda>k o'. fst o' = k \<and> (\<exists>r. newest (set (engine_records P e)) k t ?ab r \<and>
      snd o' = visible r)) ks out"
    by (rule list.rel_mono_strong [OF o(3) [unfolded list_all2_map1]]) (use N assms(2) in force)
  with o(1,2) False show ?thesis
    by (auto simp: engine_get_batch_def cbind_def cret_def eget_def assms(3) Let_def memtable_get_batch_lookup [OF ok])
qed

section \<open>Writes\<close>

text \<open>The versions that a batch writes, as a map.\<close>

definition batch_map :: "(bytes \<times> bytes) list \<Rightarrow> u64 \<Rightarrow> versions" where
  "batch_map kvs t = fold (\<lambda>kv w. w((fst kv, t) \<mapsto> snd kv)) kvs Map.empty"

lemma fold_batch: "fold (\<lambda>kv w. w((fst kv, t) \<mapsto> snd kv)) kvs w = w ++ batch_map kvs t"
proof -
  have "fold (\<lambda>kv w. w((fst kv, t) \<mapsto> snd kv)) kvs (w ++ u) = w ++ fold (\<lambda>kv w. w((fst kv, t) \<mapsto> snd kv)) kvs u" for u
    by (induction kvs arbitrary: u) (simp_all flip: map_add_upd)
  from this [of Map.empty] show ?thesis by (simp add: batch_map_def)
qed

lemma batch_map_Cons: "batch_map (kv # kvs) t = [(fst kv, t) \<mapsto> snd kv] ++ batch_map kvs t"
proof -
  have "batch_map (kv # kvs) t = fold (\<lambda>kv w. w((fst kv, t) \<mapsto> snd kv)) kvs [(fst kv, t) \<mapsto> snd kv]"
    by (simp add: batch_map_def)
  then show ?thesis unfolding fold_batch .
qed

lemma dom_batch_map: "dom (batch_map kvs t) = (\<lambda>kv. (fst kv, t)) ` set kvs"
  by (induction kvs) (auto simp: batch_map_Cons, simp add: batch_map_def)

text \<open>The map of the memory tables is their records when no version occurs twice.\<close>

lemma eversion_map: "table_ok s \<Longrightarrow> graph_of (table_map s) = set (table_entries s)"
proof (rule set_eqI)
  fix e
  assume "table_ok s"
  then show "e \<in> graph_of (table_map s) \<longleftrightarrow> e \<in> set (table_entries s)" by (cases e) (simp add: table_map_iff)
qed

lemma graph_map_add:
  "eversion ` graph_of g \<inter> dom f = {} \<Longrightarrow> graph_of (g ++ f) = graph_of f \<union> graph_of g"
  by (force simp: graph_of_def map_add_Some_iff)

lemma tables_map_graph:
  assumes "\<forall>s \<in> set ss. table_ok s" "distinct (map eversion (concat (map table_entries ss)))"
  shows "graph_of (tables_map ss) = set (concat (map table_entries ss))"
  using assms
proof (induction ss)
  case Nil
  then show ?case by (simp add: graph_of_def)
next
  case (Cons s ss)
  have IH: "graph_of (tables_map ss) = set (concat (map table_entries ss))" using Cons by simp
  have T: "graph_of (table_map s) = set (table_entries s)" using Cons.prems(1) by (intro eversion_map) simp
  have "dom (table_map s) \<subseteq> eversion ` set (table_entries s)"
    unfolding T [symmetric] by (force simp: graph_of_def)
  moreover have "eversion ` graph_of (tables_map ss) \<inter> eversion ` set (table_entries s) = {}"
    using Cons.prems(2) unfolding IH by auto
  ultimately have "eversion ` graph_of (tables_map ss) \<inter> dom (table_map s) = {}" by blast
  from graph_map_add [OF this] show ?case by (simp add: T IH)
qed

lemma put_all_current:
  "mem_ok m \<Longrightarrow> \<exists>m'. memtable_put_all m kvs t coins = Inr m' \<and> mem_ok m' \<and> frozen_tables m' = frozen_tables m \<and>
     mem_map m' = mem_map m ++ batch_map kvs t \<and>
     eversion ` set (table_entries (current_table m')) \<subseteq> eversion ` set (table_entries (current_table m)) \<union> dom (batch_map kvs t)"
proof (induction kvs arbitrary: m)
  case Nil
  then show ?case by (simp add: batch_map_def)
next
  case (Cons kv kvs)
  obtain m1 where m1: "memtable_put_unlocked m (fst kv) (snd kv) t (coins (length kvs)) = Inr m1"
    "mem_written m m1 (fst kv, snd kv, t)"
    using memtable_put_unlocked_written [OF Cons.prems] by blast
  have ok: "mem_ok m1" "frozen_tables m1 = frozen_tables m" using m1(2) by (simp_all add: mem_written_def)
  have "sorted_entries (table_entries (current_table m))"
    using Cons.prems by (intro table_sorted) (simp add: mem_ok_def mem_tables_def)
  then have v: "eversion ` set (table_entries (current_table m1))
      \<subseteq> insert (fst kv, t) (eversion ` set (table_entries (current_table m)))"
    using m1(2) by (auto simp: mem_written_def upsert_set)
  obtain m' where m': "memtable_put_all m1 kvs t coins = Inr m'" "mem_ok m'" "frozen_tables m' = frozen_tables m1"
     "mem_map m' = mem_map m1 ++ batch_map kvs t"
     "eversion ` set (table_entries (current_table m')) \<subseteq> eversion ` set (table_entries (current_table m1)) \<union> dom (batch_map kvs t)"
    using Cons.IH [OF ok(1)] by blast
  have "mem_map m' = mem_map m ++ batch_map (kv # kvs) t"
    unfolding m'(4) mem_map_written [OF Cons.prems m1(2)] batch_map_Cons by simp
  moreover have "eversion ` set (table_entries (current_table m'))
      \<subseteq> eversion ` set (table_entries (current_table m)) \<union> dom (batch_map (kv # kvs) t)"
  proof -
    have "dom (batch_map (kv # kvs) t) = insert (fst kv, t) (dom (batch_map kvs t))"
      unfolding dom_batch_map by simp
    with m'(5) v show ?thesis by blast
  qed
  ultimately show ?case using m1(1) m'(1-3) ok(2) by simp
qed

text \<open>\<open>engine_shows env w e\<close>: the records of the engine are the graph of \<open>w\<close>, and level 0 has
  at most as many SSTs as the ratio says.\<close>

definition engine_shows :: "engine_env \<Rightarrow> versions \<Rightarrow> engine \<Rightarrow> bool" where
  "engine_shows env w e \<longleftrightarrow> l0_length e \<le> env_ratio env \<and>
     (\<exists>P. engine_ok env P e \<and> set (engine_records P e) = graph_of w)"

lemma engine_has_shows:
  "engine_has env R e \<Longrightarrow> set_mset R = graph_of w \<Longrightarrow> l0_length e \<le> env_ratio env \<Longrightarrow> engine_shows env w e"
  unfolding engine_has_def engine_shows_def by auto

lemma engine_shows_has:
  assumes "engine_shows env w e"
  obtains R where "engine_has env R e" "set_mset R = graph_of w"
  using assms unfolding engine_has_def engine_shows_def by (metis set_mset_mset)

lemma distinct_versions_sorted: "sorted_entries es \<Longrightarrow> distinct (map eversion es)"
proof (induction es)
  case (Cons e es)
  then have "eversion e \<noteq> eversion x" if "x \<in> set es" for x
    using that by (auto simp: entry_less_def version_less_def)
  with Cons show ?case by auto
qed simp

lemma engine_ok_memtable:
  "engine_ok env P e \<Longrightarrow> mem_ok m \<Longrightarrow> distinct (map eversion (mem_records m @ ids_records P (all_ids (e_levels e)))) \<Longrightarrow>
   engine_ok env P (e\<lparr>e_memtable := m\<rparr>)"
  unfolding engine_ok_def engine_records_def by simp

lemma disjoint_cover: "A \<subseteq> B \<union> U \<Longrightarrow> B \<inter> D = {} \<Longrightarrow> D \<inter> U = {} \<Longrightarrow> A \<inter> D = {}"
  by blast

lemma graph_versions: "eversion ` graph_of w = dom w"
proof (rule set_eqI)
  fix x
  show "x \<in> eversion ` graph_of w \<longleftrightarrow> x \<in> dom w" by (cases x) (auto simp: graph_of_def image_iff)
qed

lemma put_all_shows:
  assumes "engine_shows env w e" "dom (batch_map kvs t) \<inter> dom w = {}"
  shows "\<exists>m. memtable_put_all (e_memtable e) kvs t coins = Inr m \<and>
    engine_shows env (w ++ batch_map kvs t) (e\<lparr>e_memtable := m\<rparr>)"
proof -
  let ?m = "e_memtable e" and ?u = "batch_map kvs t"
  obtain P where P: "engine_ok env P e" "set (engine_records P e) = graph_of w"
    using assms(1) unfolding engine_shows_def by blast
  let ?D = "ids_records P (all_ids (e_levels e))"
  have ok: "mem_ok ?m" "distinct (map eversion (mem_records ?m @ ?D))"
    using P(1) unfolding engine_ok_def engine_records_def by blast+
  obtain m1 where m1: "memtable_put_all ?m kvs t coins = Inr m1" "mem_ok m1" "frozen_tables m1 = frozen_tables ?m"
     "mem_map m1 = mem_map ?m ++ ?u"
     "eversion ` set (table_entries (current_table m1)) \<subseteq> eversion ` set (table_entries (current_table ?m)) \<union> dom ?u"
    using put_all_current [OF ok(1)] by blast
  define rest where "rest = concat (map table_entries (frozen_tables ?m)) @ ?D"
  have recs: "mem_records ?m @ ?D = table_entries (current_table ?m) @ rest"
    "mem_records m1 @ ?D = table_entries (current_table m1) @ rest"
    by (simp_all add: mem_records_def mem_tables_def m1(3) rest_def)
  have w: "graph_of w = set (mem_records ?m) \<union> set ?D" using P(2) unfolding engine_records_def by simp
  have fresh: "eversion ` (set (mem_records ?m) \<union> set ?D) \<inter> dom ?u = {}"
    unfolding w [symmetric] graph_versions using assms(2) by blast
  have "distinct (map eversion (table_entries (current_table m1)))"
    using m1(2) by (intro distinct_versions_sorted table_sorted) (simp add: mem_ok_def mem_tables_def)
  moreover have "eversion ` set (table_entries (current_table m1)) \<inter> eversion ` set rest = {}"
  proof -
    have "eversion ` set (table_entries (current_table ?m)) \<inter> eversion ` set rest = {}"
      using ok(2) [unfolded recs(1)] unfolding map_append distinct_append set_map by blast
    moreover have "eversion ` set rest \<inter> dom ?u = {}"
      using fresh unfolding set_append [symmetric] recs(1) by auto
    ultimately show ?thesis by (rule disjoint_cover [OF m1(5)])
  qed
  ultimately have "distinct (map eversion (table_entries (current_table m1) @ rest))"
    using ok(2) [unfolded recs(1)] unfolding map_append distinct_append set_map by blast
  then have d: "distinct (map eversion (mem_records m1 @ ?D))" unfolding recs(2) .
  have tables: "graph_of (mem_map m) = set (mem_records m)" if "mem_ok m" "distinct (map eversion (mem_records m @ ?D))" for m
    using that unfolding mem_map_def mem_records_def by (intro tables_map_graph) (simp_all add: mem_ok_def)
  have "graph_of (w ++ ?u) = graph_of ?u \<union> graph_of w"
    by (rule graph_map_add) (use fresh in \<open>simp only: w\<close>)
  moreover have "graph_of (mem_map ?m ++ ?u) = graph_of ?u \<union> graph_of (mem_map ?m)"
    by (rule graph_map_add) (use fresh in \<open>simp only: tables [OF ok] image_Un, blast\<close>)
  ultimately have "graph_of (w ++ ?u) = graph_of (mem_map m1) \<union> set ?D"
    by (simp only: m1(4) w tables [OF ok] Un_assoc)
  then have g: "graph_of (w ++ ?u) = set (mem_records m1 @ ?D)"
    by (simp only: tables [OF m1(2) d] set_append)
  have r: "engine_records P (e\<lparr>e_memtable := m1\<rparr>) = mem_records m1 @ ?D" by (simp add: engine_records_def)
  have "engine_ok env P (e\<lparr>e_memtable := m1\<rparr>)" by (rule engine_ok_memtable [OF P(1) m1(2) d])
  then have "engine_shows env (w ++ ?u) (e\<lparr>e_memtable := m1\<rparr>)"
    using assms(1) unfolding engine_shows_def l0_length_def
    by (intro conjI exI [of _ P]) (simp_all only: r g simp_thms, simp)
  with m1(1) show ?thesis by blast
qed

lemma freeze_shows:
  assumes "engine_shows env w e"
  shows "engine_shows env w (e\<lparr>e_memtable := freeze_if_full limit (e_memtable e)\<rparr>)"
proof -
  obtain P where P: "engine_ok env P e" "set (engine_records P e) = graph_of w"
    using assms unfolding engine_shows_def by blast
  have r: "engine_records P (e\<lparr>e_memtable := freeze_if_full limit (e_memtable e)\<rparr>) = engine_records P e"
    by (simp add: engine_records_def)
  have "mem_ok (freeze_if_full limit (e_memtable e))" using P(1) by (simp add: engine_ok_def freeze_if_full_facts)
  then have "engine_ok env P (e\<lparr>e_memtable := freeze_if_full limit (e_memtable e)\<rparr>)"
    using P(1) unfolding engine_ok_def r by simp
  with P(2) assms show ?thesis
    unfolding engine_shows_def l0_length_def by (intro conjI exI [of _ P]) (simp_all add: r)
qed

lemma batch_shows:
  assumes "engine_shows env w e" "dom (batch_map kvs t) \<inter> dom w = {}"
  shows "\<exists>m. memtable_put_batch limit (e_memtable e) kvs t coins = Inr m \<and>
    engine_shows env (w ++ batch_map kvs t) (e\<lparr>e_memtable := m\<rparr>)"
proof -
  obtain m where m: "memtable_put_all (e_memtable e) kvs t coins = Inr m"
    "engine_shows env (w ++ batch_map kvs t) (e\<lparr>e_memtable := m\<rparr>)"
    using put_all_shows [OF assms] by blast
  from freeze_shows [OF m(2), of limit] m(1) show ?thesis by (simp add: memtable_put_batch_def)
qed

section \<open>Operations and histories\<close>

text \<open>The outcome of one operation: an exception is one that the program throws.\<close>

definition outcome :: "(engine \<Rightarrow> bool) \<Rightarrow> 'a result \<times> engine \<Rightarrow> bool" where
  "outcome Q r \<longleftrightarrow> Q (snd r) \<and> (\<forall>err. fst r = Inl err \<longrightarrow> thrown err)"

lemma flush_outcome:
  assumes "env_ok env" "engine_shows env w e"
  shows "outcome (engine_shows env w) (engine_flush env e)"
proof -
  obtain R where R: "engine_has env R e" "set_mset R = graph_of w" by (rule engine_shows_has [OF assms(2)])
  have l0: "l0_length e \<le> env_ratio env" using assms(2) by (simp add: engine_shows_def)
  have "engine_shows env w e'"
    if "unflushed env R e e' \<or> oldest_flushed env R e e' \<and> l0_length e' \<le> env_ratio env" for e'
    using that engine_has_shows [OF _ R(2)] l0 by (auto simp: unflushed_def oldest_flushed_def)
  with triple_run [OF engine_flush_spec [OF assms(1) R(1)] refl] show ?thesis
    by (auto simp: outcome_def split: prod.splits sum.splits)
qed

lemma put_batch_outcome:
  assumes "env_ok env" "engine_shows env w e" "dom (batch_map kvs t) \<inter> dom w = {}"
  shows "outcome (engine_shows env (w ++ batch_map kvs t)) (engine_put_batch env kvs t coins e)"
proof -
  obtain m where m: "memtable_put_batch (env_per_mem env) (e_memtable e) kvs t coins = Inr m"
    "engine_shows env (w ++ batch_map kvs t) (e\<lparr>e_memtable := m\<rparr>)"
    using batch_shows [OF assms(2,3)] by blast
  have "engine_put_batch env kvs t coins e = flush_if_full env (e\<lparr>e_memtable := m\<rparr>)"
    by (simp add: engine_put_batch_def cbind_def ememtable_def m(1))
  moreover have "outcome (engine_shows env (w ++ batch_map kvs t)) (flush_if_full env (e\<lparr>e_memtable := m\<rparr>))"
    using flush_outcome [OF assms(1) m(2)] m(2)
    by (simp add: flush_if_full_def cbind_def eget_def) (simp add: outcome_def cret_def)
  ultimately show ?thesis by simp
qed

text \<open>All writes are batches.\<close>

lemma memtable_put_is_batch: "memtable_put limit m k v t coin = memtable_put_batch limit m [(k, v)] t (\<lambda>_. coin)"
  by (cases "memtable_put_unlocked m k v t coin") (simp_all add: memtable_put_def memtable_put_batch_def)

lemma writes_are_batches:
  "engine_put env k v t coin = engine_put_batch env [(k, v)] t (\<lambda>_. coin)"
  "engine_remove env k t coin = engine_put_batch env [(k, [])] t (\<lambda>_. coin)"
  "engine_remove_batch env ks t coins = engine_put_batch env (map (\<lambda>k. (k, [])) ks) t coins"
  by (simp_all add: engine_put_def engine_remove_def engine_remove_batch_def engine_put_batch_def
      memtable_put_is_batch memtable_remove_put memtable_remove_batch_put)

datatype engine_op =
    E_Put bytes bytes u64 "nat \<Rightarrow> bool"
  | E_Put_Batch "(bytes \<times> bytes) list" u64 "nat \<Rightarrow> nat \<Rightarrow> bool"
  | E_Remove bytes u64 "nat \<Rightarrow> bool"
  | E_Remove_Batch "bytes list" u64 "nat \<Rightarrow> nat \<Rightarrow> bool"
  | E_Flush
  | E_Clear
  | E_Get bytes u64 bool
  | E_Get_Batch "bytes list" u64
  | E_Manager "tran_manager option"

primrec engine_exec :: "engine_env \<Rightarrow> engine_op \<Rightarrow> unit eio" where
  "engine_exec env (E_Put k v t coin) = cbind (engine_put env k v t coin) (\<lambda>_. cret ())"
| "engine_exec env (E_Put_Batch kvs t coins) = cbind (engine_put_batch env kvs t coins) (\<lambda>_. cret ())"
| "engine_exec env (E_Remove k t coin) = cbind (engine_remove env k t coin) (\<lambda>_. cret ())"
| "engine_exec env (E_Remove_Batch ks t coins) = cbind (engine_remove_batch env ks t coins) (\<lambda>_. cret ())"
| "engine_exec env E_Flush = cbind (engine_flush env) (\<lambda>_. cret ())"
| "engine_exec env E_Clear = engine_clear"
| "engine_exec env (E_Get k t rc) = cbind (engine_get env k t rc) (\<lambda>_. cret ())"
| "engine_exec env (E_Get_Batch ks t) = cbind (engine_get_batch env ks t) (\<lambda>_. cret ())"
| "engine_exec env (E_Manager man) = engine_set_tran_manager man"

text \<open>After an exception the history goes on from the state that was left.\<close>

primrec engine_run :: "engine_env \<Rightarrow> engine_op list \<Rightarrow> engine \<Rightarrow> engine" where
  "engine_run env [] e = e"
| "engine_run env (op # ops) e = engine_run env ops (snd (engine_exec env op e))"

text \<open>What an operation writes, and the specification.\<close>

primrec op_batch :: "engine_op \<Rightarrow> versions" where
  "op_batch (E_Put k v t coin) = batch_map [(k, v)] t"
| "op_batch (E_Put_Batch kvs t coins) = batch_map kvs t"
| "op_batch (E_Remove k t coin) = batch_map [(k, [])] t"
| "op_batch (E_Remove_Batch ks t coins) = batch_map (map (\<lambda>k. (k, [])) ks) t"
| "op_batch E_Flush = Map.empty"
| "op_batch E_Clear = Map.empty"
| "op_batch (E_Get k t rc) = Map.empty"
| "op_batch (E_Get_Batch ks t) = Map.empty"
| "op_batch (E_Manager man) = Map.empty"

definition engine_write :: "versions \<Rightarrow> engine_op \<Rightarrow> versions" where
  "engine_write w op = (if op = E_Clear then Map.empty else w ++ op_batch op)"

primrec engine_writes :: "engine_op list \<Rightarrow> versions \<Rightarrow> versions" where
  "engine_writes [] w = w"
| "engine_writes (op # ops) w = engine_writes ops (engine_write w op)"

text \<open>A version is written by one operation only; lookups are for user keys.\<close>

definition op_fits :: "versions \<Rightarrow> engine_op \<Rightarrow> bool" where
  "op_fits w op \<longleftrightarrow> dom (op_batch op) \<inter> dom w = {} \<and>
     (case op of E_Get k t rc \<Rightarrow> k \<noteq> [] | E_Get_Batch ks t \<Rightarrow> [] \<notin> set ks | _ \<Rightarrow> True)"

primrec ops_fit :: "versions \<Rightarrow> engine_op list \<Rightarrow> bool" where
  "ops_fit w [] = True"
| "ops_fit w (op # ops) \<longleftrightarrow> op_fits w op \<and> ops_fit (engine_write w op) ops"

lemma outcome_discard: "outcome Q (m e) \<Longrightarrow> outcome Q (cbind m (\<lambda>_. cret ()) e)"
  by (auto simp: outcome_def cbind_def cret_def split: prod.splits sum.splits)

lemma clear_shows:
  assumes "engine_shows env w e"
  shows "engine_shows env Map.empty (snd (engine_clear e))"
proof -
  obtain P where P: "engine_ok env P e" using assms unfolding engine_shows_def by blast
  have ok: "mem_ok (e_memtable e)" using P by (simp add: engine_ok_def)
  define m where "m = memtable_clear (e_memtable e)"
  have m: "mem_ok m" "mem_map m = Map.empty" using memtable_clear_step [OF ok] by (simp_all add: m_def)
  have c: "current_table m = skiplist_clear (current_table (e_memtable e))" "frozen_tables m = []"
    by (simp_all add: m_def memtable_clear_def)
  have "sl_abs (skiplist_clear (current_table (e_memtable e))) []"
    using ok skiplist_clear_abs unfolding mem_ok_def mem_tables_def table_ok_def by auto
  then have r: "mem_records m = []" by (simp add: mem_records_def mem_tables_def c table_entries_abs)
  have K: "store_holds (blocks_of P) (e_store e)" "\<forall>i \<ge> e_next_sst_id e. P i = []"
    using P unfolding engine_ok_def by blast+
  define e' where "e' = snd (engine_clear e)"
  have e': "e_store e' = e_store e" "e_memtable e' = m" "e_levels e' = []" "e_next_sst_id e' = e_next_sst_id e"
    by (simp_all add: e'_def engine_clear_def emod_def m_def)
  have recs: "engine_records P e' = []" by (simp add: engine_records_def e' r all_ids_def ids_records_def)
  have "tables_shown (env_hash env) (blocks_of P) (e_ssts e') P []" "levels_ok P []"
    by (simp_all add: tables_shown_def levels_ok_def)
  then have "engine_ok env P e'"
    unfolding engine_ok_def recs e' using K m(1) by (simp add: all_ids_def)
  then show ?thesis
    unfolding engine_shows_def e'_def [symmetric]
    by (intro conjI exI [of _ P]) (simp_all add: recs graph_of_def l0_length_def e' level_ids_def)
qed

lemma exec_outcome:
  assumes "env_ok env" "engine_shows env w e" "op_fits w op"
  shows "outcome (engine_shows env (engine_write w op)) (engine_exec env op e)"
proof -
  obtain P where P: "engine_ok env P e" "set (engine_records P e) = graph_of w"
    using assms(2) unfolding engine_shows_def by blast
  have l0: "l0_length e \<le> env_ratio env" using assms(2) by (simp add: engine_shows_def)
  have store: "engine_shows env w (e\<lparr>e_store := st\<rparr>)" if "store_holds (blocks_of P) st" for st
    using engine_ok_store [OF P(1) that] P(2) l0 unfolding engine_shows_def l0_length_def by auto
  have batch: "outcome (engine_shows env (w ++ batch_map kvs t)) (cbind (engine_put_batch env kvs t coins) (\<lambda>_. cret ()) e)"
    if "dom (batch_map kvs t) \<inter> dom w = {}" for kvs t coins
    by (rule outcome_discard [where m = "engine_put_batch env kvs t coins", OF put_batch_outcome [OF assms(1,2) that]])
  show ?thesis
  proof (cases op)
    case E_Clear
    then show ?thesis using clear_shows [OF assms(2)] by (simp add: engine_write_def outcome_def engine_clear_def emod_def)
  next
    case (E_Manager man)
    have "engine_shows env w (e\<lparr>e_tran_manager := man\<rparr>)"
      using P l0 unfolding engine_shows_def engine_ok_def engine_records_def l0_length_def
      by (intro conjI exI [of _ P]) simp_all
    with E_Manager show ?thesis by (simp add: engine_write_def outcome_def engine_set_tran_manager_def emod_def)
  next
    case (E_Get k t rc)
    show ?thesis
    proof (cases "e_tran_manager e")
      case None
      with E_Get assms(2) show ?thesis
        by (simp add: outcome_def engine_write_def engine_get_def cbind_def eget_def cthrow_def)
    next
      case (Some man)
      have "k \<noteq> []" using assms(3) E_Get by (simp add: op_fits_def)
      from engine_get_spec [OF P(1) this Some, of t rc] obtain r st where
        "engine_get env k t rc e = (Inr (visible r), e\<lparr>e_store := st\<rparr>)" "store_holds (blocks_of P) st" by blast
      with store E_Get show ?thesis by (simp add: outcome_def engine_write_def cbind_def cret_def)
    qed
  next
    case (E_Get_Batch ks t)
    show ?thesis
    proof (cases "e_tran_manager e")
      case None
      with E_Get_Batch assms(2) show ?thesis
        by (simp add: outcome_def engine_write_def engine_get_batch_def cbind_def eget_def cthrow_def)
    next
      case (Some man)
      have "\<forall>k \<in> set ks. k \<noteq> []" using assms(3) E_Get_Batch by (auto simp: op_fits_def)
      from engine_get_batch_spec [OF P(1) this Some, of t] obtain r st where
        "engine_get_batch env ks t e = (Inr r, e\<lparr>e_store := st\<rparr>)" "store_holds (blocks_of P) st" by blast
      with store E_Get_Batch show ?thesis by (simp add: outcome_def engine_write_def cbind_def cret_def)
    qed
  next
    case E_Flush
    with outcome_discard [where m = "engine_flush env", OF flush_outcome [OF assms(1,2)]]
    show ?thesis by (simp add: engine_write_def)
  qed (use assms(3) batch in \<open>simp_all add: engine_write_def op_fits_def writes_are_batches\<close>)
qed

lemma run_shows:
  assumes "env_ok env"
  shows "engine_shows env w e \<Longrightarrow> ops_fit w ops \<Longrightarrow> engine_shows env (engine_writes ops w) (engine_run env ops e)"
proof (induction ops arbitrary: w e)
  case (Cons op ops)
  have "engine_shows env (engine_write w op) (snd (engine_exec env op e))"
    using exec_outcome [OF assms, of w e op] Cons.prems by (simp add: outcome_def)
  with Cons show ?case by simp
qed simp

lemma engine_new_shows:
  assumes "1 \<le> cache_k"
  shows "engine_shows env Map.empty (engine_new capacity cache_k)"
proof -
  define e where "e = engine_new capacity cache_k"
  have e: "e_memtable e = memtable_new" "e_store e = store_new capacity cache_k" "e_levels e = []"
    by (simp_all add: e_def engine_new_def)
  have r: "mem_records memtable_new = []"
    by (simp add: mem_records_def mem_tables_def memtable_new_def table_entries_abs [OF table_new_ok])
  have recs: "engine_records (\<lambda>_. []) e = []" by (simp add: engine_records_def e r all_ids_def ids_records_def)
  have "tables_shown (env_hash env) (blocks_of (\<lambda>_. [])) (e_ssts e) (\<lambda>_. []) []" "levels_ok (\<lambda>_. []) []"
    by (simp_all add: tables_shown_def levels_ok_def)
  then have "engine_ok env (\<lambda>_. []) e"
    unfolding engine_ok_def recs e using store_new_holds [OF assms] by (simp add: memtable_new_ok all_ids_def)
  then show ?thesis
    unfolding engine_shows_def e_def [symmetric]
    by (intro conjI exI [of _ "\<lambda>_. []"]) (simp_all add: recs graph_of_def l0_length_def e level_ids_def)
qed

section \<open>Properties\<close>

lemma history_shows:
  "env_ok env \<Longrightarrow> 1 \<le> cache_k \<Longrightarrow> ops_fit Map.empty ops \<Longrightarrow>
   engine_shows env (engine_writes ops Map.empty) (engine_run env ops (engine_new capacity cache_k))"
  by (rule run_shows [OF _ engine_new_shows])

text \<open>C1: after any history of engine operations (writes, deletions, batches, flushes with the
  compactions they start, clears, reads, changes of the manager), with any failures of file
  writes in between, a read returns the newest readable record of the map from (key, version) to
  value that the writes built: nothing is lost, revived or reordered by freezing, flushing,
  caching or compacting. Without a manager the read throws. Versions are written once.\<close>

theorem engine_history:
  assumes "env_ok env" "1 \<le> cache_k" "ops_fit Map.empty ops" "k \<noteq> []"
    and e: "e = engine_run env ops (engine_new capacity cache_k)"
  shows "case e_tran_manager e of
      None \<Rightarrow> engine_get env k t rc e = (Inl Runtime_Error, e)
    | Some m \<Rightarrow> \<exists>r e'. engine_get env k t rc e = (Inr (visible r), e') \<and>
        newest (graph_of (engine_writes ops Map.empty)) k t (Some (\<lambda>tid. tm_should_skip_read m tid rc)) r"
proof (cases "e_tran_manager e")
  case None
  then show ?thesis by (simp add: engine_get_def cbind_def eget_def cthrow_def)
next
  case (Some m)
  obtain P where "engine_ok env P e" "set (engine_records P e) = graph_of (engine_writes ops Map.empty)"
    using history_shows [OF assms(1-3), of capacity] unfolding e engine_shows_def by blast
  with engine_get_spec [OF _ assms(4) Some] Some show ?thesis by fastforce
qed

definition sample_env :: engine_env where
  "sample_env = \<lparr>env_hash = (\<lambda>_. 0), env_io = (\<lambda>sid f. sid < 2 ^ 31 \<and> length f < 2 ^ 32), env_tol_mem = 0,
     env_per_mem = 64, env_ratio = 2, env_block_size = 4096, env_bloom = (16, 5, Some (160, 7)), env_wisckey = 0\<rparr>"

definition sample_ops :: "engine_op list" where
  "sample_ops = [E_Put [1] [2] 3 (\<lambda>_. False), E_Put_Batch [([1], [4]), ([7], [8])] 5 (\<lambda>_ _. True), E_Flush,
     E_Remove [7] 6 (\<lambda>_. False), E_Manager (Some sample_manager)]"

lemma sample_ok: "env_ok sample_env"
  by (simp add: env_ok_def sample_env_def)

lemma sample_fits: "ops_fit Map.empty sample_ops"
  by (simp add: sample_ops_def op_fits_def engine_write_def dom_batch_map)

lemma sample_run_manager: "e_tran_manager (engine_run env sample_ops e) = Some sample_manager"
  by (simp add: sample_ops_def engine_set_tran_manager_def emod_def)

text \<open>Every write flushes: the read below version 4 comes from an SST.\<close>

theorem engine_history_witness:
  "fst (engine_get sample_env [1] 4 True (engine_run sample_env sample_ops (engine_new 2 1))) = Inr (Some ([2], 3))"
proof -
  let ?e = "engine_run sample_env sample_ops (engine_new 2 1)"
  obtain r e' where r: "engine_get sample_env [1] 4 True ?e = (Inr (visible r), e')"
    "newest (graph_of (engine_writes sample_ops Map.empty)) [1] 4
      (Some (\<lambda>tid. tm_should_skip_read sample_manager tid True)) r"
    using engine_history [where k = "[1]" and t = 4 and rc = True,
        OF sample_ok order.refl sample_fits _ refl [of ?e]] by (auto simp: sample_run_manager)
  have "r = Some ([2], 3)"
    using r(2) by (auto simp: newest_def candidates_def graph_of_def sample_ops_def engine_write_def batch_map_def
        sample_manager_def tm_should_skip_read_def readable_def split: option.splits if_splits)
  with r(1) show ?thesis by (simp add: visible_def)
qed

text \<open>C17: level 0 never holds more SSTs than the level ratio, after any history and any failed
  writes: a flush into a full level compacts first, and gives up when the compaction fails.\<close>

theorem engine_l0_bounded:
  assumes "env_ok env" "1 \<le> cache_k" "ops_fit Map.empty ops"
  shows "length (level_ids (e_levels (engine_run env ops (engine_new capacity cache_k))) 0) \<le> env_ratio env"
  using history_shows [OF assms] by (simp add: engine_shows_def l0_length_def)

theorem engine_l0_bounded_witness:
  "length (level_ids (e_levels (engine_run sample_env sample_ops (engine_new 2 1))) 0) \<le> 2"
  using engine_l0_bounded [OF sample_ok order.refl sample_fits, of 2] by (simp add: sample_env_def)

end
