(* ===== verification/Lsm.thy ===== *)
theory Lsm
  imports Engine_History
begin

text \<open>
  The class LSM of src/src/lsm/engine.cpp: the engine with a transaction manager that gives every
  call its id, and the loop that flushes all memory tables. The constructor binds neither the
  manager to the engine nor the engine to the manager (a TODO in the code), so both stay apart.
\<close>

section \<open>Flushing until the memory is small\<close>

text \<open>The loop of \<open>LSM::flush_all\<close> (limit 0) and the one at the end of
  \<open>TranContext::commit\<close>. Every successful flush takes one memory table, so their
  number is enough fuel.\<close>

primrec flush_while :: "nat \<Rightarrow> engine_env \<Rightarrow> u64 \<Rightarrow> unit eio" where
  "flush_while 0 env limit = cthrow Diverges"
| "flush_while (Suc n) env limit =
     cbind (eget (\<lambda>e. memtable_get_total_size (e_memtable e))) (\<lambda>total.
       if total = 0 \<or> total < limit then cret ()
       else cbind (engine_flush env) (\<lambda>_. flush_while n env limit))"

definition flush_fuel :: "engine \<Rightarrow> nat" where
  "flush_fuel e = Suc (length (mem_tables (e_memtable e)))"

definition flush_all :: "engine_env \<Rightarrow> unit eio" where
  "flush_all env = cbind (eget flush_fuel) (\<lambda>n. flush_while n env 0)"

section \<open>The class LSM\<close>

record lsm =
  lsm_engine :: engine
  lsm_manager :: tran_manager

type_synonym 'a lio = "(lsm, 'a) sio"

definition lengine :: "'a eio \<Rightarrow> 'a lio" where
  "lengine m s = (case m (lsm_engine s) of (r, e) \<Rightarrow> (r, s\<lparr>lsm_engine := e\<rparr>))"

definition with_next_id :: "(u64 \<Rightarrow> 'a eio) \<Rightarrow> 'a lio" where
  "with_next_id f s = (case tm_get_next_transaction_id (lsm_manager s) of
      (tid, m) \<Rightarrow> lengine (f tid) (s\<lparr>lsm_manager := m\<rparr>))"

definition lsm_new :: "engine \<Rightarrow> tran_manager \<Rightarrow> lsm" where
  "lsm_new e m = \<lparr>lsm_engine = e, lsm_manager = m\<rparr>"

definition lsm_get :: "engine_env \<Rightarrow> bytes \<Rightarrow> bytes option lio" where
  "lsm_get env k = cbind (with_next_id (\<lambda>tid. engine_get env k tid False)) (\<lambda>r. cret (map_option fst r))"

definition lsm_get_batch :: "engine_env \<Rightarrow> bytes list \<Rightarrow> (bytes \<times> bytes option) list lio" where
  "lsm_get_batch env ks =
     cbind (with_next_id (\<lambda>tid. engine_get_batch env ks tid)) (\<lambda>rs.
       cret (map (\<lambda>(k, r). (k, map_option fst r)) rs))"

definition lsm_put :: "engine_env \<Rightarrow> bytes \<Rightarrow> bytes \<Rightarrow> (nat \<Rightarrow> bool) \<Rightarrow> unit lio" where
  "lsm_put env k v coin = cbind (with_next_id (\<lambda>tid. engine_put env k v tid coin)) (\<lambda>_. cret ())"

definition lsm_put_batch :: "engine_env \<Rightarrow> (bytes \<times> bytes) list \<Rightarrow> (nat \<Rightarrow> nat \<Rightarrow> bool) \<Rightarrow> unit lio" where
  "lsm_put_batch env kvs coins = cbind (with_next_id (\<lambda>tid. engine_put_batch env kvs tid coins)) (\<lambda>_. cret ())"

definition lsm_remove :: "engine_env \<Rightarrow> bytes \<Rightarrow> (nat \<Rightarrow> bool) \<Rightarrow> unit lio" where
  "lsm_remove env k coin = cbind (with_next_id (\<lambda>tid. engine_remove env k tid coin)) (\<lambda>_. cret ())"

definition lsm_remove_batch :: "engine_env \<Rightarrow> bytes list \<Rightarrow> (nat \<Rightarrow> nat \<Rightarrow> bool) \<Rightarrow> unit lio" where
  "lsm_remove_batch env ks coins = cbind (with_next_id (\<lambda>tid. engine_remove_batch env ks tid coins)) (\<lambda>_. cret ())"

definition lsm_clear :: "unit lio" where
  "lsm_clear = lengine engine_clear"

definition lsm_flush :: "engine_env \<Rightarrow> unit lio" where
  "lsm_flush env = cbind (lengine (engine_flush env)) (\<lambda>_. cret ())"

definition lsm_flush_all :: "engine_env \<Rightarrow> unit lio" where
  "lsm_flush_all env = lengine (flush_all env)"

text \<open>The destructor; an exception in it ends the program.\<close>

definition lsm_close :: "engine_env \<Rightarrow> bool \<Rightarrow> unit lio" where
  "lsm_close env io_ok =
     cbind (lsm_flush_all env) (\<lambda>_ s. case tm_write_tranc_id_file io_ok (lsm_manager s) of
         Inl err \<Rightarrow> (Inl err, s) | Inr m \<Rightarrow> (Inr (), s\<lparr>lsm_manager := m\<rparr>))"

text \<open>An engine that was never given a manager refuses every read.\<close>

lemma lsm_get_throws:
  "e_tran_manager (lsm_engine s) = None \<Longrightarrow> fst (lsm_get env k s) = Inl Runtime_Error"
  by (simp add: lsm_get_def with_next_id_def lengine_def engine_get_def cbind_def eget_def cthrow_def
      split: prod.split)

section \<open>The loop\<close>

lemma total_size_records:
  assumes "mem_ok m"
  shows "memtable_get_total_size m = of_nat (total_size (mem_records m))"
proof -
  have one: "skiplist_get_size t = of_nat (total_size (table_entries t))" if "table_ok t" for t
    using sl_abs_size [OF table_okD [OF that]] by (simp add: skiplist_get_size_def)
  have many: "sum_list (map skiplist_get_size ts) = of_nat (total_size (concat (map table_entries ts)))"
    if "\<forall>t \<in> set ts. table_ok t" for ts
    using that by (induction ts) (simp_all add: one)
  from assms show ?thesis
    using one [of "current_table m"] many [of "frozen_tables m"]
    by (simp add: memtable_get_total_size_def mem_ok_def mem_records_def mem_tables_def)
qed

lemma total_size_positive: "es \<noteq> [] \<Longrightarrow> 0 < total_size es"
  by (cases es) (simp_all add: entry_size_def)

text \<open>Some of the oldest tables have become SSTs, and the manager has learned their commit marks,
  oldest table first.\<close>

definition notify_tables :: "entry list list \<Rightarrow> tran_manager \<Rightarrow> tran_manager" where
  "notify_tables ess m = fold (\<lambda>tid m. tm_add_flushed_tranc_id m tid) (concat (map commit_marks (rev ess))) m"

lemma notify_tables_Nil [simp]: "map_option (notify_tables []) x = x"
  by (cases x) (simp_all add: notify_tables_def)

lemma notify_tables_single: "notify_tables [es] = fold (\<lambda>tid m. tm_add_flushed_tranc_id m tid) (commit_marks es)"
  by (simp add: notify_tables_def fun_eq_iff)

definition tables_flushed :: "engine_env \<Rightarrow> entry multiset \<Rightarrow> engine \<Rightarrow> engine \<Rightarrow> bool" where
  "tables_flushed env R e0 e \<longleftrightarrow> engine_has env R e \<and>
     (l0_length e0 \<le> env_ratio env \<longrightarrow> l0_length e \<le> env_ratio env) \<and>
     (\<exists>ess. mem_layers (e_memtable e0) = mem_layers (e_memtable e) @ ess \<and>
        e_tran_manager e = map_option (notify_tables ess) (e_tran_manager e0))"

lemma tables_flushed_refl: "engine_has env R e \<Longrightarrow> tables_flushed env R e e"
  by (simp add: tables_flushed_def)

lemma tables_flushed_trans:
  assumes "tables_flushed env R e0 e1" "tables_flushed env R e1 e2"
  shows "tables_flushed env R e0 e2"
proof -
  obtain xs where x: "mem_layers (e_memtable e0) = mem_layers (e_memtable e1) @ xs"
    "e_tran_manager e1 = map_option (notify_tables xs) (e_tran_manager e0)"
    using assms(1) unfolding tables_flushed_def by blast
  obtain ys where y: "mem_layers (e_memtable e1) = mem_layers (e_memtable e2) @ ys"
    "e_tran_manager e2 = map_option (notify_tables ys) (e_tran_manager e1)"
    using assms(2) unfolding tables_flushed_def by blast
  have "notify_tables (ys @ xs) = notify_tables ys \<circ> notify_tables xs"
    by (simp add: notify_tables_def fun_eq_iff)
  with x y have "mem_layers (e_memtable e0) = mem_layers (e_memtable e2) @ ys @ xs"
    "e_tran_manager e2 = map_option (notify_tables (ys @ xs)) (e_tran_manager e0)"
    by (simp_all add: option.map_comp)
  with assms show ?thesis unfolding tables_flushed_def by blast
qed

lemma flushed_tables_flushed:
  "unflushed env R e0 e \<Longrightarrow> tables_flushed env R e0 e"
  "oldest_flushed env R e0 e \<Longrightarrow> l0_length e \<le> env_ratio env \<Longrightarrow> tables_flushed env R e0 e"
proof -
  assume "unflushed env R e0 e"
  then show "tables_flushed env R e0 e"
    unfolding unflushed_def tables_flushed_def
    by (intro conjI exI [of _ "[]"]) auto
next
  assume "oldest_flushed env R e0 e" "l0_length e \<le> env_ratio env"
  then show "tables_flushed env R e0 e"
    by (auto simp: oldest_flushed_def tables_flushed_def notify_tables_single)
qed

lemma flush_while_spec:
  assumes "env_ok env" "engine_has env R e0" "length (mem_layers (e_memtable e0)) < n"
  shows "triple (\<lambda>e. e = e0) (flush_while n env limit)
    (\<lambda>_ e. tables_flushed env R e0 e \<and>
       (memtable_get_total_size (e_memtable e) = 0 \<or> memtable_get_total_size (e_memtable e) < limit))
    (tables_flushed env R e0)"
  using assms(2,3)
proof (induction n arbitrary: e0)
  case (Suc n)
  let ?total = "memtable_get_total_size (e_memtable e0)"
  let ?Q = "\<lambda>_ e. tables_flushed env R e0 e \<and>
       (memtable_get_total_size (e_memtable e) = 0 \<or> memtable_get_total_size (e_memtable e) < limit)"
  have here: "tables_flushed env R e0 e0" by (rule tables_flushed_refl [OF Suc.prems(1)])
  show ?case
  proof (cases "?total = 0 \<or> ?total < limit")
    case True
    with here show ?thesis by (simp add: triple_def cbind_def eget_def cret_def)
  next
    case False
    let ?step = "\<lambda>e. oldest_flushed env R e0 e \<and> l0_length e \<le> env_ratio env"
    have flush: "triple (\<lambda>e. e = e0) (engine_flush env) (\<lambda>_. ?step) (tables_flushed env R e0)"
      by (rule triple_weaken [OF engine_flush_spec [OF assms(1) Suc.prems(1)]])
        (use False flushed_tables_flushed(1) in auto)
    have rest: "triple ?step (flush_while n env limit) ?Q (tables_flushed env R e0)"
    proof (rule triple_here)
      fix e
      assume e: "?step e"
      then have f: "tables_flushed env R e0 e" using flushed_tables_flushed(2) by blast
      have h: "engine_has env R e" and less: "length (mem_layers (e_memtable e)) < n"
        using e Suc.prems(2) by (auto simp: oldest_flushed_def)
      show "triple (\<lambda>e'. e' = e) (flush_while n env limit) ?Q (tables_flushed env R e0)"
        by (rule triple_weaken [OF Suc.IH [OF h less]]) (use tables_flushed_trans [OF f] in auto)
    qed
    have "triple (\<lambda>e. e = e0) (cbind (engine_flush env) (\<lambda>_. flush_while n env limit)) ?Q (tables_flushed env R e0)"
      by (rule triple_bind [OF flush rest])
    then show ?thesis
      unfolding flush_while.simps by (intro triple_eget_at) (use False in auto)
  qed
qed simp

lemma flush_fuel_enough: "length (mem_layers (e_memtable e)) < flush_fuel e"
  by (simp add: mem_layers_def flush_fuel_def le_imp_less_Suc)

text \<open>What a loop leaves of the records, the flushed tables and the ghost map.\<close>

lemma tables_flushed_shows:
  assumes "tables_flushed env R e0 e" "set_mset R = graph_of w" "l0_length e0 \<le> env_ratio env"
  shows "engine_shows env w e"
  using assms engine_has_shows [OF _ assms(2)] by (simp add: tables_flushed_def)

section \<open>Properties\<close>

text \<open>C15: \<open>LSM::flush_all\<close> ends after any history: with an exception that the program throws, or
  with every memory table written to an SST and every commit mark of the memory reported to the
  manager, oldest table first. In both cases no record is lost. The sizes are 64-bit sums, so the
  memory has to hold less than 2 ^ 64 bytes.\<close>

theorem flush_all_empties:
  assumes "env_ok env" "1 \<le> cache_k" "ops_fit Map.empty ops"
    and e: "e = engine_run env ops (engine_new capacity cache_k)"
    and small: "total_size (mem_records (e_memtable e)) < 2 ^ 64"
  shows "case flush_all env e of
      (Inl err, e') \<Rightarrow> err \<noteq> Diverges \<and> err \<noteq> Undefined \<and> engine_shows env (engine_writes ops Map.empty) e'
    | (Inr _, e') \<Rightarrow> engine_shows env (engine_writes ops Map.empty) e' \<and> mem_records (e_memtable e') = [] \<and>
        e_tran_manager e' = map_option (notify_tables (mem_layers (e_memtable e))) (e_tran_manager e)"
proof -
  let ?w = "engine_writes ops Map.empty"
  have shows_e: "engine_shows env ?w e" unfolding e by (rule history_shows [OF assms(1-3)])
  then have l0: "l0_length e \<le> env_ratio env" by (simp add: engine_shows_def)
  obtain R where R: "engine_has env R e" "set_mset R = graph_of ?w" by (rule engine_shows_has [OF shows_e])
  note shown = tables_flushed_shows [OF _ R(2) l0]
  have empty: "mem_records (e_memtable e') = [] \<and> mem_layers (e_memtable e') = []"
    if f: "tables_flushed env R e e'" and z: "memtable_get_total_size (e_memtable e') = 0" for e'
  proof -
    have "mem_ok (e_memtable e')"
      using f unfolding tables_flushed_def by (auto simp: engine_ok_def elim: engine_hasE)
    with z have "(of_nat (total_size (mem_records (e_memtable e'))) :: u64) = 0" by (simp add: total_size_records)
    moreover obtain ess where ess: "mem_layers (e_memtable e) = mem_layers (e_memtable e') @ ess"
      using f unfolding tables_flushed_def by blast
    have "mem_records (e_memtable e) = mem_records (e_memtable e') @ concat ess"
      using arg_cong [OF ess, of concat] by (simp add: mem_layers_records)
    with small have "total_size (mem_records (e_memtable e')) < 2 ^ 64" by simp
    ultimately have "total_size (mem_records (e_memtable e')) = 0" using unat_count by (metis unsigned_0)
    then have "mem_records (e_memtable e') = []" using total_size_positive by (metis less_irrefl)
    moreover from this have "mem_layers (e_memtable e') = []"
      unfolding mem_layers_records [symmetric] by (auto simp: mem_layers_def)
    ultimately show ?thesis by blast
  qed
  have T: "triple (\<lambda>e'. e' = e) (flush_all env)
      (\<lambda>_ e'. tables_flushed env R e e' \<and> memtable_get_total_size (e_memtable e') = 0) (tables_flushed env R e)"
    unfolding flush_all_def
    by (rule triple_eget_at) (rule triple_weaken [OF flush_while_spec [OF assms(1) R(1) flush_fuel_enough]], simp_all)
  obtain r e' where run: "flush_all env e = (r, e')" by fastforce
  show ?thesis
  proof (cases r)
    case (Inl err)
    with triple_run [OF T refl] run shown show ?thesis by (simp add: thrown_def)
  next
    case (Inr u)
    with triple_run [OF T refl] run have f: "tables_flushed env R e e'" "memtable_get_total_size (e_memtable e') = 0"
      by simp_all
    obtain ess where ess: "mem_layers (e_memtable e) = mem_layers (e_memtable e') @ ess"
      "e_tran_manager e' = map_option (notify_tables ess) (e_tran_manager e)"
      using f(1) unfolding tables_flushed_def by blast
    with empty [OF f] shown [OF f(1)] run Inr show ?thesis by simp
  qed
qed

lemma total_size_bound:
  "distinct es \<Longrightarrow> set es \<subseteq> F \<Longrightarrow> finite F \<Longrightarrow> total_size es \<le> sum entry_size F"
  unfolding total_size_def by (subst sum_list_distinct_conv_sum_set) (auto intro: sum_mono2)

lemma shows_mem_size:
  assumes "engine_shows env w e" "graph_of w \<subseteq> F" "finite F"
  shows "total_size (mem_records (e_memtable e)) \<le> sum entry_size F"
proof -
  obtain P where "engine_ok env P e" "set (engine_records P e) = graph_of w"
    using assms(1) unfolding engine_shows_def by blast
  then have "distinct (mem_records (e_memtable e))" "set (mem_records (e_memtable e)) \<subseteq> graph_of w"
    by (auto simp: engine_ok_def engine_records_def distinct_map)
  with assms(2,3) show ?thesis by (intro total_size_bound) auto
qed

text \<open>A memory limit that one put does not reach.\<close>

definition roomy_env :: engine_env where
  "roomy_env = sample_env\<lparr>env_tol_mem := 4096, env_per_mem := 0\<rparr>"

definition unflushed_ops :: "engine_op list" where
  "unflushed_ops = [E_Manager (Some sample_manager), E_Put [1] [2] 3 (\<lambda>_. False)]"

lemma unflushed_memory:
  "mem_records (e_memtable (engine_run roomy_env unflushed_ops (engine_new 2 1))) = [([1], [2], 3)]"
proof -
  obtain m t where m: "memtable_put 0 memtable_new [1] [2] 3 (\<lambda>_. False) = Inr m" "mem_ok m"
    "frozen_tables m = [t]" "table_entries t = [([1], [2], 3)]" "table_entries (current_table m) = []"
    using memtable_one_put by blast
  have r: "mem_records m = [([1], [2], 3)]" by (simp add: mem_records_def mem_tables_def m)
  have "memtable_get_total_size m = of_nat (entry_size ([1], [2], 3))"
    using total_size_records [OF m(2)] by (simp add: r total_size_def)
  then have "memtable_get_total_size m < 4096" by (simp add: entry_size_def)
  then show ?thesis
    by (simp add: unflushed_ops_def roomy_env_def engine_set_tran_manager_def emod_def engine_put_def ememtable_def
        flush_if_full_def cbind_def eget_def cret_def engine_new_def m(1) r linorder_not_le [symmetric])
qed

theorem flush_all_empties_witness:
  "mem_records (e_memtable (engine_run roomy_env unflushed_ops (engine_new 2 1))) = [([1], [2], 3)] \<and>
    (case flush_all roomy_env (engine_run roomy_env unflushed_ops (engine_new 2 1)) of
      (Inl err, e') \<Rightarrow> err \<noteq> Diverges | (Inr _, e') \<Rightarrow> mem_records (e_memtable e') = [])"
proof -
  have ok: "env_ok roomy_env" using sample_ok by (simp add: env_ok_def roomy_env_def)
  have fits: "ops_fit Map.empty unflushed_ops" by (simp add: unflushed_ops_def op_fits_def engine_write_def)
  have "total_size (mem_records (e_memtable (engine_run roomy_env unflushed_ops (engine_new 2 1)))) < 2 ^ 64"
    unfolding unflushed_memory by (simp add: total_size_def entry_size_def)
  from flush_all_empties [OF ok order.refl fits refl this] show ?thesis
    unfolding unflushed_memory by (auto split: prod.splits sum.splits)
qed

end
