(* ===== verification/Tran_Context.thy ===== *)
theory Tran_Context
  imports Lsm Wal
begin

text \<open>
  Transaction contexts (class TranContext of src/src/lsm/transation.cpp): buffered or immediate
  writes, reads by isolation level, the commit with its conflict checks and its log, and the
  rollback. A context works on the engine, on the manager that the engine is bound to, and on the
  write-ahead log of this manager. \<open>commit\<close> holds the locks of the engine from its checks to
  its last write; it releases them before the loop that flushes a full memory, which the model keeps
  in the same step. Every other call is one step too.
\<close>

section \<open>State\<close>

datatype isolation_level = READ_UNOP_COMMITTED | READ_OP_COMMITTED | REPEATABLE_READ | SERIALIZABLE

text \<open>The unordered maps of the code are association lists; a loop over one visits its entries in
  the order of the list, which stands for any order.\<close>

record tran_context =
  tc_tranc_id :: u64
  tc_isolation_level :: isolation_level
  tc_operations :: "wal_record list"
  tc_wal_written_count :: nat
  tc_temp_map :: "(bytes \<times> bytes) list"
  tc_read_map :: "(bytes \<times> (bytes \<times> u64) option) list"
  tc_is_commited :: bool
  tc_is_aborted :: bool

record tran_state =
  ts_engine :: engine
  ts_wal :: "wal option"
  ts_ctx :: tran_context

type_synonym 'a tio = "(tran_state, 'a) sio"

definition tget :: "(tran_state \<Rightarrow> 'a) \<Rightarrow> 'a tio" where
  "tget f s = (Inr (f s), s)"

definition tmod :: "(tran_context \<Rightarrow> tran_context) \<Rightarrow> unit tio" where
  "tmod f s = (Inr (), s\<lparr>ts_ctx := f (ts_ctx s)\<rparr>)"

definition tengine :: "'a eio \<Rightarrow> 'a tio" where
  "tengine m s = (case m (ts_engine s) of (r, e) \<Rightarrow> (r, s\<lparr>ts_engine := e\<rparr>))"

definition tmanager :: "(tran_manager \<Rightarrow> tran_manager) \<Rightarrow> unit tio" where
  "tmanager f = tengine (emod (\<lambda>e. e\<lparr>e_tran_manager := map_option f (e_tran_manager e)\<rparr>))"

text \<open>\<open>tranManager_.lock()\<close>, with the exception when the manager is gone.\<close>

definition lock_manager :: "tran_manager tio" where
  "lock_manager = cbind (tget (\<lambda>s. e_tran_manager (ts_engine s))) (\<lambda>man. case man of
      None \<Rightarrow> cthrow Logic_Error | Some m \<Rightarrow> cret m)"

definition tran_context_new :: "u64 \<Rightarrow> isolation_level \<Rightarrow> tran_context" where
  "tran_context_new tid level =
     \<lparr>tc_tranc_id = tid, tc_isolation_level = level, tc_operations = [createRecord tid],
      tc_wal_written_count = 0, tc_temp_map = [], tc_read_map = [], tc_is_commited = False, tc_is_aborted = False\<rparr>"

definition tran_finished :: "tran_context \<Rightarrow> bool" where
  "tran_finished c \<longleftrightarrow> tc_is_commited c \<or> tc_is_aborted c"

definition write_immediately :: "tran_context \<Rightarrow> bool" where
  "write_immediately c \<longleftrightarrow> tc_isolation_level c = READ_UNOP_COMMITTED"

definition ends_tran :: "wal_record \<Rightarrow> bool" where
  "ends_tran r \<longleftrightarrow> wr_operation_type r = OP_COMMIT \<or> wr_operation_type r = OP_ROLLBACK"

section \<open>Writing the log\<close>

definition tran_write_to_wal :: "wal_io \<Rightarrow> wal_record list \<Rightarrow> bool tio" where
  "tran_write_to_wal io records s =
     (case write_to_wal io (ts_wal s) records of (ok, w) \<Rightarrow> (Inr ok, s\<lparr>ts_wal := w\<rparr>))"

definition persist_pending_wal :: "wal_io \<Rightarrow> unit tio" where
  "persist_pending_wal io =
     cbind (tget ts_ctx) (\<lambda>c.
       let record_count = length (tc_operations c); written = tc_wal_written_count c
       in if record_count < written then cthrow Logic_Error
          else if written = record_count then cret ()
          else
            cbind lock_manager (\<lambda>_.
            cbind (tran_write_to_wal io
                (if written = 0 then tc_operations c else drop written (tc_operations c))) (\<lambda>success.
              if \<not> success then cthrow Runtime_Error
              else tmod (\<lambda>c. c\<lparr>tc_wal_written_count := record_count\<rparr>))))"

section \<open>Writes and reads\<close>

definition add_operation :: "wal_record \<Rightarrow> tran_context \<Rightarrow> tran_context" where
  "add_operation r c = c\<lparr>tc_operations := tc_operations c @ [r]\<rparr>"

definition buffer_write :: "bytes \<Rightarrow> bytes \<Rightarrow> tran_context \<Rightarrow> tran_context" where
  "buffer_write k v c = c\<lparr>tc_temp_map := AList.update k v (tc_temp_map c)\<rparr>"

definition tran_put :: "engine_env \<Rightarrow> wal_io \<Rightarrow> bytes \<Rightarrow> bytes \<Rightarrow> (nat \<Rightarrow> bool) \<Rightarrow> unit tio" where
  "tran_put env io k v coin =
     cbind (tget ts_ctx) (\<lambda>c.
       if tran_finished c then cthrow Logic_Error
       else
         cbind (clift (putRecord (tc_tranc_id c) k v)) (\<lambda>r.
         cbind (tmod (add_operation r)) (\<lambda>_.
           if write_immediately c then
             cbind (persist_pending_wal io) (\<lambda>_.
             cbind (tengine (engine_put env k v (tc_tranc_id c) coin)) (\<lambda>_. cret ()))
           else tmod (buffer_write k v))))"

definition tran_remove :: "engine_env \<Rightarrow> wal_io \<Rightarrow> bytes \<Rightarrow> (nat \<Rightarrow> bool) \<Rightarrow> unit tio" where
  "tran_remove env io k coin =
     cbind (tget ts_ctx) (\<lambda>c.
       if tran_finished c then cthrow Logic_Error
       else
         cbind (clift (deleteRecord (tc_tranc_id c) k)) (\<lambda>r.
         cbind (tmod (add_operation r)) (\<lambda>_.
           if write_immediately c then
             cbind (persist_pending_wal io) (\<lambda>_.
             cbind (tengine (engine_remove env k (tc_tranc_id c) coin)) (\<lambda>_. cret ()))
           else tmod (buffer_write k []))))"

text \<open>A repeatable read keeps the first result of every key.\<close>

definition tran_query :: "engine_env \<Rightarrow> bytes \<Rightarrow> (bytes \<times> u64) option tio" where
  "tran_query env k =
     cbind (tget ts_ctx) (\<lambda>c.
       let require_committed = (tc_isolation_level c \<noteq> READ_UNOP_COMMITTED)
       in if tc_isolation_level c = READ_UNOP_COMMITTED \<or> tc_isolation_level c = READ_OP_COMMITTED
          then tengine (engine_get env k 0 require_committed)
          else case map_of (tc_read_map c) k of
              Some query \<Rightarrow> cret query
            | None \<Rightarrow>
                cbind (tengine (engine_get env k (tc_tranc_id c) require_committed)) (\<lambda>query.
                cbind (tmod (\<lambda>c. c\<lparr>tc_read_map := tc_read_map c @ [(k, query)]\<rparr>)) (\<lambda>_. cret query)))"

definition tran_get :: "engine_env \<Rightarrow> bytes \<Rightarrow> bytes option tio" where
  "tran_get env k =
     cbind (tget ts_ctx) (\<lambda>c.
       if tran_finished c then cthrow Logic_Error
       else case map_of (tc_temp_map c) k of
           Some v \<Rightarrow> cret (if v = [] then None else Some v)
         | None \<Rightarrow> cbind (tran_query env k) (\<lambda>query. cret (map_option fst query)))"

section \<open>Commit\<close>

text \<open>The newest version of a key in the engine that is not rolled back, tombstones included.\<close>

definition latest_record :: "engine_env \<Rightarrow> tran_manager \<Rightarrow> bytes \<Rightarrow> (bytes \<times> u64) option eio" where
  "latest_record env m k =
     (let is_aborted = Some (tm_is_aborted m)
      in cbind (engine_sst_get env k 0 is_aborted) (\<lambda>latest.
         cbind (eget (\<lambda>e. memtable_get_unlocked (e_memtable e) k 0 is_aborted)) (\<lambda>r.
         cbind (clift r) (\<lambda>memory.
           cret (if mem_iter_valid memory \<and> (case latest of None \<Rightarrow> True | Some l \<Rightarrow> snd l \<le> mem_iter_tid memory)
                 then Some (mem_iter_value memory, mem_iter_tid memory) else latest)))))"

primrec write_conflict :: "engine_env \<Rightarrow> tran_manager \<Rightarrow> u64 \<Rightarrow> (bytes \<times> bytes) list \<Rightarrow> bool eio" where
  "write_conflict env m tid [] = cret False"
| "write_conflict env m tid (kv # kvs) =
     cbind (latest_record env m (fst kv)) (\<lambda>latest.
       if (case latest of None \<Rightarrow> False | Some l \<Rightarrow> tid < snd l) then cret True
       else write_conflict env m tid kvs)"

primrec read_conflict :: "engine_env \<Rightarrow> tran_manager \<Rightarrow> (bytes \<times> (bytes \<times> u64) option) list \<Rightarrow> bool eio" where
  "read_conflict env m [] = cret False"
| "read_conflict env m (r # rs) =
     cbind (latest_record env m (fst r)) (\<lambda>current.
       if visible current \<noteq> snd r then cret True else read_conflict env m rs)"

definition tran_conflict :: "engine_env \<Rightarrow> tran_manager \<Rightarrow> tran_context \<Rightarrow> bool eio" where
  "tran_conflict env m c =
     cbind (if write_immediately c then cret False else write_conflict env m (tc_tranc_id c) (tc_temp_map c)) (\<lambda>w.
       if \<not> w \<and> tc_isolation_level c = SERIALIZABLE then read_conflict env m (tc_read_map c) else cret w)"

text \<open>The buffered writes and the commit mark go into the active table.\<close>

definition apply_writes :: "tran_context \<Rightarrow> (nat \<Rightarrow> nat \<Rightarrow> bool) \<Rightarrow> unit eio" where
  "apply_writes c coins =
     cbind (if write_immediately c then cret ()
            else ememtable (\<lambda>m. memtable_put_all m (tc_temp_map c) (tc_tranc_id c) (\<lambda>n. coins (Suc n)))) (\<lambda>_.
       ememtable (\<lambda>m. memtable_put_unlocked m [] [] (tc_tranc_id c) (coins 0)))"

definition finish_tran :: "u64 \<Rightarrow> transaction_state \<Rightarrow> unit tio" where
  "finish_tran tid st = tmanager (\<lambda>m. tm_add_ready_to_flush_tranc_id m tid st)"

definition tran_commit :: "engine_env \<Rightarrow> bool \<Rightarrow> wal_io \<Rightarrow> (nat \<Rightarrow> nat \<Rightarrow> bool) \<Rightarrow> bool tio" where
  "tran_commit env test_fail io coins =
     cbind (tget ts_ctx) (\<lambda>c.
       if tran_finished c then cret False
       else if test_fail then cthrow Logic_Error
       else
         cbind lock_manager (\<lambda>m.
           if list_ex ends_tran (tc_operations c) then cthrow Logic_Error
           else
             cbind (tengine (tran_conflict env m c)) (\<lambda>conflict.
               if conflict then
                 cbind (finish_tran (tc_tranc_id c) ABORTED) (\<lambda>_.
                 cbind (tmod (\<lambda>c. c\<lparr>tc_is_aborted := True\<rparr>)) (\<lambda>_. cret False))
               else
                 cbind (tmod (add_operation (commitRecord (tc_tranc_id c)))) (\<lambda>_.
                 cbind (persist_pending_wal io) (\<lambda>_.
                 cbind (tmod (\<lambda>c. c\<lparr>tc_is_commited := True\<rparr>)) (\<lambda>_.
                 cbind (tengine (apply_writes c coins)) (\<lambda>_.
                 cbind (finish_tran (tc_tranc_id c) OP_COMMITTED) (\<lambda>_.
                 cbind (tengine (emod (\<lambda>e. e\<lparr>e_memtable := freeze_if_full (env_per_mem env) (e_memtable e)\<rparr>))) (\<lambda>_.
                 cbind (tengine (cbind (eget flush_fuel) (\<lambda>n. flush_while n env (env_tol_mem env)))) (\<lambda>_.
                   cret True)))))))))) "

section \<open>Rollback\<close>

text \<open>The code also computes whether a rollback record is needed, and then writes none.\<close>

definition tran_abort :: "bool tio" where
  "tran_abort =
     cbind (tget ts_ctx) (\<lambda>c.
       if tran_finished c then cret False
       else
         cbind lock_manager (\<lambda>_.
           if length (tc_operations c) < tc_wal_written_count c then cthrow Logic_Error
           else if list_ex ends_tran (tc_operations c) then cthrow Logic_Error
           else
             cbind (finish_tran (tc_tranc_id c) ABORTED) (\<lambda>_.
             cbind (tmod (\<lambda>c. c\<lparr>tc_is_aborted := True, tc_temp_map := [], tc_read_map := [], tc_operations := []\<rparr>)) (\<lambda>_.
               cret True))))"

end
