(* ===== verification/Tran_Spec.thy ===== *)
theory Tran_Spec
  imports Tran_Context
begin

text \<open>
  What the calls of one transaction context do to the records of the engine, to the status of the
  transactions, and to the write-ahead log.
\<close>

section \<open>The engine and the status of transactions\<close>

text \<open>The part of the manager that decides what a read sees: the next id, the active and the
  rolled back transactions. A flush changes the rest only.\<close>

type_synonym status = "bool \<times> u64 \<times> u64 list \<times> u64 list"

definition status :: "tran_manager \<Rightarrow> status" where
  "status m = (tm_engine_bound m, tm_next m, tm_active m, tm_aborted m)"

definition engine_at :: "engine_env \<Rightarrow> versions \<Rightarrow> status \<Rightarrow> engine \<Rightarrow> bool" where
  "engine_at env w st e \<longleftrightarrow> engine_shows env w e \<and> map_option status (e_tran_manager e) = Some st"

lemma engine_atE:
  assumes "engine_at env w st e"
  obtains m where "e_tran_manager e = Some m" "status m = st" "engine_shows env w e"
  using assms unfolding engine_at_def by auto

lemma notify_status [simp]: "status (notify_tables ess m) = status m"
proof -
  have "status (fold (\<lambda>tid m. tm_add_flushed_tranc_id m tid) tids m) = status m" for tids
    by (induction tids arbitrary: m) (simp_all add: status_def tm_add_flushed_tranc_id_def split: prod.splits)
  then show ?thesis by (simp add: notify_tables_def)
qed

lemma tables_flushed_at:
  assumes "engine_at env w st e0" "tables_flushed env R e0 e" "set_mset R = graph_of w"
  shows "engine_at env w st e"
proof -
  have "l0_length e0 \<le> env_ratio env" using assms(1) by (simp add: engine_at_def engine_shows_def)
  moreover have "map_option status (e_tran_manager e) = Some st"
    using assms(1,2) by (auto simp: engine_at_def tables_flushed_def option.map_comp comp_def)
  ultimately show ?thesis
    using tables_flushed_shows [OF assms(2,3)] unfolding engine_at_def by blast
qed

lemma engine_at_has:
  assumes "engine_at env w st e"
  obtains R where "engine_has env R e" "set_mset R = graph_of w"
  using assms engine_shows_has unfolding engine_at_def by metis

lemma flush_while_at:
  assumes "env_ok env"
  shows "triple (engine_at env w st) (cbind (eget flush_fuel) (\<lambda>n. flush_while n env limit))
    (\<lambda>_. engine_at env w st) (engine_at env w st)"
proof (rule triple_here)
  fix e
  assume e: "engine_at env w st e"
  then obtain R where R: "engine_has env R e" "set_mset R = graph_of w" by (rule engine_at_has)
  note at = tables_flushed_at [OF e _ R(2)]
  show "triple (\<lambda>e'. e' = e) (cbind (eget flush_fuel) (\<lambda>n. flush_while n env limit))
    (\<lambda>_. engine_at env w st) (engine_at env w st)"
    by (rule triple_eget_at)
      (rule triple_weaken [OF flush_while_spec [OF assms R(1) flush_fuel_enough]], use at in auto)
qed

lemma engine_flush_at:
  assumes "env_ok env"
  shows "triple (engine_at env w st) (engine_flush env) (\<lambda>_. engine_at env w st) (engine_at env w st)"
proof (rule triple_here)
  fix e
  assume e: "engine_at env w st e"
  then obtain R where R: "engine_has env R e" "set_mset R = graph_of w" by (rule engine_at_has)
  note at = tables_flushed_at [OF e _ R(2)]
  show "triple (\<lambda>e'. e' = e) (engine_flush env) (\<lambda>_. engine_at env w st) (engine_at env w st)"
    by (rule triple_weaken [OF engine_flush_spec [OF assms R(1)]])
      (use at flushed_tables_flushed in blast)+
qed

lemma engine_put_batch_at:
  assumes "env_ok env" "dom (batch_map kvs t) \<inter> dom w = {}"
  shows "triple (engine_at env w st) (engine_put_batch env kvs t coins)
    (\<lambda>_. engine_at env (w ++ batch_map kvs t) st) (engine_at env (w ++ batch_map kvs t) st)"
proof (rule triple_here)
  fix e
  assume e: "engine_at env w st e"
  then obtain m where m: "memtable_put_batch (env_per_mem env) (e_memtable e) kvs t coins = Inr m"
    "engine_shows env (w ++ batch_map kvs t) (e\<lparr>e_memtable := m\<rparr>)"
    using batch_shows [OF _ assms(2)] unfolding engine_at_def by blast
  let ?A = "engine_at env (w ++ batch_map kvs t) st"
  have A: "?A (e\<lparr>e_memtable := m\<rparr>)" using m(2) e by (simp add: engine_at_def)
  have full: "triple (\<lambda>e'. e' = e\<lparr>e_memtable := m\<rparr>) (flush_if_full env) (\<lambda>_. ?A) ?A"
    unfolding flush_if_full_def
    by (rule triple_eget_at)
      (use A in \<open>auto intro!: triple_ret triple_weaken [OF engine_flush_at [OF assms(1)]]\<close>)
  have "engine_put_batch env kvs t coins e = flush_if_full env (e\<lparr>e_memtable := m\<rparr>)"
    by (simp add: engine_put_batch_def cbind_def ememtable_def m(1))
  with full show "triple (\<lambda>e'. e' = e) (engine_put_batch env kvs t coins) (\<lambda>_. ?A) ?A"
    by (simp add: triple_def)
qed

text \<open>Reads change the block cache only.\<close>

lemma shows_store:
  assumes "engine_ok env P e" "set (engine_records P e) = graph_of w" "l0_length e \<le> env_ratio env"
    "store_holds (blocks_of P) st"
  shows "engine_shows env w (e\<lparr>e_store := st\<rparr>)"
  using engine_ok_store [OF assms(1,4)] assms(2,3) unfolding engine_shows_def l0_length_def by auto

lemma engine_get_at:
  assumes "engine_at env w st e" "k \<noteq> []" "e_tran_manager e = Some m"
  shows "\<exists>r e'. engine_get env k t rc e = (Inr (visible r), e') \<and> engine_at env w st e' \<and>
    e_tran_manager e' = Some m \<and> newest (graph_of w) k t (Some (\<lambda>tid. tm_should_skip_read m tid rc)) r"
proof -
  obtain P where P: "engine_ok env P e" "set (engine_records P e) = graph_of w" "l0_length e \<le> env_ratio env"
    using assms(1) unfolding engine_at_def engine_shows_def by blast
  from engine_get_spec [OF P(1) assms(2,3), of t rc] obtain r s where
    r: "engine_get env k t rc e = (Inr (visible r), e\<lparr>e_store := s\<rparr>)" "store_holds (blocks_of P) s"
    "newest (graph_of w) k t (Some (\<lambda>tid. tm_should_skip_read m tid rc)) r" unfolding P(2) by blast
  from shows_store [OF P r(2)] assms have "engine_at env w st (e\<lparr>e_store := s\<rparr>)" by (simp add: engine_at_def)
  with r assms(3) show ?thesis by auto
qed

lemma latest_record_at:
  assumes "engine_at env w st e" "k \<noteq> []"
  shows "\<exists>r e'. latest_record env m k e = (Inr r, e') \<and> engine_at env w st e' \<and> e_tran_manager e' = e_tran_manager e \<and>
    newest (graph_of w) k 0 (Some (tm_is_aborted m)) r"
proof -
  let ?ab = "Some (tm_is_aborted m)"
  obtain P where P: "engine_ok env P e" "set (engine_records P e) = graph_of w" "l0_length e \<le> env_ratio env"
    using assms(1) unfolding engine_at_def engine_shows_def by blast
  have ok: "mem_ok (e_memtable e)" using P(1) by (simp add: engine_ok_def)
  obtain d s where d: "engine_sst_get env k 0 ?ab e = (Inr d, e\<lparr>e_store := s\<rparr>)" "store_holds (blocks_of P) s"
    "newest (set (ids_records P (all_ids (e_levels e)))) k 0 ?ab d"
    using engine_sst_get_spec [OF P(1) assms(2)] by blast
  obtain it where it: "memtable_get_unlocked (e_memtable e) k 0 ?ab = Inr it"
    "iter_record it = mem_lookup (e_memtable e) k 0 ?ab"
    using memtable_get_lookup [OF ok] by blast
  have "newest (set (mem_records (e_memtable e))) k 0 ?ab (iter_record it)"
    unfolding it(2) using mem.lookup_newest [OF ok] newest_cong [OF mem_entries_candidates [OF assms(2)]] by blast
  from newest_better [OF this d(3)] have "newest (graph_of w) k 0 ?ab (better (iter_record it) d)"
    unfolding P(2) [symmetric] engine_records_def set_append .
  moreover have "latest_record env m k e = (Inr (better (iter_record it) d), e\<lparr>e_store := s\<rparr>)"
    by (cases d) (auto simp: latest_record_def Let_def cbind_def eget_def cret_def d(1) it(1) better_def iter_record_def
        split: option.split)
  moreover have "engine_at env w st (e\<lparr>e_store := s\<rparr>)"
    using shows_store [OF P d(2)] assms(1) by (simp add: engine_at_def)
  ultimately show ?thesis by fastforce
qed

section \<open>The conflict checks\<close>

definition newer_version :: "versions \<Rightarrow> tran_manager \<Rightarrow> u64 \<Rightarrow> bytes \<Rightarrow> bool" where
  "newer_version w m tid k \<longleftrightarrow> (\<exists>v t. w (k, t) = Some v \<and> \<not> tm_is_aborted m t \<and> tid < t)"

lemma newest_newer:
  assumes "newest (graph_of w) k 0 (Some (tm_is_aborted m)) r"
  shows "(case r of None \<Rightarrow> False | Some l \<Rightarrow> tid < snd l) \<longleftrightarrow> newer_version w m tid k"
proof (cases r)
  case None
  with assms have "\<not> newer_version w m tid k"
    by (auto simp: newer_version_def newest_def candidates_def graph_of_def readable_def)
  with None show ?thesis by simp
next
  case (Some l)
  obtain v t where l: "l = (v, t)" by (cases l)
  have "w (k, t) = Some v" "\<not> tm_is_aborted m t"
    and max: "\<And>v' t'. w (k, t') = Some v' \<Longrightarrow> \<not> tm_is_aborted m t' \<Longrightarrow> t' \<le> t"
    using assms by (auto simp: Some l newest_def candidates_def graph_of_def readable_def)
  then show ?thesis unfolding Some l newer_version_def by (auto intro: order.strict_trans2)
qed

lemma write_conflict_at:
  assumes "engine_at env w st e" "\<forall>kv \<in> set kvs. fst kv \<noteq> []"
  shows "\<exists>e'. write_conflict env m tid kvs e = (Inr (\<exists>kv \<in> set kvs. newer_version w m tid (fst kv)), e') \<and>
    engine_at env w st e' \<and> e_tran_manager e' = e_tran_manager e"
  using assms
proof (induction kvs arbitrary: e)
  case Nil
  then show ?case by (simp add: cret_def)
next
  case (Cons kv kvs)
  obtain r e1 where r: "latest_record env m (fst kv) e = (Inr r, e1)" "engine_at env w st e1"
    "e_tran_manager e1 = e_tran_manager e" "newest (graph_of w) (fst kv) 0 (Some (tm_is_aborted m)) r"
    using latest_record_at [OF Cons.prems(1), of "fst kv" m] Cons.prems(2) by auto
  note newer = newest_newer [OF r(4), of tid]
  show ?case
  proof (cases "newer_version w m tid (fst kv)")
    case True
    with newer r show ?thesis by (simp add: cbind_def cret_def)
  next
    case False
    obtain e' where "write_conflict env m tid kvs e1 = (Inr (\<exists>kv \<in> set kvs. newer_version w m tid (fst kv)), e')"
      "engine_at env w st e'" "e_tran_manager e' = e_tran_manager e1"
      using Cons.IH [OF r(2)] Cons.prems(2) by auto
    with False newer r show ?thesis by (simp add: cbind_def)
  qed
qed

text \<open>What a repeated read of the key would find now.\<close>

definition unchanged_read :: "versions \<Rightarrow> tran_manager \<Rightarrow> bytes \<times> (bytes \<times> u64) option \<Rightarrow> bool" where
  "unchanged_read w m q \<longleftrightarrow> (\<exists>r. newest (graph_of w) (fst q) 0 (Some (tm_is_aborted m)) r \<and> visible r = snd q)"

lemma read_conflict_at:
  assumes "engine_at env w st e" "\<forall>q \<in> set qs. fst q \<noteq> []"
  shows "\<exists>b e'. read_conflict env m qs e = (Inr b, e') \<and> engine_at env w st e' \<and> e_tran_manager e' = e_tran_manager e \<and>
    (\<not> b \<longrightarrow> (\<forall>q \<in> set qs. unchanged_read w m q))"
  using assms
proof (induction qs arbitrary: e)
  case Nil
  then show ?case by (intro exI [of _ False] exI [of _ e]) (simp add: cret_def)
next
  case (Cons q qs)
  obtain r e1 where r: "latest_record env m (fst q) e = (Inr r, e1)" "engine_at env w st e1"
    "e_tran_manager e1 = e_tran_manager e" "newest (graph_of w) (fst q) 0 (Some (tm_is_aborted m)) r"
    using latest_record_at [OF Cons.prems(1), of "fst q" m] Cons.prems(2) by auto
  show ?case
  proof (cases "visible r = snd q")
    case False
    with r show ?thesis by (intro exI [of _ True] exI [of _ e1]) (simp add: cbind_def cret_def)
  next
    case True
    with r(4) have u: "unchanged_read w m q" by (auto simp: unchanged_read_def)
    obtain b e' where "read_conflict env m qs e1 = (Inr b, e')" "engine_at env w st e'"
      "e_tran_manager e' = e_tran_manager e1" "\<not> b \<longrightarrow> (\<forall>q \<in> set qs. unchanged_read w m q)"
      using Cons.IH [OF r(2)] Cons.prems(2) by auto
    with u True r show ?thesis by (simp add: cbind_def)
  qed
qed

lemma tran_conflict_at:
  assumes "engine_at env w st e" "\<forall>kv \<in> set (tc_temp_map c). fst kv \<noteq> []" "\<forall>q \<in> set (tc_read_map c). fst q \<noteq> []"
  shows "\<exists>b e'. tran_conflict env m c e = (Inr b, e') \<and> engine_at env w st e' \<and> e_tran_manager e' = e_tran_manager e \<and>
    (\<not> b \<longrightarrow> (write_immediately c \<or> (\<forall>kv \<in> set (tc_temp_map c). \<not> newer_version w m (tc_tranc_id c) (fst kv))) \<and>
       (tc_isolation_level c = SERIALIZABLE \<longrightarrow> (\<forall>q \<in> set (tc_read_map c). unchanged_read w m q)))"
proof -
  let ?new = "\<exists>kv \<in> set (tc_temp_map c). newer_version w m (tc_tranc_id c) (fst kv)"
  obtain e1 where e1: "(if write_immediately c then cret False
      else write_conflict env m (tc_tranc_id c) (tc_temp_map c)) e = (Inr (\<not> write_immediately c \<and> ?new), e1)"
    "engine_at env w st e1" "e_tran_manager e1 = e_tran_manager e"
    using write_conflict_at [OF assms(1,2), of m "tc_tranc_id c"] assms(1)
    by (cases "write_immediately c") (auto simp: cret_def)
  obtain b e2 where e2: "read_conflict env m (tc_read_map c) e1 = (Inr b, e2)" "engine_at env w st e2"
    "e_tran_manager e2 = e_tran_manager e1" "\<not> b \<longrightarrow> (\<forall>q \<in> set (tc_read_map c). unchanged_read w m q)"
    using read_conflict_at [OF e1(2) assms(3)] by blast
  show ?thesis
    using e1 e2 by (auto simp: tran_conflict_def cbind_def cret_def)
qed

section \<open>Applying the writes\<close>

definition commit_writes :: "tran_context \<Rightarrow> (bytes \<times> bytes) list" where
  "commit_writes c = (if write_immediately c then [] else tc_temp_map c) @ [([], [])]"

definition commit_batch :: "tran_context \<Rightarrow> versions" where
  "commit_batch c = batch_map (commit_writes c) (tc_tranc_id c)"

lemma put_all_append:
  "memtable_put_all m (xs @ ys) t coins =
   ebind (memtable_put_all m xs t (\<lambda>n. coins (n + length ys))) (\<lambda>m'. memtable_put_all m' ys t coins)"
proof (induction xs arbitrary: m)
  case (Cons x xs)
  show ?case
    by (cases "memtable_put_unlocked m (fst x) (snd x) t (coins (length (xs @ ys)))") (simp_all add: Cons)
qed simp

lemma apply_writes_at:
  assumes "engine_at env w st e" "dom (commit_batch c) \<inter> dom w = {}"
  shows "\<exists>m. apply_writes c coins e = (Inr (), e\<lparr>e_memtable := m\<rparr>) \<and>
    engine_at env (w ++ commit_batch c) st (e\<lparr>e_memtable := m\<rparr>)"
proof -
  have "engine_shows env w e" using assms(1) by (simp add: engine_at_def)
  from put_all_shows [OF this assms(2) [unfolded commit_batch_def]] obtain m where
    m: "memtable_put_all (e_memtable e) (commit_writes c) (tc_tranc_id c) coins = Inr m"
      "engine_shows env (w ++ commit_batch c) (e\<lparr>e_memtable := m\<rparr>)"
    unfolding commit_batch_def by blast
  have "apply_writes c coins e = (Inr (), e\<lparr>e_memtable := m\<rparr>)"
    using m(1) by (cases "write_immediately c")
      (auto simp: apply_writes_def commit_writes_def put_all_append ebind_Inr_conv cbind_def cret_def ememtable_def)
  with m(2) assms(1) show ?thesis by (auto simp: engine_at_def)
qed

section \<open>The log\<close>

text \<open>\<open>L\<close> lists the records that the log has accepted (see \<open>wal_inv\<close>); after a
  successful forced call they are all in the files.\<close>

definition wal_holds :: "dir \<Rightarrow> wal option \<Rightarrow> wal_record list \<Rightarrow> bool" where
  "wal_holds d wo L \<longleftrightarrow> (case wo of None \<Rightarrow> L = [] | Some w \<Rightarrow> wal_inv d w L)"

definition wal_clean :: "wal option \<Rightarrow> bool" where
  "wal_clean wo \<longleftrightarrow> (case wo of None \<Rightarrow> False | Some w \<Rightarrow> \<not> write_failed w \<and> log_buffer w = [])"

lemma write_to_wal_holds:
  assumes "wal_holds d wo L" "write_to_wal io wo rs = (ok, wo')"
  shows "\<exists>L'. prefix L L' \<and> wal_holds d wo' L' \<and> set L' \<subseteq> set L \<union> set rs \<and> (ok \<longrightarrow> L' = L @ rs \<and> wal_clean wo')"
proof (cases wo)
  case None
  with assms show ?thesis by (auto simp: write_to_wal_def)
next
  case (Some w)
  obtain r w' where r: "wal_log io w rs True = (r, w')" by fastforce
  have inv: "wal_inv d w L" using assms(1) Some by (simp add: wal_holds_def)
  let ?L = "if write_failed w then L else L @ rs"
  have I: "wal_inv d w' ?L" "r = Inr () \<longrightarrow> \<not> write_failed w \<and> \<not> write_failed w' \<and> log_buffer w' = []"
    using wal_log_inv [OF inv r] by simp_all
  have o': "ok \<longleftrightarrow> r = Inr ()" "wo' = Some w'"
    using assms(2) Some r by (auto simp: write_to_wal_def split: sum.splits)
  show ?thesis
    by (rule exI [of _ ?L]) (use I o' in \<open>auto simp: wal_holds_def wal_clean_def\<close>)
qed

section \<open>One context\<close>

text \<open>The state of one context: the engine holds \<open>w\<close>, the log has accepted \<open>L\<close>.\<close>

definition sess :: "engine_env \<Rightarrow> dir \<Rightarrow> versions \<Rightarrow> wal_record list \<Rightarrow> status \<Rightarrow> tran_context \<Rightarrow> tran_state \<Rightarrow> bool" where
  "sess env d w L st c s \<longleftrightarrow> engine_at env w st (ts_engine s) \<and> wal_holds d (ts_wal s) L \<and> ts_ctx s = c"

lemma triple_tget: "(\<And>s. P s \<Longrightarrow> f s = x) \<Longrightarrow> triple P (g x) Q E \<Longrightarrow> triple P (cbind (tget f) g) Q E"
  by (auto simp: triple_def cbind_def tget_def)

lemma triple_tmod: "(\<And>s. P s \<Longrightarrow> R (s\<lparr>ts_ctx := f (ts_ctx s)\<rparr>)) \<Longrightarrow> triple R g Q E \<Longrightarrow> triple P (cbind (tmod f) (\<lambda>_. g)) Q E"
  by (auto simp: triple_def cbind_def tmod_def)

lemma triple_tengine:
  assumes "triple (engine_at env w st) m (\<lambda>_. engine_at env w' st') (engine_at env w' st')"
  shows "triple (sess env d w L st c) (tengine m) (\<lambda>_. sess env d w' L st' c) (sess env d w' L st' c)"
  using assms unfolding triple_def sess_def tengine_def
  by (fastforce split: prod.splits sum.splits)

lemma triple_lock:
  assumes "\<And>m. status m = st \<Longrightarrow> triple (\<lambda>s. sess env d w L st c s \<and> e_tran_manager (ts_engine s) = Some m) (g m) Q E"
  shows "triple (sess env d w L st c) (cbind lock_manager g) Q E"
proof (rule triple_here)
  fix s
  assume s: "sess env d w L st c s"
  then obtain m where m: "e_tran_manager (ts_engine s) = Some m" "status m = st"
    unfolding sess_def by (auto elim: engine_atE)
  have "cbind lock_manager g s = g m s" by (simp add: lock_manager_def cbind_def tget_def cret_def m(1))
  with assms [OF m(2)] s m(1) show "triple (\<lambda>s'. s' = s) (cbind lock_manager g) Q E" by (simp add: triple_def)
qed

lemma persist_pending:
  assumes "tc_wal_written_count c \<le> length (tc_operations c)" "subseq (take (tc_wal_written_count c) (tc_operations c)) L"
  shows "triple (sess env d w L st c) (persist_pending_wal io)
    (\<lambda>_ s. \<exists>L'. prefix L L' \<and> set L' \<subseteq> set L \<union> set (tc_operations c) \<and> subseq (tc_operations c) L' \<and>
       (tc_wal_written_count c < length (tc_operations c) \<longrightarrow> wal_clean (ts_wal s)) \<and>
       sess env d w L' st (c\<lparr>tc_wal_written_count := length (tc_operations c)\<rparr>) s)
    (\<lambda>s. \<exists>L'. prefix L L' \<and> set L' \<subseteq> set L \<union> set (tc_operations c) \<and> sess env d w L' st c s)"
    (is "triple ?P _ ?Q ?E")
proof -
  let ?n = "tc_wal_written_count c" and ?ops = "tc_operations c"
  show ?thesis
  proof (cases "?n = length ?ops")
    case True
    moreover from True have "c\<lparr>tc_wal_written_count := length ?ops\<rparr> = c" by simp
    ultimately have "persist_pending_wal io s = (Inr (), s) \<and> ?Q () s" if "?P s" for s
      using that assms(2) by (auto simp: persist_pending_wal_def cbind_def tget_def Let_def cret_def sess_def)
    then show ?thesis by (simp add: triple_def)
  next
    case False
    with assms(1) have less: "?n < length ?ops" by simp
    define pending where "pending = (if ?n = 0 then ?ops else drop ?n ?ops)"
    have pend: "pending = drop ?n ?ops" by (simp add: pending_def)
    have logs: "case cbind (tran_write_to_wal io pending) (\<lambda>success. if \<not> success then cthrow Runtime_Error
          else tmod (\<lambda>c. c\<lparr>tc_wal_written_count := length ?ops\<rparr>)) s of
        (Inl err, s') \<Rightarrow> thrown err \<and> ?E s' | (Inr x, s') \<Rightarrow> ?Q x s'" if s: "?P s" for s
    proof -
      obtain ok wo where ok: "write_to_wal io (ts_wal s) pending = (ok, wo)" by fastforce
      have h: "wal_holds d (ts_wal s) L" using s by (simp add: sess_def)
      obtain L' where L': "prefix L L'" "wal_holds d wo L'" "set L' \<subseteq> set L \<union> set pending"
        "ok \<longrightarrow> L' = L @ pending \<and> wal_clean wo"
        using write_to_wal_holds [OF h ok] by blast
      have sub: "set pending \<subseteq> set ?ops" unfolding pend by (rule set_drop_subset)
      have "subseq ?ops L'" if ok
      proof -
        have "subseq (take ?n ?ops @ drop ?n ?ops) (L @ pending)"
          unfolding pend by (rule list_emb_append_mono [OF assms(2) subseq_order.refl])
        with L'(4) that show ?thesis by simp
      qed
      with L' sub s show ?thesis
        by (cases ok) (auto simp: cbind_def tran_write_to_wal_def ok cthrow_def tmod_def sess_def intro!: exI [of _ L'])
    qed
    have "triple ?P (cbind lock_manager (\<lambda>_. cbind (tran_write_to_wal io pending) (\<lambda>success.
        if \<not> success then cthrow Runtime_Error else tmod (\<lambda>c. c\<lparr>tc_wal_written_count := length ?ops\<rparr>)))) ?Q ?E"
      by (rule triple_lock) (use logs in \<open>simp add: triple_def\<close>)
    then show ?thesis
      unfolding persist_pending_wal_def
      by (intro triple_tget [of _ ts_ctx c]) (use less in \<open>simp_all add: sess_def Let_def pending_def\<close>)
  qed
qed

end
