(* ===== verification/Tran_Inv.thy ===== *)
theory Tran_Inv
  imports Tran_Spec
begin

text \<open>
  The invariant of one transaction context within the database, and that every call keeps it:
  buffered writes stay out of the engine until the commit, immediate ones and commits are in the
  log before they are in the engine, and the status of the transaction follows its flags.
\<close>

section \<open>The invariant\<close>

definition op_writes :: "wal_record \<Rightarrow> bytes \<Rightarrow> bytes \<Rightarrow> bool" where
  "op_writes r k v \<longleftrightarrow> wr_key r = k \<and>
     (wr_operation_type r = OP_PUT \<and> wr_value r = v \<or> wr_operation_type r = OP_DELETE \<and> v = [])"

definition logged :: "wal_record list \<Rightarrow> bytes \<Rightarrow> bytes \<Rightarrow> u64 \<Rightarrow> bool" where
  "logged L k v t \<longleftrightarrow> (\<exists>r \<in> set L. wr_tranc_id r = t \<and>
     (if k = [] then wr_operation_type r = OP_COMMIT else op_writes r k v))"

definition ctx_ok :: "u64 \<Rightarrow> versions \<Rightarrow> wal_record list \<Rightarrow> tran_context \<Rightarrow> bool" where
  "ctx_ok tid w L c \<longleftrightarrow> tc_tranc_id c = tid \<and>
     (\<not> tc_is_aborted c \<longrightarrow> tc_wal_written_count c \<le> length (tc_operations c)) \<and>
     subseq (take (tc_wal_written_count c) (tc_operations c)) L \<and>
     (tc_is_commited c \<longrightarrow> tc_wal_written_count c = length (tc_operations c) \<and> \<not> tc_is_aborted c) \<and>
     (\<forall>r \<in> set (tc_operations c). built_record r \<and> wr_tranc_id r = tid) \<and>
     distinct (map fst (tc_temp_map c)) \<and>
     (\<forall>kv \<in> set (tc_temp_map c). fst kv \<noteq> [] \<and> (\<exists>r \<in> set (tc_operations c). op_writes r (fst kv) (snd kv))) \<and>
     (\<forall>q \<in> set (tc_read_map c). fst q \<noteq> []) \<and>
     (\<forall>k v. w (k, tid) = Some v \<longrightarrow> tc_is_commited c \<or> write_immediately c \<and> k \<noteq> []) \<and>
     (\<forall>k v. w (k, tid) = Some v \<longrightarrow> k \<noteq> [] \<longrightarrow> \<not> tc_is_aborted c \<longrightarrow> (\<exists>r \<in> set (tc_operations c). op_writes r k v))"

definition ctx_status :: "u64 \<Rightarrow> status \<Rightarrow> tran_context \<Rightarrow> bool" where
  "ctx_status tid st c \<longleftrightarrow> (case st of (bound, next_id, active, aborted) \<Rightarrow>
     tid < next_id \<and> (tid \<in> set aborted \<longrightarrow> tc_is_aborted c) \<and>
     (tid \<notin> set active \<longrightarrow> tid \<notin> set aborted \<longrightarrow> tc_is_commited c))"

definition ctx_inv :: "u64 \<Rightarrow> status \<Rightarrow> versions \<Rightarrow> wal_record list \<Rightarrow> tran_context \<Rightarrow> bool" where
  "ctx_inv tid st w L c \<longleftrightarrow> ctx_ok tid w L c \<and> ctx_status tid st c"

section \<open>What a call changes\<close>

definition status_change :: "u64 \<Rightarrow> status \<Rightarrow> status \<Rightarrow> bool" where
  "status_change tid st st' \<longleftrightarrow> (case (st, st') of ((b, n, act, abt), (b', n', act', abt')) \<Rightarrow>
     b' = b \<and> n' = n \<and> (\<forall>t. t \<noteq> tid \<longrightarrow> (t \<in> set act' \<longleftrightarrow> t \<in> set act) \<and> (t \<in> set abt' \<longleftrightarrow> t \<in> set abt)))"

text \<open>What is in the engine after a call was there before or is in the log.\<close>

definition evolves :: "u64 \<Rightarrow> versions \<Rightarrow> wal_record list \<Rightarrow> status \<Rightarrow> versions \<Rightarrow> wal_record list \<Rightarrow> status \<Rightarrow> bool" where
  "evolves tid w L st w' L' st' \<longleftrightarrow> prefix L L' \<and> status_change tid st st' \<and>
     (\<forall>r \<in> set L'. r \<in> set L \<or> built_record r) \<and>
     (\<forall>k t. t \<noteq> tid \<longrightarrow> w' (k, t) = w (k, t)) \<and>
     (\<forall>k v. w' (k, tid) = Some v \<longrightarrow> w (k, tid) = Some v \<or> logged L' k v tid)"

text \<open>What a context keeps when the keys \<open>K\<close> are written.\<close>

definition ctx_grow :: "bytes set \<Rightarrow> tran_context \<Rightarrow> tran_context \<Rightarrow> bool" where
  "ctx_grow K c c' \<longleftrightarrow> tc_isolation_level c' = tc_isolation_level c \<and> (tran_finished c \<longrightarrow> c' = c) \<and>
     (\<not> tran_finished c' \<longrightarrow>
       (\<forall>k. k \<notin> K \<longrightarrow> map_of (tc_temp_map c') k = map_of (tc_temp_map c) k) \<and>
       (\<forall>k q. map_of (tc_read_map c) k = Some q \<longrightarrow> map_of (tc_read_map c') k = Some q))"

definition ctx_step :: "bytes set \<Rightarrow> tran_context \<Rightarrow> tran_context \<Rightarrow> bool" where
  "ctx_step K c c' \<longleftrightarrow> ctx_grow K c c' \<and> set (tc_read_map c') \<subseteq> set (tc_read_map c)"

definition tran_step ::
  "engine_env \<Rightarrow> dir \<Rightarrow> u64 \<Rightarrow> bytes set \<Rightarrow> versions \<Rightarrow> wal_record list \<Rightarrow> status \<Rightarrow> tran_context \<Rightarrow> tran_state \<Rightarrow> bool" where
  "tran_step env d tid K w L st c s \<longleftrightarrow> (\<exists>w' L' st' c'. sess env d w' L' st' c' s \<and> ctx_inv tid st' w' L' c' \<and>
     evolves tid w L st w' L' st' \<and> ctx_step K c c')"

lemma tran_stepI:
  "sess env d w' L' st' c' s \<Longrightarrow> ctx_inv tid st' w' L' c' \<Longrightarrow> evolves tid w L st w' L' st' \<Longrightarrow> ctx_step K c c' \<Longrightarrow>
   tran_step env d tid K w L st c s"
  unfolding tran_step_def by blast

lemma triple_ex: "(\<And>x. triple (P x) m Q E) \<Longrightarrow> triple (\<lambda>s. \<exists>x. P x s) m Q E"
  unfolding triple_def by (intro allI impI) (erule exE, simp)

lemma triple_assume: "(A \<Longrightarrow> triple P m Q E) \<Longrightarrow> triple (\<lambda>s. A \<and> P s) m Q E"
  by (auto simp: triple_def)

lemma logged_mono: "logged L k v t \<Longrightarrow> prefix L L' \<Longrightarrow> logged L' k v t"
  unfolding logged_def using set_mono_prefix by blast

lemma status_change_refl [simp]: "status_change tid st st"
  by (auto simp: status_change_def split: prod.split)

lemma evolves_refl [simp]: "evolves tid w L st w L st"
  by (simp add: evolves_def)

lemma evolves_log:
  "prefix L L' \<Longrightarrow> set L' \<subseteq> set L \<union> set ops \<Longrightarrow> \<forall>r \<in> set ops. built_record r \<Longrightarrow> evolves tid w L st w L' st"
  by (auto simp: evolves_def)

lemma ctx_step_refl [simp]: "ctx_step K c c"
  by (simp add: ctx_step_def ctx_grow_def)

lemma ctx_ok_log:
  assumes "ctx_ok tid w L c" "prefix L L'"
  shows "ctx_ok tid w L' c"
proof -
  have "subseq (take (tc_wal_written_count c) (tc_operations c)) L" using assms(1) unfolding ctx_ok_def by (elim conjE)
  then have "subseq (take (tc_wal_written_count c) (tc_operations c)) L'"
    using subseq_order.trans prefix_imp_subseq [OF assms(2)] by blast
  with assms(1) show ?thesis unfolding ctx_ok_def by (elim conjE, intro conjI) assumption+
qed

lemma ctx_ok_frame:
  assumes "ctx_ok tid w L c" "prefix L L'" "\<And>k. w' (k, tid) = w (k, tid)"
  shows "ctx_ok tid w' L' c"
  using ctx_ok_log [OF assms(1,2)] unfolding ctx_ok_def assms(3) .

lemma ctx_status_frame:
  "ctx_status t st c \<Longrightarrow> status_change tid st st' \<Longrightarrow> t \<noteq> tid \<Longrightarrow> ctx_status t st' c"
  unfolding ctx_status_def status_change_def by (auto split: prod.splits)

text \<open>Another context keeps its invariant.\<close>

lemma ctx_inv_frame:
  assumes "ctx_inv t st w L c" "evolves tid w L st w' L' st'" "t \<noteq> tid"
  shows "ctx_inv t st' w' L' c"
  using assms ctx_ok_frame [of t w L c L' w'] ctx_status_frame [of t st c tid st']
  unfolding ctx_inv_def evolves_def by blast

section \<open>Writes\<close>

lemma add_operation_facts [simp]:
  "tc_tranc_id (add_operation r c) = tc_tranc_id c" "tc_isolation_level (add_operation r c) = tc_isolation_level c"
  "tc_operations (add_operation r c) = tc_operations c @ [r]"
  "tc_wal_written_count (add_operation r c) = tc_wal_written_count c"
  "tc_temp_map (add_operation r c) = tc_temp_map c" "tc_read_map (add_operation r c) = tc_read_map c"
  "tc_is_commited (add_operation r c) = tc_is_commited c" "tc_is_aborted (add_operation r c) = tc_is_aborted c"
  "write_immediately (add_operation r c) = write_immediately c"
  by (simp_all add: add_operation_def write_immediately_def)

lemma add_operation_ok:
  assumes "ctx_ok tid w L c" "\<not> tran_finished c" "built_record r" "wr_tranc_id r = tid"
  shows "ctx_ok tid w L (add_operation r c)"
  using assms unfolding ctx_ok_def tran_finished_def by auto

lemma written_ok:
  assumes "ctx_ok tid w L c" "\<not> tran_finished c" "prefix L L'" "subseq (tc_operations c) L'"
  shows "ctx_ok tid w L' (c\<lparr>tc_wal_written_count := length (tc_operations c)\<rparr>)"
  using ctx_ok_log [OF assms(1,3)] assms(2,4) unfolding ctx_ok_def tran_finished_def write_immediately_def by simp

text \<open>Both kinds of writes after their record is made.\<close>

definition tran_record :: "engine_env \<Rightarrow> wal_io \<Rightarrow> tran_context \<Rightarrow> wal_record \<Rightarrow> bytes \<Rightarrow> bytes \<Rightarrow> (nat \<Rightarrow> bool) \<Rightarrow> unit tio" where
  "tran_record env io c r k v coin =
     cbind (tmod (add_operation r)) (\<lambda>_.
       if write_immediately c then
         cbind (persist_pending_wal io) (\<lambda>_.
         cbind (tengine (engine_put_batch env [(k, v)] (tc_tranc_id c) (\<lambda>_. coin))) (\<lambda>_. cret ()))
       else tmod (buffer_write k v))"

lemma buffer_write_ok:
  assumes "ctx_ok tid w L c" "k \<noteq> []" "r \<in> set (tc_operations c)" "op_writes r k v"
  shows "ctx_ok tid w L (buffer_write k v c)"
proof -
  have "set (AList.update k v xs) \<subseteq> insert (k, v) (set xs)" for xs :: "(bytes \<times> bytes) list"
    by (induction xs) auto
  then have sub: "set (AList.update k v (tc_temp_map c)) \<subseteq> insert (k, v) (set (tc_temp_map c))" .
  have "\<forall>kv \<in> set (tc_temp_map c). fst kv \<noteq> [] \<and> (\<exists>r \<in> set (tc_operations c). op_writes r (fst kv) (snd kv))"
    using assms(1) unfolding ctx_ok_def by blast
  then have "\<forall>kv \<in> insert (k, v) (set (tc_temp_map c)).
      fst kv \<noteq> [] \<and> (\<exists>r \<in> set (tc_operations c). op_writes r (fst kv) (snd kv))"
    using assms(2-4) by auto
  then have T: "\<forall>kv \<in> set (AList.update k v (tc_temp_map c)).
      fst kv \<noteq> [] \<and> (\<exists>r \<in> set (tc_operations c). op_writes r (fst kv) (snd kv))"
    using sub by blast
  show ?thesis
    using assms(1) T unfolding ctx_ok_def buffer_write_def write_immediately_def by (simp add: distinct_update)
qed

lemma put_batch_single: "batch_map [(k, v)] t = [(k, t) \<mapsto> v]"
  by (simp add: batch_map_def)

lemma tran_record_step:
  assumes "env_ok env" "ctx_inv tid st w L c" "\<not> tran_finished c"
    and r: "built_record r" "wr_tranc_id r = tid" "op_writes r k v" and "k \<noteq> []"
    and fresh: "write_immediately c \<Longrightarrow> (k, tid) \<notin> dom w"
  shows "triple (sess env d w L st c) (tran_record env io c r k v coin)
    (\<lambda>_. tran_step env d tid {k} w L st c) (tran_step env d tid {k} w L st c)"
    (is "triple _ _ (\<lambda>_. ?T) ?T")
proof -
  let ?c1 = "add_operation r c"
  let ?c2 = "?c1\<lparr>tc_wal_written_count := length (tc_operations ?c1)\<rparr>"
  have tid: "tc_tranc_id c = tid" using assms(2) by (simp add: ctx_inv_def ctx_ok_def)
  have ok1: "ctx_ok tid w L ?c1" using assms(2,3) r by (intro add_operation_ok) (simp_all add: ctx_inv_def)
  have fin: "\<not> tran_finished ?c1" using assms(3) by (simp add: tran_finished_def)
  have stat: "ctx_status tid st c'" if "tc_is_aborted c' = tc_is_aborted c" "tc_is_commited c' = tc_is_commited c" for c'
    using assms(2) that unfolding ctx_inv_def ctx_status_def by simp
  have built: "\<forall>r \<in> set (tc_operations ?c1). built_record r" using ok1 unfolding ctx_ok_def by blast
  have w1: "tc_wal_written_count ?c1 \<le> length (tc_operations ?c1)"
    "subseq (take (tc_wal_written_count ?c1) (tc_operations ?c1)) L"
    using ok1 fin unfolding ctx_ok_def tran_finished_def by blast+
  show ?thesis
  proof (cases "write_immediately c")
    case False
    have "ctx_ok tid w L (buffer_write k v ?c1)" by (rule buffer_write_ok [OF ok1 \<open>k \<noteq> []\<close> _ r(3)]) simp
    then have "ctx_inv tid st w L (buffer_write k v ?c1)"
      unfolding ctx_inv_def by (intro conjI stat) (simp_all add: buffer_write_def)
    moreover have "ctx_step {k} c (buffer_write k v ?c1)"
      using assms(3) by (auto simp: ctx_step_def ctx_grow_def buffer_write_def tran_finished_def update_conv')
    ultimately have "?T (s\<lparr>ts_ctx := buffer_write k v ?c1\<rparr>)" if "sess env d w L st c s" for s
      using that by (intro tran_stepI [of _ _ w L st "buffer_write k v ?c1"]) (simp_all add: sess_def)
    then show ?thesis
      unfolding tran_record_def if_not_P [OF False]
      by (auto simp: triple_def cbind_def tmod_def sess_def)
  next
    case True
    let ?w = "w ++ batch_map [(k, v)] (tc_tranc_id c)"
    have w': "?w = w((k, tid) \<mapsto> v)" by (simp add: put_batch_single tid)
    let ?L = "\<lambda>L'. prefix L L' \<and> set L' \<subseteq> set L \<union> set (tc_operations ?c1)"
    have step1: "?T s" if "?L L'" "sess env d w L' st ?c1 s" for s L'
    proof (rule tran_stepI [OF that(2)])
      show "ctx_inv tid st w L' ?c1"
        unfolding ctx_inv_def by (intro conjI stat ctx_ok_log [OF ok1]) (use that(1) in simp_all)
      show "evolves tid w L st w L' st" by (rule evolves_log [OF _ _ built]) (use that(1) in auto)
      show "ctx_step {k} c ?c1" using assms(3) by (simp add: ctx_step_def ctx_grow_def tran_finished_def)
    qed
    have step2: "?T s" if L': "?L L'" "subseq (tc_operations ?c1) L'" and s: "sess env d ?w L' st ?c2 s" for s L'
    proof (rule tran_stepI [OF s])
      have ok2: "ctx_ok tid w L' ?c2" by (rule written_ok [OF ok1 fin]) (use L' in auto)
      have "ctx_ok tid ?w L' ?c2"
        using ok2 True r(3) \<open>k \<noteq> []\<close> unfolding w' ctx_ok_def write_immediately_def by auto
      then show "ctx_inv tid st ?w L' ?c2" unfolding ctx_inv_def by (intro conjI stat) simp_all
      have "r \<in> set L'" using list_emb_set [OF L'(2), of r] by auto
      then have "logged L' k v tid" using r \<open>k \<noteq> []\<close> by (auto simp: logged_def)
      then show "evolves tid w L st ?w L' st"
        using L'(1) built unfolding evolves_def w' by auto
      show "ctx_step {k} c ?c2" using assms(3) by (simp add: ctx_step_def ctx_grow_def tran_finished_def)
    qed
    have dom: "dom (batch_map [(k, v)] (tc_tranc_id c)) \<inter> dom w = {}"
      using fresh [OF True] by (auto simp: put_batch_single tid)
    note P = persist_pending [OF w1, of env d w st io]
    note G = triple_tengine [OF engine_put_batch_at [OF assms(1) dom]]
    have put: "triple (\<lambda>s. \<exists>L'. ?L L' \<and> subseq (tc_operations ?c1) L' \<and> sess env d w L' st ?c2 s)
        (cbind (tengine (engine_put_batch env [(k, v)] (tc_tranc_id c) (\<lambda>_. coin))) (\<lambda>_. cret ())) (\<lambda>_. ?T) ?T"
    proof (rule triple_ex, rule triple_assume, rule triple_assume)
      fix L'
      assume L': "?L L'" "subseq (tc_operations ?c1) L'"
      show "triple (sess env d w L' st ?c2) (cbind (tengine (engine_put_batch env [(k, v)] (tc_tranc_id c) (\<lambda>_. coin)))
          (\<lambda>_. cret ())) (\<lambda>_. ?T) ?T"
        by (rule triple_bind [OF triple_weaken [OF G, where Q' = "\<lambda>_. ?T" and E' = ?T]])
          (use step2 [OF L'] in \<open>auto simp: triple_def cret_def\<close>)
    qed
    have "triple (sess env d w L st ?c1) (cbind (persist_pending_wal io) (\<lambda>_.
        cbind (tengine (engine_put_batch env [(k, v)] (tc_tranc_id c) (\<lambda>_. coin))) (\<lambda>_. cret ()))) (\<lambda>_. ?T) ?T"
      by (rule triple_bind [OF triple_weaken [OF P] put]) (use step1 in \<open>auto\<close>)
    then show ?thesis
      unfolding tran_record_def if_P [OF True] by (rule triple_tmod [rotated]) (simp add: sess_def)
  qed
qed

lemma put_record_writes: "putRecord tid k v = Inr r \<Longrightarrow> built_record r \<and> wr_tranc_id r = tid \<and> op_writes r k v"
proof (intro conjI)
  assume r: "putRecord tid k v = Inr r"
  then show "built_record r" unfolding built_record_def by blast
  from r show "wr_tranc_id r = tid" "op_writes r k v"
    by (auto simp: op_writes_def putRecord_def Let_def split: if_splits)
qed

lemma delete_record_writes: "deleteRecord tid k = Inr r \<Longrightarrow> built_record r \<and> wr_tranc_id r = tid \<and> op_writes r k []"
proof (intro conjI)
  assume r: "deleteRecord tid k = Inr r"
  then show "built_record r" unfolding built_record_def by blast
  from r show "wr_tranc_id r = tid" "op_writes r k []"
    by (auto simp: op_writes_def deleteRecord_def Let_def split: if_splits)
qed

lemma record_errors: "putRecord tid k v = Inl err \<Longrightarrow> thrown err" "deleteRecord tid k = Inl err \<Longrightarrow> thrown err"
  by (auto simp: putRecord_def deleteRecord_def Let_def split: if_splits)

lemma tran_put_record:
  "tran_put env io k v coin = cbind (tget ts_ctx) (\<lambda>c. if tran_finished c then cthrow Logic_Error
     else cbind (clift (putRecord (tc_tranc_id c) k v)) (\<lambda>r. tran_record env io c r k v coin))"
  "tran_remove env io k coin = cbind (tget ts_ctx) (\<lambda>c. if tran_finished c then cthrow Logic_Error
     else cbind (clift (deleteRecord (tc_tranc_id c) k)) (\<lambda>r. tran_record env io c r k [] coin))"
  unfolding tran_put_def tran_remove_def tran_record_def writes_are_batches by simp_all

text \<open>Any call that gives up at once.\<close>

lemma tran_step_same: "sess env d w L st c s \<Longrightarrow> ctx_inv tid st w L c \<Longrightarrow> tran_step env d tid K w L st c s"
  by (erule tran_stepI) simp_all

lemma thrown_Logic [simp]: "thrown Logic_Error"
  by (simp add: thrown_def)

lemma tran_write_step:
  assumes "env_ok env" "ctx_inv tid st w L c" "k \<noteq> []" "write_immediately c \<Longrightarrow> (k, tid) \<notin> dom w"
  shows "triple (sess env d w L st c) (tran_put env io k v coin)
      (\<lambda>_. tran_step env d tid {k} w L st c) (tran_step env d tid {k} w L st c)"
    "triple (sess env d w L st c) (tran_remove env io k coin)
      (\<lambda>_. tran_step env d tid {k} w L st c) (tran_step env d tid {k} w L st c)"
proof -
  let ?T = "tran_step env d tid {k} w L st c"
  note same = tran_step_same [OF _ assms(2)]
  have tid: "tc_tranc_id c = tid" using assms(2) by (simp add: ctx_inv_def ctx_ok_def)
  have rec: "triple (sess env d w L st c) (cbind (clift mk) (\<lambda>r. tran_record env io c r k v coin)) (\<lambda>_. ?T) ?T"
    if fin: "\<not> tran_finished c" and ok: "\<And>r. mk = Inr r \<Longrightarrow> built_record r \<and> wr_tranc_id r = tid \<and> op_writes r k v"
      and err: "\<And>err. mk = Inl err \<Longrightarrow> thrown err" for mk v
  proof (cases mk)
    case (Inl e)
    then show ?thesis using err same by (auto intro!: triple_throw)
  next
    case (Inr r)
    then show ?thesis using tran_record_step [OF assms(1,2) fin _ _ _ assms(3,4), of r v] ok by simp
  qed
  have fin: "triple (sess env d w L st c) (cthrow Logic_Error) (\<lambda>_. ?T) ?T"
    by (rule triple_throw) (simp_all add: same)
  have start: "triple (sess env d w L st c) (cbind (tget ts_ctx) g) (\<lambda>_. ?T) ?T"
    if "triple (sess env d w L st c) (g c) (\<lambda>_. ?T) ?T" for g
    by (rule triple_tget [where x = c]) (use that in \<open>simp_all add: sess_def\<close>)
  show "triple (sess env d w L st c) (tran_put env io k v coin) (\<lambda>_. ?T) ?T"
    unfolding tran_put_record
    by (rule start) (use fin rec [of "putRecord tid k v" v] put_record_writes record_errors(1) tid in auto)
  show "triple (sess env d w L st c) (tran_remove env io k coin) (\<lambda>_. ?T) ?T"
    unfolding tran_put_record
    by (rule start) (use fin rec [of "deleteRecord tid k" "[]"] delete_record_writes record_errors(2) tid in auto)
qed

section \<open>Reads\<close>

definition st_skip :: "status \<Rightarrow> bool \<Rightarrow> u64 \<Rightarrow> bool" where
  "st_skip st rc t \<longleftrightarrow> (case st of (b, n, act, abt) \<Rightarrow> t \<in> set abt \<or> rc \<and> t \<in> set act)"

lemma skip_status: "status m = st \<Longrightarrow> (\<lambda>t. tm_should_skip_read m t rc) = st_skip st rc"
  by (auto simp: status_def st_skip_def tm_should_skip_read_def fun_eq_iff)

text \<open>The query behind a read, by isolation level, and the context after it.\<close>

definition reads :: "versions \<Rightarrow> status \<Rightarrow> tran_context \<Rightarrow> bytes \<Rightarrow> (bytes \<times> u64) option \<Rightarrow> tran_context \<Rightarrow> bool" where
  "reads w st c k q c' \<longleftrightarrow>
     (if tc_isolation_level c = READ_UNOP_COMMITTED \<or> tc_isolation_level c = READ_OP_COMMITTED
      then c' = c \<and> (\<exists>r. q = visible r \<and>
        newest (graph_of w) k 0 (Some (st_skip st (tc_isolation_level c \<noteq> READ_UNOP_COMMITTED))) r)
      else case map_of (tc_read_map c) k of
          Some q' \<Rightarrow> q = q' \<and> c' = c
        | None \<Rightarrow> c' = c\<lparr>tc_read_map := tc_read_map c @ [(k, q)]\<rparr> \<and>
            (\<exists>r. q = visible r \<and> newest (graph_of w) k (tc_tranc_id c) (Some (st_skip st True)) r))"

lemma tran_query_reads:
  assumes "sess env d w L st c s" "k \<noteq> []"
  shows "\<exists>q c' s'. tran_query env k s = (Inr q, s') \<and> sess env d w L st c' s' \<and> reads w st c k q c'"
proof -
  have S: "engine_at env w st (ts_engine s)" "wal_holds d (ts_wal s) L" "ts_ctx s = c"
    using assms(1) by (simp_all add: sess_def)
  obtain m where m: "e_tran_manager (ts_engine s) = Some m" "status m = st"
    using S(1) by (auto elim: engine_atE)
  have get: "\<exists>r e'. tengine (engine_get env k t rc) s = (Inr (visible r), s\<lparr>ts_engine := e'\<rparr>) \<and>
      engine_at env w st e' \<and> newest (graph_of w) k t (Some (st_skip st rc)) r" for t rc
  proof -
    obtain r e' where "engine_get env k t rc (ts_engine s) = (Inr (visible r), e')" "engine_at env w st e'"
      "newest (graph_of w) k t (Some (st_skip st rc)) r"
      using engine_get_at [OF S(1) assms(2) m(1), of t rc] unfolding skip_status [OF m(2)] by blast
    then show ?thesis by (intro exI [of _ r] exI [of _ e']) (simp add: tengine_def)
  qed
  let ?level = "tc_isolation_level c"
  show ?thesis
  proof (cases "?level = READ_UNOP_COMMITTED \<or> ?level = READ_OP_COMMITTED")
    case True
    obtain r e' where r: "tengine (engine_get env k 0 (?level \<noteq> READ_UNOP_COMMITTED)) s = (Inr (visible r), s\<lparr>ts_engine := e'\<rparr>)"
      "engine_at env w st e'" "newest (graph_of w) k 0 (Some (st_skip st (?level \<noteq> READ_UNOP_COMMITTED))) r"
      using get by blast
    have "tran_query env k s = (Inr (visible r), s\<lparr>ts_engine := e'\<rparr>)"
      using True r(1) by (simp add: tran_query_def cbind_def tget_def S(3) Let_def)
    moreover have "reads w st c k (visible r) c" using True r(3) unfolding reads_def by auto
    moreover have "sess env d w L st c (s\<lparr>ts_engine := e'\<rparr>)" using S r(2) by (simp add: sess_def)
    ultimately show ?thesis by blast
  next
    case False
    then have rc: "?level \<noteq> READ_UNOP_COMMITTED" by blast
    show ?thesis
    proof (cases "map_of (tc_read_map c) k")
      case None
      obtain r e' where r: "tengine (engine_get env k (tc_tranc_id c) True) s = (Inr (visible r), s\<lparr>ts_engine := e'\<rparr>)"
        "engine_at env w st e'" "newest (graph_of w) k (tc_tranc_id c) (Some (st_skip st True)) r"
        using get by blast
      let ?c = "c\<lparr>tc_read_map := tc_read_map c @ [(k, visible r)]\<rparr>"
      have "tran_query env k s = (Inr (visible r), s\<lparr>ts_engine := e', ts_ctx := ?c\<rparr>)"
        using False None r(1) rc by (simp add: tran_query_def cbind_def tget_def S(3) Let_def tmod_def cret_def)
      moreover have "reads w st c k (visible r) ?c" using False None r(3) unfolding reads_def by auto
      moreover have "sess env d w L st ?c (s\<lparr>ts_engine := e', ts_ctx := ?c\<rparr>)" using S r(2) by (simp add: sess_def)
      ultimately show ?thesis by blast
    next
      case (Some q)
      have "tran_query env k s = (Inr q, s)"
        using False Some by (simp add: tran_query_def cbind_def tget_def S(3) Let_def cret_def)
      moreover have "reads w st c k q c" using False Some unfolding reads_def by simp
      ultimately show ?thesis using assms(1) by blast
    qed
  qed
qed

lemma reads_inv:
  assumes "ctx_inv tid st w L c" "\<not> tran_finished c" "k \<noteq> []" "reads w st c k q c'"
  shows "ctx_inv tid st w L c' \<and> ctx_grow {} c c'"
proof -
  have "c' = c \<or> (map_of (tc_read_map c) k = None \<and> c' = c\<lparr>tc_read_map := tc_read_map c @ [(k, q)]\<rparr>)"
    using assms(4) unfolding reads_def by (auto split: if_splits option.splits)
  then show ?thesis
  proof
    assume "c' = c"
    with assms(1) show ?thesis by (simp add: ctx_grow_def)
  next
    assume new: "map_of (tc_read_map c) k = None \<and> c' = c\<lparr>tc_read_map := tc_read_map c @ [(k, q)]\<rparr>"
    then have "ctx_inv tid st w L c'"
      using assms(1,3) unfolding ctx_inv_def ctx_ok_def ctx_status_def write_immediately_def by simp
    moreover have "ctx_grow {} c c'" using new assms(2) by (auto simp: ctx_grow_def tran_finished_def map_add_Some_iff)
    ultimately show ?thesis ..
  qed
qed

text \<open>A read: refused when the transaction has ended, its own write, or the query.\<close>

lemma tran_get_cases:
  assumes "sess env d w L st c s" "k \<noteq> []"
  shows "if tran_finished c then tran_get env k s = (Inl Logic_Error, s)
    else case map_of (tc_temp_map c) k of
        Some v \<Rightarrow> tran_get env k s = (Inr (if v = [] then None else Some v), s)
      | None \<Rightarrow> \<exists>q c' s'. tran_get env k s = (Inr (map_option fst q), s') \<and> sess env d w L st c' s' \<and> reads w st c k q c'"
proof -
  have c: "ts_ctx s = c" using assms(1) by (simp add: sess_def)
  show ?thesis
  proof (cases "tran_finished c \<or> map_of (tc_temp_map c) k \<noteq> None")
    case True
    then show ?thesis by (auto simp: tran_get_def cbind_def tget_def c cthrow_def cret_def)
  next
    case False
    obtain q c' s' where q: "tran_query env k s = (Inr q, s')" "sess env d w L st c' s'" "reads w st c k q c'"
      using tran_query_reads [OF assms] by blast
    from False q(1) have "tran_get env k s = (Inr (map_option fst q), s')"
      by (auto simp: tran_get_def cbind_def tget_def c cret_def)
    with False q(2,3) show ?thesis by auto
  qed
qed

end
