(* ===== verification/Tran_Commit.thy ===== *)
theory Tran_Commit
  imports Tran_Inv
begin

text \<open>
  Commit and rollback of one context: a commit that returns true has logged the transaction, then
  put all of its writes into the engine, none of them below a newer version; in every other case
  the engine is as before, or the transaction is committed and only a flush has failed.
\<close>

section \<open>Ending a transaction\<close>

definition st_end :: "u64 \<Rightarrow> transaction_state \<Rightarrow> status \<Rightarrow> status" where
  "st_end tid x st = (case st of (b, n, act, abt) \<Rightarrow>
     (b, n, removeAll tid act, if x = ABORTED then List.insert tid abt else abt))"

lemma status_end: "status (tm_add_ready_to_flush_tranc_id m tid x) = st_end tid x (status m)"
  by (simp add: status_def st_end_def tm_add_ready_to_flush_tranc_id_def)

lemma status_change_end: "status_change tid st (st_end tid x st)"
  by (auto simp: status_change_def st_end_def split: prod.split)

lemma shows_manager: "engine_shows env w e \<Longrightarrow> engine_shows env w (e\<lparr>e_tran_manager := man\<rparr>)"
  unfolding engine_shows_def engine_ok_def engine_records_def l0_length_def by simp

lemma finish_at:
  "triple (engine_at env w st) (emod (\<lambda>e. e\<lparr>e_tran_manager := map_option (\<lambda>m. tm_add_ready_to_flush_tranc_id m tid x) (e_tran_manager e)\<rparr>))
    (\<lambda>_. engine_at env w (st_end tid x st)) (engine_at env w (st_end tid x st))"
  using status_end [of _ tid x] shows_manager [of env w] by (auto simp: triple_def emod_def engine_at_def)

lemma finish_at':
  "engine_at env w st e \<Longrightarrow> \<exists>e'. emod (\<lambda>e. e\<lparr>e_tran_manager := map_option (\<lambda>m. tm_add_ready_to_flush_tranc_id m tid x) (e_tran_manager e)\<rparr>) e
     = (Inr (), e') \<and> engine_at env w (st_end tid x st) e'"
  using finish_at [of env w st tid x] by (auto simp: triple_def emod_def)

lemma triple_tengine_never:
  assumes "\<And>e. engine_at env w st e \<Longrightarrow> \<exists>e'. m e = (Inr (), e') \<and> engine_at env w' st' e'"
  shows "triple (sess env d w L st c) (tengine m) (\<lambda>_. sess env d w' L st' c) (\<lambda>_. False)"
  using assms unfolding triple_def sess_def tengine_def by (fastforce split: prod.splits sum.splits)

text \<open>The context of a transaction that was rolled back.\<close>

lemma aborted_ctx:
  assumes "ctx_inv tid st w L c" "\<not> tran_finished c"
  shows "ctx_inv tid (st_end tid ABORTED st) w L (c\<lparr>tc_is_aborted := True\<rparr>) \<and>
      evolves tid w L st w L (st_end tid ABORTED st) \<and> ctx_step K c (c\<lparr>tc_is_aborted := True\<rparr>)"
    "ctx_inv tid (st_end tid ABORTED st) w L
        (c\<lparr>tc_is_aborted := True, tc_temp_map := [], tc_read_map := [], tc_operations := []\<rparr>) \<and>
      ctx_step K c (c\<lparr>tc_is_aborted := True, tc_temp_map := [], tc_read_map := [], tc_operations := []\<rparr>)"
proof -
  have ok: "ctx_ok tid w L c" and stat: "ctx_status tid st c" using assms(1) by (simp_all add: ctx_inv_def)
  have nf: "\<not> tc_is_commited c" "\<not> tc_is_aborted c" using assms(2) by (simp_all add: tran_finished_def)
  have ok': "ctx_ok tid w L (c\<lparr>tc_is_aborted := True\<rparr>)"
    "ctx_ok tid w L (c\<lparr>tc_is_aborted := True, tc_temp_map := [], tc_read_map := [], tc_operations := []\<rparr>)"
    using ok nf unfolding ctx_ok_def write_immediately_def by simp_all
  have stat': "ctx_status tid (st_end tid ABORTED st) c'" if "tc_is_aborted c'" for c'
    using stat that by (auto simp: ctx_status_def st_end_def split: prod.splits)
  have "evolves tid w L st w L (st_end tid ABORTED st)" by (simp add: evolves_def status_change_end)
  then show "ctx_inv tid (st_end tid ABORTED st) w L (c\<lparr>tc_is_aborted := True\<rparr>) \<and>
      evolves tid w L st w L (st_end tid ABORTED st) \<and> ctx_step K c (c\<lparr>tc_is_aborted := True\<rparr>)"
    "ctx_inv tid (st_end tid ABORTED st) w L
        (c\<lparr>tc_is_aborted := True, tc_temp_map := [], tc_read_map := [], tc_operations := []\<rparr>) \<and>
      ctx_step K c (c\<lparr>tc_is_aborted := True, tc_temp_map := [], tc_read_map := [], tc_operations := []\<rparr>)"
    using ok' stat' assms(2) by (simp_all add: ctx_inv_def ctx_step_def ctx_grow_def tran_finished_def)
qed

lemma finish_tran_tengine:
  "finish_tran tid x = tengine (emod (\<lambda>e. e\<lparr>e_tran_manager := map_option (\<lambda>m. tm_add_ready_to_flush_tranc_id m tid x) (e_tran_manager e)\<rparr>))"
  by (simp add: finish_tran_def tmanager_def)

section \<open>Commit\<close>

definition commit_step ::
  "engine_env \<Rightarrow> dir \<Rightarrow> u64 \<Rightarrow> versions \<Rightarrow> wal_record list \<Rightarrow> status \<Rightarrow> tran_context \<Rightarrow> tran_state \<Rightarrow> bool" where
  "commit_step env d tid w L st c s \<longleftrightarrow> (\<exists>w' L' st' c'. sess env d w' L' st' c' s \<and>
     w' = (if tc_is_commited c' then w ++ commit_batch c else w) \<and>
     ctx_inv tid st' w' L' c' \<and> evolves tid w L st w' L' st' \<and> ctx_step {} c c')"

text \<open>The records that a committed transaction leaves in its context and in the log.\<close>

definition committed_ctx :: "tran_context \<Rightarrow> tran_context" where
  "committed_ctx c = c\<lparr>tc_operations := tc_operations c @ [commitRecord (tc_tranc_id c)],
     tc_wal_written_count := Suc (length (tc_operations c)), tc_is_commited := True\<rparr>"

definition no_newer :: "versions \<Rightarrow> status \<Rightarrow> tran_context \<Rightarrow> bool" where
  "no_newer w st c \<longleftrightarrow> write_immediately c \<or> (\<forall>kv \<in> set (tc_temp_map c). \<forall>v t.
     w (fst kv, t) = Some v \<longrightarrow> \<not> st_skip st False t \<longrightarrow> t \<le> tc_tranc_id c)"

definition commit_done ::
  "engine_env \<Rightarrow> dir \<Rightarrow> versions \<Rightarrow> wal_record list \<Rightarrow> status \<Rightarrow> tran_context \<Rightarrow> tran_state \<Rightarrow> bool" where
  "commit_done env d w L st c s \<longleftrightarrow> no_newer w st c \<and> wal_clean (ts_wal s) \<and> (\<exists>L'. prefix L L' \<and>
     set L' \<subseteq> set L \<union> set (tc_operations (committed_ctx c)) \<and> subseq (tc_operations (committed_ctx c)) L' \<and>
     sess env d (w ++ commit_batch c) L' (st_end (tc_tranc_id c) OP_COMMITTED st) (committed_ctx c) s)"

lemma commit_step_tran_step: "commit_step env d tid w L st c s \<Longrightarrow> tran_step env d tid {} w L st c s"
  unfolding commit_step_def tran_step_def by blast

lemma commit_batch_dom: "dom (commit_batch c) \<subseteq> {(k, t). t = tc_tranc_id c}"
  by (auto simp: commit_batch_def dom_batch_map)

lemma commit_batch_fresh:
  assumes "ctx_ok tid w L c" "\<not> tran_finished c"
  shows "dom (commit_batch c) \<inter> dom w = {}"
proof -
  have tid: "tc_tranc_id c = tid" using assms(1) unfolding ctx_ok_def by blast
  have w: "w (k, tid) = Some v \<Longrightarrow> write_immediately c \<and> k \<noteq> []" for k v
    using assms unfolding ctx_ok_def tran_finished_def by blast
  have "w (fst kv, tid) = None" if kv: "kv \<in> set (commit_writes c)" for kv
  proof (rule ccontr)
    assume "w (fst kv, tid) \<noteq> None"
    with w kv show False by (cases "write_immediately c") (auto simp: commit_writes_def)
  qed
  then show ?thesis by (auto simp: commit_batch_def dom_batch_map tid)
qed

text \<open>Every version of the batch is logged by the operations of the committed context.\<close>

lemma batch_map_lookup: "batch_map kvs t (k, t') = (if t' = t then map_of (rev kvs) k else None)"
proof (induction kvs)
  case Nil
  show ?case by (simp add: batch_map_def)
next
  case (Cons kv kvs)
  then show ?case by (auto simp: batch_map_Cons map_add_def split: option.split)
qed

lemma commit_batch_lookup:
  "commit_batch c (k, t) = (if t \<noteq> tc_tranc_id c then None else if k = [] then Some []
     else if write_immediately c then None else map_of (rev (tc_temp_map c)) k)"
  by (simp add: commit_batch_def batch_map_lookup commit_writes_def)

lemma commit_batch_writes:
  assumes "ctx_ok tid w L c" "commit_batch c (k, t) = Some v"
  shows "t = tid \<and> (k \<noteq> [] \<longrightarrow> (\<exists>r \<in> set (tc_operations c). op_writes r k v))"
proof -
  have "t = tid" using assms by (auto simp: commit_batch_lookup ctx_ok_def split: if_splits)
  moreover have "\<exists>r \<in> set (tc_operations c). op_writes r k v" if "k \<noteq> []"
  proof -
    have "(k, v) \<in> set (tc_temp_map c)"
      using assms(2) that by (auto simp: commit_batch_lookup dest!: map_of_SomeD split: if_splits)
    then show ?thesis using assms(1) unfolding ctx_ok_def by force
  qed
  ultimately show ?thesis by blast
qed

lemma committed_facts:
  "tc_tranc_id (committed_ctx c) = tc_tranc_id c" "tc_temp_map (committed_ctx c) = tc_temp_map c"
  "tc_read_map (committed_ctx c) = tc_read_map c" "tc_is_aborted (committed_ctx c) = tc_is_aborted c"
  "tc_isolation_level (committed_ctx c) = tc_isolation_level c" "write_immediately (committed_ctx c) = write_immediately c"
  "tc_is_commited (committed_ctx c)" "tran_finished (committed_ctx c)"
  by (simp_all add: committed_ctx_def write_immediately_def tran_finished_def)

lemma committed_inv:
  assumes "ctx_inv tid st w L c" "\<not> tran_finished c" "prefix L L'"
    and ops: "subseq (tc_operations (committed_ctx c)) L'"
  shows "ctx_inv tid (st_end tid OP_COMMITTED st) (w ++ commit_batch c) L' (committed_ctx c)"
    "ctx_inv tid st (w ++ commit_batch c) L' (committed_ctx c)"
proof -
  have ok: "ctx_ok tid w L c" and stat: "ctx_status tid st c" using assms(1) by (simp_all add: ctx_inv_def)
  have nf: "\<not> tc_is_commited c" "\<not> tc_is_aborted c" using assms(2) by (simp_all add: tran_finished_def)
  have c': "tc_operations (committed_ctx c) = tc_operations c @ [commitRecord tid]"
    "tc_wal_written_count (committed_ctx c) = length (tc_operations (committed_ctx c))"
    using ok by (simp_all add: committed_ctx_def ctx_ok_def)
  have writes: "\<exists>r \<in> set (tc_operations (committed_ctx c)). op_writes r k v"
    if "(w ++ commit_batch c) (k, tid) = Some v" "k \<noteq> []" for k v
  proof (cases "commit_batch c (k, tid)")
    case None
    then have "w (k, tid) = Some v" using that(1) by (simp add: map_add_def)
    then have "\<exists>r \<in> set (tc_operations c). op_writes r k v" using ok nf that(2) unfolding ctx_ok_def by blast
    then show ?thesis unfolding c' by auto
  next
    case (Some u)
    then have "commit_batch c (k, tid) = Some v" using that(1) by (simp add: map_add_def)
    from commit_batch_writes [OF ok this] that(2) show ?thesis unfolding c' by auto
  qed
  have "built_record (commitRecord tid)" by (auto simp: built_record_def)
  moreover have "wr_tranc_id (commitRecord tid) = tid" by (simp add: commitRecord_def)
  ultimately have built: "\<forall>r \<in> set (tc_operations (committed_ctx c)). built_record r \<and> wr_tranc_id r = tid"
    using ok unfolding c' ctx_ok_def by auto
  have tmp: "\<forall>kv \<in> set (tc_temp_map c). fst kv \<noteq> [] \<and>
      (\<exists>r \<in> set (tc_operations (committed_ctx c)). op_writes r (fst kv) (snd kv))"
    using ok unfolding c' ctx_ok_def by auto
  have rest: "tc_tranc_id c = tid" "distinct (map fst (tc_temp_map c))" "\<forall>q \<in> set (tc_read_map c). fst q \<noteq> []"
    using ok unfolding ctx_ok_def by blast+
  have "ctx_ok tid (w ++ commit_batch c) L' (committed_ctx c)"
    unfolding ctx_ok_def using rest built tmp writes ops c'(2) nf by (simp add: committed_facts)
  moreover have "ctx_status tid (st_end tid OP_COMMITTED st) (committed_ctx c)" "ctx_status tid st (committed_ctx c)"
    using stat nf by (auto simp: ctx_status_def st_end_def committed_facts split: prod.splits)
  ultimately show "ctx_inv tid (st_end tid OP_COMMITTED st) (w ++ commit_batch c) L' (committed_ctx c)"
    "ctx_inv tid st (w ++ commit_batch c) L' (committed_ctx c)" by (simp_all add: ctx_inv_def)
qed

lemma committed_evolves:
  assumes "ctx_inv tid st w L c" "prefix L L'" "set L' \<subseteq> set L \<union> set (tc_operations (committed_ctx c))"
    and ops: "subseq (tc_operations (committed_ctx c)) L'" and st': "status_change tid st st'"
  shows "evolves tid w L st (w ++ commit_batch c) L' st'"
proof -
  have ok: "ctx_ok tid w L c" using assms(1) by (simp add: ctx_inv_def)
  then have tid: "tc_tranc_id c = tid" unfolding ctx_ok_def by blast
  have ops': "tc_operations (committed_ctx c) = tc_operations c @ [commitRecord tid]" by (simp add: committed_ctx_def tid)
  have sub: "set (tc_operations (committed_ctx c)) \<subseteq> set L'" using list_emb_set [OF ops] by blast
  have other: "(w ++ commit_batch c) (k, t) = w (k, t)" if "t \<noteq> tid" for k t
    using that by (simp add: map_add_def commit_batch_lookup tid)
  have log: "w (k, tid) = Some v \<or> logged L' k v tid" if v: "(w ++ commit_batch c) (k, tid) = Some v" for k v
  proof (cases "commit_batch c (k, tid)")
    case None
    then show ?thesis using v by (simp add: map_add_def)
  next
    case (Some u)
    then have b: "commit_batch c (k, tid) = Some v" using v by (simp add: map_add_def)
    have "logged L' k v tid"
    proof (cases "k = []")
      case True
      have "commitRecord tid \<in> set L'" using sub unfolding ops' by simp
      then show ?thesis using True by (auto simp: logged_def commitRecord_def intro!: bexI)
    next
      case False
      with commit_batch_writes [OF ok b] obtain r where "r \<in> set (tc_operations c)" "op_writes r k v" by blast
      moreover from this have "r \<in> set L'" "wr_tranc_id r = tid" using sub ok unfolding ops' ctx_ok_def by auto
      ultimately show ?thesis using False by (auto simp: logged_def)
    qed
    then show ?thesis ..
  qed
  have "built_record (commitRecord tid)" by (auto simp: built_record_def)
  then have "\<forall>r \<in> set (tc_operations (committed_ctx c)). built_record r" using ok unfolding ops' ctx_ok_def by auto
  with assms(2,3) st' other log show ?thesis unfolding evolves_def by blast
qed

lemma apply_at:
  assumes "dom (commit_batch c) \<inter> dom w = {}"
  shows "triple (engine_at env w st) (apply_writes c coins)
    (\<lambda>_. engine_at env (w ++ commit_batch c) st) (engine_at env (w ++ commit_batch c) st)"
  unfolding triple_def
proof (intro allI impI)
  fix e
  assume "engine_at env w st e"
  from apply_writes_at [OF this assms, of coins]
  show "case apply_writes c coins e of (Inl err, e') \<Rightarrow> thrown err \<and> engine_at env (w ++ commit_batch c) st e'
      | (Inr x, e') \<Rightarrow> engine_at env (w ++ commit_batch c) st e'"
    by auto
qed

lemma freeze_at:
  "triple (engine_at env w st) (emod (\<lambda>e. e\<lparr>e_memtable := freeze_if_full limit (e_memtable e)\<rparr>))
    (\<lambda>_. engine_at env w st) (engine_at env w st)"
  by (simp add: triple_def emod_def engine_at_def freeze_shows)

text \<open>The wal stays clean while only the engine works.\<close>

lemma triple_tengine_wal:
  assumes "triple (engine_at env w st) m (\<lambda>_. engine_at env w' st') (engine_at env w' st')"
  shows "triple (\<lambda>s. wal_clean (ts_wal s) \<and> sess env d w L st c s) (tengine m)
    (\<lambda>_ s. wal_clean (ts_wal s) \<and> sess env d w' L st' c s) (sess env d w' L st' c)"
  using assms unfolding triple_def sess_def tengine_def
  by (fastforce split: prod.splits sum.splits)

lemma commit_step_same:
  assumes "ctx_inv tid st w L c" "\<not> tran_finished c" "sess env d w L st c s"
  shows "commit_step env d tid w L st c s"
  unfolding commit_step_def using assms
  by (intro exI [of _ w] exI [of _ L] exI [of _ st] exI [of _ c]) (simp add: tran_finished_def)

text \<open>The three parts of a commit: the refusal, the log, and what follows the log.\<close>

definition commit_refused :: "u64 \<Rightarrow> bool tio" where
  "commit_refused tid = cbind (finish_tran tid ABORTED) (\<lambda>_. cbind (tmod (\<lambda>c. c\<lparr>tc_is_aborted := True\<rparr>)) (\<lambda>_. cret False))"

definition commit_applied :: "engine_env \<Rightarrow> u64 \<Rightarrow> tran_context \<Rightarrow> (nat \<Rightarrow> nat \<Rightarrow> bool) \<Rightarrow> bool tio" where
  "commit_applied env tid c coins =
     cbind (tmod (\<lambda>c. c\<lparr>tc_is_commited := True\<rparr>)) (\<lambda>_.
     cbind (tengine (apply_writes c coins)) (\<lambda>_.
     cbind (finish_tran tid OP_COMMITTED) (\<lambda>_.
     cbind (tengine (emod (\<lambda>e. e\<lparr>e_memtable := freeze_if_full (env_per_mem env) (e_memtable e)\<rparr>))) (\<lambda>_.
     cbind (tengine (cbind (eget flush_fuel) (\<lambda>n. flush_while n env (env_tol_mem env)))) (\<lambda>_. cret True)))))"

definition commit_logged :: "engine_env \<Rightarrow> wal_io \<Rightarrow> u64 \<Rightarrow> tran_context \<Rightarrow> (nat \<Rightarrow> nat \<Rightarrow> bool) \<Rightarrow> bool tio" where
  "commit_logged env io tid c coins =
     cbind (tmod (add_operation (commitRecord tid))) (\<lambda>_.
     cbind (persist_pending_wal io) (\<lambda>_. commit_applied env tid c coins))"

lemma tran_commit_parts:
  "tran_commit env test_fail io coins =
     cbind (tget ts_ctx) (\<lambda>c.
       if tran_finished c then cret False
       else if test_fail then cthrow Logic_Error
       else cbind lock_manager (\<lambda>m.
           if list_ex ends_tran (tc_operations c) then cthrow Logic_Error
           else cbind (tengine (tran_conflict env m c)) (\<lambda>conflict.
               if conflict then commit_refused (tc_tranc_id c) else commit_logged env io (tc_tranc_id c) c coins)))"
  unfolding tran_commit_def commit_refused_def commit_logged_def commit_applied_def ..

definition commit_post ::
  "engine_env \<Rightarrow> dir \<Rightarrow> u64 \<Rightarrow> versions \<Rightarrow> wal_record list \<Rightarrow> status \<Rightarrow> tran_context \<Rightarrow> bool \<Rightarrow> tran_state \<Rightarrow> bool" where
  "commit_post env d tid w L st c b s \<longleftrightarrow> commit_step env d tid w L st c s \<and> (b \<longrightarrow> commit_done env d w L st c s)"

lemma commit_refused_triple:
  assumes "ctx_inv tid st w L c" "\<not> tran_finished c"
  shows "triple (sess env d w L st c) (commit_refused tid) (commit_post env d tid w L st c) (commit_step env d tid w L st c)"
proof -
  let ?S = "commit_step env d tid w L st c"
  let ?st = "st_end tid ABORTED st" and ?c = "c\<lparr>tc_is_aborted := True\<rparr>"
  have ended: "?S s" if "sess env d w L ?st ?c s" for s
    unfolding commit_step_def using that aborted_ctx(1) [OF assms] assms(2)
    by (intro exI [of _ w] exI [of _ L] exI [of _ ?st] exI [of _ ?c]) (simp add: tran_finished_def)
  have finish: "triple (sess env d w L st c) (finish_tran tid ABORTED) (\<lambda>_. sess env d w L ?st c) ?S"
    unfolding finish_tran_tengine by (rule triple_weaken [OF triple_tengine_never [OF finish_at']]) auto
  show ?thesis
    unfolding commit_refused_def
    by (rule triple_bind [OF finish], rule triple_tmod [where R = "sess env d w L ?st ?c"])
      (auto simp: sess_def commit_post_def intro!: triple_ret ended)
qed

lemma applied_step:
  assumes "ctx_inv tid st w L c" "\<not> tran_finished c"
    and L': "prefix L L'" "set L' \<subseteq> set L \<union> set (tc_operations (committed_ctx c))" "subseq (tc_operations (committed_ctx c)) L'"
    and st': "st' = st \<or> st' = st_end tid OP_COMMITTED st"
    and s: "sess env d (w ++ commit_batch c) L' st' (committed_ctx c) s"
  shows "commit_step env d tid w L st c s"
proof -
  let ?w = "w ++ commit_batch c"
  have "ctx_inv tid st' ?w L' (committed_ctx c)" using committed_inv [OF assms(1,2) L'(1,3)] st' by auto
  moreover have "evolves tid w L st ?w L' st'"
    by (rule committed_evolves [OF assms(1) L']) (use st' in \<open>auto simp: status_change_end\<close>)
  moreover have "ctx_step {} c (committed_ctx c)" using assms(2) by (simp add: ctx_step_def ctx_grow_def committed_facts)
  ultimately show ?thesis
    unfolding commit_step_def using s
    by (intro exI [of _ ?w] exI [of _ L'] exI [of _ st'] exI [of _ "committed_ctx c"]) (simp add: committed_facts)
qed

lemma commit_applied_triple:
  assumes "env_ok env" "ctx_inv tid st w L c" "\<not> tran_finished c"
    and L': "prefix L L'" "set L' \<subseteq> set L \<union> set (tc_operations (committed_ctx c))" "subseq (tc_operations (committed_ctx c)) L'"
    and no: "no_newer w st c" and c2: "c2\<lparr>tc_is_commited := True\<rparr> = committed_ctx c"
  shows "triple (\<lambda>s. wal_clean (ts_wal s) \<and> sess env d w L' st c2 s) (commit_applied env tid c coins)
    (commit_post env d tid w L st c) (commit_step env d tid w L st c)"
proof -
  let ?S = "commit_step env d tid w L st c" and ?w = "w ++ commit_batch c" and ?st = "st_end tid OP_COMMITTED st"
  let ?C = "\<lambda>w st s. wal_clean (ts_wal s) \<and> sess env d w L' st (committed_ctx c) s"
  have ok: "ctx_ok tid w L c" using assms(2) by (simp add: ctx_inv_def)
  then have tid: "tc_tranc_id c = tid" unfolding ctx_ok_def by blast
  note S = applied_step [OF assms(2,3) L' disjI2 [OF refl]] and S0 = applied_step [OF assms(2,3) L' disjI1 [OF refl]]
  have post: "commit_post env d tid w L st c True s" if "?C ?w ?st s" for s
    unfolding commit_post_def commit_done_def using S [of env d s] that L' no tid by auto
  have "triple (?C ?w ?st) (tengine (cbind (eget flush_fuel) (\<lambda>n. flush_while n env (env_tol_mem env)))) (\<lambda>_. ?C ?w ?st) ?S"
    by (rule triple_weaken [OF triple_tengine_wal [OF flush_while_at [OF assms(1)]]]) (use S in auto)
  then have flush: "triple (?C ?w ?st) (cbind (tengine (cbind (eget flush_fuel) (\<lambda>n. flush_while n env (env_tol_mem env))))
      (\<lambda>_. cret True)) (commit_post env d tid w L st c) ?S"
    by (rule triple_bind) (rule triple_ret, rule post)
  have freeze: "triple (?C ?w ?st) (tengine (emod (\<lambda>e. e\<lparr>e_memtable := freeze_if_full (env_per_mem env) (e_memtable e)\<rparr>)))
      (\<lambda>_. ?C ?w ?st) ?S"
    by (rule triple_weaken [OF triple_tengine_wal [OF freeze_at]]) (use S in auto)
  have finish: "triple (?C ?w st) (finish_tran tid OP_COMMITTED) (\<lambda>_. ?C ?w ?st) ?S"
    unfolding finish_tran_tengine by (rule triple_weaken [OF triple_tengine_wal [OF finish_at]]) (use S in auto)
  have applies: "triple (?C w st) (tengine (apply_writes c coins)) (\<lambda>_. ?C ?w st) ?S"
    by (rule triple_weaken [OF triple_tengine_wal [OF apply_at [OF commit_batch_fresh [OF ok assms(3)]]]])
      (use S0 in auto)
  show ?thesis
    unfolding commit_applied_def
    by (rule triple_tmod [where R = "?C w st"])
      (simp add: sess_def c2, intro triple_bind [OF applies] triple_bind [OF finish] triple_bind [OF freeze] flush)
qed

lemma commit_logged_triple:
  assumes "env_ok env" "ctx_inv tid st w L c" "\<not> tran_finished c" "no_newer w st c"
  shows "triple (sess env d w L st c) (commit_logged env io tid c coins)
    (commit_post env d tid w L st c) (commit_step env d tid w L st c)"
proof -
  let ?S = "commit_step env d tid w L st c"
  have ok: "ctx_ok tid w L c" and stat: "ctx_status tid st c" using assms(2) by (simp_all add: ctx_inv_def)
  have nf: "\<not> tc_is_commited c" "\<not> tc_is_aborted c" using assms(3) by (simp_all add: tran_finished_def)
  have tid: "tc_tranc_id c = tid" using ok unfolding ctx_ok_def by blast
  define c1 where "c1 = add_operation (commitRecord tid) c"
  define c2 where "c2 = c1\<lparr>tc_wal_written_count := length (tc_operations c1)\<rparr>"
  have c3: "c2\<lparr>tc_is_commited := True\<rparr> = committed_ctx c"
    by (simp add: c2_def c1_def add_operation_def committed_ctx_def tid)
  have c1: "tc_operations c1 = tc_operations (committed_ctx c)" by (simp add: c1_def committed_ctx_def tid)
  have "built_record (commitRecord tid)" by (auto simp: built_record_def)
  then have ok1: "ctx_ok tid w L c1"
    unfolding c1_def by (intro add_operation_ok [OF ok assms(3)]) (simp_all add: commitRecord_def)
  have built: "\<forall>r \<in> set (tc_operations c1). built_record r" using ok1 unfolding ctx_ok_def by blast
  have failed: "?S s" if "prefix L L'" "set L' \<subseteq> set L \<union> set (tc_operations c1)" "sess env d w L' st c1 s" for L' s
  proof -
    have "ctx_inv tid st w L' c1"
      unfolding ctx_inv_def using ctx_ok_log [OF ok1] that(1) stat by (simp add: c1_def ctx_status_def)
    moreover have "evolves tid w L st w L' st" by (rule evolves_log [OF that(1,2) built])
    moreover have "ctx_step {} c c1" using assms(3) by (simp add: ctx_step_def ctx_grow_def tran_finished_def c1_def)
    moreover have "\<not> tc_is_commited c1" using nf by (simp add: c1_def)
    ultimately show ?thesis
      unfolding commit_step_def using that(3)
      by (intro exI [of _ w] exI [of _ L'] exI [of _ st] exI [of _ c1]) simp
  qed
  have n: "tc_wal_written_count c1 \<le> length (tc_operations c1)" "tc_wal_written_count c1 < length (tc_operations c1)"
    "subseq (take (tc_wal_written_count c1) (tc_operations c1)) L"
    using ok1 ok nf unfolding ctx_ok_def by (auto simp: c1_def)
  have log: "triple (sess env d w L st c1) (persist_pending_wal io)
      (\<lambda>_ s. \<exists>L'. prefix L L' \<and> set L' \<subseteq> set L \<union> set (tc_operations c1) \<and> subseq (tc_operations c1) L' \<and>
         wal_clean (ts_wal s) \<and> sess env d w L' st c2 s) ?S"
    by (rule triple_weaken [OF persist_pending [OF n(1,3)]]) (use n(2) failed in \<open>auto simp: c2_def\<close>)
  show ?thesis
    unfolding commit_logged_def
    by (rule triple_tmod [where R = "sess env d w L st c1"])
      (simp add: sess_def c1_def, intro triple_bind [OF log] triple_ex triple_assume
        commit_applied_triple [OF assms(1-3) _ _ _ assms(4) c3], simp_all add: c1)
qed

lemma conflict_triple:
  assumes "ctx_ok tid w L c" "status m = st"
  shows "triple (\<lambda>s. sess env d w L st c s \<and> e_tran_manager (ts_engine s) = Some m) (tengine (tran_conflict env m c))
      (\<lambda>b s. (\<not> b \<longrightarrow> no_newer w st c) \<and> sess env d w L st c s) E"
  unfolding triple_def
proof (intro allI impI)
  fix s
  assume s: "sess env d w L st c s \<and> e_tran_manager (ts_engine s) = Some m"
  have keys: "\<forall>kv \<in> set (tc_temp_map c). fst kv \<noteq> []" "\<forall>q \<in> set (tc_read_map c). fst q \<noteq> []"
    using assms(1) unfolding ctx_ok_def by blast+
  have "engine_at env w st (ts_engine s)" using s by (simp add: sess_def)
  from tran_conflict_at [OF this keys, of m] obtain b e' where
    b: "tran_conflict env m c (ts_engine s) = (Inr b, e')" "engine_at env w st e'"
      "\<not> b \<longrightarrow> (write_immediately c \<or> (\<forall>kv \<in> set (tc_temp_map c). \<not> newer_version w m (tc_tranc_id c) (fst kv)))"
    by blast
  have "st_skip st False t \<longleftrightarrow> tm_is_aborted m t" for t
    using assms(2) by (auto simp: st_skip_def status_def tm_is_aborted_def)
  then have "\<not> b \<longrightarrow> no_newer w st c"
    using b(3) unfolding no_newer_def newer_version_def by (meson not_le)
  with b(1,2) s show "case tengine (tran_conflict env m c) s of (Inl err, st') \<Rightarrow> thrown err \<and> E st'
      | (Inr b, s) \<Rightarrow> (\<not> b \<longrightarrow> no_newer w st c) \<and> sess env d w L st c s"
    by (simp add: tengine_def sess_def)
qed

lemma tran_commit_triple:
  assumes "env_ok env" "ctx_inv tid st w L c" "\<not> tran_finished c"
  shows "triple (sess env d w L st c) (tran_commit env test_fail io coins)
    (commit_post env d tid w L st c) (commit_step env d tid w L st c)"
    (is "triple ?P _ ?Q ?S")
proof -
  have ok: "ctx_ok tid w L c" using assms(2) by (simp add: ctx_inv_def)
  then have tid: "tc_tranc_id c = tid" unfolding ctx_ok_def by blast
  have give_up: "triple P (cthrow Logic_Error) ?Q ?S" if "\<And>s. P s \<Longrightarrow> ?P s" for P
    by (rule triple_throw) (use that commit_step_same [OF assms(2,3)] in simp_all)
  have branch: "triple (\<lambda>s. (\<not> b \<longrightarrow> no_newer w st c) \<and> ?P s)
      (if b then commit_refused tid else commit_logged env io tid c coins) ?Q ?S" for b
    by (rule triple_assume)
      (cases b, use commit_refused_triple [OF assms(2,3)] commit_logged_triple [OF assms] in simp_all)
  have checked: "triple (\<lambda>s. ?P s \<and> e_tran_manager (ts_engine s) = Some m)
      (if list_ex ends_tran (tc_operations c) then cthrow Logic_Error
       else cbind (tengine (tran_conflict env m c)) (\<lambda>b.
         if b then commit_refused tid else commit_logged env io tid c coins)) ?Q ?S" if m: "status m = st" for m
  proof (cases "list_ex ends_tran (tc_operations c)")
    case True
    show ?thesis unfolding if_P [OF True] by (rule give_up) simp
  next
    case False
    show ?thesis unfolding if_not_P [OF False] by (rule triple_bind [OF conflict_triple [OF ok m] branch])
  qed
  have "triple ?P (if test_fail then cthrow Logic_Error else cbind lock_manager (\<lambda>m.
      if list_ex ends_tran (tc_operations c) then cthrow Logic_Error
       else cbind (tengine (tran_conflict env m c)) (\<lambda>b.
         if b then commit_refused tid else commit_logged env io tid c coins))) ?Q ?S"
    using triple_lock [OF checked] give_up [of ?P] by (cases test_fail) simp_all
  then show ?thesis
    unfolding tran_commit_parts by (intro triple_tget [where x = c]) (use assms(3) in \<open>simp_all add: sess_def tid cong: if_cong\<close>)
qed

section \<open>Rollback\<close>

lemma tran_abort_triple:
  assumes "ctx_inv tid st w L c" "\<not> tran_finished c"
  shows "triple (sess env d w L st c) tran_abort
    (\<lambda>_. tran_step env d tid {} w L st c) (tran_step env d tid {} w L st c)"
    (is "triple ?P _ (\<lambda>_. ?T) ?T")
proof -
  let ?st = "st_end tid ABORTED st"
  let ?f = "\<lambda>c :: tran_context. c\<lparr>tc_is_aborted := True, tc_temp_map := [], tc_read_map := [], tc_operations := []\<rparr>"
  have tid: "tc_tranc_id c = tid" using assms(1) by (simp add: ctx_inv_def ctx_ok_def)
  have give_up: "triple P (cthrow Logic_Error :: bool tio) (\<lambda>_. ?T) ?T" if "\<And>s. P s \<Longrightarrow> ?P s" for P
    by (rule triple_throw) (use that tran_step_same [OF _ assms(1)] in simp_all)
  have ended: "?T s" if "sess env d w L ?st (?f c) s" for s
    by (rule tran_stepI [OF that]) (use aborted_ctx [OF assms] in auto)
  have finish: "triple ?P (finish_tran tid ABORTED) (\<lambda>_. sess env d w L ?st c) ?T"
    unfolding finish_tran_tengine by (rule triple_weaken [OF triple_tengine_never [OF finish_at']]) auto
  have roll: "triple ?P (cbind (finish_tran tid ABORTED) (\<lambda>_. cbind (tmod ?f) (\<lambda>_. cret True))) (\<lambda>_. ?T) ?T"
    by (rule triple_bind [OF finish], rule triple_tmod [where R = "sess env d w L ?st (?f c)"])
      (auto simp: sess_def intro!: triple_ret ended)
  have "triple ?P (cbind lock_manager (\<lambda>_.
      if length (tc_operations c) < tc_wal_written_count c then cthrow Logic_Error
      else if list_ex ends_tran (tc_operations c) then cthrow Logic_Error
      else cbind (finish_tran tid ABORTED) (\<lambda>_. cbind (tmod ?f) (\<lambda>_. cret True)))) (\<lambda>_. ?T) ?T"
    by (rule triple_lock, rule triple_weaken [where P = ?P and Q = "\<lambda>_. ?T" and E = ?T])
      (use give_up [of ?P] roll in simp_all)
  then show ?thesis
    unfolding tran_abort_def
    by (intro triple_tget [where x = c]) (use assms(2) in \<open>simp_all add: sess_def tid cong: if_cong\<close>)
qed

end
