(* ===== verification/Tran_System.thy ===== *)
theory Tran_System
  imports Tran_Commit
begin

text \<open>
  The whole transactional store: one engine and its manager, one log, and any number of
  transaction contexts whose calls interleave in any order, with flushes in between and with any
  failures of the file system. What a transaction reads, and what a commit guarantees.
\<close>

section \<open>The database\<close>

record db =
  db_engine :: engine
  db_wal :: "wal option"
  db_contexts :: "u64 \<Rightarrow> tran_context option"

type_synonym 'a dbio = "(db, 'a) sio"

text \<open>A call on the context of a transaction.\<close>

definition on_context :: "u64 \<Rightarrow> 'a tio \<Rightarrow> 'a dbio" where
  "on_context tid m s = (case db_contexts s tid of
      None \<Rightarrow> (Inl Undefined, s)
    | Some c \<Rightarrow> (case m \<lparr>ts_engine = db_engine s, ts_wal = db_wal s, ts_ctx = c\<rparr> of
        (r, t) \<Rightarrow> (r, \<lparr>db_engine = ts_engine t, db_wal = ts_wal t, db_contexts = (db_contexts s)(tid \<mapsto> ts_ctx t)\<rparr>)))"

definition on_engine :: "'a eio \<Rightarrow> 'a dbio" where
  "on_engine m s = (case m (db_engine s) of (r, e) \<Rightarrow> (r, s\<lparr>db_engine := e\<rparr>))"

text \<open>\<open>TranManager::new_tranc\<close>: an id from the manager and a context for it.\<close>

definition db_begin :: "isolation_level \<Rightarrow> u64 dbio" where
  "db_begin level s = (case e_tran_manager (db_engine s) of
      None \<Rightarrow> (Inl Logic_Error, s)
    | Some m \<Rightarrow> (case tm_new_tranc m of
        Inl err \<Rightarrow> (Inl err, s)
      | Inr (tid, m') \<Rightarrow> (Inr tid, s\<lparr>db_engine := (db_engine s)\<lparr>e_tran_manager := Some m'\<rparr>,
          db_contexts := (db_contexts s)(tid \<mapsto> tran_context_new tid level)\<rparr>)))"

definition db_new :: "nat \<Rightarrow> nat \<Rightarrow> tran_manager \<Rightarrow> wal option \<Rightarrow> db" where
  "db_new cache_capacity cache_k m wo =
     \<lparr>db_engine = (engine_new cache_capacity cache_k)\<lparr>e_tran_manager := Some (tm_set_engine m)\<rparr>,
      db_wal = wo, db_contexts = (\<lambda>_. None)\<rparr>"

datatype db_op =
    D_Begin isolation_level
  | D_Put u64 wal_io bytes bytes "nat \<Rightarrow> bool"
  | D_Remove u64 wal_io bytes "nat \<Rightarrow> bool"
  | D_Get u64 bytes
  | D_Commit u64 bool wal_io "nat \<Rightarrow> nat \<Rightarrow> bool"
  | D_Abort u64
  | D_Flush

primrec db_exec :: "engine_env \<Rightarrow> db_op \<Rightarrow> unit dbio" where
  "db_exec env (D_Begin level) = cbind (db_begin level) (\<lambda>_. cret ())"
| "db_exec env (D_Put tid io k v coin) = on_context tid (tran_put env io k v coin)"
| "db_exec env (D_Remove tid io k coin) = on_context tid (tran_remove env io k coin)"
| "db_exec env (D_Get tid k) = cbind (on_context tid (tran_get env k)) (\<lambda>_. cret ())"
| "db_exec env (D_Commit tid test_fail io coins) = cbind (on_context tid (tran_commit env test_fail io coins)) (\<lambda>_. cret ())"
| "db_exec env (D_Abort tid) = cbind (on_context tid tran_abort) (\<lambda>_. cret ())"
| "db_exec env D_Flush = cbind (on_engine (engine_flush env)) (\<lambda>_. cret ())"

primrec db_run :: "engine_env \<Rightarrow> db_op list \<Rightarrow> db \<Rightarrow> db" where
  "db_run env [] s = s"
| "db_run env (op # ops) s = db_run env ops (snd (db_exec env op s))"

text \<open>What the callers are assumed to do: calls are on contexts that exist, keys are not empty,
  ids do not run out, and a transaction that writes immediately writes a key only once.\<close>

definition may_write :: "db \<Rightarrow> u64 \<Rightarrow> bytes \<Rightarrow> bool" where
  "may_write s tid k \<longleftrightarrow> k \<noteq> [] \<and> (case db_contexts s tid of None \<Rightarrow> False
     | Some c \<Rightarrow> write_immediately c \<longrightarrow> (\<forall>r \<in> set (tc_operations c). wr_key r \<noteq> k))"

primrec db_allowed :: "db \<Rightarrow> db_op \<Rightarrow> bool" where
  "db_allowed s (D_Begin level) \<longleftrightarrow> (case e_tran_manager (db_engine s) of None \<Rightarrow> True | Some m \<Rightarrow> tm_next m \<noteq> - 1)"
| "db_allowed s (D_Put tid io k v coin) \<longleftrightarrow> may_write s tid k"
| "db_allowed s (D_Remove tid io k coin) \<longleftrightarrow> may_write s tid k"
| "db_allowed s (D_Get tid k) \<longleftrightarrow> k \<noteq> [] \<and> db_contexts s tid \<noteq> None"
| "db_allowed s (D_Commit tid test_fail io coins) \<longleftrightarrow> db_contexts s tid \<noteq> None"
| "db_allowed s (D_Abort tid) \<longleftrightarrow> db_contexts s tid \<noteq> None"
| "db_allowed s D_Flush \<longleftrightarrow> True"

primrec db_run_allowed :: "engine_env \<Rightarrow> db_op list \<Rightarrow> db \<Rightarrow> bool" where
  "db_run_allowed env [] s \<longleftrightarrow> True"
| "db_run_allowed env (op # ops) s \<longleftrightarrow> db_allowed s op \<and> db_run_allowed env ops (snd (db_exec env op s))"

section \<open>The invariant\<close>

text \<open>A version that a committed transaction has written.\<close>

definition committed_write :: "db \<Rightarrow> bytes \<Rightarrow> bytes \<Rightarrow> u64 \<Rightarrow> bool" where
  "committed_write s k v t \<longleftrightarrow> v \<noteq> [] \<and> (\<exists>c. db_contexts s t = Some c \<and> tc_is_commited c \<and>
     (\<exists>r \<in> set (tc_operations c). op_writes r k v))"

definition known_ids :: "status \<Rightarrow> u64 set" where
  "known_ids st = (case st of (b, n, act, abt) \<Rightarrow> set act \<union> set abt)"

definition db_inv :: "engine_env \<Rightarrow> dir \<Rightarrow> status \<Rightarrow> versions \<Rightarrow> wal_record list \<Rightarrow> db \<Rightarrow> bool" where
  "db_inv env d st w L s \<longleftrightarrow> engine_at env w st (db_engine s) \<and> fst st \<and> wal_holds d (db_wal s) L \<and>
     (\<forall>tid c. db_contexts s tid = Some c \<longrightarrow> ctx_inv tid st w L c) \<and>
     (\<forall>t \<in> known_ids st. db_contexts s t \<noteq> None) \<and>
     (\<forall>k t v. w (k, t) = Some v \<longrightarrow> db_contexts s t \<noteq> None \<and> logged L k v t) \<and>
     (\<forall>r \<in> set L. built_record r) \<and>
     (\<forall>tid c k v t. db_contexts s tid = Some c \<longrightarrow> (k, Some (v, t)) \<in> set (tc_read_map c) \<longrightarrow>
        tc_isolation_level c \<noteq> READ_UNOP_COMMITTED \<longrightarrow> committed_write s k v t)"

lemma db_inv_sess:
  assumes "db_inv env d st w L s" "db_contexts s tid = Some c"
  shows "sess env d w L st c \<lparr>ts_engine = db_engine s, ts_wal = db_wal s, ts_ctx = c\<rparr>" "ctx_inv tid st w L c"
  using assms unfolding db_inv_def sess_def by auto

text \<open>A committed transaction stays as it is.\<close>

lemma committed_write_step:
  assumes "committed_write s k v t" "db_contexts s tid = Some c" "ctx_grow K c c'"
    "db_contexts s' = (db_contexts s)(tid \<mapsto> c')"
  shows "committed_write s' k v t"
proof (cases "t = tid")
  case True
  with assms have "tc_is_commited c" "\<exists>r \<in> set (tc_operations c). op_writes r k v" by (auto simp: committed_write_def)
  moreover from this(1) assms(3) have "c' = c" by (simp add: ctx_grow_def tran_finished_def)
  ultimately show ?thesis using assms(1,4) True by (simp add: committed_write_def)
next
  case False
  with assms(1,4) show ?thesis by (simp add: committed_write_def)
qed

text \<open>One context moves: the others see only what \<open>evolves\<close> allows.\<close>

lemma db_inv_context:
  assumes inv: "db_inv env d st w L s" and c: "db_contexts s tid = Some c"
    and s': "sess env d w' L' st' c' t" and inv': "ctx_inv tid st' w' L' c'"
    and ev: "evolves tid w L st w' L' st'" and grow: "ctx_grow K c c'"
    and reads: "\<And>k v t. (k, Some (v, t)) \<in> set (tc_read_map c') \<Longrightarrow> tc_isolation_level c \<noteq> READ_UNOP_COMMITTED \<Longrightarrow>
      (k, Some (v, t)) \<in> set (tc_read_map c) \<or> committed_write s k v t"
  shows "db_inv env d st' w' L' \<lparr>db_engine = ts_engine t, db_wal = ts_wal t, db_contexts = (db_contexts s)(tid \<mapsto> ts_ctx t)\<rparr>"
    (is "db_inv _ _ _ _ _ ?s")
proof -
  have t: "engine_at env w' st' (ts_engine t)" "wal_holds d (ts_wal t) L'" "ts_ctx t = c'"
    using s' by (simp_all add: sess_def)
  have P: "fst st" "\<forall>t \<in> known_ids st. db_contexts s t \<noteq> None" "\<forall>r \<in> set L. built_record r"
    "\<forall>tid c. db_contexts s tid = Some c \<longrightarrow> ctx_inv tid st w L c"
    "\<forall>k t v. w (k, t) = Some v \<longrightarrow> db_contexts s t \<noteq> None \<and> logged L k v t"
    "\<forall>tid c k v t. db_contexts s tid = Some c \<longrightarrow> (k, Some (v, t)) \<in> set (tc_read_map c) \<longrightarrow>
        tc_isolation_level c \<noteq> READ_UNOP_COMMITTED \<longrightarrow> committed_write s k v t"
    using inv unfolding db_inv_def by blast+
  have E: "prefix L L'" "status_change tid st st'" "\<forall>r \<in> set L'. r \<in> set L \<or> built_record r"
    "\<And>k t. t \<noteq> tid \<Longrightarrow> w' (k, t) = w (k, t)"
    "\<And>k v. w' (k, tid) = Some v \<Longrightarrow> w (k, tid) = Some v \<or> logged L' k v tid"
    using ev unfolding evolves_def by blast+
  have ctxs: "db_contexts ?s = (db_contexts s)(tid \<mapsto> c')" by (simp add: t)
  have "fst st'" using E(2) P(1) by (auto simp: status_change_def split: prod.splits)
  moreover have "\<forall>t \<in> known_ids st'. db_contexts ?s t \<noteq> None"
  proof
    fix u
    assume u: "u \<in> known_ids st'"
    show "db_contexts ?s u \<noteq> None"
    proof (cases "u = tid")
      case False
      then have "u \<in> known_ids st"
        using u E(2) by (auto simp: known_ids_def status_change_def split: prod.splits)
      with False P(2) show ?thesis by (simp add: ctxs)
    qed (simp add: ctxs)
  qed
  moreover have "\<forall>u x. db_contexts ?s u = Some x \<longrightarrow> ctx_inv u st' w' L' x"
    unfolding ctxs using inv' P(4) ctx_inv_frame [OF _ ev] by auto
  moreover have "\<forall>k u v. w' (k, u) = Some v \<longrightarrow> db_contexts ?s u \<noteq> None \<and> logged L' k v u"
  proof (intro allI impI)
    fix k u v
    assume v: "w' (k, u) = Some v"
    show "db_contexts ?s u \<noteq> None \<and> logged L' k v u"
      using v E(4) [of u k] E(5) [of k v] P(5) logged_mono [OF _ E(1)] by (cases "u = tid") (auto simp: ctxs)
  qed
  moreover have "\<forall>u x k v t. db_contexts ?s u = Some x \<longrightarrow> (k, Some (v, t)) \<in> set (tc_read_map x) \<longrightarrow>
        tc_isolation_level x \<noteq> READ_UNOP_COMMITTED \<longrightarrow> committed_write ?s k v t"
  proof (intro allI impI)
    fix u x k v t'
    assume x: "db_contexts ?s u = Some x" "(k, Some (v, t')) \<in> set (tc_read_map x)"
      "tc_isolation_level x \<noteq> READ_UNOP_COMMITTED"
    have "committed_write s k v t'"
    proof (cases "u = tid")
      case True
      then have "x = c'" using x(1) by (simp add: t)
      moreover have "tc_isolation_level c' = tc_isolation_level c" using grow by (simp add: ctx_grow_def)
      ultimately show ?thesis using x reads P(6) c by metis
    next
      case False
      then have "db_contexts s u = Some x" using x(1) by (simp add: ctxs)
      with x(2,3) P(6) show ?thesis by blast
    qed
    then show "committed_write ?s k v t'" by (rule committed_write_step [OF _ c grow ctxs])
  qed
  moreover have "\<forall>r \<in> set L'. built_record r" using E(3) P(3) by blast
  ultimately show ?thesis unfolding db_inv_def using t by simp
qed

lemma db_inv_tran_step:
  assumes "db_inv env d st w L s" "db_contexts s tid = Some c" "tran_step env d tid K w L st c t"
  shows "\<exists>st' w' L'. db_inv env d st' w' L'
    \<lparr>db_engine = ts_engine t, db_wal = ts_wal t, db_contexts = (db_contexts s)(tid \<mapsto> ts_ctx t)\<rparr>"
proof -
  obtain w' L' st' c' where T: "sess env d w' L' st' c' t" "ctx_inv tid st' w' L' c'" "evolves tid w L st w' L' st'"
    "ctx_step K c c'"
    using assms(3) unfolding tran_step_def by blast
  from T(4) have g: "ctx_grow K c c'" "set (tc_read_map c') \<subseteq> set (tc_read_map c)" by (simp_all add: ctx_step_def)
  from db_inv_context [OF assms(1,2) T(1-3) g(1)] g(2) show ?thesis by blast
qed

section \<open>Reads see committed versions\<close>

lemma newest_committed:
  assumes "db_inv env d st w L s" "k \<noteq> []" "newest (graph_of w) k b (Some (st_skip st True)) (Some (v, t))" "v \<noteq> []"
  shows "committed_write s k v t"
proof -
  have "w (k, t) = Some v" "\<not> st_skip st True t"
    using newest_SomeD [OF assms(3)] by (auto simp: graph_of_def readable_def)
  moreover from this(1) assms(1) obtain c where c: "db_contexts s t = Some c" unfolding db_inv_def by fastforce
  moreover have "ctx_inv t st w L c" by (rule db_inv_sess(2) [OF assms(1) c])
  ultimately have "tc_is_commited c" "w (k, t) = Some v"
    by (auto simp: ctx_inv_def ctx_status_def st_skip_def split: prod.splits)
  moreover have ok: "ctx_ok t w L c" using \<open>ctx_inv t st w L c\<close> by (simp add: ctx_inv_def)
  moreover have "\<not> tc_is_aborted c" using ok calculation(1) unfolding ctx_ok_def by blast
  ultimately have "\<exists>r \<in> set (tc_operations c). op_writes r k v"
    using assms(2) unfolding ctx_ok_def by blast
  with c \<open>tc_is_commited c\<close> assms(4) show ?thesis by (auto simp: committed_write_def)
qed

lemma visible_Some: "visible r = Some (v, t) \<Longrightarrow> r = Some (v, t) \<and> v \<noteq> []"
  by (cases r) (auto simp: visible_def split: if_splits)

lemma reads_committed:
  assumes "db_inv env d st w L s" "db_contexts s tid = Some c" "k \<noteq> []" "reads w st c k (Some (v, t)) c'"
    "tc_isolation_level c \<noteq> READ_UNOP_COMMITTED"
  shows "committed_write s k v t"
proof -
  have "(\<exists>r b. Some (v, t) = visible r \<and> newest (graph_of w) k b (Some (st_skip st True)) r) \<or>
      map_of (tc_read_map c) k = Some (Some (v, t))"
    using assms(4,5) unfolding reads_def by (auto split: if_splits option.splits)
  then show ?thesis
  proof (elim disjE exE conjE)
    fix r b
    assume "Some (v, t) = visible r" "newest (graph_of w) k b (Some (st_skip st True)) r"
    with visible_Some [of r v t] newest_committed [OF assms(1,3), of b v t] show ?thesis by simp
  next
    assume "map_of (tc_read_map c) k = Some (Some (v, t))"
    from map_of_SomeD [OF this] assms(1,2,5) show ?thesis unfolding db_inv_def by blast
  qed
qed

text \<open>The read as a step of the database.\<close>

lemma db_inv_get:
  assumes "db_inv env d st w L s" "db_contexts s tid = Some c" "k \<noteq> []"
  shows "\<exists>r s' c'. on_context tid (tran_get env k) s = (r, s') \<and> db_inv env d st w L s' \<and> (\<forall>err. r = Inl err \<longrightarrow> thrown err) \<and>
    db_contexts s' = (db_contexts s)(tid \<mapsto> c') \<and> ctx_grow {} c c'"
proof -
  note S = db_inv_sess [OF assms(1,2)]
  let ?t = "\<lparr>ts_engine = db_engine s, ts_wal = db_wal s, ts_ctx = c\<rparr>"
  have same: "\<lparr>db_engine = db_engine s, db_wal = db_wal s, db_contexts = (db_contexts s)(tid \<mapsto> c)\<rparr> = s"
    using assms(2) by (simp add: fun_upd_idem)
  have c: "db_contexts s = (db_contexts s)(tid \<mapsto> c)" using assms(2) by (simp add: fun_upd_idem)
  note G = tran_get_cases [OF S(1) assms(3)]
  show ?thesis
  proof (cases "tran_finished c \<or> map_of (tc_temp_map c) k \<noteq> None")
    case True
    then obtain r where r: "tran_get env k ?t = (r, ?t)" "\<forall>err. r = Inl err \<longrightarrow> err = Logic_Error"
      using G by (auto split: if_splits)
    then have "on_context tid (tran_get env k) s = (r, s)" using assms(2) same by (simp add: on_context_def)
    with r(2) assms(1) c show ?thesis by (intro exI [of _ r] exI [of _ s] exI [of _ c]) (auto simp: ctx_grow_def)
  next
    case False
    then obtain q c' t where q: "tran_get env k ?t = (Inr (map_option fst q), t)" "sess env d w L st c' t" "reads w st c k q c'"
      using G by auto
    have nf: "\<not> tran_finished c" using False by blast
    from reads_inv [OF S(2) nf assms(3) q(3)] have c': "ctx_inv tid st w L c'" "ctx_grow {} c c'" by simp_all
    have new: "(k', Some (v, u)) \<in> set (tc_read_map c) \<or> committed_write s k' v u"
      if "(k', Some (v, u)) \<in> set (tc_read_map c')" "tc_isolation_level c \<noteq> READ_UNOP_COMMITTED" for k' v u
    proof -
      have "c' = c \<or> c' = c\<lparr>tc_read_map := tc_read_map c @ [(k, q)]\<rparr>"
        using q(3) unfolding reads_def by (auto split: if_splits option.splits)
      with that(1) have "(k', Some (v, u)) \<in> set (tc_read_map c) \<or> (k', Some (v, u)) = (k, q)" by auto
      with reads_committed [OF assms(1,2,3) _ that(2), of v u c'] q(3) show ?thesis by auto
    qed
    have "db_inv env d st w L \<lparr>db_engine = ts_engine t, db_wal = ts_wal t, db_contexts = (db_contexts s)(tid \<mapsto> ts_ctx t)\<rparr>"
      by (rule db_inv_context [OF assms(1,2) q(2) c'(1) evolves_refl c'(2) new])
    moreover have "on_context tid (tran_get env k) s =
        (Inr (map_option fst q), \<lparr>db_engine = ts_engine t, db_wal = ts_wal t, db_contexts = (db_contexts s)(tid \<mapsto> ts_ctx t)\<rparr>)"
      using assms(2) q(1) by (simp add: on_context_def)
    moreover have "ts_ctx t = c'" using q(2) by (simp add: sess_def)
    ultimately show ?thesis using c'(2) by auto
  qed
qed

end
