(* ===== verification/Tran_History.thy ===== *)
theory Tran_History
  imports Tran_System
begin

text \<open>
  Histories of the transactional store, and what they guarantee: reads of strict isolation levels
  see committed data only, repeatable reads repeat, and a commit that returns true is in the log
  and is what the next strict read finds.
\<close>

section \<open>Every step keeps the invariant\<close>

text \<open>The keys that a call writes in a context.\<close>

primrec op_keys :: "db_op \<Rightarrow> u64 \<Rightarrow> bytes set" where
  "op_keys (D_Begin level) t = {}"
| "op_keys (D_Put tid io k v coin) t = (if t = tid then {k} else {})"
| "op_keys (D_Remove tid io k coin) t = (if t = tid then {k} else {})"
| "op_keys (D_Get tid k) t = {}"
| "op_keys (D_Commit tid test_fail io coins) t = {}"
| "op_keys (D_Abort tid) t = {}"
| "op_keys D_Flush t = {}"

definition contexts_grow :: "(u64 \<Rightarrow> bytes set) \<Rightarrow> db \<Rightarrow> db \<Rightarrow> bool" where
  "contexts_grow K s s' \<longleftrightarrow> (\<forall>tid c. db_contexts s tid = Some c \<longrightarrow>
     (\<exists>c'. db_contexts s' tid = Some c' \<and> ctx_grow (K tid) c c'))"

definition db_ok :: "engine_env \<Rightarrow> dir \<Rightarrow> db \<Rightarrow> bool" where
  "db_ok env d s \<longleftrightarrow> (\<exists>st w L. db_inv env d st w L s)"

lemma db_okI: "db_inv env d st w L s \<Longrightarrow> db_ok env d s"
  unfolding db_ok_def by blast

definition db_step :: "engine_env \<Rightarrow> dir \<Rightarrow> (u64 \<Rightarrow> bytes set) \<Rightarrow> db \<Rightarrow> 'a result \<times> db \<Rightarrow> bool" where
  "db_step env d K s x \<longleftrightarrow> (\<forall>err. fst x = Inl err \<longrightarrow> thrown err) \<and> db_ok env d (snd x) \<and>
     contexts_grow K s (snd x)"

lemma db_step_discard: "db_step env d K s (m s) \<Longrightarrow> db_step env d K s (cbind m (\<lambda>_. cret ()) s)"
  by (auto simp: db_step_def cbind_def cret_def split: prod.splits sum.splits)

lemma ctx_grow_refl [simp]: "ctx_grow K c c"
  by (simp add: ctx_grow_def)

lemma contexts_grow_upd:
  assumes "db_contexts s tid = Some c" "ctx_grow (K tid) c c'" "db_contexts s' = (db_contexts s)(tid \<mapsto> c')"
  shows "contexts_grow K s s'"
  unfolding contexts_grow_def assms(3) using assms(1,2) by auto

lemma on_context_step:
  assumes "db_inv env d st w L s" "db_contexts s tid = Some c"
    and "triple (sess env d w L st c) m (\<lambda>_. tran_step env d tid (K tid) w L st c) (tran_step env d tid (K tid) w L st c)"
  shows "db_step env d K s (on_context tid m s)"
proof -
  let ?t = "\<lparr>ts_engine = db_engine s, ts_wal = db_wal s, ts_ctx = c\<rparr>"
  obtain r t where r: "m ?t = (r, t)" by fastforce
  let ?s = "\<lparr>db_engine = ts_engine t, db_wal = ts_wal t, db_contexts = (db_contexts s)(tid \<mapsto> ts_ctx t)\<rparr>"
  have T: "tran_step env d tid (K tid) w L st c t" "\<forall>err. r = Inl err \<longrightarrow> thrown err"
    using triple_run [OF assms(3) db_inv_sess(1) [OF assms(1,2)]] r by (auto split: sum.splits)
  have "ctx_grow (K tid) c (ts_ctx t)" using T(1) by (auto simp: tran_step_def sess_def ctx_step_def)
  then have "contexts_grow K s ?s" by (intro contexts_grow_upd [OF assms(2)]) simp_all
  moreover have "on_context tid m s = (r, ?s)" using assms(2) r by (simp add: on_context_def)
  ultimately show ?thesis using db_inv_tran_step [OF assms(1,2) T(1)] T(2) by (simp add: db_step_def db_ok_def)
qed

text \<open>A call on a context that has ended.\<close>

lemma on_context_same:
  assumes "db_inv env d st w L s" "db_contexts s tid = Some c"
    and "\<And>t. ts_ctx t = c \<Longrightarrow> m t = (r, t)" "\<And>err. r = Inl err \<Longrightarrow> thrown err"
  shows "db_step env d K s (on_context tid m s)"
proof -
  have "on_context tid m s = (r, s)" using assms(2,3) by (simp add: on_context_def fun_upd_idem)
  moreover have "contexts_grow K s s" by (simp add: contexts_grow_def)
  ultimately show ?thesis using assms(4) db_okI [OF assms(1)] by (auto simp: db_step_def)
qed

lemma write_fresh:
  assumes "db_inv env d st w L s" "db_contexts s tid = Some c" "may_write s tid k" "write_immediately c" "\<not> tran_finished c"
  shows "(k, tid) \<notin> dom w"
proof
  assume "(k, tid) \<in> dom w"
  then obtain v where "w (k, tid) = Some v" by blast
  moreover have "ctx_ok tid w L c" using db_inv_sess(2) [OF assms(1,2)] by (simp add: ctx_inv_def)
  ultimately have "\<exists>r \<in> set (tc_operations c). op_writes r k v"
    using assms(2,3,5) unfolding ctx_ok_def tran_finished_def may_write_def by auto
  with assms(2-4) show False by (auto simp: may_write_def op_writes_def)
qed

lemma tran_write_on_context:
  assumes "env_ok env" "db_inv env d st w L s" "may_write s tid k" "K tid = {k}"
  shows "db_step env d K s (on_context tid (tran_put env io k v coin) s)"
    "db_step env d K s (on_context tid (tran_remove env io k coin) s)"
proof -
  obtain c where c: "db_contexts s tid = Some c" "k \<noteq> []" using assms(3) by (auto simp: may_write_def split: option.splits)
  have "db_step env d K s (on_context tid (tran_put env io k v coin) s) \<and>
      db_step env d K s (on_context tid (tran_remove env io k coin) s)"
  proof (cases "tran_finished c")
    case True
    then have "tran_put env io k v coin t = (Inl Logic_Error, t)" "tran_remove env io k coin t = (Inl Logic_Error, t)"
      if "ts_ctx t = c" for t
      using that by (simp_all add: tran_put_def tran_remove_def cbind_def tget_def cthrow_def)
    then show ?thesis by (intro conjI on_context_same [OF assms(2) c(1)]) auto
  next
    case False
    note W = tran_write_step [OF assms(1) db_inv_sess(2) [OF assms(2) c(1)] c(2)
        write_fresh [OF assms(2) c(1) assms(3) _ False], folded assms(4)]
    show ?thesis by (intro conjI on_context_step [OF assms(2) c(1)] W)
  qed
  then show "db_step env d K s (on_context tid (tran_put env io k v coin) s)"
    "db_step env d K s (on_context tid (tran_remove env io k coin) s)" by blast+
qed

lemma tran_commit_on_context:
  assumes "env_ok env" "db_inv env d st w L s" "db_contexts s tid = Some c" "K tid = {}"
  shows "db_step env d K s (on_context tid (tran_commit env test_fail io coins) s)"
proof (cases "tran_finished c")
  case True
  then have "tran_commit env test_fail io coins t = (Inr False, t)" if "ts_ctx t = c" for t
    using that by (simp add: tran_commit_def cbind_def tget_def cret_def)
  then show ?thesis by (rule on_context_same [OF assms(2,3)]) auto
next
  case False
  have "triple (sess env d w L st c) (tran_commit env test_fail io coins)
      (\<lambda>_. tran_step env d tid {} w L st c) (tran_step env d tid {} w L st c)"
    by (rule triple_weaken [OF tran_commit_triple [OF assms(1) db_inv_sess(2) [OF assms(2,3)] False]])
      (auto simp: commit_post_def intro: commit_step_tran_step)
  then show ?thesis unfolding assms(4) [symmetric] by (rule on_context_step [OF assms(2,3)])
qed

lemma tran_abort_on_context:
  assumes "db_inv env d st w L s" "db_contexts s tid = Some c" "K tid = {}"
  shows "db_step env d K s (on_context tid tran_abort s)"
proof (cases "tran_finished c")
  case True
  then have "tran_abort t = (Inr False, t)" if "ts_ctx t = c" for t
    using that by (simp add: tran_abort_def cbind_def tget_def cret_def)
  then show ?thesis by (rule on_context_same [OF assms(1,2)]) auto
next
  case False
  from tran_abort_triple [OF db_inv_sess(2) [OF assms(1,2)] False]
  show ?thesis unfolding assms(3) [symmetric] by (rule on_context_step [OF assms(1,2)])
qed

lemma begin_status:
  assumes "ctx_status t (b, n, act, abt) c" "n \<noteq> - 1"
  shows "ctx_status t (b, n + 1, insort_insert n act, abt) c"
  using assms next_less [OF assms(2)] by (auto simp: ctx_status_def set_insort_insert)

lemma db_begin_step:
  assumes "db_inv env d st w L s" "db_allowed s (D_Begin level)"
  shows "db_step env d K s (db_begin level s)"
proof -
  obtain m where m: "e_tran_manager (db_engine s) = Some m" "status m = st" "engine_shows env w (db_engine s)"
    using assms(1) unfolding db_inv_def by (auto elim: engine_atE)
  define n where "n = tm_next m"
  have st: "st = (True, n, tm_active m, tm_aborted m)" "tm_engine_bound m"
    using assms(1) m(2) by (auto simp: db_inv_def status_def n_def)
  have n: "n \<noteq> - 1" using assms(2) m(1) by (simp add: n_def)
  let ?m = "m\<lparr>tm_next := n + 1, tm_active := insort_insert n (tm_active m)\<rparr>"
  let ?st = "(True, n + 1, insort_insert n (tm_active m), tm_aborted m)"
  let ?c = "tran_context_new n level"
  let ?s = "s\<lparr>db_engine := (db_engine s)\<lparr>e_tran_manager := Some ?m\<rparr>, db_contexts := (db_contexts s)(n \<mapsto> ?c)\<rparr>"
  have run: "db_begin level s = (Inr n, ?s)"
    using st(2) by (simp add: db_begin_def m(1) tm_new_tranc_def tm_get_next_transaction_id_def n_def)
  have I: "\<forall>tid c. db_contexts s tid = Some c \<longrightarrow> ctx_inv tid st w L c" "\<forall>t \<in> known_ids st. db_contexts s t \<noteq> None"
    "\<forall>k t v. w (k, t) = Some v \<longrightarrow> db_contexts s t \<noteq> None \<and> logged L k v t" "\<forall>r \<in> set L. built_record r"
    "wal_holds d (db_wal s) L"
    "\<forall>tid c k v t. db_contexts s tid = Some c \<longrightarrow> (k, Some (v, t)) \<in> set (tc_read_map c) \<longrightarrow>
        tc_isolation_level c \<noteq> READ_UNOP_COMMITTED \<longrightarrow> committed_write s k v t"
    using assms(1) unfolding db_inv_def by blast+
  have new: "db_contexts s n = None"
  proof (rule ccontr)
    assume "db_contexts s n \<noteq> None"
    then obtain c where "db_contexts s n = Some c" by blast
    with I(1) show False by (fastforce simp: ctx_inv_def ctx_status_def st(1))
  qed
  have "w (k, n) = None" for k using I(3) new by (metis not_Some_eq)
  moreover have "built_record (createRecord n)" by (auto simp: built_record_def)
  ultimately have "ctx_ok n w L ?c" by (simp add: ctx_ok_def tran_context_new_def createRecord_def)
  moreover have "set (tm_aborted m) \<subseteq> known_ids st" by (simp add: known_ids_def st(1))
  with I(2) new have "n \<notin> set (tm_aborted m)" by blast
  ultimately have c: "ctx_inv n ?st w L ?c"
    using next_less [OF n] by (simp add: ctx_inv_def ctx_status_def set_insort_insert)
  have others: "ctx_inv t ?st w L x" if "db_contexts s t = Some x" for t x
    using I(1) that begin_status [OF _ n] unfolding ctx_inv_def st(1) by blast
  have old: "committed_write ?s k v t" if "committed_write s k v t" for k v t
    using that new by (auto simp: committed_write_def)
  have "engine_at env w ?st (db_engine ?s)"
    using shows_manager [OF m(3)] st(2) by (simp add: engine_at_def status_def)
  then have "db_inv env d ?st w L ?s"
    unfolding db_inv_def
    using I c others old by (auto simp: known_ids_def st(1) set_insort_insert tran_context_new_def split: if_splits)
  then have "db_ok env d ?s" by (rule db_okI)
  moreover have "contexts_grow K s ?s" using new by (auto simp: contexts_grow_def)
  ultimately show ?thesis unfolding run by (auto simp: db_step_def)
qed

lemma db_flush_step:
  assumes "env_ok env" "db_inv env d st w L s"
  shows "db_step env d K s (on_engine (engine_flush env) s)"
proof -
  have e: "engine_at env w st (db_engine s)" using assms(2) by (simp add: db_inv_def)
  obtain r e' where r: "engine_flush env (db_engine s) = (r, e')" by fastforce
  have "engine_at env w st e'" "\<forall>err. r = Inl err \<longrightarrow> thrown err"
    using triple_run [OF engine_flush_at [OF assms(1)] e] r by (auto split: sum.splits)
  moreover from this(1) assms(2) have "db_inv env d st w L (s\<lparr>db_engine := e'\<rparr>)"
    unfolding db_inv_def by (simp add: committed_write_def)
  then have "db_ok env d (s\<lparr>db_engine := e'\<rparr>)" by (rule db_okI)
  ultimately show ?thesis using r by (auto simp: db_step_def on_engine_def contexts_grow_def)
qed

lemma db_exec_step:
  assumes "env_ok env" "db_inv env d st w L s" "db_allowed s op"
  shows "db_step env d (op_keys op) s (db_exec env op s)"
proof (cases op)
  case (D_Get tid k)
  then obtain c where c: "db_contexts s tid = Some c" "k \<noteq> []" using assms(3) by auto
  obtain r s' c' where G: "on_context tid (tran_get env k) s = (r, s')" "db_inv env d st w L s'"
    "\<forall>err. r = Inl err \<longrightarrow> thrown err" "db_contexts s' = (db_contexts s)(tid \<mapsto> c')" "ctx_grow {} c c'"
    using db_inv_get [OF assms(2) c] by blast
  then have "db_step env d (op_keys op) s (on_context tid (tran_get env k) s)"
    using contexts_grow_upd [OF c(1) _ G(4), of "op_keys op"] D_Get db_okI [OF G(2)] by (auto simp: db_step_def)
  then show ?thesis unfolding D_Get by (simp add: db_step_discard)
qed (use assms tran_write_on_context [OF assms(1,2)] tran_commit_on_context [OF assms(1,2)]
    tran_abort_on_context [OF assms(2)] db_begin_step [OF assms(2)] db_flush_step [OF assms(1,2)]
    in \<open>auto intro!: db_step_discard\<close>)

section \<open>Reachable states\<close>

text \<open>A new engine, bound to a new manager with a new log, and then any allowed calls.\<close>

inductive db_reach :: "engine_env \<Rightarrow> dir \<Rightarrow> db \<Rightarrow> bool" for env :: engine_env and d :: dir where
  db_start: "1 \<le> cache_k \<Longrightarrow> tran_manager_new None = Inr m \<Longrightarrow> wal_new open_ok d bs ck lim = Inr w \<Longrightarrow>
    db_reach env d (db_new capacity cache_k m (Some w))"
| db_next: "db_reach env d s \<Longrightarrow> db_allowed s op \<Longrightarrow> db_reach env d (snd (db_exec env op s))"

lemma db_new_ok:
  assumes "1 \<le> cache_k" "tran_manager_new None = Inr m" "wal_new open_ok d bs ck lim = Inr w"
  shows "db_ok env d (db_new capacity cache_k m (Some w))"
proof -
  have m: "status (tm_set_engine m) = (True, 1, [], [])"
    using assms(2) by (auto simp: tran_manager_new_def status_def tm_set_engine_def)
  have "engine_at env Map.empty (True, 1, [], []) ((engine_new capacity cache_k)\<lparr>e_tran_manager := Some (tm_set_engine m)\<rparr>)"
    using shows_manager [OF engine_new_shows [OF assms(1)]] m by (simp add: engine_at_def)
  then have "db_inv env d (True, 1, [], []) Map.empty [] (db_new capacity cache_k m (Some w))"
    using wal_new_inv [OF assms(3)] by (simp add: db_inv_def db_new_def wal_holds_def known_ids_def)
  then show ?thesis by (rule db_okI)
qed

lemma db_reach_ok:
  assumes "env_ok env"
  shows "db_reach env d s \<Longrightarrow> db_ok env d s"
proof (induction rule: db_reach.induct)
  case (db_start cache_k m open_ok bs ck lim w capacity)
  then show ?case by (rule db_new_ok)
next
  case (db_next s op)
  then obtain st w L where "db_inv env d st w L s" unfolding db_ok_def by blast
  from db_exec_step [OF assms this db_next.hyps(2)] show ?case by (simp add: db_step_def)
qed

lemma db_run_reach: "db_reach env d s \<Longrightarrow> db_run_allowed env ops s \<Longrightarrow> db_reach env d (db_run env ops s)"
  by (induction ops arbitrary: s) (auto intro: db_next)

lemma reachE:
  assumes "env_ok env" "db_reach env d s"
  obtains st w L where "db_inv env d st w L s"
  using db_reach_ok [OF assms] unfolding db_ok_def by blast

section \<open>Reads of committed data\<close>

lemma tran_get_value:
  assumes "db_inv env d st w L s" "db_contexts s tid = Some c" "k \<noteq> []" "fst (on_context tid (tran_get env k) s) = Inr r"
  shows "\<not> tran_finished c \<and> (case map_of (tc_temp_map c) k of
      Some v \<Rightarrow> r = (if v = [] then None else Some v) \<and> snd (on_context tid (tran_get env k) s) = s
    | None \<Rightarrow> \<exists>q c'. r = map_option fst q \<and> reads w st c k q c' \<and>
        db_contexts (snd (on_context tid (tran_get env k) s)) = (db_contexts s)(tid \<mapsto> c'))"
proof -
  note G = tran_get_cases [OF db_inv_sess(1) [OF assms(1,2)] assms(3)]
  show ?thesis
    using G assms(2,4) by (auto simp: on_context_def fun_upd_idem sess_def split: if_splits option.splits prod.splits)
qed

text \<open>C3: a read of a transaction that is not READ UNCOMMITTED returns a value that the
  transaction has written itself, or one that a committed transaction has put under this key.
  Nothing of an active or rolled back transaction is ever read, whatever calls interleave and
  whatever writes of files fail.\<close>

theorem strict_read_is_committed:
  assumes "env_ok env" "db_reach env d s" "db_contexts s tid = Some c" "k \<noteq> []"
    and "tc_isolation_level c \<noteq> READ_UNOP_COMMITTED" "fst (on_context tid (tran_get env k) s) = Inr (Some v)"
  shows "map_of (tc_temp_map c) k = Some v \<or> (\<exists>t c'. db_contexts s t = Some c' \<and> tc_is_commited c' \<and>
    (\<exists>r \<in> set (tc_operations c'). wr_operation_type r = OP_PUT \<and> wr_key r = k \<and> wr_value r = v))"
proof -
  obtain st w L where inv: "db_inv env d st w L s" by (rule reachE [OF assms(1,2)])
  note G = tran_get_value [OF inv assms(3,4,6)]
  show ?thesis
  proof (cases "map_of (tc_temp_map c) k")
    case (Some u)
    with G show ?thesis by (auto split: if_splits)
  next
    case None
    with G obtain q c' where q: "Some v = map_option fst q" "reads w st c k q c'" by auto
    then obtain t where t: "q = Some (v, t)" by (cases q) auto
    have "committed_write s k v t" using reads_committed [OF inv assms(3,4) _ assms(5)] q(2) t by blast
    then show ?thesis by (auto simp: committed_write_def op_writes_def)
  qed
qed

section \<open>Repeatable reads\<close>

text \<open>What makes a later read of \<open>k\<close> return the same: the entry of the context.\<close>

definition pinned :: "bytes \<Rightarrow> bytes option \<Rightarrow> isolation_level \<Rightarrow> tran_context \<Rightarrow> bool" where
  "pinned k r level c \<longleftrightarrow> tran_finished c \<or> tc_isolation_level c = level \<and> (case map_of (tc_temp_map c) k of
      Some v \<Rightarrow> r = (if v = [] then None else Some v)
    | None \<Rightarrow> \<exists>q. map_of (tc_read_map c) k = Some q \<and> r = map_option fst q)"

lemma pinned_grow: "pinned k r level c \<Longrightarrow> ctx_grow K c c' \<Longrightarrow> k \<notin> K \<Longrightarrow> pinned k r level c'"
  unfolding pinned_def ctx_grow_def by (auto split: option.splits)

lemma pinned_run:
  assumes "env_ok env"
  shows "db_reach env d s \<Longrightarrow> db_run_allowed env ops s \<Longrightarrow> \<forall>op \<in> set ops. k \<notin> op_keys op tid \<Longrightarrow>
    \<exists>c. db_contexts s tid = Some c \<and> pinned k r level c \<Longrightarrow>
    \<exists>c. db_contexts (db_run env ops s) tid = Some c \<and> pinned k r level c"
proof (induction ops arbitrary: s)
  case (Cons op ops)
  let ?s = "snd (db_exec env op s)"
  obtain st w L where inv: "db_inv env d st w L s" by (rule reachE [OF assms Cons.prems(1)])
  have allowed: "db_allowed s op" using Cons.prems(2) by simp
  have "contexts_grow (op_keys op) s ?s" using db_exec_step [OF assms inv allowed] by (simp add: db_step_def)
  moreover obtain c where c: "db_contexts s tid = Some c" "pinned k r level c" using Cons.prems(4) by blast
  ultimately obtain c' where c': "db_contexts ?s tid = Some c'" "ctx_grow (op_keys op tid) c c'"
    unfolding contexts_grow_def by blast
  have "pinned k r level c'" using pinned_grow [OF c(2) c'(2)] Cons.prems(3) by simp
  with c'(1) Cons.IH [OF db_next [OF Cons.prems(1) allowed]] Cons.prems(2,3) show ?case by simp
qed simp

text \<open>Only its own commit and rollback end a transaction.\<close>

definition ends_call :: "db_op \<Rightarrow> u64 \<Rightarrow> bool" where
  "ends_call op tid \<longleftrightarrow> (case op of D_Commit t test_fail io coins \<Rightarrow> t = tid | D_Abort t \<Rightarrow> t = tid | _ \<Rightarrow> False)"

definition keeps_open :: "'a tio \<Rightarrow> bool" where
  "keeps_open m \<longleftrightarrow> (\<forall>s. \<not> tran_finished (ts_ctx s) \<longrightarrow> \<not> tran_finished (ts_ctx (snd (m s))))"

lemma keeps_open_bind: "keeps_open m \<Longrightarrow> (\<And>x. keeps_open (f x)) \<Longrightarrow> keeps_open (cbind m f)"
  unfolding keeps_open_def cbind_def by (auto split: prod.split sum.split)

lemma keeps_open_basic:
  "keeps_open (cret x)" "keeps_open (cthrow e)" "keeps_open (clift q)" "keeps_open (tget f)" "keeps_open (tengine n)"
  "keeps_open (tran_write_to_wal io records)"
  "keeps_open (tmod (\<lambda>c. c\<lparr>tc_wal_written_count := i\<rparr>))" "keeps_open (tmod (add_operation r))"
  "keeps_open (tmod (buffer_write k v))" "keeps_open (tmod (\<lambda>c. c\<lparr>tc_read_map := g c\<rparr>))"
  by (auto simp: keeps_open_def cret_def cthrow_def clift_def tget_def tengine_def tran_write_to_wal_def tmod_def
      tran_finished_def add_operation_def buffer_write_def split: prod.split)

lemma calls_keep_open:
  "keeps_open (tran_put env io k v coin)" "keeps_open (tran_remove env io k coin)" "keeps_open (tran_get env k)"
  by (auto simp: tran_put_def tran_remove_def tran_get_def tran_query_def persist_pending_wal_def lock_manager_def Let_def
      intro!: keeps_open_bind keeps_open_basic split: option.split)

definition open_tran :: "db \<Rightarrow> u64 \<Rightarrow> bool" where
  "open_tran s tid \<longleftrightarrow> (\<exists>c. db_contexts s tid = Some c \<and> \<not> tran_finished c)"

lemma on_context_open:
  assumes "open_tran s tid" "t = tid \<Longrightarrow> keeps_open m"
  shows "open_tran (snd (on_context t m s)) tid"
  using assms unfolding open_tran_def on_context_def keeps_open_def
  by (auto split: option.split prod.split) (metis snd_conv tran_state.select_convs(3))+

lemma snd_discard: "snd (cbind m (\<lambda>_. cret ()) s) = snd (m s)"
  by (auto simp: cbind_def cret_def split: prod.split sum.split)

lemma exec_open: "open_tran s tid \<Longrightarrow> \<not> ends_call op tid \<Longrightarrow> open_tran (snd (db_exec env op s)) tid"
proof (cases op)
  case (D_Begin level)
  moreover have "open_tran (snd (db_begin level s)) tid" if "open_tran s tid"
    using that by (auto simp: open_tran_def db_begin_def tran_context_new_def tran_finished_def
        split: option.split sum.split)
  ultimately show "open_tran s tid \<Longrightarrow> ?thesis" by (simp add: snd_discard)
next
  case D_Flush
  then show "open_tran s tid \<Longrightarrow> ?thesis"
    by (auto simp: snd_discard on_engine_def open_tran_def split: prod.split)
qed (auto simp: ends_call_def snd_discard intro: on_context_open calls_keep_open)

lemma run_open:
  "open_tran s tid \<Longrightarrow> \<forall>op \<in> set ops. \<not> ends_call op tid \<Longrightarrow> open_tran (db_run env ops s) tid"
  by (induction ops arbitrary: s) (simp_all add: exec_open)

text \<open>C4: in a transaction of the levels REPEATABLE READ and SERIALIZABLE a key that was read once
  reads the same as long as the transaction lasts, whatever other transactions write, commit or
  roll back in between, if the transaction does not write the key itself. The read throws only
  when the transaction has ended, and it ends only by its own call of commit or abort.\<close>

theorem repeatable_read_repeats:
  assumes "env_ok env" "db_reach env d s" "db_contexts s tid = Some c" "k \<noteq> []"
    and "tc_isolation_level c = REPEATABLE_READ \<or> tc_isolation_level c = SERIALIZABLE"
    and first: "on_context tid (tran_get env k) s = (Inr r, s1)"
    and "db_run_allowed env ops s1" "\<forall>op \<in> set ops. k \<notin> op_keys op tid"
  shows "\<exists>c'. db_contexts (db_run env ops s1) tid = Some c' \<and>
    fst (on_context tid (tran_get env k) (db_run env ops s1)) = (if tran_finished c' then Inl Logic_Error else Inr r) \<and>
    (tran_finished c' \<longrightarrow> (\<exists>op \<in> set ops. ends_call op tid))"
proof -
  let ?level = "tc_isolation_level c"
  have level: "?level \<noteq> READ_UNOP_COMMITTED" "?level \<noteq> READ_OP_COMMITTED" using assms(5) by auto
  obtain st w L where inv: "db_inv env d st w L s" by (rule reachE [OF assms(1,2)])
  have "\<exists>c1. db_contexts s1 tid = Some c1 \<and> pinned k r ?level c1"
  proof (cases "map_of (tc_temp_map c) k")
    case (Some v)
    then have "r = (if v = [] then None else Some v)" "s1 = s"
      using tran_get_value [OF inv assms(3,4), of r] first by (auto simp: split: if_splits)
    with Some assms(3) show ?thesis by (auto simp: pinned_def)
  next
    case None
    then obtain q c' where q: "r = map_option fst q" "reads w st c k q c'" "db_contexts s1 = (db_contexts s)(tid \<mapsto> c')"
      using tran_get_value [OF inv assms(3,4), of r] first by auto
    have "map_of (tc_read_map c') k = Some q \<and> tc_isolation_level c' = ?level \<and> tc_temp_map c' = tc_temp_map c"
      using q(2) level unfolding reads_def by (auto simp: map_add_def split: option.splits)
    with q(1,3) None show ?thesis by (auto simp: pinned_def)
  qed
  moreover have "s1 = snd (db_exec env (D_Get tid k) s)" using first by (simp add: cbind_def cret_def)
  with db_next [OF assms(2), of "D_Get tid k"] assms(3,4) have reach1: "db_reach env d s1" by simp
  ultimately obtain c2 where c2: "db_contexts (db_run env ops s1) tid = Some c2" "pinned k r ?level c2"
    using pinned_run [OF assms(1) _ assms(7,8)] by blast
  have reach2: "db_reach env d (db_run env ops s1)" by (rule db_run_reach [OF reach1 assms(7)])
  obtain st' w' L' where inv': "db_inv env d st' w' L' (db_run env ops s1)" by (rule reachE [OF assms(1) reach2])
  note G = tran_get_cases [OF db_inv_sess(1) [OF inv' c2(1)] assms(4)]
  have "\<not> tran_finished c" using tran_get_value [OF inv assms(3,4), of r] first by simp
  then have "open_tran s tid" using assms(3) by (simp add: open_tran_def)
  then have "open_tran s1 tid"
    using on_context_open [where m = "tran_get env k", OF _ calls_keep_open(3)] first by (metis snd_conv)
  then have ended: "tran_finished c2 \<Longrightarrow> \<exists>op \<in> set ops. ends_call op tid"
    using run_open [of s1 tid ops env] c2(1) by (auto simp: open_tran_def)
  have "fst (on_context tid (tran_get env k) (db_run env ops s1)) = (if tran_finished c2 then Inl Logic_Error else Inr r)"
  proof (cases "tran_finished c2")
    case True
    with G c2(1) show ?thesis by (simp add: on_context_def)
  next
    case nf: False
    show ?thesis
    proof (cases "map_of (tc_temp_map c2) k")
      case (Some v)
      with nf G c2 show ?thesis by (simp add: on_context_def pinned_def)
    next
      case None
      with nf c2(2) obtain q where q: "map_of (tc_read_map c2) k = Some q" "r = map_option fst q" "tc_isolation_level c2 = ?level"
        by (auto simp: pinned_def)
      from G nf None obtain q' c' t where t: "tran_get env k \<lparr>ts_engine = db_engine (db_run env ops s1),
          ts_wal = db_wal (db_run env ops s1), ts_ctx = c2\<rparr> = (Inr (map_option fst q'), t)" "reads w' st' c2 k q' c'"
        by auto
      have "q' = q" using t(2) q(1,3) level unfolding reads_def by auto
      with t(1) q(2) c2(1) nf show ?thesis by (simp add: on_context_def)
    qed
  qed
  with c2(1) ended show ?thesis by blast
qed

section \<open>Commits\<close>

lemma commit_read:
  assumes "ctx_inv tid st w L c" "\<not> tran_finished c" "tc_isolation_level c \<noteq> READ_UNOP_COMMITTED"
    and v: "map_of (tc_temp_map c) k = Some v" and no: "no_newer w st c"
    and e: "engine_at env (w ++ commit_batch c) (st_end tid OP_COMMITTED st) e"
  shows "fst (engine_get env k 0 True e) = Inr (if v = [] then None else Some (v, tid))"
proof -
  let ?w = "w ++ commit_batch c" and ?st = "st_end tid OP_COMMITTED st"
  have ok: "ctx_ok tid w L c" and stat: "ctx_status tid st c" using assms(1) by (simp_all add: ctx_inv_def)
  have tid: "tc_tranc_id c = tid" using ok unfolding ctx_ok_def by blast
  have kv: "(k, v) \<in> set (tc_temp_map c)" by (rule map_of_SomeD [OF v])
  then have k: "k \<noteq> []" using ok unfolding ctx_ok_def by force
  have "distinct (map fst (tc_temp_map c))" using ok unfolding ctx_ok_def by blast
  then have "map_of (rev (tc_temp_map c)) k = Some v" using kv by (simp add: rev_map [symmetric])
  then have own: "?w (k, tid) = Some v"
    using assms(3) k by (simp add: map_add_def commit_batch_lookup tid write_immediately_def)
  have skip: "\<not> st_skip ?st True tid"
    using stat assms(2) by (auto simp: st_skip_def st_end_def ctx_status_def tran_finished_def split: prod.splits)
  have others: "t \<le> tid" if "?w (k, t) = Some u" "\<not> st_skip ?st True t" for t u
  proof (cases "t = tid")
    case False
    then have "w (k, t) = Some u" using that(1) by (simp add: map_add_def commit_batch_lookup tid)
    moreover have "\<not> st_skip st False t" using that(2) by (auto simp: st_skip_def st_end_def split: prod.splits)
    ultimately show ?thesis
      using no kv assms(3) unfolding no_newer_def write_immediately_def tid by fastforce
  qed simp
  obtain m where m: "e_tran_manager e = Some m" "status m = ?st" using e by (auto elim: engine_atE)
  obtain r e' where r: "engine_get env k 0 True e = (Inr (visible r), e')"
    "newest (graph_of ?w) k 0 (Some (st_skip ?st True)) r"
    using engine_get_at [OF e k m(1), of 0 True] unfolding skip_status [OF m(2)] by blast
  have cand: "(k, v, tid) \<in> candidates (graph_of ?w) k 0 (Some (st_skip ?st True))"
    using own skip by (simp add: candidates_def graph_of_def readable_def)
  obtain u t where ut: "r = Some (u, t)" using r(2) cand by (cases r) (auto simp: newest_def)
  with r(2) have u: "?w (k, t) = Some u" "\<not> st_skip ?st True t" "tid \<le> t"
    using cand by (auto simp: newest_def candidates_def graph_of_def readable_def)
  from others [OF u(1,2)] u(3) have "t = tid" by (rule order.antisym)
  moreover from this u(1) own have "u = v" by simp
  ultimately show ?thesis using r(1) ut by (simp add: visible_def)
qed

text \<open>C2: a commit that returns true has, at every isolation level, written every operation of the
  transaction and then its commit record to the log, in order, so that the log files decode to
  records that contain them. At the levels that buffer their writes until the commit (all but
  READ UNCOMMITTED), the next strict read of each key in the write buffer returns its value
  (nothing for a deletion): no transaction with a larger id has overwritten or hidden it. The
  writes of a READ UNCOMMITTED transaction are in the store since its calls, and a transaction
  with a larger id may have hidden them by the time of the commit.\<close>

theorem commit_durable_visible:
  assumes "env_ok env" "db_reach env d s" "db_contexts s tid = Some c"
    and commit: "on_context tid (tran_commit env test_fail io coins) s = (Inr True, s')"
  shows "(tc_isolation_level c \<noteq> READ_UNOP_COMMITTED \<longrightarrow> (\<forall>k v. map_of (tc_temp_map c) k = Some v \<longrightarrow>
      fst (engine_get env k 0 True (db_engine s')) = Inr (if v = [] then None else Some (v, tid)))) \<and>
    (\<exists>w L. db_wal s' = Some w \<and> record_decode (written (length d) w) = Inr L \<and>
      subseq (tc_operations c @ [commitRecord tid]) L)"
proof -
  obtain st w L where inv: "db_inv env d st w L s" by (rule reachE [OF assms(1,2)])
  let ?t = "\<lparr>ts_engine = db_engine s, ts_wal = db_wal s, ts_ctx = c\<rparr>"
  note S = db_inv_sess [OF inv assms(3)]
  have ok: "ctx_ok tid w L c" and stat: "ctx_status tid st c" using S(2) by (simp_all add: ctx_inv_def)
  have tid: "tc_tranc_id c = tid" using ok unfolding ctx_ok_def by blast
  obtain t where t: "tran_commit env test_fail io coins ?t = (Inr True, t)" "db_engine s' = ts_engine t" "db_wal s' = ts_wal t"
    using commit assms(3) by (auto simp: on_context_def split: prod.splits)
  have nf: "\<not> tran_finished c"
    using t(1) by (auto simp: tran_commit_def cbind_def tget_def cret_def)
  from triple_run [OF tran_commit_triple [where test_fail = test_fail and io = io and coins = coins,
      OF assms(1) S(2) nf] S(1)]
  have "commit_done env d w L st c t" unfolding t(1) by (simp add: commit_post_def)
  then obtain L' where L': "no_newer w st c" "wal_clean (ts_wal t)" "set L' \<subseteq> set L \<union> set (tc_operations (committed_ctx c))"
    "subseq (tc_operations (committed_ctx c)) L'" "sess env d (w ++ commit_batch c) L' (st_end tid OP_COMMITTED st) (committed_ctx c) t"
    unfolding commit_done_def tid by blast
  have ops: "tc_operations (committed_ctx c) = tc_operations c @ [commitRecord tid]" by (simp add: committed_ctx_def tid)
  have read: "fst (engine_get env k 0 True (db_engine s')) = Inr (if v = [] then None else Some (v, tid))"
    if level: "tc_isolation_level c \<noteq> READ_UNOP_COMMITTED" and v: "map_of (tc_temp_map c) k = Some v" for k v
    by (rule commit_read [OF S(2) nf level v L'(1)]) (use L'(5) t(2) in \<open>simp add: sess_def\<close>)
  have "\<exists>w L. db_wal s' = Some w \<and> record_decode (written (length d) w) = Inr L \<and>
      subseq (tc_operations c @ [commitRecord tid]) L"
  proof -
    obtain wl where wl: "ts_wal t = Some wl" "\<not> write_failed wl" "log_buffer wl = []"
      using L'(2) by (auto simp: wal_clean_def split: option.splits)
    have "wal_inv d wl L'" using L'(5) wl(1) by (simp add: sess_def wal_holds_def)
    with wl(2,3) have "written (length d) wl = concat (map record_encode L')" by (simp add: wal_inv_def encode_all_def)
    moreover have "\<forall>r \<in> set L'. built_record r"
    proof -
      have "built_record (commitRecord tid)" by (auto simp: built_record_def)
      moreover have "\<forall>r \<in> set (tc_operations c). built_record r" using ok unfolding ctx_ok_def by blast
      moreover have "\<forall>r \<in> set L. built_record r" using inv unfolding db_inv_def by blast
      ultimately show ?thesis using L'(3) unfolding ops by auto
    qed
    then have "record_decode (concat (map record_encode L')) = Inr L'"
      by (intro record_decode_encode) (blast intro: built_record_ok)
    ultimately show ?thesis using t(3) wl(1) L'(4) unfolding ops by auto
  qed
  with read show ?thesis by blast
qed

section \<open>A sample run\<close>

text \<open>A transaction that puts one key and deletes another, with a memory limit that it does not
  reach: its commit writes the log and returns true.\<close>

definition quiet_env :: engine_env where
  "quiet_env = sample_env\<lparr>env_tol_mem := 4096\<rparr>"

definition start_manager :: tran_manager where
  "start_manager = \<lparr>tm_engine_bound = False, tm_aborted = [], tm_next = 1, tm_active = [], tm_ready = [],
     tm_flushed = [0], tm_file = Some []\<rparr>"

definition start_wal :: wal where
  "start_wal = \<lparr>wal_dir = [(wal_name 0, [])], active_log = wal_name 0, log_buffer = [], write_failed = False,
     buffer_size = 4, wal_checkpoint = 0, file_size_limit = 0\<rparr>"

definition sample_calls :: "db_op list" where
  "sample_calls = [D_Begin REPEATABLE_READ, D_Put 1 io_good [1] [2] (\<lambda>_. False), D_Remove 1 io_good [5] (\<lambda>_. False)]"

definition sample_db :: db where
  "sample_db = db_run quiet_env sample_calls (db_new 2 1 start_manager (Some start_wal))"

definition sample_put :: wal_record where
  "sample_put = \<lparr>wr_tranc_id = 1, wr_operation_type = OP_PUT, wr_key = [1], wr_value = [2], wr_record_len = 17\<rparr>"

definition sample_delete :: wal_record where
  "sample_delete = \<lparr>wr_tranc_id = 1, wr_operation_type = OP_DELETE, wr_key = [5], wr_value = [], wr_record_len = 14\<rparr>"

definition sample_context :: tran_context where
  "sample_context = \<lparr>tc_tranc_id = 1, tc_isolation_level = REPEATABLE_READ,
     tc_operations = [createRecord 1, sample_put, sample_delete],
     tc_wal_written_count = 0, tc_temp_map = [([1], [2]), ([5], [])], tc_read_map = [],
     tc_is_commited = False, tc_is_aborted = False\<rparr>"

definition sample_engine :: engine where
  "sample_engine = (engine_new 2 1)\<lparr>e_tran_manager := Some (start_manager\<lparr>tm_engine_bound := True,
       tm_next := 2, tm_active := [1]\<rparr>)\<rparr>"

lemma quiet_ok: "env_ok quiet_env"
  using sample_ok by (simp add: quiet_env_def env_ok_def)

lemma sample_records: "putRecord 1 [1] [2] = Inr sample_put" "deleteRecord 1 [5] = Inr sample_delete"
  by (simp_all add: putRecord_def deleteRecord_def sample_put_def sample_delete_def)

lemmas sample_steps = db_new_def db_begin_def tm_new_tranc_def start_manager_def
  tm_get_next_transaction_id_def tm_set_engine_def cbind_def cret_def on_context_def tran_put_def tran_remove_def
  tget_def tmod_def tran_context_new_def tran_finished_def clift_def write_immediately_def sample_records
  add_operation_def buffer_write_def sample_context_def insort_insert_key_def may_write_def

lemma sample_db_state:
  "sample_db = \<lparr>db_engine = sample_engine, db_wal = Some start_wal, db_contexts = [1 \<mapsto> sample_context]\<rparr>"
  by (simp add: sample_db_def sample_calls_def sample_engine_def sample_steps)

lemma sample_db_reach: "db_reach quiet_env [] sample_db"
  unfolding sample_db_def
proof (rule db_run_reach)
  show "db_reach quiet_env [] (db_new 2 1 start_manager (Some start_wal))"
  proof (rule db_start)
    show "tran_manager_new None = Inr start_manager" by (simp add: tran_manager_new_def start_manager_def)
    show "wal_new True [] 4 0 0 = Inr start_wal" by (simp add: wal_new_def start_wal_def)
  qed simp
  show "db_run_allowed quiet_env sample_calls (db_new 2 1 start_manager (Some start_wal))"
    by (simp add: sample_calls_def sample_steps)
qed

lemma flush_while_quiet:
  assumes "engine_shows env w e" "graph_of w \<subseteq> F" "finite F" "sum entry_size F < unat limit"
  shows "cbind (eget flush_fuel) (\<lambda>n. flush_while n env limit) e = (Inr (), e)"
proof -
  let ?n = "total_size (mem_records (e_memtable e))"
  have "mem_ok (e_memtable e)" using assms(1) by (auto simp: engine_shows_def engine_ok_def)
  then have "memtable_get_total_size (e_memtable e) = of_nat ?n" by (rule total_size_records)
  moreover have n: "?n < unat limit" using shows_mem_size [OF assms(1-3)] assms(4) by simp
  have "unat limit < 2 ^ 64" using unsigned_less [of limit] by simp
  with n have "unat (of_nat ?n :: u64) = ?n" by (intro unat_count) simp
  with n have "(of_nat ?n :: u64) < limit" by (simp add: word_less_nat_alt)
  ultimately show ?thesis by (simp add: cbind_def eget_def flush_fuel_def cret_def)
qed

lemma sample_engine_at: "engine_at quiet_env Map.empty (True, 2, [1], []) sample_engine"
  using shows_manager [OF engine_new_shows [OF order.refl]]
  by (simp add: engine_at_def sample_engine_def status_def start_manager_def)

lemma sample_id: "tc_tranc_id sample_context = 1"
  by (simp add: sample_context_def)

lemma sample_writes: "commit_writes sample_context = [([1], [2]), ([5], []), ([], [])]"
  by (simp add: commit_writes_def sample_context_def write_immediately_def)

lemma sample_commit:
  "\<exists>s' m c'. on_context 1 (tran_commit quiet_env False io_good coins) sample_db = (Inr True, s') \<and>
     db_contexts s' = [1 \<mapsto> c'] \<and> engine_shows quiet_env (Map.empty ++ commit_batch sample_context) (db_engine s') \<and>
     e_tran_manager (db_engine s') = Some m \<and> status m = (True, 2, [], [])"
proof -
  let ?st = "(True, 2 :: u64, [1 :: u64], [] :: u64 list)" and ?env = "quiet_env" and ?c = sample_context
  let ?m = "start_manager\<lparr>tm_engine_bound := True, tm_next := 2, tm_active := [1]\<rparr>"
  let ?w = "Map.empty ++ commit_batch ?c" and ?F = "{([1], [2], 1), ([5], [], 1), ([], [], 1)} :: entry set"
  have f: "e_tran_manager sample_engine = Some ?m" by (simp add: sample_engine_def)
  obtain e1 where e1: "write_conflict ?env ?m 1 (tc_temp_map ?c) sample_engine = (Inr False, e1)"
    "engine_at ?env Map.empty ?st e1" "e_tran_manager e1 = Some ?m"
    using write_conflict_at [OF sample_engine_at, of "tc_temp_map ?c" ?m 1] f
    by (auto simp: newer_version_def sample_context_def)
  from apply_writes_at [OF e1(2), of ?c coins] obtain m' where m':
    "apply_writes ?c coins e1 = (Inr (), e1\<lparr>e_memtable := m'\<rparr>)" "engine_at ?env ?w ?st (e1\<lparr>e_memtable := m'\<rparr>)"
    by auto
  define e2 where "e2 = (e1\<lparr>e_memtable := m', e_tran_manager := Some (tm_add_ready_to_flush_tranc_id ?m 1 OP_COMMITTED)\<rparr>)
    \<lparr>e_memtable := freeze_if_full (env_per_mem ?env) m'\<rparr>"
  have shown: "engine_shows ?env ?w e2"
    using freeze_shows [OF shows_manager, of ?env ?w "e1\<lparr>e_memtable := m'\<rparr>"] m'(2)
    by (simp add: e2_def engine_at_def)
  from this have "engine_shows ?env ?w e2" .
  moreover have "graph_of ?w \<subseteq> ?F"
    by (auto simp: graph_of_def commit_batch_def sample_writes sample_id batch_map_def split: if_splits)
  moreover have "sum entry_size ?F < unat (env_tol_mem ?env)" by (simp add: entry_size_def quiet_env_def)
  ultimately have quiet: "cbind (eget flush_fuel) (\<lambda>n. flush_while n ?env (env_tol_mem ?env)) e2 = (Inr (), e2)"
    by (intro flush_while_quiet [of _ _ _ ?F]) simp_all
  obtain w' where w': "write_to_wal io_good (Some start_wal) (tc_operations ?c @ [commitRecord 1]) = (True, Some w')"
    by (simp add: write_to_wal_def wal_log_def start_wal_def io_good_def Let_def write_batch_def sample_context_def)
  have c: "\<not> tran_finished ?c" "tc_tranc_id ?c = 1" "\<not> list_ex ends_tran (tc_operations ?c)"
    "tc_isolation_level ?c = REPEATABLE_READ" "tc_wal_written_count ?c = 0"
    by (simp_all add: sample_context_def tran_finished_def ends_tran_def createRecord_def sample_put_def sample_delete_def)
  have "tran_conflict ?env ?m ?c sample_engine = (Inr False, e1)"
    by (simp add: tran_conflict_def cbind_def e1(1) c write_immediately_def cret_def)
  then have "tran_commit ?env False io_good coins \<lparr>ts_engine = sample_engine, ts_wal = Some start_wal, ts_ctx = ?c\<rparr> =
      commit_logged ?env io_good 1 ?c coins \<lparr>ts_engine = e1, ts_wal = Some start_wal, ts_ctx = ?c\<rparr>"
    unfolding tran_commit_parts
    by (simp add: cbind_def tget_def lock_manager_def f c tengine_def cret_def)
  also have "\<dots> = commit_applied ?env 1 ?c coins \<lparr>ts_engine = e1, ts_wal = Some w',
      ts_ctx = ?c\<lparr>tc_operations := tc_operations ?c @ [commitRecord 1], tc_wal_written_count := length (tc_operations ?c) + 1\<rparr>\<rparr>"
    by (simp add: commit_logged_def persist_pending_wal_def cbind_def tmod_def tget_def add_operation_def c Let_def
        lock_manager_def e1(3) cret_def tran_write_to_wal_def w')
  also have "\<exists>c'. \<dots> = (Inr True, \<lparr>ts_engine = e2, ts_wal = Some w', ts_ctx = c'\<rparr>)"
    using quiet
    by (simp add: commit_applied_def cbind_def tmod_def tengine_def m'(1) finish_tran_def tmanager_def emod_def e1(3)
        e2_def cret_def)
  finally obtain c' where "tran_commit ?env False io_good coins \<lparr>ts_engine = sample_engine, ts_wal = Some start_wal, ts_ctx = ?c\<rparr> =
      (Inr True, \<lparr>ts_engine = e2, ts_wal = Some w', ts_ctx = c'\<rparr>)" by blast
  moreover have "e_tran_manager e2 = Some (tm_add_ready_to_flush_tranc_id ?m 1 OP_COMMITTED)" by (simp add: e2_def)
  moreover have "status (tm_add_ready_to_flush_tranc_id ?m 1 OP_COMMITTED) = (True, 2, [], [])"
    by (simp add: status_def tm_add_ready_to_flush_tranc_id_def start_manager_def)
  ultimately show ?thesis using shown by (simp add: sample_db_state on_context_def) blast
qed

lemma sample_calls_commit: "db_allowed sample_db (D_Commit 1 b io coins)"
  by (simp add: sample_db_state sample_context_def may_write_def)

text \<open>Transaction 1 commits; then transaction 2 begins and reads what it has put.\<close>

lemma sample_second_read:
  "\<exists>s2. db_reach quiet_env [] s2 \<and> db_contexts s2 2 = Some (tran_context_new 2 READ_OP_COMMITTED) \<and>
     fst (on_context 2 (tran_get quiet_env [1]) s2) = Inr (Some [2])"
proof -
  let ?env = "quiet_env" and ?w = "Map.empty ++ commit_batch sample_context"
  obtain s1 m c' where s1: "on_context 1 (tran_commit ?env False io_good (\<lambda>_ _. True)) sample_db = (Inr True, s1)"
    "db_contexts s1 = [1 \<mapsto> c']" "engine_shows ?env ?w (db_engine s1)"
    "e_tran_manager (db_engine s1) = Some m" "status m = (True, 2, [], [])"
    using sample_commit by blast
  have "snd (db_exec ?env (D_Commit 1 False io_good (\<lambda>_ _. True)) sample_db) = s1" using s1(1) by (simp add: cbind_def cret_def)
  then have r1: "db_reach ?env [] s1"
    using db_next [OF sample_db_reach sample_calls_commit, of False io_good "\<lambda>_ _. True"] by simp
  define m2 where "m2 = m\<lparr>tm_next := 3, tm_active := [2]\<rparr>"
  define s2 where "s2 = s1\<lparr>db_engine := (db_engine s1)\<lparr>e_tran_manager := Some m2\<rparr>,
    db_contexts := (db_contexts s1)(2 \<mapsto> tran_context_new 2 READ_OP_COMMITTED)\<rparr>"
  have "tm_new_tranc m = Inr (2, m2)"
    using s1(5) by (simp add: tm_new_tranc_def tm_get_next_transaction_id_def status_def m2_def insort_insert_key_def)
  then have started: "db_begin READ_OP_COMMITTED s1 = (Inr 2, s2)" by (simp add: db_begin_def s1(4) s2_def)
  then have "snd (db_exec ?env (D_Begin READ_OP_COMMITTED) s1) = s2" by (simp add: cbind_def cret_def)
  moreover have "db_allowed s1 (D_Begin READ_OP_COMMITTED)" using s1(4,5) by (simp add: status_def)
  ultimately have r2: "db_reach ?env [] s2" using db_next [OF r1] by metis
  have at: "engine_at ?env ?w (True, 3, [2], []) (db_engine s2)"
    using shows_manager [OF s1(3)] s1(5) by (simp add: engine_at_def s2_def m2_def status_def)
  have m2: "e_tran_manager (db_engine s2) = Some m2" by (simp add: s2_def)
  from engine_get_at [OF at _ m2, of "[1]" 0 True] obtain r e' where
    r: "engine_get ?env [1] 0 True (db_engine s2) = (Inr (visible r), e')"
      "newest (graph_of ?w) [1] 0 (Some (\<lambda>tid. tm_should_skip_read m2 tid True)) r" by auto
  have "r = Some ([2], 1)"
    using r(2) s1(5) by (cases r) (auto simp: newest_def candidates_def graph_of_def commit_batch_def sample_writes sample_id
        batch_map_def readable_def tm_should_skip_read_def m2_def status_def split: if_splits)
  then have "fst (on_context 2 (tran_get ?env [1]) s2) = Inr (Some [2])" using r(1)
    by (simp add: s2_def on_context_def tran_get_def cbind_def tget_def tran_finished_def tran_context_new_def
        tran_query_def tengine_def cret_def visible_def)
  moreover have "db_contexts s2 2 = Some (tran_context_new 2 READ_OP_COMMITTED)" by (simp add: s2_def)
  ultimately show ?thesis using r2 by blast
qed

theorem strict_read_is_committed_witness:
  "\<exists>s2. fst (on_context 2 (tran_get quiet_env [1]) s2) = Inr (Some [2]) \<and> db_contexts s2 2 \<noteq> None \<and>
    (\<exists>t c'. db_contexts s2 t = Some c' \<and> t \<noteq> 2 \<and> tc_is_commited c' \<and>
      (\<exists>r \<in> set (tc_operations c'). wr_operation_type r = OP_PUT \<and> wr_key r = [1] \<and> wr_value r = [2]))"
proof -
  obtain s2 where s2: "db_reach quiet_env [] s2" "db_contexts s2 2 = Some (tran_context_new 2 READ_OP_COMMITTED)"
    "fst (on_context 2 (tran_get quiet_env [1]) s2) = Inr (Some [2])"
    using sample_second_read by blast
  have "[1] \<noteq> ([] :: bytes)" "tc_isolation_level (tran_context_new 2 READ_OP_COMMITTED) \<noteq> READ_UNOP_COMMITTED"
    by (simp_all add: tran_context_new_def)
  from strict_read_is_committed [OF quiet_ok s2(1,2) this s2(3)] obtain t c' where
    c': "db_contexts s2 t = Some c'" "tc_is_commited c'"
      "\<exists>r \<in> set (tc_operations c'). wr_operation_type r = OP_PUT \<and> wr_key r = [1] \<and> wr_value r = [2]"
    by (auto simp: tran_context_new_def)
  moreover have "t \<noteq> 2" using c'(1,2) s2(2) by (auto simp: tran_context_new_def)
  ultimately show ?thesis using s2 by blast
qed

text \<open>Transaction 1 reads a key that does not exist; transaction 2, which is READ UNCOMMITTED,
  then puts it into the store and commits; transaction 1 reads the key again.\<close>

definition pair_context :: tran_context where
  "pair_context = \<lparr>tc_tranc_id = 1, tc_isolation_level = REPEATABLE_READ, tc_operations = [createRecord 1],
     tc_wal_written_count = 0, tc_temp_map = [], tc_read_map = [], tc_is_commited = False, tc_is_aborted = False\<rparr>"

definition pair_engine :: engine where
  "pair_engine = (engine_new 2 1)\<lparr>e_tran_manager := Some (start_manager\<lparr>tm_engine_bound := True,
       tm_next := 3, tm_active := [1, 2]\<rparr>)\<rparr>"

definition pair_calls :: "db_op list" where
  "pair_calls = [D_Begin REPEATABLE_READ, D_Begin READ_UNOP_COMMITTED]"

definition pair_db :: db where
  "pair_db = db_run quiet_env pair_calls (db_new 2 1 start_manager (Some start_wal))"

definition pair_rest :: "db_op list" where
  "pair_rest = [D_Put 2 io_good [7] [9] (\<lambda>_. True), D_Commit 2 False io_good (\<lambda>_ _. True), D_Flush]"

lemma pair_db_state:
  "pair_db = \<lparr>db_engine = pair_engine, db_wal = Some start_wal,
     db_contexts = [1 \<mapsto> pair_context, 2 \<mapsto> tran_context_new 2 READ_UNOP_COMMITTED]\<rparr>"
  by (simp add: pair_db_def pair_calls_def pair_engine_def pair_context_def sample_steps word_le_nat_alt)

lemma pair_db_reach: "db_reach quiet_env [] pair_db"
  unfolding pair_db_def
proof (rule db_run_reach)
  show "db_reach quiet_env [] (db_new 2 1 start_manager (Some start_wal))"
  proof (rule db_start)
    show "tran_manager_new None = Inr start_manager" by (simp add: tran_manager_new_def start_manager_def)
    show "wal_new True [] 4 0 0 = Inr start_wal" by (simp add: wal_new_def start_wal_def)
  qed simp
  show "db_run_allowed quiet_env pair_calls (db_new 2 1 start_manager (Some start_wal))"
    by (simp add: pair_calls_def sample_steps)
qed

lemma pair_first_read:
  "\<exists>s1. on_context 1 (tran_get quiet_env [7]) pair_db = (Inr None, s1) \<and>
     db_contexts s1 = [1 \<mapsto> pair_context\<lparr>tc_read_map := [([7], None)]\<rparr>, 2 \<mapsto> tran_context_new 2 READ_UNOP_COMMITTED]"
proof -
  let ?m = "start_manager\<lparr>tm_engine_bound := True, tm_next := 3, tm_active := [1, 2]\<rparr>"
  have m: "e_tran_manager pair_engine = Some ?m" by (simp add: pair_engine_def)
  have "engine_at quiet_env Map.empty (True, 3, [1, 2], []) pair_engine"
    using shows_manager [OF engine_new_shows [OF order.refl]]
    by (simp add: engine_at_def pair_engine_def status_def start_manager_def)
  from engine_get_at [OF this _ m, of "[7]" 1 True] obtain r e' where
    r: "engine_get quiet_env [7] 1 True pair_engine = (Inr (visible r), e')"
      "newest (graph_of Map.empty) [7] 1 (Some (\<lambda>tid. tm_should_skip_read ?m tid True)) r" by auto
  have "r = None" using r(2) by (cases r) (auto simp: newest_def candidates_def graph_of_def)
  then show ?thesis using r(1)
    by (auto simp: pair_db_state on_context_def tran_get_def cbind_def tget_def tran_finished_def pair_context_def
        tran_query_def tengine_def tmod_def cret_def visible_def fun_upd_twist)
qed

lemma on_context_dom: "db_contexts (snd (on_context t m s)) t' \<noteq> None \<longleftrightarrow> db_contexts s t' \<noteq> None"
  by (auto simp: on_context_def split: option.split prod.split)

theorem repeatable_read_repeats_witness:
  "\<exists>s1 c'. on_context 1 (tran_get quiet_env [7]) pair_db = (Inr None, s1) \<and>
    db_contexts (db_run quiet_env pair_rest s1) 1 = Some c' \<and> \<not> tran_finished c' \<and>
    fst (on_context 1 (tran_get quiet_env [7]) (db_run quiet_env pair_rest s1)) = Inr None"
proof -
  obtain s1 where s1: "on_context 1 (tran_get quiet_env [7]) pair_db = (Inr None, s1)"
    "db_contexts s1 = [1 \<mapsto> pair_context\<lparr>tc_read_map := [([7], None)]\<rparr>, 2 \<mapsto> tran_context_new 2 READ_UNOP_COMMITTED]"
    using pair_first_read by blast
  have c: "db_contexts pair_db 1 = Some pair_context" by (simp add: pair_db_state)
  have level: "tc_isolation_level pair_context = REPEATABLE_READ \<or> tc_isolation_level pair_context = SERIALIZABLE"
    by (simp add: pair_context_def)
  have "db_contexts (snd (on_context 2 (tran_put quiet_env io_good [7] [9] (\<lambda>_. True)) s1)) 2 \<noteq> None"
    unfolding on_context_dom by (simp add: s1(2))
  then have allowed: "db_run_allowed quiet_env pair_rest s1"
    by (simp add: pair_rest_def may_write_def s1(2) tran_context_new_def createRecord_def)
  have "\<forall>op \<in> set pair_rest. [7] \<notin> op_keys op 1" "\<forall>op \<in> set pair_rest. \<not> ends_call op 1"
    by (simp_all add: pair_rest_def ends_call_def)
  with repeatable_read_repeats [OF quiet_ok pair_db_reach c _ level s1(1) allowed] s1(1) show ?thesis by auto
qed

theorem commit_durable_visible_witness:
  "\<exists>s'. on_context 1 (tran_commit quiet_env False io_good (\<lambda>_ _. True)) sample_db = (Inr True, s') \<and>
    fst (engine_get quiet_env [1] 0 True (db_engine s')) = Inr (Some ([2], 1)) \<and>
    fst (engine_get quiet_env [5] 0 True (db_engine s')) = Inr None \<and>
    (\<exists>w L. db_wal s' = Some w \<and> record_decode (written 0 w) = Inr L \<and>
      subseq [createRecord 1, sample_put, sample_delete, commitRecord 1] L)"
proof -
  obtain s' where s': "on_context 1 (tran_commit quiet_env False io_good (\<lambda>_ _. True)) sample_db = (Inr True, s')"
    using sample_commit by blast
  have c: "db_contexts sample_db 1 = Some sample_context" by (simp add: sample_db_state)
  have level: "tc_isolation_level sample_context \<noteq> READ_UNOP_COMMITTED" by (simp add: sample_context_def)
  note D = commit_durable_visible [OF quiet_ok sample_db_reach c s']
  have "map_of (tc_temp_map sample_context) [1] = Some [2]" "map_of (tc_temp_map sample_context) [5] = Some []"
    "tc_operations sample_context = [createRecord 1, sample_put, sample_delete]"
    by (simp_all add: sample_context_def)
  with D level s' show ?thesis by auto
qed

end
