(* ===== verification/Engine_Range.thy ===== *)
theory Engine_Range
  imports Engine_History
begin

text \<open>
  Range queries of the engine (\<open>LSMEngine::lsm_iters_monotony_predicate\<close> of
  src/src/lsm/engine.cpp): the hits of a monotone predicate are collected from the memtable and
  from every SST, and one merge heap over all of them decides which version of a key is shown.
\<close>

section \<open>Collecting the records\<close>

text \<open>The wrapped predicate: the empty key of commit marks is left of every range.\<close>

definition user_predicate :: "(bytes \<Rightarrow> int) \<Rightarrow> bytes \<Rightarrow> int" where
  "user_predicate pred k = (if k = [] then 1 else pred k)"

function collect_memory ::
  "(bytes \<Rightarrow> int) \<Rightarrow> u64 \<Rightarrow> heap_iter \<Rightarrow> search_item list \<Rightarrow> search_item list result" where
  "collect_memory pred priority mem_it its =
     (if \<not> heap_is_valid mem_it then Inr its
      else ebind (heap_deref mem_it) (\<lambda>kv.
        if pred (fst kv) < 0 then Inr its
        else if 0 < pred (fst kv) then collect_memory pred priority (heap_next mem_it) its
        else ebind (heap_get_cur_tranc_id mem_it) (\<lambda>tid.
          collect_memory pred priority (heap_next mem_it) (its @ [\<lparr>si_key = fst kv, si_value = snd kv,
            si_tid = tid, si_idx = unat priority, si_level = 0\<rparr>]))))"
  by pat_completeness auto
termination
  by (relation "measure (\<lambda>(pred, priority, mem_it, its). length (items mem_it))")
    (auto simp: heap_is_valid_def heap_next_shorter)

declare collect_memory.simps [simp del]

text \<open>The loop over one SST. Its records are at most the bytes of the file.\<close>

primrec collect_sst ::
  "nat \<Rightarrow> (bytes \<Rightarrow> int) \<Rightarrow> nat \<Rightarrow> u64 \<Rightarrow> sst_iter \<Rightarrow> sst_iter \<Rightarrow> search_item list \<Rightarrow> search_item list cio" where
  "collect_sst 0 pred level priority it range_end its = cthrow Diverges"
| "collect_sst (Suc n) pred level priority it range_end its =
     (if sit_eq it range_end \<or> sit_is_end it then cret its
      else
        cbind (clift (sit_is_valid it)) (\<lambda>valid.
          if \<not> valid then cbind (sit_next it) (\<lambda>it'. collect_sst n pred level priority it' range_end its)
          else
            cbind (clift (sit_deref it)) (\<lambda>kv.
              if pred (fst kv) < 0 then cret its
              else if 0 < pred (fst kv)
                then cbind (sit_next it) (\<lambda>it'. collect_sst n pred level priority it' range_end its)
              else
                cbind (clift (sit_get_cur_tranc_id it)) (\<lambda>tid.
                cbind (sit_next it) (\<lambda>it'.
                  collect_sst n pred level priority it' range_end (its @ [\<lparr>si_key = fst kv, si_value = snd kv,
                    si_tid = tid, si_idx = unat priority, si_level = int level\<rparr>]))))))"

primrec collect_ids ::
  "(nat \<times> sst) list \<Rightarrow> u64 \<Rightarrow> (bytes \<Rightarrow> int) \<Rightarrow> abort_check \<Rightarrow> nat \<Rightarrow> nat list \<Rightarrow> u64 \<times> search_item list \<Rightarrow>
   (u64 \<times> search_item list) cio" where
  "collect_ids ssts t pred ab level [] acc = cret acc"
| "collect_ids ssts t pred ab level (i # ids) acc =
     (let priority = fst acc - 1
      in cbind (clift (ssts_at ssts i)) (\<lambda>s.
         cbind (sst_iters_monotony_predicate (Some s) t pred ab) (\<lambda>range. case range of
             None \<Rightarrow> collect_ids ssts t pred ab level ids (priority, snd acc)
           | Some (it, range_end) \<Rightarrow>
               cbind (collect_sst (sit_fuel it) pred level priority it range_end (snd acc)) (\<lambda>its.
                 collect_ids ssts t pred ab level ids (priority, its)))))"

primrec collect_levels ::
  "(nat \<times> sst) list \<Rightarrow> u64 \<Rightarrow> (bytes \<Rightarrow> int) \<Rightarrow> abort_check \<Rightarrow> levels \<Rightarrow> u64 \<times> search_item list \<Rightarrow>
   (u64 \<times> search_item list) cio" where
  "collect_levels ssts t pred ab [] acc = cret acc"
| "collect_levels ssts t pred ab (l # ls) acc =
     cbind (collect_ids ssts t pred ab (fst l) (snd l) acc) (\<lambda>acc'. collect_levels ssts t pred ab ls acc')"

section \<open>The query\<close>

type_synonym range_iter = "(heap_iter, heap_iter) two_merge"

definition sst_count :: "(nat \<times> sst) list \<Rightarrow> u64" where
  "sst_count ssts = of_nat (length (remdups (map fst ssts)))"

definition range_results ::
  "levels \<Rightarrow> (nat \<times> sst) list \<Rightarrow> memtable \<Rightarrow> u64 \<Rightarrow> (bytes \<Rightarrow> int) \<Rightarrow> abort_check \<Rightarrow> heap_iter cio" where
  "range_results ls ssts m t pred ab =
     cbind (clift (memtable_begin m t False ab)) (\<lambda>mem_it.
     cbind (clift (collect_memory pred (sst_count ssts) mem_it [])) (\<lambda>its.
     cbind (collect_levels ssts t pred ab ls (sst_count ssts, its)) (\<lambda>acc.
       cret (heap_new (snd acc) t True False))))"

definition engine_iters_monotony_predicate ::
  "u64 \<Rightarrow> (bytes \<Rightarrow> int) \<Rightarrow> (range_iter \<times> range_iter) option eio" where
  "engine_iters_monotony_predicate t pred =
     cbind (eget e_tran_manager) (\<lambda>man. case man of
         None \<Rightarrow> cthrow Runtime_Error
       | Some m \<Rightarrow>
           cbind (eget (\<lambda>e. range_results (e_levels e) (e_ssts e) (e_memtable e) t (user_predicate pred)
                    (Some (tm_is_aborted m)))) (\<lambda>collect.
           cbind (estore collect) (\<lambda>results.
             if \<not> heap_is_valid results then cret None
             else cbind (estore (two_new heap_ops heap_ops (Some results) (Some (heap_empty True False)) t False)) (\<lambda>w.
               cret (Some (w, two_default))))))"

text \<open>The end of a range is a default iterator, and \<open>operator==\<close> with it is
  \<open>is_end\<close>. What a client of the range sees: \<open>for (; begin != end; ++begin)\<close>.\<close>

primrec range_loop :: "nat \<Rightarrow> range_iter \<Rightarrow> entry list cio" where
  "range_loop 0 it = cthrow Diverges"
| "range_loop (Suc n) it =
     cbind (clift (two_is_end heap_ops heap_ops it)) (\<lambda>at_end.
       if at_end then cret []
       else
         cbind (clift (two_deref heap_ops heap_ops it)) (\<lambda>kv.
         cbind (clift (two_get_cur_tranc_id heap_ops heap_ops it)) (\<lambda>tid.
         cbind (two_next heap_ops heap_ops it) (\<lambda>it'.
         cbind (range_loop n it') (\<lambda>es. cret ((fst kv, snd kv, tid) # es))))))"

definition engine_range :: "u64 \<Rightarrow> (bytes \<Rightarrow> int) \<Rightarrow> entry list eio" where
  "engine_range t pred =
     cbind (engine_iters_monotony_predicate t pred) (\<lambda>range. case range of
         None \<Rightarrow> cret []
       | Some (it, range_end) \<Rightarrow> estore (range_loop (io_fuel (two_ops heap_ops heap_ops) it) it))"

section \<open>Collected items\<close>

text \<open>The items that a set of records has to contribute: readable hits only, and for every key
  of the range its newest readable record.\<close>

definition covers :: "(bytes \<Rightarrow> bool) \<Rightarrow> u64 \<Rightarrow> abort_check \<Rightarrow> entry set \<Rightarrow> search_item list \<Rightarrow> bool" where
  "covers K t ab E its \<longleftrightarrow>
     (\<forall>i \<in> set its. item_entry i \<in> E \<and> readable t ab (si_tid i) \<and> K (si_key i)) \<and>
     (\<forall>k v n. K k \<longrightarrow> newest E k t ab (Some (v, n)) \<longrightarrow> (\<exists>i \<in> set its. item_entry i = (k, v, n)))"

lemma newest_part:
  assumes "newest (A \<union> B) k t ab (Some (v, n))"
  shows "newest A k t ab (Some (v, n)) \<or> newest B k t ab (Some (v, n))"
  using assms by (auto simp: newest_def candidates_def)

lemma covers_union:
  assumes "covers K t ab A xs" "covers K t ab B ys"
  shows "covers K t ab (A \<union> B) (xs @ ys)"
  using assms unfolding covers_def set_append by (blast dest: newest_part)

lemma covers_Nil: "covers K t ab {} []"
  by (simp add: covers_def newest_def)

lemma one_version:
  assumes "inj_on eversion E" "(k, v, n) \<in> E" "(k, v', n) \<in> E"
  shows "v' = v"
  using inj_onD [OF assms(1) _ assms(3,2)] by simp

lemma covers_lookup:
  assumes "sorted_wrt (\<lambda>a b. ekey a < ekey b) vs" "\<And>k. K k \<Longrightarrow> newest E k t ab (map_option snd (find (\<lambda>e. ekey e = k) vs))"
    "inj_on eversion E" "map item_entry its = filter (\<lambda>e. K (ekey e)) vs"
  shows "covers K t ab E its"
proof -
  have found: "find (\<lambda>e. ekey e = ekey x) vs = Some x" if "x \<in> set vs" for x
    using assms(1) that by (induction vs) fastforce+
  have "item_entry i \<in> E \<and> readable t ab (si_tid i) \<and> K (si_key i)" if "i \<in> set its" for i
  proof -
    have "item_entry i \<in> set (map item_entry its)" using that by simp
    then have i: "item_entry i \<in> set vs" "K (si_key i)" unfolding assms(4) by (simp_all add: item_entry_def)
    from assms(2) [OF i(2)] found [OF i(1)] show ?thesis using i(2) by (auto simp: item_entry_def dest: newest_SomeD)
  qed
  moreover have "\<exists>i \<in> set its. item_entry i = (k, v, n)" if K: "K k" and new: "newest E k t ab (Some (v, n))" for k v n
  proof -
    note N = assms(2) [OF K]
    have "find (\<lambda>e. ekey e = k) vs \<noteq> None"
    proof
      assume "find (\<lambda>e. ekey e = k) vs = None"
      with N have "newest E k t ab None" by simp
      with newest_NoneD newest_SomeD [OF new] show False by blast
    qed
    then obtain x where x: "find (\<lambda>e. ekey e = k) vs = Some x" by blast
    have X: "x \<in> set vs" "ekey x = k" using findSomeD [OF x] by simp_all
    obtain v' n' where x': "x = (k, v', n')" using X(2) by (cases x) simp
    have new': "newest E k t ab (Some (v', n'))" using N x x' by simp
    have n': "n' = n" by (rule newest_unique_version [OF new' new])
    have "v = v'"
      using newest_SomeD [OF new'] newest_SomeD [OF new] unfolding n' by (blast intro: one_version [OF assms(3)])
    then have "(k, v, n) \<in> set (map item_entry its)" unfolding assms(4) using X K by (simp add: x' n')
    then show ?thesis by auto
  qed
  ultimately show ?thesis unfolding covers_def by blast
qed

lemma sorted_inj: "sorted_entries es \<Longrightarrow> inj_on eversion (set es)"
  by (rule inj_onI) (rule sorted_entries_version_unique, simp_all)

lemma covers_hits:
  assumes "sorted_entries es" "map item_entry its = filter (\<lambda>e. K (ekey e)) (reader_view False t ab es)"
  shows "covers K t ab (set es) its"
proof (rule covers_lookup [OF _ _ sorted_inj [OF assms(1)] assms(2)])
  have S: "sorted (map ekey (filter (\<lambda>e. readable t ab (etid e)) es))"
    by (rule sorted_filter_keys [OF sorted_entries_keys [OF assms(1)]])
  then show "sorted_wrt (\<lambda>a b. ekey a < ekey b) (reader_view False t ab es)"
    by (simp add: reader_view_def dedup_sorted)
  show "newest (set es) k t ab (map_option snd (find (\<lambda>e. ekey e = k) (reader_view False t ab es)))" for k
    using newest_sorted_find [OF assms(1), of k t ab] by (simp add: reader_view_def find_dedup [OF S] find_filter)
qed

lemma newest_exists:
  assumes "c \<in> candidates E k t ab"
  shows "\<exists>v n. newest E k t ab (Some (v, n))"
proof -
  have "unat w < 2 ^ 64" for w :: u64 using unsigned_less [of w] by simp
  then have "\<forall>x. x \<in> candidates E k t ab \<longrightarrow> unat (etid x) < 2 ^ 64" by blast
  then have "\<exists>x. x \<in> candidates E k t ab \<and> (\<forall>y. y \<in> candidates E k t ab \<longrightarrow> unat (etid y) \<le> unat (etid x))"
    by (rule ex_has_greatest_nat [where P = "\<lambda>x. x \<in> candidates E k t ab" and k = c, OF assms])
  then obtain e where e: "e \<in> candidates E k t ab" "\<And>x. x \<in> candidates E k t ab \<Longrightarrow> etid x \<le> etid e"
    unfolding word_le_nat_alt by blast
  obtain v n where e': "e = (k, v, n)" using e(1) by (cases e) (simp add: candidates_def)
  have "newest E k t ab (Some (v, n))"
    unfolding newest_def option.case prod.case using e(1) [unfolded e'] e(2) [unfolded e'] by simp
  then show ?thesis by blast
qed

lemma covers_winner:
  assumes "covers K t ab E its" "inj_on eversion E" "K k" "\<And>i. i \<in> set its \<Longrightarrow> item_visible mx i"
  shows "newest E k t ab (map_option (\<lambda>i. (si_value i, si_tid i)) (winner mx (heap_of its) k))"
proof (cases "candidates E k t ab = {}")
  case True
  have "winner mx (heap_of its) k = None"
    unfolding winner_None using assms(1) True unfolding covers_def candidates_def item_entry_def by fastforce
  with True show ?thesis by (simp add: newest_def)
next
  case False
  then obtain c where "c \<in> candidates E k t ab" by blast
  from newest_exists [OF this] obtain v n where new: "newest E k t ab (Some (v, n))" by blast
  then obtain j where j: "j \<in> set its" "item_entry j = (k, v, n)" using assms(1,3) unfolding covers_def by blast
  have r: "(k, v, n) \<in> E" using newest_SomeD [OF new] by simp
  have vis: "si_key j = k" "item_visible mx j" using j assms(4) by (simp_all add: item_entry_def)
  then obtain i where i: "winner mx (heap_of its) k = Some i"
    using j(1) winner_None [of mx its k] by (cases "winner mx (heap_of its) k") auto
  note W = winner_newest [OF i]
  have ci: "(k, si_value i, si_tid i) \<in> E" "readable t ab (si_tid i)"
    using W assms(1) unfolding covers_def item_entry_def by blast+
  have "si_tid i \<le> n" using new ci by (auto simp: newest_def candidates_def)
  moreover have "n \<le> si_tid i" using W j vis by (auto simp: item_entry_def)
  ultimately have n: "si_tid i = n" by simp
  with one_version [OF assms(2) r, of "si_value i"] ci(1) have "si_value i = v" by simp
  with new i n show ?thesis by simp
qed

lemma covers_visible: "covers K t ab E its \<Longrightarrow> i \<in> set its \<Longrightarrow> item_visible t i"
  unfolding covers_def item_visible_def readable_def by auto

section \<open>The memtable\<close>

definition placed :: "u64 \<Rightarrow> int \<Rightarrow> entry \<Rightarrow> search_item" where
  "placed priority level e = \<lparr>si_key = ekey e, si_value = evalue e, si_tid = etid e, si_idx = unat priority, si_level = level\<rparr>"

lemma placed_entry [simp]: "item_entry (placed p l e) = e"
  by (cases e) (simp add: placed_def item_entry_def)

lemma later_no_hits:
  assumes "monotone_predicate pred" "pred k < 0" "\<And>e. e \<in> set es \<Longrightarrow> k \<le> ekey e"
  shows "hits pred es = []"
  using assms(2,3) monotone_below(1) [OF assms(1)] by (intro no_hits) fastforce

lemma collect_memory_hits:
  assumes "monotone_predicate pred" "drain_ordered h"
  shows "collect_memory pred p h its = Inr (its @ map (placed p 0) (hits pred (map item_entry (heap_drain h))))"
  using assms(2)
proof (induction "length (items h)" arbitrary: h its rule: less_induct)
  case less
  show ?case
  proof (cases "items h")
    case Nil
    then show ?thesis by (simp add: collect_memory.simps [of pred p h] heap_is_valid_def heap_drain.simps [of h] heap_is_end_def)
  next
    case (Cons x xs)
    let ?k = "si_key x"
    have D: "heap_drain h = x # heap_drain (heap_next h)"
      using Cons by (simp add: heap_drain.simps [of h] heap_is_end_def)
    have ord: "drain_ordered (heap_next h)" "\<And>i. i \<in> set (heap_drain (heap_next h)) \<Longrightarrow> ?k < si_key i"
      using less.prems by (auto simp: drain_ordered_def D)
    note IH = less.hyps [OF heap_next_shorter ord(1)]
    have step: "collect_memory pred p h its = (if pred ?k < 0 then Inr its
        else if 0 < pred ?k then collect_memory pred p (heap_next h) its
        else collect_memory pred p (heap_next h) (its @ [placed p 0 (item_entry x)]))"
      using Cons by (simp add: collect_memory.simps [of pred p h] heap_is_valid_def heap_deref_def
          heap_get_cur_tranc_id_def placed_def item_entry_def)
    show ?thesis
    proof (cases "pred ?k < 0")
      case True
      have "hits pred (map item_entry (heap_drain (heap_next h))) = []"
        using ord(2) by (intro later_no_hits [OF assms(1) True]) (auto simp: item_entry_def order.strict_implies_order)
      with True step show ?thesis by (simp add: D item_entry_def)
    next
      case False
      with step IH Cons show ?thesis by (auto simp: D item_entry_def)
    qed
  qed
qed

section \<open>One SST\<close>

lemma dedup_subseq: "subseq (dedup es) es"
proof (induction es rule: dedup.induct)
  case (2 e es)
  have "subseq (dropWhile (\<lambda>x. ekey x = ekey e) es) es" by (rule suffix_imp_subseq [OF suffix_dropWhile])
  with 2 have "subseq (dedup (dropWhile (\<lambda>x. ekey x = ekey e) es)) es" by (rule subseq_order.trans)
  then show ?case by simp
qed simp

lemma reader_view_subseq: "subseq (reader_view keep t ab es) es"
proof (cases keep)
  case False
  have "subseq (dedup (filter (\<lambda>e. readable t ab (etid e)) es)) es"
    by (rule subseq_order.trans [OF dedup_subseq subseq_filter_left])
  with False show ?thesis by (simp add: reader_view_def)
qed (simp add: reader_view_def)

lemma sorted_keys_subseq:
  assumes "subseq xs ys" "sorted (map ekey ys)"
  shows "sorted (map ekey xs)"
  using assms
proof (induction rule: list_emb.induct)
  case (list_emb_Cons2 x y xs ys)
  have "z \<in> set ys" if "z \<in> set xs" for z
    using list_emb_set [OF list_emb_Cons2.hyps(2) that] by metis
  with list_emb_Cons2 show ?case by simp
qed simp_all

lemma blocks_view_subseq: "subseq (blocks_view keep t ab ess) (concat ess)"
proof (induction ess)
  case (Cons es ess)
  from list_emb_append_mono [OF reader_view_subseq [of keep t ab es] Cons] show ?case by (simp add: blocks_view_def)
qed (simp add: blocks_view_def)

lemma sit_shows_keys:
  assumes "sst_blocks ess" "sit_shows s ess t keep ab it vs"
  shows "sorted (map ekey vs)"
proof -
  consider "vs = []" | (at) p i j where "in_block ess t ab p i j" "vs = rest_view t keep ab ess i j"
    using assms(2) unfolding sit_shows_def by blast
  then show ?thesis
  proof cases
    case at
    then have "i < length ess" by (simp add: in_block_def)
    have "subseq vs (drop j (ess ! i) @ concat (drop (Suc i) ess))"
      unfolding at(2) rest_view_def by (rule list_emb_append_mono [OF reader_view_subseq blocks_view_subseq])
    also have "subseq \<dots> (ess ! i @ concat (drop (Suc i) ess))"
      by (rule list_emb_append_mono) (simp_all add: suffix_imp_subseq suffix_drop)
    also have "ess ! i @ concat (drop (Suc i) ess) = concat (drop i ess)"
      using \<open>i < length ess\<close> by (simp add: Cons_nth_drop_Suc [symmetric])
    also have "subseq \<dots> (concat (take i ess) @ concat (drop i ess))" by (simp add: list_emb_append2)
    also have "concat (take i ess) @ concat (drop i ess) = concat ess" by (metis append_take_drop_id concat_append)
    finally have "subseq vs (concat ess)" .
    moreover have "sorted (map ekey (concat ess))"
      using assms(1) sorted_entries_keys by (simp add: sst_blocks_def)
    ultimately show ?thesis by (blast intro: sorted_keys_subseq)
  qed simp
qed

lemma collect_sst_spec:
  assumes "sst_plain hash C s ess" "monotone_predicate pred" "hits pred ws = []"
    "sit_shows s ess t False ab range_end ws" "sit_shows s ess t False ab it vs" "length vs < n"
  shows "spec (store_holds C) (collect_sst n pred level p it range_end its)
    (\<lambda>r. r = its @ map (placed p (int level)) (hits pred vs))"
  using assms(5,6)
proof (induction n arbitrary: it vs its)
  case (Suc n)
  note P = sst_plain_facts [OF assms(1)]
  show ?case
  proof (cases "sit_eq it range_end")
    case True
    then have "vs = ws" by (rule sit_eq_same_rest [OF Suc.prems(1) assms(4)])
    with True assms(3) show ?thesis by (simp add: spec_ret)
  next
    case differ: False
    show ?thesis
    proof (cases vs)
      case Nil
      with sit_valid_Nil(2) [of s ess t False ab it] Suc.prems(1) P(3) show ?thesis by (simp add: spec_ret)
    next
      case (Cons v vs')
      note S = Suc.prems(1) [unfolded Cons]
      note O = sit_observe [OF P(1) S]
      have D: "sit_deref it = Inr (ekey v, evalue v)"
        using O(5) resolve_value [OF P(9), of v] P(10) by simp
      have le: "ekey v \<le> ekey e" if "e \<in> set vs'" for e
        using sit_shows_keys [OF P(3) S] that by simp
      have step: "spec (store_holds C) (cbind (sit_next it) (\<lambda>it'. collect_sst n pred level p it' range_end its'))
          (\<lambda>r. r = its' @ map (placed p (int level)) (hits pred vs'))" for its'
        by (rule spec_bind [OF sit_next_spec [OF P(1) S]], rule Suc.IH) (use Suc.prems(2) Cons in simp_all)
      show ?thesis
      proof (cases "pred (ekey v) < 0")
        case True
        from later_no_hits [OF assms(2) True le] True differ O(1,2) D show ?thesis
          by (simp add: Cons spec_ret)
      next
        case False
        with step [of its] step [of "its @ [placed p (int level) v]"] differ O(1,2,6) D show ?thesis
          by (auto simp: Cons placed_def [of p "int level" v])
      qed
    qed
  qed
qed simp


section \<open>All SSTs\<close>

abbreviation in_range :: "(bytes \<Rightarrow> int) \<Rightarrow> bytes \<Rightarrow> bool" where
  "in_range pred k \<equiv> pred k = 0"

lemma sst_iter_fuel:
  assumes "sst_plain hash C s ess" "sit_shows s ess t keep ab it vs"
  shows "length vs < sit_fuel it"
proof -
  have "sit_sst it = Some s" using assms(2) unfolding sit_shows_def by auto
  then show ?thesis
    using order.trans [OF sit_shows_length [OF assms(2)] sst_file_count [OF sst_plain_facts(2) [OF assms(1)]]]
    by (simp add: sit_fuel_def)
qed

lemma collect_ids_spec:
  assumes "monotone_predicate pred" "0 < pred []"
  shows "tables_shown hash C ssts P ids \<Longrightarrow> covers (in_range pred) t ab E (snd acc) \<Longrightarrow>
    spec (store_holds C) (collect_ids ssts t pred ab level ids acc)
      (\<lambda>r. covers (in_range pred) t ab (E \<union> level_entries P ids) (snd r))"
proof (induction ids arbitrary: E acc)
  case Nil
  then show ?case by (simp add: spec_ret level_entries_def)
next
  case (Cons i ids)
  obtain s where s: "ssts_at ssts i = Inr s" "sst_plain hash C s (P i)"
    by (rule tables_shownE [OF Cons.prems(1), of i]) auto
  have rest: "tables_shown hash C ssts P ids" using Cons.prems(1) by (simp add: tables_shown_def)
  note F = sst_plain_facts [OF s(2)]
  have E: "E \<union> level_entries P (i # ids) = E \<union> set (concat (P i)) \<union> level_entries P ids"
    by (auto simp: level_entries_def)
  have one: "covers (in_range pred) t ab (E \<union> set (concat (P i))) (snd acc @ map (placed p l) (hits pred vs))"
    if "hits pred vs = hits pred (reader_view False t ab (concat (P i)))" for p l vs
    by (rule covers_union [OF Cons.prems(2) covers_hits [OF F(5)]]) (simp add: that comp_def)
  show ?case
    unfolding E collect_ids.simps Let_def s(1) cbind_simps
  proof (rule spec_bind [OF sst_iters_spec [OF F(1) assms]])
    fix r
    assume r: "case r of None \<Rightarrow> hits pred (reader_view False t ab (concat (P i))) = []
      | Some be \<Rightarrow> range_ends s (P i) t ab pred be"
    show "spec (store_holds C) (case r of
         None \<Rightarrow> collect_ids ssts t pred ab level ids (fst acc - 1, snd acc)
       | Some (it, range_end) \<Rightarrow>
           cbind (collect_sst (sit_fuel it) pred level (fst acc - 1) it range_end (snd acc)) (\<lambda>its.
             collect_ids ssts t pred ab level ids (fst acc - 1, its)))
      (\<lambda>r. covers (in_range pred) t ab (E \<union> set (concat (P i)) \<union> level_entries P ids) (snd r))"
    proof (cases r)
      case None
      with r one [of "[]"] show ?thesis by (simp add: Cons.IH [OF rest])
    next
      case (Some be)
      obtain it e where be: "be = (it, e)" by (cases be)
      from r obtain v vs ws where R: "sit_shows s (P i) t False ab it (v # vs)" "sit_shows s (P i) t False ab e ws"
        "hits pred ws = []" "hits pred (v # vs) = hits pred (reader_view False t ab (concat (P i)))"
        unfolding Some be option.case range_ends_def fst_conv snd_conv by blast
      show ?thesis
        unfolding Some be option.case prod.case
        by (rule spec_bind [OF collect_sst_spec [OF s(2) assms(1) R(3,2,1) sst_iter_fuel [OF s(2) R(1)]]],
            rule Cons.IH [OF rest]) (simp only: snd_conv one [OF R(4)])
    qed
  qed
qed

lemma collect_levels_spec:
  assumes "monotone_predicate pred" "0 < pred []"
  shows "tables_shown hash C ssts P (all_ids ls) \<Longrightarrow> covers (in_range pred) t ab E (snd acc) \<Longrightarrow>
    spec (store_holds C) (collect_levels ssts t pred ab ls acc)
      (\<lambda>r. covers (in_range pred) t ab (E \<union> level_entries P (all_ids ls)) (snd r))"
proof (induction ls arbitrary: E acc)
  case Nil
  then show ?case by (simp add: spec_ret level_entries_def all_ids_def)
next
  case (Cons l ls)
  have ids: "all_ids (l # ls) = snd l @ all_ids ls" by (cases l) (simp add: all_ids_def)
  have T: "tables_shown hash C ssts P (snd l)" "tables_shown hash C ssts P (all_ids ls)"
    using Cons.prems(1) unfolding ids by (simp_all add: tables_shown_append)
  show ?case
    unfolding ids level_entries_append collect_levels.simps
    by (rule spec_bind [OF collect_ids_spec [OF assms T(1) Cons.prems(2)]])
      (drule Cons.IH [OF T(2)], simp add: Un_assoc)
qed

section \<open>The results\<close>

text \<open>A sorted list of the newest readable records of the keys of a range, deletions left out.\<close>

definition range_of :: "(bytes \<Rightarrow> bool) \<Rightarrow> u64 \<Rightarrow> abort_check \<Rightarrow> entry set \<Rightarrow> entry list \<Rightarrow> bool" where
  "range_of K t ab E es \<longleftrightarrow> sorted_wrt (\<lambda>a b. ekey a < ekey b) es \<and>
     (\<forall>e \<in> set es. K (ekey e) \<and> readable t ab (etid e)) \<and>
     (\<forall>k. K k \<longrightarrow> (\<exists>r. newest E k t ab r \<and> map_option snd (find (\<lambda>e. ekey e = k) es) = visible r))"

lemma find_map_entry: "find (\<lambda>e. ekey e = k) (map item_entry its) = map_option item_entry (find (\<lambda>i. si_key i = k) its)"
  by (induction its) (auto simp: item_entry_def)

lemma shown_visible:
  "map_option snd (map_option item_entry (shown True r)) = visible (map_option (\<lambda>i. (si_value i, si_tid i)) r)"
  by (cases r) (auto simp: shown_def visible_def item_entry_def)

lemma covers_range_of:
  assumes "covers K t ab E its" "inj_on eversion E"
  shows "range_of K t ab E (map item_entry (heap_drain (heap_new its t True False)))"
proof -
  let ?h = "heap_new its t True False"
  note D = heap_drain_new [of its t True]
  have "i \<in> set its" if "i \<in> set (heap_drain ?h)" for i
  proof -
    have "find (\<lambda>x. si_key x = si_key i) (heap_drain ?h) = Some i"
      using D that by (intro find_sorted_key) blast+
    then have "shown True (winner t (heap_of its) (si_key i)) = Some i" using D [of "si_key i"] by simp
    then have "winner t (heap_of its) (si_key i) = Some i" by (auto simp: shown_def split: option.splits if_splits)
    then show ?thesis using winner_newest by blast
  qed
  then have "\<forall>e \<in> set (map item_entry (heap_drain ?h)). K (ekey e) \<and> readable t ab (etid e)"
    using assms(1) by (fastforce simp: covers_def item_entry_def)
  moreover have "sorted_wrt (\<lambda>a b. ekey a < ekey b) (map item_entry (heap_drain ?h))"
    using D by (simp add: sorted_wrt_map item_entry_def)
  moreover have "\<exists>r. newest E k t ab r \<and> map_option snd (find (\<lambda>e. ekey e = k) (map item_entry (heap_drain ?h))) = visible r"
    if "K k" for k
    using covers_winner [OF assms that covers_visible [OF assms(1)]] D [of k] by (auto simp: find_map_entry shown_visible)
  ultimately show ?thesis unfolding range_of_def by blast
qed

lemma memory_covers:
  assumes "mem_ok m" "inj_on eversion (set (mem_records m))" "\<And>k. K k \<Longrightarrow> k \<noteq> []"
    and h: "drain_ordered h" "\<And>k. drain_lookup h k = mem_lookup m k t ab"
    and its: "map item_entry its = filter (\<lambda>e. K (ekey e)) (map item_entry (heap_drain h))"
  shows "covers K t ab (set (mem_records m)) its"
proof (rule covers_lookup [OF _ _ assms(2) its])
  show "sorted_wrt (\<lambda>a b. ekey a < ekey b) (map item_entry (heap_drain h))"
    using h(1) by (simp add: drain_ordered_def sorted_wrt_map item_entry_def)
  fix k
  assume "K k"
  then have k: "k \<noteq> []" by (rule assms(3))
  have "map_option snd (find (\<lambda>e. ekey e = k) (map item_entry (heap_drain h))) = mem_lookup m k t ab"
    unfolding h(2) [symmetric] find_map_entry drain_lookup_def by (simp add: option.map_comp comp_def item_entry_def)
  moreover have "newest (set (mem_records m)) k t ab (mem_lookup m k t ab)"
    using mem.lookup_newest [OF assms(1)] newest_cong [OF mem_entries_candidates [OF k]] by blast
  ultimately show "newest (set (mem_records m)) k t ab
      (map_option snd (find (\<lambda>e. ekey e = k) (map item_entry (heap_drain h))))" by simp
qed

lemma user_predicate:
  assumes "monotone_predicate pred"
  shows "monotone_predicate (user_predicate pred)" "0 < user_predicate pred []" "user_predicate pred k = 0 \<longleftrightarrow> k \<noteq> [] \<and> pred k = 0"
proof -
  show "monotone_predicate (user_predicate pred)"
    using assms unfolding monotone_predicate_def user_predicate_def by (auto split: if_splits)
qed (simp_all add: user_predicate_def)


lemma no_hiding [simp]: "hide_deleted False r = r"
  by (cases r) (auto simp: hide_deleted_def)

lemma range_results_spec:
  assumes "mem_ok m" "tables_shown hash C ssts P (all_ids ls)" "monotone_predicate pred" "0 < pred []"
    and inj: "inj_on eversion (set (mem_records m) \<union> level_entries P (all_ids ls))"
  shows "spec (store_holds C) (range_results ls ssts m t pred ab)
    (\<lambda>h. range_of (in_range pred) t ab (set (mem_records m) \<union> level_entries P (all_ids ls)) (map item_entry (heap_drain h)))"
proof -
  obtain h where h: "memtable_begin m t False ab = Inr h" "drain_ordered h" "\<And>k. drain_lookup h k = mem_lookup m k t ab"
    using memtable_begin_drain [OF assms(1), of t False ab] unfolding no_hiding by blast
  let ?its = "map (placed (sst_count ssts) 0) (hits pred (map item_entry (heap_drain h)))"
  have c: "collect_memory pred (sst_count ssts) h [] = Inr ?its"
    using collect_memory_hits [OF assms(3) h(2), of "sst_count ssts" "[]"] by simp
  have cov: "covers (in_range pred) t ab (set (mem_records m)) (snd (sst_count ssts, ?its))"
    unfolding snd_conv
    by (rule memory_covers [OF assms(1) inj_on_subset [OF inj] _ h(2,3)]) (use assms(4) in \<open>auto simp: comp_def\<close>)
  show ?thesis
    unfolding range_results_def h(1) cbind_simps c
    by (rule spec_bind [OF collect_levels_spec [OF assms(3,4,2) cov]], rule spec_ret)
      (rule covers_range_of [OF _ inj])
qed

section \<open>Reading the results\<close>

definition heap_drained :: "heap_iter \<Rightarrow> entry list \<Rightarrow> bool" where
  "heap_drained h es \<longleftrightarrow> es = map item_entry (heap_drain h)"

interpretation heap_one: record_stream I heap_ops heap_drained for I
proof
  fix it e es
  show "heap_drained it [] \<Longrightarrow> io_valid heap_ops it = Inr False \<and> io_end heap_ops it = Inr True"
    by (auto simp: heap_drained_def heap_ops_def heap_is_valid_def heap_is_end_def heap_drain.simps [of it] split: if_splits)
  show "heap_drained it (e # es) \<Longrightarrow> io_valid heap_ops it = Inr True \<and> io_end heap_ops it = Inr False \<and>
      io_deref heap_ops it = Inr (ekey e, evalue e) \<and> io_tid heap_ops it = Inr (etid e)"
    by (auto simp: heap_drained_def heap_ops_def heap_is_valid_def heap_is_end_def heap_drain.simps [of it] heap_deref_def
        heap_get_cur_tranc_id_def item_entry_def split: if_splits)
  show "spec I (io_next heap_ops it) (\<lambda>it'. heap_drained it' es)" if "heap_drained it (e # es)"
    using that by (auto simp: heap_drained_def heap_ops_def heap_drain.simps [of it] split: if_splits intro!: spec_ret)
  have "length (heap_drain h) \<le> length (items h)" for h
  proof (induction h rule: heap_drain.induct)
    case (1 h)
    show ?case
    proof (cases "items h")
      case Cons
      then have "items h \<noteq> []" by simp
      with 1 heap_next_shorter [OF this] show ?thesis by (simp add: heap_drain.simps [of h] heap_is_end_def)
    qed (simp add: heap_drain.simps [of h] heap_is_end_def)
  qed
  then show "heap_drained it es \<Longrightarrow> length es < io_fuel heap_ops it"
    by (simp add: heap_drained_def heap_ops_def le_imp_less_Suc)
qed

text \<open>The merge of the results with an empty stream.\<close>

definition two_single :: "range_iter \<Rightarrow> entry list \<Rightarrow> bool" where
  "two_single w es \<longleftrightarrow> (\<exists>a b. tw_a w = Some a \<and> tw_b w = Some b \<and> heap_drained a es \<and> heap_drained b []) \<and>
     \<not> tw_keep_all w \<and> (tw_choose_a w \<longleftrightarrow> es \<noteq> []) \<and> distinct (map ekey es) \<and>
     (\<forall>e \<in> set es. tw_max_tranc_id w = 0 \<or> etid e \<le> tw_max_tranc_id w)"

lemma skip_opt_spec:
  assumes "heap_drained it es" "\<And>it e es. heap_drained it (e # es) \<Longrightarrow> P it = Inr (Q e)"
  shows "spec I (skip_opt P heap_ops (Some it)) (\<lambda>r. \<exists>it'. r = Some it' \<and> heap_drained it' (dropWhile Q es))"
  unfolding skip_opt_def option.case
  by (rule spec_bind [OF heap_one.skip_while_spec [OF assms(1) heap_one.fuel [OF assms(1)] assms(2)]]) (auto intro!: spec_ret)

lemma two_settle_single:
  assumes "heap_drained a es" "heap_drained b []" "distinct (map ekey es)" "\<forall>e \<in> set es. t = 0 \<or> etid e \<le> t"
  shows "spec I (two_settle heap_ops heap_ops
      \<lparr>tw_a = Some a, tw_b = Some b, tw_choose_a = c, tw_max_tranc_id = t, tw_keep_all = False\<rparr>) (\<lambda>w. two_single w es)"
proof -
  let ?w = "\<lambda>a b. \<lparr>tw_a = Some a, tw_b = Some b, tw_choose_a = c, tw_max_tranc_id = t, tw_keep_all = False\<rparr>"
  let ?Q = "\<lambda>w. \<exists>a b. w = ?w a b \<and> heap_drained a es \<and> heap_drained b []"
  let ?over = "\<lambda>e. t < etid e"
  have tid: "ebind (io_tid heap_ops it) (\<lambda>u. Inr (t < u)) = Inr (?over e)" if "heap_drained it (e # es')" for it e es'
    using heap_one.at_record [OF that] by simp
  have keep: "dropWhile ?over es = es" if "t \<noteq> 0"
    using assms(4) that by (cases es) auto
  have skip: "spec I (two_skip_by_tranc_id heap_ops heap_ops (?w a b)) ?Q"
  proof (cases "t = 0")
    case True
    with assms(1,2) show ?thesis by (simp add: two_skip_by_tranc_id_def spec_ret)
  next
    case False
    have "spec I (cbind (skip_opt (\<lambda>a. ebind (io_tid heap_ops a) (\<lambda>u. Inr (t < u))) heap_ops (Some a)) (\<lambda>a'.
        cbind (skip_opt (\<lambda>b. ebind (io_tid heap_ops b) (\<lambda>u. Inr (t < u))) heap_ops (Some b)) (\<lambda>b'.
          cret ((?w a b)\<lparr>tw_a := a', tw_b := b'\<rparr>)))) ?Q"
      by (rule spec_bind [OF skip_opt_spec [OF assms(1) tid]], assumption)
        (erule exE, rule spec_bind [OF skip_opt_spec [OF assms(2) tid]], assumption,
          use keep [OF False] in \<open>auto intro!: spec_ret\<close>)
    with False show ?thesis by (simp add: two_skip_by_tranc_id_def)
  qed
  have choose: "choose_it_a heap_ops heap_ops (?w a b) = Inr (es \<noteq> [])" if "heap_drained a es" "heap_drained b []" for a b
    using heap_one.at_end [of a] heap_one.at_end [OF that(2)] heap_one.at_record [of a] that(1)
    by (cases es) (simp_all add: choose_it_a_def)
  show ?thesis
    unfolding two_settle_def
    by (rule spec_bind [OF skip])
      (elim exE conjE, simp add: choose, rule spec_ret, use assms(3,4) in \<open>simp add: two_single_def\<close>)
qed

lemma two_single_record:
  assumes "two_single w (e # es)"
  shows "two_is_end heap_ops heap_ops w = Inr False" "two_deref heap_ops heap_ops w = Inr (ekey e, evalue e)"
    "two_get_cur_tranc_id heap_ops heap_ops w = Inr (etid e)"
    "spec I (two_next heap_ops heap_ops w) (\<lambda>w'. two_single w' es)"
proof -
  obtain a b t c k where w: "w = \<lparr>tw_a = a, tw_b = b, tw_choose_a = c, tw_max_tranc_id = t, tw_keep_all = k\<rparr>"
    by (cases w) auto
  with assms obtain x y where w: "w = \<lparr>tw_a = Some x, tw_b = Some y, tw_choose_a = True, tw_max_tranc_id = t, tw_keep_all = False\<rparr>"
    and xy: "heap_drained x (e # es)" "heap_drained y []" and d: "distinct (map ekey (e # es))"
      "\<forall>e \<in> set (e # es). t = 0 \<or> etid e \<le> t"
    unfolding two_single_def by auto
  note X = heap_one.at_record [OF xy(1)]
  show "two_is_end heap_ops heap_ops w = Inr False" "two_deref heap_ops heap_ops w = Inr (ekey e, evalue e)"
    "two_get_cur_tranc_id heap_ops heap_ops w = Inr (etid e)"
    using X by (simp_all add: w two_is_end_def opt_end_def two_deref_def two_is_valid_def opt_valid_def opt_deref_def
        two_get_cur_tranc_id_def)
  let ?Q = "\<lambda>x. ekey x = ekey e"
  have key: "key_is heap_ops (ekey e) it = Inr (?Q r)" if "heap_drained it (r # rs)" for it r rs
    using heap_one.at_record [OF that] by (simp add: key_is_def)
  have drop: "dropWhile ?Q (e # es) = es" using d(1) by (cases es) auto
  have "spec I (cbind (skip_opt (key_is heap_ops (ekey e)) heap_ops (Some x)) (\<lambda>a.
      cbind (skip_opt (key_is heap_ops (ekey e)) heap_ops (Some y)) (\<lambda>b.
        two_settle heap_ops heap_ops (w\<lparr>tw_a := a, tw_b := b\<rparr>)))) (\<lambda>w'. two_single w' es)"
  proof (rule spec_bind [OF skip_opt_spec [OF xy(1) key]], assumption, elim exE conjE)
    fix a x'
    assume a: "a = Some x'" "heap_drained x' (dropWhile ?Q (e # es))"
    show "spec I (cbind (skip_opt (key_is heap_ops (ekey e)) heap_ops (Some y)) (\<lambda>b.
        two_settle heap_ops heap_ops (w\<lparr>tw_a := a, tw_b := b\<rparr>))) (\<lambda>w'. two_single w' es)"
    proof (rule spec_bind [OF skip_opt_spec [OF xy(2) key]], assumption, elim exE conjE)
      fix b y'
      assume "b = Some y'" "heap_drained y' (dropWhile ?Q [])"
      with a d show "spec I (two_settle heap_ops heap_ops (w\<lparr>tw_a := a, tw_b := b\<rparr>)) (\<lambda>w'. two_single w' es)"
        unfolding w drop by (simp, intro two_settle_single) auto
    qed
  qed
  then show "spec I (two_next heap_ops heap_ops w) (\<lambda>w'. two_single w' es)"
    using X by (simp add: two_next_def w opt_valid_def opt_deref_def)
qed

lemma range_read_spec:
  assumes "two_single w es" "length es < n"
  shows "spec I (range_loop n w) (\<lambda>r. r = es)"
  using assms
proof (induction n arbitrary: w es)
  case (Suc n)
  show ?case
  proof (cases es)
    case Nil
    with Suc.prems(1) have "two_is_end heap_ops heap_ops w = Inr True"
      using heap_one.at_end by (auto simp: two_single_def two_is_end_def opt_end_def)
    with Nil show ?thesis by (simp add: spec_ret)
  next
    case (Cons e es')
    note R = two_single_record [OF Suc.prems(1) [unfolded Cons]]
    have "spec I (cbind (two_next heap_ops heap_ops w) (\<lambda>it'. cbind (range_loop n it') (\<lambda>es. cret (e # es)))) (\<lambda>r. r = e # es')"
      by (rule spec_bind [OF R(4)], rule spec_bind [OF Suc.IH], assumption)
        (use Suc.prems(2) Cons in \<open>auto intro!: spec_ret\<close>)
    with R(1-3) show ?thesis by (simp add: Cons)
  qed
qed simp


section \<open>The query of the engine\<close>

lemma newest_unique:
  assumes "inj_on eversion E" "newest E k t ab r" "newest E k t ab r'"
  shows "r = r'"
proof (cases r)
  case None
  show ?thesis
  proof (cases r')
    case (Some x)
    with assms(3) newest_SomeD [of E k t ab] newest_NoneD [of E k t ab] assms(2) None show ?thesis by (cases x) blast
  qed (simp add: None)
next
  case (Some x)
  obtain v n where x: "r = Some (v, n)" using Some by (cases x) simp
  show ?thesis
  proof (cases r')
    case None
    with assms newest_SomeD [of E k t ab v n] newest_NoneD [of E k t ab v n] x show ?thesis by blast
  next
    case (Some y)
    obtain v' n' where y: "r' = Some (v', n')" using Some by (cases y) simp
    have n: "n' = n" using newest_unique_version assms(2,3) x y by metis
    have "(k, v, n) \<in> E" "(k, v', n) \<in> E" using newest_SomeD assms(2,3) x y n by metis+
    from one_version [OF assms(1) this] show ?thesis by (simp add: x y n)
  qed
qed

lemma range_of_facts:
  assumes "range_of K t ab E es"
  shows "distinct (map ekey es)" "\<forall>e \<in> set es. t = 0 \<or> etid e \<le> t"
proof -
  have "sorted_wrt (\<lambda>a b. ekey a < ekey b) es" using assms by (simp add: range_of_def)
  then show "distinct (map ekey es)" by (induction es) auto
  show "\<forall>e \<in> set es. t = 0 \<or> etid e \<le> t" using assms unfolding range_of_def readable_def by blast
qed

lemma two_single_fuel:
  assumes "two_single w es"
  shows "length es < io_fuel (two_ops heap_ops heap_ops) w"
proof -
  obtain a b where ab: "tw_a w = Some a" "tw_b w = Some b" "heap_drained a es"
    using assms unfolding two_single_def by blast
  from heap_one.fuel [OF ab(3)] ab(1,2) show ?thesis by (simp add: two_ops_def)
qed

lemma spec_estore_upd:
  assumes "spec I m Q" "I st"
  shows "\<exists>x st'. estore m (e\<lparr>e_store := st\<rparr>) = (Inr x, e\<lparr>e_store := st'\<rparr>) \<and> I st' \<and> Q x"
  using spec_run [OF assms] by (auto simp: estore_def)

lemma engine_range_spec:
  assumes "engine_ok env P e" "monotone_predicate pred" "e_tran_manager e = Some m"
  shows "\<exists>es st. engine_range t pred e = (Inr es, e\<lparr>e_store := st\<rparr>) \<and> store_holds (blocks_of P) st \<and>
    range_of (\<lambda>k. k \<noteq> [] \<and> pred k = 0) t (Some (tm_is_aborted m)) (set (engine_records P e)) es"
proof -
  let ?I = "store_holds (blocks_of P)" and ?ab = "Some (tm_is_aborted m)" and ?p = "user_predicate pred"
  let ?E = "set (mem_records (e_memtable e)) \<union> level_entries P (all_ids (e_levels e))"
  have E: "set (engine_records P e) = ?E" by (simp add: engine_records_def set_ids_records)
  have K: "mem_ok (e_memtable e)" "tables_shown (env_hash env) (blocks_of P) (e_ssts e) P (all_ids (e_levels e))"
    "?I (e_store e)" "distinct (map eversion (engine_records P e))"
    using assms(1) unfolding engine_ok_def by blast+
  have inj: "inj_on eversion ?E" using K(4) unfolding E [symmetric] by (simp add: distinct_map)
  have range: "range_of (in_range ?p) t ?ab ?E = range_of (\<lambda>k. k \<noteq> [] \<and> pred k = 0) t ?ab ?E"
    by (simp add: user_predicate(3) [OF assms(2)])
  obtain h st where h: "estore (range_results (e_levels e) (e_ssts e) (e_memtable e) t ?p ?ab) e = (Inr h, e\<lparr>e_store := st\<rparr>)"
    "?I st" "range_of (in_range ?p) t ?ab ?E (map item_entry (heap_drain h))"
    using spec_estore [where e = e, OF range_results_spec [OF K(1,2) user_predicate(1,2) [OF assms(2)] inj, of t ?ab] K(3)] by blast
  define es where "es = map item_entry (heap_drain h)"
  have r: "range_of (\<lambda>k. k \<noteq> [] \<and> pred k = 0) t ?ab (set (engine_records P e)) es"
    using h(3) unfolding E range es_def .
  show ?thesis
  proof (cases "heap_is_valid h")
    case False
    then have "es = []" by (simp add: es_def heap_is_valid_def heap_drain.simps [of h] heap_is_end_def)
    moreover from False have "engine_range t pred e = (Inr [], e\<lparr>e_store := st\<rparr>)"
      by (simp add: engine_range_def engine_iters_monotony_predicate_def cbind_def eget_def assms(3) h(1) cret_def)
    ultimately show ?thesis using h(2) r by blast
  next
    case True
    have a: "heap_drained h es" by (simp add: heap_drained_def es_def)
    have b: "heap_drained (heap_empty True False) []"
      unfolding heap_drained_def by (subst heap_drain.simps) (simp add: heap_is_end_def heap_empty_def)
    have new: "spec ?I (two_new heap_ops heap_ops (Some h) (Some (heap_empty True False)) t False) (\<lambda>w. two_single w es)"
      unfolding two_new_def by (rule two_settle_single [OF a b range_of_facts [OF r]])
    obtain w st1 where w: "estore (two_new heap_ops heap_ops (Some h) (Some (heap_empty True False)) t False) (e\<lparr>e_store := st\<rparr>) =
        (Inr w, e\<lparr>e_store := st1\<rparr>)" "?I st1" "two_single w es"
      using spec_estore_upd [OF new h(2), of e] by blast
    have loop: "spec ?I (range_loop (io_fuel (two_ops heap_ops heap_ops) w) w) (\<lambda>r. r = es)"
      by (rule range_read_spec [OF w(3) two_single_fuel [OF w(3)]])
    obtain st2 where l: "estore (range_loop (io_fuel (two_ops heap_ops heap_ops) w) w) (e\<lparr>e_store := st1\<rparr>) = (Inr es, e\<lparr>e_store := st2\<rparr>)" "?I st2"
      using spec_estore_upd [OF loop w(2), of e] by blast
    have "engine_range t pred e = (Inr es, e\<lparr>e_store := st2\<rparr>)"
      using True l(1) by (simp add: engine_range_def engine_iters_monotony_predicate_def cbind_def eget_def assms(3) h(1) cret_def w(1))
    with l(2) r show ?thesis by blast
  qed
qed

text \<open>Such a list agrees with the point reads.\<close>

lemma range_of_get:
  assumes P: "engine_ok env P e" and m: "e_tran_manager e = Some m"
    and es: "range_of K t (Some (tm_is_aborted m)) (set (engine_records P e)) es" and k: "K k" "k \<noteq> []"
  shows "fst (engine_get env k t False e) = Inr (map_option snd (find (\<lambda>x. ekey x = k) es))"
proof -
  let ?E = "set (engine_records P e)"
  have inj: "inj_on eversion ?E" using P unfolding engine_ok_def by (simp add: distinct_map)
  have skip: "(\<lambda>tid. tm_should_skip_read m tid False) = tm_is_aborted m"
    by (simp add: fun_eq_iff tm_should_skip_read_def tm_is_aborted_def)
  obtain r st' where r: "engine_get env k t False e = (Inr (visible r), e\<lparr>e_store := st'\<rparr>)"
    "newest ?E k t (Some (tm_is_aborted m)) r"
    using engine_get_spec [OF P k(2) m, of t False] unfolding skip by blast
  obtain r' where r': "newest ?E k t (Some (tm_is_aborted m)) r'"
    "map_option snd (find (\<lambda>e. ekey e = k) es) = visible r'"
    using es k(1) unfolding range_of_def by blast
  have "r = r'" by (rule newest_unique [OF inj r(2) r'(1)])
  with r(1) r'(2) show ?thesis by simp
qed

text \<open>C5: after any history a range query, read to its end, gives the keys of the range in ascending
  order, each once, with the value that a point read with the same bound returns (the point read
  that does not ask for committed data); deleted keys and commit marks are left out.\<close>

theorem range_query_agrees:
  assumes "env_ok env" "1 \<le> cache_k" "ops_fit Map.empty ops" "monotone_predicate pred"
    and e: "e = engine_run env ops (engine_new capacity cache_k)" and m: "e_tran_manager e = Some m"
  shows "\<exists>es e'. engine_range t pred e = (Inr es, e') \<and> sorted_wrt (\<lambda>a b. ekey a < ekey b) es \<and>
    (\<forall>x \<in> set es. ekey x \<noteq> [] \<and> pred (ekey x) = 0) \<and>
    (\<forall>k. k \<noteq> [] \<and> pred k = 0 \<longrightarrow>
       fst (engine_get env k t False e) = Inr (map_option snd (find (\<lambda>x. ekey x = k) es)))"
proof -
  obtain P where P: "engine_ok env P e"
    using history_shows [OF assms(1-3), of capacity] unfolding e engine_shows_def by blast
  obtain es st where es: "engine_range t pred e = (Inr es, e\<lparr>e_store := st\<rparr>)"
    "range_of (\<lambda>k. k \<noteq> [] \<and> pred k = 0) t (Some (tm_is_aborted m)) (set (engine_records P e)) es"
    using engine_range_spec [OF P assms(4) m, of t] by blast
  have "fst (engine_get env k t False e) = Inr (map_option snd (find (\<lambda>x. ekey x = k) es))"
    if k: "k \<noteq> [] \<and> pred k = 0" for k
    by (rule range_of_get [OF P m es(2)]) (use k in simp_all)
  with es show ?thesis unfolding range_of_def by blast
qed


theorem range_query_agrees_witness:
  "\<exists>es e'. engine_range 4 (\<lambda>k. if k < [7] then 0 else - 1) (engine_run sample_env sample_ops (engine_new 2 1)) = (Inr es, e') \<and>
    sorted_wrt (\<lambda>a b. ekey a < ekey b) es \<and> [7] \<notin> set (map ekey es) \<and>
    fst (engine_get sample_env [1] 4 False (engine_run sample_env sample_ops (engine_new 2 1))) =
      Inr (map_option snd (find (\<lambda>x. ekey x = [1]) es))"
proof -
  define pred :: "bytes \<Rightarrow> int" where "pred = (\<lambda>k. if k < [7] then 0 else - 1)"
  define e where "e = engine_run sample_env sample_ops (engine_new 2 1)"
  have "b < [7] \<Longrightarrow> a \<le> b \<Longrightarrow> a < [7]" for a b :: bytes by (rule order.strict_trans1)
  then have mono: "monotone_predicate pred" unfolding monotone_predicate_def pred_def by simp blast
  have m: "e_tran_manager e = Some sample_manager" unfolding e_def by (rule sample_run_manager)
  obtain es e' where es: "engine_range 4 pred e = (Inr es, e')"
    "sorted_wrt (\<lambda>a b. ekey a < ekey b) es" "\<forall>x \<in> set es. ekey x \<noteq> [] \<and> pred (ekey x) = 0"
    "\<forall>k. k \<noteq> [] \<and> pred k = 0 \<longrightarrow> fst (engine_get sample_env k 4 False e) = Inr (map_option snd (find (\<lambda>x. ekey x = k) es))"
    using range_query_agrees [where t = 4, OF sample_ok order.refl sample_fits mono e_def m] by blast
  have "pred [1] = 0" "pred [7] \<noteq> 0" by (simp_all add: pred_def)
  with es(3,4) have "[7] \<notin> set (map ekey es)"
    "fst (engine_get sample_env [1] 4 False e) = Inr (map_option snd (find (\<lambda>x. ekey x = [1]) es))" by auto
  with es(1,2) show ?thesis unfolding e_def pred_def by blast
qed

end
