(* ===== verification/Level_Iter.thy ===== *)
theory Level_Iter
  imports Engine_Range
begin

text \<open>
  The scan over all tables (class Level_Iterator of src/src/lsm/level_iterator.cpp): one stream
  for the memtable, one for level 0 and one for every deeper level, merged key by key. It keeps
  the lock of the SSTs for its whole life, so nothing changes below it.
\<close>

section \<open>The sources\<close>

datatype level_source = LS_Heap heap_iter | LS_Conc conc_iter

primrec ls_valid :: "level_source \<Rightarrow> bool result" where
  "ls_valid (LS_Heap h) = io_valid heap_ops h" | "ls_valid (LS_Conc c) = io_valid conc_ops c"

primrec ls_end :: "level_source \<Rightarrow> bool result" where
  "ls_end (LS_Heap h) = io_end heap_ops h" | "ls_end (LS_Conc c) = io_end conc_ops c"

primrec ls_deref :: "level_source \<Rightarrow> (bytes \<times> bytes) result" where
  "ls_deref (LS_Heap h) = io_deref heap_ops h" | "ls_deref (LS_Conc c) = io_deref conc_ops c"

primrec ls_tid :: "level_source \<Rightarrow> u64 result" where
  "ls_tid (LS_Heap h) = io_tid heap_ops h" | "ls_tid (LS_Conc c) = io_tid conc_ops c"

primrec ls_next :: "level_source \<Rightarrow> level_source cio" where
  "ls_next (LS_Heap h) = cbind (io_next heap_ops h) (\<lambda>h'. cret (LS_Heap h'))"
| "ls_next (LS_Conc c) = cbind (io_next conc_ops c) (\<lambda>c'. cret (LS_Conc c'))"

primrec ls_fuel :: "level_source \<Rightarrow> nat" where
  "ls_fuel (LS_Heap h) = io_fuel heap_ops h" | "ls_fuel (LS_Conc c) = io_fuel conc_ops c"

definition ls_ops :: "level_source iter_ops" where
  "ls_ops = \<lparr>io_valid = ls_valid, io_end = ls_end, io_deref = ls_deref, io_tid = ls_tid,
     io_next = ls_next, io_fuel = ls_fuel\<rparr>"

section \<open>Level_Iterator\<close>

record level_iter =
  li_iters :: "level_source list"
  li_cur :: nat
  li_max_tranc_id :: u64
  li_cached :: "(bytes \<times> bytes) option"

primrec all_ended :: "level_source list \<Rightarrow> bool result" where
  "all_ended [] = Inr True"
| "all_ended (it # its) = ebind (io_valid ls_ops it) (\<lambda>valid. if valid then Inr False else all_ended its)"

definition level_is_end :: "level_iter \<Rightarrow> bool result" where
  "level_is_end li = all_ended (li_iters li)"

text \<open>The source with the least key and, of these, the one with the greatest version. The empty
  key stands for none so far.\<close>

primrec min_key_from :: "level_source list \<Rightarrow> nat \<Rightarrow> level_source list \<Rightarrow> nat \<times> bytes \<Rightarrow> (nat \<times> bytes) result" where
  "min_key_from all i [] best = Inr best"
| "min_key_from all i (it # its) best =
     ebind (io_valid ls_ops it) (\<lambda>valid.
       if \<not> valid then min_key_from all (Suc i) its best
       else ebind (io_deref ls_ops it) (\<lambda>kv.
         if snd best = [] \<or> fst kv < snd best then min_key_from all (Suc i) its (i, fst kv)
         else if fst kv = snd best then
           ebind (io_tid ls_ops it) (\<lambda>t. ebind (vec_at all (fst best)) (\<lambda>it'. ebind (io_tid ls_ops it') (\<lambda>t'.
             min_key_from all (Suc i) its (if t' < t then (i, snd best) else best))))
         else min_key_from all (Suc i) its best))"

definition get_min_key_idx :: "level_source list \<Rightarrow> (nat \<times> bytes) result" where
  "get_min_key_idx its = min_key_from its 0 its (0, [])"

primrec skip_key :: "bytes \<Rightarrow> level_source list \<Rightarrow> level_source list cio" where
  "skip_key key [] = cret []"
| "skip_key key (it # its) =
     cbind (skip_while (io_fuel ls_ops it) (key_is ls_ops key) ls_ops it) (\<lambda>it'.
     cbind (skip_key key its) (\<lambda>its'. cret (it' # its')))"

definition level_update_current :: "level_iter \<Rightarrow> level_iter result" where
  "level_update_current li =
     (if li_cur li < length (li_iters li) then
        ebind (io_valid ls_ops (li_iters li ! li_cur li)) (\<lambda>valid.
          if \<not> valid then Inl Runtime_Error
          else ebind (io_deref ls_ops (li_iters li ! li_cur li)) (\<lambda>kv. Inr (li\<lparr>li_cached := Some kv\<rparr>)))
      else Inl Undefined)"

text \<open>The loop at the end of the constructor and of \<open>operator++\<close>: deleted keys are passed
  over. Every turn removes a record, so their number is enough fuel.\<close>

primrec level_settle :: "nat \<Rightarrow> level_iter \<Rightarrow> level_iter cio" where
  "level_settle 0 li = cthrow Diverges"
| "level_settle (Suc n) li =
     cbind (clift (level_is_end li)) (\<lambda>at_end.
       if at_end then cret li
       else
         cbind (clift (get_min_key_idx (li_iters li))) (\<lambda>(min_idx, key).
         cbind (clift (level_update_current (li\<lparr>li_cur := min_idx\<rparr>))) (\<lambda>li'.
           case li_cached li' of
             None \<Rightarrow> cthrow Undefined
           | Some kv \<Rightarrow>
               if snd kv = [] then
                 cbind (skip_key (fst kv) (li_iters li')) (\<lambda>its. level_settle n (li'\<lparr>li_iters := its\<rparr>))
               else cret li')))"

definition level_fuel :: "level_source list \<Rightarrow> nat" where
  "level_fuel its = Suc (sum_list (map (io_fuel ls_ops) its))"

definition level_next :: "level_iter \<Rightarrow> level_iter cio" where
  "level_next li = (case li_cached li of
      None \<Rightarrow> cthrow Undefined
    | Some kv \<Rightarrow>
        cbind (skip_key (fst kv) (li_iters li)) (\<lambda>its.
        cbind (skip_key [] its) (\<lambda>its'. level_settle (level_fuel its') (li\<lparr>li_iters := its'\<rparr>))))"

definition level_deref :: "level_iter \<Rightarrow> (bytes \<times> bytes) result" where
  "level_deref li =
     ebind (level_is_end li) (\<lambda>at_end. if at_end then Inl Runtime_Error
       else ebind (vec_at (li_iters li) (li_cur li)) (io_deref ls_ops))"

definition level_get_cur_tranc_id :: "level_iter \<Rightarrow> u64 result" where
  "level_get_cur_tranc_id li =
     ebind (level_is_end li) (\<lambda>at_end. if at_end then Inl Runtime_Error
       else ebind (vec_at (li_iters li) (li_cur li)) (io_tid ls_ops))"

text \<open>\<open>operator->\<close> gives the record that was read when the iterator was placed.\<close>

definition level_arrow :: "level_iter \<Rightarrow> (bytes \<times> bytes) result" where
  "level_arrow li =
     ebind (level_is_end li) (\<lambda>at_end. if at_end then Inl Runtime_Error
       else case li_cached li of None \<Rightarrow> Inl Undefined | Some kv \<Rightarrow> Inr kv)"

definition level_get_tranc_id :: "level_iter \<Rightarrow> u64" where
  "level_get_tranc_id li = li_max_tranc_id li"

text \<open>Equality of two iterators of one engine.\<close>

definition level_eq :: "level_iter \<Rightarrow> level_iter \<Rightarrow> bool result" where
  "level_eq x y =
     ebind (level_is_end x) (\<lambda>ex. ebind (level_is_end y) (\<lambda>ey.
       if ex \<or> ey then Inr (ex \<and> ey)
       else if li_max_tranc_id x \<noteq> li_max_tranc_id y then Inr False
       else ebind (level_deref x) (\<lambda>a. ebind (level_deref y) (\<lambda>b. Inr (a = b)))))"

section \<open>Construction\<close>

primrec begin_level0 :: "(nat \<times> sst) list \<Rightarrow> u64 \<Rightarrow> abort_check \<Rightarrow> nat list \<Rightarrow> sst_iter list cio" where
  "begin_level0 ssts t ab [] = cret []"
| "begin_level0 ssts t ab (i # ids) =
     cbind (clift (ssts_at ssts i)) (\<lambda>s.
     cbind (sst_begin s t False ab) (\<lambda>it.
     cbind (begin_level0 ssts t ab ids) (\<lambda>its. cret (it # its))))"

primrec begin_deep :: "(nat \<times> sst) list \<Rightarrow> u64 \<Rightarrow> abort_check \<Rightarrow> levels \<Rightarrow> level_source list cio" where
  "begin_deep ssts t ab [] = cret []"
| "begin_deep ssts t ab (l # ls) =
     (if fst l = 0 then begin_deep ssts t ab ls
      else
        cbind (clift (ssts_of ssts (snd l))) (\<lambda>ss.
        cbind (conc_new ss t False ab) (\<lambda>c.
        cbind (begin_deep ssts t ab ls) (\<lambda>its. cret (LS_Conc c # its)))))"

definition level_sources ::
  "levels \<Rightarrow> (nat \<times> sst) list \<Rightarrow> memtable \<Rightarrow> u64 \<Rightarrow> abort_check \<Rightarrow> level_source list cio" where
  "level_sources ls ssts m t ab =
     cbind (clift (memtable_begin m t False ab)) (\<lambda>mem_iter.
     cbind (case map_of ls 0 of None \<Rightarrow> cret [] | Some ids \<Rightarrow> begin_level0 ssts t ab ids) (\<lambda>l0_iters.
     cbind (merge_sst_iterator l0_iters t False) (\<lambda>(l0_begin, l0_end).
     cbind (begin_deep ssts t ab ls) (\<lambda>deep.
       cret (LS_Heap mem_iter # LS_Heap l0_begin # deep)))))"

definition level_new :: "levels \<Rightarrow> (nat \<times> sst) list \<Rightarrow> memtable \<Rightarrow> u64 \<Rightarrow> abort_check \<Rightarrow> level_iter cio" where
  "level_new ls ssts m t ab =
     cbind (level_sources ls ssts m t ab) (\<lambda>its.
     cbind (skip_key [] its) (\<lambda>its'.
       level_settle (level_fuel its') \<lparr>li_iters = its', li_cur = 0, li_max_tranc_id = t, li_cached = None\<rparr>))"

definition level_default :: level_iter where
  "level_default = \<lparr>li_iters = [], li_cur = 0, li_max_tranc_id = 0, li_cached = None\<rparr>"

definition engine_begin :: "u64 \<Rightarrow> level_iter eio" where
  "engine_begin t =
     cbind (eget e_tran_manager) (\<lambda>man. case man of
         None \<Rightarrow> cthrow Runtime_Error
       | Some m \<Rightarrow>
           cbind (eget (\<lambda>e. level_new (e_levels e) (e_ssts e) (e_memtable e) t (Some (tm_is_aborted m)))) (\<lambda>make.
             estore make))"

definition engine_end :: level_iter where
  "engine_end = level_default"

text \<open>What a client sees: \<open>for (it = begin(t); it != end(); ++it)\<close>.\<close>

primrec level_loop :: "nat \<Rightarrow> level_iter \<Rightarrow> level_iter \<Rightarrow> entry list cio" where
  "level_loop 0 it range_end = cthrow Diverges"
| "level_loop (Suc n) it range_end =
     cbind (clift (level_eq it range_end)) (\<lambda>at_end.
       if at_end then cret []
       else
         cbind (clift (level_deref it)) (\<lambda>kv.
         cbind (clift (level_get_cur_tranc_id it)) (\<lambda>tid.
         cbind (level_next it) (\<lambda>it'.
         cbind (level_loop n it' range_end) (\<lambda>es. cret ((fst kv, snd kv, tid) # es))))))"

definition engine_scan :: "u64 \<Rightarrow> entry list eio" where
  "engine_scan t =
     cbind (engine_begin t) (\<lambda>it. estore (level_loop (level_fuel (li_iters it)) it engine_end))"

section \<open>The contract of the sources\<close>

primrec source_shows :: "(bytes \<Rightarrow> u64) \<Rightarrow> (cache_key \<Rightarrow> entry list) \<Rightarrow> level_source \<Rightarrow> entry list \<Rightarrow> bool" where
  "source_shows hash C (LS_Heap h) es = heap_drained h es"
| "source_shows hash C (LS_Conc c) es = conc_shows hash C c es"

interpretation source: record_stream "store_holds C" ls_ops "source_shows hash C" for C hash
proof
  fix it e es
  show "source_shows hash C it [] \<Longrightarrow> io_valid ls_ops it = Inr False \<and> io_end ls_ops it = Inr True"
    using heap_one.at_end conc.at_end [of hash C] by (cases it) (simp_all add: ls_ops_def)
  show "source_shows hash C it (e # es) \<Longrightarrow> io_valid ls_ops it = Inr True \<and> io_end ls_ops it = Inr False \<and>
      io_deref ls_ops it = Inr (ekey e, evalue e) \<and> io_tid ls_ops it = Inr (etid e)"
    using heap_one.at_record conc.at_record [of hash C] by (cases it) (simp_all add: ls_ops_def)
  show "spec (store_holds C) (io_next ls_ops it) (\<lambda>it'. source_shows hash C it' es)" if "source_shows hash C it (e # es)"
  proof (cases it)
    case (LS_Heap h)
    with that have "heap_drained h (e # es)" by simp
    from spec_bind [OF heap_one.advance [OF this, where I = "store_holds C"], of "\<lambda>h'. cret (LS_Heap h')"]
    show ?thesis by (simp add: LS_Heap ls_ops_def spec_ret)
  next
    case (LS_Conc c)
    with that have "conc_shows hash C c (e # es)" by simp
    from spec_bind [OF conc.advance [OF this], of "\<lambda>c'. cret (LS_Conc c')"]
    show ?thesis by (simp add: LS_Conc ls_ops_def spec_ret)
  qed
  show "source_shows hash C it es \<Longrightarrow> length es < io_fuel ls_ops it"
    using heap_one.fuel conc.fuel [of hash C] by (cases it) (simp_all add: ls_ops_def)
qed


section \<open>Keys of the sources\<close>

abbreviation ascending :: "entry list \<Rightarrow> bool" where
  "ascending es \<equiv> sorted_wrt (\<lambda>a b. ekey a < ekey b) es"

abbreviation without :: "bytes \<Rightarrow> entry list \<Rightarrow> entry list" where
  "without k es \<equiv> dropWhile (\<lambda>x. ekey x = k) es"

lemma without_set:
  assumes "ascending es" "\<And>x. x \<in> set es \<Longrightarrow> k \<le> ekey x"
  shows "set (without k es) = {x \<in> set es. ekey x \<noteq> k}" "ascending (without k es)"
proof -
  have "without k es = filter (\<lambda>x. ekey x \<noteq> k) es"
  proof (cases es)
    case (Cons x xs)
    have up: "ekey x < ekey y" if "y \<in> set xs" for y using assms(1) Cons that by simp
    have "k \<le> ekey x" using assms(2) Cons by simp
    then have "ekey y \<noteq> k" if "y \<in> set xs" for y using up [OF that] by auto
    then have "filter (\<lambda>x. ekey x \<noteq> k) xs = xs" "without k xs = xs"
      by (simp_all add: dropWhile_eq_self_iff)
    then show ?thesis by (simp add: Cons)
  qed simp
  with assms(1) show "set (without k es) = {x \<in> set es. ekey x \<noteq> k}" "ascending (without k es)"
    by (simp_all add: sorted_wrt_filter)
qed

definition sources_ok ::
  "(bytes \<Rightarrow> u64) \<Rightarrow> (cache_key \<Rightarrow> entry list) \<Rightarrow> level_source list \<Rightarrow> entry list list \<Rightarrow> bool" where
  "sources_ok hash C its ess \<longleftrightarrow> list_all2 (source_shows hash C) its ess \<and> (\<forall>es \<in> set ess. ascending es) \<and>
     inj_on eversion (set (concat ess)) \<and> (\<forall>e \<in> set (concat ess). ekey e \<noteq> [])"

lemma skip_key_spec:
  assumes "list_all2 (source_shows hash C) its ess"
  shows "spec (store_holds C) (skip_key k its) (\<lambda>its'. list_all2 (source_shows hash C) its' (map (without k) ess))"
  using assms
proof (induction its ess rule: list_all2_induct)
  case (Cons it its es ess)
  have key: "key_is ls_ops k it = Inr (ekey r = k)" if "source_shows hash C it (r # rs)" for it r rs
    using source.at_record [OF that] by (simp add: key_is_def)
  show ?case
    unfolding skip_key.simps
    by (rule spec_bind [OF source.skip_while_spec [OF Cons(1) source.fuel [OF Cons(1)] key]], assumption,
        rule spec_bind [OF Cons(3)], rule spec_ret) simp
qed (simp add: spec_ret)

lemma all_ended_shows:
  assumes "list_all2 (source_shows hash C) its ess"
  shows "all_ended its = Inr (concat ess = [])"
  using assms
proof (induction its ess rule: list_all2_induct)
  case (Cons it its es ess)
  show ?case
  proof (cases es)
    case Nil
    with Cons source.at_end [of hash C it] show ?thesis by simp
  next
    case (Cons e es')
    with Cons.hyps(1) source.at_record [of hash C it e es'] show ?thesis by simp
  qed
qed simp

text \<open>The least head; of equal keys the greatest version.\<close>

definition head_key :: "entry list list \<Rightarrow> nat \<Rightarrow> bytes" where
  "head_key ess j = ekey (hd (ess ! j))"

definition head_tid :: "entry list list \<Rightarrow> nat \<Rightarrow> u64" where
  "head_tid ess j = etid (hd (ess ! j))"

definition best_head :: "entry list list \<Rightarrow> nat \<Rightarrow> nat \<times> bytes \<Rightarrow> bool" where
  "best_head ess n best \<longleftrightarrow> (case best of (b, k) \<Rightarrow>
     k = [] \<and> b = 0 \<and> (\<forall>j < n. ess ! j = []) \<or>
     k \<noteq> [] \<and> b < n \<and> ess ! b \<noteq> [] \<and> k = head_key ess b \<and>
     (\<forall>j < n. ess ! j \<noteq> [] \<longrightarrow> k \<le> head_key ess j \<and> (head_key ess j = k \<longrightarrow> head_tid ess j \<le> head_tid ess b)))"

lemma best_head_skip: "best_head ess i best \<Longrightarrow> ess ! i = [] \<Longrightarrow> best_head ess (Suc i) best"
  unfolding best_head_def by (auto simp: less_Suc_eq split: prod.splits)

lemma best_head_new:
  assumes "best_head ess i (b, k)" "ess ! i \<noteq> []" "head_key ess i \<noteq> []"
  shows "k = [] \<or> head_key ess i < k \<Longrightarrow> best_head ess (Suc i) (i, head_key ess i)"
    "k \<noteq> [] \<Longrightarrow> head_key ess i = k \<Longrightarrow> head_tid ess b < head_tid ess i \<Longrightarrow> best_head ess (Suc i) (i, k)"
    "k \<noteq> [] \<Longrightarrow> head_key ess i = k \<Longrightarrow> \<not> head_tid ess b < head_tid ess i \<Longrightarrow> best_head ess (Suc i) (b, k)"
    "k \<noteq> [] \<Longrightarrow> \<not> head_key ess i < k \<Longrightarrow> head_key ess i \<noteq> k \<Longrightarrow> best_head ess (Suc i) (b, k)"
  using assms unfolding best_head_def prod.case
  by (auto simp: less_Suc_eq intro: order.trans order.strict_implies_order dest: order.strict_trans1 leD)

lemma min_key_from_spec:
  assumes "list_all2 (source_shows hash C) all ess" "\<forall>e \<in> set (concat ess). ekey e \<noteq> []"
    "best_head ess i best" "i \<le> length ess"
  shows "\<exists>best'. min_key_from all i (drop i all) best = Inr best' \<and> best_head ess (length ess) best'"
  using assms(3,4)
proof (induction "length ess - i" arbitrary: i best)
  case 0
  then show ?case using list_all2_lengthD [OF assms(1)] by simp
next
  case (Suc n)
  then have i: "i < length ess" "i < length all" "n = length ess - Suc i" using list_all2_lengthD [OF assms(1)] by auto
  have at: "source_shows hash C (all ! j) (ess ! j)" if "j < length ess" for j by (rule list_all2_nthD2 [OF assms(1) that])
  have D: "drop i all = all ! i # drop (Suc i) all" using i(2) by (simp add: Cons_nth_drop_Suc)
  have step: "\<exists>best'. min_key_from all (Suc i) (drop (Suc i) all) b = Inr best' \<and> best_head ess (length ess) best'"
    if "best_head ess (Suc i) b" for b
    using Suc.hyps(1) [OF i(3) that] i(1) by simp
  have head: "io_valid ls_ops (all ! j) = Inr True \<and> (\<exists>v. io_deref ls_ops (all ! j) = Inr (head_key ess j, v)) \<and>
      io_tid ls_ops (all ! j) = Inr (head_tid ess j)" if "j < length ess" "ess ! j \<noteq> []" for j
    using source.at_record [of hash C "all ! j" "hd (ess ! j)" "tl (ess ! j)"] at [OF that(1)] that(2)
    by (simp add: head_key_def head_tid_def)
  show ?case
  proof (cases "ess ! i = []")
    case True
    from step [OF best_head_skip [OF Suc.prems(1) True]] source.at_end [of hash C "all ! i"] at [OF i(1)] True
    show ?thesis by (simp add: D)
  next
    case False
    obtain v where R: "io_valid ls_ops (all ! i) = Inr True" "io_deref ls_ops (all ! i) = Inr (head_key ess i, v)"
      "io_tid ls_ops (all ! i) = Inr (head_tid ess i)"
      using head [OF i(1) False] by blast
    have "hd (ess ! i) \<in> set (concat ess)" using hd_in_set [OF False] nth_mem [OF i(1)] by (force simp del: hd_in_set)
    then have ne: "head_key ess i \<noteq> []" unfolding head_key_def using assms(2) by blast
    obtain b k where best: "best = (b, k)" by (cases best)
    note N = best_head_new [OF Suc.prems(1) [unfolded best] False ne]
    show ?thesis
    proof (cases "k = [] \<or> head_key ess i < k")
      case True
      from step [OF N(1) [OF this]] R True show ?thesis by (auto simp: D best)
    next
      case other: False
      show ?thesis
      proof (cases "head_key ess i = k")
        case True
        have "b < length ess" "ess ! b \<noteq> []"
          using Suc.prems(1) other i(1) unfolding best best_head_def by auto
        from head [OF this] this(1) have "io_tid ls_ops (all ! b) = Inr (head_tid ess b)" "b < length all"
          using list_all2_lengthD [OF assms(1)] by simp_all
        with R other True step [OF N(2)] step [OF N(3)] show ?thesis by (auto simp: D best)
      next
        case False
        with step [OF N(4)] R other show ?thesis by (auto simp: D best)
      qed
    qed
  qed
qed

section \<open>One position\<close>

definition live :: "entry set \<Rightarrow> entry set" where
  "live U = {e \<in> U. evalue e \<noteq> [] \<and> (\<forall>x \<in> U. ekey x = ekey e \<longrightarrow> etid x \<le> etid e)}"

definition on_top :: "entry list list \<Rightarrow> nat \<Rightarrow> entry \<Rightarrow> bool" where
  "on_top ess i e \<longleftrightarrow> i < length ess \<and> ess ! i \<noteq> [] \<and> e = hd (ess ! i) \<and>
     (\<forall>x \<in> set (concat ess). ekey e \<le> ekey x \<and> (ekey x = ekey e \<longrightarrow> etid x \<le> etid e))"

lemma on_topI:
  assumes "sources_ok hash C its ess" "concat ess \<noteq> []"
  shows "\<exists>i e. get_min_key_idx its = Inr (i, ekey e) \<and> on_top ess i e"
proof -
  have S: "list_all2 (source_shows hash C) its ess" "\<forall>e \<in> set (concat ess). ekey e \<noteq> []" "\<forall>es \<in> set ess. ascending es"
    using assms(1) unfolding sources_ok_def by blast+
  have "best_head ess 0 (0, [])" by (simp add: best_head_def)
  from min_key_from_spec [OF S(1,2) this] obtain b k where
    min: "get_min_key_idx its = Inr (b, k)" "best_head ess (length ess) (b, k)"
    by (auto simp: get_min_key_idx_def)
  have "\<not> (\<forall>j < length ess. ess ! j = [])" using assms(2) by (auto simp: in_set_conv_nth)
  then have B: "b < length ess" "ess ! b \<noteq> []" "k = head_key ess b"
    "\<And>j. j < length ess \<Longrightarrow> ess ! j \<noteq> [] \<Longrightarrow> k \<le> head_key ess j \<and> (head_key ess j = k \<longrightarrow> head_tid ess j \<le> head_tid ess b)"
    using min(2) unfolding best_head_def by auto
  let ?e = "hd (ess ! b)"
  have k: "k = ekey ?e" "head_tid ess b = etid ?e" using B(3) by (simp_all add: head_key_def head_tid_def)
  have "ekey ?e \<le> ekey x \<and> (ekey x = ekey ?e \<longrightarrow> etid x \<le> etid ?e)" if "x \<in> set (concat ess)" for x
  proof -
    obtain es where "es \<in> set ess" "x \<in> set es" using \<open>x \<in> set (concat ess)\<close> by auto
    then obtain j where j: "j < length ess" "x \<in> set (ess ! j)" unfolding in_set_conv_nth [of es] by blast
    then have ne: "ess ! j \<noteq> []" by auto
    have "x = hd (ess ! j) \<or> head_key ess j < ekey x"
      using S(3) nth_mem [OF j(1)] j(2) ne unfolding head_key_def by (cases "ess ! j") fastforce+
    then show ?thesis
    proof
      assume "x = hd (ess ! j)"
      with B(4) [OF j(1) ne] k show ?thesis by (simp add: head_key_def head_tid_def)
    next
      assume "head_key ess j < ekey x"
      with B(4) [OF j(1) ne] k(1) show ?thesis by auto
    qed
  qed
  with B(1,2) min(1) k(1) show ?thesis unfolding on_top_def by blast
qed

lemma length_without: "length (concat (map (without k) xss)) \<le> length (concat xss)"
  by (induction xss) (simp_all add: add_mono length_dropWhile_le)

lemma length_without_less:
  assumes "length (without k es) < length es"
  shows "es \<in> set xss \<Longrightarrow> length (concat (map (without k) xss)) < length (concat xss)"
proof (induction xss)
  case (Cons xs xss)
  show ?case
  proof (cases "es = xs")
    case True
    with assms add_less_le_mono [OF assms length_without [of k xss]] show ?thesis by simp
  next
    case False
    then have "length (concat (map (without k) xss)) < length (concat xss)" using Cons by simp
    from add_le_less_mono [OF length_dropWhile_le this] show ?thesis by simp
  qed
qed simp

lemma top_without:
  assumes "sources_ok hash C its ess" "on_top ess i e"
  shows "set (concat (map (without (ekey e)) ess)) = {x \<in> set (concat ess). ekey x \<noteq> ekey e}"
    "length (concat (map (without (ekey e)) ess)) < length (concat ess)"
    "\<forall>es \<in> set (map (without (ekey e)) ess). ascending es"
proof -
  define k where "k = ekey e"
  have asc: "\<forall>es \<in> set ess. ascending es" using assms(1) unfolding sources_ok_def by blast
  have le: "k \<le> ekey x" if "es \<in> set ess" "x \<in> set es" for es x
  proof -
    have "x \<in> set (concat ess)" using that by auto
    with assms(2) show ?thesis unfolding on_top_def k_def by blast
  qed
  have W: "set (without k es) = {x \<in> set es. ekey x \<noteq> k}" "ascending (without k es)" if "es \<in> set ess" for es
    using without_set [OF bspec [OF asc that] le [OF that]] by blast+
  have "set (concat (map (without k) ess)) = (\<Union>es \<in> set ess. {x \<in> set es. ekey x \<noteq> k})" using W(1) by simp
  also have "\<dots> = {x \<in> set (concat ess). ekey x \<noteq> k}" by auto
  finally show "set (concat (map (without (ekey e)) ess)) = {x \<in> set (concat ess). ekey x \<noteq> ekey e}" unfolding k_def .
  show "\<forall>es \<in> set (map (without (ekey e)) ess). ascending es" using W(2) unfolding k_def by simp
  have "ess ! i \<noteq> []" "i < length ess" "k = ekey (hd (ess ! i))" using assms(2) unfolding on_top_def k_def by blast+
  then have "length (without k (ess ! i)) < length (ess ! i)"
    by (cases "ess ! i") (simp_all add: le_imp_less_Suc length_dropWhile_le)
  from length_without_less [OF this nth_mem [OF \<open>i < length ess\<close>]]
  show "length (concat (map (without (ekey e)) ess)) < length (concat ess)" unfolding k_def .
qed

lemma sources_without:
  assumes "sources_ok hash C its ess" "on_top ess i e" "list_all2 (source_shows hash C) its' (map (without (ekey e)) ess)"
  shows "sources_ok hash C its' (map (without (ekey e)) ess)"
proof -
  note W = top_without [OF assms(1,2)]
  have "inj_on eversion (set (concat ess))" "\<forall>x \<in> set (concat ess). ekey x \<noteq> []"
    using assms(1) unfolding sources_ok_def by blast+
  moreover have "{x \<in> set (concat ess). ekey x \<noteq> ekey e} \<subseteq> set (concat ess)" by (rule Collect_restrict)
  ultimately have "inj_on eversion {x \<in> set (concat ess). ekey x \<noteq> ekey e}"
    "\<forall>x \<in> {x \<in> set (concat ess). ekey x \<noteq> ekey e}. ekey x \<noteq> []" by (blast intro: inj_on_subset)+
  then show ?thesis
    unfolding sources_ok_def W(1) using assms(3) W(3) by (intro conjI)
qed

lemma live_own:
  assumes "inj_on eversion U" "e \<in> U" "\<And>x. x \<in> U \<Longrightarrow> ekey x = ekey e \<Longrightarrow> etid x \<le> etid e"
    and x: "x \<in> live U" "ekey x = ekey e"
  shows "x = e"
proof -
  have xU: "x \<in> U" and top: "\<forall>y \<in> U. ekey y = ekey x \<longrightarrow> etid y \<le> etid x" using x(1) unfolding live_def by blast+
  have "etid e \<le> etid x" using bspec [OF top assms(2)] x(2) [symmetric] by (rule mp)
  then have "etid x = etid e" by (rule order.antisym [OF assms(3) [OF xU x(2)]])
  with x(2) have "eversion x = eversion e" by (rule arg_cong2 [where f = Pair])
  then show ?thesis by (rule inj_onD [OF assms(1) _ xU assms(2)])
qed

lemma live_member:
  assumes "e \<in> U" "\<And>x. x \<in> U \<Longrightarrow> ekey x = ekey e \<Longrightarrow> etid x \<le> etid e" "evalue e \<noteq> []"
  shows "e \<in> live U"
  unfolding live_def by (intro CollectI conjI ballI impI assms)

lemma live_value: "x \<in> live U \<Longrightarrow> evalue x \<noteq> []"
  unfolding live_def by blast

lemma live_other:
  assumes "ekey x \<noteq> k"
  shows "x \<in> live U \<longleftrightarrow> x \<in> live {x \<in> U. ekey x \<noteq> k}"
proof
  assume x: "x \<in> live U"
  show "x \<in> live {x \<in> U. ekey x \<noteq> k}"
  proof (rule live_member)
    show "x \<in> {x \<in> U. ekey x \<noteq> k}" using x assms unfolding live_def mem_Collect_eq by blast
    show "evalue x \<noteq> []" by (rule live_value [OF x])
    have top: "\<forall>y \<in> U. ekey y = ekey x \<longrightarrow> etid y \<le> etid x" using x unfolding live_def mem_Collect_eq by blast
    show "etid y \<le> etid x" if "y \<in> {x \<in> U. ekey x \<noteq> k}" "ekey y = ekey x" for y
      by (rule mp [OF bspec [OF top] that(2)]) (rule CollectD [OF that(1), THEN conjunct1])
  qed
next
  assume x: "x \<in> live {x \<in> U. ekey x \<noteq> k}"
  have top: "etid y \<le> etid x" if y: "y \<in> U" "ekey y = ekey x" for y
  proof -
    have "ekey y \<noteq> k" unfolding y(2) by (rule assms)
    with y(1) have "y \<in> {x \<in> U. ekey x \<noteq> k}" by (intro CollectI conjI)
    with x have "ekey y = ekey x \<longrightarrow> etid y \<le> etid x" unfolding live_def mem_Collect_eq by blast
    with y(2) show ?thesis by (rule mp [rotated])
  qed
  have "x \<in> U" using x unfolding live_def by simp
  from live_member [OF this top live_value [OF x]] show "x \<in> live U" .
qed

lemma live_removed: "x \<in> live {x \<in> U. ekey x \<noteq> k} \<Longrightarrow> ekey x \<noteq> k"
  unfolding live_def by blast

lemma live_without:
  assumes "inj_on eversion U" "e \<in> U" "\<And>x. x \<in> U \<Longrightarrow> ekey x = ekey e \<Longrightarrow> etid x \<le> etid e"
  shows "live U = (if evalue e = [] then {} else {e}) \<union> live {x \<in> U. ekey x \<noteq> ekey e}"
proof -
  define k where "k = ekey e"
  define rest where "rest = live {x \<in> U. ekey x \<noteq> k}"
  have a: "x = e \<and> evalue e \<noteq> []" if "x \<in> live U" "x \<notin> rest" for x
  proof -
    have "ekey x = k" using that live_other [of x k U] unfolding rest_def by blast
    then have "x = e" using live_own [OF assms that(1)] unfolding k_def by blast
    with live_value [OF that(1)] show ?thesis by blast
  qed
  have b: "x \<in> live U" if "x \<in> rest" for x
    using that live_removed [of x U k] live_other [of x k U] unfolding rest_def by blast
  have c: "e \<in> live U" if "evalue e \<noteq> []" by (rule live_member [OF assms(2,3) that])
  have "live U = (if evalue e = [] then {} else {e}) \<union> rest"
    using a b c by (cases "evalue e = []") auto
  then show ?thesis unfolding rest_def k_def .
qed


section \<open>The iterator\<close>

text \<open>Where the iterator stands after the constructor and after each step.\<close>

definition level_at ::
  "(bytes \<Rightarrow> u64) \<Rightarrow> (cache_key \<Rightarrow> entry list) \<Rightarrow> level_iter \<Rightarrow> entry list list \<Rightarrow> bool" where
  "level_at hash C li ess \<longleftrightarrow> sources_ok hash C (li_iters li) ess \<and>
     (concat ess \<noteq> [] \<longrightarrow> (\<exists>e. on_top ess (li_cur li) e \<and> evalue e \<noteq> [] \<and> li_cached li = Some (ekey e, evalue e)))"

lemma level_end_shows: "sources_ok hash C (li_iters li) ess \<Longrightarrow> level_is_end li = Inr (concat ess = [])"
  unfolding sources_ok_def level_is_end_def by (rule all_ended_shows) blast

lemma top_source:
  assumes "sources_ok hash C its ess" "on_top ess i e"
  shows "i < length its" "io_valid ls_ops (its ! i) = Inr True" "io_deref ls_ops (its ! i) = Inr (ekey e, evalue e)"
    "io_tid ls_ops (its ! i) = Inr (etid e)"
proof -
  have i: "i < length ess" "ess ! i = e # tl (ess ! i)" using assms(2) by (simp_all add: on_top_def)
  have L: "list_all2 (source_shows hash C) its ess" using assms(1) by (simp add: sources_ok_def)
  show "i < length its" using i(1) list_all2_lengthD [OF L] by simp
  have "source_shows hash C (its ! i) (e # tl (ess ! i))" using list_all2_nthD2 [OF L i(1)] i(2) by simp
  from source.at_record [OF this] show "io_valid ls_ops (its ! i) = Inr True"
    "io_deref ls_ops (its ! i) = Inr (ekey e, evalue e)" "io_tid ls_ops (its ! i) = Inr (etid e)" by simp_all
qed

lemma on_top_member:
  assumes "on_top ess i e"
  shows "e \<in> set (concat ess)"
proof -
  have e: "i < length ess" "ess ! i \<noteq> []" "e = hd (ess ! i)" using assms unfolding on_top_def by blast+
  show ?thesis unfolding e(3) set_concat by (rule UN_I [where a = "ess ! i"]) (use e in simp_all)
qed

lemma on_top_live:
  assumes "sources_ok hash C its ess" "on_top ess i e"
  shows "live (set (concat ess)) = (if evalue e = [] then {} else {e}) \<union> live {x \<in> set (concat ess). ekey x \<noteq> ekey e}"
proof (rule live_without [OF _ on_top_member [OF assms(2)]])
  show "inj_on eversion (set (concat ess))" using assms(1) by (simp add: sources_ok_def)
  show "etid x \<le> etid e" if "x \<in> set (concat ess)" "ekey x = ekey e" for x
    using assms(2) that unfolding on_top_def by blast
qed

definition level_settled ::
  "(bytes \<Rightarrow> u64) \<Rightarrow> (cache_key \<Rightarrow> entry list) \<Rightarrow> entry list list \<Rightarrow> level_iter \<Rightarrow> bool" where
  "level_settled hash C ess li \<longleftrightarrow> (\<exists>ess'. level_at hash C li ess' \<and> live (set (concat ess')) = live (set (concat ess)) \<and>
     set (concat ess') \<subseteq> set (concat ess) \<and> length (concat ess') \<le> length (concat ess))"

lemma level_settled_here: "level_at hash C li ess \<Longrightarrow> level_settled hash C ess li"
  unfolding level_settled_def by (intro exI [of _ ess]) simp

lemma level_settled_later:
  assumes "level_settled hash C ess' li" "live (set (concat ess')) = live (set (concat ess))"
    "set (concat ess') \<subseteq> set (concat ess)" "length (concat ess') \<le> length (concat ess)"
  shows "level_settled hash C ess li"
proof -
  obtain ys where "level_at hash C li ys" "live (set (concat ys)) = live (set (concat ess'))"
     "set (concat ys) \<subseteq> set (concat ess')" "length (concat ys) \<le> length (concat ess')"
    using assms(1) unfolding level_settled_def by blast
  with assms(2-4) show ?thesis
    unfolding level_settled_def by (intro exI [of _ ys] conjI) (assumption | erule order.trans | simp only:)+
qed

lemma level_settle_spec:
  assumes "sources_ok hash C (li_iters li) ess" "length (concat ess) < n"
  shows "spec (store_holds C) (level_settle n li) (level_settled hash C ess)"
  using assms
proof (induction n arbitrary: li ess)
  case (Suc n)
  note at_end = level_end_shows [OF Suc.prems(1)]
  show ?case
  proof (cases "concat ess = []")
    case True
    with Suc.prems(1) have "level_at hash C li ess" by (simp add: level_at_def)
    with at_end True show ?thesis by (simp add: spec_ret level_settled_here)
  next
    case False
    with at_end have going: "level_is_end li = Inr False" by (simp only:)
    obtain i e where top: "get_min_key_idx (li_iters li) = Inr (i, ekey e)" "on_top ess i e"
      using on_topI [OF Suc.prems(1) False] by blast
    note S = top_source [OF Suc.prems(1) top(2)]
    let ?li = "li\<lparr>li_cur := i, li_cached := Some (ekey e, evalue e)\<rparr>"
    have upd: "level_update_current (li\<lparr>li_cur := i\<rparr>) = Inr ?li" using S by (simp add: level_update_current_def)
    show ?thesis
    proof (cases "evalue e = []")
      case dead: True
      let ?ess = "map (without (ekey e)) ess"
      have L: "list_all2 (source_shows hash C) (li_iters li) ess" using Suc.prems(1) by (simp add: sources_ok_def)
      have "spec (store_holds C) (cbind (skip_key (ekey e) (li_iters li)) (\<lambda>its. level_settle n (?li\<lparr>li_iters := its\<rparr>)))
        (level_settled hash C ess)"
      proof (rule spec_bind [OF skip_key_spec [OF L]])
        fix its'
        assume "list_all2 (source_shows hash C) its' ?ess"
        note W = sources_without [OF Suc.prems(1) top(2) this] top_without [OF Suc.prems(1) top(2)]
        have live: "live (set (concat ?ess)) = live (set (concat ess))"
          using on_top_live [OF Suc.prems(1) top(2)] dead unfolding W(2) by simp
        have sub: "set (concat ?ess) \<subseteq> set (concat ess)" unfolding W(2) by (rule Collect_restrict)
        have "length (concat ?ess) < n" using W(3) Suc.prems(2) by simp
        from Suc.IH [of "?li\<lparr>li_iters := its'\<rparr>" ?ess, OF _ this] W(1)
        have "spec (store_holds C) (level_settle n (?li\<lparr>li_iters := its'\<rparr>)) (level_settled hash C ?ess)" by simp
        then show "spec (store_holds C) (level_settle n (?li\<lparr>li_iters := its'\<rparr>)) (level_settled hash C ess)"
          by (rule spec_weaken) (rule level_settled_later [OF _ live sub order.strict_implies_order [OF W(3)]])
      qed
      with going top(1) upd dead show ?thesis by simp
    next
      case False
      with top(2) have "on_top ess (li_cur ?li) e \<and> evalue e \<noteq> [] \<and> li_cached ?li = Some (ekey e, evalue e)" by simp
      moreover have "sources_ok hash C (li_iters ?li) ess" using Suc.prems(1) by simp
      ultimately have "level_at hash C ?li ess" unfolding level_at_def by blast
      with going top(1) upd False show ?thesis
        by (simp add: spec_ret level_settled_here)
    qed
  qed
qed simp


lemma level_fuel_enough:
  "list_all2 (source_shows hash C) its ess \<Longrightarrow> length (concat ess) < level_fuel its"
proof (induction its ess rule: list_all2_induct)
  case (Cons it its es ess)
  with source.fuel [of hash C it es] show ?case by (simp add: level_fuel_def)
qed (simp add: level_fuel_def)

lemma without_Nil: "\<forall>x \<in> set es. ekey x \<noteq> k \<Longrightarrow> without k es = es"
  by (cases es) simp_all

lemma level_next_spec:
  assumes "level_at hash C li ess" "on_top ess (li_cur li) e" "li_cached li = Some (ekey e, evalue e)"
  shows "spec (store_holds C) (level_next li) (level_settled hash C (map (without (ekey e)) ess))"
proof -
  let ?ess = "map (without (ekey e)) ess"
  have ok: "sources_ok hash C (li_iters li) ess" using assms(1) by (simp add: level_at_def)
  then have L: "list_all2 (source_shows hash C) (li_iters li) ess" by (simp add: sources_ok_def)
  show ?thesis
    unfolding level_next_def assms(3) option.case fst_conv
  proof (rule spec_bind [OF skip_key_spec [OF L]])
    fix its
    assume its: "list_all2 (source_shows hash C) its ?ess"
    have ok': "sources_ok hash C its ?ess" by (rule sources_without [OF ok assms(2) its])
    have "\<forall>es \<in> set ?ess. \<forall>x \<in> set es. ekey x \<noteq> []"
      using ok' unfolding sources_ok_def set_concat by blast
    then have same: "map (without []) ?ess = ?ess" by (intro map_idI without_Nil) blast
    show "spec (store_holds C) (cbind (skip_key [] its) (\<lambda>its'. level_settle (level_fuel its') (li\<lparr>li_iters := its'\<rparr>)))
        (level_settled hash C ?ess)"
    proof (rule spec_bind [OF skip_key_spec [OF its]])
      fix its'
      assume its': "list_all2 (source_shows hash C) its' (map (without []) ?ess)"
      then have here: "list_all2 (source_shows hash C) its' ?ess" unfolding same .
      have "sources_ok hash C its' ?ess" using ok' here unfolding sources_ok_def by blast
      moreover have "length (concat ?ess) < level_fuel its'" by (rule level_fuel_enough [OF here])
      ultimately show "spec (store_holds C) (level_settle (level_fuel its') (li\<lparr>li_iters := its'\<rparr>)) (level_settled hash C ?ess)"
        using level_settle_spec [of hash C "li\<lparr>li_iters := its'\<rparr>" ?ess] by simp
    qed
  qed
qed

lemma level_observe:
  assumes "sources_ok hash C (li_iters li) ess" "on_top ess (li_cur li) e"
  shows "level_is_end li = Inr False" "level_deref li = Inr (ekey e, evalue e)" "level_get_cur_tranc_id li = Inr (etid e)"
proof -
  have "concat ess \<noteq> []" using on_top_member [OF assms(2)] by (metis empty_iff empty_set)
  with level_end_shows [OF assms(1)] show going: "level_is_end li = Inr False" by (simp only:)
  note S = top_source [OF assms]
  show "level_deref li = Inr (ekey e, evalue e)" "level_get_cur_tranc_id li = Inr (etid e)"
    using going S by (simp_all add: level_deref_def level_get_cur_tranc_id_def)
qed

lemma level_arrow_deref:
  assumes "level_at hash C li ess"
  shows "level_arrow li = level_deref li"
proof -
  have ok: "sources_ok hash C (li_iters li) ess" using assms by (simp add: level_at_def)
  show ?thesis
  proof (cases "concat ess = []")
    case True
    then have "level_is_end li = Inr True" using level_end_shows [OF ok] by simp
    then show ?thesis by (simp add: level_arrow_def level_deref_def)
  next
    case False
    then obtain e where e: "on_top ess (li_cur li) e" "li_cached li = Some (ekey e, evalue e)"
      using assms unfolding level_at_def by blast
    with level_observe [OF ok e(1)] show ?thesis by (simp add: level_arrow_def)
  qed
qed

lemma level_eq_end:
  assumes "level_is_end li = Inr b"
  shows "level_eq li engine_end = Inr b"
proof -
  have "level_is_end engine_end = Inr True" by (simp add: engine_end_def level_default_def level_is_end_def)
  with assms show ?thesis by (simp add: level_eq_def)
qed

text \<open>The whole scan.\<close>

lemma level_loop_spec:
  assumes "level_at hash C li ess" "length (concat ess) < n"
  shows "spec (store_holds C) (level_loop n li engine_end) (\<lambda>es. ascending es \<and> set es = live (set (concat ess)))"
  using assms
proof (induction n arbitrary: li ess)
  case (Suc n)
  have ok: "sources_ok hash C (li_iters li) ess" using Suc.prems(1) by (simp add: level_at_def)
  show ?case
  proof (cases "concat ess = []")
    case True
    then have "level_is_end li = Inr True" using level_end_shows [OF ok] by simp
    then have eq: "level_eq li engine_end = Inr True" by (rule level_eq_end)
    have none: "live (set (concat ess)) = {}" unfolding True by (simp add: live_def)
    show ?thesis unfolding none level_loop.simps eq by (simp add: spec_ret)
  next
    case False
    then obtain e where e: "on_top ess (li_cur li) e" "evalue e \<noteq> []" "li_cached li = Some (ekey e, evalue e)"
      using Suc.prems(1) unfolding level_at_def by blast
    note O = level_observe [OF ok e(1)]
    let ?ess = "map (without (ekey e)) ess"
    note U = top_without [OF ok e(1)]
    have live: "live (set (concat ess)) = insert e (live (set (concat ?ess)))"
      using on_top_live [OF ok e(1)] e(2) unfolding U(1) by simp
    have later: "ekey e < ekey x" if "x \<in> live (set (concat ?ess))" for x
    proof -
      have x: "x \<in> set (concat ess)" "ekey x \<noteq> ekey e" using that unfolding U(1) live_def by blast+
      with e(1) have "ekey e \<le> ekey x" unfolding on_top_def by blast
      with x(2) show ?thesis by simp
    qed
    have "spec (store_holds C) (cbind (level_next li) (\<lambda>it'. cbind (level_loop n it' engine_end) (\<lambda>es. cret (e # es))))
      (\<lambda>es. ascending es \<and> set es = live (set (concat ess)))"
    proof (rule spec_bind [OF level_next_spec [OF Suc.prems(1) e(1,3)]])
      fix li'
      assume "level_settled hash C ?ess li'"
      then obtain ess' where s: "level_at hash C li' ess'" "live (set (concat ess')) = live (set (concat ?ess))"
        "length (concat ess') \<le> length (concat ?ess)" unfolding level_settled_def by blast
      have "length (concat ess') < n" using s(3) U(2) Suc.prems(2) by simp
      from Suc.IH [OF s(1) this]
      show "spec (store_holds C) (cbind (level_loop n li' engine_end) (\<lambda>es. cret (e # es)))
        (\<lambda>es. ascending es \<and> set es = live (set (concat ess)))"
        by (rule spec_bind) (rule spec_ret, use live later s(2) in simp)
    qed
    with O level_eq_end [OF O(1)] show ?thesis by simp
  qed
qed simp

end
