(* ===== verification/Level_Scan.thy ===== *)
theory Level_Scan
  imports Level_Iter Lsm
begin

text \<open>
  The scan of the engine from \<open>begin\<close> to \<open>end\<close>: the streams that the
  constructor of Level_Iterator opens bring in the newest readable record of every key, so the
  scan agrees with the point reads.
\<close>

section \<open>The streams of the constructor\<close>

text \<open>The records that a source has to bring in: all but commit marks, and the newest readable
  record of every key.\<close>

definition brings :: "u64 \<Rightarrow> abort_check \<Rightarrow> entry set \<Rightarrow> entry list \<Rightarrow> bool" where
  "brings t ab E es \<longleftrightarrow> covers (\<lambda>k. k \<noteq> []) t ab E (map (placed 0 0) (filter (\<lambda>e. ekey e \<noteq> []) es))"

lemma brings_union: "brings t ab A xs \<Longrightarrow> brings t ab B ys \<Longrightarrow> brings t ab (A \<union> B) (xs @ ys)"
  unfolding brings_def filter_append map_append by (rule covers_union)

lemma brings_Nil: "brings t ab {} []"
  by (simp add: brings_def covers_Nil)

lemma brings_view: "sorted_entries es \<Longrightarrow> brings t ab (set es) (reader_view False t ab es)"
  unfolding brings_def by (rule covers_hits) (simp_all add: comp_def)

lemma brings_memory:
  assumes "mem_ok m" "inj_on eversion (set (mem_records m))"
    "drain_ordered h" "\<And>k. drain_lookup h k = mem_lookup m k t ab"
  shows "brings t ab (set (mem_records m)) (map item_entry (heap_drain h))"
  unfolding brings_def by (rule memory_covers [OF assms(1,2) _ assms(3,4)]) (simp_all add: comp_def)

definition level0_items :: "u64 \<Rightarrow> abort_check \<Rightarrow> (sst \<times> entry list list) list \<Rightarrow> search_item list" where
  "level0_items t ab ps = concat (map (\<lambda>(s, ess). map (sst_item s) (reader_view False t ab (concat ess))) ps)"

lemma level0_covers:
  assumes "\<forall>p \<in> set ps. sst_plain hash C (fst p) (snd p)"
  shows "covers (\<lambda>_. True) t ab (\<Union>p \<in> set ps. set (concat (snd p))) (level0_items t ab ps)"
  using assms
proof (induction ps)
  case Nil
  then show ?case by (simp add: level0_items_def covers_Nil)
next
  case (Cons p ps)
  obtain s ess where p: "p = (s, ess)" by (cases p)
  have S: "sst_plain hash C s ess" using Cons.prems p by simp
  have "map item_entry (map (sst_item s) (reader_view False t ab (concat ess))) = reader_view False t ab (concat ess)"
    using sst_plain_facts(10) [OF S] by (auto intro!: map_idI simp: sst_item_def item_entry_def)
  then have "covers (\<lambda>_. True) t ab (set (concat ess)) (map (sst_item s) (reader_view False t ab (concat ess)))"
    by (intro covers_hits [OF sst_plain_facts(5) [OF S]]) simp
  from covers_union [OF this Cons.IH] Cons.prems show ?case by (simp add: p level0_items_def)
qed

definition level0_heap :: "search_item list \<Rightarrow> heap_iter" where
  "level0_heap vec = (heap_empty False False)\<lparr>items := heap_of vec\<rparr>"

lemma brings_level0:
  assumes "covers (\<lambda>_. True) t ab E vec" "inj_on eversion E"
  shows "brings t ab E (map item_entry (heap_drain (level0_heap vec)))"
    "ascending (map item_entry (heap_drain (level0_heap vec)))"
proof -
  let ?h = "level0_heap vec"
  have "heap_ready ?h"
    using item_le_keys [OF heap_of_sorted, of vec]
    by (simp add: heap_ready_def level0_heap_def heap_empty_def item_visible_def)
  note D = heap_drain_ready [OF this]
  show asc: "ascending (map item_entry (heap_drain ?h))"
    using D by (simp add: sorted_wrt_map item_entry_def)
  have "newest E k t ab (map_option snd (find (\<lambda>e. ekey e = k) (map item_entry (heap_drain ?h))))" for k
  proof -
    have "find (\<lambda>i. si_key i = k) (heap_drain ?h) = winner 0 (heap_of vec) k"
      using D [of k] by (simp add: level0_heap_def heap_empty_def shown_def split: option.splits)
    moreover have "newest E k t ab (map_option (\<lambda>i. (si_value i, si_tid i)) (winner 0 (heap_of vec) k))"
      by (rule covers_winner [OF assms]) (simp_all add: item_visible_def)
    ultimately show ?thesis
      unfolding find_map_entry by (simp add: option.map_comp comp_def item_entry_def)
  qed
  from covers_lookup [OF asc this assms(2)] show "brings t ab E (map item_entry (heap_drain ?h))"
    unfolding brings_def by (simp add: comp_def)
qed

lemma begin_level0_spec:
  assumes "tables_shown hash C ssts P ids"
  shows "spec (store_holds C) (begin_level0 ssts t ab ids)
    (\<lambda>its. list_all2 (\<lambda>it (s, ess). sst_shows hash C s ess \<and> resolvable s \<and>
      sit_shows s ess t False ab it (reader_view False t ab (concat ess))) its (table_pairs ssts P ids))"
  using assms
proof (induction ids)
  case (Cons i ids)
  obtain s where s: "ssts_at ssts i = Inr s" "ssts_index ssts i = Inr s" "sst_plain hash C s (P i)"
    by (rule tables_shownE [OF Cons.prems, of i]) auto
  have "the (map_of ssts i) = s" using s(1) by (auto simp: ssts_at_def split: option.splits)
  then have T: "table_pairs ssts P (i # ids) = (s, P i) # table_pairs ssts P ids" by (simp add: table_pairs_def)
  have rest: "tables_shown hash C ssts P ids" using Cons.prems by (simp add: tables_shown_def)
  note S = sst_plain_facts(1,9) [OF s(3)]
  show ?case
    unfolding T begin_level0.simps s(1) cbind_simps sst_begin_def
    by (rule spec_bind [OF sit_new_spec [OF S(1)]], rule spec_bind [OF Cons.IH [OF rest]], rule spec_ret) (use S in simp)
qed (simp add: spec_ret table_pairs_def)

lemma table_pairs_entries: "(\<Union>p \<in> set (table_pairs ssts P ids). set (concat (snd p))) = level_entries P ids"
  by (auto simp: table_pairs_def level_entries_def)

definition source_of :: "(bytes \<Rightarrow> u64) \<Rightarrow> (cache_key \<Rightarrow> entry list) \<Rightarrow> u64 \<Rightarrow> abort_check \<Rightarrow> entry set \<Rightarrow> level_source \<Rightarrow> bool" where
  "source_of hash C t ab E it \<longleftrightarrow> (\<exists>es. source_shows hash C it es \<and> ascending es \<and> brings t ab E es)"

lemma empty_drained: "heap_drained (heap_empty True False) []"
  unfolding heap_drained_def by (subst heap_drain.simps) (simp add: heap_is_end_def heap_empty_def)

lemma level0_spec:
  assumes "tables_shown hash C ssts P ids" "inj_on eversion (level_entries P ids)"
    "list_all2 (\<lambda>it (s, ess). sst_shows hash C s ess \<and> resolvable s \<and>
      sit_shows s ess t False ab it (reader_view False t ab (concat ess))) its (table_pairs ssts P ids)"
  shows "spec (store_holds C) (merge_sst_iterator its t False)
    (\<lambda>r. source_of hash C t ab (level_entries P ids) (LS_Heap (fst r)))"
proof (cases "its = []")
  case True
  then have "ids = []" using assms(3) by (simp add: table_pairs_def)
  then have "level_entries P ids = {}" by (simp add: level_entries_def)
  with True empty_drained brings_Nil [of t ab] show ?thesis
    unfolding merge_sst_iterator_def source_of_def
    by (auto intro!: spec_ret exI [of _ "[]"])
next
  case False
  let ?vec = "level0_items t ab (table_pairs ssts P ids)"
  have "covers (\<lambda>_. True) t ab (level_entries P ids) ?vec"
    using level0_covers [OF table_pairs_shown(2) [OF assms(1)]] unfolding table_pairs_entries .
  note B = brings_level0 [OF this assms(2)]
  have "source_of hash C t ab (level_entries P ids) (LS_Heap (level0_heap ?vec))"
    unfolding source_of_def using B by (auto simp: heap_drained_def)
  then show ?thesis
    unfolding merge_sst_iterator_def if_not_P [OF False]
    by (intro spec_bind [OF drain_all_spec [OF assms(3)]] spec_ret)
      (simp add: level0_heap_def level0_items_def heap_of_def)
qed

lemma deep_source:
  assumes "tables_shown hash C ssts P ids" "level_ordered P ids"
  shows "spec (store_holds C) (conc_new (map fst (table_pairs ssts P ids)) t False ab)
    (\<lambda>c. source_of hash C t ab (level_entries P ids) (LS_Conc c))"
proof -
  let ?view = "\<lambda>p. reader_view False t ab (concat (snd p))"
  let ?es = "concat (map (\<lambda>i. reader_view False t ab (concat (P i))) ids)"
  have "sst_view t False ab p = ?view p" if "p \<in> set (table_pairs ssts P ids)" for p
    using table_pairs_shown(2) [OF assms(1)] that sst_plain_facts(10) [of hash C "fst p" "snd p"] by (simp add: sst_view_def)
  then have same: "map (sst_view t False ab) (table_pairs ssts P ids) = map ?view (table_pairs ssts P ids)" by simp
  have V: "concat (map (sst_view t False ab) (table_pairs ssts P ids)) = ?es"
    unfolding same unfolding table_pairs_def by (simp add: comp_def)
  have "ascending ?es \<and> brings t ab (level_entries P ids) ?es"
    using assms
  proof (induction ids)
    case Nil
    then show ?case by (simp add: brings_Nil level_entries_def)
  next
    case (Cons i ids)
    obtain s where s: "sst_plain hash C s (P i)" by (rule tables_shownE [OF Cons.prems(1), of i]) auto
    have srt: "sorted_entries (concat (P i))" by (rule sst_plain_facts(5) [OF s])
    have IH: "ascending (concat (map (\<lambda>i. reader_view False t ab (concat (P i))) ids))"
      "brings t ab (level_entries P ids) (concat (map (\<lambda>i. reader_view False t ab (concat (P i))) ids))"
      using Cons by (simp_all add: tables_shown_def level_ordered_def)
    have sub: "e \<in> set (concat (P j))" if "e \<in> set (reader_view False t ab (concat (P j)))" for e j
      using that list_emb_set [OF reader_view_subseq] by metis
    have less: "ekey x < ekey y" if "x \<in> set (reader_view False t ab (concat (P i)))" "j \<in> set ids"
        "y \<in> set (reader_view False t ab (concat (P j)))" for x y j
      using sub [OF that(1)] sub [OF that(3)] that(2) Cons.prems(2) unfolding level_ordered_def keys_below_def by auto
    have S: "sorted (map ekey (filter (\<lambda>e. readable t ab (etid e)) (concat (P i))))"
      by (rule sorted_filter_keys [OF sorted_entries_keys [OF srt]])
    then have "ascending (reader_view False t ab (concat (P i)))" by (simp add: reader_view_def dedup_sorted)
    with IH(1) less have asc: "ascending (concat (map (\<lambda>i. reader_view False t ab (concat (P i))) (i # ids)))"
      by (auto simp: sorted_wrt_append)
    have "level_entries P (i # ids) = set (concat (P i)) \<union> level_entries P ids" by (simp add: level_entries_def)
    with brings_union [OF brings_view [OF srt] IH(2)] asc show ?case by simp
  qed
  with conc_new_spec [OF table_pairs_shown(3) [OF assms(1)], of t False ab]
  show ?thesis unfolding V source_of_def by (elim spec_weaken) auto
qed


lemma begin_deep_spec:
  assumes "tables_shown hash C ssts P (all_ids ls)" "\<forall>(l, ids) \<in> set ls. l \<noteq> 0 \<longrightarrow> level_ordered P ids"
  shows "spec (store_holds C) (begin_deep ssts t ab ls)
    (\<lambda>its. list_all2 (\<lambda>it ids. source_of hash C t ab (level_entries P ids) it) its (map snd (filter (\<lambda>l. fst l \<noteq> 0) ls)))"
  using assms
proof (induction ls)
  case (Cons x ls)
  obtain l ids where x: "x = (l, ids)" by (cases x)
  have sh: "tables_shown hash C ssts P ids" "tables_shown hash C ssts P (all_ids ls)"
    using Cons.prems(1) by (simp_all add: x all_ids_def tables_shown_append)
  have IH: "spec (store_holds C) (begin_deep ssts t ab ls)
    (\<lambda>its. list_all2 (\<lambda>it ids. source_of hash C t ab (level_entries P ids) it) its (map snd (filter (\<lambda>l. fst l \<noteq> 0) ls)))"
    using Cons.prems(2) by (intro Cons.IH sh(2)) simp
  show ?case
  proof (cases "l = 0")
    case True
    with IH show ?thesis by (simp add: x)
  next
    case False
    then have o: "level_ordered P ids" using Cons.prems(2) by (simp add: x)
    have "spec (store_holds C) (cbind (conc_new (map fst (table_pairs ssts P ids)) t False ab) (\<lambda>c.
        cbind (begin_deep ssts t ab ls) (\<lambda>its. cret (LS_Conc c # its))))
      (\<lambda>its. list_all2 (\<lambda>it ids. source_of hash C t ab (level_entries P ids) it) its (ids # map snd (filter (\<lambda>l. fst l \<noteq> 0) ls)))"
      by (rule spec_bind [OF deep_source [OF sh(1) o]], rule spec_bind [OF IH], rule spec_ret) simp
    with False show ?thesis by (simp add: x table_pairs_shown(1) [OF sh(1)])
  qed
qed (simp add: spec_ret)

text \<open>The streams of all sources together.\<close>

definition sources_of ::
  "(bytes \<Rightarrow> u64) \<Rightarrow> (cache_key \<Rightarrow> entry list) \<Rightarrow> u64 \<Rightarrow> abort_check \<Rightarrow> entry set \<Rightarrow> level_source list \<Rightarrow> bool" where
  "sources_of hash C t ab E its \<longleftrightarrow> (\<exists>ess. list_all2 (source_shows hash C) its ess \<and> (\<forall>es \<in> set ess. ascending es) \<and>
     brings t ab E (concat ess))"

lemma sources_of_Nil: "sources_of hash C t ab {} []"
  by (simp add: sources_of_def brings_Nil)

lemma sources_of_Cons:
  assumes "source_of hash C t ab A it" "sources_of hash C t ab B its"
  shows "sources_of hash C t ab (A \<union> B) (it # its)"
proof -
  obtain es where es: "source_shows hash C it es" "ascending es" "brings t ab A es"
    using assms(1) unfolding source_of_def by blast
  obtain ess where ess: "list_all2 (source_shows hash C) its ess" "\<forall>es \<in> set ess. ascending es" "brings t ab B (concat ess)"
    using assms(2) unfolding sources_of_def by blast
  show ?thesis
    unfolding sources_of_def using es ess brings_union [OF es(3) ess(3)] by (intro exI [of _ "es # ess"]) simp
qed

lemma sources_of_levels:
  "list_all2 (\<lambda>it ids. source_of hash C t ab (level_entries P ids) it) its idss \<Longrightarrow>
   sources_of hash C t ab (level_entries P (concat idss)) its"
proof (induction its idss rule: list_all2_induct)
  case Nil
  then show ?case by (simp add: level_entries_def sources_of_Nil)
next
  case (Cons it its ids idss)
  from sources_of_Cons [OF Cons(1,3)] show ?case by (simp add: level_entries_append)
qed

lemma level_sources_spec:
  assumes "mem_ok m" "tables_shown hash C ssts P (all_ids ls)" "levels_ok P ls"
    and inj: "inj_on eversion (set (mem_records m) \<union> level_entries P (all_ids ls))"
  shows "spec (store_holds C) (level_sources ls ssts m t ab)
    (sources_of hash C t ab (set (mem_records m) \<union> level_entries P (all_ids ls)))"
proof -
  let ?l0 = "level_ids ls 0"
  have E: "level_entries P (all_ids ls) = level_entries P ?l0 \<union> level_entries P (all_ids (filter (\<lambda>l. fst l \<noteq> 0) ls))"
    using assms(3) by (intro level_zero_first) (simp add: levels_ok_def)
  have sh: "tables_shown hash C ssts P ?l0"
    using assms(2) level_ids_subset [of ls 0] unfolding tables_shown_def by blast
  have inj0: "inj_on eversion (set (mem_records m))" "inj_on eversion (level_entries P ?l0)"
    by (rule inj_on_subset [OF inj], unfold E, blast)+
  obtain h where h: "memtable_begin m t False ab = Inr h" "drain_ordered h" "\<And>k. drain_lookup h k = mem_lookup m k t ab"
    using memtable_begin_drain [OF assms(1), of t False ab] unfolding no_hiding by blast
  have "ascending (map item_entry (heap_drain h))"
    using h(2) by (simp add: drain_ordered_def sorted_wrt_map item_entry_def)
  with brings_memory [OF assms(1) inj0(1) h(2,3)]
  have mem: "source_of hash C t ab (set (mem_records m)) (LS_Heap h)"
    unfolding source_of_def by (auto simp: heap_drained_def)
  have "(case map_of ls 0 of None \<Rightarrow> cret [] | Some ids \<Rightarrow> begin_level0 ssts t ab ids) = begin_level0 ssts t ab ?l0"
    by (cases "map_of ls 0") (simp_all add: level_ids_def)
  note l0 = begin_level0_spec [OF sh, of t ab, folded this]
  have ordered: "\<forall>(l, ids) \<in> set ls. l \<noteq> 0 \<longrightarrow> level_ordered P ids" using assms(3) by (simp add: levels_ok_def)
  show ?thesis
    unfolding level_sources_def h(1) cbind_simps
  proof (rule spec_bind [OF l0], rule spec_bind [OF level0_spec [OF sh inj0(2)]], assumption)
    fix its r
    assume r: "source_of hash C t ab (level_entries P ?l0) (LS_Heap (fst r))"
    obtain b e where be: "r = (b, e)" by (cases r)
    show "spec (store_holds C) (case r of (l0_begin, l0_end) \<Rightarrow>
        cbind (begin_deep ssts t ab ls) (\<lambda>deep. cret (LS_Heap h # LS_Heap l0_begin # deep)))
      (sources_of hash C t ab (set (mem_records m) \<union> level_entries P (all_ids ls)))"
      unfolding be prod.case
    proof (rule spec_bind [OF begin_deep_spec [OF assms(2) ordered]], rule spec_ret)
      fix deep
      assume "list_all2 (\<lambda>it ids. source_of hash C t ab (level_entries P ids) it) deep (map snd (filter (\<lambda>l. fst l \<noteq> 0) ls))"
      from sources_of_Cons [OF mem sources_of_Cons [OF r sources_of_levels [OF this]]]
      show "sources_of hash C t ab (set (mem_records m) \<union> level_entries P (all_ids ls)) (LS_Heap h # LS_Heap b # deep)"
        unfolding E by (simp add: be all_ids_def)
    qed
  qed
qed

section \<open>The whole scan\<close>

lemma covers_member:
  assumes "covers K t ab E its" "i \<in> set its"
  shows "item_entry i \<in> E" "readable t ab (si_tid i)" "K (si_key i)"
  using assms unfolding covers_def by blast+

lemma covers_newest:
  assumes "covers K t ab E its" "K k" "newest E k t ab (Some (v, n))"
  shows "\<exists>i \<in> set its. item_entry i = (k, v, n)"
  using assms unfolding covers_def by blast

lemma brings_live:
  assumes "brings t ab E es" "inj_on eversion E"
  shows "(k, v, n) \<in> live {e \<in> set es. ekey e \<noteq> []} \<longleftrightarrow> k \<noteq> [] \<and> v \<noteq> [] \<and> newest E k t ab (Some (v, n))"
proof -
  define U where "U = {e \<in> set es. ekey e \<noteq> []}"
  have C: "covers (\<lambda>k. k \<noteq> []) t ab E (map (placed 0 0) (filter (\<lambda>e. ekey e \<noteq> []) es))"
    using assms(1) unfolding brings_def .
  have inE: "x \<in> E \<and> readable t ab (etid x) \<and> ekey x \<noteq> []" if "x \<in> U" for x
  proof -
    have "placed 0 0 x \<in> set (map (placed 0 0) (filter (\<lambda>e. ekey e \<noteq> []) es))" using that by (simp add: U_def)
    from covers_member [OF C this] show ?thesis by (simp only: placed_entry) (simp add: placed_def)
  qed
  have inU: "(k, v, n) \<in> U" if k: "k \<noteq> []" "newest E k t ab (Some (v, n))" for k v n
  proof -
    obtain i where i: "i \<in> set (map (placed 0 0) (filter (\<lambda>e. ekey e \<noteq> []) es))" "item_entry i = (k, v, n)"
      using covers_newest [OF C k] by (rule bexE)
    from i(1) obtain x where x: "i = placed 0 0 x" "x \<in> set (filter (\<lambda>e. ekey e \<noteq> []) es)"
      unfolding set_map by (rule imageE)
    have "x = (k, v, n)" using i(2) unfolding x(1) placed_entry .
    with x(2) show ?thesis unfolding U_def set_filter by (simp only:)
  qed
  show ?thesis
    unfolding U_def [symmetric]
  proof
    assume live: "(k, v, n) \<in> live U"
    have U: "(k, v, n) \<in> U" using live unfolding live_def by blast
    have top: "\<forall>x \<in> U. ekey x = ekey (k, v, n) \<longrightarrow> etid x \<le> etid (k, v, n)"
      using live unfolding live_def mem_Collect_eq by blast
    have v: "v \<noteq> []" using live_value [OF live] by simp
    have F: "(k, v, n) \<in> E" "readable t ab n" "k \<noteq> []" using inE [OF U] by simp_all
    then have c: "(k, v, n) \<in> candidates E k t ab" by (simp add: candidates_def)
    from newest_exists [OF c] obtain v' n' where new: "newest E k t ab (Some (v', n'))" by blast
    have "n' \<le> n" using bspec [OF top inU [OF F(3) new]] by simp
    moreover have "n \<le> n'" using new c by (auto simp: newest_def)
    ultimately have n: "n' = n" by simp
    have "(k, v', n) \<in> E" using newest_SomeD [OF new] unfolding n by blast
    from one_version [OF assms(2) F(1) this] have "v' = v" .
    with new n v F(3) show "k \<noteq> [] \<and> v \<noteq> [] \<and> newest E k t ab (Some (v, n))" by simp
  next
    assume R: "k \<noteq> [] \<and> v \<noteq> [] \<and> newest E k t ab (Some (v, n))"
    show "(k, v, n) \<in> live U"
    proof (rule live_member)
      show "(k, v, n) \<in> U" using inU R by blast
      show "evalue (k, v, n) \<noteq> []" using R by simp
      show "etid x \<le> etid (k, v, n)" if x: "x \<in> U" "ekey x = ekey (k, v, n)" for x
      proof -
        obtain v' n' where x': "x = (k, v', n')" using x(2) by (cases x) simp
        have "(k, v', n') \<in> candidates E k t ab" using inE [OF x(1)] by (simp add: x' candidates_def)
        moreover have "\<forall>c \<in> candidates E k t ab. etid c \<le> n" using R by (simp add: newest_def)
        ultimately show ?thesis by (auto simp: x')
      qed
    qed
  qed
qed

lemma newest_any: "\<exists>r. newest E k t ab r"
proof (cases "candidates E k t ab = {}")
  case True
  then have "newest E k t ab None" by (simp add: newest_def)
  then show ?thesis ..
next
  case False
  then obtain c where "c \<in> candidates E k t ab" by blast
  from newest_exists [OF this] show ?thesis by blast
qed

lemma live_range:
  assumes "brings t ab E all" "inj_on eversion E" "ascending es" "set es = live {e \<in> set all. ekey e \<noteq> []}"
  shows "range_of (\<lambda>k. k \<noteq> []) t ab E es"
proof -
  have mem: "(k, v, n) \<in> set es \<longleftrightarrow> k \<noteq> [] \<and> v \<noteq> [] \<and> newest E k t ab (Some (v, n))" for k v n
    unfolding assms(4) by (rule brings_live [OF assms(1,2)])
  have "ekey e \<noteq> [] \<and> readable t ab (etid e)" if "e \<in> set es" for e
  proof -
    obtain k v n where e: "e = (k, v, n)" by (cases e) auto
    with mem [of k v n] that newest_SomeD [of E k t ab v n] show ?thesis by simp
  qed
  moreover have "\<exists>r. newest E k t ab r \<and> map_option snd (find (\<lambda>e. ekey e = k) es) = visible r" if k: "k \<noteq> []" for k
  proof -
    obtain r where r: "newest E k t ab r" using newest_any by blast
    have "map_option snd (find (\<lambda>e. ekey e = k) es) = visible r"
    proof (cases "find (\<lambda>e. ekey e = k) es")
      case None
      have "v = []" if "r = Some (v, n)" for v n
      proof (rule ccontr)
        assume "v \<noteq> []"
        with mem k r that have "(k, v, n) \<in> set es" by simp
        with None show False by (auto simp: find_None_iff)
      qed
      with None show ?thesis by (cases r) (auto simp: visible_def)
    next
      case (Some e)
      obtain v n where e: "e = (k, v, n)" "e \<in> set es" using findSomeD [OF Some] by (cases e) auto
      then have new: "v \<noteq> []" "newest E k t ab (Some (v, n))" using mem by simp_all
      have "r = Some (v, n)" by (rule newest_unique [OF assms(2) r new(2)])
      with Some e(1) new(1) show ?thesis by (simp add: visible_def)
    qed
    with r show ?thesis by blast
  qed
  ultimately show ?thesis unfolding range_of_def using assms(3) by blast
qed


lemma sources_first:
  assumes "sources_of hash C t ab E its" "inj_on eversion E"
  shows "spec (store_holds C) (skip_key [] its) (\<lambda>its'. \<exists>all ess. brings t ab E all \<and> sources_ok hash C its' ess \<and>
    set (concat ess) = {e \<in> set all. ekey e \<noteq> []})"
proof -
  obtain ess where ess: "list_all2 (source_shows hash C) its ess" "\<forall>es \<in> set ess. ascending es" "brings t ab E (concat ess)"
    using assms(1) unfolding sources_of_def by blast
  let ?ess = "map (without []) ess"
  have W: "set (without [] es) = {x \<in> set es. ekey x \<noteq> []}" "ascending (without [] es)" if "es \<in> set ess" for es
    using without_set [OF bspec [OF ess(2) that], of "[]"] by simp_all
  have "set (concat ?ess) = (\<Union>es \<in> set ess. {x \<in> set es. ekey x \<noteq> []})" using W(1) by simp
  also have "\<dots> = {x \<in> set (concat ess). ekey x \<noteq> []}" by auto
  finally have U: "set (concat ?ess) = {x \<in> set (concat ess). ekey x \<noteq> []}" .
  have "x \<in> E" if "x \<in> {x \<in> set (concat ess). ekey x \<noteq> []}" for x
    using covers_member [OF ess(3) [unfolded brings_def], of "placed 0 0 x"] that by simp
  then have "{x \<in> set (concat ess). ekey x \<noteq> []} \<subseteq> E" by blast
  then have inj: "inj_on eversion (set (concat ?ess))" unfolding U by (rule inj_on_subset [OF assms(2)])
  have asc: "\<forall>es \<in> set ?ess. ascending es" using W(2) by simp
  have keys: "\<forall>e \<in> set (concat ?ess). ekey e \<noteq> []" unfolding U by blast
  show ?thesis
  proof (rule spec_weaken [OF skip_key_spec [OF ess(1)]])
    fix its'
    assume "list_all2 (source_shows hash C) its' ?ess"
    with asc inj keys have "sources_ok hash C its' ?ess" unfolding sources_ok_def by blast
    with ess(3) U show "\<exists>all ess. brings t ab E all \<and> sources_ok hash C its' ess \<and>
        set (concat ess) = {e \<in> set all. ekey e \<noteq> []}" by blast
  qed
qed

text \<open>Where \<open>begin\<close> leaves the iterator: a full loop from here shows every key of the
  records once.\<close>

definition scan_ready ::
  "(bytes \<Rightarrow> u64) \<Rightarrow> (cache_key \<Rightarrow> entry list) \<Rightarrow> u64 \<Rightarrow> abort_check \<Rightarrow> entry set \<Rightarrow> level_iter \<Rightarrow> bool" where
  "scan_ready hash C t ab E li \<longleftrightarrow> (\<exists>all ess. brings t ab E all \<and> level_at hash C li ess \<and>
     live (set (concat ess)) = live {e \<in> set all. ekey e \<noteq> []})"

lemma level_new_spec:
  assumes "mem_ok m" "tables_shown hash C ssts P (all_ids ls)" "levels_ok P ls"
    and inj: "inj_on eversion (set (mem_records m) \<union> level_entries P (all_ids ls))"
  shows "spec (store_holds C) (level_new ls ssts m t ab)
    (scan_ready hash C t ab (set (mem_records m) \<union> level_entries P (all_ids ls)))"
  unfolding level_new_def
proof (rule spec_bind [OF level_sources_spec [OF assms]], rule spec_bind [OF sources_first [OF _ inj]], assumption, elim exE conjE)
  fix its' all ess
  let ?E = "set (mem_records m) \<union> level_entries P (all_ids ls)"
  assume all: "brings t ab ?E all" and ok: "sources_ok hash C its' ess"
    and U: "set (concat ess) = {e \<in> set all. ekey e \<noteq> []}"
  let ?li = "\<lparr>li_iters = its', li_cur = 0, li_max_tranc_id = t, li_cached = None\<rparr>"
  have L: "list_all2 (source_shows hash C) its' ess" using ok by (simp add: sources_ok_def)
  have "spec (store_holds C) (level_settle (level_fuel its') ?li) (level_settled hash C ess)"
    by (rule level_settle_spec [OF _ level_fuel_enough [OF L]]) (simp add: ok)
  then show "spec (store_holds C) (level_settle (level_fuel its') ?li) (scan_ready hash C t ab ?E)"
  proof (rule spec_weaken)
    fix li
    assume "level_settled hash C ess li"
    then obtain ess' where s: "level_at hash C li ess'" "live (set (concat ess')) = live (set (concat ess))"
      unfolding level_settled_def by blast
    show "scan_ready hash C t ab ?E li" using all s unfolding scan_ready_def U by blast
  qed
qed

lemma scan_loop_spec:
  assumes "scan_ready hash C t ab E li" "inj_on eversion E"
  shows "spec (store_holds C) (level_loop (level_fuel (li_iters li)) li engine_end) (range_of (\<lambda>k. k \<noteq> []) t ab E)"
proof -
  obtain all ess where s: "brings t ab E all" "level_at hash C li ess" "live (set (concat ess)) = live {e \<in> set all. ekey e \<noteq> []}"
    using assms(1) unfolding scan_ready_def by blast
  have "list_all2 (source_shows hash C) (li_iters li) ess" using s(2) by (simp add: level_at_def sources_ok_def)
  from level_loop_spec [OF s(2) level_fuel_enough [OF this]]
  show ?thesis
  proof (rule spec_weaken)
    fix es
    assume r: "ascending es \<and> set es = live (set (concat ess))"
    show "range_of (\<lambda>k. k \<noteq> []) t ab E es"
      by (rule live_range [OF s(1) assms(2) conjunct1 [OF r] trans [OF conjunct2 [OF r] s(3)]])
  qed
qed

lemma engine_scan_spec:
  assumes "engine_ok env P e" "e_tran_manager e = Some m"
  shows "\<exists>es st. engine_scan t e = (Inr es, e\<lparr>e_store := st\<rparr>) \<and> store_holds (blocks_of P) st \<and>
    range_of (\<lambda>k. k \<noteq> []) t (Some (tm_is_aborted m)) (set (engine_records P e)) es"
proof -
  let ?I = "store_holds (blocks_of P)" and ?ab = "Some (tm_is_aborted m)"
  let ?E = "set (mem_records (e_memtable e)) \<union> level_entries P (all_ids (e_levels e))"
  have E: "set (engine_records P e) = ?E" by (simp add: engine_records_def set_ids_records)
  have K: "mem_ok (e_memtable e)" "tables_shown (env_hash env) (blocks_of P) (e_ssts e) P (all_ids (e_levels e))"
    "?I (e_store e)" "levels_ok P (e_levels e)" "distinct (map eversion (engine_records P e))"
    using assms(1) unfolding engine_ok_def by blast+
  have inj: "inj_on eversion ?E" using K(5) unfolding E [symmetric] by (simp add: distinct_map)
  obtain li st where li: "estore (level_new (e_levels e) (e_ssts e) (e_memtable e) t ?ab) e = (Inr li, e\<lparr>e_store := st\<rparr>)"
    "?I st" "scan_ready (env_hash env) (blocks_of P) t ?ab ?E li"
    using spec_estore [where e = e, OF level_new_spec [OF K(1,2,4) inj, of t ?ab] K(3)] by blast
  obtain es st' where es: "estore (level_loop (level_fuel (li_iters li)) li engine_end) (e\<lparr>e_store := st\<rparr>) =
      (Inr es, e\<lparr>e_store := st'\<rparr>)" "?I st'" "range_of (\<lambda>k. k \<noteq> []) t ?ab ?E es"
    using spec_estore_upd [OF scan_loop_spec [OF li(3) inj] li(2), of e] by blast
  have "engine_scan t e = (Inr es, e\<lparr>e_store := st'\<rparr>)"
    by (simp add: engine_scan_def engine_begin_def cbind_def eget_def assms(2) li(1) es(1))
  with es(2,3) show ?thesis unfolding E by blast
qed

text \<open>The methods of the class LSM. Its constructor never gives the engine a manager, so on an LSM
  as constructed they throw.\<close>

definition lsm_begin :: "u64 \<Rightarrow> level_iter lio" where
  "lsm_begin t = lengine (engine_begin t)"

definition lsm_end :: level_iter where
  "lsm_end = engine_end"

definition lsm_iters_monotony_predicate :: "u64 \<Rightarrow> (bytes \<Rightarrow> int) \<Rightarrow> (range_iter \<times> range_iter) option lio" where
  "lsm_iters_monotony_predicate t pred = lengine (engine_iters_monotony_predicate t pred)"

lemma lsm_scans_throw:
  assumes "e_tran_manager (lsm_engine s) = None"
  shows "fst (lsm_begin t s) = Inl Runtime_Error" "fst (lsm_iters_monotony_predicate t pred s) = Inl Runtime_Error"
  using assms by (simp_all add: lsm_begin_def lsm_iters_monotony_predicate_def lengine_def engine_begin_def
      engine_iters_monotony_predicate_def cbind_def eget_def cthrow_def)

text \<open>C6: after any history the loop from \<open>begin\<close> to \<open>end\<close> over all tables
  shows the keys in ascending order, each once, with the value that a point read with the same
  bound returns; deleted keys and commit marks are left out.\<close>

theorem scan_agrees:
  assumes "env_ok env" "1 \<le> cache_k" "ops_fit Map.empty ops"
    and e: "e = engine_run env ops (engine_new capacity cache_k)" and m: "e_tran_manager e = Some m"
  shows "\<exists>es e'. engine_scan t e = (Inr es, e') \<and> sorted_wrt (\<lambda>a b. ekey a < ekey b) es \<and>
    (\<forall>x \<in> set es. ekey x \<noteq> []) \<and>
    (\<forall>k. k \<noteq> [] \<longrightarrow> fst (engine_get env k t False e) = Inr (map_option snd (find (\<lambda>x. ekey x = k) es)))"
proof -
  obtain P where P: "engine_ok env P e"
    using history_shows [OF assms(1-3), of capacity] unfolding e engine_shows_def by blast
  obtain es st where es: "engine_scan t e = (Inr es, e\<lparr>e_store := st\<rparr>)"
    "range_of (\<lambda>k. k \<noteq> []) t (Some (tm_is_aborted m)) (set (engine_records P e)) es"
    using engine_scan_spec [OF P m, of t] by blast
  have "fst (engine_get env k t False e) = Inr (map_option snd (find (\<lambda>x. ekey x = k) es))" if k: "k \<noteq> []" for k
    by (rule range_of_get [OF P m es(2) k k])
  with es show ?thesis unfolding range_of_def by blast
qed

theorem scan_agrees_witness:
  "\<exists>es e'. engine_scan 4 (engine_run sample_env sample_ops (engine_new 2 1)) = (Inr es, e') \<and>
    sorted_wrt (\<lambda>a b. ekey a < ekey b) es \<and> [] \<notin> set (map ekey es) \<and>
    fst (engine_get sample_env [1] 4 False (engine_run sample_env sample_ops (engine_new 2 1))) =
      Inr (map_option snd (find (\<lambda>x. ekey x = [1]) es))"
proof -
  define e where "e = engine_run sample_env sample_ops (engine_new 2 1)"
  have m: "e_tran_manager e = Some sample_manager" unfolding e_def by (rule sample_run_manager)
  obtain es e' where es: "engine_scan 4 e = (Inr es, e')"
    "sorted_wrt (\<lambda>a b. ekey a < ekey b) es" "\<forall>x \<in> set es. ekey x \<noteq> []"
    "\<forall>k. k \<noteq> [] \<longrightarrow> fst (engine_get sample_env k 4 False e) = Inr (map_option snd (find (\<lambda>x. ekey x = k) es))"
    using scan_agrees [where t = 4, OF sample_ok order.refl sample_fits e_def m] by blast
  have "[] \<notin> set (map ekey es)"
    "fst (engine_get sample_env [1] 4 False e) = Inr (map_option snd (find (\<lambda>x. ekey x = [1]) es))"
    using es(3,4) by auto
  with es(1,2) show ?thesis unfolding e_def by blast
qed

end
