(* ===== verification/Engine_Ends.thy ===== *)
theory Engine_Ends
  imports Level_Scan
begin

text \<open>
  Every call on the engine ends: writes, deletions and batches with the flushes and compactions
  they start, lookups, range queries read to their end, and scans over all tables.
\<close>

text \<open>The outcome of a call that returned or threw one of the exceptions of the program.\<close>

definition ends :: "'a result \<Rightarrow> bool" where
  "ends r \<longleftrightarrow> (case r of Inl err \<Rightarrow> err \<noteq> Diverges \<and> err \<noteq> Undefined | Inr x \<Rightarrow> True)"

lemma ends_simps [simp]: "ends (Inr x)" "ends (Inl err) \<longleftrightarrow> thrown err"
  by (simp_all add: ends_def thrown_def)

lemma outcome_ends: "outcome Q x \<Longrightarrow> ends (fst x)"
  by (auto simp: outcome_def ends_def thrown_def split: sum.splits)

text \<open>C16: whatever history of operations the engine has seen, and whatever writes of files failed,
  the next call ends with a value or with an exception that the program throws: any operation of
  engine_op, a range query with any monotone predicate read from its first to its last
  record, and a scan over all tables. So no loop of these calls runs for ever (every fuel is
  enough), and none of them follows a null pointer, uses an empty optional, or leaves the bounds of
  a vector where the model checks them (\<open>vec_at\<close>).\<close>

theorem engine_calls_end:
  assumes "env_ok env" "1 \<le> cache_k" "ops_fit Map.empty ops" and e: "e = engine_run env ops (engine_new capacity cache_k)"
  shows "(\<forall>op. op_fits (engine_writes ops Map.empty) op \<longrightarrow> ends (fst (engine_exec env op e))) \<and>
    (\<forall>t pred. monotone_predicate pred \<longrightarrow> ends (fst (engine_range t pred e))) \<and>
    (\<forall>t. ends (fst (engine_scan t e)))"
proof (intro conjI allI impI)
  have shown: "engine_shows env (engine_writes ops Map.empty) e" unfolding e by (rule history_shows [OF assms(1-3)])
  then obtain P where P: "engine_ok env P e" unfolding engine_shows_def by blast
  show "ends (fst (engine_exec env op e))" if "op_fits (engine_writes ops Map.empty) op" for op
    by (rule outcome_ends [OF exec_outcome [OF assms(1) shown that]])
  show "ends (fst (engine_range t pred e))" if pred: "monotone_predicate pred" for t pred
  proof (cases "e_tran_manager e")
    case None
    then show ?thesis
      by (simp add: engine_range_def engine_iters_monotony_predicate_def cbind_def eget_def cthrow_def)
  next
    case (Some m)
    from engine_range_spec [OF P pred this, of t] show ?thesis by auto
  qed
  show "ends (fst (engine_scan t e))" for t
  proof (cases "e_tran_manager e")
    case None
    then show ?thesis by (simp add: engine_scan_def engine_begin_def cbind_def eget_def cthrow_def)
  next
    case (Some m)
    from engine_scan_spec [OF P this, of t] show ?thesis by auto
  qed
qed

theorem engine_calls_end_witness:
  "ends (fst (engine_exec sample_env E_Flush (engine_run sample_env sample_ops (engine_new 2 1)))) \<and>
    ends (fst (engine_scan 4 (engine_run sample_env sample_ops (engine_new 2 1))))"
proof -
  have "op_fits (engine_writes sample_ops Map.empty) E_Flush" by (simp add: op_fits_def)
  with engine_calls_end [OF sample_ok order.refl sample_fits refl, of 2] show ?thesis by blast
qed

end
