(* ===== verification/Engine_Open.thy ===== *)
theory Engine_Open
  imports Lsm
begin

text \<open>
  The constructor of LSMEngine on an existing directory: the names of the files are parsed, the
  SSTs opened and sorted into levels. An engine whose memory was flushed comes back from its
  files, and its history goes on.
\<close>

section \<open>File names\<close>

text \<open>\<open>std::stoull\<close> in base 10: leading spaces, a sign, digits; what follows is ignored. A minus
  sign negates modulo \<open>2 ^ 64\<close>.\<close>

definition is_space :: "byte \<Rightarrow> bool" where
  "is_space c \<longleftrightarrow> c = 0x20 \<or> 0x09 \<le> c \<and> c \<le> 0x0D"

definition is_digit :: "byte \<Rightarrow> bool" where
  "is_digit c \<longleftrightarrow> 0x30 \<le> c \<and> c \<le> 0x39"

definition digits_value :: "bytes \<Rightarrow> nat" where
  "digits_value ds = foldl (\<lambda>n d. 10 * n + unat (d - 0x30)) 0 ds"

definition split_sign :: "bytes \<Rightarrow> bool \<times> bytes" where
  "split_sign s = (case s of
      [] \<Rightarrow> (False, [])
    | c # cs \<Rightarrow> if c = 0x2D then (True, cs) else if c = 0x2B then (False, cs) else (False, s))"

definition stoull :: "bytes \<Rightarrow> nat result" where
  "stoull str =
     (let (neg, s) = split_sign (dropWhile is_space str);
          ds = takeWhile is_digit s;
          n = digits_value ds
      in if ds = [] then Inl Invalid_Argument
         else if 2 ^ 64 \<le> n then Inl Out_Of_Range
         else Inr (if neg then (2 ^ 64 - n) mod 2 ^ 64 else n))"

function decimal :: "nat \<Rightarrow> bytes" where
  "decimal n = (if n < 10 then [0x30 + of_nat n] else decimal (n div 10) @ [0x30 + of_nat (n mod 10)])"
  by pat_completeness auto
termination by (relation "measure id") auto

declare decimal.simps [simp del]

text \<open>"sst_", the id with 32 digits, a dot and the level.\<close>

definition sst_prefix :: bytes where
  "sst_prefix = [0x73, 0x73, 0x74, 0x5F]"

definition padded :: "nat \<Rightarrow> bytes" where
  "padded i = replicate (32 - length (decimal i)) 0x30 @ decimal i"

definition get_sst_path :: "nat \<Rightarrow> nat \<Rightarrow> bytes" where
  "get_sst_path i l = sst_prefix @ padded i @ 0x2E # decimal l"

section \<open>The constructor\<close>

text \<open>A directory entry is a name with the content of a regular file.\<close>

type_synonym dir_entry = "bytes \<times> bytes option"

definition dot_pos :: "bytes \<Rightarrow> nat" where
  "dot_pos name = length (takeWhile (\<lambda>c. c \<noteq> 0x2E) name)"

definition is_sst_file :: "dir_entry \<Rightarrow> bool" where
  "is_sst_file entry \<longleftrightarrow> snd entry \<noteq> None \<and> prefix sst_prefix (fst entry) \<and>
     \<not> (dot_pos (fst entry) = length (fst entry) \<or> dot_pos (fst entry) = length (fst entry) - 1)"

definition add_sst :: "nat \<Rightarrow> nat \<Rightarrow> sst \<Rightarrow> engine \<Rightarrow> engine" where
  "add_sst sid lvl s e = e\<lparr>e_ssts := (sid, s) # e_ssts e,
     e_levels := level_set lvl (level_ids (e_levels e) lvl @ [sid]) (e_levels e),
     e_next_sst_id := max sid (e_next_sst_id e), e_cur_max_level := max lvl (e_cur_max_level e)\<rparr>"

definition load_file :: "engine_env \<Rightarrow> dir_entry \<Rightarrow> engine \<Rightarrow> engine result" where
  "load_file env entry e =
     (if \<not> is_sst_file entry then Inr e
      else
        let name = fst entry
        in ebind (stoull (take (dot_pos name - 4) (drop 4 name))) (\<lambda>sid.
           ebind (stoull (drop (Suc (dot_pos name)) name)) (\<lambda>lvl.
           ebind (sst_open (env_hash env) sid (the (snd entry)) True True) (\<lambda>s.
             Inr (add_sst sid lvl s e)))))"

primrec load_files :: "engine_env \<Rightarrow> dir_entry list \<Rightarrow> engine \<Rightarrow> engine result" where
  "load_files env [] e = Inr e"
| "load_files env (entry # dir) e = ebind (load_file env entry e) (\<lambda>e'. load_files env dir e')"

definition sort_level :: "nat \<times> nat list \<Rightarrow> nat \<times> nat list" where
  "sort_level x = (fst x, if fst x = 0 then rev (sort (snd x)) else sort (snd x))"

definition engine_unloaded :: "nat \<Rightarrow> nat \<Rightarrow> engine" where
  "engine_unloaded cache_capacity cache_k =
     \<lparr>e_memtable = memtable_new, e_levels = [], e_ssts = [], e_store = store_new cache_capacity cache_k,
      e_tran_manager = None, e_next_sst_id = 0, e_cur_max_level = 0\<rparr>"

definition engine_loaded :: "engine \<Rightarrow> engine" where
  "engine_loaded e = e\<lparr>e_next_sst_id := Suc (e_next_sst_id e) mod 2 ^ 64, e_levels := map sort_level (e_levels e)\<rparr>"

definition engine_open :: "engine_env \<Rightarrow> nat \<Rightarrow> nat \<Rightarrow> dir_entry list \<Rightarrow> engine result" where
  "engine_open env cache_capacity cache_k dir =
     ebind (load_files env dir (engine_unloaded cache_capacity cache_k)) (\<lambda>e. Inr (engine_loaded e))"

lemma engine_open_empty: "engine_open env capacity k [] = Inr (engine_new capacity k)"
  by (simp add: engine_open_def engine_unloaded_def engine_loaded_def engine_new_def)

section \<open>Names are read back\<close>

lemma decimal_digits: "\<forall>c \<in> set (decimal n). is_digit c"
proof (induction n rule: decimal.induct)
  case (1 n)
  have "is_digit (0x30 + of_nat d)" if "d < 10" for d :: nat
  proof -
    have "d = 0 \<or> d = 1 \<or> d = 2 \<or> d = 3 \<or> d = 4 \<or> d = 5 \<or> d = 6 \<or> d = 7 \<or> d = 8 \<or> d = 9" using that by presburger
    then show ?thesis by (elim disjE) (simp_all add: is_digit_def)
  qed
  with 1 show ?case by (auto simp: decimal.simps [of n])
qed

lemma decimal_not_Nil [simp]: "decimal n \<noteq> []"
  by (simp add: decimal.simps [of n])

lemma digit_value: "d < 10 \<Longrightarrow> unat ((0x30 + of_nat d :: byte) - 0x30) = d"
  by (simp add: unat_of_nat)

lemma digits_value_snoc: "digits_value (ds @ [d]) = 10 * digits_value ds + unat (d - 0x30)"
  by (simp add: digits_value_def)

lemma digits_value_decimal: "digits_value (decimal n) = n"
proof (induction n rule: decimal.induct)
  case (1 n)
  show ?case
  proof (cases "n < 10")
    case True
    then show ?thesis using digit_value [OF True] by (simp add: decimal.simps [of n] digits_value_def)
  next
    case False
    have "n mod 10 < 10" by simp
    from digit_value [OF this] False 1 show ?thesis
      by (simp add: decimal.simps [of n] digits_value_snoc del: add_diff_cancel_left')
  qed
qed

lemma digits_value_zeros: "digits_value (replicate j 0x30 @ ds) = digits_value ds"
  by (induction j) (simp_all add: digits_value_def)

lemma stoull_digits:
  assumes "\<forall>c \<in> set ds. is_digit c" "ds \<noteq> []" "digits_value ds < 2 ^ 64"
  shows "stoull ds = Inr (digits_value ds)"
proof -
  obtain c cs where ds: "ds = c # cs" using assms(2) by (cases ds) auto
  have c: "is_digit c" using assms(1) ds by simp
  then have "\<not> is_space c" "c \<noteq> 0x2D" "c \<noteq> 0x2B" by (auto simp: is_digit_def is_space_def word_le_nat_alt)
  then have "split_sign (dropWhile is_space ds) = (False, ds)" by (simp add: split_sign_def ds)
  moreover have all: "takeWhile is_digit ds = ds" using assms(1) by (simp add: takeWhile_eq_all_conv)
  ultimately show ?thesis using assms(2,3) unfolding stoull_def Let_def by (simp only: prod.case all) simp
qed

lemma stoull_decimal: "n < 2 ^ 64 \<Longrightarrow> stoull (decimal n) = Inr n"
  using stoull_digits [OF decimal_digits decimal_not_Nil, of n] by (simp add: digits_value_decimal)

lemma padded_digits: "\<forall>c \<in> set (padded n). is_digit c"
  using decimal_digits [of n] by (auto simp: padded_def is_digit_def)

lemma stoull_padded: "n < 2 ^ 64 \<Longrightarrow> stoull (padded n) = Inr n"
  using stoull_digits [OF padded_digits, of n] by (simp add: padded_def digits_value_zeros digits_value_decimal)

lemma path_parts:
  shows "dot_pos (get_sst_path i l) = 4 + length (padded i)"
    "take (dot_pos (get_sst_path i l) - 4) (drop 4 (get_sst_path i l)) = padded i"
    "drop (Suc (dot_pos (get_sst_path i l))) (get_sst_path i l) = decimal l"
    "is_sst_file (get_sst_path i l, Some f)"
proof -
  have "c \<noteq> 0x2E" if "c \<in> set (padded i)" for c
    using padded_digits [of i] that by (auto simp: is_digit_def word_le_nat_alt)
  then show d: "dot_pos (get_sst_path i l) = 4 + length (padded i)"
    by (simp add: dot_pos_def get_sst_path_def sst_prefix_def takeWhile_append2)
  show "take (dot_pos (get_sst_path i l) - 4) (drop 4 (get_sst_path i l)) = padded i"
    "drop (Suc (dot_pos (get_sst_path i l))) (get_sst_path i l) = decimal l"
    unfolding d by (simp_all add: get_sst_path_def sst_prefix_def numeral_eq_Suc)
  have "0 < length (decimal l)" by simp
  then show "is_sst_file (get_sst_path i l, Some f)"
    unfolding is_sst_file_def fst_conv d by (simp add: get_sst_path_def sst_prefix_def)
qed

lemma load_file_path:
  assumes "i < 2 ^ 64" "l < 2 ^ 64" "sst_open (env_hash env) i f True True = Inr s"
  shows "load_file env (get_sst_path i l, Some f) e = Inr (add_sst i l s e)"
  using assms(3) path_parts [of i l] by (simp add: load_file_def stoull_padded [OF assms(1)] stoull_decimal [OF assms(2)])


section \<open>Loading\<close>

lemma mset_map_arrange:
  assumes "mset ys = mset (map f xs)"
  shows "\<exists>xs'. mset xs' = mset xs \<and> ys = map f xs'"
  using assms
proof (induction ys arbitrary: xs)
  case (Cons y ys)
  have "y \<in> set (map f xs)" using Cons.prems by (metis list.set_intros(1) set_mset_mset)
  then obtain x where x: "x \<in> set xs" "y = f x" by auto
  have m: "mset xs = mset (x # remove1 x xs)" using x(1) by simp
  then have "mset (map f xs) = mset (map f (x # remove1 x xs))" by (simp only: mset_map)
  with Cons.prems x(2) have "mset ys = mset (map f (remove1 x xs))" by simp
  from Cons.IH [OF this] obtain zs where "mset zs = mset (remove1 x xs)" "ys = map f zs" by blast
  with m x(2) show ?case by (intro exI [of _ "x # zs"]) simp
qed simp

text \<open>The levels and ids of the live SSTs, as pairs.\<close>

definition live_pairs :: "levels \<Rightarrow> (nat \<times> nat) list" where
  "live_pairs ls = concat (map (\<lambda>(l, ids). map (Pair l) ids) ls)"

lemma live_pairs_ids: "map snd (live_pairs ls) = all_ids ls"
  by (induction ls) (auto simp: live_pairs_def all_ids_def comp_def)

lemma live_pairs_level:
  assumes "sorted_wrt (<) (map fst ls)"
  shows "map snd (filter (\<lambda>p. fst p = l) (live_pairs ls)) = level_ids ls l"
  using assms
proof (induction ls)
  case (Cons x ls)
  obtain k ids where x: "x = (k, ids)" by (cases x)
  have none: "level_ids ls k = []" using Cons.prems by (fastforce simp: x level_ids_def split: option.splits dest: map_of_SomeD)
  have "filter (\<lambda>p. fst p = l) (map (Pair k) ids) = (if k = l then map (Pair k) ids else [])" by auto
  with Cons none show ?case by (simp add: x live_pairs_def level_ids_def comp_def)
qed (simp add: live_pairs_def level_ids_def)

definition load_pairs :: "(nat \<Rightarrow> sst) \<Rightarrow> (nat \<times> nat) list \<Rightarrow> engine \<Rightarrow> engine" where
  "load_pairs S ps e = fold (\<lambda>(l, i). add_sst i l (S i)) ps e"

lemma load_files_pairs:
  assumes "\<forall>(l, i) \<in> set ps. i < 2 ^ 64 \<and> l < 2 ^ 64 \<and> sst_open (env_hash env) i (f i) True True = Inr (S i)"
    "filter is_sst_file dir = map (\<lambda>(l, i). (get_sst_path i l, Some (f i))) ps"
  shows "load_files env dir e = Inr (load_pairs S ps e)"
  using assms
proof (induction dir arbitrary: ps e)
  case Nil
  then show ?case by (simp add: load_pairs_def)
next
  case (Cons entry dir)
  show ?case
  proof (cases "is_sst_file entry")
    case False
    with Cons show ?thesis by (simp add: load_file_def)
  next
    case True
    with Cons.prems(2) obtain p qs where ps: "ps = p # qs" "entry = (case p of (l, i) \<Rightarrow> (get_sst_path i l, Some (f i)))"
      "filter is_sst_file dir = map (\<lambda>(l, i). (get_sst_path i l, Some (f i))) qs" by (cases ps) auto
    obtain l i where p: "p = (l, i)" by (cases p)
    have O: "i < 2 ^ 64" "l < 2 ^ 64" "sst_open (env_hash env) i (f i) True True = Inr (S i)"
      using Cons.prems(1) unfolding ps(1) p by auto
    have entry: "entry = (get_sst_path i l, Some (f i))" using ps(2) by (simp add: p)
    have rest: "\<forall>(l, i) \<in> set qs. i < 2 ^ 64 \<and> l < 2 ^ 64 \<and> sst_open (env_hash env) i (f i) True True = Inr (S i)"
      using Cons.prems(1) unfolding ps(1) by auto
    from load_file_path [OF O] Cons.IH [OF rest ps(3)] show ?thesis
      by (simp add: entry ps(1) p load_pairs_def)
  qed
qed

lemma load_pairs_facts:
  shows "e_memtable (load_pairs S ps e) = e_memtable e" "e_store (load_pairs S ps e) = e_store e"
    "e_tran_manager (load_pairs S ps e) = e_tran_manager e"
    "i \<in> snd ` set ps \<Longrightarrow> map_of (e_ssts (load_pairs S ps e)) i = Some (S i)"
    "i \<notin> snd ` set ps \<Longrightarrow> map_of (e_ssts (load_pairs S ps e)) i = map_of (e_ssts e) i"
    "level_ids (e_levels (load_pairs S ps e)) l = level_ids (e_levels e) l @ map snd (filter (\<lambda>p. fst p = l) ps)"
    "e_next_sst_id e \<le> e_next_sst_id (load_pairs S ps e)"
    "i \<in> snd ` set ps \<Longrightarrow> i \<le> e_next_sst_id (load_pairs S ps e)"
    "(\<forall>i \<in> snd ` set ps. i < n) \<Longrightarrow> e_next_sst_id e < n \<Longrightarrow> e_next_sst_id (load_pairs S ps e) < n"
proof -
  have "e_memtable (load_pairs S ps e) = e_memtable e \<and> e_store (load_pairs S ps e) = e_store e \<and>
    e_tran_manager (load_pairs S ps e) = e_tran_manager e \<and>
    map_of (e_ssts (load_pairs S ps e)) = (\<lambda>i. if i \<in> snd ` set ps then Some (S i) else map_of (e_ssts e) i) \<and>
    (\<forall>l. level_ids (e_levels (load_pairs S ps e)) l = level_ids (e_levels e) l @ map snd (filter (\<lambda>p. fst p = l) ps)) \<and>
    e_next_sst_id e \<le> e_next_sst_id (load_pairs S ps e) \<and>
    (\<forall>i \<in> snd ` set ps. i \<le> e_next_sst_id (load_pairs S ps e)) \<and>
    ((\<forall>i \<in> snd ` set ps. i < n) \<longrightarrow> e_next_sst_id e < n \<longrightarrow> e_next_sst_id (load_pairs S ps e) < n)"
  proof (induction ps arbitrary: e)
    case (Cons p ps)
    obtain l i where p: "p = (l, i)" by (cases p)
    have L: "load_pairs S (p # ps) e = load_pairs S ps (add_sst i l (S i) e)" by (simp add: load_pairs_def p)
    note IH = Cons [of "add_sst i l (S i) e"]
    show ?case
      unfolding L by (intro conjI) (use IH in \<open>auto simp: add_sst_def p fun_eq_iff\<close>)
  qed (simp add: load_pairs_def fun_eq_iff)
  then show "e_memtable (load_pairs S ps e) = e_memtable e" "e_store (load_pairs S ps e) = e_store e"
    "e_tran_manager (load_pairs S ps e) = e_tran_manager e"
    "i \<in> snd ` set ps \<Longrightarrow> map_of (e_ssts (load_pairs S ps e)) i = Some (S i)"
    "i \<notin> snd ` set ps \<Longrightarrow> map_of (e_ssts (load_pairs S ps e)) i = map_of (e_ssts e) i"
    "level_ids (e_levels (load_pairs S ps e)) l = level_ids (e_levels e) l @ map snd (filter (\<lambda>p. fst p = l) ps)"
    "e_next_sst_id e \<le> e_next_sst_id (load_pairs S ps e)"
    "i \<in> snd ` set ps \<Longrightarrow> i \<le> e_next_sst_id (load_pairs S ps e)"
    "(\<forall>i \<in> snd ` set ps. i < n) \<Longrightarrow> e_next_sst_id e < n \<Longrightarrow> e_next_sst_id (load_pairs S ps e) < n"
    by auto
qed

lemma load_pairs_levels:
  assumes "sorted_wrt (<) (map fst (e_levels e))"
  shows "sorted_wrt (<) (map fst (e_levels (load_pairs S ps e)))"
    "mset (all_ids (e_levels (load_pairs S ps e))) = mset (all_ids (e_levels e)) + mset (map snd ps)"
proof -
  have "sorted_wrt (<) (map fst (e_levels (load_pairs S ps e))) \<and>
    mset (all_ids (e_levels (load_pairs S ps e))) = mset (all_ids (e_levels e)) + mset (map snd ps)"
    using assms
  proof (induction ps arbitrary: e)
    case (Cons p ps)
    obtain l i where p: "p = (l, i)" by (cases p)
    let ?ls = "level_set l (level_ids (e_levels e) l @ [i]) (e_levels e)"
    have L: "load_pairs S (p # ps) e = load_pairs S ps (add_sst i l (S i) e)" "e_levels (add_sst i l (S i) e) = ?ls"
      by (simp_all add: load_pairs_def p add_sst_def)
    have "mset (all_ids ?ls) = mset (all_ids (e_levels e)) + {#i#}"
      using all_ids_level_set [OF Cons.prems, of l "level_ids (e_levels e) l @ [i]"] by simp
    with Cons.IH [of "add_sst i l (S i) e"] level_set_sorted [OF Cons.prems] show ?case
      unfolding L by (simp add: L(2) p)
  qed (simp add: load_pairs_def)
  then show "sorted_wrt (<) (map fst (e_levels (load_pairs S ps e)))"
    "mset (all_ids (e_levels (load_pairs S ps e))) = mset (all_ids (e_levels e)) + mset (map snd ps)" by blast+
qed

section \<open>Sorting the levels\<close>

lemma sort_levels:
  "map fst (map sort_level ls) = map fst ls" "mset (all_ids (map sort_level ls)) = mset (all_ids ls)"
  "level_ids (map sort_level ls) l = snd (sort_level (l, level_ids ls l))"
  by (induction ls) (auto simp: sort_level_def all_ids_def level_ids_def)

lemma level_ids_member: "sorted_wrt (<) (map fst ls) \<Longrightarrow> (l, ids) \<in> set ls \<Longrightarrow> level_ids ls l = ids"
  using map_of_is_SomeI [of ls l ids] by (simp add: level_ids_def strict_sorted_iff)

lemma sort_ordered:
  assumes "level_ordered P ids" "mset ids' = mset ids"
  shows "sort ids' = ids"
proof (rule properties_for_sort)
  have "sorted_wrt (<) ids" using assms(1) unfolding level_ordered_def by (rule sorted_wrt_mono_rel [rotated]) simp
  then show "sorted ids" by (rule strict_sorted_imp_sorted)
qed (use assms(2) in simp)

lemma sst_plain_vlog [simp]: "sst_plain hash C (s\<lparr>sst_has_vlog := v\<rparr>) ess \<longleftrightarrow> sst_plain hash C s ess"
  by (simp add: sst_plain_def sst_shows_def sst_layout_def reopens_def sst_cache_key_def)


section \<open>An engine that comes back\<close>

text \<open>The files of the live SSTs.\<close>

definition sst_files :: "engine \<Rightarrow> dir_entry list" where
  "sst_files e = map (\<lambda>(l, i). (get_sst_path i l, Some (sst_file (the (map_of (e_ssts e) i))))) (live_pairs (e_levels e))"

text \<open>Level numbers have 64 bits, and no footer can be taken for that of a WiscKey table.\<close>

definition reopenable :: "engine \<Rightarrow> bool" where
  "reopenable e \<longleftrightarrow> (\<forall>(l, ids) \<in> set (e_levels e). l < 2 ^ 64) \<and>
     (\<forall>i \<in> set (all_ids (e_levels e)). drop_bit 56 (sst_max_tranc_id (the (map_of (e_ssts e) i))) \<noteq> 0x4B)"

definition opened_sst :: "engine \<Rightarrow> nat \<Rightarrow> sst" where
  "opened_sst e i = (the (map_of (e_ssts e) i))\<lparr>sst_has_vlog := True\<rparr>"

lemma live_ssts:
  assumes "engine_ok env P e" "i \<in> set (all_ids (e_levels e))"
  obtains s where "map_of (e_ssts e) i = Some s" "sst_id s = i" "sst_plain (env_hash env) (blocks_of P) s (P i)" "i < 2 ^ 31"
proof -
  have "tables_shown (env_hash env) (blocks_of P) (e_ssts e) P (all_ids (e_levels e))"
    using assms(1) unfolding engine_ok_def by blast
  then obtain s where "map_of (e_ssts e) i = Some s" "sst_id s = i" "sst_plain (env_hash env) (blocks_of P) s (P i)"
    using assms(2) unfolding tables_shown_def by blast
  then show thesis by (intro that [of s]) (auto simp: sst_plain_def reopens_def)
qed

lemma load_live:
  assumes "engine_ok env P e" "reopenable e" "mset (filter is_sst_file dir) = mset (sst_files e)"
  shows "\<exists>ps. mset ps = mset (live_pairs (e_levels e)) \<and> load_files env dir e0 = Inr (load_pairs (opened_sst e) ps e0)"
proof -
  obtain ps where ps: "mset ps = mset (live_pairs (e_levels e))"
    "filter is_sst_file dir = map (\<lambda>(l, i). (get_sst_path i l, Some (sst_file (the (map_of (e_ssts e) i))))) ps"
    using mset_map_arrange [OF assms(3) [unfolded sst_files_def]] by blast
  have "i < 2 ^ 64 \<and> l < 2 ^ 64 \<and>
      sst_open (env_hash env) i (sst_file (the (map_of (e_ssts e) i))) True True = Inr (opened_sst e i)"
    if "(l, i) \<in> set ps" for l i
  proof -
    have "(l, i) \<in> set (live_pairs (e_levels e))" using that ps(1) by (metis set_mset_mset)
    then obtain ids where ids: "(l, ids) \<in> set (e_levels e)" "i \<in> set ids" by (auto simp: live_pairs_def)
    then have i: "i \<in> set (all_ids (e_levels e))" by (force simp: all_ids_def)
    obtain s where s: "map_of (e_ssts e) i = Some s" "sst_id s = i" "sst_plain (env_hash env) (blocks_of P) s (P i)" "i < 2 ^ 31"
      by (rule live_ssts [OF assms(1) i])
    have "l < 2 ^ 64" "drop_bit 56 (sst_max_tranc_id s) \<noteq> 0x4B"
      using assms(2) ids(1) i s(1) unfolding reopenable_def by auto
    with s show ?thesis by (simp add: opened_sst_def sst_plain_def reopens_def)
  qed
  with ps load_files_pairs [of ps env "\<lambda>i. sst_file (the (map_of (e_ssts e) i))" "opened_sst e" dir e0] show ?thesis
    by blast
qed

lemma sst_plain_ghost:
  assumes "sst_plain hash (blocks_of P) s (P (sst_id s))" "P' (sst_id s) = P (sst_id s)" "sst_id s < 2 ^ 31"
  shows "sst_plain hash (blocks_of P') s (P (sst_id s))"
proof -
  have "blocks_of P' (sst_cache_key s b) = blocks_of P (sst_cache_key s b)" for b
    by (simp add: blocks_of_def sst_cache_key_def to_int32_small [OF assms(3)] assms(2))
  with assms(1) show ?thesis by (simp add: sst_plain_def sst_shows_def)
qed

lemma engine_open_shows:
  assumes "engine_shows env w e" "mem_records (e_memtable e) = []" "1 \<le> cache_k" "reopenable e"
    "mset (filter is_sst_file dir) = mset (sst_files e)"
  shows "\<exists>e'. engine_open env capacity cache_k dir = Inr e' \<and> engine_shows env w e'"
proof -
  obtain P where P: "engine_ok env P e" "set (engine_records P e) = graph_of w" "l0_length e \<le> env_ratio env"
    using assms(1) unfolding engine_shows_def by blast
  let ?ls = "e_levels e" and ?e0 = "engine_unloaded capacity cache_k"
  obtain ps where ps: "mset ps = mset (live_pairs ?ls)" "load_files env dir ?e0 = Inr (load_pairs (opened_sst e) ps ?e0)"
    using load_live [OF P(1) assms(4,5)] by blast
  define e1 where "e1 = load_pairs (opened_sst e) ps ?e0"
  define e2 where "e2 = engine_loaded e1"
  define P' where "P' = (\<lambda>i. if i \<in> set (all_ids ?ls) then P i else [])"
  have open_ok: "engine_open env capacity cache_k dir = Inr e2" using ps(2) by (simp add: engine_open_def e2_def e1_def)
  have K: "levels_ok P ?ls" "distinct (all_ids ?ls)" "distinct (map eversion (engine_records P e))"
    using P(1) unfolding engine_ok_def by blast+
  have sorted: "sorted_wrt (<) (map fst ?ls)" using K(1) by (simp add: levels_ok_def)
  have ids: "mset (map snd ps) = mset (all_ids ?ls)" using ps(1) live_pairs_ids [of ?ls] by (metis mset_map)
  then have snd_ps: "snd ` set ps = set (all_ids ?ls)" by (metis set_map set_mset_mset)
  have e0: "e_levels ?e0 = []" "e_ssts ?e0 = []" "e_memtable ?e0 = memtable_new" "e_next_sst_id ?e0 = 0"
    "e_store ?e0 = store_new capacity cache_k" by (simp_all add: engine_unloaded_def)
  note F = load_pairs_facts [where S = "opened_sst e" and ps = ps and e = ?e0, folded e1_def, unfolded e0 snd_ps]
  have sorted1: "sorted_wrt (<) (map fst (e_levels e1))" and ids1: "mset (all_ids (e_levels e1)) = mset (all_ids ?ls)"
    using load_pairs_levels [of ?e0 "opened_sst e" ps] ids by (simp_all add: e0 e1_def all_ids_def)
  have level1: "mset (level_ids (e_levels e1) l) = mset (level_ids ?ls l)" for l
  proof -
    have "mset (filter (\<lambda>p. fst p = l) ps) = mset (filter (\<lambda>p. fst p = l) (live_pairs ?ls))" using ps(1) by simp
    then have "mset (map snd (filter (\<lambda>p. fst p = l) ps)) = mset (map snd (filter (\<lambda>p. fst p = l) (live_pairs ?ls)))"
      by (simp only: mset_map)
    then show ?thesis unfolding F(6) live_pairs_level [OF sorted] by (simp add: level_ids_def)
  qed
  have levels2: "e_levels e2 = map sort_level (e_levels e1)" by (simp add: e2_def engine_loaded_def)
  have ids2: "mset (all_ids (e_levels e2)) = mset (all_ids ?ls)" unfolding levels2 sort_levels(2) by (rule ids1)
  then have set2: "set (all_ids (e_levels e2)) = set (all_ids ?ls)" by (metis set_mset_mset)
  have small: "i < 2 ^ 31" if "i \<in> set (all_ids ?ls)" for i by (rule live_ssts [OF P(1) that])
  have "e_next_sst_id e1 < 2 ^ 31" using F(9) [where n = "2 ^ 31"] small by simp
  then have next2: "e_next_sst_id e2 = Suc (e_next_sst_id e1)" by (simp add: e2_def engine_loaded_def)
  have fields2: "e_memtable e2 = memtable_new" "e_store e2 = store_new capacity cache_k" "e_ssts e2 = e_ssts e1"
    using F(1,2) by (simp_all add: e2_def engine_loaded_def)
  have shown: "tables_shown (env_hash env) (blocks_of P') (e_ssts e2) P' (all_ids (e_levels e2))"
    unfolding tables_shown_def
  proof
    fix i
    assume "i \<in> set (all_ids (e_levels e2))"
    then have i: "i \<in> set (all_ids ?ls)" unfolding set2 .
    obtain s where s: "map_of (e_ssts e) i = Some s" "sst_id s = i" "sst_plain (env_hash env) (blocks_of P) s (P i)" "i < 2 ^ 31"
      by (rule live_ssts [OF P(1) i])
    have "P' i = P i" using i by (simp add: P'_def)
    with sst_plain_ghost [of "env_hash env" P s P'] s have "sst_plain (env_hash env) (blocks_of P') s (P' i)" by simp
    with F(4) [OF i] s show "\<exists>s. map_of (e_ssts e2) i = Some s \<and> sst_id s = i \<and> sst_plain (env_hash env) (blocks_of P') s (P' i)"
      unfolding fields2 by (simp add: opened_sst_def)
  qed
  have ordered: "level_ordered P' ids" if mem: "(l, ids) \<in> set (e_levels e2)" and deep: "l \<noteq> 0" for l ids
  proof -
    obtain x where x: "x \<in> set (e_levels e1)" "(l, ids) = sort_level x" using mem unfolding levels2 by auto
    define ids1 where "ids1 = snd x"
    have i: "(l, ids1) \<in> set (e_levels e1)" "ids = sort ids1"
      using x deep unfolding sort_level_def ids1_def by (cases x; simp)+
    have o: "level_ordered P (level_ids ?ls l)" by (rule levels_ok_ids [OF K(1) deep])
    have "ids = level_ids ?ls l"
      unfolding i(2) by (rule sort_ordered [OF o]) (simp add: level1 [symmetric] level_ids_member [OF sorted1 i(1)])
    with o level_ids_subset [of ?ls l] show ?thesis by (intro level_ordered_cong [of _ P' P]) (auto simp: P'_def)
  qed
  have records: "mset (engine_records P' e2) = mset (engine_records P e)"
  proof -
    have "mem_records (e_memtable e2) = []"
      unfolding fields2 by (simp add: mem_records_def mem_tables_def memtable_new_def table_entries_abs [OF table_new_ok])
    moreover have "mset (ids_records P' (all_ids (e_levels e2))) = mset (ids_records P (all_ids ?ls))"
    proof -
      have "ids_records P' (all_ids ?ls) = ids_records P (all_ids ?ls)" by (rule ids_records_cong) (simp add: P'_def)
      with ids_records_mset [OF ids2, of P'] show ?thesis by simp
    qed
    ultimately show ?thesis using assms(2) by (simp add: engine_records_def)
  qed
  have "engine_ok env P' e2"
    unfolding engine_ok_def
  proof (intro conjI)
    show "store_holds (blocks_of P') (e_store e2)" unfolding fields2 by (rule store_new_holds [OF assms(3)])
    show "mem_ok (e_memtable e2)" unfolding fields2 by (rule memtable_new_ok)
    show "distinct (all_ids (e_levels e2))" using ids2 K(2) mset_eq_imp_distinct_iff by blast
    show "levels_ok P' (e_levels e2)"
      unfolding levels_ok_def
    proof
      show "sorted_wrt (<) (map fst (e_levels e2))" unfolding levels2 sort_levels(1) by (rule sorted1)
      show "\<forall>(l, ids) \<in> set (e_levels e2). l \<noteq> 0 \<longrightarrow> level_ordered P' ids" using ordered by blast
    qed
    show lt: "\<forall>i \<in> set (all_ids (e_levels e2)). i < e_next_sst_id e2" unfolding set2 next2 using F(8) by (auto simp: less_Suc_eq_le)
    show "\<forall>i \<ge> e_next_sst_id e2. P' i = []" using lt unfolding set2 P'_def by auto
    show "distinct (map eversion (engine_records P' e2))" by (rule mset_distinct_versions [OF records [symmetric] K(3)])
  qed (rule shown)
  moreover have "l0_length e2 \<le> env_ratio env"
    using P(3) mset_eq_length [OF level1 [of 0]] by (simp add: l0_length_def levels2 sort_levels(3) sort_level_def)
  moreover have "set (engine_records P' e2) = graph_of w" using P(2) records by (metis set_mset_mset)
  ultimately show ?thesis using open_ok unfolding engine_shows_def by blast
qed


section \<open>Names that stop the constructor\<close>

text \<open>A regular file such as "sst_a.b" passes the test of the name, and \<open>std::stoull\<close> throws.\<close>

lemma bad_name_stops:
  "engine_open env capacity cache_k [([0x73, 0x73, 0x74, 0x5F, 0x61, 0x2E, 0x62], Some f)] = Inl Invalid_Argument"
  by (simp add: engine_open_def load_file_def is_sst_file_def sst_prefix_def dot_pos_def stoull_def split_sign_def
      is_space_def is_digit_def word_le_nat_alt)

section \<open>Properties\<close>

lemma ops_fit_append: "ops_fit w (xs @ ys) \<longleftrightarrow> ops_fit w xs \<and> ops_fit (engine_writes xs w) ys"
  by (induction xs arbitrary: w) auto

lemma engine_writes_append: "engine_writes (xs @ ys) w = engine_writes ys (engine_writes xs w)"
  by (induction xs arbitrary: w) auto

text \<open>C7: an engine survives a restart. If its memory is empty (see \<open>flush_all\<close>) and the
  directory holds the files of its live SSTs under their names, in any order and among any files
  that are not taken for SSTs, the constructor succeeds on the directory; and the history goes
  on: after any further operations a read returns the newest readable record of all that was
  written before and after the restart.\<close>

theorem restart_keeps_history:
  assumes "env_ok env" "1 \<le> cache_k" "1 \<le> cache_k'" "ops_fit Map.empty (ops @ ops')"
    and e: "e = engine_run env ops (engine_new capacity cache_k)"
    and dir: "mem_records (e_memtable e) = []" "reopenable e" "mset (filter is_sst_file dir) = mset (sst_files e)"
    and k: "k \<noteq> []"
  shows "\<exists>e0 e'. engine_open env capacity' cache_k' dir = Inr e0 \<and> e' = engine_run env ops' e0 \<and>
    (case e_tran_manager e' of
       None \<Rightarrow> engine_get env k t rc e' = (Inl Runtime_Error, e')
     | Some m \<Rightarrow> \<exists>r e''. engine_get env k t rc e' = (Inr (visible r), e'') \<and>
         newest (graph_of (engine_writes (ops @ ops') Map.empty)) k t (Some (\<lambda>tid. tm_should_skip_read m tid rc)) r)"
proof -
  have fit: "ops_fit Map.empty ops" "ops_fit (engine_writes ops Map.empty) ops'"
    using assms(4) by (simp_all add: ops_fit_append)
  have "engine_shows env (engine_writes ops Map.empty) e" unfolding e by (rule history_shows [OF assms(1,2) fit(1)])
  from engine_open_shows [OF this dir(1) assms(3) dir(2,3)] obtain e0 where
    e0: "engine_open env capacity' cache_k' dir = Inr e0" "engine_shows env (engine_writes ops Map.empty) e0" by blast
  let ?e = "engine_run env ops' e0"
  obtain P where P: "engine_ok env P ?e" "set (engine_records P ?e) = graph_of (engine_writes (ops @ ops') Map.empty)"
    using run_shows [OF assms(1) e0(2) fit(2)] unfolding engine_shows_def engine_writes_append by blast
  show ?thesis
  proof (rule exI [of _ e0], rule exI [of _ ?e], intro conjI e0(1) refl)
    show "case e_tran_manager ?e of
       None \<Rightarrow> engine_get env k t rc ?e = (Inl Runtime_Error, ?e)
     | Some m \<Rightarrow> \<exists>r e''. engine_get env k t rc ?e = (Inr (visible r), e'') \<and>
         newest (graph_of (engine_writes (ops @ ops') Map.empty)) k t (Some (\<lambda>tid. tm_should_skip_read m tid rc)) r"
    proof (cases "e_tran_manager ?e")
      case None
      then show ?thesis by (simp add: engine_get_def cbind_def eget_def cthrow_def)
    next
      case (Some m)
      from engine_get_spec [OF P(1) k Some, of t rc] P(2) Some show ?thesis by fastforce
    qed
  qed
qed

section \<open>An example\<close>

text \<open>One record is written and flushed; the engine is opened again from the file.\<close>

definition restart_env :: engine_env where
  "restart_env = sample_env\<lparr>env_per_mem := 0\<rparr>"

lemma restart_env_ok: "env_ok restart_env"
  using sample_ok by (simp add: env_ok_def restart_env_def)

definition restart_builder :: sst_builder where
  "restart_builder = \<lparr>sb_block = block_new 4096, sb_first_key = [], sb_last_key = [], sb_meta_entries = [],
     sb_data = [], sb_block_size = 4096, sb_bloom_filter = Some \<lparr>bf_expected = 16, bf_rate = 5, bf_num_bits = 160,
     bf_num_hashes = 7, bf_bits = replicate 160 False\<rparr>, sb_min_tranc_id = - 1, sb_max_tranc_id = 0,
     sb_storage_mode = 0, sb_has_vlog = False, sb_wisckey_threshold = 0\<rparr>"

lemma restart_builder: "new_builder restart_env = Inr restart_builder"
  by (simp add: new_builder_def restart_env_def sample_env_def builder_new_def builder_bloom_def bloom_new_def
      rate_valid_def restart_builder_def)

lemma bloom_encode_length: "bloom_ok bf \<Longrightarrow> \<exists>bs. bloom_encode bf = Inr bs \<and> length bs = 32 + bytes_for (unat (bf_num_bits bf))"
  using length_pack_bits [of "bf_bits bf"] by (auto simp: bloom_encode_def bloom_ok_def unsigned_eq_0_iff)

lemma restart_added:
  "\<exists>b1 bf. add_all (builder_add h) restart_builder [([1], [2], 3)] = Inr b1 \<and> 
     sb_block b1 = \<lparr>bdata = enc_entry ([1], [2], 3), boffsets = [0], bcapacity = 4096\<rparr> \<and> sb_first_key b1 = [1] \<and>
     sb_last_key b1 = [1] \<and> sb_meta_entries b1 = [] \<and> sb_data b1 = [] \<and> sb_bloom_filter b1 = Some bf \<and> bloom_ok bf \<and>
     bf_num_bits bf = 160 \<and> sb_max_tranc_id b1 = 3 \<and> sb_storage_mode b1 = 0"
  by (simp add: restart_builder_def builder_add_def Let_def builder_note_def builder_stored_def block_add_entry_def block_new_def)
    (intro conjI bloom_add_ok, simp_all add: bloom_ok_def rate_valid_def bloom_add_def)

lemma restart_built:
  "\<exists>s. ebind (add_all (builder_add h) restart_builder [([1], [2], 3)]) (builder_build h (\<lambda>f. length f < 2 ^ 32) 1 True) = Inr s \<and>
     sst_max_tranc_id s = 3"
proof -
  obtain b1 bf where b1: "add_all (builder_add h) restart_builder [([1], [2], 3)] = Inr b1"
    "sb_block b1 = \<lparr>bdata = enc_entry ([1], [2], 3), boffsets = [0], bcapacity = 4096\<rparr>" "sb_first_key b1 = [1]"
     "sb_last_key b1 = [1]" "sb_meta_entries b1 = []" "sb_data b1 = []" "sb_bloom_filter b1 = Some bf" "bloom_ok bf"
     "bf_num_bits bf = 160" "sb_max_tranc_id b1 = 3" "sb_storage_mode b1 = 0"
    using restart_added by blast
  obtain bs where bs: "bloom_encode bf = Inr bs" "length bs = 32 + bytes_for 160"
    using bloom_encode_length [OF b1(8)] by (auto simp: b1(9))
  show ?thesis
    unfolding b1(1) ebind_simps
    by (simp add: b1(2-) bs builder_build_def builder_finish_block_def block_encode_def Let_def block_is_empty_def create_and_write_def
       encode_meta_to_slice_def meta_total_def meta_entry_bytes_def meta_key_bytes_def enc_entry_def sst_footer_def bytes_for_def)
qed

definition restart_ops :: "engine_op list" where
  "restart_ops = [E_Put [1] [2] 3 (\<lambda>_. False)]"

lemma restart_flushed:
  assumes "mem_ok (e_memtable e)" "frozen_tables (e_memtable e) = [t]"
    "table_entries t = [([1], [2], 3)]" "table_entries (current_table (e_memtable e)) = []"
  shows "\<exists>s m. flush_table restart_env (Suc 0) restart_builder e = (Inr (Some s, []), e\<lparr>e_memtable := m\<rparr>) \<and>
    mem_records m = [] \<and> sst_max_tranc_id s = 3"
proof -
  let ?m = "e_memtable e"
  have io: "env_hash restart_env = (\<lambda>_. 0)" "env_io restart_env (Suc 0) = (\<lambda>f. length f < 2 ^ 32)"
    by (simp_all add: restart_env_def sample_env_def)
  define build where "build = builder_build (\<lambda>_. 0) (\<lambda>f. length f < 2 ^ 32) (Suc 0) True"
  obtain s where s: "ebind (add_all (builder_add (\<lambda>_. 0)) restart_builder [([1], [2], 3)]) build = Inr s" "sst_max_tranc_id s = 3"
    using restart_built [of "\<lambda>_. 0"] unfolding build_def One_nat_def by blast
  have src: "flush_source ?m = Some t" by (simp add: flush_source_def assms(2))
  let ?m' = "?m\<lparr>frozen_tables := [], frozen_bytes := frozen_bytes ?m - skiplist_get_size t\<rparr>"
  have "memtable_flush_last (builder_add (\<lambda>_. 0)) build ?m restart_builder [] = (Inr (Some s), ?m', [])"
    using memtable_flush_last_spec [OF assms(1), of "builder_add (\<lambda>_. 0)" build restart_builder "[]"] s(1)
    by (simp add: src assms(2,3) freeze_for_flush_def commit_marks_def Let_def)
  moreover have "mem_records ?m' = []" by (simp add: mem_records_def mem_tables_def assms(4))
  ultimately show ?thesis
    using s(2) unfolding flush_table_def io build_def [symmetric] by auto
qed

lemma restart_run:
  "\<exists>s. e_levels (engine_run restart_env restart_ops (engine_new 2 1)) = [(0, [1])] \<and>
     e_ssts (engine_run restart_env restart_ops (engine_new 2 1)) = [(1, s)] \<and> sst_max_tranc_id s = 3 \<and>
     mem_records (e_memtable (engine_run restart_env restart_ops (engine_new 2 1))) = []"
proof -
  obtain m t where m: "memtable_put 0 memtable_new [1] [2] 3 (\<lambda>_. False) = Inr m" "mem_ok m" "frozen_tables m = [t]"
    "table_entries t = [([1], [2], 3)]" "table_entries (current_table m) = []"
    using memtable_one_put by auto
  define e0 where "e0 = engine_new 2 1"
  have e0: "e_memtable e0 = memtable_new" "e_levels e0 = []" "e_ssts e0 = []" "e_next_sst_id e0 = Suc 0"
    by (simp_all add: engine_new_def e0_def)
  define e1 where "e1 = e0\<lparr>e_memtable := m, e_next_sst_id := Suc (Suc 0)\<rparr>"
  have e1: "e_memtable e1 = m" "e_levels e1 = []" "e_ssts e1 = []" by (simp_all add: e1_def e0)
  obtain s m' where f: "flush_table restart_env (Suc 0) restart_builder e1 = (Inr (Some s, []), e1\<lparr>e_memtable := m'\<rparr>)"
    "mem_records m' = []" "sst_max_tranc_id s = 3"
    using restart_flushed [of e1 t] m by (auto simp: e1)
  have size: "memtable_get_total_size m \<noteq> 0"
    using total_size_records [OF m(2)] by (simp add: mem_records_def mem_tables_def m(3-5) total_size_def entry_size_def)
  have lim: "env_per_mem restart_env = 0" "env_tol_mem restart_env = 0" by (simp_all add: restart_env_def sample_env_def)
  have take: "take_sst_id (e0\<lparr>e_memtable := m\<rparr>) = (Inr (Suc 0), e1)" by (simp add: take_sst_id_def e0 e1_def)
  have flush: "engine_flush restart_env (e0\<lparr>e_memtable := m\<rparr>) =
      (Inr (snd (sst_tranc_id_range s)), notify_flushed [] (register_l0 (Suc 0) s (e1\<lparr>e_memtable := m'\<rparr>)))"
    using size f(1) take by (simp add: engine_flush_def cbind_def eget_def e0 cret_def restart_builder emod_def)
  have "engine_put restart_env [1] [2] 3 (\<lambda>_. False) e0 =
     (Inr (snd (sst_tranc_id_range s)), notify_flushed [] (register_l0 (Suc 0) s (e1\<lparr>e_memtable := m'\<rparr>)))"
    using flush by (simp add: engine_put_def ememtable_def cbind_def e0 lim m(1) flush_if_full_def eget_def)
  then have "engine_run restart_env restart_ops e0 = notify_flushed [] (register_l0 (Suc 0) s (e1\<lparr>e_memtable := m'\<rparr>))"
    by (simp add: restart_ops_def cbind_def cret_def)
  then show ?thesis
    unfolding e0_def [symmetric] using f(2,3) by (simp add: notify_flushed_def register_l0_def e1 level_ids_def)
qed

definition restart_dir :: "dir_entry list" where
  "restart_dir = ([115, 115, 116, 115], Some []) # ([119, 97, 108, 46, 49], Some []) # sst_files (engine_run restart_env restart_ops (engine_new 2 1))"

text \<open>The directory also holds files called "ssts" and "wal.1".\<close>

theorem restart_keeps_history_witness:
  "\<exists>e0. engine_open restart_env 2 1 restart_dir = Inr e0 \<and>
     fst (engine_get restart_env [1] 4 True (engine_run restart_env [E_Manager (Some sample_manager)] e0)) = Inr (Some ([2], 3))"
proof -
  define e where "e = engine_run restart_env restart_ops (engine_new 2 1)"
  obtain s where s: "e_levels e = [(0, [1])]" "e_ssts e = [(1, s)]" "sst_max_tranc_id s = 3" "mem_records (e_memtable e) = []"
    using restart_run unfolding e_def by blast
  have fit: "ops_fit Map.empty (restart_ops @ [E_Manager (Some sample_manager)])"
    by (simp add: restart_ops_def op_fits_def)
  have re: "reopenable e" by (simp add: reopenable_def s all_ids_def)
  have "filter is_sst_file (sst_files e) = sst_files e"
    by (rule filter_True) (auto simp: sst_files_def path_parts(4))
  then have dir: "mset (filter is_sst_file restart_dir) = mset (sst_files e)"
    unfolding restart_dir_def e_def [symmetric] by (simp add: is_sst_file_def sst_prefix_def dot_pos_def)
  obtain e0 e' where r: "engine_open restart_env 2 1 restart_dir = Inr e0" "e' = engine_run restart_env [E_Manager (Some sample_manager)] e0"
    "case e_tran_manager e' of
       None \<Rightarrow> engine_get restart_env [1] 4 True e' = (Inl Runtime_Error, e')
     | Some m \<Rightarrow> \<exists>r e''. engine_get restart_env [1] 4 True e' = (Inr (visible r), e'') \<and>
         newest (graph_of (engine_writes (restart_ops @ [E_Manager (Some sample_manager)]) Map.empty)) [1] 4
           (Some (\<lambda>tid. tm_should_skip_read m tid True)) r"
    using restart_keeps_history [where k = "[1]" and t = 4 and rc = True, OF restart_env_ok order.refl order.refl fit e_def s(4) re dir]
    by blast
  have man: "e_tran_manager e' = Some sample_manager" by (simp add: r(2) engine_set_tran_manager_def emod_def)
  obtain r e'' where g: "engine_get restart_env [1] 4 True e' = (Inr (visible r), e'')"
    "newest (graph_of (engine_writes (restart_ops @ [E_Manager (Some sample_manager)]) Map.empty)) [1] 4
           (Some (\<lambda>tid. tm_should_skip_read sample_manager tid True)) r"
    using r(3) unfolding man by auto
  have "r = Some ([2], 3)"
    using g(2) by (auto simp: newest_def candidates_def graph_of_def restart_ops_def engine_write_def batch_map_def
        sample_manager_def tm_should_skip_read_def readable_def split: option.splits if_splits)
  with g(1) r(1,2) show ?thesis by (simp add: visible_def)
qed

end
