(* ===== verification/Spec2Isabelle.thy ===== *)
theory Spec2Isabelle
  imports SkipList_Range MemTable_History MemTable_Scan BlockIterator BlockMeta BlockCache
    SstIter_Range Wal Tran_Manager Tran_History Engine_Ends Engine_Open
begin

text \<open>
  A verification library for KopiDB, a key-value store with a log-structured merge tree
  (C++20, sources under src/).

  How the program works. A write (key, value, id) goes to the active skip list of the
  memtable. An active table over the size limit is frozen. A flush writes the oldest frozen table,
  with all versions of every key, to a sorted string table file of checksummed blocks with a meta
  section; later merges move records down the levels. A read asks the memtable first, then the
  files, and takes the newest version within its bound that is not skipped. Transactions buffer
  their writes or write through, log to a write-ahead log, and are numbered and settled by the
  transaction manager, whose sets survive in a state file. A restart finds the tables by the names
  of their files.

  Theories, in the order of the data path:
  \<^item> Kopi_Prelude: bytes, machine words, exceptions as values (\<open>ebind\<close>), records with
    the version order, the read rule \<open>readable\<close>, the specification \<open>newest\<close> of a
    point lookup, monotone range predicates, little-endian integers, and the interface
    \<open>versioned_source\<close> (a lookup returns the newest readable record), whose lemmas
    compose sources.
  \<^item> SkipList, SkipList_Range: src/skiplist/skipList.cpp. Nodes live in an arena and carry
    their forward and backward pointers; a null pointer is \<open>None\<close>. The representation
    predicate \<open>rep\<close> says that every level is a doubly linked chain of the nodes that are
    high enough, and \<open>sl_abs\<close> relates a list to its sorted records. Each operation is proved
    to refine the operation on records; histories follow.
  \<^item> HeapIter: src/iterator/iterator.cpp, the merge iterator of all scans.
  \<^item> MemTable, MemTable_Scan, MemTable_History: src/memtable/memtable.cpp. Tables and table sets
    are interpretations of \<open>versioned_source\<close>; scans are proved to agree with lookups,
    a flush to lose nothing, and histories to refine a map from versions to values.
  \<^item> Block, Block_Search, BlockIterator: src/block/block.cpp and block_iterator.cpp, down to the
    bytes. \<open>block_holds\<close> relates a block to its records; searches and iterators are
    proved against it.
  \<^item> BlockMeta, BlockCache: src/block/blockmeta.cpp and block_cache.cpp.
  \<^item> BloomFilter: src/utils/bloom_filter.cpp. Store: file objects and the shared block cache, with
    the computations on a state that all readers and the engine are written in, and the two forms of
    specification for them, \<open>spec\<close> (returns a value) and \<open>triple\<close> (a value or an
    exception).
  \<^item> Sst, Sst_Build, Sst_Read, Sst_File: src/sst/sst.cpp. \<open>sst_layout\<close> relates a table file
    to the records of its blocks, \<open>sst_shows\<close> adds the cache.
  \<^item> SstIter, SstIter_Scan, SstIter_Range: src/sst/sst_iterator.cpp, lookups, scans and ranges of one
    table over any cache state.
  \<^item> Merge_Iter, Merge_Stream: src/sst/concact_iterator.cpp and src/lsm/two_merge_iterator.cpp. The
    virtual functions of BaseIterator are a record of functions, its contract is the locale
    \<open>record_stream\<close>; the merge of any two streams is a stream.
  \<^item> Engine: the class LSMEngine of src/src/lsm/engine.cpp. Every operation is a state
    transformer that may throw; a result is an exception or a value together with the state that is
    left. Engine_Read: point lookups over all levels. Engine_Gen: \<open>gen_sst_from_iter\<close> over
    any stream. Engine_State: the invariant \<open>engine_ok\<close>, with a ghost function that gives the
    records of every SST id. Engine_Compact, Engine_Flush: compactions and flushes keep the records,
    whether they succeed or throw. Engine_History: any history refines one map from (key, version)
    to value (\<open>engine_shows\<close>).
  \<^item> Engine_Range: range queries. Level_Iter, Level_Scan: src/src/lsm/level_iterator.cpp, the scan
    over memtable and all levels. Both agree with the point reads. Engine_Ends: every call ends.
  \<^item> Engine_Open: the constructor on a directory, with the names of the files. An engine whose
    memory was flushed comes back from its files and its history goes on.
  \<^item> Lsm: the class LSM, with the loop that flushes everything.
  \<^item> Wal_Record: src/wal/record.cpp, the log record format. Wal: src/wal/wal.cpp, the log over a
    directory of files, with every answer of the file system as an argument.
  \<^item> Tran_Manager: the class TranManager of src/lsm/transation.cpp, with an inductive reachability
    relation over its operations and restarts.
  \<^item> Tran_Context: the class TranContext of the same file, \<open>put\<close>, \<open>remove\<close>,
    \<open>get\<close> by isolation level, \<open>commit\<close> with its conflict checks and its log,
    \<open>abort\<close>. Tran_Spec, Tran_Inv, Tran_Commit: what each call does to the records, the
    statuses and the log, and the invariant of one context. Tran_System, Tran_History: one engine,
    one log and any number of contexts whose calls interleave; isolation and durability.

  Conventions. A property of the program is a theorem that follows a text block with its number
  C1, C2, ...; a theorem with the suffix \<open>_witness\<close> applies it to concrete values.
  Sizes of memory tables and ids are 64-bit words with wrap-around; indices and byte counts that
  the code checks before use are natural numbers. Undefined behaviour is the exception
  \<open>Undefined\<close>: a null pointer, an empty optional, and an index out of range in the searches
  and iterators (\<open>vec_at\<close>); a loop that runs out of fuel is \<open>Diverges\<close>. The theorems
  exclude both. An element is read with the total \<open>!\<close> of HOL only where the same function
  has just compared the index with the length, and in the Bloom filter, whose positions are taken
  modulo the number of bits (\<open>bloom_hash_bound\<close>).

  Loops. Loops that follow pointers are partial functions into \<open>option\<close>, so that not
  returning is \<open>None\<close>; that they return is part of every theorem about them. The other
  loops have fuel, and are proved to finish within it: the traversal of a block the number of its
  records; an iterator of an SST (\<open>sit_fuel\<close>) the bytes of the file plus 1, since every
  record takes a byte; a chain of SSTs and the two-way merge the sum over their parts;
  \<open>compact_fuel\<close> the number of levels plus 1, since a compaction recurses one level down;
  \<open>flush_fuel\<close> the number of memory tables plus 1, since every flush takes one;
  \<open>level_fuel\<close> the fuel of all streams plus 1, since every turn consumes one.

  Parameters and assumptions. The coins of \<open>std::mt19937\<close> and \<open>std::hash\<close> are
  arbitrary functions; the size limits of the configuration and the outcome of the floating point
  sizing of a Bloom filter are arguments; every file operation may fail. \<open>env_ok\<close>: a write
  of an SST succeeds only below 4 GB and for ids below 2 ^ 31 (the footer and the cache have 32 bits),
  values are stored inline (the value log is a stub), the level ratio is positive.
  \<open>ops_fit\<close>: a version of a key is written once, keys are not empty (the empty key marks
  commits). \<open>db_allowed\<close>: in addition calls are on existing contexts, ids do not run out, and
  a READ UNCOMMITTED transaction writes a key once. Each call is one step, as its locks make it.
  \<open>commit\<close> holds the locks of the memory tables from its conflict checks to the end of its
  writes; it releases them before it flushes full tables, so in the code other calls may run before
  that last part, which the model keeps in the same step (a flush changes no answer of a read).
  Unordered maps are association lists.

  Not modelled, and why. \<open>TranManager::init_new_wal\<close> and \<open>check_recover\<close>: the
  replay they are for is a stub (\<open>WAL::recover\<close> returns an empty map, and LSM::LSM is a
  TODO). The cleaner thread of the log (it calls \<open>cleanWALFile\<close> at intervals), logging,
  TOML parsing, the wrappers of operating system files and of memory mapping, the value log beyond
  its stubs, deletion of files. The Redis layer, the server and the Python binding are clients of
  the store.
\<close>

end
